(* ===== verification/Prelude.thy ===== *)
theory Prelude
  imports Main "HOL-Library.Sublist"
begin

text \<open>
  What every component of the model shares: the JavaScript string operations the sources use,
  the error values that stand for thrown exceptions, insertion-ordered maps, and the lemma
  collections the component proofs pass to the simplifier.

  A JavaScript string is a list of UTF-16 code units, and a code unit is the number that
  \<open>charCodeAt\<close> returns. \<open>js\<close> embeds an ASCII literal. Lines and columns of the sources are named
  in the manifest, not here.
\<close>

section \<open>Strings\<close>

type_synonym code_unit = nat
type_synonym jstring = "code_unit list"

definition js :: "string \<Rightarrow> jstring" where
  "js s = map of_char s"

named_theorems js_eval \<open>evaluation of string literals, used where two literals are compared\<close>

lemma js_Nil [js_eval]: "js [] = []"
  by (simp add: js_def)

lemma js_Cons [js_eval]: "js (c # cs) = of_char c # js cs"
  by (simp add: js_def)

lemma length_js [simp]: "length (js s) = length s"
  by (simp add: js_def)

lemma js_eq_Nil [simp]: "js s = [] \<longleftrightarrow> s = []"
  by (simp add: js_def)

definition char_at :: "jstring \<Rightarrow> nat \<Rightarrow> code_unit option" where
  \<comment> \<open>\<open>s[i]\<close>: \<open>undefined\<close> past the end.\<close>
  "char_at s i = (if i < length s then Some (s ! i) else None)"

definition starts_with :: "'a list \<Rightarrow> 'a list \<Rightarrow> bool" where
  "starts_with s p = (take (length p) s = p)"

lemma starts_with_prefix: "starts_with s p \<longleftrightarrow> prefix p s"
  unfolding starts_with_def by (metis append_eq_conv_conj prefix_def)

fun includes_sub :: "'a list \<Rightarrow> 'a list \<Rightarrow> bool" where
  "includes_sub [] p = (p = [])"
| "includes_sub (c # s) p = (starts_with (c # s) p \<or> includes_sub s p)"

lemma includes_sub_iff: "includes_sub s p \<longleftrightarrow> (\<exists>a b. s = a @ p @ b)"
proof (induction s)
  case Nil
  then show ?case by simp
next
  case (Cons c s)
  have "(\<exists>a b. c # s = a @ p @ b) \<longleftrightarrow> (\<exists>b. c # s = p @ b) \<or> (\<exists>a b. s = a @ p @ b)"
    by (metis Cons_eq_append_conv append_Cons self_append_conv2)
  with Cons show ?case by (auto simp: starts_with_prefix prefix_def)
qed

fun split_on :: "'a \<Rightarrow> 'a list \<Rightarrow> 'a list list" where
  \<comment> \<open>\<open>s.split(c)\<close> for a separator of one code unit.\<close>
  "split_on x [] = [[]]"
| "split_on x (c # s) =
     (if c = x then [] # split_on x s
      else case split_on x s of [] \<Rightarrow> [[c]] | w # ws \<Rightarrow> (c # w) # ws)"

fun join_with :: "'a list \<Rightarrow> 'a list list \<Rightarrow> 'a list" where
  \<comment> \<open>\<open>ws.join(sep)\<close>\<close>
  "join_with sep [] = []"
| "join_with sep [w] = w"
| "join_with sep (w # v # ws) = w @ sep @ join_with sep (v # ws)"

lemma split_on_ne [simp]: "split_on x s \<noteq> []"
  by (induction s) (auto split: list.splits)

lemma split_on_no_sep: "x \<notin> set s \<Longrightarrow> split_on x s = [s]"
  by (induction s) auto

lemma split_on_append_sep:
  "x \<notin> set s \<Longrightarrow> split_on x (s @ x # t) = s # split_on x t"
  by (induction s) auto

lemma split_on_parts: "w \<in> set (split_on x s) \<Longrightarrow> x \<notin> set w"
  by (induction s arbitrary: w) (auto split: list.splits if_splits)

definition is_js_space :: "code_unit \<Rightarrow> bool" where
  \<comment> \<open>The white space and line terminators that \<open>trim\<close> removes.\<close>
  "is_js_space c \<longleftrightarrow> c \<in> {9, 10, 11, 12, 13, 32, 160, 5760, 8232, 8233, 8239, 8287, 12288, 65279}
     \<or> (8192 \<le> c \<and> c \<le> 8202)"

definition trim :: "jstring \<Rightarrow> jstring" where
  "trim s = rev (dropWhile is_js_space (rev (dropWhile is_js_space s)))"

lemma trim_id:
  assumes "s \<noteq> []" and "\<not> is_js_space (hd s)" and "\<not> is_js_space (last s)"
  shows "trim s = s"
proof -
  from assms have "dropWhile is_js_space s = s"
    by (cases s) auto
  moreover from assms have "dropWhile is_js_space (rev s) = rev s"
    by (cases s rule: rev_cases) auto
  ultimately show ?thesis by (simp add: trim_def)
qed

text \<open>
  \<open>toLowerCase\<close>. The sources compare its result with ASCII names only, so the units that matter
  are the ASCII capitals and the two others whose lower case holds an ASCII letter: the Kelvin
  sign, and the dotted capital I, whose lower case is two units. Every other unit stays as it
  is, and so stays outside ASCII.
\<close>

definition lower_unit :: "code_unit \<Rightarrow> jstring" where
  "lower_unit c =
     (if 65 \<le> c \<and> c \<le> 90 then [c + 32]
      else if c = 8490 then [107]
      else if c = 304 then [105, 775]
      else [c])"

definition to_lower :: "jstring \<Rightarrow> jstring" where
  "to_lower s = concat (map lower_unit s)"

fun nat_digits :: "nat \<Rightarrow> jstring" where
  \<comment> \<open>\<open>String(n)\<close> for a natural number.\<close>
  "nat_digits n = (if n < 10 then [48 + n] else nat_digits (n div 10) @ [48 + n mod 10])"

declare nat_digits.simps [simp del]

definition int_digits :: "int \<Rightarrow> jstring" where
  "int_digits i = (if i < 0 then 45 # nat_digits (nat (- i)) else nat_digits (nat i))"

definition is_digit :: "code_unit \<Rightarrow> bool" where
  "is_digit c \<longleftrightarrow> 48 \<le> c \<and> c \<le> 57"

lemma nat_digits_nonempty [simp]: "nat_digits n \<noteq> []"
  by (subst nat_digits.simps) simp

lemma nat_digits_digits: "list_all is_digit (nat_digits n)"
proof (induction n rule: nat_digits.induct)
  case (1 n)
  have "n mod 10 < 10" by simp
  then have "is_digit (48 + n mod 10)" unfolding is_digit_def by linarith
  moreover have "n < 10 \<Longrightarrow> is_digit (48 + n)" unfolding is_digit_def by linarith
  ultimately show ?case
    using 1 by (subst nat_digits.simps) simp
qed

lemma length_nat_digits: "n < 10 ^ k \<Longrightarrow> 0 < k \<Longrightarrow> length (nat_digits n) \<le> k"
proof (induction n arbitrary: k rule: nat_digits.induct)
  case (1 n)
  show ?case
  proof (cases "n < 10")
    case True
    with 1 show ?thesis by (subst nat_digits.simps) simp
  next
    case False
    with "1.prems" obtain j where k: "k = Suc j" and "0 < j"
      by (cases k; cases "k - 1") auto
    with "1.prems" have "n div 10 < 10 ^ j" by simp
    with False \<open>0 < j\<close> "1.IH" have "length (nat_digits (n div 10)) \<le> j" by simp
    with False k show ?thesis by (subst nat_digits.simps) simp
  qed
qed

section \<open>Errors\<close>

text \<open>
  The codes of \<open>ERROR_CODES\<close>. An exception is a value: \<open>Assertion\<close> for a failed \<open>invariant\<close>
  (an \<open>AssertionError\<close> of \<open>node:assert\<close>), \<open>Cli\<close> for a \<open>CliError\<close> made by \<open>makeCliError\<close>, and
  \<open>Plain\<close> for any other \<open>Error\<close>.
\<close>

datatype protocol_code =
    SESSION_NOT_FOUND | SESSION_NOT_RUNNING | SESSION_ALREADY_DESTROYED | HOST_UNREACHABLE
  | HOST_TIMEOUT | INVALID_SESSION_ID | INVALID_DIMENSIONS | INVALID_SIGNAL | INVALID_KEYS
  | INVALID_DURATION | INVALID_INPUT | CAPABILITY_UNAVAILABLE | STORAGE_READ_ERROR
  | STORAGE_WRITE_ERROR | MANIFEST_VALIDATION_ERROR | RPC_ERROR | PROTOCOL_ERROR | EXPORT_ERROR
  | REPLAY_ERROR | SKILL_NOT_FOUND | WAIT_TIMEOUT | INTERNAL_ERROR

datatype js_error = Assertion jstring | Cli protocol_code jstring | Plain jstring

type_synonym 'a res = "js_error + 'a"

definition error_message :: "js_error \<Rightarrow> jstring" where
  "error_message e = (case e of Assertion m \<Rightarrow> m | Cli _ m \<Rightarrow> m | Plain m \<Rightarrow> m)"

definition default_retryable :: "protocol_code \<Rightarrow> bool" where
  "default_retryable c \<longleftrightarrow> c \<in> {HOST_UNREACHABLE, HOST_TIMEOUT, RPC_ERROR}"

definition check :: "bool \<Rightarrow> string \<Rightarrow> 'a res \<Rightarrow> 'a res" where
  \<comment> \<open>\<open>invariant(condition, message)\<close> followed by the rest of the function body.\<close>
  "check b msg k = (if b then k else Inl (Assertion (js msg)))"

definition check_str :: "bool \<Rightarrow> jstring \<Rightarrow> 'a res \<Rightarrow> 'a res" where
  \<comment> \<open>The same with a message that the code builds.\<close>
  "check_str b msg k = (if b then k else Inl (Assertion msg))"

definition bind_res :: "'a res \<Rightarrow> ('a \<Rightarrow> 'b res) \<Rightarrow> 'b res" where
  \<comment> \<open>A call whose exception passes through the caller.\<close>
  "bind_res m f = (case m of Inl e \<Rightarrow> Inl e | Inr x \<Rightarrow> f x)"

named_theorems res_simps \<open>evaluation of error results\<close>

lemma check_simps [simp, res_simps]:
  "check True msg k = k"
  "check False msg k = Inl (Assertion (js msg))"
  by (simp_all add: check_def)

lemma bind_res_simps [simp, res_simps]:
  "bind_res (Inl e) f = Inl e"
  "bind_res (Inr x) f = f x"
  by (simp_all add: bind_res_def)

lemma check_str_simps [simp, res_simps]:
  "check_str True m k = k"
  "check_str False m k = Inl (Assertion m)"
  by (simp_all add: check_str_def)

lemma check_str_eq_Inr [res_simps]: "check_str b m k = Inr x \<longleftrightarrow> b \<and> k = Inr x"
  by (simp add: check_str_def)

lemma check_eq_Inr [res_simps]: "check b msg k = Inr x \<longleftrightarrow> b \<and> k = Inr x"
  by (simp add: check_def)

lemma bind_res_eq_Inr [res_simps]: "bind_res m f = Inr y \<longleftrightarrow> (\<exists>x. m = Inr x \<and> f x = Inr y)"
  by (cases m) auto

lemma bind_res_assoc: "bind_res (bind_res m f) g = bind_res m (\<lambda>x. bind_res (f x) g)"
  by (cases m) auto

lemma check_cong [fundef_cong]:
  "b = b' \<Longrightarrow> (b' \<Longrightarrow> k = k') \<Longrightarrow> check b msg k = check b' msg k'"
  by (simp add: check_def)

lemma check_str_cong [fundef_cong]:
  "b = b' \<Longrightarrow> (b' \<Longrightarrow> k = k') \<Longrightarrow> check_str b m k = check_str b' m k'"
  by (simp add: check_str_def)

lemma bind_res_cong [fundef_cong]:
  "m = m' \<Longrightarrow> (\<And>x. m' = Inr x \<Longrightarrow> f x = g x) \<Longrightarrow> bind_res m f = bind_res m' g"
  by (cases m') auto

fun map_res :: "('a \<Rightarrow> 'b res) \<Rightarrow> 'a list \<Rightarrow> 'b list res" where
  \<comment> \<open>\<open>xs.map(f)\<close> where \<open>f\<close> can throw: the first exception ends the map.\<close>
  "map_res f [] = Inr []"
| "map_res f (x # xs) = bind_res (f x) (\<lambda>y. bind_res (map_res f xs) (\<lambda>ys. Inr (y # ys)))"

lemma map_res_Inr_iff: "map_res f xs = Inr ys \<longleftrightarrow> list_all2 (\<lambda>x y. f x = Inr y) xs ys"
  by (induction xs arbitrary: ys) (auto simp: res_simps list_all2_Cons1)

lemma map_res_Inl: "map_res f xs = Inl e \<Longrightarrow> \<exists>x \<in> set xs. f x = Inl e"
  by (induction xs) (auto simp: bind_res_def split: sum.splits)

section \<open>Insertion-ordered maps\<close>

text \<open>
  A JavaScript \<open>Map\<close>, whose iteration order is the order of first insertion: \<open>set\<close> on a present
  key replaces the value where it stands, and on a new key adds the entry at the end.
\<close>

fun omap_set :: "'k \<Rightarrow> 'v \<Rightarrow> ('k \<times> 'v) list \<Rightarrow> ('k \<times> 'v) list" where
  "omap_set k v [] = [(k, v)]"
| "omap_set k v ((k', v') # m) = (if k' = k then (k, v) # m else (k', v') # omap_set k v m)"

definition omap_delete :: "'k \<Rightarrow> ('k \<times> 'v) list \<Rightarrow> ('k \<times> 'v) list" where
  "omap_delete k m = filter (\<lambda>(k', _). k' \<noteq> k) m"

definition omap_has :: "'k \<Rightarrow> ('k \<times> 'v) list \<Rightarrow> bool" where
  "omap_has k m \<longleftrightarrow> k \<in> set (map fst m)"

lemma map_of_omap_set [simp]: "map_of (omap_set k v m) = (map_of m)(k \<mapsto> v)"
  by (induction k v m rule: omap_set.induct) auto

lemma map_of_omap_delete [simp]: "map_of (omap_delete k m) = (map_of m)(k := None)"
  by (induction m) (auto simp: omap_delete_def)

lemma omap_has_map_of: "omap_has k m \<longleftrightarrow> map_of m k \<noteq> None"
  by (auto simp: omap_has_def map_of_eq_None_iff)

lemma distinct_omap_set [intro]:
  "distinct (map fst m) \<Longrightarrow> distinct (map fst (omap_set k v m))"
proof (induction k v m rule: omap_set.induct)
  case (2 k v k' v' m)
  have "set (map fst (omap_set k v m)) = insert k (set (map fst m))"
    by (induction k v m rule: omap_set.induct) auto
  with 2 show ?case by auto
qed simp

lemma distinct_omap_delete [intro]:
  "distinct (map fst m) \<Longrightarrow> distinct (map fst (omap_delete k m))"
  by (induction m) (auto simp: omap_delete_def)

lemma set_omap_delete: "set (omap_delete k m) = {e \<in> set m. fst e \<noteq> k}"
  by (auto simp: omap_delete_def)

lemma omap_set_new: "\<not> omap_has k m \<Longrightarrow> omap_set k v m = m @ [(k, v)]"
  by (induction k v m rule: omap_set.induct) (auto simp: omap_has_def)

end
