(* ===== verification/ChunkFilter.thy ===== *)
theory ChunkFilter
  imports Prelude
begin

text \<open>
  What the host relies on when it passes the chunks of a PTY through a stateful filter: the
  run-completion scanner and the terminal-query responder. A chunk may end anywhere, so a filter
  keeps what it cannot decide yet. Its promise is that the division into chunks does not matter.
\<close>

fun feed_all :: "('s \<Rightarrow> 'c list \<Rightarrow> ('o list \<times> 's) res) \<Rightarrow> 's \<Rightarrow> 'c list list \<Rightarrow> ('o list \<times> 's) res" where
  "feed_all feed s [] = Inr ([], s)"
| "feed_all feed s (c # cs) =
     bind_res (feed s c) (\<lambda>(os, s1). bind_res (feed_all feed s1 cs) (\<lambda>(os', s2). Inr (os @ os', s2)))"

locale chunk_filter =
  fixes feed :: "'s \<Rightarrow> 'c list \<Rightarrow> ('o list \<times> 's) res"
    and flush :: "'s \<Rightarrow> ('o list \<times> 's) res"
    and ok :: "'s \<Rightarrow> bool"
    and whole :: "'s \<Rightarrow> 'c list \<Rightarrow> 'o list" \<comment> \<open>the result for all the text still to come, at once\<close>
  assumes feed_step: "ok s \<Longrightarrow>
      \<exists>os s'. feed s c = Inr (os, s') \<and> ok s' \<and> (\<forall>ext. whole s (c @ ext) = os @ whole s' ext)"
    and flush_step: "ok s \<Longrightarrow> \<exists>s'. flush s = Inr (whole s [], s') \<and> ok s'"
begin

lemma feed_all_step:
  "ok s \<Longrightarrow> \<exists>os s'. feed_all feed s cs = Inr (os, s') \<and> ok s'
     \<and> (\<forall>ext. whole s (concat cs @ ext) = os @ whole s' ext)"
proof (induction cs arbitrary: s)
  case Nil
  then show ?case by simp
next
  case (Cons c cs)
  obtain os s1 where one: "feed s c = Inr (os, s1)" "ok s1"
      "\<And>ext. whole s (c @ ext) = os @ whole s1 ext"
    using feed_step [OF Cons.prems] by metis
  obtain os' s2 where "feed_all feed s1 cs = Inr (os', s2)" "ok s2"
      "\<And>ext. whole s1 (concat cs @ ext) = os' @ whole s2 ext"
    using Cons.IH [OF one(2)] by metis
  with one show ?case by simp
qed

lemma feed_all_flush:
  assumes "ok s"
  shows "\<exists>os s1 os' s2. feed_all feed s cs = Inr (os, s1) \<and> flush s1 = Inr (os', s2)
    \<and> os @ os' = whole s (concat cs)"
proof -
  obtain os s1 where f: "feed_all feed s cs = Inr (os, s1)" "ok s1"
      "\<And>ext. whole s (concat cs @ ext) = os @ whole s1 ext"
    using feed_all_step [OF assms] by metis
  obtain s2 where "flush s1 = Inr (whole s1 [], s2)"
    using flush_step [OF f(2)] by blast
  with f show ?thesis by (metis append_Nil2)
qed

end

end
