(* ===== verification/SentinelScanner.thy ===== *)
theory SentinelScanner
  imports ChunkFilter
begin

text \<open>
  The scanner that takes run-completion sentinels out of a session's output
  (\<open>RunCompletionSentinelScanner\<close> of \<open>src/host/runCompletionSentinel.ts\<close>), and the texts of the
  sentinels.

  The \<open>while\<close> loop over an index into the buffer is a recursion over the rest of the buffer, with
  the output since \<open>outputStart\<close> in an argument.
\<close>

section \<open>Markers and sentinels\<close>

definition run_complete_prefix :: jstring where
  "run_complete_prefix = [27] @ js ''_agent-tty:run-complete:''"

definition run_complete_suffix :: jstring where
  "run_complete_suffix = [27, 92]"

definition short_sentinel_prefix :: jstring where
  "short_sentinel_prefix = [27] @ js ''_at''"

definition is_lower_hex :: "code_unit \<Rightarrow> bool" where
  "is_lower_hex c \<longleftrightarrow> is_digit c \<or> (97 \<le> c \<and> c \<le> 102)"

definition is_run_marker :: "jstring \<Rightarrow> bool" where
  \<comment> \<open>The pattern \<open>/^__AT_MARKER_([0-9a-f]{32})__$/u\<close>\<close>
  "is_run_marker m \<longleftrightarrow>
     length m = 46 \<and> take 12 m = js ''__AT_MARKER_'' \<and> drop 44 m = js ''__''
     \<and> list_all is_lower_hex (take 32 (drop 12 m))"

definition is_token_unit :: "code_unit \<Rightarrow> bool" where
  "is_token_unit c \<longleftrightarrow> (65 \<le> c \<and> c \<le> 90) \<or> (97 \<le> c \<and> c \<le> 122) \<or> is_digit c \<or> c = 95 \<or> c = 45"

definition is_signal_token :: "jstring \<Rightarrow> bool" where
  "is_signal_token t \<longleftrightarrow> length t = 6 \<and> list_all is_token_unit t"

definition assert_run_marker :: "jstring \<Rightarrow> 'a res \<Rightarrow> 'a res" where
  "assert_run_marker m k =
     check (is_run_marker m) ''run marker must match expected format (__AT_MARKER_<32hex>__)'' k"

definition build_signal_sentinel :: "jstring \<Rightarrow> jstring res" where
  "build_signal_sentinel token =
     check (is_signal_token token) ''run-completion signal token must be six base64url characters''
       (Inr (short_sentinel_prefix @ token @ run_complete_suffix))"

definition build_run_complete_sentinel :: "jstring \<Rightarrow> jstring res" where
  "build_run_complete_sentinel marker =
     assert_run_marker marker (Inr (run_complete_prefix @ marker @ run_complete_suffix))"

section \<open>State\<close>

datatype sentinel_piece = PieceOutput jstring | PieceComplete jstring

type_synonym active_sentinels = "(jstring \<times> jstring) list" \<comment> \<open>marker and sentinel, as registered\<close>

record scanner =
  sn_active :: active_sentinels
  sn_tail :: jstring

definition new_scanner :: scanner where
  "new_scanner = \<lparr>sn_active = [], sn_tail = []\<rparr>"

definition push_output :: "jstring \<Rightarrow> sentinel_piece list" where
  "push_output d = (if d = [] then [] else [PieceOutput d])"

definition max_sentinel_length :: "active_sentinels \<Rightarrow> nat" where
  "max_sentinel_length act = fold (\<lambda>(m, s) n. max n (length s)) act 0"

definition assert_tail_bound :: "active_sentinels \<Rightarrow> jstring \<Rightarrow> 'a res \<Rightarrow> 'a res" where
  "assert_tail_bound act tail k =
     (if act = []
      then check (tail = []) ''pending tail must be empty without active run-completion markers'' k
      else check (0 < max_sentinel_length act)
             ''max active sentinel length requires active run-completion markers''
           (check (length tail < max_sentinel_length act)
             ''pending tail must be shorter than the longest active sentinel'' k))"

definition register_sentinel :: "scanner \<Rightarrow> jstring \<Rightarrow> jstring option \<Rightarrow> scanner res" where
  "register_sentinel sn marker sentinelOpt =
     bind_res (case sentinelOpt of None \<Rightarrow> build_run_complete_sentinel marker | Some s \<Rightarrow> Inr s)
       (\<lambda>sentinel.
          assert_run_marker marker
         (check (sentinel \<noteq> []) ''run-completion sentinel must be a non-empty string''
         (if omap_has marker (sn_active sn) then Inr sn
          else let act = omap_set marker sentinel (sn_active sn)
               in assert_tail_bound act (sn_tail sn) (Inr (sn\<lparr>sn_active := act\<rparr>)))))"

section \<open>Scanning\<close>

fun find_complete ::
  "active_sentinels \<Rightarrow> jstring \<Rightarrow> (jstring \<times> jstring) option \<Rightarrow> (jstring \<times> jstring) option res" where
  \<comment> \<open>The loop over the active sentinels at one index; the last argument is \<open>matched\<close>.\<close>
  "find_complete [] rest matched = Inr matched"
| "find_complete ((m, s) # act) rest matched =
     (if \<not> starts_with rest s then find_complete act rest matched
      else check (matched = None)
             ''fixed-length run sentinels must match at most one active marker''
             (find_complete act rest (Some (m, s))))"

definition has_partial :: "active_sentinels \<Rightarrow> jstring \<Rightarrow> bool" where
  "has_partial act rest \<longleftrightarrow>
     list_ex (\<lambda>(m, s). length rest < length s \<and> starts_with s rest) act"

definition set_tail :: "active_sentinels \<Rightarrow> jstring \<Rightarrow> 'a res \<Rightarrow> 'a res" where
  "set_tail act tail k =
     check (tail \<noteq> []) ''pending tail must not be empty''
     (check (act \<noteq> []) ''pending tail requires active run-completion markers''
     (assert_tail_bound act tail k))"

lemma find_complete_in:
  "find_complete act rest matched = Inr (Some ms) \<Longrightarrow> ms \<in> set act \<or> matched = Some ms"
  by (induction act rest matched rule: find_complete.induct) (auto simp: res_simps split: if_splits)

lemma omap_delete_shorter: "omap_has m act \<Longrightarrow> length (omap_delete m act) < length act"
  unfolding omap_has_def omap_delete_def
  by (induction act) (auto simp: le_imp_less_Suc)

function scan_loop ::
  "bool \<Rightarrow> active_sentinels \<Rightarrow> jstring \<Rightarrow> jstring
     \<Rightarrow> (sentinel_piece list \<times> active_sentinels \<times> jstring) res" where
  \<comment> \<open>\<open>isFinal\<close>, the active sentinels, the output not pushed yet and the rest of the buffer; gives
     the pieces, the sentinels still active and the pending tail.\<close>
  "scan_loop fin act out rest =
     (case rest of
        [] \<Rightarrow> assert_tail_bound act [] (Inr (push_output out, act, []))
      | c # cs \<Rightarrow>
          if act = [] then Inr (push_output (out @ rest), act, [])
          else if c \<noteq> 27 then scan_loop fin act (out @ [c]) cs
          else bind_res (find_complete act rest None) (\<lambda>matched.
                 case matched of
                   Some (m, s) \<Rightarrow>
                     check (omap_has m act) ''matched run-completion marker must be active''
                     (bind_res (scan_loop fin (omap_delete m act) [] (drop (length s) rest))
                        (\<lambda>(ps, act', tail). Inr (push_output out @ PieceComplete m # ps, act', tail)))
                 | None \<Rightarrow>
                     if \<not> fin \<and> has_partial act rest
                     then set_tail act rest (Inr (push_output out, act, rest))
                     else scan_loop fin act (out @ [c]) cs))"
  by pat_completeness auto
termination
  by (relation "measure (\<lambda>(fin, act, out, rest). length rest + length act)")
    (auto dest: omap_delete_shorter intro: add_le_less_mono)

declare scan_loop.simps [simp del]

definition scan_buffer :: "scanner \<Rightarrow> jstring \<Rightarrow> bool \<Rightarrow> (sentinel_piece list \<times> scanner) res" where
  "scan_buffer sn buffer fin =
     (if buffer = [] then Inr ([], sn)
      else if sn_active sn = []
      then check (sn_tail sn = [])
             ''pending tail must stay empty when no run-completion markers are active''
             (Inr ([PieceOutput buffer], sn))
      else bind_res (scan_loop fin (sn_active sn) [] buffer)
             (\<lambda>(ps, act, tail). Inr (ps, \<lparr>sn_active = act, sn_tail = tail\<rparr>)))"

definition scanner_feed :: "scanner \<Rightarrow> jstring \<Rightarrow> (sentinel_piece list \<times> scanner) res" where
  "scanner_feed sn chunk =
     (if chunk = [] then Inr ([], sn)
      else if sn_active sn = []
      then check (sn_tail sn = [])
             ''pending tail must be empty when no run-completion markers are active''
             (Inr ([PieceOutput chunk], sn))
      else scan_buffer (sn\<lparr>sn_tail := []\<rparr>) (sn_tail sn @ chunk) False)"

definition scanner_flush :: "scanner \<Rightarrow> (sentinel_piece list \<times> scanner) res" where
  "scanner_flush sn =
     (if sn_tail sn = [] then Inr ([], sn)
      else scan_buffer (sn\<lparr>sn_tail := []\<rparr>) (sn_tail sn) True)"

section \<open>The reference: reading the whole text at once\<close>

text \<open>
  A run of output is a sequence of units, so that where it is cut into pieces does not show.
\<close>

datatype sentinel_unit = OutUnit code_unit | DoneUnit jstring

fun piece_units :: "sentinel_piece \<Rightarrow> sentinel_unit list" where
  "piece_units (PieceOutput d) = map OutUnit d"
| "piece_units (PieceComplete m) = [DoneUnit m]"

definition units_of :: "sentinel_piece list \<Rightarrow> sentinel_unit list" where
  "units_of ps = concat (map piece_units ps)"

definition match_at :: "active_sentinels \<Rightarrow> jstring \<Rightarrow> (jstring \<times> jstring) option" where
  "match_at act rest = find (\<lambda>(m, s). starts_with rest s) act"

lemma match_at_Some:
  assumes "match_at act rest = Some (m, s)"
  shows "(m, s) \<in> set act" and "prefix s rest" and "omap_has m act"
proof -
  from assms obtain i where i: "i < length act" "starts_with rest s" "act ! i = (m, s)"
    unfolding match_at_def find_Some_iff by auto
  then show mem: "(m, s) \<in> set act" using nth_mem [of i act] by simp
  from i show "prefix s rest" by (simp add: starts_with_prefix)
  from mem show "omap_has m act" by (force simp: omap_has_def)
qed

lemma match_at_shorter:
  "match_at act rest = Some (m, s) \<Longrightarrow> length (omap_delete m act) < length act"
  by (rule omap_delete_shorter) (rule match_at_Some(3))

lemma match_at_None: "match_at act rest = None \<longleftrightarrow> (\<forall>(m, s) \<in> set act. \<not> prefix s rest)"
  by (auto simp: match_at_def find_None_iff starts_with_prefix)

function whole_units :: "active_sentinels \<Rightarrow> jstring \<Rightarrow> sentinel_unit list" where
  "whole_units act rest =
     (case rest of
        [] \<Rightarrow> []
      | c # cs \<Rightarrow>
          (case match_at act rest of
             None \<Rightarrow> OutUnit c # whole_units act cs
           | Some (m, s) \<Rightarrow> DoneUnit m # whole_units (omap_delete m act) (drop (length s) rest)))"
  by pat_completeness auto
termination
  by (relation "measure (\<lambda>(act, rest). length rest + length act)")
    (auto dest: match_at_shorter)

declare whole_units.simps [simp del]

text \<open>
  The active sentinels the host registers: distinct markers, and sentinels that start with ESC and
  none of which is a prefix of another, as distinct texts of one length are.
\<close>

definition sentinels_ok :: "active_sentinels \<Rightarrow> bool" where
  "sentinels_ok act \<longleftrightarrow>
     distinct (map fst act) \<and> list_all (\<lambda>(m, s). s \<noteq> [] \<and> hd s = 27) act
     \<and> list_all (\<lambda>a. list_all (\<lambda>b. starts_with (snd b) (snd a) \<longrightarrow> a = b) act) act"

lemma sentinels_okD:
  assumes "sentinels_ok act"
  shows "distinct (map fst act)"
    and "(m, s) \<in> set act \<Longrightarrow> s \<noteq> [] \<and> hd s = 27"
    and "a \<in> set act \<Longrightarrow> b \<in> set act \<Longrightarrow> prefix (snd a) (snd b) \<Longrightarrow> a = b"
  using assms by (auto simp: sentinels_ok_def list_all_iff starts_with_prefix)

lemma sentinels_ok_delete: "sentinels_ok act \<Longrightarrow> sentinels_ok (omap_delete m act)"
  by (auto simp: sentinels_ok_def list_all_iff set_omap_delete distinct_omap_delete)

lemma find_complete_keeps:
  "\<forall>(m, s) \<in> set act. \<not> prefix s rest \<Longrightarrow> find_complete act rest matched = Inr matched"
  by (induction act rest matched rule: find_complete.induct) (auto simp: starts_with_prefix)

lemma find_complete_match:
  "sentinels_ok act \<Longrightarrow> find_complete act rest None = Inr (match_at act rest)"
proof (induction act)
  case Nil
  then show ?case by (simp add: match_at_def)
next
  case (Cons a act)
  obtain m s where a: "a = (m, s)" by fastforce
  have ok: "sentinels_ok act" using Cons.prems by (simp add: sentinels_ok_def list_all_iff)
  show ?case
  proof (cases "prefix s rest")
    case False
    with Cons.IH [OF ok] a show ?thesis by (simp add: match_at_def starts_with_prefix)
  next
    case True
    have "\<not> prefix s' rest" if "(m', s') \<in> set act" for m' s'
    proof
      assume "prefix s' rest"
      with True have "prefix s s' \<or> prefix s' s" by (rule prefix_same_cases)
      with sentinels_okD(3) [OF Cons.prems, of a "(m', s')"]
        sentinels_okD(3) [OF Cons.prems, of "(m', s')" a] that a
      have "a = (m', s')" by auto
      with that Cons.prems a show False by (force simp: sentinels_ok_def)
    qed
    then have "find_complete act rest (Some (m, s)) = Inr (Some (m, s))"
      by (intro find_complete_keeps) auto
    with True a show ?thesis by (simp add: match_at_def starts_with_prefix)
  qed
qed

lemma match_at_not_esc:
  "sentinels_ok act \<Longrightarrow> c \<noteq> 27 \<Longrightarrow> match_at act (c # cs) = None"
  using sentinels_okD(2) by (fastforce simp: match_at_None prefix_Cons)

lemma match_at_extend:
  assumes "sentinels_ok act" and "\<not> has_partial act rest"
  shows "match_at act (rest @ ext) = match_at act rest"
proof -
  have *: "prefix s (rest @ ext) = prefix s rest" if "(m, s) \<in> set act" for m s
  proof
    assume "prefix s (rest @ ext)"
    then have "prefix s rest \<or> prefix rest s" by (metis prefix_same_cases prefixI)
    then show "prefix s rest"
    proof
      assume "prefix rest s"
      with that assms(2) have "length s \<le> length rest"
        by (force simp: has_partial_def list_ex_iff starts_with_prefix)
      with \<open>prefix rest s\<close> show ?thesis by (metis prefix_length_le prefix_order.order_refl le_antisym
          not_equal_is_parallel parallelE)
    qed
  qed (simp add: prefix_prefix)
  then show ?thesis
    unfolding match_at_def starts_with_prefix by (intro find_cong) auto
qed

lemma match_at_matched:
  assumes "sentinels_ok act" and "match_at act rest = Some (m, s)"
  shows "match_at act (rest @ ext) = Some (m, s)"
proof -
  have "find_complete act (rest @ ext) None = Inr (match_at act (rest @ ext))"
    by (rule find_complete_match [OF assms(1)])
  from assms(2) have in_act: "(m, s) \<in> set act" and "prefix s rest" using match_at_Some by auto
  then have p: "prefix s (rest @ ext)" by (simp add: prefix_prefix)
  show ?thesis
  proof (cases "match_at act (rest @ ext)")
    case None
    with in_act p show ?thesis by (auto simp: match_at_None)
  next
    case (Some x)
    obtain m' s' where x: "x = (m', s')" by fastforce
    with Some have "(m', s') \<in> set act" "prefix s' (rest @ ext)" using match_at_Some by auto
    with p in_act sentinels_okD(3) [OF assms(1)] have "x = (m, s)"
      unfolding x by (metis prefix_same_cases snd_conv)
    with Some show ?thesis by simp
  qed
qed

lemma whole_units_empty [simp]: "whole_units [] rest = map OutUnit rest"
proof (induction rest)
  case Nil
  then show ?case by (simp add: whole_units.simps)
next
  case (Cons c cs)
  then show ?case by (subst whole_units.simps) (simp add: match_at_def)
qed

lemma units_of_push [simp]: "units_of (push_output d) = map OutUnit d"
  by (simp add: units_of_def push_output_def)

lemma units_of_append [simp]: "units_of (ps @ qs) = units_of ps @ units_of qs"
  by (simp add: units_of_def)

lemma units_of_Cons [simp]: "units_of (p # ps) = piece_units p @ units_of ps"
  by (simp add: units_of_def)

lemma units_of_Nil [simp]: "units_of [] = []"
  by (simp add: units_of_def)

section \<open>The loop against the reference\<close>

lemma max_fold_ge:
  "n \<le> fold (\<lambda>(m, s) n. max n (length s)) act n
   \<and> ((m, s) \<in> set act \<longrightarrow> length s \<le> fold (\<lambda>(m, s) n. max n (length s)) act n)"
proof (induction act arbitrary: n)
  case Nil
  then show ?case by simp
next
  case (Cons a act)
  show ?case using Cons.IH [of "max n (length (snd a))"] by (cases a) auto
qed

lemma max_sentinel_length_ge: "(m, s) \<in> set act \<Longrightarrow> length s \<le> max_sentinel_length act"
  using max_fold_ge [of 0 act m s] by (simp add: max_sentinel_length_def)

definition tail_fits :: "active_sentinels \<Rightarrow> jstring \<Rightarrow> bool" where
  "tail_fits act tail \<longleftrightarrow> tail = [] \<or> length tail < max_sentinel_length act"

lemma tail_fits_empty [simp]: "tail_fits act []"
  by (simp add: tail_fits_def)

lemma tail_fits_no_active: "tail_fits [] tail \<longleftrightarrow> tail = []"
  by (simp add: tail_fits_def max_sentinel_length_def)

lemma assert_tail_bound_ok:
  assumes "sentinels_ok act" and "tail_fits act tail"
  shows "assert_tail_bound act tail k = k"
proof (cases act)
  case Nil
  with assms show ?thesis by (simp add: assert_tail_bound_def tail_fits_no_active)
next
  case (Cons a act')
  obtain m s where a: "a = (m, s)" by fastforce
  with Cons assms(1) have "0 < length s" by (auto simp: sentinels_ok_def)
  moreover have "length s \<le> max_sentinel_length act"
    using Cons a by (intro max_sentinel_length_ge) auto
  ultimately have "0 < max_sentinel_length act" by linarith
  with assms(2) Cons show ?thesis by (auto simp: assert_tail_bound_def tail_fits_def)
qed

lemma has_partial_fits: "has_partial act rest \<Longrightarrow> tail_fits act rest"
proof -
  assume "has_partial act rest"
  then obtain m s where "(m, s) \<in> set act" "length rest < length s"
    by (auto simp: has_partial_def list_ex_iff)
  with max_sentinel_length_ge have "length rest < max_sentinel_length act" by fastforce
  then show ?thesis by (simp add: tail_fits_def)
qed

definition loop_result :: "bool \<Rightarrow> active_sentinels \<Rightarrow> jstring \<Rightarrow> jstring
    \<Rightarrow> (sentinel_piece list \<times> active_sentinels \<times> jstring) res \<Rightarrow> bool" where
  "loop_result fin act out rest res \<longleftrightarrow>
     (\<exists>ps act' tail. res = Inr (ps, act', tail) \<and> sentinels_ok act' \<and> tail_fits act' tail
        \<and> (fin \<longrightarrow> tail = [])
        \<and> (\<forall>ext. (fin \<longrightarrow> ext = []) \<longrightarrow>
             map OutUnit out @ whole_units act (rest @ ext) = units_of ps @ whole_units act' (tail @ ext)))"

lemma scan_loop_result:
  "sentinels_ok act \<Longrightarrow> loop_result fin act out rest (scan_loop fin act out rest)"
proof (induction fin act out rest rule: scan_loop.induct)
  case (1 fin act out rest)
  show ?case
  proof (cases rest)
    case Nil
    with "1.prems" show ?thesis
      by (simp add: loop_result_def scan_loop.simps [of fin act out] assert_tail_bound_ok)
  next
    case (Cons c cs)
    consider (idle) "act = []" | (plain) "act \<noteq> []" "c \<noteq> 27" | (esc) "act \<noteq> []" "c = 27" by blast
    then show ?thesis
    proof cases
      case idle
      then have "scan_loop fin act out rest = Inr (push_output (out @ rest), act, [])"
        using Cons by (simp add: scan_loop.simps)
      with idle "1.prems" show ?thesis by (simp add: loop_result_def)
    next
      case plain
      have step: "scan_loop fin act out rest = scan_loop fin act (out @ [c]) cs"
        using plain Cons by (simp add: scan_loop.simps [of fin act out])
      have "whole_units act (rest @ ext) = OutUnit c # whole_units act (cs @ ext)" for ext
        using match_at_not_esc [OF "1.prems" plain(2), of "cs @ ext"] Cons
        by (simp add: whole_units.simps [of act "c # cs @ ext"])
      moreover have "loop_result fin act (out @ [c]) cs (scan_loop fin act (out @ [c]) cs)"
        using "1.IH"(1) [OF Cons] plain "1.prems" by blast
      ultimately show ?thesis unfolding step loop_result_def by simp
    next
      case esc
      have found: "find_complete act rest None = Inr (match_at act rest)"
        using "1.prems" by (rule find_complete_match)
      show ?thesis
      proof (cases "match_at act rest")
        case (Some ms)
        obtain m s where ms: "ms = (m, s)" by fastforce
        let ?rec = "scan_loop fin (omap_delete m act) [] (drop (length s) rest)"
        have has: "omap_has m act" and pre: "prefix s rest"
          using Some ms match_at_Some by auto
        have "loop_result fin (omap_delete m act) [] (drop (length s) rest) ?rec"
          by (rule "1.IH"(3) [OF Cons])
            (use esc found Some ms has sentinels_ok_delete [OF "1.prems"] in auto)
        then obtain ps act' tail where rec: "?rec = Inr (ps, act', tail)" "sentinels_ok act'"
            "tail_fits act' tail" "fin \<longrightarrow> tail = []"
          and eq: "\<And>ext. (fin \<longrightarrow> ext = []) \<Longrightarrow> whole_units (omap_delete m act) (drop (length s) rest @ ext)
              = units_of ps @ whole_units act' (tail @ ext)"
          by (auto simp: loop_result_def)
        have "whole_units act (rest @ ext)
            = DoneUnit m # whole_units (omap_delete m act) (drop (length s) rest @ ext)" for ext
        proof -
          have "match_at act (rest @ ext) = Some (m, s)"
            using match_at_matched [OF "1.prems"] Some ms by simp
          moreover have "drop (length s) (rest @ ext) = drop (length s) rest @ ext"
            using prefix_length_le [OF pre] by simp
          ultimately show ?thesis using Cons by (simp add: whole_units.simps [of act "c # cs @ ext"])
        qed
        with esc found Some ms has rec eq Cons show ?thesis
          by (simp add: loop_result_def scan_loop.simps [of fin act out])
      next
        case None
        show ?thesis
        proof (cases "\<not> fin \<and> has_partial act rest")
          case True
          then have "scan_loop fin act out rest = Inr (push_output out, act, rest)"
            using esc found None Cons "1.prems"
            by (simp add: scan_loop.simps [of _ act out "27 # cs"] set_tail_def assert_tail_bound_ok
                has_partial_fits)
          with True "1.prems" show ?thesis by (simp add: loop_result_def has_partial_fits)
        next
          case False
          have step: "scan_loop fin act out rest = scan_loop fin act (out @ [c]) cs"
            using esc found None False Cons
            by (cases fin) (simp_all add: scan_loop.simps [of _ act out "27 # cs"])
          have "whole_units act (rest @ ext) = OutUnit c # whole_units act (cs @ ext)"
            if "fin \<longrightarrow> ext = []" for ext
          proof -
            have "match_at act (rest @ ext) = None"
              using that False None match_at_extend [OF "1.prems", of rest ext] by auto
            with Cons show ?thesis by (simp add: whole_units.simps [of act "c # cs @ ext"])
          qed
          moreover have "loop_result fin act (out @ [c]) cs (scan_loop fin act (out @ [c]) cs)"
            using "1.IH"(2) [OF Cons] esc found None False "1.prems" by blast
          ultimately show ?thesis unfolding step loop_result_def by simp
        qed
      qed
    qed
  qed
qed

section \<open>The scanner as a chunk filter\<close>

definition scanner_ok :: "scanner \<Rightarrow> bool" where
  "scanner_ok sn \<longleftrightarrow> sentinels_ok (sn_active sn) \<and> tail_fits (sn_active sn) (sn_tail sn)"

definition whole_scan :: "scanner \<Rightarrow> jstring \<Rightarrow> sentinel_unit list" where
  "whole_scan sn t = whole_units (sn_active sn) (sn_tail sn @ t)"

definition unit_feed :: "scanner \<Rightarrow> jstring \<Rightarrow> (sentinel_unit list \<times> scanner) res" where
  "unit_feed sn chunk = bind_res (scanner_feed sn chunk) (\<lambda>(ps, sn'). Inr (units_of ps, sn'))"

definition unit_flush :: "scanner \<Rightarrow> (sentinel_unit list \<times> scanner) res" where
  "unit_flush sn = bind_res (scanner_flush sn) (\<lambda>(ps, sn'). Inr (units_of ps, sn'))"

lemma scan_buffer_result:
  assumes "sentinels_ok act" and "buffer \<noteq> []"
  shows "\<exists>ps sn'. scan_buffer \<lparr>sn_active = act, sn_tail = []\<rparr> buffer fin = Inr (ps, sn')
    \<and> scanner_ok sn' \<and> (fin \<longrightarrow> sn_tail sn' = [])
    \<and> (\<forall>ext. (fin \<longrightarrow> ext = []) \<longrightarrow> whole_units act (buffer @ ext) = units_of ps @ whole_scan sn' ext)"
proof (cases "act = []")
  case True
  with assms show ?thesis by (simp add: scan_buffer_def scanner_ok_def whole_scan_def)
next
  case False
  with scan_loop_result [OF assms(1), of fin "[]" buffer] assms(2) show ?thesis
    by (auto simp: scan_buffer_def loop_result_def scanner_ok_def whole_scan_def)
qed

interpretation scanf: chunk_filter unit_feed unit_flush scanner_ok whole_scan
proof unfold_locales
  fix sn :: scanner and c
  assume ok: "scanner_ok sn"
  show "\<exists>os sn'. unit_feed sn c = Inr (os, sn') \<and> scanner_ok sn'
      \<and> (\<forall>ext. whole_scan sn (c @ ext) = os @ whole_scan sn' ext)"
  proof (cases "c = [] \<or> sn_active sn = []")
    case True
    with ok show ?thesis
      by (auto simp: unit_feed_def scanner_feed_def whole_scan_def scanner_ok_def tail_fits_no_active)
  next
    case False
    with ok scan_buffer_result [of "sn_active sn" "sn_tail sn @ c" False] show ?thesis
      by (cases sn) (auto simp: unit_feed_def scanner_feed_def scanner_ok_def whole_scan_def)
  qed
next
  fix sn :: scanner
  assume ok: "scanner_ok sn"
  show "\<exists>sn'. unit_flush sn = Inr (whole_scan sn [], sn') \<and> scanner_ok sn'"
  proof (cases "sn_tail sn = []")
    case True
    with ok show ?thesis
      by (simp add: unit_flush_def scanner_flush_def whole_scan_def whole_units.simps)
  next
    case False
    with ok scan_buffer_result [of "sn_active sn" "sn_tail sn" True] show ?thesis
      by (cases sn)
        (auto simp: unit_flush_def scanner_flush_def scanner_ok_def whole_scan_def whole_units.simps)
  qed
qed

lemma feed_all_units:
  "feed_all unit_feed sn cs = bind_res (feed_all scanner_feed sn cs) (\<lambda>(ps, sn'). Inr (units_of ps, sn'))"
proof (induction cs arbitrary: sn)
  case Nil
  then show ?case by simp
next
  case (Cons c cs)
  show ?case
    by (cases "scanner_feed sn c")
      (auto simp: Cons.IH bind_res_assoc split_beta unit_feed_def [of sn])
qed

section \<open>Registration\<close>

lemma build_signal_sentinel_Inr:
  "build_signal_sentinel t = Inr s \<longleftrightarrow>
     is_signal_token t \<and> s = short_sentinel_prefix @ t @ run_complete_suffix"
  by (auto simp: build_signal_sentinel_def res_simps)

definition signal_sentinels :: "active_sentinels \<Rightarrow> bool" where
  \<comment> \<open>Distinct markers, with sentinels that \<open>buildRunCompleteSignalSentinel\<close> made of distinct tokens.\<close>
  "signal_sentinels act \<longleftrightarrow>
     distinct (map fst act) \<and> distinct (map snd act)
     \<and> (\<forall>s \<in> set (map snd act). \<exists>t. build_signal_sentinel t = Inr s)"

lemma build_signal_sentinel_frame:
  assumes "build_signal_sentinel t = Inr s"
  shows "s \<noteq> []" and "hd s = 27" and "length s = 12"
  using assms
  by (simp_all add: build_signal_sentinel_Inr short_sentinel_prefix_def run_complete_suffix_def
      is_signal_token_def)

lemma signal_sentinels_ok:
  assumes "signal_sentinels act"
  shows "sentinels_ok act"
proof -
  have built: "\<exists>t. build_signal_sentinel t = Inr (snd a)" if "a \<in> set act" for a
    using assms that by (auto simp: signal_sentinels_def)
  have free: "a = b" if "a \<in> set act" "b \<in> set act" "prefix (snd a) (snd b)" for a b
  proof -
    have "\<exists>t. build_signal_sentinel t = Inr (snd a)" "\<exists>t. build_signal_sentinel t = Inr (snd b)"
      using built that(1,2) by blast+
    then have "length (snd a) = length (snd b)" by (auto simp: build_signal_sentinel_frame)
    with that(3) have "snd a = snd b" by (auto simp: prefix_def)
    with that(1,2) assms show ?thesis
      by (metis distinct_map inj_onD signal_sentinels_def)
  qed
  have "s \<noteq> [] \<and> hd s = 27" if "(m, s) \<in> set act" for m s
    using built [OF that] build_signal_sentinel_frame by auto
  then have "\<forall>a \<in> set act. snd a \<noteq> [] \<and> hd (snd a) = 27" by auto
  with free assms show ?thesis
    by (auto simp: sentinels_ok_def signal_sentinels_def list_all_iff starts_with_prefix)
qed

lemma tail_fits_more: "tail_fits act tail \<Longrightarrow> tail_fits (act @ act2) tail"
proof -
  have "max_sentinel_length act \<le> max_sentinel_length (act @ act2)"
    using max_fold_ge [of "max_sentinel_length act" act2] by (simp add: max_sentinel_length_def)
  then show "tail_fits act tail \<Longrightarrow> tail_fits (act @ act2) tail" by (auto simp: tail_fits_def)
qed

lemma register_signal_sentinel:
  assumes "scanner_ok sn" and "signal_sentinels (sn_active sn)" and "is_run_marker marker"
    and "\<not> omap_has marker (sn_active sn)" and "build_signal_sentinel token = Inr sentinel"
    and "sentinel \<notin> set (map snd (sn_active sn))"
  shows "register_sentinel sn marker (Some sentinel)
      = Inr (sn\<lparr>sn_active := sn_active sn @ [(marker, sentinel)]\<rparr>)"
    and "scanner_ok (sn\<lparr>sn_active := sn_active sn @ [(marker, sentinel)]\<rparr>)"
    and "signal_sentinels (sn_active sn @ [(marker, sentinel)])"
proof -
  show sig: "signal_sentinels (sn_active sn @ [(marker, sentinel)])"
    using assms by (auto simp: signal_sentinels_def omap_has_def)
  then have "sentinels_ok (sn_active sn @ [(marker, sentinel)])" by (rule signal_sentinels_ok)
  with assms show "scanner_ok (sn\<lparr>sn_active := sn_active sn @ [(marker, sentinel)]\<rparr>)"
    and "register_sentinel sn marker (Some sentinel)
      = Inr (sn\<lparr>sn_active := sn_active sn @ [(marker, sentinel)]\<rparr>)"
    by (simp_all add: scanner_ok_def tail_fits_more register_sentinel_def assert_run_marker_def
        omap_set_new assert_tail_bound_ok build_signal_sentinel_frame)
qed

section \<open>Reading the text back\<close>

fun unit_text :: "active_sentinels \<Rightarrow> sentinel_unit \<Rightarrow> jstring" where
  "unit_text act (OutUnit c) = [c]"
| "unit_text act (DoneUnit m) = (case map_of act m of None \<Rightarrow> [] | Some s \<Rightarrow> s)"

definition units_text :: "active_sentinels \<Rightarrow> sentinel_unit list \<Rightarrow> jstring" where
  "units_text act us = concat (map (unit_text act) us)"

lemma units_text_delete:
  assumes "\<forall>m' \<in> fst ` set act'. m' \<noteq> m"
  shows "units_text (omap_delete m act) (whole_units act' t) = units_text act (whole_units act' t)"
  using assms
proof (induction act' t rule: whole_units.induct)
  case (1 act' rest)
  show ?case
  proof (cases rest)
    case Nil
    then show ?thesis by (simp add: whole_units.simps units_text_def)
  next
    case (Cons c cs)
    show ?thesis
    proof (cases "match_at act' rest")
      case None
      with "1.IH"(1) [OF Cons] "1.prems" Cons show ?thesis
        by (simp add: whole_units.simps [of act' "c # cs"] units_text_def)
    next
      case (Some ms)
      obtain n s where ms: "ms = (n, s)" by fastforce
      have "n \<noteq> m" using Some ms match_at_Some(1) "1.prems" by force
      moreover have "units_text (omap_delete m act) (whole_units (omap_delete n act') (drop (length s) rest))
          = units_text act (whole_units (omap_delete n act') (drop (length s) rest))"
        using "1.IH"(2) [OF Cons] Some ms "1.prems" Cons by (auto simp: set_omap_delete)
      ultimately show ?thesis using Some ms Cons
        by (simp add: whole_units.simps [of act' "c # cs"] units_text_def)
    qed
  qed
qed

lemma whole_units_text:
  "distinct (map fst act) \<Longrightarrow> units_text act (whole_units act t) = t"
proof (induction act t rule: whole_units.induct)
  case (1 act rest)
  show ?case
  proof (cases rest)
    case Nil
    then show ?thesis by (simp add: whole_units.simps units_text_def)
  next
    case (Cons c cs)
    show ?thesis
    proof (cases "match_at act rest")
      case None
      with "1.IH"(1) [OF Cons] "1.prems" Cons show ?thesis
        by (simp add: whole_units.simps [of act "c # cs"] units_text_def)
    next
      case (Some ms)
      obtain m s where ms: "ms = (m, s)" by fastforce
      let ?tl = "whole_units (omap_delete m act) (drop (length s) rest)"
      have "(m, s) \<in> set act" and pre: "prefix s rest" using Some ms match_at_Some by auto
      with "1.prems" have m: "map_of act m = Some s" by simp
      have "units_text (omap_delete m act) ?tl = units_text act ?tl"
        by (rule units_text_delete) (auto simp: set_omap_delete)
      moreover have "units_text (omap_delete m act) ?tl = drop (length s) rest"
        using "1.IH"(2) [OF Cons] Some ms "1.prems" Cons by (auto simp: distinct_omap_delete)
      moreover have "s @ drop (length s) rest = rest"
        using pre by (auto simp: prefix_def)
      ultimately show ?thesis using Some ms Cons m
        by (simp add: whole_units.simps [of act "c # cs"] units_text_def)
    qed
  qed
qed

lemma whole_units_plain:
  "sentinels_ok act \<Longrightarrow> 27 \<notin> set a \<Longrightarrow> whole_units act (a @ t) = map OutUnit a @ whole_units act t"
proof (induction a)
  case (Cons c a)
  then have "match_at act (c # a @ t) = None" by (intro match_at_not_esc) auto
  with Cons show ?case by (simp add: whole_units.simps [of act "c # a @ t"])
qed simp

lemma whole_units_frame:
  assumes "sentinels_ok act" and "(m, s) \<in> set act"
  shows "whole_units act (s @ t) = DoneUnit m # whole_units (omap_delete m act) t"
proof -
  have ne: "s \<noteq> []" using sentinels_okD(2) [OF assms] by simp
  have "match_at act (s @ t) \<noteq> None"
  proof
    assume "match_at act (s @ t) = None"
    with assms(2) show False by (auto simp: match_at_None)
  qed
  then obtain m' s' where m': "match_at act (s @ t) = Some (m', s')" by auto
  then have "(m', s') \<in> set act" "prefix s' (s @ t)" by (auto dest: match_at_Some)
  moreover have "prefix s (s @ t)" by simp
  ultimately have "(m', s') = (m, s)"
    using sentinels_okD(3) [OF assms(1)] assms(2) prefix_same_cases by (metis snd_conv)
  with m' have "match_at act (s @ t) = Some (m, s)" by simp
  moreover obtain c cs where "s = c # cs" using ne by (cases s) auto
  ultimately show ?thesis by (simp add: whole_units.simps [of act "c # cs @ t"])
qed

lemma whole_units_run:
  assumes "sentinels_ok act" and "(m, s) \<in> set act" and "27 \<notin> set a" and "27 \<notin> set b"
  shows "whole_units act (a @ s @ b) = map OutUnit a @ DoneUnit m # map OutUnit b"
proof -
  have "whole_units act (a @ s @ b) = map OutUnit a @ DoneUnit m # whole_units (omap_delete m act) (b @ [])"
    using whole_units_plain [OF assms(1,3)] whole_units_frame [OF assms(1,2)] by simp
  also have "whole_units (omap_delete m act) (b @ []) = map OutUnit b"
    using whole_units_plain [OF sentinels_ok_delete [OF assms(1)] assms(4), of m "[]"]
    by (simp add: whole_units.simps [of _ "[]"])
  finally show ?thesis .
qed

lemma feed_flush_units:
  assumes "scanner_ok sn"
  shows "\<exists>ps sn1 qs sn2. feed_all scanner_feed sn cs = Inr (ps, sn1) \<and> scanner_flush sn1 = Inr (qs, sn2)
    \<and> units_of (ps @ qs) = whole_units (sn_active sn) (sn_tail sn @ concat cs)"
proof -
  obtain os sn1 os' sn2 where *: "feed_all unit_feed sn cs = Inr (os, sn1)"
      "unit_flush sn1 = Inr (os', sn2)" "os @ os' = whole_scan sn (concat cs)"
    using scanf.feed_all_flush [OF assms] by metis
  then show ?thesis
    by (auto simp: feed_all_units unit_flush_def res_simps whole_scan_def)
qed

definition example_sentinel :: jstring where
  "example_sentinel = short_sentinel_prefix @ js ''abcdef'' @ run_complete_suffix"

definition example_marker :: jstring where
  "example_marker = js ''__AT_MARKER_0123456789abcdef0123456789abcdef__''"

definition example_scanner :: scanner where
  "example_scanner = \<lparr>sn_active = [(example_marker, example_sentinel)], sn_tail = []\<rparr>"

lemma example_scanner_ok: "scanner_ok example_scanner"
  by (simp add: example_scanner_def scanner_ok_def sentinels_ok_def example_sentinel_def
      short_sentinel_prefix_def tail_fits_def)

section \<open>Properties\<close>

text \<open>The pieces that a stream gives do not depend on its division into chunks: read as output
  units and completions they are those of reading the whole stream at once, and no assertion of the
  scanner fails on the way.\<close>

theorem scanner_chunk_invariant:
  assumes "scanner_ok sn" and "concat cs = concat ds"
  shows "\<exists>ps sn1 qs sn2 ps' sn1' qs' sn2'.
    feed_all scanner_feed sn cs = Inr (ps, sn1) \<and> scanner_flush sn1 = Inr (qs, sn2)
    \<and> feed_all scanner_feed sn ds = Inr (ps', sn1') \<and> scanner_flush sn1' = Inr (qs', sn2')
    \<and> units_of (ps @ qs) = units_of (ps' @ qs')"
  using feed_flush_units [OF assms(1), of cs] feed_flush_units [OF assms(1), of ds] assms(2)
  by metis

lemma scanner_chunk_invariant_witness:
  "\<exists>ps sn1 qs sn2 ps' sn1' qs' sn2'.
    feed_all scanner_feed example_scanner [[27, 95], [97]] = Inr (ps, sn1)
    \<and> scanner_flush sn1 = Inr (qs, sn2)
    \<and> feed_all scanner_feed example_scanner [[27], [95, 97]] = Inr (ps', sn1')
    \<and> scanner_flush sn1' = Inr (qs', sn2') \<and> units_of (ps @ qs) = units_of (ps' @ qs')"
  by (rule scanner_chunk_invariant [OF example_scanner_ok]) simp

text \<open>The scanner loses nothing and invents nothing: the output pieces, with each completion
  written as the sentinel of its marker, are the pending tail followed by the stream.\<close>

theorem scanner_lossless:
  assumes "scanner_ok sn"
  shows "\<exists>ps sn1 qs sn2. feed_all scanner_feed sn cs = Inr (ps, sn1)
    \<and> scanner_flush sn1 = Inr (qs, sn2)
    \<and> units_text (sn_active sn) (units_of (ps @ qs)) = sn_tail sn @ concat cs"
proof -
  have "distinct (map fst (sn_active sn))"
    using assms sentinels_okD(1) by (auto simp: scanner_ok_def)
  with feed_flush_units [OF assms, of cs] show ?thesis by (metis whole_units_text)
qed

lemma scanner_lossless_witness:
  "\<exists>ps sn1 qs sn2. feed_all scanner_feed example_scanner [[27], [65]] = Inr (ps, sn1)
    \<and> scanner_flush sn1 = Inr (qs, sn2)
    \<and> units_text (sn_active example_scanner) (units_of (ps @ qs)) = [27, 65]"
  using scanner_lossless [OF example_scanner_ok, of "[[27], [65]]"] by (simp add: example_scanner_def)



text \<open>the sentinels that the host builds from distinct tokens never confuse the scanner: a run
  with a fresh marker and a fresh token registers without error and keeps it well formed.\<close>

theorem registration_keeps_scanner_ok:
  assumes "scanner_ok sn" and "signal_sentinels (sn_active sn)" and "is_run_marker marker"
    and "\<not> omap_has marker (sn_active sn)" and "build_signal_sentinel token = Inr sentinel"
    and "sentinel \<notin> set (map snd (sn_active sn))"
  shows "\<exists>sn'. register_sentinel sn marker (Some sentinel) = Inr sn' \<and> scanner_ok sn'
    \<and> signal_sentinels (sn_active sn') \<and> (marker, sentinel) \<in> set (sn_active sn')
    \<and> sn_tail sn' = sn_tail sn"
  using register_signal_sentinel [OF assms] by simp

lemma registration_keeps_scanner_ok_witness:
  "\<exists>sn'. register_sentinel new_scanner example_marker (Some example_sentinel) = Inr sn' \<and> scanner_ok sn'"
proof -
  have "is_run_marker example_marker"
    by (simp add: is_run_marker_def example_marker_def is_lower_hex_def is_digit_def js_eval)
  moreover have "build_signal_sentinel (js ''abcdef'') = Inr example_sentinel"
    by (simp add: build_signal_sentinel_Inr example_sentinel_def is_signal_token_def
        is_token_unit_def is_digit_def js_eval)
  ultimately show ?thesis
    using registration_keeps_scanner_ok [of new_scanner example_marker "js ''abcdef''" example_sentinel]
    by (auto simp: new_scanner_def scanner_ok_def sentinels_ok_def signal_sentinels_def omap_has_def)
qed

end
