(* ===== verification/EchoSanitizer.thy ===== *)
theory EchoSanitizer
  imports SentinelScanner
begin

text \<open>
  The sanitizer that removes the shell's echo of the injected completion postamble
  (\<open>RunCompletionPostambleEchoSanitizer\<close> of \<open>src/host/runCompletionSentinel.ts\<close>).

  As in the scanner, an index into a buffer is the rest of the buffer from there on. The nested
  loops over the active echoes run over their list in the same order.
\<close>

section \<open>Scanning an echo with terminal controls in it\<close>

definition min_tolerant_echo_prefix_length :: nat where
  \<comment> \<open>The length of \<open>printf '\033\137\<close>.\<close>
  "min_tolerant_echo_prefix_length = 16"

definition max_skippable_echo_control_length :: nat where
  "max_skippable_echo_control_length = 64"

definition postamble_echo_start :: code_unit where
  "postamble_echo_start = 112"

datatype control_match = ControlComplete nat | ControlPartial

definition is_csi_final_byte :: "code_unit \<Rightarrow> bool" where
  "is_csi_final_byte c \<longleftrightarrow> 64 \<le> c \<and> c \<le> 126"

fun find_index :: "('a \<Rightarrow> bool) \<Rightarrow> 'a list \<Rightarrow> nat option" where
  "find_index P [] = None"
| "find_index P (x # xs) = (if P x then Some 0 else map_option Suc (find_index P xs))"

fun find_skippable_control :: "jstring \<Rightarrow> control_match option" where
  \<comment> \<open>The rest of the buffer is not empty, as the assertion on the index demands.\<close>
  "find_skippable_control [] = None"
| "find_skippable_control (c # cs) =
     (if c = 13 then Some (ControlComplete 1)
      else if c \<noteq> 27 then None
      else if cs = [] then Some ControlPartial
      else if hd cs \<noteq> 91 then Some (ControlComplete 2)
      else case find_index is_csi_final_byte
                  (drop 2 (take max_skippable_echo_control_length (c # cs))) of
             Some i \<Rightarrow> Some (ControlComplete (i + 3))
           | None \<Rightarrow>
               if max_skippable_echo_control_length < length (c # cs) then None
               else Some ControlPartial)"

record echo_scan =
  es_complete :: bool
  es_consumed :: nat
  es_index :: nat
  es_pending :: bool

lemma find_skippable_control_pos:
  "find_skippable_control rest = Some (ControlComplete n) \<Longrightarrow> 0 < n"
  by (cases rest) (auto split: if_splits option.splits)

lemma find_index_less: "find_index P xs = Some i \<Longrightarrow> i < length xs"
  by (induction xs arbitrary: i) (auto split: if_splits)

lemma find_skippable_control_le:
  "find_skippable_control rest = Some (ControlComplete n) \<Longrightarrow> n \<le> length rest"
  by (cases rest) (auto simp: Suc_le_eq neq_Nil_conv dest!: find_index_less split: if_splits option.splits)

function scan_echo_from :: "jstring \<Rightarrow> jstring \<Rightarrow> nat \<Rightarrow> nat \<Rightarrow> echo_scan" where
  \<comment> \<open>The rest of the buffer, the rest of the echo, \<open>bufferIndex\<close> and \<open>echoIndex\<close>.\<close>
  "scan_echo_from rest echo bi ei =
     (if rest = [] \<or> echo = []
      then \<lparr>es_complete = (echo = []), es_consumed = bi, es_index = ei,
            es_pending = (rest = [] \<and> echo \<noteq> [])\<rparr>
      else case find_skippable_control rest of
             Some ControlPartial \<Rightarrow>
               \<lparr>es_complete = False, es_consumed = bi, es_index = ei, es_pending = True\<rparr>
           | Some (ControlComplete n) \<Rightarrow> scan_echo_from (drop n rest) echo (bi + n) ei
           | None \<Rightarrow>
               if hd rest \<noteq> hd echo
               then \<lparr>es_complete = False, es_consumed = bi, es_index = ei, es_pending = False\<rparr>
               else scan_echo_from (tl rest) (tl echo) (bi + 1) (ei + 1))"
  by pat_completeness auto
termination
  by (relation "measure (\<lambda>(rest, echo, bi, ei). length rest)")
    (auto dest: find_skippable_control_pos)

declare scan_echo_from.simps [simp del]

definition scan_echo_prefix :: "jstring \<Rightarrow> jstring \<Rightarrow> echo_scan res" where
  "scan_echo_prefix remaining echo =
     check (echo \<noteq> []) ''echo must be a non-empty string'' (Inr (scan_echo_from remaining echo 0 0))"

definition postamble_echo_variants :: "jstring \<Rightarrow> jstring list res" where
  "postamble_echo_variants postamble =
     check (postamble \<noteq> []) ''postamble must be a non-empty string''
     (check (last postamble = 10) ''run-completion postamble must end with newline''
     (let crlfEcho = butlast postamble @ [13, 10]
      in Inr (if crlfEcho = postamble then [postamble] else [crlfEcho, postamble])))"

section \<open>State\<close>

record echo_candidate =
  ec_marker :: jstring
  ec_echo :: jstring
  ec_index :: nat

datatype drop_control = DropEscape | DropCsi

record strip_state =
  ss_candidates :: "echo_candidate list"
  ss_drop :: "drop_control option"

type_synonym active_echoes = "(jstring \<times> jstring list) list" \<comment> \<open>marker and its echo variants\<close>

record sanitizer =
  sz_active :: active_echoes
  sz_strip :: "strip_state option"
  sz_tail :: jstring

definition new_sanitizer :: sanitizer where
  "new_sanitizer = \<lparr>sz_active = [], sz_strip = None, sz_tail = []\<rparr>"

definition flat_echoes :: "active_echoes \<Rightarrow> (jstring \<times> jstring) list" where
  "flat_echoes act = concat (map (\<lambda>(m, es). map (Pair m) es) act)"

definition max_echo_length :: "active_echoes \<Rightarrow> nat" where
  "max_echo_length act = fold (\<lambda>(m, e) n. max n (length e)) (flat_echoes act) 0"

definition assert_echo_tail_bound :: "active_echoes \<Rightarrow> jstring \<Rightarrow> 'a res \<Rightarrow> 'a res" where
  "assert_echo_tail_bound act tail k =
     (if act = []
      then check (tail = []) ''postamble echo pending tail must be empty without active echoes'' k
      else check (0 < max_echo_length act) ''max active echo length requires active echoes''
          (check (length tail < max_echo_length act)
             ''postamble echo pending tail must be shorter than the longest active echo'' k))"

definition register_echo :: "sanitizer \<Rightarrow> jstring \<Rightarrow> jstring \<Rightarrow> sanitizer res" where
  "register_echo sz marker postamble =
     assert_run_marker marker
     (bind_res (postamble_echo_variants postamble) (\<lambda>echoes.
        let act = omap_set marker echoes (sz_active sz)
        in assert_echo_tail_bound act (sz_tail sz) (Inr (sz\<lparr>sz_active := act\<rparr>))))"

section \<open>Stripping\<close>

definition consume_tolerant_unit ::
  "strip_state \<Rightarrow> code_unit \<Rightarrow> strip_state option \<times> jstring" where
  \<comment> \<open>\<open>#consumeTolerantEchoByte\<close>: the strip state after the unit and the output it gives.\<close>
  "consume_tolerant_unit st c =
     (if ss_drop st = Some DropEscape
      then (Some (st\<lparr>ss_drop := if c = 91 then Some DropCsi else None\<rparr>), [])
      else if ss_drop st = Some DropCsi
      then (Some (if is_csi_final_byte c then st\<lparr>ss_drop := None\<rparr> else st), [])
      else if c = 13 then (Some st, [])
      else if c = 27 then (Some (st\<lparr>ss_drop := Some DropEscape\<rparr>), [])
      else let advanced = map (\<lambda>d. d\<lparr>ec_index := ec_index d + 1\<rparr>)
                 (filter (\<lambda>d. char_at (ec_echo d) (ec_index d) = Some c) (ss_candidates st))
           in if advanced = [] then (Some st, [c])
              else if list_ex (\<lambda>d. ec_index d = length (ec_echo d)) advanced then (None, [])
              else (Some \<lparr>ss_candidates = advanced, ss_drop = None\<rparr>, []))"

record tolerant_match =
  tm_candidates :: "echo_candidate list"
  tm_completed :: bool
  tm_consumed :: nat

record tolerant_search =
  ts_completed :: "nat option"
  ts_best_index :: nat
  ts_best_consumed :: nat
  ts_candidates :: "echo_candidate list"

definition tolerant_step :: "jstring \<times> jstring \<Rightarrow> echo_scan \<Rightarrow> tolerant_search \<Rightarrow> tolerant_search" where
  \<comment> \<open>The body of the loops for one echo, after its scan.\<close>
  "tolerant_step me scan ts =
     (if es_complete scan
      then ts\<lparr>ts_completed :=
             Some (max (case ts_completed ts of None \<Rightarrow> 0 | Some n \<Rightarrow> n) (es_consumed scan))\<rparr>
      else if es_index scan < min_tolerant_echo_prefix_length then ts
      else let ts1 =
             (if ts_best_index ts < es_index scan
                 \<or> es_index scan = ts_best_index ts \<and> ts_best_consumed ts < es_consumed scan
              then ts\<lparr>ts_best_index := es_index scan, ts_best_consumed := es_consumed scan,
                      ts_candidates := []\<rparr>
              else ts)
           in if es_index scan = ts_best_index ts1 \<and> es_consumed scan = ts_best_consumed ts1
              then ts1\<lparr>ts_candidates := ts_candidates ts1
                         @ [\<lparr>ec_marker = fst me, ec_echo = snd me, ec_index = es_index scan\<rparr>]\<rparr>
              else ts1)"

fun search_tolerant :: "jstring \<Rightarrow> (jstring \<times> jstring) list \<Rightarrow> tolerant_search \<Rightarrow> tolerant_search res" where
  "search_tolerant remaining [] ts = Inr ts"
| "search_tolerant remaining (me # mes) ts =
     bind_res (scan_echo_prefix remaining (snd me)) (\<lambda>scan.
       check (es_complete scan \<longrightarrow> es_index scan = length (snd me))
         ''complete postamble echo scan must consume the full echo''
         (search_tolerant remaining mes (tolerant_step me scan ts)))"

definition find_tolerant_match :: "active_echoes \<Rightarrow> jstring \<Rightarrow> tolerant_match option res" where
  "find_tolerant_match act remaining =
     bind_res (search_tolerant remaining (flat_echoes act)
                 \<lparr>ts_completed = None, ts_best_index = 0, ts_best_consumed = 0, ts_candidates = []\<rparr>)
       (\<lambda>ts. case ts_completed ts of
               Some n \<Rightarrow> Inr (Some \<lparr>tm_candidates = [], tm_completed = True, tm_consumed = n\<rparr>)
             | None \<Rightarrow>
                 if ts_best_index ts = 0 then Inr None
                 else check (ts_candidates ts \<noteq> [])
                        ''tolerant postamble echo prefix match must have candidates''
                        (Inr (Some \<lparr>tm_candidates = ts_candidates ts, tm_completed = False,
                                    tm_consumed = ts_best_consumed ts\<rparr>)))"

fun find_complete_echo :: "(jstring \<times> jstring) list \<Rightarrow> jstring \<Rightarrow> jstring option \<Rightarrow> jstring option res" where
  "find_complete_echo [] rest matched = Inr matched"
| "find_complete_echo ((m, e) # mes) rest matched =
     (if \<not> starts_with rest e then find_complete_echo mes rest matched
      else check (matched = None \<or> matched = Some e) ''postamble echo matches must be unambiguous''
             (find_complete_echo mes rest (Some e)))"

fun any_partial_echo :: "(jstring \<times> jstring) list \<Rightarrow> jstring \<Rightarrow> bool res" where
  "any_partial_echo [] remaining = Inr False"
| "any_partial_echo (me # mes) remaining =
     bind_res (scan_echo_prefix remaining (snd me)) (\<lambda>scan.
       if es_pending scan \<and> 0 < es_index scan then Inr True else any_partial_echo mes remaining)"

definition has_partial_echo :: "active_echoes \<Rightarrow> jstring \<Rightarrow> bool res" where
  "has_partial_echo act remaining =
     check (0 < max_echo_length act) ''max active echo length requires active echoes''
       (if max_echo_length act \<le> length remaining then Inr False
        else any_partial_echo (flat_echoes act) remaining)"

definition set_echo_tail :: "active_echoes \<Rightarrow> jstring \<Rightarrow> 'a res \<Rightarrow> 'a res" where
  "set_echo_tail act tail k =
     check (tail \<noteq> []) ''postamble echo pending tail must not be empty''
     (check (act \<noteq> []) ''postamble echo pending tail requires active echoes''
     (assert_echo_tail_bound act tail k))"

function strip_loop ::
  "bool \<Rightarrow> active_echoes \<Rightarrow> strip_state option \<Rightarrow> jstring \<Rightarrow> jstring
     \<Rightarrow> (jstring \<times> strip_state option \<times> jstring) res" where
  \<comment> \<open>\<open>isFinal\<close>, the active echoes, the strip state, the output so far and the rest of the buffer;
     gives the output, the strip state and the pending tail. A match has at least one unit, as the
     echoes are not empty, so \<open>drop (n - 1) cs\<close> drops \<open>n\<close> units of \<open>c # cs\<close>.\<close>
  "strip_loop fin act strip out rest =
     (case rest of
        [] \<Rightarrow> assert_echo_tail_bound act [] (Inr (out, strip, []))
      | c # cs \<Rightarrow>
          (case strip of
             Some st \<Rightarrow>
               strip_loop fin act (fst (consume_tolerant_unit st c))
                 (out @ snd (consume_tolerant_unit st c)) cs
           | None \<Rightarrow>
               if act = [] then Inr (out @ rest, None, [])
               else if c \<noteq> postamble_echo_start then strip_loop fin act None (out @ [c]) cs
               else bind_res (find_complete_echo (flat_echoes act) rest None) (\<lambda>matched.
                 case matched of
                   Some e \<Rightarrow> strip_loop fin act None out (drop (length e - 1) cs)
                 | None \<Rightarrow>
                     bind_res (find_tolerant_match act rest) (\<lambda>tolerant.
                       case tolerant of
                         Some tm \<Rightarrow>
                           strip_loop fin act
                             (if tm_completed tm then None
                              else Some \<lparr>ss_candidates = tm_candidates tm, ss_drop = None\<rparr>)
                             out (drop (tm_consumed tm - 1) cs)
                       | None \<Rightarrow>
                           bind_res (if fin then Inr False else has_partial_echo act rest)
                             (\<lambda>partial.
                                if partial then set_echo_tail act rest (Inr (out, None, rest))
                                else strip_loop fin act None (out @ [c]) cs)))))"
  by pat_completeness auto
termination
  by (relation "measure (\<lambda>(fin, act, strip, out, rest). length rest)") auto

declare strip_loop.simps [simp del]

definition strip_buffer :: "sanitizer \<Rightarrow> jstring \<Rightarrow> bool \<Rightarrow> (jstring \<times> sanitizer) res" where
  "strip_buffer sz buffer fin =
     (if buffer = [] then Inr ([], sz)
      else if sz_active sz = [] \<and> sz_strip sz = None
      then check (sz_tail sz = [])
             ''postamble echo pending tail must stay empty without active echoes''
             (Inr (buffer, sz))
      else bind_res (strip_loop fin (sz_active sz) (sz_strip sz) [] buffer)
             (\<lambda>(out, strip, tail). Inr (out, sz\<lparr>sz_strip := strip, sz_tail := tail\<rparr>)))"

definition deregister_echo :: "sanitizer \<Rightarrow> jstring \<Rightarrow> (jstring \<times> sanitizer) res" where
  "deregister_echo sz marker =
     assert_run_marker marker
     (let act = omap_delete marker (sz_active sz);
          strip = (case sz_strip sz of
                     None \<Rightarrow> None
                   | Some st \<Rightarrow>
                       let candidates = filter (\<lambda>d. ec_marker d \<noteq> marker) (ss_candidates st)
                       in if candidates = [] then None
                          else Some (st\<lparr>ss_candidates := candidates\<rparr>));
          sz1 = sz\<lparr>sz_active := act, sz_strip := strip\<rparr>
      in if sz_tail sz = [] then Inr ([], sz1)
         else strip_buffer (sz1\<lparr>sz_tail := []\<rparr>) (sz_tail sz) False)"

definition sanitizer_feed :: "sanitizer \<Rightarrow> jstring \<Rightarrow> (jstring \<times> sanitizer) res" where
  "sanitizer_feed sz chunk =
     (if chunk = [] then Inr ([], sz)
      else if sz_active sz = [] \<and> sz_strip sz = None
      then check (sz_tail sz = [])
             ''postamble echo pending tail must be empty when no echoes are active''
             (Inr (chunk, sz))
      else strip_buffer (sz\<lparr>sz_tail := []\<rparr>) (sz_tail sz @ chunk) False)"

definition sanitizer_flush :: "sanitizer \<Rightarrow> (jstring \<times> sanitizer) res" where
  "sanitizer_flush sz =
     (if sz_tail sz = [] then Inr ([], sz)
      else strip_buffer (sz\<lparr>sz_tail := []\<rparr>) (sz_tail sz) True)"

section \<open>Well-formed echoes\<close>

text \<open>
  The postambles the host injects: \<open>printf\<close> with a quoted text of octal escapes, in one line.
\<close>

definition good_body :: "jstring \<Rightarrow> bool" where
  "good_body x \<longleftrightarrow>
     min_tolerant_echo_prefix_length \<le> length x \<and> hd x = postamble_echo_start
     \<and> 10 \<notin> set x \<and> 13 \<notin> set x \<and> 27 \<notin> set x"

definition echo_of :: "jstring \<Rightarrow> jstring \<Rightarrow> bool" where
  "echo_of x e \<longleftrightarrow> e = x @ [13, 10] \<or> e = x @ [10]"

definition echoes_ok :: "active_echoes \<Rightarrow> bool" where
  "echoes_ok act \<longleftrightarrow> (\<forall>(m, es) \<in> set act. \<exists>x. good_body x \<and> es = [x @ [13, 10], x @ [10]])"

lemma postamble_variants_good:
  "good_body x \<Longrightarrow> postamble_echo_variants (x @ [10]) = Inr [x @ [13, 10], x @ [10]]"
  by (simp add: postamble_echo_variants_def)

lemma flat_echoes_ok:
  assumes "echoes_ok act" and "(m, e) \<in> set (flat_echoes act)"
  shows "\<exists>x. good_body x \<and> echo_of x e"
proof -
  from assms(2) obtain es where "(m, es) \<in> set act" "e \<in> set es"
    by (auto simp: flat_echoes_def)
  with assms(1) show ?thesis by (fastforce simp: echoes_ok_def echo_of_def)
qed

lemma flat_echoes_ne: "echoes_ok act \<Longrightarrow> act \<noteq> [] \<Longrightarrow> flat_echoes act \<noteq> []"
  by (cases act) (auto simp: flat_echoes_def echoes_ok_def)

lemma good_echo_ends:
  assumes "good_body x" and "echo_of x e"
  shows "e \<noteq> []" and "last e = 10" and "10 \<notin> set (butlast e)"
  using assms by (auto simp: good_body_def echo_of_def butlast_append)

lemma flat_echoes_all:
  "echoes_ok act \<Longrightarrow> \<forall>me \<in> set (flat_echoes act). \<exists>x. good_body x \<and> echo_of x (snd me)"
  using flat_echoes_ok by (metis prod.collapse)

lemma flat_echoes_nonempty: "echoes_ok act \<Longrightarrow> \<forall>me \<in> set (flat_echoes act). snd me \<noteq> []"
  using flat_echoes_all good_echo_ends(1) by blast

text \<open>Texts that end at their only line feed are never proper prefixes of one another.\<close>

lemma line_prefix_eq:
  fixes e e' :: jstring
  assumes "prefix e e'" and "e \<noteq> []" and "last e = 10" and "10 \<notin> set (butlast e')"
  shows "e = e'"
proof (rule ccontr)
  assume "e \<noteq> e'"
  with assms(1) obtain z zs where "e' = e @ z # zs"
    by (metis append_Nil2 neq_Nil_conv prefix_def)
  then have "set e \<subseteq> set (butlast e')" by (simp add: butlast_append)
  moreover have "last e \<in> set e" using assms(2) by simp
  ultimately show False using assms(3,4) by auto
qed

lemma find_complete_echo_ok:
  assumes "\<forall>me \<in> set mes. \<exists>x. good_body x \<and> echo_of x (snd me)"
    and "\<And>e. matched = Some e \<Longrightarrow> prefix e rest \<and> (\<exists>x. good_body x \<and> echo_of x e)"
  shows "\<exists>r. find_complete_echo mes rest matched = Inr r
    \<and> (\<forall>e. r = Some e \<longrightarrow> prefix e rest \<and> (\<exists>x. good_body x \<and> echo_of x e))
    \<and> (r = None \<longleftrightarrow> matched = None \<and> (\<forall>(m, e) \<in> set mes. \<not> prefix e rest))"
  using assms
proof (induction mes rest matched rule: find_complete_echo.induct)
  case (1 rest matched)
  then show ?case by simp
next
  case (2 m e mes rest matched)
  show ?case
  proof (cases "prefix e rest")
    case False
    then show ?thesis using "2.IH"(1) "2.prems" by (simp add: starts_with_prefix)
  next
    case True
    have good: "\<exists>x. good_body x \<and> echo_of x e" using "2.prems"(1) by simp
    have un: "matched = None \<or> matched = Some e"
    proof (cases matched)
      case (Some e')
      then have e': "prefix e' rest" and good': "\<exists>x. good_body x \<and> echo_of x e'"
        using "2.prems"(2) by auto
      from e' True have "prefix e e' \<or> prefix e' e" using prefix_same_cases by blast
      with good good' good_echo_ends have "e = e'" by (metis line_prefix_eq)
      with Some show ?thesis by simp
    qed simp
    obtain r where "find_complete_echo mes rest (Some e) = Inr r"
      "\<forall>e. r = Some e \<longrightarrow> prefix e rest \<and> (\<exists>x. good_body x \<and> echo_of x e)" "r \<noteq> None"
      using "2.IH"(2) "2.prems"(1) True un good by (fastforce simp: starts_with_prefix)
    with True un show ?thesis by (auto simp: starts_with_prefix)
  qed
qed

section \<open>Scans\<close>

lemma scan_echo_complete:
  "es_complete (scan_echo_from rest echo bi ei) \<Longrightarrow>
     es_index (scan_echo_from rest echo bi ei) = ei + length echo"
proof (induction rest echo bi ei rule: scan_echo_from.induct)
  case (1 rest echo bi ei)
  note simps = scan_echo_from.simps [of rest echo bi ei]
  show ?case
  proof (cases "rest = [] \<or> echo = []")
    case True
    with "1.prems" show ?thesis unfolding simps by simp
  next
    case False
    then obtain e es where e: "echo = e # es" by (cases echo) auto
    show ?thesis
    proof (cases "find_skippable_control rest")
      case None
      with False "1.prems" "1.IH"(1) [OF False None] e show ?thesis
        by (auto simp: scan_echo_from.simps [of rest "e # es"] split: if_splits)
    next
      case (Some k)
      with False "1.prems" "1.IH"(2) [OF False Some] show ?thesis
        by (cases k) (auto simp: simps)
    qed
  qed
qed

lemma max_echo_fold_ge:
  "n \<le> fold (\<lambda>(m, e) n. max n (length e)) mes n
   \<and> ((m, e) \<in> set mes \<longrightarrow> length e \<le> fold (\<lambda>(m, e) n. max n (length e)) mes n)"
proof (induction mes arbitrary: n)
  case Nil
  then show ?case by simp
next
  case (Cons a mes)
  show ?case using Cons.IH [of "max n (length (snd a))"] by (cases a) auto
qed

lemma max_echo_length_ge: "(m, e) \<in> set (flat_echoes act) \<Longrightarrow> length e \<le> max_echo_length act"
  using max_echo_fold_ge [of 0 "flat_echoes act" m e] by (simp add: max_echo_length_def)

lemma max_echo_length_pos: "echoes_ok act \<Longrightarrow> act \<noteq> [] \<Longrightarrow> 0 < max_echo_length act"
proof -
  assume ok: "echoes_ok act" "act \<noteq> []"
  then obtain m e where me: "(m, e) \<in> set (flat_echoes act)"
    using flat_echoes_ne by (metis list.set_sel(1) surj_pair)
  with flat_echoes_ok [OF ok(1)] good_echo_ends have "0 < length e" by blast
  with max_echo_length_ge [OF me] show ?thesis by linarith
qed

definition echo_tail_fits :: "active_echoes \<Rightarrow> jstring \<Rightarrow> bool" where
  "echo_tail_fits act tail \<longleftrightarrow> tail = [] \<or> length tail < max_echo_length act"

lemma echo_tail_fits_Nil [simp]: "echo_tail_fits act []" "echo_tail_fits [] t \<longleftrightarrow> t = []"
  by (auto simp: echo_tail_fits_def max_echo_length_def flat_echoes_def)

lemma assert_echo_tail_bound_ok:
  "echoes_ok act \<Longrightarrow> echo_tail_fits act tail \<Longrightarrow> assert_echo_tail_bound act tail k = k"
  using max_echo_length_pos [of act]
  by (cases "act = []") (auto simp: assert_echo_tail_bound_def echo_tail_fits_def [of act])

lemma tolerant_step_candidates:
  "ts_best_index ts = 0 \<or> ts_candidates ts \<noteq> [] \<Longrightarrow>
     ts_best_index (tolerant_step me scan ts) = 0 \<or> ts_candidates (tolerant_step me scan ts) \<noteq> []"
  by (auto simp: tolerant_step_def Let_def)

lemma search_tolerant_ok:
  assumes "\<forall>me \<in> set mes. snd me \<noteq> []"
  shows "search_tolerant remaining mes ts =
    Inr (fold (\<lambda>me. tolerant_step me (scan_echo_from remaining (snd me) 0 0)) mes ts)"
  using assms
proof (induction mes arbitrary: ts)
  case Nil
  then show ?case by simp
next
  case (Cons me mes)
  have "snd me \<noteq> []" using Cons.prems by simp
  moreover have "es_complete (scan_echo_from remaining (snd me) 0 0) \<Longrightarrow>
      es_index (scan_echo_from remaining (snd me) 0 0) = length (snd me)"
    using scan_echo_complete [of remaining "snd me" 0 0] by simp
  ultimately show ?case
    using Cons by (simp add: scan_echo_prefix_def check_def)
qed

lemma fold_tolerant_candidates:
  "ts_best_index ts = 0 \<or> ts_candidates ts \<noteq> [] \<Longrightarrow>
     ts_best_index (fold (\<lambda>me. tolerant_step me (f me)) mes ts) = 0
     \<or> ts_candidates (fold (\<lambda>me. tolerant_step me (f me)) mes ts) \<noteq> []"
  by (induction mes arbitrary: ts) (simp_all add: tolerant_step_candidates)

lemma find_tolerant_match_ok: "echoes_ok act \<Longrightarrow> \<exists>r. find_tolerant_match act remaining = Inr r"
proof -
  assume ok: "echoes_ok act"
  note ne = flat_echoes_nonempty [OF ok]
  let ?start = "\<lparr>ts_completed = None, ts_best_index = 0, ts_best_consumed = 0, ts_candidates = []\<rparr>"
  have "ts_best_index (fold (\<lambda>me. tolerant_step me (scan_echo_from remaining (snd me) 0 0)) (flat_echoes act) ?start) = 0
    \<or> ts_candidates (fold (\<lambda>me. tolerant_step me (scan_echo_from remaining (snd me) 0 0)) (flat_echoes act) ?start) \<noteq> []"
    by (rule fold_tolerant_candidates) simp
  then show ?thesis
    unfolding find_tolerant_match_def search_tolerant_ok [OF ne]
    by (auto split: option.split)
qed

lemma any_partial_echo_ok:
  assumes "\<forall>me \<in> set mes. snd me \<noteq> []"
  shows "any_partial_echo mes rest = Inr (\<exists>(m, e) \<in> set mes.
    es_pending (scan_echo_from rest e 0 0) \<and> 0 < es_index (scan_echo_from rest e 0 0))"
  using assms
proof (induction mes)
  case Nil
  then show ?case by simp
next
  case (Cons me mes)
  have "snd me \<noteq> []" using Cons.prems by simp
  then show ?case using Cons by (auto simp: scan_echo_prefix_def split_beta)
qed

lemma has_partial_echo_ok:
  assumes "echoes_ok act" and "act \<noteq> []"
  shows "has_partial_echo act rest = Inr (length rest < max_echo_length act
    \<and> (\<exists>(m, e) \<in> set (flat_echoes act).
         es_pending (scan_echo_from rest e 0 0) \<and> 0 < es_index (scan_echo_from rest e 0 0)))"
proof -
  note ne = flat_echoes_nonempty [OF assms(1)]
  show ?thesis
    using max_echo_length_pos [OF assms]
    by (auto simp: has_partial_echo_def any_partial_echo_ok [OF ne])
qed

section \<open>Every run ends, and invents nothing\<close>

definition strip_result ::
  "bool \<Rightarrow> active_echoes \<Rightarrow> jstring \<Rightarrow> jstring
     \<Rightarrow> (jstring \<times> strip_state option \<times> jstring) res \<Rightarrow> bool" where
  "strip_result fin act out rest res \<longleftrightarrow>
     (\<exists>o1 strip tail. res = Inr (out @ o1, strip, tail) \<and> echo_tail_fits act tail
        \<and> (fin \<longrightarrow> tail = []) \<and> subseq (o1 @ tail) rest)"

lemma strip_result_skip:
  assumes "strip_result fin act (out @ p) rest' res" and "subseq p q" and "subseq rest' r"
  shows "strip_result fin act out (q @ r) res"
  using assms list_emb_append_mono [OF assms(2)] subseq_order.trans
  unfolding strip_result_def by (metis append.assoc)

lemma subseq_drop: "subseq (drop n xs) xs"
  by (metis append_take_drop_id suffix_imp_subseq suffix_def)

lemma consume_tolerant_output: "subseq (snd (consume_tolerant_unit st c)) [c]"
  by (auto simp: consume_tolerant_unit_def Let_def)

lemma strip_loop_Nil:
  "echoes_ok act \<Longrightarrow> strip_loop fin act strip out [] = Inr (out, strip, [])"
  by (simp add: strip_loop.simps [of fin act strip out] assert_echo_tail_bound_ok)

lemma strip_loop_strip:
  "strip_loop fin act (Some st) out (c # cs) =
     strip_loop fin act (fst (consume_tolerant_unit st c)) (out @ snd (consume_tolerant_unit st c)) cs"
  by (simp add: strip_loop.simps [of fin act "Some st" out])

lemma strip_loop_idle: "strip_loop fin [] None out (c # cs) = Inr (out @ c # cs, None, [])"
  by (simp add: strip_loop.simps [of fin "[]"])

lemma strip_loop_plain:
  "act \<noteq> [] \<Longrightarrow> c \<noteq> postamble_echo_start \<Longrightarrow>
     strip_loop fin act None out (c # cs) = strip_loop fin act None (out @ [c]) cs"
  by (simp add: strip_loop.simps [of fin act None out])

lemma strip_loop_p:
  assumes "echoes_ok act" and "act \<noteq> []"
  shows "strip_loop fin act None out (postamble_echo_start # cs) =
    (let rest = postamble_echo_start # cs
     in bind_res (find_complete_echo (flat_echoes act) rest None) (\<lambda>matched.
          case matched of
            Some e \<Rightarrow> strip_loop fin act None out (drop (length e - 1) cs)
          | None \<Rightarrow> bind_res (find_tolerant_match act rest) (\<lambda>tolerant.
              case tolerant of
                Some tm \<Rightarrow> strip_loop fin act
                    (if tm_completed tm then None
                     else Some \<lparr>ss_candidates = tm_candidates tm, ss_drop = None\<rparr>)
                    out (drop (tm_consumed tm - 1) cs)
              | None \<Rightarrow>
                  if \<not> fin \<and> has_partial_echo act rest = Inr True
                  then Inr (out, None, rest)
                  else strip_loop fin act None (out @ [postamble_echo_start]) cs)))"
proof -
  let ?rest = "postamble_echo_start # cs"
  obtain b where b: "has_partial_echo act ?rest = Inr b"
    using has_partial_echo_ok [OF assms] by blast
  have "echo_tail_fits act ?rest" if "b"
    using that b has_partial_echo_ok [OF assms, of ?rest] by (simp add: echo_tail_fits_def)
  then have "set_echo_tail act ?rest k = k" if "b" for k :: "(jstring \<times> strip_state option \<times> jstring) res"
    using that assms by (simp add: set_echo_tail_def assert_echo_tail_bound_ok)
  with b assms(2) show ?thesis
    by (simp add: strip_loop.simps [of fin act None out ?rest] Let_def cong: option.case_cong)
qed

lemma strip_loop_result:
  "echoes_ok act \<Longrightarrow> strip_result fin act out rest (strip_loop fin act strip out rest)"
proof (induction fin act strip out rest rule: strip_loop.induct)
  case (1 fin act strip out rest)
  note ok = "1.prems"
  show ?case
  proof (cases rest)
    case Nil
    with ok show ?thesis by (simp add: strip_result_def strip_loop_Nil)
  next
    case (Cons c cs)
    consider (strip) st where "strip = Some st" | (idle) "strip = None" "act = []"
      | (plain) "strip = None" "act \<noteq> []" "c \<noteq> postamble_echo_start"
      | (p) "strip = None" "act \<noteq> []" "c = postamble_echo_start"
      by (cases strip) auto
    then show ?thesis
    proof cases
      case (strip st)
      with "1.IH"(5) [OF Cons strip ok] consume_tolerant_output [of st c] show ?thesis
        using strip_result_skip [of fin act out _ cs _ "[c]" cs] by (simp add: Cons strip_loop_strip)
    next
      case idle
      then show ?thesis by (simp add: strip_result_def Cons strip_loop_idle)
    next
      case plain
      with "1.IH"(1) [OF Cons plain ok] show ?thesis
        using strip_result_skip [of fin act out "[c]" cs _ "[c]" cs] by (simp add: Cons strip_loop_plain)
    next
      case p
      have skip: "strip_result fin act out rest r" if "strip_result fin act out (drop n cs) r" for n r
        using that strip_result_skip [of fin act out "[]" "drop n cs" r "[c]" cs]
        by (simp add: Cons subseq_drop)
      obtain matched where m: "find_complete_echo (flat_echoes act) rest None = Inr matched"
        using find_complete_echo_ok [OF flat_echoes_all [OF ok], of None rest] by auto
      obtain tolerant where t: "find_tolerant_match act rest = Inr tolerant"
        using find_tolerant_match_ok [OF ok] by blast
      note loop = strip_loop_p [OF ok p(2), of fin out cs, folded p(3), folded Cons, unfolded Let_def m]
      have c: "\<not> c \<noteq> postamble_echo_start" using p(3) by simp
      show ?thesis
      proof (cases matched)
        case (Some e)
        with "1.IH"(4) [OF Cons p(1,2) c m Some ok] loop p(1) show ?thesis by (simp add: skip)
      next
        case None
        show ?thesis
        proof (cases tolerant)
          case (Some tm)
          with "1.IH"(3) [OF Cons p(1,2) c m None t Some ok] loop p(1) None t show ?thesis
            by (simp add: skip)
        next
          case none: None
          let ?partial = "has_partial_echo act rest"
          obtain b where b: "?partial = Inr b" using has_partial_echo_ok [OF ok p(2)] by blast
          show ?thesis
          proof (cases "\<not> fin \<and> b")
            case True
            moreover from this b have "echo_tail_fits act rest"
              using has_partial_echo_ok [OF ok p(2), of rest] by (simp add: echo_tail_fits_def)
            ultimately show ?thesis using loop p(1) None t none b by (simp add: strip_result_def)
          next
            case False
            then have "(if fin then Inr False else ?partial) = Inr False" using b by auto
            from "1.IH"(2) [OF Cons p(1,2) c m None t none this] ok
            have "strip_result fin act (out @ [c]) cs (strip_loop fin act None (out @ [c]) cs)" by simp
            with False loop p None t none b show ?thesis
              using strip_result_skip [of fin act out "[c]" cs _ "[c]" cs] by (auto simp: Cons)
          qed
        qed
      qed
    qed
  qed
qed

section \<open>Operations\<close>

definition sanitizer_ok :: "sanitizer \<Rightarrow> bool" where
  "sanitizer_ok sz \<longleftrightarrow> echoes_ok (sz_active sz) \<and> echo_tail_fits (sz_active sz) (sz_tail sz)"

lemma strip_buffer_result:
  assumes "echoes_ok (sz_active sz)" and "sz_tail sz = []"
  shows "\<exists>out sz'. strip_buffer sz buffer fin = Inr (out, sz') \<and> sanitizer_ok sz'
    \<and> sz_active sz' = sz_active sz \<and> (fin \<longrightarrow> sz_tail sz' = []) \<and> subseq (out @ sz_tail sz') buffer"
proof -
  have "strip_result fin (sz_active sz) [] buffer (strip_loop fin (sz_active sz) (sz_strip sz) [] buffer)"
    using assms(1) by (rule strip_loop_result)
  with assms show ?thesis
    by (auto simp: strip_buffer_def strip_result_def sanitizer_ok_def)
qed

lemma sanitizer_feed_result:
  assumes "sanitizer_ok sz"
  shows "\<exists>out sz'. sanitizer_feed sz c = Inr (out, sz') \<and> sanitizer_ok sz'
    \<and> sz_active sz' = sz_active sz \<and> subseq (out @ sz_tail sz') (sz_tail sz @ c)"
proof (cases "c = [] \<or> sz_active sz = [] \<and> sz_strip sz = None")
  case True
  with assms show ?thesis by (auto simp: sanitizer_feed_def sanitizer_ok_def)
next
  case False
  with assms strip_buffer_result [of "sz\<lparr>sz_tail := []\<rparr>" "sz_tail sz @ c" False] show ?thesis
    by (auto simp: sanitizer_feed_def sanitizer_ok_def)
qed

lemma sanitizer_flush_result:
  assumes "sanitizer_ok sz"
  shows "\<exists>out sz'. sanitizer_flush sz = Inr (out, sz') \<and> sanitizer_ok sz'
    \<and> sz_active sz' = sz_active sz \<and> sz_tail sz' = [] \<and> subseq out (sz_tail sz)"
  using assms strip_buffer_result [of "sz\<lparr>sz_tail := []\<rparr>" "sz_tail sz" True]
  by (cases "sz_tail sz = []") (auto simp: sanitizer_flush_def sanitizer_ok_def)

lemma echoes_ok_delete: "echoes_ok act \<Longrightarrow> echoes_ok (omap_delete m act)"
  by (auto simp: echoes_ok_def set_omap_delete)

lemma deregister_echo_result:
  assumes "sanitizer_ok sz" and "is_run_marker marker"
  shows "\<exists>out sz'. deregister_echo sz marker = Inr (out, sz') \<and> sanitizer_ok sz'
    \<and> sz_active sz' = omap_delete marker (sz_active sz) \<and> subseq (out @ sz_tail sz') (sz_tail sz)"
proof -
  let ?act = "omap_delete marker (sz_active sz)"
  obtain strip where strip: "(case sz_strip sz of None \<Rightarrow> None
      | Some st \<Rightarrow> let candidates = filter (\<lambda>d. ec_marker d \<noteq> marker) (ss_candidates st)
          in if candidates = [] then None else Some (st\<lparr>ss_candidates := candidates\<rparr>)) = strip"
    by blast
  have ok: "echoes_ok ?act" using assms(1) by (simp add: sanitizer_ok_def echoes_ok_delete)
  have red: "deregister_echo sz marker =
      (let sz1 = sz\<lparr>sz_active := ?act, sz_strip := strip\<rparr>
       in if sz_tail sz = [] then Inr ([], sz1)
          else strip_buffer (sz1\<lparr>sz_tail := []\<rparr>) (sz_tail sz) False)"
    using assms(2) by (simp add: deregister_echo_def assert_run_marker_def strip [symmetric] Let_def)
  show ?thesis
    unfolding red
    using ok strip_buffer_result [of "sz\<lparr>sz_active := ?act, sz_strip := strip, sz_tail := []\<rparr>" "sz_tail sz" False]
    by (cases "sz_tail sz = []") (auto simp: sanitizer_ok_def Let_def)
qed

lemma feed_all_sanitizer:
  "sanitizer_ok sz \<Longrightarrow> \<exists>out sz'. feed_all sanitizer_feed sz cs = Inr (out, sz') \<and> sanitizer_ok sz'
     \<and> sz_active sz' = sz_active sz \<and> subseq (out @ sz_tail sz') (sz_tail sz @ concat cs)"
proof (induction cs arbitrary: sz)
  case Nil
  then show ?case by simp
next
  case (Cons c cs)
  obtain o1 s1 where one: "sanitizer_feed sz c = Inr (o1, s1)" "sanitizer_ok s1"
      "sz_active s1 = sz_active sz" "subseq (o1 @ sz_tail s1) (sz_tail sz @ c)"
    using sanitizer_feed_result [OF Cons.prems] by blast
  obtain o2 s2 where two: "feed_all sanitizer_feed s1 cs = Inr (o2, s2)" "sanitizer_ok s2"
      "sz_active s2 = sz_active s1" "subseq (o2 @ sz_tail s2) (sz_tail s1 @ concat cs)"
    using Cons.IH [OF one(2)] by blast
  have "subseq (o1 @ o2 @ sz_tail s2) (o1 @ sz_tail s1 @ concat cs)"
    by (rule list_emb_append_mono [OF subseq_order.order_refl two(4)])
  moreover have "subseq (o1 @ sz_tail s1 @ concat cs) (sz_tail sz @ c @ concat cs)"
    using list_emb_append_mono [OF one(4), of "concat cs" "concat cs"] by simp
  ultimately have "subseq (o1 @ o2 @ sz_tail s2) (sz_tail sz @ c @ concat cs)"
    by (rule subseq_order.trans)
  with one two show ?case by simp
qed

section \<open>Removing an echo\<close>

lemma scan_echo_common:
  "13 \<notin> set v \<Longrightarrow> 27 \<notin> set v \<Longrightarrow>
     scan_echo_from (v @ r) (v @ e) bi ei = scan_echo_from r e (bi + length v) (ei + length v)"
proof (induction v arbitrary: bi ei)
  case (Cons c v)
  then have "scan_echo_from (c # v @ r) (c # v @ e) bi ei
      = scan_echo_from (v @ r) (v @ e) (bi + 1) (ei + 1)"
    by (simp add: scan_echo_from.simps [of "c # v @ r"])
  with Cons show ?case by simp
qed simp

lemma scan_echo_end:
  "e \<noteq> [] \<Longrightarrow> scan_echo_from [] e bi ei =
     \<lparr>es_complete = False, es_consumed = bi, es_index = ei, es_pending = True\<rparr>"
  by (simp add: scan_echo_from.simps)

lemma scan_echo_bounds:
  "es_index (scan_echo_from rest e bi ei) \<le> ei + length (filter (\<lambda>c. c \<noteq> 13) rest)
   \<and> es_consumed (scan_echo_from rest e bi ei) \<le> bi + length rest
   \<and> (es_complete (scan_echo_from rest e bi ei) \<longrightarrow> subseq e rest)"
proof (induction rest e bi ei rule: scan_echo_from.induct)
  case (1 rest e bi ei)
  show ?case
  proof (cases "rest = [] \<or> e = []")
    case True
    then show ?thesis by (auto simp: scan_echo_from.simps [of rest e])
  next
    case False
    then obtain c cs d ds where r: "rest = c # cs" and e: "e = d # ds"
      by (cases rest; cases e) auto
    show ?thesis
    proof (cases "find_skippable_control rest")
      case None
      then have "c \<noteq> 13" using r by auto
      with "1.IH"(1) [OF False None] None r e show ?thesis
        by (auto simp: scan_echo_from.simps [of "c # cs" "d # ds"])
    next
      case (Some k)
      show ?thesis
      proof (cases k)
        case ControlPartial
        with Some r e show ?thesis by (simp add: scan_echo_from.simps [of "c # cs" "d # ds"])
      next
        case (ControlComplete n)
        let ?s = "scan_echo_from (drop n rest) e (bi + n) ei"
        have le: "n \<le> length rest"
          using find_skippable_control_le Some ControlComplete by blast
        have "length (filter (\<lambda>c. c \<noteq> 13) (drop n rest)) \<le> length (filter (\<lambda>c. c \<noteq> 13) rest)"
          by (metis append_take_drop_id filter_append le_add2 length_append)
        moreover have "subseq e rest" if "subseq e (drop n rest)"
          using that subseq_drop subseq_order.trans by blast
        moreover have "scan_echo_from rest e bi ei = ?s"
          using False Some ControlComplete by (simp add: scan_echo_from.simps [of rest e])
        ultimately show ?thesis
          using "1.IH"(2) [OF False Some ControlComplete] le by auto
      qed
    qed
  qed
qed

text \<open>
  A proper prefix \<open>u\<close> of an echo of \<open>x\<close>: \<open>u\<close> is a prefix of \<open>x\<close>, or \<open>x\<close> and the carriage return.
  Both variants of the echo scan it to its end.
\<close>

lemma scan_own_echo:
  assumes "good_body x" and "echo_of x e" and "prefix u x \<or> u = x @ [13]"
  shows "scan_echo_from u e 0 0 =
    \<lparr>es_complete = False, es_consumed = length u, es_index = min (length u) (length x), es_pending = True\<rparr>"
proof -
  obtain z where e: "e = x @ z" and z: "z = [13, 10] \<or> z = [10]"
    using assms(2) by (auto simp: echo_of_def)
  have x: "13 \<notin> set x" "27 \<notin> set x" using assms(1) by (auto simp: good_body_def)
  show ?thesis
  proof (cases "u = x @ [13]")
    case True
    have "scan_echo_from u e 0 0 = scan_echo_from [13] z (length x) (length x)"
      using scan_echo_common [OF x, of "[13]" z 0 0] True e by simp
    also have "\<dots> = scan_echo_from [] z (length x + 1) (length x)"
      using z by (auto simp: scan_echo_from.simps [of "[13]"])
    finally show ?thesis using z True by (auto simp: scan_echo_end)
  next
    case False
    with assms(3) obtain w where w: "x = u @ w" by (auto simp: prefix_def)
    have "scan_echo_from u e 0 0 = scan_echo_from [] (w @ z) (length u) (length u)"
      using scan_echo_common [of u "[]" "w @ z" 0 0] x w e by simp
    then show ?thesis using z w by (auto simp: scan_echo_end)
  qed
qed

lemma proper_echo_prefix_units:
  "good_body x \<Longrightarrow> prefix u x \<or> u = x @ [13] \<Longrightarrow>
     10 \<notin> set u \<and> length (filter (\<lambda>c. c \<noteq> 13) u) = min (length u) (length x)"
proof -
  assume g: "good_body x" and u: "prefix u x \<or> u = x @ [13]"
  have f: "filter (\<lambda>c. c \<noteq> 13) v = v" if "13 \<notin> set v" for v :: jstring
    using that by (auto simp: filter_id_conv)
  from g u show ?thesis
    by (auto simp: good_body_def prefix_def f)
qed

lemma subseq_set_mem: "subseq v w \<Longrightarrow> c \<in> set v \<Longrightarrow> c \<in> set w"
  by (auto elim: list_emb_set)

definition search_below ::
  "(jstring \<times> jstring) set \<Rightarrow> nat \<Rightarrow> nat \<Rightarrow> tolerant_search \<Rightarrow> bool" where
  "search_below es i n ts \<longleftrightarrow>
     ts_completed ts = None
     \<and> (ts_best_index ts < i \<or> ts_best_index ts = i \<and> ts_best_consumed ts \<le> n)
     \<and> (\<forall>d \<in> set (ts_candidates ts). ec_index d = ts_best_index ts \<and> (ec_marker d, ec_echo d) \<in> es)"

lemma tolerant_step_below:
  assumes "search_below es i n ts" and "me \<in> es" and "\<not> es_complete sc"
    and "es_index sc < i \<or> es_index sc = i \<and> es_consumed sc \<le> n"
  shows "search_below es i n (tolerant_step me sc ts)"
  using assms by (auto simp: search_below_def tolerant_step_def Let_def)

definition search_at :: "nat \<Rightarrow> nat \<Rightarrow> echo_candidate \<Rightarrow> tolerant_search \<Rightarrow> bool" where
  "search_at i n d ts \<longleftrightarrow>
     ts_best_index ts = i \<and> ts_best_consumed ts = n \<and> d \<in> set (ts_candidates ts)"

lemma tolerant_step_reaches:
  assumes "search_below es i n ts" and "\<not> es_complete sc" and "es_index sc = i" and "es_consumed sc = n"
    and "min_tolerant_echo_prefix_length \<le> i"
  shows "search_at i n \<lparr>ec_marker = fst me, ec_echo = snd me, ec_index = i\<rparr> (tolerant_step me sc ts)"
  using assms by (auto simp: search_below_def search_at_def tolerant_step_def Let_def)

lemma tolerant_step_stays:
  assumes "search_at i n d ts" and "\<not> es_complete sc"
    and "es_index sc < i \<or> es_index sc = i \<and> es_consumed sc \<le> n"
  shows "search_at i n d (tolerant_step me sc ts)"
  using assms by (auto simp: search_at_def tolerant_step_def Let_def)

lemma fold_tolerant_search:
  assumes "\<forall>me \<in> set mes. me \<in> es \<and> \<not> es_complete (f me)
      \<and> (es_index (f me) < i \<or> es_index (f me) = i \<and> es_consumed (f me) \<le> n)"
    and "search_below es i n ts" and "min_tolerant_echo_prefix_length \<le> i"
    and "search_at i n d ts \<or> (\<exists>me \<in> set mes. es_index (f me) = i \<and> es_consumed (f me) = n
          \<and> d = \<lparr>ec_marker = fst me, ec_echo = snd me, ec_index = i\<rparr>)"
  shows "search_below es i n (fold (\<lambda>me. tolerant_step me (f me)) mes ts)
    \<and> search_at i n d (fold (\<lambda>me. tolerant_step me (f me)) mes ts)"
  using assms
proof (induction mes arbitrary: ts)
  case Nil
  then show ?case by simp
next
  case (Cons me mes)
  let ?ts = "tolerant_step me (f me) ts"
  have "search_below es i n ?ts"
    using Cons.prems by (intro tolerant_step_below) auto
  moreover have "search_at i n d ?ts \<or> (\<exists>me \<in> set mes. es_index (f me) = i \<and> es_consumed (f me) = n
          \<and> d = \<lparr>ec_marker = fst me, ec_echo = snd me, ec_index = i\<rparr>)"
    using Cons.prems tolerant_step_stays [of i n d ts "f me" me]
      tolerant_step_reaches [of es i n ts "f me" me] by auto
  ultimately show ?case using Cons.IH [of ?ts] Cons.prems(1,3) by simp
qed

definition strip_phase :: "jstring \<Rightarrow> nat \<Rightarrow> strip_state \<Rightarrow> bool" where
  \<comment> \<open>\<open>j\<close> units of \<open>x\<close> are matched; the echo \<open>x\<close> with a line feed is among the candidates.\<close>
  "strip_phase x j st \<longleftrightarrow>
     ss_drop st = None \<and> j \<le> length x
     \<and> (\<exists>d \<in> set (ss_candidates st). ec_echo d = x @ [10] \<and> ec_index d = j)
     \<and> (\<forall>d \<in> set (ss_candidates st). ec_index d = j \<and> (\<exists>y. good_body y \<and> echo_of y (ec_echo d)))"

lemma find_tolerant_own:
  assumes ok: "echoes_ok act" and mem: "(m, x @ [10]) \<in> set (flat_echoes act)" and x: "good_body x"
    and u: "prefix u x \<or> u = x @ [13]" and long: "min_tolerant_echo_prefix_length \<le> length u"
  shows "\<exists>tm. find_tolerant_match act u = Inr (Some tm) \<and> \<not> tm_completed tm
    \<and> tm_consumed tm = length u
    \<and> strip_phase x (min (length u) (length x)) \<lparr>ss_candidates = tm_candidates tm, ss_drop = None\<rparr>"
proof -
  let ?i = "min (length u) (length x)" and ?f = "\<lambda>me. scan_echo_from u (snd me) 0 0"
  let ?start = "\<lparr>ts_completed = None, ts_best_index = 0, ts_best_consumed = 0, ts_candidates = []\<rparr>"
  let ?d = "\<lparr>ec_marker = m, ec_echo = x @ [10], ec_index = ?i\<rparr>"
  let ?es = "set (flat_echoes act)"
  have long_i: "min_tolerant_echo_prefix_length \<le> ?i" using long x by (simp add: good_body_def)
  have units: "10 \<notin> set u" "length (filter (\<lambda>c. c \<noteq> 13) u) = ?i"
    using proper_echo_prefix_units [OF x u] by auto
  have all: "\<forall>me \<in> ?es. me \<in> ?es \<and> \<not> es_complete (?f me)
      \<and> (es_index (?f me) < ?i \<or> es_index (?f me) = ?i \<and> es_consumed (?f me) \<le> length u)"
  proof
    fix me assume "me \<in> ?es"
    then obtain y where "echo_of y (snd me)" using flat_echoes_all [OF ok] by blast
    then have "10 \<in> set (snd me)" by (auto simp: echo_of_def)
    then have "\<not> subseq (snd me) u" using units(1) subseq_set_mem [of "snd me" u 10] by metis
    then have "\<not> es_complete (?f me)" and "es_index (?f me) \<le> ?i" and "es_consumed (?f me) \<le> length u"
      using scan_echo_bounds [of u "snd me" 0 0] units(2) by simp_all
    then show "me \<in> ?es \<and> \<not> es_complete (?f me)
      \<and> (es_index (?f me) < ?i \<or> es_index (?f me) = ?i \<and> es_consumed (?f me) \<le> length u)"
      using \<open>me \<in> ?es\<close> by linarith
  qed
  let ?ts = "fold (\<lambda>me. tolerant_step me (?f me)) (flat_echoes act) ?start"
  have own: "?f (m, x @ [10]) = \<lparr>es_complete = False, es_consumed = length u, es_index = ?i, es_pending = True\<rparr>"
    using scan_own_echo [OF x _ u, of "x @ [10]"] by (simp add: echo_of_def)
  have "search_below ?es ?i (length u) ?ts \<and> search_at ?i (length u) ?d ?ts"
  proof (rule fold_tolerant_search [OF all _ long_i])
    show "search_below ?es ?i (length u) ?start"
      using long_i by (auto simp: search_below_def min_tolerant_echo_prefix_length_def)
    show "search_at ?i (length u) ?d ?start \<or> (\<exists>me \<in> ?es. es_index (?f me) = ?i
        \<and> es_consumed (?f me) = length u \<and> ?d = \<lparr>ec_marker = fst me, ec_echo = snd me, ec_index = ?i\<rparr>)"
      using mem own by (intro disjI2 bexI [of _ "(m, x @ [10])"]) simp_all
  qed
  then have below: "search_below ?es ?i (length u) ?ts" and at: "search_at ?i (length u) ?d ?ts" by auto
  have phase: "strip_phase x ?i \<lparr>ss_candidates = ts_candidates ?ts, ss_drop = None\<rparr>"
    using below at flat_echoes_ok [OF ok]
    by (auto simp: strip_phase_def search_below_def search_at_def intro!: bexI [of _ ?d])
  have "ts_candidates ?ts \<noteq> []" using at by (auto simp: search_at_def)
  then have "find_tolerant_match act u = Inr (Some \<lparr>tm_candidates = ts_candidates ?ts,
      tm_completed = False, tm_consumed = length u\<rparr>)"
    using below at long_i flat_echoes_nonempty [OF ok]
    by (auto simp: find_tolerant_match_def search_tolerant_ok search_below_def search_at_def
        min_tolerant_echo_prefix_length_def)
  with phase show ?thesis by simp
qed

text \<open>While the strip state holds, the units of the echo are dropped one by one.\<close>

lemma consume_own_unit:
  assumes "strip_phase x j st" and "good_body x" and "j < length x"
  shows "\<exists>st'. consume_tolerant_unit st (x ! j) = (Some st', []) \<and> strip_phase x (Suc j) st'"
proof -
  let ?c = "x ! j"
  let ?adv = "map (\<lambda>d. d\<lparr>ec_index := ec_index d + 1\<rparr>)
    (filter (\<lambda>d. char_at (ec_echo d) (ec_index d) = Some ?c) (ss_candidates st))"
  have "?c \<in> set x" using assms(3) by simp
  with assms(2) have c: "?c \<noteq> 10" "?c \<noteq> 13" "?c \<noteq> 27"
    unfolding good_body_def by metis+
  obtain d where d: "d \<in> set (ss_candidates st)" "ec_echo d = x @ [10]" "ec_index d = j"
    using assms(1) by (auto simp: strip_phase_def)
  have own: "d\<lparr>ec_index := Suc j\<rparr> \<in> set ?adv"
    using d assms(3) by (auto simp: char_at_def nth_append intro!: image_eqI [of _ _ d])
  have idx: "\<forall>e \<in> set ?adv. ec_index e = Suc j \<and> (\<exists>y. good_body y \<and> echo_of y (ec_echo e))
      \<and> Suc j \<noteq> length (ec_echo e)"
  proof
    fix e assume "e \<in> set ?adv"
    then obtain e0 where e0: "e0 \<in> set (ss_candidates st)" "e = e0\<lparr>ec_index := ec_index e0 + 1\<rparr>"
        "char_at (ec_echo e0) (ec_index e0) = Some ?c" by auto
    then obtain y where y: "good_body y" "echo_of y (ec_echo e0)" and j: "ec_index e0 = j"
      using assms(1) by (auto simp: strip_phase_def)
    have "Suc j \<noteq> length (ec_echo e0)"
    proof
      assume "Suc j = length (ec_echo e0)"
      then have "last (ec_echo e0) = ec_echo e0 ! j"
        by (metis diff_Suc_1 last_conv_nth length_0_conv nat.distinct(1))
      with e0(3) j c(1) good_echo_ends(2) [OF y] show False
        by (simp add: char_at_def split: if_splits)
    qed
    with e0 y j show "ec_index e = Suc j \<and> (\<exists>y. good_body y \<and> echo_of y (ec_echo e))
        \<and> Suc j \<noteq> length (ec_echo e)" by auto
  qed
  have "?adv \<noteq> []" using own by (metis empty_iff list.set(1))
  moreover have "\<not> list_ex (\<lambda>d. ec_index d = length (ec_echo d)) ?adv"
    using idx by (auto simp: list_ex_iff)
  ultimately have "consume_tolerant_unit st ?c = (Some \<lparr>ss_candidates = ?adv, ss_drop = None\<rparr>, [])"
    using c assms(1) by (simp add: consume_tolerant_unit_def strip_phase_def)
  moreover have "strip_phase x (Suc j) \<lparr>ss_candidates = ?adv, ss_drop = None\<rparr>"
  proof -
    have "\<exists>d \<in> set ?adv. ec_echo d = x @ [10] \<and> ec_index d = Suc j"
      by (rule bexI [OF _ own]) (simp add: d(2))
    moreover have "\<forall>e \<in> set ?adv. ec_index e = Suc j \<and> (\<exists>y. good_body y \<and> echo_of y (ec_echo e))"
      by (rule ballI, drule bspec [OF idx], elim conjE, intro conjI)
    ultimately show ?thesis
      unfolding strip_phase_def strip_state.simps using Suc_leI [OF assms(3)] by blast
  qed
  ultimately show ?thesis by blast
qed

lemma consume_own_return:
  "strip_phase x j st \<Longrightarrow> consume_tolerant_unit st 13 = (Some st, [])"
  by (simp add: consume_tolerant_unit_def strip_phase_def)

lemma consume_own_newline:
  assumes "strip_phase x (length x) st"
  shows "consume_tolerant_unit st 10 = (None, [])"
proof -
  obtain d where d: "d \<in> set (ss_candidates st)" "ec_echo d = x @ [10]" "ec_index d = length x"
    using assms by (auto simp: strip_phase_def)
  let ?adv = "map (\<lambda>d. d\<lparr>ec_index := ec_index d + 1\<rparr>)
    (filter (\<lambda>d. char_at (ec_echo d) (ec_index d) = Some 10) (ss_candidates st))"
  have own: "d\<lparr>ec_index := Suc (length x)\<rparr> \<in> set ?adv"
    using d by (auto simp: char_at_def nth_append intro!: image_eqI [of _ _ d])
  then have "list_ex (\<lambda>d. ec_index d = length (ec_echo d)) ?adv"
    unfolding list_ex_iff by (intro bexI [OF _ own]) (simp add: d)
  moreover have "?adv \<noteq> []" using own by (metis empty_iff list.set(1))
  ultimately show ?thesis
    using assms by (simp add: consume_tolerant_unit_def strip_phase_def)
qed

lemma consume_echo_unit:
  assumes x: "good_body x" and e: "echo_of x e" and phase: "strip_phase x (min n (length x)) st"
    and n: "n < length e"
  shows "if Suc n = length e then consume_tolerant_unit st (e ! n) = (None, [])
    else \<exists>st'. consume_tolerant_unit st (e ! n) = (Some st', []) \<and> strip_phase x (min (Suc n) (length x)) st'"
proof (cases "n < length x")
  case True
  with e have "e ! n = x ! n" and "Suc n \<noteq> length e" by (auto simp: echo_of_def nth_append)
  with consume_own_unit [OF _ x True] phase True show ?thesis by (simp add: Suc_leI min_absorb1)
next
  case False
  with phase have phase': "strip_phase x (length x) st" by simp
  from False n e consider "n = length x" "e = x @ [13, 10]" | "Suc n = length e" "e ! n = 10"
    by (auto simp: echo_of_def nth_append le_Suc_eq less_Suc_eq_le not_less split: if_splits)
  then show ?thesis
  proof cases
    case 1
    with phase' consume_own_return show ?thesis by (fastforce simp: nth_append)
  next
    case 2
    with phase' show ?thesis by (simp add: consume_own_newline)
  qed
qed

text \<open>
  The state once the units \<open>u\<close> of an echo of \<open>x\<close> are behind, and what the loop makes of the units
  \<open>v\<close> that follow.
\<close>

definition echo_phase :: "jstring \<Rightarrow> jstring \<Rightarrow> strip_state option \<Rightarrow> jstring \<Rightarrow> bool" where
  "echo_phase x u strip tail \<longleftrightarrow>
     (if length u < min_tolerant_echo_prefix_length then strip = None \<and> tail = u
      else tail = [] \<and> (\<exists>st. strip = Some st \<and> strip_phase x (min (length u) (length x)) st))"

lemma strip_loop_echo_rest:
  assumes "good_body x" and "echo_of x e" and "strip_phase x (min (length u) (length x)) st"
    and "e = u @ v @ w" and "u \<noteq> e"
  shows "if w = [] then \<forall>fin act out t. strip_loop fin act (Some st) out (v @ t) = strip_loop fin act None out t
    else \<exists>st'. strip_phase x (min (length (u @ v)) (length x)) st'
      \<and> (\<forall>fin act out t. strip_loop fin act (Some st) out (v @ t) = strip_loop fin act (Some st') out t)"
  using assms(3-5)
proof (induction v arbitrary: u st)
  case Nil
  then show ?case by auto
next
  case (Cons c v)
  have n: "length u < length e" and c: "e ! length u = c" using Cons.prems(2) by auto
  note unit = consume_echo_unit [OF assms(1,2) Cons.prems(1) n, unfolded c]
  show ?case
  proof (cases "Suc (length u) = length e")
    case True
    with Cons.prems(2) have "v = []" "w = []" by auto
    with True unit show ?thesis by (simp add: strip_loop_strip)
  next
    case False
    with unit obtain st1 where st1: "consume_tolerant_unit st c = (Some st1, [])"
        "strip_phase x (min (length (u @ [c])) (length x)) st1"
      by auto
    have "e = (u @ [c]) @ v @ w" "u @ [c] \<noteq> e" using Cons.prems(2) False by auto
    from Cons.IH [OF st1(2) this] st1(1) show ?thesis by (auto simp: strip_loop_strip)
  qed
qed

text \<open>The units of an echo up to a place inside it, read with no strip state.\<close>

definition own_echo :: "active_echoes \<Rightarrow> jstring \<Rightarrow> jstring \<Rightarrow> bool" where
  "own_echo act x e \<longleftrightarrow>
     echoes_ok act \<and> good_body x \<and> echo_of x e \<and> (\<exists>m. (m, [x @ [13, 10], x @ [10]]) \<in> set act)"

lemma own_echoD:
  assumes "own_echo act x e"
  shows "echoes_ok act" "good_body x" "echo_of x e" "act \<noteq> []"
    and "\<exists>m. (m, x @ [10]) \<in> set (flat_echoes act) \<and> (m, e) \<in> set (flat_echoes act)"
proof -
  show "echoes_ok act" "good_body x" "echo_of x e" "act \<noteq> []"
    using assms by (auto simp: own_echo_def)
  from assms obtain m where "(m, [x @ [13, 10], x @ [10]]) \<in> set act" by (auto simp: own_echo_def)
  then have "(m, x @ [10]) \<in> set (flat_echoes act)" "(m, x @ [13, 10]) \<in> set (flat_echoes act)"
    by (force simp: flat_echoes_def)+
  with assms show "\<exists>m. (m, x @ [10]) \<in> set (flat_echoes act) \<and> (m, e) \<in> set (flat_echoes act)"
    by (auto simp: own_echo_def echo_of_def)
qed

lemma strict_echo_prefix:
  assumes "echo_of x e" and "strict_prefix u e"
  shows "prefix u x \<or> u = x @ [13]"
proof -
  from assms(2) have u: "prefix u (butlast e)"
    by (metis append_butlast_last_id prefix_order.less_le prefix_snoc strict_prefix_simps(1))
  from assms(1) consider "e = x @ [13, 10]" | "e = x @ [10]" by (auto simp: echo_of_def)
  then show ?thesis
  proof cases
    case 1
    then have "butlast e = x @ [13]" by (simp add: butlast_append)
    with u show ?thesis by auto
  next
    case 2
    with u show ?thesis by (simp add: butlast_append)
  qed
qed

lemma good_echo_start: "good_body x \<Longrightarrow> echo_of x e \<Longrightarrow> \<exists>cs. e = postamble_echo_start # cs"
  by (cases x) (auto simp: good_body_def echo_of_def min_tolerant_echo_prefix_length_def)

lemma strip_loop_whole_echo:
  assumes "own_echo act x e"
  shows "strip_loop fin act None out (e @ t) = strip_loop fin act None out t"
proof -
  note own = own_echoD [OF assms]
  obtain cs where cs: "e = postamble_echo_start # cs" using good_echo_start own(2,3) by blast
  obtain r where r: "find_complete_echo (flat_echoes act) (e @ t) None = Inr r"
      "\<forall>e'. r = Some e' \<longrightarrow> prefix e' (e @ t) \<and> (\<exists>x. good_body x \<and> echo_of x e')"
      "r = None \<longleftrightarrow> (\<forall>(m, e') \<in> set (flat_echoes act). \<not> prefix e' (e @ t))"
    using find_complete_echo_ok [OF flat_echoes_all [OF own(1)], of None "e @ t"] by auto
  from own(5) have "r \<noteq> None" unfolding r(3) by force
  then obtain e' where e': "r = Some e'" by auto
  with r(2) obtain x' where "good_body x'" "echo_of x' e'" "prefix e' (e @ t)" by auto
  then have "e' = e"
    using own(2,3) good_echo_ends line_prefix_eq by (metis prefixI prefix_same_cases)
  with e' r(1) show ?thesis
    using strip_loop_p [OF own(1,4), of fin out "cs @ t"] cs by simp
qed

lemma fold_tolerant_short:
  "\<forall>me \<in> set mes. \<not> es_complete (f me) \<and> es_index (f me) < min_tolerant_echo_prefix_length \<Longrightarrow>
     fold (\<lambda>me. tolerant_step me (f me)) mes ts = ts"
  by (induction mes) (simp_all add: tolerant_step_def)

lemma find_tolerant_short:
  assumes "echoes_ok act" and "length u < min_tolerant_echo_prefix_length" and "10 \<notin> set u"
  shows "find_tolerant_match act u = Inr None"
proof -
  have "\<forall>me \<in> set (flat_echoes act). \<not> es_complete (scan_echo_from u (snd me) 0 0)
      \<and> es_index (scan_echo_from u (snd me) 0 0) < min_tolerant_echo_prefix_length"
  proof
    fix me assume "me \<in> set (flat_echoes act)"
    then obtain y where "echo_of y (snd me)" using flat_echoes_all [OF assms(1)] by blast
    then have "10 \<in> set (snd me)" by (auto simp: echo_of_def)
    then have "\<not> subseq (snd me) u" using assms(3) subseq_set_mem [of "snd me" u 10] by metis
    moreover have "length (filter (\<lambda>c. c \<noteq> 13) u) < min_tolerant_echo_prefix_length"
      using assms(2) le_less_trans length_filter_le by blast
    ultimately show "\<not> es_complete (scan_echo_from u (snd me) 0 0)
      \<and> es_index (scan_echo_from u (snd me) 0 0) < min_tolerant_echo_prefix_length"
      using scan_echo_bounds [of u "snd me" 0 0] by simp
  qed
  from fold_tolerant_short [OF this] show ?thesis
    by (simp add: find_tolerant_match_def search_tolerant_ok [OF flat_echoes_nonempty [OF assms(1)]])
qed

lemma strip_loop_echo_part:
  assumes "own_echo act x e" and "strict_prefix u e" and "u \<noteq> []"
  shows "\<exists>strip tail. strip_loop False act None out u = Inr (out, strip, tail) \<and> echo_phase x u strip tail"
proof -
  note own = own_echoD [OF assms(1)]
  have u: "prefix u x \<or> u = x @ [13]" by (rule strict_echo_prefix [OF own(3) assms(2)])
  have units: "10 \<notin> set u" using proper_echo_prefix_units [OF own(2) u] by simp
  obtain cs where cs: "u = postamble_echo_start # cs"
    using good_echo_start [OF own(2,3)] assms(2,3)
    by (metis list.exhaust prefix_Cons prefix_order.less_imp_le)
  have "\<not> prefix (snd me) u" if me: "me \<in> set (flat_echoes act)" for me
  proof
    assume "prefix (snd me) u"
    then have "set (snd me) \<subseteq> set u" by (rule set_mono_prefix)
    moreover from me obtain y where "echo_of y (snd me)" using flat_echoes_all [OF own(1)] by blast
    then have "10 \<in> set (snd me)" by (auto simp: echo_of_def)
    ultimately show False using units by auto
  qed
  then have none: "find_complete_echo (flat_echoes act) u None = Inr None"
    using find_complete_echo_ok [OF flat_echoes_all [OF own(1)], of None u] by fastforce
  note loop = strip_loop_p [OF own(1,4), of False out cs, folded cs, unfolded Let_def none]
  obtain m where m: "(m, x @ [10]) \<in> set (flat_echoes act)" using own(5) by blast
  show ?thesis
  proof (cases "length u < min_tolerant_echo_prefix_length")
    case True
    have "echo_of x (x @ [10])" by (simp add: echo_of_def)
    from scan_own_echo [OF own(2) this u] have pend: "es_pending (scan_echo_from u (x @ [10]) 0 0)"
        "es_index (scan_echo_from u (x @ [10]) 0 0) = min (length u) (length x)"
      by simp_all
    have long: "min_tolerant_echo_prefix_length \<le> length x" using own(2) by (simp add: good_body_def)
    have "0 < min (length u) (length x)"
      using assms(3) long by (auto simp: min_tolerant_echo_prefix_length_def)
    moreover have "length u < max_echo_length act"
      using max_echo_length_ge [OF m] True long by simp
    ultimately have "has_partial_echo act u = Inr True"
      using has_partial_echo_ok [OF own(1,4), of u] m pend by force
    with True loop find_tolerant_short [OF own(1) True units] show ?thesis
      by (simp add: echo_phase_def)
  next
    case False
    then have "min_tolerant_echo_prefix_length \<le> length u" by simp
    from find_tolerant_own [OF own(1) m own(2) u this] obtain tm where
        tm: "find_tolerant_match act u = Inr (Some tm)" "\<not> tm_completed tm" "tm_consumed tm = length u"
        "strip_phase x (min (length u) (length x)) \<lparr>ss_candidates = tm_candidates tm, ss_drop = None\<rparr>"
      by blast
    from tm(3) cs have "drop (tm_consumed tm - 1) cs = []" by simp
    with tm loop False own(1) show ?thesis
      by (auto simp: strip_loop_Nil echo_phase_def)
  qed
qed

section \<open>A stream with an echo in it\<close>

text \<open>
  The stream is \<open>a @ e @ b\<close>, with no start of an echo in \<open>a\<close> or \<open>b\<close>. After its prefix \<open>t\<close> the
  output is what of \<open>a\<close> and \<open>b\<close> lies in \<open>t\<close>.
\<close>

definition stream_at ::
  "jstring \<Rightarrow> jstring \<Rightarrow> jstring \<Rightarrow> jstring \<Rightarrow> strip_state option \<Rightarrow> jstring \<Rightarrow> jstring \<Rightarrow> bool" where
  "stream_at a x e t strip tail out \<longleftrightarrow>
     prefix t a \<and> strip = None \<and> tail = [] \<and> out = t
     \<or> (\<exists>u. u \<noteq> [] \<and> t = a @ u \<and> strict_prefix u e \<and> echo_phase x u strip tail \<and> out = a)
     \<or> (\<exists>b1. t = a @ e @ b1 \<and> strip = None \<and> tail = [] \<and> out = a @ b1)"

lemma stream_cases:
  assumes "prefix t (a @ e @ b)"
  obtains (before) "prefix t a" | (inside) u where "u \<noteq> []" "t = a @ u" "strict_prefix u e"
    | (after) b1 where "prefix b1 b" "t = a @ e @ b1"
proof -
  from assms consider "prefix t a" | u where "t = a @ u" "prefix u e"
    | b1 where "t = a @ e @ b1" "prefix b1 b"
    by (auto simp: prefix_append)
  then show thesis
  proof cases
    case 1
    then show thesis by (rule before)
  next
    case (2 u)
    show thesis
    proof (cases "u = [] \<or> u = e")
      case True
      with 2 before after [of "[]"] show thesis by auto
    next
      case False
      with 2 inside [of u] show thesis by (auto simp: strict_prefix_def)
    qed
  next
    case (3 b1)
    then show thesis using after [of b1] by simp
  qed
qed

lemma strip_loop_clean:
  "echoes_ok act \<Longrightarrow> act \<noteq> [] \<Longrightarrow> postamble_echo_start \<notin> set p \<Longrightarrow>
     strip_loop fin act None out (p @ t) = strip_loop fin act None (out @ p) t"
  by (induction p arbitrary: out) (simp_all add: strip_loop_plain)

lemma strip_loop_clean_end:
  assumes "echoes_ok act" and "act \<noteq> []" and "postamble_echo_start \<notin> set p"
  shows "strip_loop fin act None out p = Inr (out @ p, None, [])"
  using strip_loop_clean [OF assms, of fin out "[]"] assms(1) by (simp add: strip_loop_Nil)

lemma strip_loop_stream_none:
  assumes own: "own_echo act x e" and a: "postamble_echo_start \<notin> set a"
    and b: "postamble_echo_start \<notin> set b"
    and o: "prefix o1 a" and t: "t = o1 @ y" "prefix t (a @ e @ b)" and y: "y \<noteq> []"
    and past: "prefix t a \<or> (\<exists>w. t = a @ w)"
  shows "\<exists>d strip tail. strip_loop False act None [] y = Inr (d, strip, tail)
    \<and> stream_at a x e t strip tail (o1 @ d)"
proof -
  note D = own_echoD [OF own]
  obtain p where p: "a = o1 @ p" using o by (auto simp: prefix_def)
  with a have clean: "postamble_echo_start \<notin> set p" by simp
  from t(2) show ?thesis
  proof (cases rule: stream_cases)
    case before
    then have "postamble_echo_start \<notin> set y" using a t(1) set_mono_prefix by fastforce
    with before t(1) show ?thesis
      using strip_loop_clean_end [OF D(1,4)] by (auto simp: stream_at_def)
  next
    case (inside u)
    then have y: "y = p @ u" using t(1) p by simp
    obtain strip tail where "strip_loop False act None p u = Inr (p, strip, tail)" "echo_phase x u strip tail"
      using strip_loop_echo_part [OF own inside(3,1)] by blast
    with inside y p strip_loop_clean [OF D(1,4) clean, of False "[]" u] show ?thesis
      by (auto simp: stream_at_def)
  next
    case (after b1)
    then have y: "y = p @ e @ b1" using t(1) p by simp
    have "postamble_echo_start \<notin> set b1" using after(1) b set_mono_prefix by blast
    from strip_loop_clean_end [OF D(1,4) this] after y p strip_loop_clean [OF D(1,4) clean, of False "[]" "e @ b1"]
      strip_loop_whole_echo [OF own, of False p b1]
    show ?thesis by (auto simp: stream_at_def)
  qed
qed

lemma strip_loop_stream:
  assumes own: "own_echo act x e" and a: "postamble_echo_start \<notin> set a"
    and b: "postamble_echo_start \<notin> set b"
    and at: "stream_at a x e t strip tail out" and t': "prefix (t @ c) (a @ e @ b)" and c: "c \<noteq> []"
  shows "\<exists>d strip' tail'. strip_loop False act strip [] (tail @ c) = Inr (d, strip', tail')
    \<and> stream_at a x e (t @ c) strip' tail' (out @ d)"
proof -
  note D = own_echoD [OF own]
  from at consider (before) "prefix t a" "strip = None" "tail = []" "out = t"
    | (inside) u where "u \<noteq> []" "t = a @ u" "strict_prefix u e" "echo_phase x u strip tail" "out = a"
    | (after) b1 where "t = a @ e @ b1" "strip = None" "tail = []" "out = a @ b1"
    by (auto simp: stream_at_def)
  then show ?thesis
  proof cases
    case before
    have "prefix (t @ c) a \<or> (\<exists>w. t @ c = a @ w)"
      using t' by (metis prefix_append)
    with before strip_loop_stream_none [OF own a b _ _ t' c, of t] show ?thesis by auto
  next
    case (inside u)
    show ?thesis
    proof (cases "length u < min_tolerant_echo_prefix_length")
      case True
      with inside(4) have "strip = None" "tail = u" by (simp_all add: echo_phase_def)
      moreover have "t @ c = a @ u @ c" using inside(2) by simp
      ultimately show ?thesis
        using strip_loop_stream_none [OF own a b _ _ t', of a "u @ c"] inside c by auto
    next
      case False
      with inside(4) obtain st where st: "strip = Some st" "tail = []"
          "strip_phase x (min (length u) (length x)) st"
        by (auto simp: echo_phase_def)
      have "prefix (u @ c) (e @ b)" using t' inside(2) by simp
      then consider (part) w where "e = u @ c @ w" "w \<noteq> []" | (all) v b1 where "c = v @ b1" "e = u @ v" "prefix b1 b"
        using inside(3) by (auto simp: prefix_def append_eq_append_conv2 strict_prefix_def) (metis append_Nil2)+
      then show ?thesis
      proof cases
        case part
        have "u \<noteq> e" using inside(3) by auto
        from strip_loop_echo_rest [OF D(2,3) st(3) part(1) this] part(2)
        obtain st' where st': "strip_phase x (min (length (u @ c)) (length x)) st'"
          and run: "\<forall>fin act out t. strip_loop fin act (Some st) out (c @ t) = strip_loop fin act (Some st') out t"
          by auto
        from run [rule_format, of False act "[]" "[]"] D(1)
        have "strip_loop False act (Some st) [] c = Inr ([], Some st', [])" by (simp add: strip_loop_Nil)
        moreover have "echo_phase x (u @ c) (Some st') []"
          using st' False by (simp add: echo_phase_def)
        moreover have "strict_prefix (u @ c) e" using part by (auto simp: strict_prefix_def)
        ultimately show ?thesis using st inside c by (auto simp: stream_at_def)
      next
        case all
        have "u \<noteq> e" using inside(3) by auto
        from strip_loop_echo_rest [OF D(2,3) st(3) _ this, of v "[]"] all(2)
        have "strip_loop False act (Some st) [] (v @ b1) = strip_loop False act None [] b1" by simp
        moreover have "postamble_echo_start \<notin> set b1" using all(3) b set_mono_prefix by blast
        ultimately show ?thesis
          using strip_loop_clean_end [OF D(1,4), of b1 False "[]"] st inside all
          by (auto simp: stream_at_def)
      qed
    qed
  next
    case after
    have "postamble_echo_start \<notin> set c"
      using t' after(1) b set_mono_prefix by fastforce
    with strip_loop_clean_end [OF D(1,4)] after show ?thesis
      by (auto simp: stream_at_def)
  qed
qed

lemma feed_all_stream:
  assumes "own_echo (sz_active sz) x e" and "postamble_echo_start \<notin> set a" and "postamble_echo_start \<notin> set b"
    and "stream_at a x e t (sz_strip sz) (sz_tail sz) out" and "t @ concat cs = a @ e @ b"
  shows "\<exists>d sz'. feed_all sanitizer_feed sz cs = Inr (d, sz') \<and> sz_active sz' = sz_active sz
    \<and> stream_at a x e (a @ e @ b) (sz_strip sz') (sz_tail sz') (out @ d)"
  using assms
proof (induction cs arbitrary: sz t out)
  case Nil
  then show ?case by auto
next
  case (Cons c cs)
  show ?case
  proof (cases "c = []")
    case True
    moreover have "sanitizer_feed sz [] = Inr ([], sz)" by (simp add: sanitizer_feed_def)
    ultimately show ?thesis using Cons.IH [OF Cons.prems(1-4)] Cons.prems(5) by auto
  next
    case False
    have "prefix (t @ c) (a @ e @ b)" using Cons.prems(5) by (metis append.assoc concat.simps(2) prefixI)
    from strip_loop_stream [OF Cons.prems(1-4) this False] obtain d strip tail where
      step: "strip_loop False (sz_active sz) (sz_strip sz) [] (sz_tail sz @ c) = Inr (d, strip, tail)"
        "stream_at a x e (t @ c) strip tail (out @ d)" by blast
    let ?sz = "sz\<lparr>sz_tail := tail, sz_strip := strip\<rparr>"
    have "sanitizer_feed sz c = Inr (d, ?sz)"
      using False step(1) own_echoD(4) [OF Cons.prems(1)]
      by (simp add: sanitizer_feed_def strip_buffer_def)
    moreover have "\<exists>d' sz'. feed_all sanitizer_feed ?sz cs = Inr (d', sz') \<and> sz_active sz' = sz_active ?sz
        \<and> stream_at a x e (a @ e @ b) (sz_strip sz') (sz_tail sz') ((out @ d) @ d')"
    proof (rule Cons.IH)
      show "(t @ c) @ concat cs = a @ e @ b" using Cons.prems(5) by simp
    qed (use Cons.prems step(2) in simp_all)
    ultimately show ?thesis by auto
  qed
qed

lemma stream_at_end:
  assumes "own_echo act x e" and "stream_at a x e (a @ e @ b) strip tail out"
  shows "strip = None" and "tail = []" and "out = a @ b"
proof -
  have "e \<noteq> []" using assms(1) good_echo_ends by (auto simp: own_echo_def)
  with assms(2) show "strip = None" and "tail = []" and "out = a @ b"
    by (auto simp: stream_at_def strict_prefix_def prefix_def)
qed

lemma feed_all_clean:
  assumes "sanitizer_ok sz" and "sz_strip sz = None" and "sz_tail sz = []"
    and "postamble_echo_start \<notin> set (concat cs)"
  shows "feed_all sanitizer_feed sz cs = Inr (concat cs, sz)"
  using assms(4)
proof (induction cs)
  case Nil
  then show ?case by simp
next
  case (Cons c cs)
  have "sanitizer_feed sz c = Inr (c, sz)"
  proof (cases "c = [] \<or> sz_active sz = []")
    case True
    with assms(2,3) show ?thesis by (auto simp: sanitizer_feed_def)
  next
    case False
    with Cons.prems assms strip_loop_clean_end [of "sz_active sz" c False "[]"] show ?thesis
      by (simp add: sanitizer_feed_def strip_buffer_def sanitizer_ok_def)
  qed
  with Cons show ?case by simp
qed

definition example_body :: jstring where
  "example_body = js ''printf '' @ [39] @ js ''_033_137at'' @ [39]"

definition example_sanitizer :: sanitizer where
  "example_sanitizer = \<lparr>sz_active = [(example_marker, [example_body @ [13, 10], example_body @ [10]])],
     sz_strip = None, sz_tail = []\<rparr>"

lemma example_body_good: "good_body example_body"
  by (simp add: good_body_def example_body_def min_tolerant_echo_prefix_length_def
      postamble_echo_start_def js_eval)

lemma example_sanitizer_ok: "sanitizer_ok example_sanitizer"
  by (auto simp: sanitizer_ok_def example_sanitizer_def echoes_ok_def example_body_good)

section \<open>Properties\<close>

text \<open>With the postambles that the host injects, no assertion of the sanitizer ever fails, and
  it only removes: over any chunks, a flush and a deregistration, the output followed by what is
  still held back is a subsequence of the text that came in.\<close>

theorem sanitizer_only_removes:
  assumes "sanitizer_ok sz" and "is_run_marker marker"
  shows "\<exists>o1 sz1 o2 sz2 o3 sz3.
    feed_all sanitizer_feed sz cs = Inr (o1, sz1) \<and> deregister_echo sz1 marker = Inr (o2, sz2)
    \<and> sanitizer_flush sz2 = Inr (o3, sz3) \<and> sanitizer_ok sz3 \<and> sz_tail sz3 = []
    \<and> subseq (o1 @ o2 @ o3) (sz_tail sz @ concat cs)"
proof -
  obtain o1 sz1 where one: "feed_all sanitizer_feed sz cs = Inr (o1, sz1)" "sanitizer_ok sz1"
      "subseq (o1 @ sz_tail sz1) (sz_tail sz @ concat cs)"
    using feed_all_sanitizer [OF assms(1)] by blast
  obtain o2 sz2 where two: "deregister_echo sz1 marker = Inr (o2, sz2)" "sanitizer_ok sz2"
      "subseq (o2 @ sz_tail sz2) (sz_tail sz1)"
    using deregister_echo_result [OF one(2) assms(2)] by blast
  obtain o3 sz3 where three: "sanitizer_flush sz2 = Inr (o3, sz3)" "sanitizer_ok sz3"
      "sz_tail sz3 = []" "subseq o3 (sz_tail sz2)"
    using sanitizer_flush_result [OF two(2)] by blast
  have "subseq (o2 @ o3) (sz_tail sz1)"
    using list_emb_append_mono [OF subseq_order.order_refl three(4)] two(3)
    by (rule subseq_order.trans)
  then have "subseq (o1 @ o2 @ o3) (o1 @ sz_tail sz1)"
    by (rule list_emb_append_mono [OF subseq_order.order_refl])
  from subseq_order.trans [OF this one(3)] one(1) two(1) three show ?thesis by blast
qed

lemma sanitizer_only_removes_witness:
  "\<exists>o1 sz1 o2 sz2 o3 sz3.
    feed_all sanitizer_feed example_sanitizer [[112, 114], [113]] = Inr (o1, sz1)
    \<and> deregister_echo sz1 example_marker = Inr (o2, sz2)
    \<and> sanitizer_flush sz2 = Inr (o3, sz3) \<and> subseq (o1 @ o2 @ o3) [112, 114, 113]"
proof -
  have "is_run_marker example_marker"
    by (simp add: is_run_marker_def example_marker_def is_lower_hex_def is_digit_def js_eval)
  from sanitizer_only_removes [OF example_sanitizer_ok this, of "[[112, 114], [113]]"]
  show ?thesis by (auto simp: example_sanitizer_def)
qed



text \<open>while no run waits for its completion, the sanitizer is the identity.\<close>

theorem sanitizer_idle_identity:
  "feed_all sanitizer_feed new_sanitizer cs = Inr (concat cs, new_sanitizer)"
  by (induction cs) (auto simp: sanitizer_feed_def new_sanitizer_def)

end
