(* ===== verification/EventRecords.thy ===== *)
theory EventRecords
  imports Prelude
begin

text \<open>
  The event records of a session's log (\<open>src/protocol/schemas.ts\<close>), the checks their schemas
  make beyond the types, and the JSON text that the host writes for one record:
  \<open>JSON.stringify\<close> and the UTF-8 length that \<open>Buffer.byteLength\<close> counts.
\<close>

section \<open>Payloads and records\<close>

datatype mouse_action = MousePress | MouseRelease | MouseMove

datatype mouse_button =
    LeftButton | MiddleButton | RightButton | WheelUp | WheelDown | WheelLeft | WheelRight

record mouse_modifiers =
  mm_shift :: bool
  mm_alt :: bool
  mm_ctrl :: bool

record mouse_payload =
  mp_action :: mouse_action
  mp_button :: "mouse_button option"
  mp_row :: int
  mp_col :: int
  mp_cell_width :: "int option"
  mp_cell_height :: "int option"
  mp_modifiers :: mouse_modifiers
  mp_renderer :: jstring
  mp_data :: jstring

text \<open>
  The payload carries the event type, as the overloads of \<open>EventLog.append\<close> tie each type to its
  payload.
\<close>

datatype payload =
    Output jstring
  | InputText jstring
  | InputPaste jstring
  | InputKeys "jstring list"
  | InputMouse mouse_payload
  | InputRun jstring "jstring option" bool \<comment> \<open>command, marker, noWait\<close>
  | RunComplete jstring "int option" \<comment> \<open>marker, inputRunSeq\<close>
  | Resize int int
  | SignalSent jstring
  | Exit "int option" "jstring option"
  | Marker jstring

record event_record =
  ev_seq :: nat
  ev_ts :: jstring
  ev_payload :: payload

fun is_exit :: "payload \<Rightarrow> bool" where
  "is_exit (Exit _ _) = True"
| "is_exit _ = False"

fun is_output :: "payload \<Rightarrow> bool" where
  "is_output (Output _) = True"
| "is_output _ = False"

section \<open>Schema checks\<close>

definition is_base64_unit :: "code_unit \<Rightarrow> bool" where
  "is_base64_unit c \<longleftrightarrow> (65 \<le> c \<and> c \<le> 90) \<or> (97 \<le> c \<and> c \<le> 122) \<or> is_digit c \<or> c = 43 \<or> c = 47"

fun is_base64 :: "jstring \<Rightarrow> bool" where
  \<comment> \<open>The pattern of \<open>dataBase64\<close>: groups of four, the last one padded with one or two \<open>=\<close>.\<close>
  "is_base64 [] = True"
| "is_base64 (a # b # c # d # s) =
     (is_base64_unit a \<and> is_base64_unit b
      \<and> (is_base64_unit c \<and> is_base64_unit d \<and> is_base64 s
         \<or> s = [] \<and> d = 61 \<and> (c = 61 \<or> is_base64_unit c)))"
| "is_base64 _ = False"

definition valid_mouse_payload :: "mouse_payload \<Rightarrow> bool" where
  "valid_mouse_payload p \<longleftrightarrow>
     0 \<le> mp_row p \<and> 0 \<le> mp_col p
     \<and> (case mp_cell_width p of None \<Rightarrow> True | Some w \<Rightarrow> 0 < w)
     \<and> (case mp_cell_height p of None \<Rightarrow> True | Some h \<Rightarrow> 0 < h)
     \<and> mp_renderer p \<noteq> [] \<and> is_base64 (mp_data p)
     \<and> \<not> (mp_action p = MouseMove \<and> mp_button p \<noteq> None)
     \<and> \<not> (mp_action p \<noteq> MouseMove \<and> mp_button p = None)"

definition valid_input_run :: "jstring \<Rightarrow> jstring option \<Rightarrow> bool \<Rightarrow> bool" where
  "valid_input_run command marker noWait \<longleftrightarrow>
     command \<noteq> [] \<and> \<not> (\<not> noWait \<and> marker = None) \<and> \<not> (noWait \<and> marker \<noteq> None)"

fun valid_payload :: "payload \<Rightarrow> bool" where
  "valid_payload (Output _) = True"
| "valid_payload (InputText _) = True"
| "valid_payload (InputPaste _) = True"
| "valid_payload (InputKeys ks) = (ks \<noteq> [] \<and> [] \<notin> set ks)"
| "valid_payload (InputMouse p) = valid_mouse_payload p"
| "valid_payload (InputRun c m w) = valid_input_run c m w"
| "valid_payload (RunComplete m q) = (case q of None \<Rightarrow> True | Some n \<Rightarrow> 0 \<le> n)"
| "valid_payload (Resize c r) = (0 < c \<and> 0 < r)"
| "valid_payload (SignalSent s) = (s \<noteq> [])"
| "valid_payload (Exit _ _) = True"
| "valid_payload (Marker _) = True"

section \<open>JSON text\<close>

datatype json =
    JNull
  | JBool bool
  | JNum int
  | JStr jstring
  | JArr "json list"
  | JObj "(jstring \<times> json) list"

definition hex_digit :: "nat \<Rightarrow> code_unit" where
  "hex_digit d = (if d < 10 then 48 + d else 87 + d)"

definition unicode_escape :: "code_unit \<Rightarrow> jstring" where
  "unicode_escape c =
     [92, 117, hex_digit (c div 4096 mod 16), hex_digit (c div 256 mod 16),
      hex_digit (c div 16 mod 16), hex_digit (c mod 16)]"

definition is_high_surrogate :: "code_unit \<Rightarrow> bool" where
  "is_high_surrogate c \<longleftrightarrow> 55296 \<le> c \<and> c \<le> 56319"

definition is_low_surrogate :: "code_unit \<Rightarrow> bool" where
  "is_low_surrogate c \<longleftrightarrow> 56320 \<le> c \<and> c \<le> 57343"

definition quote_unit :: "code_unit \<Rightarrow> jstring" where
  \<comment> \<open>The text of one unit inside a JSON string, a surrogate pair apart.\<close>
  "quote_unit c =
     (if c = 34 then [92, 34]
      else if c = 92 then [92, 92]
      else if c = 8 then [92, 98]
      else if c = 12 then [92, 102]
      else if c = 10 then [92, 110]
      else if c = 13 then [92, 114]
      else if c = 9 then [92, 116]
      else if c < 32 \<or> is_high_surrogate c \<or> is_low_surrogate c then unicode_escape c
      else [c])"

fun quote_units :: "jstring \<Rightarrow> jstring" where
  "quote_units [] = []"
| "quote_units [c] = quote_unit c"
| "quote_units (c # d # s) =
     (if is_high_surrogate c \<and> is_low_surrogate d then c # d # quote_units s
      else quote_unit c @ quote_units (d # s))"

definition quote :: "jstring \<Rightarrow> jstring" where
  "quote s = [34] @ quote_units s @ [34]"

fun stringify :: "json \<Rightarrow> jstring" where
  "stringify JNull = js ''null''"
| "stringify (JBool b) = (if b then js ''true'' else js ''false'')"
| "stringify (JNum i) = int_digits i"
| "stringify (JStr s) = quote s"
| "stringify (JArr xs) = [91] @ join_with [44] (map stringify xs) @ [93]"
| "stringify (JObj kvs) =
     [123] @ join_with [44] (map (\<lambda>(k, v). quote k @ [58] @ stringify v) kvs) @ [125]"

fun utf8_length :: "jstring \<Rightarrow> nat" where
  \<comment> \<open>\<open>Buffer.byteLength(s, 'utf8')\<close>; a surrogate that has no partner is written as U+FFFD.\<close>
  "utf8_length [] = 0"
| "utf8_length [c] = (if c < 128 then 1 else if c < 2048 then 2 else 3)"
| "utf8_length (c # d # s) =
     (if is_high_surrogate c \<and> is_low_surrogate d then 4 + utf8_length s
      else (if c < 128 then 1 else if c < 2048 then 2 else 3) + utf8_length (d # s))"

section \<open>The JSON value of a record\<close>

fun json_of_action :: "mouse_action \<Rightarrow> json" where
  "json_of_action MousePress = JStr (js ''press'')"
| "json_of_action MouseRelease = JStr (js ''release'')"
| "json_of_action MouseMove = JStr (js ''move'')"

fun json_of_button :: "mouse_button \<Rightarrow> json" where
  "json_of_button LeftButton = JStr (js ''left'')"
| "json_of_button MiddleButton = JStr (js ''middle'')"
| "json_of_button RightButton = JStr (js ''right'')"
| "json_of_button WheelUp = JStr (js ''wheel-up'')"
| "json_of_button WheelDown = JStr (js ''wheel-down'')"
| "json_of_button WheelLeft = JStr (js ''wheel-left'')"
| "json_of_button WheelRight = JStr (js ''wheel-right'')"

definition optional_field :: "string \<Rightarrow> json option \<Rightarrow> (jstring \<times> json) list" where
  \<comment> \<open>A key whose value is \<open>undefined\<close> is not written.\<close>
  "optional_field k v = (case v of None \<Rightarrow> [] | Some j \<Rightarrow> [(js k, j)])"

definition nullable :: "('a \<Rightarrow> json) \<Rightarrow> 'a option \<Rightarrow> json" where
  "nullable f v = (case v of None \<Rightarrow> JNull | Some x \<Rightarrow> f x)"

definition json_of_modifiers :: "mouse_modifiers \<Rightarrow> json" where
  "json_of_modifiers m =
     JObj [(js ''shift'', JBool (mm_shift m)), (js ''alt'', JBool (mm_alt m)),
           (js ''ctrl'', JBool (mm_ctrl m))]"

definition json_of_mouse_payload :: "mouse_payload \<Rightarrow> json" where
  "json_of_mouse_payload p =
     JObj ([(js ''action'', json_of_action (mp_action p))]
       @ optional_field ''button'' (map_option json_of_button (mp_button p))
       @ [(js ''row'', JNum (mp_row p)), (js ''col'', JNum (mp_col p))]
       @ optional_field ''cellWidth'' (map_option JNum (mp_cell_width p))
       @ optional_field ''cellHeight'' (map_option JNum (mp_cell_height p))
       @ [(js ''modifiers'', json_of_modifiers (mp_modifiers p)),
          (js ''rendererBackend'', JStr (mp_renderer p)),
          (js ''dataBase64'', JStr (mp_data p))])"

fun type_name :: "payload \<Rightarrow> jstring" where
  "type_name (Output _) = js ''output''"
| "type_name (InputText _) = js ''input_text''"
| "type_name (InputPaste _) = js ''input_paste''"
| "type_name (InputKeys _) = js ''input_keys''"
| "type_name (InputMouse _) = js ''input_mouse''"
| "type_name (InputRun _ _ _) = js ''input_run''"
| "type_name (RunComplete _ _) = js ''run_complete''"
| "type_name (Resize _ _) = js ''resize''"
| "type_name (SignalSent _) = js ''signal''"
| "type_name (Exit _ _) = js ''exit''"
| "type_name (Marker _) = js ''marker''"

fun json_of_payload :: "payload \<Rightarrow> json" where
  "json_of_payload (Output d) = JObj [(js ''data'', JStr d)]"
| "json_of_payload (InputText d) = JObj [(js ''data'', JStr d)]"
| "json_of_payload (InputPaste d) = JObj [(js ''data'', JStr d)]"
| "json_of_payload (InputKeys ks) = JObj [(js ''keys'', JArr (map JStr ks))]"
| "json_of_payload (InputMouse p) = json_of_mouse_payload p"
| "json_of_payload (InputRun c m w) =
     JObj ([(js ''command'', JStr c)] @ optional_field ''marker'' (map_option JStr m)
       @ [(js ''noWait'', JBool w)])"
| "json_of_payload (RunComplete m q) =
     JObj ([(js ''marker'', JStr m)] @ optional_field ''inputRunSeq'' (map_option JNum q))"
| "json_of_payload (Resize c r) = JObj [(js ''cols'', JNum c), (js ''rows'', JNum r)]"
| "json_of_payload (SignalSent s) = JObj [(js ''signal'', JStr s)]"
| "json_of_payload (Exit c s) =
     JObj [(js ''exitCode'', nullable JNum c), (js ''exitSignal'', nullable JStr s)]"
| "json_of_payload (Marker l) = JObj [(js ''label'', JStr l)]"

definition json_of_record :: "event_record \<Rightarrow> json" where
  "json_of_record r =
     JObj [(js ''seq'', JNum (int (ev_seq r))), (js ''ts'', JStr (ev_ts r)),
           (js ''type'', JStr (type_name (ev_payload r))),
           (js ''payload'', json_of_payload (ev_payload r))]"

definition record_line :: "event_record \<Rightarrow> jstring" where
  \<comment> \<open>\<open>`${JSON.stringify(record)}\n`\<close>\<close>
  "record_line r = stringify (json_of_record r) @ [10]"

definition record_bytes :: "event_record \<Rightarrow> nat" where
  "record_bytes r = utf8_length (record_line r)"

section \<open>Lengths\<close>

lemma utf8_length_ascii: "list_all (\<lambda>c. c < 128) s \<Longrightarrow> utf8_length s = length s"
  by (induction s rule: utf8_length.induct) (auto simp: is_high_surrogate_def)

lemma utf8_length_pos: "s \<noteq> [] \<Longrightarrow> 0 < utf8_length s"
  by (induction s rule: utf8_length.induct) auto

lemma utf8_length_ge: "length s \<le> utf8_length s"
proof (induction s rule: utf8_length.induct)
  case (3 c d s)
  then show ?case by auto
qed auto

lemma record_bytes_pos: "0 < record_bytes r"
  by (simp add: record_bytes_def record_line_def utf8_length_pos)

text \<open>A quoted text never holds a raw line feed, so a record is one line of the file.\<close>

lemma quote_unit_no_newline: "10 \<notin> set (quote_unit c)"
  by (auto simp: quote_unit_def unicode_escape_def hex_digit_def split: if_splits)

lemma quote_units_no_newline: "10 \<notin> set (quote_units s)"
  by (induction s rule: quote_units.induct)
    (auto simp: quote_unit_no_newline is_high_surrogate_def is_low_surrogate_def)

lemma join_with_no_newline:
  "10 \<notin> set sep \<Longrightarrow> \<forall>w \<in> set ws. 10 \<notin> set w \<Longrightarrow> 10 \<notin> set (join_with sep ws)"
  by (induction sep ws rule: join_with.induct) auto

lemma nat_digits_no_newline: "10 \<notin> set (nat_digits n)"
  using nat_digits_digits [of n] by (auto simp: list_all_iff is_digit_def)

lemma stringify_no_newline: "10 \<notin> set (stringify j)"
proof (induction j rule: stringify.induct)
  case (3 i)
  then show ?case by (simp add: int_digits_def nat_digits_no_newline)
next
  case (4 s)
  then show ?case by (simp add: quote_def quote_units_no_newline)
next
  case (5 xs)
  then have "10 \<notin> set (join_with [44] (map stringify xs))"
    by (intro join_with_no_newline) auto
  then show ?case by simp
next
  case (6 kvs)
  then have "10 \<notin> set (join_with [44] (map (\<lambda>(k, v). quote k @ [58] @ stringify v) kvs))"
    by (intro join_with_no_newline) (auto simp: quote_def quote_units_no_newline)
  then show ?case by simp
qed (simp_all add: js_eval)

end
