(* ===== verification/EventCodec.thy ===== *)
theory EventCodec
  imports EventRecords
begin

text \<open>
  The event-log codec (\<open>src/storage/eventLogCodec.ts\<close>): the stop marker's label and the search
  for it, the parse of a whole log, and the streaming scan of a log file.

  One line of the file is read by \<open>JSON.parse\<close> and the zod schema \<open>EventRecordSchema\<close>. The two
  together are the argument \<open>parse\<close> of the definitions here; every statement about the codec
  holds for all of its values.
\<close>

section \<open>The stop marker\<close>

datatype log_limit = LimitBytes | LimitEvents

datatype stop_reason = Reached log_limit | UnknownReason

record event_log_stop =
  stop_reason :: stop_reason
  stop_seq :: nat

definition max_event_log_size :: nat where
  "max_event_log_size = 50 * 1024 * 1024"

definition limit_label_prefix :: jstring where
  "limit_label_prefix = js ''agent-tty: event log limit reached''"

fun limit_name :: "log_limit \<Rightarrow> jstring" where
  "limit_name LimitBytes = js ''bytes''"
| "limit_name LimitEvents = js ''events''"

definition event_log_stop_label :: "log_limit \<Rightarrow> nat \<Rightarrow> jstring" where
  "event_log_stop_label reason limit =
     limit_label_prefix @ js '' ('' @ nat_digits limit @ js '' '' @ limit_name reason
       @ js ''); later events are not recorded''"

definition is_stop_marker :: "event_record \<Rightarrow> bool" where
  "is_stop_marker r =
     (case ev_payload r of Marker l \<Rightarrow> starts_with l limit_label_prefix | _ \<Rightarrow> False)"

definition limit_in_label :: "jstring \<Rightarrow> log_limit option" where
  \<comment> \<open>The match of \<open>/^ \((\d+) (bytes|events)\)/\<close> on the rest of the label.\<close>
  "limit_in_label r =
     (if starts_with r (js '' ('')
      then let t = drop 2 r; ds = takeWhile is_digit t; u = dropWhile is_digit t
           in if ds = [] then None
              else if starts_with u (js '' bytes)'') then Some LimitBytes
              else if starts_with u (js '' events)'') then Some LimitEvents
              else None
      else None)"

definition marker_label :: "event_record \<Rightarrow> jstring" where
  "marker_label r = (case ev_payload r of Marker l \<Rightarrow> l | _ \<Rightarrow> [])"

definition stop_of_marker :: "event_record \<Rightarrow> event_log_stop" where
  "stop_of_marker r =
     \<lparr>stop_reason =
        (case limit_in_label (drop (length limit_label_prefix) (marker_label r)) of
           Some l \<Rightarrow> Reached l | None \<Rightarrow> UnknownReason),
      stop_seq = ev_seq r\<rparr>"

definition find_event_log_stop :: "event_record list \<Rightarrow> event_log_stop option" where
  "find_event_log_stop rs = map_option stop_of_marker (find is_stop_marker rs)"

lemma limit_in_label_stop_label:
  "limit_in_label (drop (length limit_label_prefix) (event_log_stop_label reason limit))
     = Some reason"
proof -
  have tw: "takeWhile is_digit (nat_digits limit @ 32 # w) = nat_digits limit" for w
    using nat_digits_digits [of limit]
    by (subst takeWhile_append2) (auto simp: list_all_iff is_digit_def)
  have dw: "dropWhile is_digit (nat_digits limit @ 32 # w) = 32 # w" for w
    using nat_digits_digits [of limit]
    by (subst dropWhile_append2) (auto simp: list_all_iff is_digit_def)
  show ?thesis
    by (cases reason)
      (simp_all add: limit_in_label_def event_log_stop_label_def starts_with_def js_eval tw dw)
qed

lemma stop_label_has_prefix: "starts_with (event_log_stop_label reason limit) limit_label_prefix"
  by (simp add: event_log_stop_label_def starts_with_def)

lemma find_event_log_stop_None:
  "find_event_log_stop rs = None \<longleftrightarrow> (\<forall>r \<in> set rs. \<not> is_stop_marker r)"
  by (auto simp: find_event_log_stop_def find_None_iff)

lemma find_event_log_stop_snoc:
  "find_event_log_stop (rs @ [r]) =
     (case find_event_log_stop rs of
        Some s \<Rightarrow> Some s
      | None \<Rightarrow> if is_stop_marker r then Some (stop_of_marker r) else None)"
  by (induction rs) (auto simp: find_event_log_stop_def)

section \<open>Parsing a whole log\<close>

datatype parse_outcome = BadJson | BadRecord | Parsed event_record

definition parse_event_log_line ::
  "(jstring \<Rightarrow> parse_outcome) \<Rightarrow> jstring \<Rightarrow> nat \<Rightarrow> event_record res" where
  "parse_event_log_line parse line lineNumber =
     (case parse line of
        BadJson \<Rightarrow> Inl (Assertion (js ''event log line '' @ nat_digits lineNumber
                      @ js '' must be valid JSON''))
      | BadRecord \<Rightarrow> Inl (Assertion (js ''event log line '' @ nat_digits lineNumber
                      @ js '' must match EventRecordSchema''))
      | Parsed r \<Rightarrow> Inr r)"

definition assert_seq_follows :: "nat option \<Rightarrow> nat \<Rightarrow> 'a res \<Rightarrow> 'a res" where
  "assert_seq_follows previousSeq s k =
     (case previousSeq of
        None \<Rightarrow> check (s = 0) ''first event log seq must be 0'' k
      | Some p \<Rightarrow> check (s = p + 1) ''event log seq values must increase by 1 without gaps'' k)"

fun assert_contiguous_from :: "nat option \<Rightarrow> event_record list \<Rightarrow> unit res" where
  "assert_contiguous_from p [] = Inr ()"
| "assert_contiguous_from p (r # rs) =
     assert_seq_follows p (ev_seq r) (assert_contiguous_from (Some (ev_seq r)) rs)"

definition assert_contiguous_sequence :: "event_record list \<Rightarrow> unit res" where
  "assert_contiguous_sequence rs = assert_contiguous_from None rs"

fun parse_lines ::
  "(jstring \<Rightarrow> parse_outcome) \<Rightarrow> nat \<Rightarrow> jstring list \<Rightarrow> event_record list res" where
  "parse_lines parse i [] = Inr []"
| "parse_lines parse i (l # ls) =
     bind_res (parse_event_log_line parse l (i + 1))
       (\<lambda>r. bind_res (parse_lines parse (i + 1) ls) (\<lambda>rs. Inr (r # rs)))"

definition content_lines :: "jstring \<Rightarrow> jstring list" where
  "content_lines content = filter (\<lambda>l. l \<noteq> []) (map trim (split_on 10 content))"

definition parse_event_log_content ::
  "(jstring \<Rightarrow> parse_outcome) \<Rightarrow> jstring \<Rightarrow> event_record list res" where
  "parse_event_log_content parse content =
     bind_res (parse_lines parse 0 (content_lines content))
       (\<lambda>rs. bind_res (assert_contiguous_sequence rs) (\<lambda>_. Inr rs))"

definition assert_event_log_size :: "nat \<Rightarrow> unit res" where
  "assert_event_log_size n =
     (if max_event_log_size < n
      then Inl (Plain (js ''event log file exceeds size limit ('' @ nat_digits n
             @ js '' bytes, max '' @ nat_digits max_event_log_size @ js '')''))
      else Inr ())"

definition read_event_log_records ::
  "(jstring \<Rightarrow> parse_outcome) \<Rightarrow> nat \<Rightarrow> jstring \<Rightarrow> event_record list res" where
  \<comment> \<open>The size that \<open>stat\<close> gave, then the text that \<open>readFile\<close> gave.\<close>
  "read_event_log_records parse fileSize content =
     bind_res (assert_event_log_size fileSize) (\<lambda>_. parse_event_log_content parse content)"

text \<open>A log that parses numbers its records 0, 1, 2 and so on.\<close>

definition contiguous :: "event_record list \<Rightarrow> bool" where
  "contiguous rs \<longleftrightarrow> map ev_seq rs = [0..<length rs]"

lemma assert_contiguous_from_Some:
  "assert_contiguous_from (Some p) rs = Inr () \<longleftrightarrow> map ev_seq rs = [Suc p..<Suc p + length rs]"
proof (induction rs arbitrary: p)
  case Nil
  then show ?case by simp
next
  case (Cons r rs)
  have "[Suc p..<Suc p + length (r # rs)] = Suc p # [Suc (Suc p)..<Suc (Suc p) + length rs]"
    by (simp add: upt_conv_Cons del: upt_Suc)
  with Cons show ?case
    by (cases "ev_seq r = Suc p") (simp_all add: assert_seq_follows_def check_def del: upt_Suc)
qed

lemma assert_contiguous_iff: "assert_contiguous_sequence rs = Inr () \<longleftrightarrow> contiguous rs"
proof (cases rs)
  case Nil
  then show ?thesis by (simp add: assert_contiguous_sequence_def contiguous_def)
next
  case (Cons r rs')
  have "[0..<length (r # rs')] = 0 # [Suc 0..<Suc 0 + length rs']"
    by (simp add: upt_conv_Cons del: upt_Suc)
  with Cons show ?thesis
    by (cases "ev_seq r = 0")
      (simp_all add: assert_contiguous_sequence_def contiguous_def assert_seq_follows_def
        assert_contiguous_from_Some check_def del: upt_Suc)
qed

lemma contiguous_nth: "contiguous rs \<Longrightarrow> i < length rs \<Longrightarrow> ev_seq (rs ! i) = i"
  by (metis add_0 contiguous_def length_map nth_map nth_upt)

lemma contiguous_snoc: "contiguous rs \<Longrightarrow> ev_seq r = length rs \<Longrightarrow> contiguous (rs @ [r])"
  by (simp add: contiguous_def)

lemma contiguous_take: "contiguous rs \<Longrightarrow> contiguous (take n rs)"
  by (auto simp: contiguous_def min_def simp flip: take_map)

lemma contiguous_last: "contiguous rs \<Longrightarrow> rs \<noteq> [] \<Longrightarrow> ev_seq (last rs) = length rs - 1"
  by (simp add: contiguous_nth last_conv_nth)

lemma parse_event_log_content_Inr:
  "parse_event_log_content parse content = Inr rs \<longleftrightarrow>
     parse_lines parse 0 (content_lines content) = Inr rs \<and> contiguous rs"
proof -
  have "(\<exists>u. assert_contiguous_sequence rs = Inr u) \<longleftrightarrow> contiguous rs" for rs
    using assert_contiguous_iff by auto
  then show ?thesis
    by (auto simp: parse_event_log_content_def res_simps)
qed

section \<open>Scanning a log file\<close>

record scan_state =
  sc_entries :: nat
  sc_stop :: "event_log_stop option"
  sc_prev :: "nat option"
  sc_searching :: bool

record event_log_scan =
  scan_entries :: nat
  scan_bytes :: nat
  scan_stop :: "event_log_stop option"

definition scan_init :: scan_state where
  "scan_init = \<lparr>sc_entries = 0, sc_stop = None, sc_prev = None, sc_searching = True\<rparr>"

definition scan_read_line ::
  "(jstring \<Rightarrow> parse_outcome) \<Rightarrow> jstring \<Rightarrow> scan_state \<Rightarrow> scan_state" where
  "scan_read_line parse rawLine st =
     (let line = trim rawLine
      in if line = [] then st
         else let st1 = st\<lparr>sc_entries := sc_entries st + 1\<rparr>
              in if \<not> sc_searching st1 then st1
                 else case bind_res (parse_event_log_line parse line (sc_entries st1))
                             (\<lambda>r. assert_seq_follows (sc_prev st1) (ev_seq r) (Inr r)) of
                        Inl _ \<Rightarrow> st1\<lparr>sc_searching := False\<rparr>
                      | Inr r \<Rightarrow>
                          let st2 = st1\<lparr>sc_prev := Some (ev_seq r)\<rparr>
                          in if is_stop_marker r
                             then st2\<lparr>sc_stop := Some (stop_of_marker r), sc_searching := False\<rparr>
                             else st2)"

fun index_of :: "'a \<Rightarrow> 'a list \<Rightarrow> nat option" where
  "index_of x [] = None"
| "index_of x (c # s) = (if c = x then Some 0 else map_option Suc (index_of x s))"

lemma index_of_Some:
  "index_of x s = Some i \<Longrightarrow> s = take i s @ x # drop (Suc i) s \<and> x \<notin> set (take i s) \<and> i < length s"
  by (induction s arbitrary: i) (auto split: if_splits)

lemma index_of_None: "index_of x s = None \<longleftrightarrow> x \<notin> set s"
  by (induction s) auto

function scan_chunk ::
  "(jstring \<Rightarrow> parse_outcome) \<Rightarrow> jstring \<Rightarrow> jstring list \<times> scan_state
     \<Rightarrow> jstring list \<times> scan_state" where
  \<comment> \<open>One chunk of the read stream. The pieces of a line that is not complete wait in the list.\<close>
  "scan_chunk parse chunk (pending, st) =
     (case index_of 10 chunk of
        None \<Rightarrow> (if chunk = [] then pending else pending @ [chunk], st)
      | Some i \<Rightarrow>
          scan_chunk parse (drop (Suc i) chunk)
            ([], scan_read_line parse (concat (pending @ [take i chunk])) st))"
  by pat_completeness auto
termination
  by (relation "measure (\<lambda>(parse, chunk, s). length chunk)") (auto dest: index_of_Some)

declare scan_chunk.simps [simp del]

definition scan_event_log ::
  "(jstring \<Rightarrow> parse_outcome) \<Rightarrow> nat \<Rightarrow> jstring list \<Rightarrow> event_log_scan" where
  \<comment> \<open>The size that \<open>stat\<close> gave, and the chunks that the read stream gave.\<close>
  "scan_event_log parse fileSize chunks =
     (let st = (if 0 < fileSize
                then let (pending, st) = fold (scan_chunk parse) chunks ([], scan_init)
                     in scan_read_line parse (concat pending) st
                else scan_init)
      in \<lparr>scan_entries = sc_entries st, scan_bytes = fileSize, scan_stop = sc_stop st\<rparr>)"

text \<open>
  However the stream cuts the file, the scan reads the lines that splitting the whole text gives.
\<close>

lemma scan_chunk_lines:
  assumes "scan_chunk parse chunk (pending, st) = (pending', st')"
    and "10 \<notin> set (concat pending)"
  shows "10 \<notin> set (concat pending')
    \<and> fold (scan_read_line parse) (split_on 10 (concat pending' @ t)) st'
        = fold (scan_read_line parse) (split_on 10 (concat pending @ chunk @ t)) st"
  using assms
proof (induction chunk arbitrary: pending st rule: length_induct)
  case (1 chunk)
  show ?case
  proof (cases "index_of 10 chunk")
    case None
    with "1.prems" show ?thesis
      by (auto simp: scan_chunk.simps [of parse chunk pending st] index_of_None split: if_splits)
  next
    case (Some i)
    note i = index_of_Some [OF Some]
    let ?rest = "drop (Suc i) chunk" and ?line = "concat pending @ take i chunk"
    have step: "scan_chunk parse ?rest ([], scan_read_line parse ?line st) = (pending', st')"
      using Some "1.prems" by (simp add: scan_chunk.simps [of parse chunk pending st])
    have "i < length chunk" using i by blast
    then have "length ?rest < length chunk" by simp
    from "1.IH" [rule_format, OF this step]
    have "10 \<notin> set (concat pending')
      \<and> fold (scan_read_line parse) (split_on 10 (concat pending' @ t)) st'
        = fold (scan_read_line parse) (split_on 10 (?rest @ t)) (scan_read_line parse ?line st)"
      by simp
    moreover have "split_on 10 (concat pending @ chunk @ t) = ?line # split_on 10 (?rest @ t)"
    proof -
      have eq: "concat pending @ chunk @ t = ?line @ 10 # (?rest @ t)"
        using i by (metis append.assoc append_Cons)
      show ?thesis
        unfolding eq by (rule split_on_append_sep) (use i "1.prems" in simp)
    qed
    ultimately show ?thesis by (simp del: append_assoc)
  qed
qed

lemma scan_chunks_lines:
  assumes "fold (scan_chunk parse) chunks (pending, st) = (pending', st')"
    and "10 \<notin> set (concat pending)"
  shows "scan_read_line parse (concat pending') st'
    = fold (scan_read_line parse) (split_on 10 (concat pending @ concat chunks)) st"
  using assms
proof (induction chunks arbitrary: pending st)
  case Nil
  then show ?case by (simp add: split_on_no_sep)
next
  case (Cons c cs)
  obtain pending1 st1 where one: "scan_chunk parse c (pending, st) = (pending1, st1)"
    by fastforce
  note lines = scan_chunk_lines [OF one Cons.prems(2)]
  from one Cons.prems(1) have "fold (scan_chunk parse) cs (pending1, st1) = (pending', st')"
    by simp
  with Cons.IH lines show ?case by simp
qed

lemma scan_event_log_lines:
  assumes "fileSize = 0 \<Longrightarrow> concat chunks = []"
  shows "scan_event_log parse fileSize chunks =
    (let st = fold (scan_read_line parse) (split_on 10 (concat chunks)) scan_init
     in \<lparr>scan_entries = sc_entries st, scan_bytes = fileSize, scan_stop = sc_stop st\<rparr>)"
proof (cases "fileSize = 0")
  case True
  with assms have "concat chunks = []" by simp
  then show ?thesis
    unfolding \<open>concat chunks = []\<close>
    using True by (simp add: scan_event_log_def scan_read_line_def trim_def)
next
  case False
  obtain pending st where "fold (scan_chunk parse) chunks ([], scan_init) = (pending, st)"
    by fastforce
  with scan_chunks_lines [OF this] False show ?thesis
    by (simp add: scan_event_log_def)
qed

text \<open>The scan agrees with the parse of a log that a replay accepts.\<close>

lemma scan_read_line_blank: "trim l = [] \<Longrightarrow> scan_read_line parse l st = st"
  by (simp add: scan_read_line_def)

lemma fold_scan_content_lines:
  "fold (scan_read_line parse) ls st
     = fold (scan_read_line parse) (filter (\<lambda>l. trim l \<noteq> []) ls) st"
  by (induction ls arbitrary: st) (auto simp: scan_read_line_blank)

lemma parse_lines_length: "parse_lines parse i ls = Inr rs \<Longrightarrow> length rs = length ls"
  by (induction ls arbitrary: i rs) (auto simp: res_simps)

definition scan_state_after :: "event_record list \<Rightarrow> scan_state" where
  \<comment> \<open>What the scan holds after the lines of these records.\<close>
  "scan_state_after rs =
     (case find_event_log_stop rs of
        None \<Rightarrow> \<lparr>sc_entries = length rs, sc_stop = None,
                  sc_prev = (if rs = [] then None else Some (length rs - 1)), sc_searching = True\<rparr>
      | Some s \<Rightarrow> \<lparr>sc_entries = length rs, sc_stop = Some s, sc_prev = Some (stop_seq s),
                    sc_searching = False\<rparr>)"

lemma scan_read_record:
  assumes line: "parse_event_log_line parse (trim l) (length rs + 1) = Inr r" and "trim l \<noteq> []"
    and seq: "ev_seq r = length rs"
  shows "scan_read_line parse l (scan_state_after rs) = scan_state_after (rs @ [r])"
proof (cases "find_event_log_stop rs")
  case None
  with assms show ?thesis
    by (auto simp: scan_state_after_def scan_read_line_def assert_seq_follows_def Let_def
        find_event_log_stop_snoc stop_of_marker_def)
next
  case (Some s)
  with assms show ?thesis
    by (simp add: scan_state_after_def scan_read_line_def Let_def find_event_log_stop_snoc)
qed

lemma fold_scan_parsed:
  assumes "parse_lines parse (length rs) (map trim ls) = Inr rs'"
    and "contiguous (rs @ rs')" and "\<forall>l \<in> set ls. trim l \<noteq> []"
  shows "fold (scan_read_line parse) ls (scan_state_after rs) = scan_state_after (rs @ rs')"
  using assms
proof (induction ls arbitrary: rs rs')
  case Nil
  then show ?case by simp
next
  case (Cons l ls)
  then obtain r rs1 where r: "parse_event_log_line parse (trim l) (length rs + 1) = Inr r"
    and rs1: "parse_lines parse (length (rs @ [r])) (map trim ls) = Inr rs1"
    and rs': "rs' = r # rs1"
    by (auto simp: res_simps)
  have "ev_seq r = length rs"
    using contiguous_nth [OF Cons.prems(2), of "length rs"] rs' by (simp add: nth_append)
  with r Cons.prems(3) have "scan_read_line parse l (scan_state_after rs) = scan_state_after (rs @ [r])"
    by (simp add: scan_read_record)
  moreover have "fold (scan_read_line parse) ls (scan_state_after (rs @ [r]))
      = scan_state_after ((rs @ [r]) @ rs1)"
    using Cons.IH [OF rs1] Cons.prems rs' by simp
  ultimately show ?case using rs' by simp
qed

lemma scan_of_parsed_content:
  assumes "parse_event_log_content parse content = Inr rs"
  shows "fold (scan_read_line parse) (split_on 10 content) scan_init = scan_state_after rs"
proof -
  let ?ls = "filter (\<lambda>l. trim l \<noteq> []) (split_on 10 content)"
  have "map trim ?ls = content_lines content"
    by (simp add: content_lines_def filter_map comp_def)
  with assms have "parse_lines parse (length ([] :: event_record list)) (map trim ?ls) = Inr rs"
    and "contiguous ([] @ rs)"
    by (simp_all add: parse_event_log_content_Inr)
  then have "fold (scan_read_line parse) ?ls (scan_state_after []) = scan_state_after ([] @ rs)"
    by (rule fold_scan_parsed) simp
  moreover have "scan_state_after [] = scan_init"
    by (simp add: scan_state_after_def scan_init_def find_event_log_stop_def)
  ultimately show ?thesis
    by (simp add: fold_scan_content_lines [of parse "split_on 10 content"])
qed

section \<open>Properties\<close>

text \<open>The streaming scan does not depend on how the stream cuts the file into chunks, whatever
  the lines hold.\<close>

theorem scan_chunk_independent:
  assumes "concat chunks = concat chunks'" and "fileSize = 0 \<Longrightarrow> concat chunks = []"
  shows "scan_event_log parse fileSize chunks = scan_event_log parse fileSize chunks'"
  using assms scan_event_log_lines [of fileSize chunks] scan_event_log_lines [of fileSize chunks']
  by simp

lemma scan_chunk_independent_witness:
  "scan_event_log (\<lambda>_. BadJson) 3 [[123], [10, 125]] = scan_event_log (\<lambda>_. BadJson) 3 [[123, 10, 125]]"
  using scan_chunk_independent [of "[[123], [10, 125]]" "[[123, 10, 125]]" 3] by simp

text \<open>On every log that the strict parse of a replay accepts, the streaming scan reports the
  number of its records and the stop that a search through them finds.\<close>

theorem scan_agrees_with_parse:
  assumes "parse_event_log_content parse (concat chunks) = Inr rs"
    and "fileSize = 0 \<Longrightarrow> concat chunks = []"
  shows "scan_event_log parse fileSize chunks =
    \<lparr>scan_entries = length rs, scan_bytes = fileSize, scan_stop = find_event_log_stop rs\<rparr>"
  using scan_event_log_lines [OF assms(2)] scan_of_parsed_content [OF assms(1)]
  by (auto simp: scan_state_after_def split: option.split)

lemma scan_agrees_with_parse_witness:
  "scan_event_log (\<lambda>_. Parsed \<lparr>ev_seq = 0, ev_ts = [], ev_payload = Output []\<rparr>) 3 [[123], [125, 10]] =
     \<lparr>scan_entries = 1, scan_bytes = 3, scan_stop = None\<rparr>"
proof -
  let ?r = "\<lparr>ev_seq = 0, ev_ts = [], ev_payload = Output []\<rparr>"
  have "parse_event_log_content (\<lambda>_. Parsed ?r) (concat [[123], [125, 10]]) = Inr [?r]"
    by (simp add: parse_event_log_content_Inr content_lines_def trim_def is_js_space_def
        parse_event_log_line_def contiguous_def)
  from scan_agrees_with_parse [OF this, of 3] show ?thesis
    by (simp add: find_event_log_stop_def is_stop_marker_def)
qed

end
