(* ===== verification/LogInterface.thy ===== *)
theory LogInterface
  imports EventCodec
begin

text \<open>
  What the parts of the host rely on when they append to the event log: the run-completion
  coordinator, the request handlers and, through the sequence numbers they return, the Batch
  executor. The promises are about the sequence numbers and the history, and hold whether the log
  stores a record or has stopped and only acknowledges it.
\<close>

fun append_all ::
  "('s \<Rightarrow> payload \<Rightarrow> (nat \<times> 's) res) \<Rightarrow> 's \<Rightarrow> payload list \<Rightarrow> (nat list \<times> 's) res" where
  "append_all app s [] = Inr ([], s)"
| "append_all app s (p # ps) =
     bind_res (app s p) (\<lambda>(q, s1). bind_res (append_all app s1 ps) (\<lambda>(qs, s2). Inr (q # qs, s2)))"

locale event_appender =
  fixes app :: "'s \<Rightarrow> payload \<Rightarrow> (nat \<times> 's) res"
    and hist :: "'s \<Rightarrow> event_record list"
    and ok :: "'s \<Rightarrow> bool"
  assumes app_ok: "ok s \<Longrightarrow> app s p = Inr (q, s') \<Longrightarrow> ok s'"
    and app_seq: "ok s \<Longrightarrow> app s p = Inr (q, s') \<Longrightarrow> Suc q = length (hist s')"
    and app_stores: "ok s \<Longrightarrow> app s p = Inr (q, s') \<Longrightarrow>
      \<exists>rs. hist s' = hist s @ rs \<and> length rs \<le> 1
         \<and> (\<forall>r \<in> set rs. ev_payload r = p \<or> is_stop_marker r)"
    and hist_numbered: "ok s \<Longrightarrow> contiguous (hist s)"
begin

lemma app_grows: "ok s \<Longrightarrow> app s p = Inr (q, s') \<Longrightarrow> prefix (hist s) (hist s')"
  using app_stores by (metis prefixI)

lemma app_seq_ge: "ok s \<Longrightarrow> app s p = Inr (q, s') \<Longrightarrow> length (hist s) \<le> Suc q"
  using app_grows [of s p q s'] app_seq [of s p q s'] prefix_length_le by fastforce

lemma app_last: "ok s \<Longrightarrow> app s p = Inr (q, s') \<Longrightarrow> ev_seq (last (hist s')) = q"
proof -
  assume a: "ok s" "app s p = Inr (q, s')"
  then have "contiguous (hist s')" and "Suc q = length (hist s')"
    using app_ok app_seq hist_numbered by blast+
  moreover from this have "hist s' \<noteq> []" by auto
  ultimately show ?thesis using contiguous_last by fastforce
qed

text \<open>The numbers that a sequence of appends returns never decrease, and none names a later record.\<close>

lemma append_all_props:
  "ok s \<Longrightarrow> append_all app s ps = Inr (qs, s') \<Longrightarrow>
     ok s' \<and> prefix (hist s) (hist s') \<and> length qs = length ps \<and> sorted qs
     \<and> (\<forall>q \<in> set qs. length (hist s) \<le> Suc q \<and> q < length (hist s'))"
proof (induction ps arbitrary: s qs s')
  case Nil
  then show ?case by simp
next
  case (Cons p ps)
  then obtain q s1 qs' where one: "app s p = Inr (q, s1)"
    and rest: "append_all app s1 ps = Inr (qs', s')" and qs: "qs = q # qs'"
    by (auto simp: res_simps)
  from one Cons.prems(1) have s1: "ok s1" "prefix (hist s) (hist s1)" "Suc q = length (hist s1)"
    using app_ok app_grows app_seq by blast+
  from Cons.IH [OF s1(1) rest] s1 qs show ?case
    by (fastforce dest: prefix_length_le intro: prefix_order.order_trans)
qed

end

end
