(* ===== verification/EventLog.thy ===== *)
theory EventLog
  imports LogInterface
begin

text \<open>
  The append-only log of a session host (\<open>src/host/eventLog.ts\<close>): the in-memory buffer, the
  queue of file writes behind it, the two limits with the reserve at the tail, and the marker
  that records why the log stopped.

  The clock's texts are arguments. A queued \<open>appendFile\<close> is an entry of \<open>el_queue\<close>;
  \<open>settle_write\<close> is the event loop finishing the oldest of them, and may report a failure with
  any prefix of the line on disk.
\<close>

section \<open>State\<close>

record event_log =
  el_buffer :: "event_record list"
  el_next_seq :: nat
  el_file_bytes :: nat
  el_max_bytes :: nat
  el_max_entries :: nat
  el_stopped :: bool
  el_closed :: bool
  el_queue :: "(nat \<times> jstring) list" \<comment> \<open>writes that have not settled, oldest first\<close>
  el_poisoned :: bool \<comment> \<open>a write has failed, so the queue rejects every later one\<close>
  el_file :: "jstring list" \<comment> \<open>what the file holds, in the pieces that were written\<close>

definition max_event_buffer_entries :: nat where
  "max_event_buffer_entries = 250000"

definition tail_reserve_bytes :: nat where
  "tail_reserve_bytes = 4096"

definition tail_reserve_entries :: nat where
  "tail_reserve_entries = 2"

section \<open>Opening\<close>

definition derive_next_seq :: "event_record list \<Rightarrow> nat" where
  "derive_next_seq rs = (if rs = [] then 0 else ev_seq (last rs) + 1)"

definition construct_log ::
  "nat \<Rightarrow> nat \<Rightarrow> nat \<Rightarrow> nat \<Rightarrow> event_record list \<Rightarrow> bool \<Rightarrow> jstring list \<Rightarrow> event_log res" where
  "construct_log nextSeq fileBytes maxBytes maxEntries eventBuffer stopped file =
     check (tail_reserve_bytes < maxBytes \<and> maxBytes \<le> max_event_log_size)
       ''maxBytes must leave room beyond the tail reserve and must not exceed MAX_EVENT_LOG_SIZE''
     (check (tail_reserve_entries < maxEntries \<and> maxEntries \<le> max_event_buffer_entries)
       ''maxEntries must leave room beyond the tail reserve and must not exceed MAX_EVENT_BUFFER_ENTRIES''
     (check (nextSeq = length eventBuffer) ''nextSeq must match buffered event count''
     (Inr \<lparr>el_buffer = eventBuffer, el_next_seq = nextSeq, el_file_bytes = fileBytes,
           el_max_bytes = maxBytes, el_max_entries = maxEntries, el_stopped = stopped,
           el_closed = False, el_queue = [], el_poisoned = False, el_file = file\<rparr>)))"

definition open_log ::
  "(jstring \<Rightarrow> parse_outcome) \<Rightarrow> jstring \<Rightarrow> nat \<Rightarrow> jstring \<Rightarrow> nat option \<Rightarrow> nat option
     \<Rightarrow> event_log res" where
  \<comment> \<open>\<open>filePath\<close>, the size and the text of that file, then the options \<open>maxBytes\<close> and \<open>maxEntries\<close>.\<close>
  "open_log parse filePath fileSize content maxBytesOpt maxEntriesOpt =
     (let maxBytes = (case maxBytesOpt of None \<Rightarrow> max_event_log_size | Some n \<Rightarrow> n);
          maxEntries = (case maxEntriesOpt of None \<Rightarrow> max_event_buffer_entries | Some n \<Rightarrow> n)
      in check (filePath \<noteq> []) ''filePath must be a non-empty string''
        (bind_res (assert_event_log_size fileSize) (\<lambda>_.
         bind_res (if 0 < fileSize then parse_event_log_content parse content else Inr [])
           (\<lambda>eventBuffer.
              if eventBuffer = [] \<and> int maxBytes - int tail_reserve_bytes < int fileSize
              then Inl (Plain (js ''event log '' @ filePath @ js '' holds no record, and its ''
                     @ nat_digits fileSize @ js '' bytes leave less than ''
                     @ nat_digits tail_reserve_bytes @ js '' bytes free under the ''
                     @ nat_digits maxBytes @ js ''-byte limit''))
              else construct_log (derive_next_seq eventBuffer) fileSize maxBytes maxEntries
                     eventBuffer (find_event_log_stop eventBuffer \<noteq> None)
                     (if fileSize = 0 then [] else [content])))))"

section \<open>Appending\<close>

definition make_record :: "nat \<Rightarrow> jstring \<Rightarrow> payload \<Rightarrow> event_record" where
  "make_record s ts p = \<lparr>ev_seq = s, ev_ts = ts, ev_payload = p\<rparr>"

definition prepare_record :: "event_log \<Rightarrow> jstring \<Rightarrow> payload \<Rightarrow> event_record" where
  \<comment> \<open>The line and its bytes are \<open>record_line\<close> and \<open>record_bytes\<close> of the record.\<close>
  "prepare_record l ts p = make_record (el_next_seq l) ts p"

definition find_stop_reason :: "event_log \<Rightarrow> payload \<Rightarrow> nat \<Rightarrow> log_limit option" where
  "find_stop_reason l p nbytes =
     (let reserveBytes = (if is_exit p then 0 else tail_reserve_bytes);
          reserveEntries = (if is_exit p then 0 else tail_reserve_entries)
      in if int (el_max_bytes l) - int (el_file_bytes l) - int reserveBytes < int nbytes
         then Some LimitBytes
         else if int (el_max_entries l) - int reserveEntries < int (length (el_buffer l)) + 1
         then Some LimitEvents
         else None)"

definition enqueue :: "event_log \<Rightarrow> event_record \<Rightarrow> (nat \<times> event_log) res" where
  "enqueue l r =
     check (ev_seq r = el_next_seq l) ''event seq must match the expected next seq''
     (check_str (length (el_buffer l) < el_max_entries l)
        (js ''event buffer exceeds '' @ nat_digits (el_max_entries l)
           @ js '' entries; session event log is too large'')
     (check (ev_seq r = length (el_buffer l))
        ''event record seq must match the buffered event count''
     (check (el_file_bytes l + record_bytes r \<le> el_max_bytes l)
        ''event log append must stay inside the size limit''
     (Inr (ev_seq r,
           l\<lparr>el_next_seq := el_next_seq l + 1,
             el_buffer := el_buffer l @ [r],
             el_file_bytes := el_file_bytes l + record_bytes r,
             el_queue := el_queue l @ [(ev_seq r, record_line r)]\<rparr>)))))"

definition record_stop :: "event_log \<Rightarrow> log_limit \<Rightarrow> jstring \<Rightarrow> event_log res" where
  "record_stop l reason ts =
     (let l1 = l\<lparr>el_stopped := True\<rparr>;
          stop = prepare_record l1 ts
            (Marker (event_log_stop_label reason
               (case reason of LimitBytes \<Rightarrow> el_max_bytes l1 | LimitEvents \<Rightarrow> el_max_entries l1)))
      in if int (el_max_bytes l1) - int (el_file_bytes l1) < int (record_bytes stop)
            \<or> el_max_entries l1 < length (el_buffer l1) + 1
         then Inr l1
         else bind_res (enqueue l1 stop) (\<lambda>(_, l2). Inr l2))"

definition acknowledge_unstored :: "event_log \<Rightarrow> (nat \<times> event_log) res" where
  "acknowledge_unstored l =
     check (0 < el_next_seq l) ''a log that does not store a record must hold an earlier record''
     (Inr (el_next_seq l - 1, l))"

definition queue_append ::
  "event_log \<Rightarrow> payload \<Rightarrow> jstring \<Rightarrow> jstring \<Rightarrow> (nat \<times> event_log) res" where
  \<comment> \<open>The two texts are the clock at the record and, if the log stops, at its stop marker.\<close>
  "queue_append l p ts tsStop =
     check (\<not> el_closed l) ''cannot append to a closed event log''
     (check (valid_payload p) ''payload must match schema''
     (if el_stopped l \<and> \<not> is_exit p then acknowledge_unstored l
      else let prepared = prepare_record l ts p
           in case find_stop_reason l p (record_bytes prepared) of
                None \<Rightarrow> enqueue l prepared
              | Some reason \<Rightarrow>
                  if el_stopped l then acknowledge_unstored l
                  else bind_res (record_stop l reason tsStop) acknowledge_unstored))"

definition append_log ::
  "event_log \<Rightarrow> payload \<Rightarrow> jstring \<Rightarrow> jstring \<Rightarrow> (nat \<times> event_log) res" where
  \<comment> \<open>\<open>EventLog.append\<close>: the reserved label is refused before anything else.\<close>
  "append_log l p ts tsStop =
     (case p of
        Marker label \<Rightarrow>
          if starts_with label limit_label_prefix
          then Inl (Cli INVALID_INPUT (js ''A marker label must not start with '' @ [34]
                 @ limit_label_prefix @ [34]
                 @ js '': agent-tty reserves it for the record that stops the event log.''))
          else queue_append l p ts tsStop
      | _ \<Rightarrow> queue_append l p ts tsStop)"

section \<open>Settling writes\<close>

definition rollback_buffered_events_from :: "nat \<Rightarrow> event_log \<Rightarrow> event_log" where
  "rollback_buffered_events_from failedSeq l =
     (if length (el_buffer l) \<le> failedSeq then l
      else l\<lparr>el_buffer := take failedSeq (el_buffer l), el_next_seq := failedSeq\<rparr>)"

datatype write_outcome = Landed | Failed jstring

definition settle_write :: "write_outcome \<Rightarrow> event_log \<Rightarrow> event_log" where
  \<comment> \<open>The oldest queued write ends. Once one has failed, the later ones reject without running.\<close>
  "settle_write w l =
     (case el_queue l of
        [] \<Rightarrow> l
      | (s, line) # q \<Rightarrow>
          if el_poisoned l then rollback_buffered_events_from s (l\<lparr>el_queue := q\<rparr>)
          else (case w of
                  Landed \<Rightarrow> l\<lparr>el_queue := q, el_file := el_file l @ [line]\<rparr>
                | Failed part \<Rightarrow>
                    rollback_buffered_events_from s
                      (l\<lparr>el_queue := q, el_poisoned := True, el_file := el_file l @ [part]\<rparr>)))"

definition close_log :: "event_log \<Rightarrow> event_log res" where
  \<comment> \<open>After the write queue has settled; its rejection, if it has one, passes to the caller.\<close>
  "close_log l =
     check (\<not> el_closed l) ''event log is already closed''
     (if el_poisoned l then Inl (Plain (js ''event log write failed''))
      else Inr (l\<lparr>el_closed := True\<rparr>))"

section \<open>Reading\<close>

definition get_events :: "event_log \<Rightarrow> event_record list" where
  "get_events l = el_buffer l"

definition get_stop :: "event_log \<Rightarrow> event_log_stop option" where
  "get_stop l = find_event_log_stop (el_buffer l)"

definition get_events_since :: "event_log \<Rightarrow> int \<Rightarrow> event_record list res" where
  "get_events_since l afterSeq =
     check (-1 \<le> afterSeq) ''afterSeq must be greater than or equal to -1''
     (if int (length (el_buffer l)) \<le> afterSeq then Inr []
      else Inr (drop (nat (afterSeq + 1)) (el_buffer l)))"

section \<open>Bounds of the tail records\<close>

definition clock_text :: "jstring \<Rightarrow> bool" where
  \<comment> \<open>What \<open>toISOString\<close> gives: at most 27 digits, letters and signs.\<close>
  "clock_text ts \<longleftrightarrow> length ts \<le> 27 \<and> list_all (\<lambda>c. 43 \<le> c \<and> c \<le> 90) ts"

lemma quote_units_plain:
  "list_all (\<lambda>c. 32 \<le> c \<and> c < 128 \<and> c \<noteq> 34 \<and> c \<noteq> 92) s \<Longrightarrow> quote_units s = s"
  by (induction s rule: quote_units.induct)
    (auto simp: quote_unit_def is_high_surrogate_def is_low_surrogate_def)

lemma quote_units_clock: "clock_text ts \<Longrightarrow> quote_units ts = ts"
  by (intro quote_units_plain) (auto simp: clock_text_def list_all_iff)

lemma quote_units_js_append:
  assumes "list_all (\<lambda>c. 32 \<le> c \<and> c < 128 \<and> c \<noteq> 34 \<and> c \<noteq> 92) s"
  shows "quote_units s = s" and "list_all (\<lambda>c. c < 128) (quote_units s)"
  using quote_units_plain [OF assms] assms by (auto simp: list_all_iff)

lemma digits_plain: "list_all (\<lambda>c. 32 \<le> c \<and> c < 128 \<and> c \<noteq> 34 \<and> c \<noteq> 92) (nat_digits n)"
  using nat_digits_digits [of n] by (auto simp: list_all_iff is_digit_def)

lemma stop_label_plain:
  "list_all (\<lambda>c. 32 \<le> c \<and> c < 128 \<and> c \<noteq> 34 \<and> c \<noteq> 92) (event_log_stop_label reason limit)"
  by (cases reason)
    (simp_all add: event_log_stop_label_def limit_label_prefix_def js_eval digits_plain)

lemma length_stop_label:
  "length (event_log_stop_label reason limit) \<le> 80 + length (nat_digits limit)"
  by (cases reason) (simp_all add: event_log_stop_label_def limit_label_prefix_def)

lemma ascii_stop_record:
  assumes "clock_text ts"
  shows "list_all (\<lambda>c. c < 128) (record_line (make_record s ts (Marker (event_log_stop_label reason limit))))"
proof -
  have "list_all (\<lambda>c. c < 128) (quote (event_log_stop_label reason limit))"
    using quote_units_js_append(2) [OF stop_label_plain] by (simp add: quote_def)
  moreover have "list_all (\<lambda>c. c < 128) (quote ts)"
    using assms by (auto simp: quote_def quote_units_clock clock_text_def list_all_iff)
  moreover have "list_all (\<lambda>c. c < 128) (nat_digits s)"
    using digits_plain [of s] by (auto simp: list_all_iff)
  ultimately show ?thesis
    by (simp add: record_line_def json_of_record_def make_record_def int_digits_def quote_def
        quote_unit_def is_high_surrogate_def is_low_surrogate_def js_eval)
qed

lemma stop_record_bytes:
  assumes "clock_text ts" and "s < 10 ^ 6" and "limit < 10 ^ 8"
  shows "record_bytes (make_record s ts (Marker (event_log_stop_label reason limit))) \<le> 256"
proof -
  have "length (nat_digits s) \<le> 6" and "length (nat_digits limit) \<le> 8"
    using assms by (simp_all add: length_nat_digits)
  moreover have "quote_units (event_log_stop_label reason limit) = event_log_stop_label reason limit"
    using quote_units_js_append(1) [OF stop_label_plain] .
  moreover have "length ts \<le> 27" using assms(1) by (simp add: clock_text_def)
  ultimately have "length (record_line (make_record s ts (Marker (event_log_stop_label reason limit)))) \<le> 256"
    using length_stop_label [of reason limit]
    by (simp add: record_line_def json_of_record_def make_record_def int_digits_def quote_def
        quote_units_clock [OF assms(1)] quote_unit_def is_high_surrogate_def
        is_low_surrogate_def js_eval)
  then show ?thesis
    using utf8_length_ascii [OF ascii_stop_record [OF assms(1)]] by (simp add: record_bytes_def)
qed

section \<open>What one append does\<close>

definition store :: "event_record \<Rightarrow> event_log \<Rightarrow> event_log" where
  "store r l =
     l\<lparr>el_next_seq := el_next_seq l + 1, el_buffer := el_buffer l @ [r],
       el_file_bytes := el_file_bytes l + record_bytes r,
       el_queue := el_queue l @ [(ev_seq r, record_line r)]\<rparr>"

definition stop_record :: "event_log \<Rightarrow> log_limit \<Rightarrow> jstring \<Rightarrow> event_record" where
  "stop_record l reason ts =
     make_record (el_next_seq l) ts
       (Marker (event_log_stop_label reason
          (case reason of LimitBytes \<Rightarrow> el_max_bytes l | LimitEvents \<Rightarrow> el_max_entries l)))"

lemma store_sel [simp]:
  "el_buffer (store r l) = el_buffer l @ [r]"
  "el_next_seq (store r l) = el_next_seq l + 1"
  "el_file_bytes (store r l) = el_file_bytes l + record_bytes r"
  "el_max_bytes (store r l) = el_max_bytes l"
  "el_max_entries (store r l) = el_max_entries l"
  "el_stopped (store r l) = el_stopped l"
  "el_closed (store r l) = el_closed l"
  "el_queue (store r l) = el_queue l @ [(ev_seq r, record_line r)]"
  "el_poisoned (store r l) = el_poisoned l"
  "el_file (store r l) = el_file l"
  by (simp_all add: store_def)

lemma make_record_sel [simp]:
  "ev_seq (make_record s ts p) = s" "ev_ts (make_record s ts p) = ts"
  "ev_payload (make_record s ts p) = p"
  by (simp_all add: make_record_def)

lemma stop_record_sel [simp]: "ev_seq (stop_record l reason ts) = el_next_seq l"
  by (simp add: stop_record_def)

lemma stop_record_is_marker: "is_stop_marker (stop_record l reason ts)"
  by (simp add: stop_record_def is_stop_marker_def stop_label_has_prefix)

lemma enqueue_Inr:
  "enqueue l r = Inr (s, l') \<longleftrightarrow>
     ev_seq r = el_next_seq l \<and> length (el_buffer l) < el_max_entries l
     \<and> ev_seq r = length (el_buffer l) \<and> el_file_bytes l + record_bytes r \<le> el_max_bytes l
     \<and> s = ev_seq r \<and> l' = store r l"
  by (auto simp: enqueue_def res_simps store_def)

datatype append_outcome = Stored | Ignored | StoppedSilently log_limit | StoppedWithMarker log_limit

fun effect_state ::
  "append_outcome \<Rightarrow> event_log \<Rightarrow> payload \<Rightarrow> jstring \<Rightarrow> jstring \<Rightarrow> event_log" where
  "effect_state Stored l p ts tsStop = store (make_record (el_next_seq l) ts p) l"
| "effect_state Ignored l p ts tsStop = l"
| "effect_state (StoppedSilently reason) l p ts tsStop = l\<lparr>el_stopped := True\<rparr>"
| "effect_state (StoppedWithMarker reason) l p ts tsStop =
     store (stop_record l reason tsStop) (l\<lparr>el_stopped := True\<rparr>)"

definition fits :: "event_log \<Rightarrow> event_record \<Rightarrow> bool" where
  "fits l r \<longleftrightarrow> length (el_buffer l) < el_max_entries l
     \<and> el_file_bytes l + record_bytes r \<le> el_max_bytes l"

text \<open>The decision, by cases: which of the four effects an append has.\<close>

definition append_effect :: "event_log \<Rightarrow> payload \<Rightarrow> jstring \<Rightarrow> jstring \<Rightarrow> append_outcome" where
  "append_effect l p ts tsStop =
     (if el_stopped l \<and> \<not> is_exit p then Ignored
      else case find_stop_reason l p (record_bytes (make_record (el_next_seq l) ts p)) of
             None \<Rightarrow> Stored
           | Some reason \<Rightarrow>
               if el_stopped l then Ignored
               else if fits l (stop_record l reason tsStop) then StoppedWithMarker reason
               else StoppedSilently reason)"

lemma find_stop_reason_None_fits:
  "find_stop_reason l p (record_bytes r) = None \<Longrightarrow> fits l r"
  by (auto simp: find_stop_reason_def fits_def Let_def split: if_splits)

lemma stop_record_upd [simp]: "stop_record (l\<lparr>el_stopped := b\<rparr>) reason ts = stop_record l reason ts"
  by (simp add: stop_record_def split: log_limit.split)

lemma record_stop_eq:
  assumes "el_next_seq l = length (el_buffer l)"
  shows "record_stop l reason ts =
    Inr (if fits l (stop_record l reason ts)
         then store (stop_record l reason ts) (l\<lparr>el_stopped := True\<rparr>)
         else l\<lparr>el_stopped := True\<rparr>)"
proof -
  have "prepare_record (l\<lparr>el_stopped := True\<rparr>) ts
      (Marker (event_log_stop_label reason
        (case reason of LimitBytes \<Rightarrow> el_max_bytes (l\<lparr>el_stopped := True\<rparr>)
           | LimitEvents \<Rightarrow> el_max_entries (l\<lparr>el_stopped := True\<rparr>)))) = stop_record l reason ts"
    by (simp add: prepare_record_def stop_record_def split: log_limit.split)
  then show ?thesis
    using assms
    by (auto simp: record_stop_def Let_def fits_def enqueue_def store_def bind_res_def check_def check_str_def)
qed

lemma queue_append_effect:
  fixes l p ts tsStop
  assumes "el_next_seq l = length (el_buffer l)" and "\<not> el_closed l" and "valid_payload p"
  defines "l' \<equiv> effect_state (append_effect l p ts tsStop) l p ts tsStop"
  shows "queue_append l p ts tsStop =
    (if 0 < el_next_seq l' then Inr (el_next_seq l' - 1, l')
     else Inl (Assertion (js ''a log that does not store a record must hold an earlier record'')))"
proof (cases "el_stopped l \<and> \<not> is_exit p")
  case True
  with assms show ?thesis
    by (simp add: queue_append_def append_effect_def acknowledge_unstored_def check_def)
next
  case False
  let ?r = "make_record (el_next_seq l) ts p"
  show ?thesis
  proof (cases "find_stop_reason l p (record_bytes ?r)")
    case None
    with find_stop_reason_None_fits [OF this] False assms show ?thesis
      by (auto simp: queue_append_def append_effect_def prepare_record_def enqueue_def fits_def
          store_def check_def check_str_def Let_def)
  next
    case (Some reason)
    with False assms record_stop_eq [OF assms(1), of reason tsStop] show ?thesis
      by (auto simp: queue_append_def append_effect_def prepare_record_def
          acknowledge_unstored_def check_def Let_def)
  qed
qed

lemma queue_append_Inr:
  assumes "queue_append l p ts tsStop = Inr (s, l')" and "el_next_seq l = length (el_buffer l)"
  shows "l' = effect_state (append_effect l p ts tsStop) l p ts tsStop \<and> \<not> el_closed l
    \<and> valid_payload p \<and> 0 < el_next_seq l' \<and> s = el_next_seq l' - 1"
proof -
  from assms(1) have "\<not> el_closed l" and "valid_payload p"
    by (auto simp: queue_append_def res_simps)
  with assms queue_append_effect [OF assms(2) this, of ts tsStop] show ?thesis
    by (auto split: if_splits)
qed

lemma append_log_Inr:
  "append_log l p ts tsStop = Inr x \<longleftrightarrow>
     queue_append l p ts tsStop = Inr x \<and> \<not> is_stop_marker (make_record 0 [] p)"
  by (cases p) (auto simp: append_log_def is_stop_marker_def)

section \<open>The invariant\<close>

definition file_size :: "event_log \<Rightarrow> nat" where
  "file_size l = sum_list (map utf8_length (el_file l))"

definition queued_bytes :: "event_log \<Rightarrow> nat" where
  "queued_bytes l = sum_list (map (\<lambda>e. utf8_length (snd e)) (el_queue l))"

definition log_sane :: "event_log \<Rightarrow> bool" where
  "log_sane l \<longleftrightarrow>
     contiguous (el_buffer l) \<and> el_next_seq l = length (el_buffer l)
     \<and> length (el_buffer l) \<le> el_max_entries l \<and> el_file_bytes l \<le> el_max_bytes l
     \<and> tail_reserve_bytes < el_max_bytes l \<and> el_max_bytes l \<le> max_event_log_size
     \<and> tail_reserve_entries < el_max_entries l \<and> el_max_entries l \<le> max_event_buffer_entries
     \<and> file_size l + (if el_poisoned l then 0 else queued_bytes l) \<le> el_file_bytes l"

definition queue_entry :: "event_record \<Rightarrow> nat \<times> jstring" where
  "queue_entry r = (ev_seq r, record_line r)"

definition pending_from :: "nat \<Rightarrow> event_log \<Rightarrow> bool" where
  \<comment> \<open>A record of the buffer from the number \<open>k\<close> on implies a queued write of that number, which
     will roll back to it.\<close>
  "pending_from k l \<longleftrightarrow> (k < length (el_buffer l) \<longrightarrow> k \<in> fst ` set (el_queue l))"

definition file_follows_buffer :: "jstring list \<Rightarrow> nat \<Rightarrow> event_log \<Rightarrow> bool" where
  \<comment> \<open>\<open>base\<close> is what the file held when the log opened, with \<open>j\<close> records in it.\<close>
  "file_follows_buffer base j l \<longleftrightarrow>
     (\<exists>k \<ge> j. k \<le> length (el_buffer l)
        \<and> (if el_poisoned l
            then (\<exists>part. el_file l = base @ map record_line (drop j (take k (el_buffer l))) @ [part])
              \<and> (\<forall>e \<in> set (el_queue l). k \<le> fst e) \<and> pending_from k l
            else el_file l = base @ map record_line (drop j (take k (el_buffer l)))
              \<and> el_queue l = map queue_entry (drop k (el_buffer l))))"

lemma log_sane_store:
  assumes "log_sane l" and "fits l r" and "ev_seq r = el_next_seq l"
  shows "log_sane (store r l)"
  using assms
  by (auto simp: log_sane_def fits_def contiguous_snoc file_size_def queued_bytes_def
      record_bytes_def)

lemma log_sane_stopped [simp]: "log_sane (l\<lparr>el_stopped := b\<rparr>) = log_sane l"
  by (simp add: log_sane_def file_size_def queued_bytes_def)

lemma fits_stopped [simp]: "fits (l\<lparr>el_stopped := b\<rparr>) r = fits l r"
  by (simp add: fits_def)

lemma append_effect_fits:
  "append_effect l p ts tsStop = Stored \<Longrightarrow> fits l (make_record (el_next_seq l) ts p)"
  "append_effect l p ts tsStop = StoppedWithMarker reason \<Longrightarrow> fits l (stop_record l reason tsStop)"
  by (auto simp: append_effect_def dest: find_stop_reason_None_fits split: if_splits option.splits)

lemma log_sane_effect:
  assumes "log_sane l"
  shows "log_sane (effect_state (append_effect l p ts tsStop) l p ts tsStop)"
proof (cases "append_effect l p ts tsStop")
  case Stored
  with assms append_effect_fits(1) [OF Stored] show ?thesis by (simp add: log_sane_store)
next
  case (StoppedWithMarker reason)
  with assms append_effect_fits(2) [OF StoppedWithMarker] show ?thesis
    by (simp add: log_sane_store)
qed (use assms in simp_all)

lemma file_follows_buffer_store:
  assumes "log_sane l" and "file_follows_buffer base j l" and "ev_seq r = el_next_seq l"
  shows "file_follows_buffer base j (store r l)"
proof -
  from assms(2) obtain k where k: "j \<le> k" "k \<le> length (el_buffer l)"
    and *: "if el_poisoned l
            then (\<exists>part. el_file l = base @ map record_line (drop j (take k (el_buffer l))) @ [part])
              \<and> (\<forall>e \<in> set (el_queue l). k \<le> fst e) \<and> pending_from k l
            else el_file l = base @ map record_line (drop j (take k (el_buffer l)))
              \<and> el_queue l = map queue_entry (drop k (el_buffer l))"
    by (auto simp: file_follows_buffer_def)
  from assms(1,3) have "ev_seq r = length (el_buffer l)" by (simp add: log_sane_def)
  with k * show ?thesis
    unfolding file_follows_buffer_def
    by (intro exI [of _ k]) (auto simp: queue_entry_def pending_from_def)
qed

lemma file_follows_buffer_stopped [simp]:
  "file_follows_buffer base j (l\<lparr>el_stopped := b\<rparr>) = file_follows_buffer base j l"
  by (simp add: file_follows_buffer_def pending_from_def)

lemma file_follows_buffer_effect:
  assumes "log_sane l" and "file_follows_buffer base j l"
  shows "file_follows_buffer base j (effect_state (append_effect l p ts tsStop) l p ts tsStop)"
  using assms
  by (cases "append_effect l p ts tsStop") (simp_all add: file_follows_buffer_store)

lemma sum_list_bytes_take:
  "sum_list (map record_bytes (take n rs)) \<le> sum_list (map record_bytes rs)"
  by (metis append_take_drop_id le_add1 map_append sum_list_append)

lemma log_sane_rollback:
  assumes "log_sane l"
  shows "log_sane (rollback_buffered_events_from s l)"
  using assms
  by (auto simp: rollback_buffered_events_from_def log_sane_def contiguous_take file_size_def
      queued_bytes_def)

lemma utf8_length_prefix: "prefix p s \<Longrightarrow> utf8_length p \<le> utf8_length s"
proof (induction s arbitrary: p rule: utf8_length.induct)
  case (3 c d s)
  show ?case
  proof (cases p)
    case Nil
    then show ?thesis by simp
  next
    case (Cons x xs)
    with "3.prems" have x: "x = c" and xs: "prefix xs (d # s)" by auto
    show ?thesis
    proof (cases xs)
      case Nil
      with Cons x show ?thesis
        using utf8_length_ge [of "d # s"] by auto
    next
      case (Cons y ys)
      with xs have "y = d" and "prefix ys s" by auto
      with "3.IH" xs Cons \<open>p = x # xs\<close> x show ?thesis by auto
    qed
  qed
qed (auto simp: prefix_Cons)

text \<open>What a failing write leaves on disk is a prefix of its line.\<close>

definition outcome_ok :: "write_outcome \<Rightarrow> event_log \<Rightarrow> bool" where
  "outcome_ok w l =
     (case w of
        Landed \<Rightarrow> True
      | Failed part \<Rightarrow> (case el_queue l of [] \<Rightarrow> True | e # q \<Rightarrow> prefix part (snd e)))"

lemma log_sane_settle:
  assumes "log_sane l" and "outcome_ok w l"
  shows "log_sane (settle_write w l)"
proof (cases "el_queue l")
  case Nil
  with assms show ?thesis by (simp add: settle_write_def)
next
  case (Cons e q)
  obtain s line where e: "e = (s, line)" by fastforce
  show ?thesis
  proof (cases "el_poisoned l")
    case True
    with assms(1) have "log_sane (l\<lparr>el_queue := q\<rparr>)"
      by (simp add: log_sane_def file_size_def)
    with True Cons e show ?thesis by (simp add: settle_write_def log_sane_rollback)
  next
    case False
    show ?thesis
    proof (cases w)
      case Landed
      with assms(1) False Cons e show ?thesis
        by (auto simp: settle_write_def log_sane_def file_size_def queued_bytes_def)
    next
      case (Failed part)
      with assms(2) Cons e have "utf8_length part \<le> utf8_length line"
        by (simp add: outcome_ok_def utf8_length_prefix)
      with assms(1) False Cons e
      have "log_sane (l\<lparr>el_queue := q, el_poisoned := True, el_file := el_file l @ [part]\<rparr>)"
        by (auto simp: log_sane_def file_size_def queued_bytes_def)
      with Failed False Cons e show ?thesis by (simp add: settle_write_def log_sane_rollback)
    qed
  qed
qed

lemma file_follows_buffer_rollback:
  assumes "el_poisoned l"
    and "\<exists>k \<ge> j. k \<le> length (el_buffer l) \<and> k \<le> s
        \<and> (\<exists>part. el_file l = base @ map record_line (drop j (take k (el_buffer l))) @ [part])
        \<and> (\<forall>e \<in> set (el_queue l). k \<le> fst e) \<and> (s = k \<or> pending_from k l)"
  shows "file_follows_buffer base j (rollback_buffered_events_from s l)"
proof -
  from assms(2) obtain k where k: "j \<le> k" "k \<le> length (el_buffer l)" "k \<le> s"
    and f: "\<exists>part. el_file l = base @ map record_line (drop j (take k (el_buffer l))) @ [part]"
    and q: "\<forall>e \<in> set (el_queue l). k \<le> fst e" and p: "s = k \<or> pending_from k l"
    by blast
  have "take k (take s (el_buffer l)) = take k (el_buffer l)" using k(3) by (simp add: min_def)
  with assms(1) k f q p show ?thesis
    unfolding rollback_buffered_events_from_def
    by (auto simp: file_follows_buffer_def pending_from_def intro!: exI [of _ k])
qed

lemma file_follows_buffer_settle:
  assumes "log_sane l" and "file_follows_buffer base j l"
  shows "file_follows_buffer base j (settle_write w l)"
proof (cases "el_queue l")
  case Nil
  with assms show ?thesis by (simp add: settle_write_def)
next
  case (Cons e q)
  obtain s line where e: "e = (s, line)" by fastforce
  from assms(2) obtain k where k: "j \<le> k" "k \<le> length (el_buffer l)"
    and *: "if el_poisoned l
            then (\<exists>part. el_file l = base @ map record_line (drop j (take k (el_buffer l))) @ [part])
              \<and> (\<forall>e \<in> set (el_queue l). k \<le> fst e) \<and> pending_from k l
            else el_file l = base @ map record_line (drop j (take k (el_buffer l)))
              \<and> el_queue l = map queue_entry (drop k (el_buffer l))"
    by (auto simp: file_follows_buffer_def)
  show ?thesis
  proof (cases "el_poisoned l")
    case True
    let ?l1 = "l\<lparr>el_queue := q\<rparr>"
    from True * Cons e k have "file_follows_buffer base j (rollback_buffered_events_from s ?l1)"
      by (intro file_follows_buffer_rollback) (auto simp: pending_from_def intro!: exI [of _ k])
    with True Cons e show ?thesis by (simp add: settle_write_def)
  next
    case False
    with * Cons have d: "map queue_entry (drop k (el_buffer l)) = e # q"
      and f: "el_file l = base @ map record_line (drop j (take k (el_buffer l)))"
      by auto
    from d have lt: "k < length (el_buffer l)" by (cases "k < length (el_buffer l)") auto
    then have dk: "drop k (el_buffer l) = el_buffer l ! k # drop (Suc k) (el_buffer l)"
      by (simp add: Cons_nth_drop_Suc)
    with d e have line: "line = record_line (el_buffer l ! k)" and s: "s = ev_seq (el_buffer l ! k)"
      and q: "q = map queue_entry (drop (Suc k) (el_buffer l))"
      by (auto simp: queue_entry_def)
    have sk: "s = k" using s lt assms(1) by (simp add: log_sane_def contiguous_nth)
    show ?thesis
    proof (cases w)
      case Landed
      have "drop j (take (Suc k) (el_buffer l)) = drop j (take k (el_buffer l)) @ [el_buffer l ! k]"
        using lt k by (simp add: take_Suc_conv_app_nth)
      with Landed False Cons e f line q lt k show ?thesis
        by (auto simp: settle_write_def file_follows_buffer_def intro!: exI [of _ "Suc k"])
    next
      case (Failed part)
      let ?l1 = "l\<lparr>el_queue := q, el_poisoned := True, el_file := el_file l @ [part]\<rparr>"
      have ge: "\<forall>e \<in> set q. k \<le> fst e"
      proof
        fix e assume "e \<in> set q"
        then obtain i where i: "i < length (drop (Suc k) (el_buffer l))"
          and "e = queue_entry (drop (Suc k) (el_buffer l) ! i)"
          unfolding q by (metis in_set_conv_nth length_map nth_map)
        with assms(1) show "k \<le> fst e"
          by (simp add: queue_entry_def log_sane_def contiguous_nth)
      qed
      have "file_follows_buffer base j (rollback_buffered_events_from s ?l1)"
        using k f ge sk
        by (intro file_follows_buffer_rollback) (auto intro!: exI [of _ k])
      with Failed False Cons e show ?thesis by (simp add: settle_write_def)
    qed
  qed
qed

section \<open>The reserve at the tail\<close>

definition has_exit :: "event_log \<Rightarrow> bool" where
  "has_exit l \<longleftrightarrow> (\<exists>r \<in> set (el_buffer l). is_exit (ev_payload r))"

definition stop_marker_room :: nat where
  "stop_marker_room = 256"

definition tail_ok :: "event_log \<Rightarrow> bool" where
  "tail_ok l \<longleftrightarrow>
     el_poisoned l \<or> has_exit l
     \<or> (if el_stopped l
         then find_event_log_stop (el_buffer l) \<noteq> None
           \<and> el_file_bytes l + tail_reserve_bytes \<le> el_max_bytes l + stop_marker_room
           \<and> length (el_buffer l) + 1 \<le> el_max_entries l
         else find_event_log_stop (el_buffer l) = None
           \<and> el_file_bytes l + tail_reserve_bytes \<le> el_max_bytes l
           \<and> length (el_buffer l) + tail_reserve_entries \<le> el_max_entries l)"

lemma stop_record_room:
  assumes "log_sane l" and "clock_text ts"
  shows "record_bytes (stop_record l reason ts) \<le> stop_marker_room"
proof -
  have "el_next_seq l < 10 ^ 6"
    using assms(1) by (simp add: log_sane_def max_event_buffer_entries_def)
  moreover have "(case reason of LimitBytes \<Rightarrow> el_max_bytes l | LimitEvents \<Rightarrow> el_max_entries l) < 10 ^ 8"
    using assms(1)
    by (simp add: log_sane_def max_event_buffer_entries_def max_event_log_size_def
        split: log_limit.split)
  ultimately show ?thesis
    unfolding stop_record_def stop_marker_room_def
    by (intro stop_record_bytes assms(2))
qed

lemma is_stop_marker_make_record:
  "is_stop_marker (make_record s ts p) = is_stop_marker (make_record 0 [] p)"
  by (simp add: is_stop_marker_def)

lemma has_exit_store: "has_exit (store r l) \<longleftrightarrow> has_exit l \<or> is_exit (ev_payload r)"
  by (auto simp: has_exit_def)

lemma tail_ok_stop_fits:
  assumes "log_sane l" "tail_ok l" "clock_text ts" "\<not> el_poisoned l" "\<not> has_exit l" "\<not> el_stopped l"
  shows "fits l (stop_record l reason ts)"
  using assms stop_record_room [OF assms(1,3), of reason]
  by (simp add: tail_ok_def fits_def tail_reserve_bytes_def tail_reserve_entries_def
      stop_marker_room_def)

lemma tail_ok_store_ordinary:
  assumes "tail_ok l" and "\<not> el_stopped l" and "\<not> is_exit p"
    and "find_stop_reason l p (record_bytes r) = None"
    and "\<not> is_stop_marker r"
  shows "tail_ok (store r l)"
proof -
  from assms(3,4) have "el_file_bytes l + record_bytes r + tail_reserve_bytes \<le> el_max_bytes l"
    and "length (el_buffer l) + 1 + tail_reserve_entries \<le> el_max_entries l"
    by (auto simp: find_stop_reason_def Let_def split: if_splits)
  with assms(1,2,5) show ?thesis
    by (auto simp: tail_ok_def has_exit_store find_event_log_stop_snoc)
qed

lemma tail_ok_store_stop:
  assumes "log_sane l" "tail_ok l" "clock_text ts" "\<not> el_stopped l"
  shows "tail_ok (store (stop_record l reason ts) (l\<lparr>el_stopped := True\<rparr>))"
proof -
  have "find_event_log_stop (el_buffer l @ [stop_record l reason ts]) \<noteq> None"
    by (auto simp: find_event_log_stop_snoc stop_record_is_marker split: option.split)
  with assms stop_record_room [OF assms(1,3), of reason] show ?thesis
    by (auto simp: tail_ok_def has_exit_def tail_reserve_entries_def)
qed

lemma tail_ok_effect:
  assumes "log_sane l" "tail_ok l" "clock_text tsStop"
    and "\<not> is_stop_marker (make_record 0 [] p)"
  shows "tail_ok (effect_state (append_effect l p ts tsStop) l p ts tsStop)"
proof (cases "append_effect l p ts tsStop")
  case Stored
  let ?r = "make_record (el_next_seq l) ts p"
  show ?thesis
  proof (cases "is_exit p")
    case True
    then have "has_exit (store ?r l)" by (simp add: has_exit_store)
    then show ?thesis using Stored by (simp add: tail_ok_def)
  next
    case False
    with Stored have "\<not> el_stopped l" "find_stop_reason l p (record_bytes ?r) = None"
      by (auto simp: append_effect_def split: if_splits option.splits)
    then have "tail_ok (store ?r l)"
      using assms(2,4) False
      by (intro tail_ok_store_ordinary) (simp_all add: is_stop_marker_make_record [of "el_next_seq l"])
    with Stored show ?thesis by simp
  qed
next
  case Ignored
  with assms show ?thesis by simp
next
  case (StoppedSilently reason)
  then have ns: "\<not> el_stopped l" and nf: "\<not> fits l (stop_record l reason tsStop)"
    by (auto simp: append_effect_def split: if_splits option.splits)
  with assms tail_ok_stop_fits have "el_poisoned l \<or> has_exit l" by blast
  with StoppedSilently show ?thesis by (auto simp: tail_ok_def has_exit_def)
next
  case (StoppedWithMarker reason)
  then have "\<not> el_stopped l"
    by (auto simp: append_effect_def split: if_splits option.splits)
  with assms StoppedWithMarker show ?thesis by (simp add: tail_ok_store_stop)
qed

lemma settle_write_landed:
  "\<not> el_poisoned (settle_write w l) \<Longrightarrow> el_queue l \<noteq> [] \<Longrightarrow>
     \<not> el_poisoned l \<and> w = Landed \<and> el_buffer (settle_write w l) = el_buffer l
     \<and> el_file_bytes (settle_write w l) = el_file_bytes l
     \<and> el_max_bytes (settle_write w l) = el_max_bytes l
     \<and> el_max_entries (settle_write w l) = el_max_entries l
     \<and> el_stopped (settle_write w l) = el_stopped l"
  by (auto simp: settle_write_def rollback_buffered_events_from_def neq_Nil_conv
      split: write_outcome.splits if_splits)

lemma tail_ok_settle: "tail_ok l \<Longrightarrow> tail_ok (settle_write w l)"
proof (cases "el_poisoned (settle_write w l)")
  case False
  assume "tail_ok l"
  then show ?thesis
  proof (cases "el_queue l")
    case (Cons e q)
    then have "el_queue l \<noteq> []" by simp
    note landed = settle_write_landed [OF False this]
    from landed \<open>tail_ok l\<close> show ?thesis
      unfolding tail_ok_def has_exit_def by (cases "el_stopped l") (auto simp: landed)
  qed (simp add: settle_write_def)
qed (simp add: tail_ok_def)

section \<open>Runs of a log\<close>

inductive log_step :: "event_log \<Rightarrow> event_log \<Rightarrow> bool" where
  step_append: "append_log l p ts tsStop = Inr (s, l') \<Longrightarrow> clock_text tsStop \<Longrightarrow> log_step l l'"
| step_settle: "outcome_ok w l \<Longrightarrow> log_step l (settle_write w l)"
| step_close: "el_queue l = [] \<Longrightarrow> close_log l = Inr l' \<Longrightarrow> log_step l l'"

inductive_cases log_stepE: "log_step l l'"

inductive log_reach :: "event_log \<Rightarrow> event_log \<Rightarrow> bool" for l0 where
  reach_start: "log_reach l0 l0"
| reach_step: "log_reach l0 l \<Longrightarrow> log_step l l' \<Longrightarrow> log_reach l0 l'"

definition fresh_log :: "nat \<Rightarrow> nat \<Rightarrow> event_log" where
  \<comment> \<open>What \<open>open\<close> makes of a file that does not exist yet.\<close>
  "fresh_log maxBytes maxEntries =
     \<lparr>el_buffer = [], el_next_seq = 0, el_file_bytes = 0, el_max_bytes = maxBytes,
      el_max_entries = maxEntries, el_stopped = False, el_closed = False, el_queue = [],
      el_poisoned = False, el_file = []\<rparr>"

definition limits_ok :: "nat \<Rightarrow> nat \<Rightarrow> bool" where
  "limits_ok maxBytes maxEntries \<longleftrightarrow>
     tail_reserve_bytes < maxBytes \<and> maxBytes \<le> max_event_log_size
     \<and> tail_reserve_entries < maxEntries \<and> maxEntries \<le> max_event_buffer_entries"

lemma open_log_fresh:
  "limits_ok maxBytes maxEntries \<Longrightarrow> filePath \<noteq> [] \<Longrightarrow>
     open_log parse filePath 0 content (Some maxBytes) (Some maxEntries) = Inr (fresh_log maxBytes maxEntries)"
  by (auto simp: open_log_def limits_ok_def fresh_log_def construct_log_def derive_next_seq_def
      assert_event_log_size_def find_event_log_stop_def max_event_log_size_def)

lemma log_sane_fresh: "limits_ok maxBytes maxEntries \<Longrightarrow> log_sane (fresh_log maxBytes maxEntries)"
  by (simp add: log_sane_def fresh_log_def limits_ok_def contiguous_def file_size_def queued_bytes_def)

lemma tail_ok_fresh: "limits_ok maxBytes maxEntries \<Longrightarrow> tail_ok (fresh_log maxBytes maxEntries)"
  by (simp add: tail_ok_def fresh_log_def limits_ok_def find_event_log_stop_def)

lemma file_follows_buffer_fresh: "file_follows_buffer [] 0 (fresh_log maxBytes maxEntries)"
  by (simp add: file_follows_buffer_def fresh_log_def)

lemma log_step_sane:
  assumes "log_step l l'" and "log_sane l"
  shows "log_sane l'"
  using assms(1)
proof cases
  case (step_append p ts tsStop s)
  then have "queue_append l p ts tsStop = Inr (s, l')" by (simp add: append_log_Inr)
  from queue_append_Inr [OF this] assms(2) show ?thesis
    using log_sane_effect [OF assms(2)] by (simp add: log_sane_def)
next
  case (step_settle w)
  then show ?thesis using assms(2) log_sane_settle by simp
next
  case step_close
  then show ?thesis using assms(2)
    by (auto simp: close_log_def res_simps log_sane_def file_size_def queued_bytes_def split: if_splits)
qed

lemma log_step_follows:
  assumes "log_step l l'" and "log_sane l" and "file_follows_buffer base j l"
  shows "file_follows_buffer base j l'"
  using assms(1)
proof cases
  case (step_append p ts tsStop s)
  then have "queue_append l p ts tsStop = Inr (s, l')" by (simp add: append_log_Inr)
  from queue_append_Inr [OF this] assms(2) show ?thesis
    using file_follows_buffer_effect [OF assms(2,3)] by (simp add: log_sane_def)
next
  case (step_settle w)
  then show ?thesis using assms(2,3) file_follows_buffer_settle by simp
next
  case step_close
  then show ?thesis using assms(3)
    by (auto simp: close_log_def res_simps file_follows_buffer_def split: if_splits)
qed

lemma log_step_tail:
  assumes "log_step l l'" and "log_sane l" and "tail_ok l"
  shows "tail_ok l'"
  using assms(1)
proof cases
  case (step_append p ts tsStop s)
  then have q: "queue_append l p ts tsStop = Inr (s, l')"
    and "\<not> is_stop_marker (make_record 0 [] p)"
    by (simp_all add: append_log_Inr)
  with queue_append_Inr [OF q] tail_ok_effect [OF assms(2,3) step_append(2), of p ts] assms(2)
  show ?thesis by (simp add: log_sane_def)
next
  case (step_settle w)
  then show ?thesis using assms(3) tail_ok_settle by simp
next
  case step_close
  then show ?thesis using assms(3)
    by (auto simp: close_log_def res_simps tail_ok_def has_exit_def split: if_splits)
qed

lemma log_reach_sane: "log_reach l0 l \<Longrightarrow> log_sane l0 \<Longrightarrow> log_sane l"
  by (induction rule: log_reach.induct) (blast intro: log_step_sane)+

lemma log_reach_follows:
  assumes "log_reach l0 l" and "log_sane l0" and "file_follows_buffer base j l0"
  shows "file_follows_buffer base j l"
  using assms
proof (induction rule: log_reach.induct)
  case (reach_step l l')
  then show ?case using log_step_follows log_reach_sane by blast
qed simp

lemma log_reach_tail:
  assumes "log_reach l0 l" and "log_sane l0" and "tail_ok l0"
  shows "tail_ok l"
  using assms
proof (induction rule: log_reach.induct)
  case (reach_step l l')
  then show ?case using log_step_tail log_reach_sane by blast
qed simp

lemma effect_state_limits:
  "el_max_bytes (effect_state e l p ts tsStop) = el_max_bytes l"
  "el_max_entries (effect_state e l p ts tsStop) = el_max_entries l"
  by (cases e; simp)+

lemma log_step_limits:
  "log_step l l' \<Longrightarrow> log_sane l \<Longrightarrow>
     el_max_bytes l' = el_max_bytes l \<and> el_max_entries l' = el_max_entries l"
proof (erule log_stepE)
  fix p ts tsStop s
  assume "log_sane l" and "append_log l p ts tsStop = Inr (s, l')"
  then show ?thesis
    using queue_append_Inr [of l p ts tsStop s l']
    by (simp add: append_log_Inr log_sane_def effect_state_limits)
qed (auto simp: settle_write_def rollback_buffered_events_from_def close_log_def res_simps
    split: list.split write_outcome.split if_splits)

lemma log_reach_limits:
  assumes "log_reach l0 l" and "log_sane l0"
  shows "el_max_bytes l = el_max_bytes l0 \<and> el_max_entries l = el_max_entries l0"
  using assms
proof (induction rule: log_reach.induct)
  case (reach_step l l')
  then show ?case using log_step_limits [OF reach_step.hyps(2)] log_reach_sane by metis
qed simp

section \<open>The log as an appender\<close>

lemma effect_state_hist:
  "\<exists>rs. el_buffer (effect_state e l p ts tsStop) = el_buffer l @ rs \<and> length rs \<le> 1
     \<and> (\<forall>r \<in> set rs. ev_payload r = p \<or> is_stop_marker r)"
  by (cases e) (auto simp: stop_record_is_marker)

lemma append_log_appender:
  assumes "log_sane l" and "append_log l p ts tsStop = Inr (q, l')"
  shows "log_sane l'" and "Suc q = length (el_buffer l')"
    and "\<exists>rs. el_buffer l' = el_buffer l @ rs \<and> length rs \<le> 1
           \<and> (\<forall>r \<in> set rs. ev_payload r = p \<or> is_stop_marker r)"
proof -
  have "queue_append l p ts tsStop = Inr (q, l')" using assms(2) by (simp add: append_log_Inr)
  from queue_append_Inr [OF this] assms(1)
  have l': "l' = effect_state (append_effect l p ts tsStop) l p ts tsStop"
    and q: "0 < el_next_seq l'" "q = el_next_seq l' - 1"
    by (auto simp: log_sane_def)
  show sane: "log_sane l'" using l' log_sane_effect [OF assms(1)] by simp
  then show "Suc q = length (el_buffer l')" using q by (simp add: log_sane_def)
  show "\<exists>rs. el_buffer l' = el_buffer l @ rs \<and> length rs \<le> 1
           \<and> (\<forall>r \<in> set rs. ev_payload r = p \<or> is_stop_marker r)"
    unfolding l' by (rule effect_state_hist)
qed

interpretation elog: event_appender "\<lambda>l p. append_log l p ts tsStop" el_buffer log_sane
  for ts tsStop
proof unfold_locales
  fix l :: event_log and p q l'
  assume sane: "log_sane l" and app: "append_log l p ts tsStop = Inr (q, l')"
  show "log_sane l'" by (rule append_log_appender(1) [OF sane app])
  show "Suc q = length (el_buffer l')" by (rule append_log_appender(2) [OF sane app])
  show "\<exists>rs. el_buffer l' = el_buffer l @ rs \<and> length rs \<le> 1
          \<and> (\<forall>r \<in> set rs. ev_payload r = p \<or> is_stop_marker r)"
    by (rule append_log_appender(3) [OF sane app])
qed (simp add: log_sane_def)

section \<open>Opening a log\<close>

lemma open_log_Inr:
  "open_log parse path n content mb me = Inr l0 \<Longrightarrow>
     path \<noteq> [] \<and> n \<le> max_event_log_size \<and> contiguous (el_buffer l0)
     \<and> el_next_seq l0 = length (el_buffer l0) \<and> el_file_bytes l0 = n
     \<and> tail_reserve_bytes < el_max_bytes l0 \<and> el_max_bytes l0 \<le> max_event_log_size
     \<and> tail_reserve_entries < el_max_entries l0 \<and> el_max_entries l0 \<le> max_event_buffer_entries
     \<and> el_stopped l0 = (find_event_log_stop (el_buffer l0) \<noteq> None) \<and> \<not> el_closed l0
     \<and> el_queue l0 = [] \<and> \<not> el_poisoned l0 \<and> el_file l0 = (if n = 0 then [] else [content])
     \<and> (if 0 < n then parse_event_log_content parse content = Inr (el_buffer l0)
        else el_buffer l0 = [])"
  by (auto simp: open_log_def construct_log_def res_simps Let_def assert_event_log_size_def
      parse_event_log_content_Inr contiguous_def split: if_splits option.splits)

lemma log_sane_open:
  assumes "open_log parse path (utf8_length content) content mb me = Inr l0"
    and "utf8_length content \<le> el_max_bytes l0" and "length (el_buffer l0) \<le> el_max_entries l0"
  shows "log_sane l0"
  using open_log_Inr [OF assms(1)] assms(2,3)
  by (auto simp: log_sane_def file_size_def queued_bytes_def)

lemma file_follows_buffer_open:
  assumes "open_log parse path (utf8_length content) content mb me = Inr l0"
  shows "file_follows_buffer (el_file l0) (length (el_buffer l0)) l0"
    and "concat (el_file l0) = content"
  using open_log_Inr [OF assms] utf8_length_ge [of content] utf8_length_pos [of content]
  by (auto simp: file_follows_buffer_def)

lemma fresh_is_opened:
  "limits_ok mb me \<Longrightarrow> open_log parse [120] (utf8_length []) [] (Some mb) (Some me) = Inr (fresh_log mb me)"
  using open_log_fresh [of mb me "[120]" parse "[]"] by simp

section \<open>Reading a written log\<close>

lemma stringify_record_ends:
  "\<exists>m. stringify (json_of_record r) = 123 # m @ [125]"
  by (simp add: json_of_record_def)

lemma trim_record_text: "trim (stringify (json_of_record r)) = stringify (json_of_record r)"
  using stringify_record_ends [of r] by (auto intro!: trim_id simp: is_js_space_def)

lemma split_record_lines:
  "split_on 10 (concat (map record_line rs)) = map (\<lambda>r. stringify (json_of_record r)) rs @ [[]]"
  by (induction rs) (simp_all add: record_line_def split_on_append_sep stringify_no_newline)

lemma content_lines_records:
  "content_lines (concat (map record_line rs)) = map (\<lambda>r. stringify (json_of_record r)) rs"
proof -
  have "stringify (json_of_record r) \<noteq> []" for r using stringify_record_ends [of r] by auto
  moreover have "trim [] = []" by (simp add: trim_def)
  ultimately show ?thesis
    by (simp add: content_lines_def split_record_lines comp_def trim_record_text filter_id_conv)
qed

lemma parse_record_lines:
  "\<forall>r \<in> set rs. parse (stringify (json_of_record r)) = Parsed r \<Longrightarrow>
     parse_lines parse i (map (\<lambda>r. stringify (json_of_record r)) rs) = Inr rs"
  by (induction rs arbitrary: i) (simp_all add: parse_event_log_line_def)

text \<open>The log that the examples use: smallest limits, one record.\<close>

definition example_log :: event_log where
  "example_log = store (make_record 0 (js ''2024'') (Output (js ''hi''))) (fresh_log 5000 5)"

lemma record_bytes_example:
  "record_bytes (make_record 0 (js ''2024'') (Output (js ''hi''))) = 62"
  by (simp add: record_bytes_def record_line_def json_of_record_def make_record_def quote_def
      quote_unit_def is_high_surrogate_def is_low_surrogate_def int_digits_def nat_digits.simps js_eval)

lemma append_example:
  "append_log (fresh_log 5000 5) (Output (js ''hi'')) (js ''2024'') (js ''2024'') = Inr (0, example_log)"
proof -
  have "append_effect (fresh_log 5000 5) (Output (js ''hi'')) (js ''2024'') (js ''2024'') = Stored"
    by (simp add: append_effect_def find_stop_reason_def record_bytes_example fresh_log_def
        tail_reserve_bytes_def tail_reserve_entries_def)
  then show ?thesis
    using queue_append_effect [of "fresh_log 5000 5" "Output (js ''hi'')" "js ''2024''" "js ''2024''"]
    by (simp add: append_log_def example_log_def fresh_log_def)
qed

lemma reach_example: "log_reach (fresh_log 5000 5) example_log"
  using reach_step [OF reach_start step_append [OF append_example]]
  by (simp add: clock_text_def js_eval)

lemma limits_example: "limits_ok 5000 5"
  by (simp add: limits_ok_def tail_reserve_bytes_def tail_reserve_entries_def
      max_event_log_size_def max_event_buffer_entries_def)

lemma example_sel [simp]:
  "el_buffer example_log = [make_record 0 (js ''2024'') (Output (js ''hi''))]"
  "el_closed example_log = False" "el_poisoned example_log = False"
  "el_stopped example_log = False"
  by (simp_all add: example_log_def fresh_log_def)

section \<open>Properties\<close>

text \<open>C3: a log that was opened on a good file, whatever it is asked to append and however its
  writes end, keeps records numbered 0, 1, 2 and so on, and never passes either limit, in the
  buffer or on disk.\<close>

theorem log_history_sound:
  assumes "open_log parse path (utf8_length content) content mb me = Inr l0"
    and "utf8_length content \<le> el_max_bytes l0" and "length (el_buffer l0) \<le> el_max_entries l0"
    and "log_reach l0 l"
  shows "contiguous (get_events l) \<and> el_next_seq l = length (get_events l)
    \<and> length (get_events l) \<le> el_max_entries l0 \<and> file_size l \<le> el_max_bytes l0"
proof -
  have "log_sane l0" by (rule log_sane_open [OF assms(1-3)])
  with assms(4) have "log_sane l"
    and "el_max_bytes l = el_max_bytes l0 \<and> el_max_entries l = el_max_entries l0"
    by (auto simp: log_reach_sane log_reach_limits)
  then show ?thesis by (auto simp: log_sane_def get_events_def)
qed

lemma log_history_sound_witness:
  "file_size example_log \<le> 5000 \<and> contiguous (get_events example_log)"
  using log_history_sound [OF fresh_is_opened [OF limits_example] _ _ reach_example]
  by (simp add: fresh_log_def)



lemma append_log_answers:
  fixes l p ts tsStop
  assumes sane: "log_sane l" and tail: "tail_ok l" and "\<not> el_poisoned l" and "\<not> el_closed l"
    and "valid_payload p" and "\<not> is_stop_marker (make_record 0 [] p)" and "clock_text tsStop"
  defines "l' \<equiv> effect_state (append_effect l p ts tsStop) l p ts tsStop"
  shows "append_log l p ts tsStop = Inr (el_next_seq l' - 1, l')"
proof -
  have next_seq: "el_next_seq l = length (el_buffer l)" using sane by (simp add: log_sane_def)
  have held: "0 < el_next_seq l" if "el_stopped l \<or> has_exit l"
    using that tail assms(3) next_seq
    by (auto simp: tail_ok_def has_exit_def find_event_log_stop_def)
  have "0 < el_next_seq l'"
  proof (cases "append_effect l p ts tsStop")
    case Ignored
    then have "el_stopped l" by (auto simp: append_effect_def split: if_splits option.splits)
    with held Ignored show ?thesis by (simp add: l'_def)
  next
    case (StoppedSilently reason)
    then have "\<not> el_stopped l" "\<not> fits l (stop_record l reason tsStop)"
      by (auto simp: append_effect_def split: if_splits option.splits)
    with tail_ok_stop_fits [OF sane tail assms(7,3)] have "has_exit l" by blast
    with held StoppedSilently show ?thesis by (simp add: l'_def)
  qed (simp_all add: l'_def)
  with queue_append_effect [OF next_seq assms(4,5), of ts tsStop]
  show ?thesis using assms(6) by (simp add: append_log_Inr l'_def)
qed

text \<open>An open log never refuses a valid record whose label is not reserved. It returns the
  number of the last record it holds, adds at most one record, which is the given one or the stop
  marker, and once it has stopped it changes nothing unless the record is the exit.\<close>

theorem append_always_answers:
  assumes "limits_ok mb me" and "log_reach (fresh_log mb me) l" and "\<not> el_poisoned l"
    and "\<not> el_closed l" and "valid_payload p" and "\<not> is_stop_marker (make_record 0 [] p)"
    and "clock_text tsStop"
  shows "\<exists>q l'. append_log l p ts tsStop = Inr (q, l')
    \<and> q = ev_seq (last (get_events l'))
    \<and> (get_events l' = get_events l
       \<or> (\<exists>r. get_events l' = get_events l @ [r] \<and> (ev_payload r = p \<or> is_stop_marker r)))
    \<and> (el_stopped l \<and> \<not> is_exit p \<longrightarrow> l' = l)"
proof -
  have sane: "log_sane l" and tail: "tail_ok l"
    using assms(1,2) log_reach_sane log_reach_tail log_sane_fresh tail_ok_fresh by blast+
  let ?l' = "effect_state (append_effect l p ts tsStop) l p ts tsStop"
  have app: "append_log l p ts tsStop = Inr (el_next_seq ?l' - 1, ?l')"
    by (rule append_log_answers [OF sane tail assms(3-7)])
  from elog.app_last [OF sane app] have "el_next_seq ?l' - 1 = ev_seq (last (get_events ?l'))"
    by (simp add: get_events_def)
  moreover from elog.app_stores [OF sane app]
  have "get_events ?l' = get_events l
       \<or> (\<exists>r. get_events ?l' = get_events l @ [r] \<and> (ev_payload r = p \<or> is_stop_marker r))"
    by (auto simp: get_events_def le_Suc_eq length_Suc_conv)
  ultimately show ?thesis using app by (auto simp: append_effect_def)
qed

lemma append_always_answers_witness:
  "\<exists>q l'. append_log example_log (Output [7]) (js ''2024'') (js ''2024'') = Inr (q, l')
     \<and> q = ev_seq (last (get_events l'))"
  using append_always_answers [OF limits_example reach_example, of "Output [7]" "js ''2024''" "js ''2024''"]
  by (auto simp: is_stop_marker_def make_record_def clock_text_def js_eval)

text \<open>C18: the reserve at the tail works. However full the log is, and whether or not it has stopped,
  the first exit record of at most 3,840 bytes is stored.\<close>

theorem exit_always_recorded:
  assumes "limits_ok mb me" and "log_reach (fresh_log mb me) l" and "\<not> el_poisoned l"
    and "\<not> el_closed l" and "\<not> has_exit l"
    and "record_bytes (make_record (el_next_seq l) ts (Exit code signal)) \<le> 3840"
  shows "append_log l (Exit code signal) ts tsStop =
    Inr (el_next_seq l, store (make_record (el_next_seq l) ts (Exit code signal)) l)"
proof -
  have sane: "log_sane l" and tail: "tail_ok l"
    using assms(1,2) log_reach_sane log_reach_tail log_sane_fresh tail_ok_fresh by blast+
  have "find_stop_reason l (Exit code signal)
      (record_bytes (make_record (el_next_seq l) ts (Exit code signal))) = None"
    using tail assms(3,5,6)
    by (auto simp: find_stop_reason_def tail_ok_def tail_reserve_bytes_def
        tail_reserve_entries_def stop_marker_room_def split: if_splits)
  then have "append_effect l (Exit code signal) ts tsStop = Stored"
    by (simp add: append_effect_def)
  with queue_append_effect [of l "Exit code signal" ts tsStop] sane assms(4) show ?thesis
    by (simp add: append_log_def log_sane_def)
qed

lemma exit_always_recorded_witness:
  "append_log example_log (Exit (Some 0) None) (js ''2024'') (js ''2024'') =
     Inr (1, store (make_record 1 (js ''2024'') (Exit (Some 0) None)) example_log)"
proof -
  have "record_bytes (make_record 1 (js ''2024'') (Exit (Some 0) None)) \<le> 3840"
    by (simp add: record_bytes_def record_line_def json_of_record_def make_record_def quote_def
        quote_unit_def is_high_surrogate_def is_low_surrogate_def int_digits_def nat_digits.simps
        nullable_def js_eval)
  moreover have "el_next_seq example_log = 1" by (simp add: example_log_def fresh_log_def)
  ultimately show ?thesis
    using exit_always_recorded [OF limits_example reach_example, of "js ''2024''" "Some 0" None]
    by (simp add: has_exit_def)
qed

text \<open>until the exit is recorded, a log has stopped exactly when its history holds the stop
  marker, so a reopened log and a reader of the file see what the host knew.\<close>

theorem stopped_iff_marker:
  assumes "limits_ok mb me" and "log_reach (fresh_log mb me) l" and "\<not> el_poisoned l"
    and "\<not> has_exit l"
  shows "el_stopped l \<longleftrightarrow> get_stop l \<noteq> None"
proof -
  have "tail_ok l"
    using assms(1,2) log_reach_tail log_sane_fresh tail_ok_fresh by blast
  with assms(3,4) show ?thesis by (cases "el_stopped l") (auto simp: tail_ok_def get_stop_def)
qed

lemma stopped_iff_marker_witness: "get_stop example_log = None"
  using stopped_iff_marker [OF limits_example reach_example] by (simp add: has_exit_def)

text \<open>the stop marker round-trips. Whatever follows it in the log, reading the log finds the
  record that stopped it and the limit that was reached.\<close>

theorem stop_marker_roundtrip:
  assumes "find_event_log_stop rs = None"
  shows "find_event_log_stop (rs @ stop_record l reason ts # later) =
    Some \<lparr>stop_reason = Reached reason, stop_seq = el_next_seq l\<rparr>"
proof -
  have "find is_stop_marker (rs @ stop_record l reason ts # later) = Some (stop_record l reason ts)"
    using assms by (induction rs) (auto simp: find_event_log_stop_def stop_record_is_marker split: if_splits)
  moreover have "stop_of_marker (stop_record l reason ts) =
      \<lparr>stop_reason = Reached reason, stop_seq = el_next_seq l\<rparr>"
    by (simp add: stop_of_marker_def stop_record_def marker_label_def limit_in_label_stop_label)
  ultimately show ?thesis by (simp add: find_event_log_stop_def)
qed

lemma stop_marker_roundtrip_witness:
  "find_event_log_stop [stop_record (fresh_log 5000 5) LimitEvents []] =
     Some \<lparr>stop_reason = Reached LimitEvents, stop_seq = 0\<rparr>"
  using stop_marker_roundtrip [of "[]" "fresh_log 5000 5" LimitEvents "[]" "[]"]
  by (simp add: find_event_log_stop_def fresh_log_def)

text \<open>C19: what a host has written, a later host reads back. Once the writes of a log have landed,
  opening its file again gives the same records, the same next number and the same stop, whenever
  the line parser reads back the line of each record.\<close>

theorem reopen_roundtrip:
  assumes "limits_ok mb me" and "log_reach (fresh_log mb me) l" and "\<not> el_poisoned l"
    and "el_queue l = []" and "get_events l \<noteq> []" and "path \<noteq> []"
    and "\<forall>r \<in> set (get_events l). parse (stringify (json_of_record r)) = Parsed r"
  shows "\<exists>l2. open_log parse path (file_size l) (concat (el_file l)) None None = Inr l2
    \<and> get_events l2 = get_events l \<and> el_next_seq l2 = el_next_seq l \<and> get_stop l2 = get_stop l
    \<and> el_stopped l2 = (get_stop l \<noteq> None)"
proof -
  have sane: "log_sane l" using assms(1,2) log_reach_sane log_sane_fresh by blast
  have "file_follows_buffer [] 0 l"
    using log_reach_follows [OF assms(2) log_sane_fresh [OF assms(1)] file_follows_buffer_fresh] .
  then obtain k where k: "k \<le> length (el_buffer l)" "drop k (el_buffer l) = []"
      and f: "el_file l = map record_line (take k (el_buffer l))"
    using assms(3,4) by (auto simp: file_follows_buffer_def)
  then have f: "el_file l = map record_line (el_buffer l)" by simp
  with assms(5) obtain r rs where "el_buffer l = r # rs" by (cases "el_buffer l") (auto simp: get_events_def)
  with f have pos: "0 < file_size l"
    using record_bytes_pos [of r] by (simp add: file_size_def record_bytes_def)
  have parsed: "parse_event_log_content parse (concat (el_file l)) = Inr (el_buffer l)"
    using assms(7) sane
    by (simp add: parse_event_log_content_Inr f content_lines_records parse_record_lines
        get_events_def log_sane_def)
  have small: "\<not> max_event_log_size < file_size l" using sane by (simp add: log_sane_def)
  have num: "derive_next_seq (el_buffer l) = length (el_buffer l)"
    using sane assms(5) by (auto simp: derive_next_seq_def get_events_def log_sane_def contiguous_last)
  have "\<exists>l2. open_log parse path (file_size l) (concat (el_file l)) None None = Inr l2"
    using parsed pos small num assms(5,6)
    by (simp add: open_log_def assert_event_log_size_def construct_log_def get_events_def
        max_event_log_size_def max_event_buffer_entries_def tail_reserve_bytes_def
        tail_reserve_entries_def)
  then obtain l2 where l2: "open_log parse path (file_size l) (concat (el_file l)) None None = Inr l2"
    by blast
  from open_log_Inr [OF l2] pos parsed have "el_buffer l2 = el_buffer l" by auto
  with open_log_Inr [OF l2] l2 sane show ?thesis
    by (auto simp: get_events_def get_stop_def log_sane_def)
qed

definition landed_log :: event_log where
  "landed_log = settle_write Landed example_log"

lemma reopen_roundtrip_witness:
  "\<exists>l2. open_log (\<lambda>t. Parsed (make_record 0 (js ''2024'') (Output (js ''hi'')))) [120]
      (file_size landed_log) (concat (el_file landed_log)) None None = Inr l2
    \<and> get_events l2 = [make_record 0 (js ''2024'') (Output (js ''hi''))]"
proof -
  have "log_reach (fresh_log 5000 5) landed_log"
    unfolding landed_log_def
    by (rule reach_step [OF reach_example step_settle]) (simp add: outcome_ok_def)
  moreover have "\<not> el_poisoned landed_log" and "el_queue landed_log = []"
    and "get_events landed_log = [make_record 0 (js ''2024'') (Output (js ''hi''))]"
    by (simp_all add: landed_log_def settle_write_def example_log_def fresh_log_def get_events_def)
  ultimately show ?thesis
    using reopen_roundtrip [OF limits_example, of landed_log "[120]"
        "\<lambda>t. Parsed (make_record 0 (js ''2024'') (Output (js ''hi'')))"]
    by auto
qed

end
