(* ===== verification/RunCoordinator.thy ===== *)
theory RunCoordinator
  imports EchoSanitizer EventLog
begin

text \<open>
  The coordinator of waited runs (\<open>src/host/runCompletionCoordinator.ts\<close>): it registers a run with
  the scanner and the sanitizer, passes PTY output through both to the event log, and tells the
  waiters when their runs complete.

  The appender is the argument \<open>app\<close>, as in the constructor. Random tokens are arguments. A
  promise is an entry of \<open>co_waiters\<close> and, once it has settled, of \<open>co_settled\<close>. Every operation
  returns its error, if it throws, next to the state it leaves.
\<close>

section \<open>The postamble\<close>

fun utf8_bytes :: "jstring \<Rightarrow> nat list" where
  \<comment> \<open>\<open>Buffer.from(s, 'utf8')\<close>; a lone surrogate becomes the bytes of U+FFFD.\<close>
  "utf8_bytes [] = []"
| "utf8_bytes [c] =
     (if c < 128 then [c]
      else if c < 2048 then [192 + c div 64, 128 + c mod 64]
      else if is_high_surrogate c \<or> is_low_surrogate c then [239, 191, 189]
      else [224 + c div 4096, 128 + c div 64 mod 64, 128 + c mod 64])"
| "utf8_bytes (c # d # s) =
     (if is_high_surrogate c \<and> is_low_surrogate d
      then let p = 65536 + (c - 55296) * 1024 + (d - 56320)
           in [240 + p div 262144, 128 + p div 4096 mod 64, 128 + p div 64 mod 64, 128 + p mod 64]
                @ utf8_bytes s
      else (if c < 128 then [c]
            else if c < 2048 then [192 + c div 64, 128 + c mod 64]
            else if is_high_surrogate c \<or> is_low_surrogate c then [239, 191, 189]
            else [224 + c div 4096, 128 + c div 64 mod 64, 128 + c mod 64]) @ utf8_bytes (d # s))"

definition octal_escape :: "nat \<Rightarrow> jstring" where
  \<comment> \<open>A backslash and the byte as three octal digits.\<close>
  "octal_escape b = [92, 48 + b div 64, 48 + b div 8 mod 8, 48 + b mod 8]"

definition shell_octal_escaped_bytes :: "jstring \<Rightarrow> jstring" where
  "shell_octal_escaped_bytes s = concat (map octal_escape (utf8_bytes s))"

definition postamble_echo_prefix :: jstring where
  "postamble_echo_prefix = js ''printf '' @ [39, 92, 48, 51, 51, 92, 49, 51, 55]"

definition max_postamble_echo_length :: nat where
  "max_postamble_echo_length = 64"

definition marker_payload :: "jstring \<Rightarrow> jstring" where
  \<comment> \<open>The group that \<open>RUN_MARKER_PATTERN\<close> captures.\<close>
  "marker_payload m = take 32 (drop 12 m)"

definition postamble_of :: "jstring \<Rightarrow> jstring" where
  "postamble_of sentinel = js ''printf '' @ [39] @ shell_octal_escaped_bytes sentinel @ [39]"

definition build_postamble :: "jstring \<Rightarrow> jstring \<Rightarrow> jstring res" where
  "build_postamble marker sentinel =
     assert_run_marker marker
     (check (sentinel \<noteq> []) ''sentinel must be non-empty''
     (check (length (marker_payload marker) = 32)
        ''run marker payload must be 32 lowercase hex characters''
     (let postamble = postamble_of sentinel
      in check (length postamble \<le> max_postamble_echo_length)
           ''run-completion postamble echo must stay short enough to avoid terminal wrapping''
        (check (starts_with postamble postamble_echo_prefix)
           ''run-completion postamble echo prefix must stay in sync with sanitizer''
        (check (\<not> includes_sub postamble (js ''agent-tty:run-complete:''))
           ''run-completion postamble must not echo the complete sentinel label''
        (check (\<not> includes_sub postamble (js ''__AT_MARKER_''))
           ''run-completion postamble must not echo the complete marker prefix''
        (check (\<not> includes_sub postamble (marker_payload marker))
           ''run-completion postamble must not echo the complete marker payload''
        (Inr (postamble @ [10])))))))))"

section \<open>State\<close>

record active_run =
  ar_input_run_seq :: nat
  ar_sentinel :: jstring

datatype run_wait_result = RunCompleted nat | RunExited | RunRejected js_error

record coordinator =
  co_scanner :: scanner
  co_sanitizer :: sanitizer
  co_active :: "(jstring \<times> active_run) list"
  co_waiters :: "jstring list"
  co_settled :: "(jstring \<times> run_wait_result) list"

definition new_coordinator :: coordinator where
  "new_coordinator = \<lparr>co_scanner = new_scanner, co_sanitizer = new_sanitizer, co_active = [],
     co_waiters = [], co_settled = []\<rparr>"

section \<open>Registering a run\<close>

definition prepare_waited_run :: "jstring \<Rightarrow> jstring res" where
  \<comment> \<open>The hex digits that the UUID gave.\<close>
  "prepare_waited_run hex =
     (let marker = js ''__AT_MARKER_'' @ hex @ js ''__''
      in check (is_run_marker marker)
           ''generated run marker must match expected format (__AT_MARKER_<32hex>__)'' (Inr marker))"

definition has_active_sentinel :: "coordinator \<Rightarrow> jstring \<Rightarrow> bool" where
  "has_active_sentinel co sentinel \<longleftrightarrow> list_ex (\<lambda>(m, r). ar_sentinel r = sentinel) (co_active co)"

fun pick_sentinel :: "coordinator \<Rightarrow> jstring list \<Rightarrow> jstring option res" where
  \<comment> \<open>The loop over random tokens; \<open>None\<close> when it is still running after the given ones.\<close>
  "pick_sentinel co [] = Inr None"
| "pick_sentinel co (token # tokens) =
     bind_res (build_signal_sentinel token) (\<lambda>sentinel.
       if has_active_sentinel co sentinel then pick_sentinel co tokens else Inr (Some sentinel))"

definition subscribe_run_completion :: "coordinator \<Rightarrow> jstring \<Rightarrow> coordinator res" where
  "subscribe_run_completion co marker =
     assert_run_marker marker
     (check (marker \<notin> set (co_waiters co)) ''run completion waiter must be unique per marker''
     (Inr (co\<lparr>co_waiters := co_waiters co @ [marker]\<rparr>)))"

definition register_waited_run ::
  "coordinator \<Rightarrow> nat \<Rightarrow> jstring \<Rightarrow> jstring list \<Rightarrow> ((jstring \<times> jstring) \<times> coordinator) option res" where
  \<comment> \<open>Gives the postamble and the sentinel.\<close>
  "register_waited_run co inputRunSeq marker tokens =
     assert_run_marker marker
     (check (\<not> omap_has marker (co_active co))
        ''generated run marker must be unique among active completions''
     (bind_res (pick_sentinel co tokens) (\<lambda>picked.
        case picked of
          None \<Rightarrow> Inr None
        | Some sentinel \<Rightarrow>
            bind_res (build_postamble marker sentinel) (\<lambda>postamble.
            bind_res (register_sentinel (co_scanner co) marker (Some sentinel)) (\<lambda>sn.
            bind_res (register_echo (co_sanitizer co) marker postamble) (\<lambda>sz.
            bind_res (subscribe_run_completion
                        (co\<lparr>co_active := omap_set marker
                                \<lparr>ar_input_run_seq = inputRunSeq, ar_sentinel = sentinel\<rparr> (co_active co),
                            co_scanner := sn, co_sanitizer := sz\<rparr>) marker) (\<lambda>co'.
              Inr (Some ((postamble, sentinel), co')))))))))"

definition forget_waiter :: "coordinator \<Rightarrow> jstring \<Rightarrow> coordinator" where
  \<comment> \<open>A wait that timed out or was aborted; the run stays registered.\<close>
  "forget_waiter co marker = co\<lparr>co_waiters := filter (\<lambda>m. m \<noteq> marker) (co_waiters co)\<rparr>"

definition settle_waiter :: "coordinator \<Rightarrow> jstring \<Rightarrow> run_wait_result \<Rightarrow> coordinator" where
  \<comment> \<open>\<open>#resolveRunCompletionWaiter\<close> and \<open>#rejectRunCompletionWaiter\<close>. Their assertion on the marker
     is the one that the deregistration before them has made.\<close>
  "settle_waiter co marker result =
     (if marker \<in> set (co_waiters co)
      then (forget_waiter co marker)\<lparr>co_settled := co_settled co @ [(marker, result)]\<rparr>
      else co)"

section \<open>Passing output to the log\<close>

type_synonym 's appender = "'s \<Rightarrow> payload \<Rightarrow> (nat \<times> 's) res"

definition append_output :: "'s appender \<Rightarrow> 's \<Rightarrow> jstring \<Rightarrow> 's res" where
  "append_output app s out =
     (if out = [] then Inr s else bind_res (app s (Output out)) (\<lambda>(q, s'). Inr s'))"

definition complete_run ::
  "'s appender \<Rightarrow> coordinator \<Rightarrow> 's \<Rightarrow> jstring \<Rightarrow> active_run \<Rightarrow> coordinator \<times> 's \<times> js_error option" where
  \<comment> \<open>The body of the \<open>try\<close> for a completion, with its \<open>catch\<close>.\<close>
  "complete_run app co s marker run =
     (case deregister_echo (co_sanitizer co) marker of
        Inl e \<Rightarrow> (settle_waiter co marker (RunRejected e), s, Some e)
      | Inr (trailing, sz) \<Rightarrow>
          let co1 = co\<lparr>co_sanitizer := sz\<rparr>
          in case append_output app s trailing of
               Inl e \<Rightarrow> (settle_waiter co1 marker (RunRejected e), s, Some e)
             | Inr s1 \<Rightarrow>
                 (case app s1 (RunComplete marker (Some (int (ar_input_run_seq run)))) of
                    Inl e \<Rightarrow> (settle_waiter co1 marker (RunRejected e), s1, Some e)
                  | Inr (q, s2) \<Rightarrow>
                      (settle_waiter (co1\<lparr>co_active := omap_delete marker (co_active co1)\<rparr>)
                         marker (RunCompleted q), s2, None)))"

fun append_piece ::
  "'s appender \<Rightarrow> coordinator \<Rightarrow> 's \<Rightarrow> sentinel_piece \<Rightarrow> coordinator \<times> 's \<times> js_error option" where
  "append_piece app co s (PieceOutput d) =
     (case sanitizer_feed (co_sanitizer co) d of
        Inl e \<Rightarrow> (co, s, Some e)
      | Inr (out, sz) \<Rightarrow>
          let co1 = co\<lparr>co_sanitizer := sz\<rparr>
          in case append_output app s out of
               Inl e \<Rightarrow> (co1, s, Some e)
             | Inr s1 \<Rightarrow> (co1, s1, None))"
| "append_piece app co s (PieceComplete marker) =
     (case map_of (co_active co) marker of
        None \<Rightarrow> (co, s, Some (Assertion (js
          ''run-completion sentinel must correspond to an active run marker'')))
      | Some run \<Rightarrow>
          if ar_sentinel run = []
          then (co, s, Some (Assertion (js ''active run-completion sentinel must be non-empty'')))
          else complete_run app co s marker run)"

fun append_pieces ::
  "'s appender \<Rightarrow> coordinator \<Rightarrow> 's \<Rightarrow> sentinel_piece list \<Rightarrow> coordinator \<times> 's \<times> js_error option" where
  "append_pieces app co s [] = (co, s, None)"
| "append_pieces app co s (p # ps) =
     (case append_piece app co s p of
        (co1, s1, Some e) \<Rightarrow> (co1, s1, Some e)
      | (co1, s1, None) \<Rightarrow> append_pieces app co1 s1 ps)"

definition ingest_pty_data ::
  "'s appender \<Rightarrow> coordinator \<Rightarrow> 's \<Rightarrow> jstring \<Rightarrow> coordinator \<times> 's \<times> js_error option" where
  "ingest_pty_data app co s data =
     (case scanner_feed (co_scanner co) data of
        Inl e \<Rightarrow> (co, s, Some e)
      | Inr (ps, sn) \<Rightarrow> append_pieces app (co\<lparr>co_scanner := sn\<rparr>) s ps)"

definition append_flushed_echo_output ::
  "'s appender \<Rightarrow> coordinator \<Rightarrow> 's \<Rightarrow> coordinator \<times> 's \<times> js_error option" where
  "append_flushed_echo_output app co s =
     (case sanitizer_flush (co_sanitizer co) of
        Inl e \<Rightarrow> (co, s, Some e)
      | Inr (out, sz) \<Rightarrow>
          (case append_output app s out of
             Inl e \<Rightarrow> (co\<lparr>co_sanitizer := sz\<rparr>, s, Some e)
           | Inr s1 \<Rightarrow> (co\<lparr>co_sanitizer := sz\<rparr>, s1, None)))"

definition flush_pty_data_on_exit ::
  "'s appender \<Rightarrow> coordinator \<Rightarrow> 's \<Rightarrow> coordinator \<times> 's \<times> js_error option" where
  "flush_pty_data_on_exit app co s =
     (case scanner_flush (co_scanner co) of
        Inl e \<Rightarrow> (co, s, Some e)
      | Inr (ps, sn) \<Rightarrow>
          (case append_pieces app (co\<lparr>co_scanner := sn\<rparr>) s ps of
             (co1, s1, Some e) \<Rightarrow> (co1, s1, Some e)
           | (co1, s1, None) \<Rightarrow> append_flushed_echo_output app co1 s1))"

definition reset_for_exit :: "coordinator \<Rightarrow> coordinator" where
  "reset_for_exit co =
     \<lparr>co_scanner = new_scanner, co_sanitizer = new_sanitizer, co_active = [], co_waiters = [],
      co_settled = co_settled co @ map (\<lambda>m. (m, RunExited)) (co_waiters co)\<rparr>"

section \<open>The postamble is one the sanitizer expects\<close>

lemma octal_digit: "48 \<le> 48 + n mod 8 \<and> 48 + n mod (8::nat) \<le> 55"
  by (simp add: less_Suc_eq_le [symmetric])

lemma utf8_bytes_ascii: "list_all (\<lambda>c. c < 128) s \<Longrightarrow> utf8_bytes s = s"
  by (induction s rule: utf8_bytes.induct) (auto simp: is_high_surrogate_def)

definition postamble_unit :: "code_unit \<Rightarrow> bool" where
  \<comment> \<open>The units of \<open>printf\<close>, a space, quotes, backslashes and octal digits.\<close>
  "postamble_unit c \<longleftrightarrow> c \<in> {112, 114, 105, 110, 116, 102, 32, 39, 92} \<or> (48 \<le> c \<and> c \<le> 55)"

lemma octal_escape_units: "b < 256 \<Longrightarrow> list_all postamble_unit (octal_escape b)"
proof -
  assume "b < 256"
  then have "b div 64 \<le> 3" by (simp add: less_eq_div_iff_mult_less_eq)
  with octal_digit [of "b div 8"] octal_digit [of b] show ?thesis
    by (simp add: octal_escape_def postamble_unit_def)
qed

lemma sentinel_bytes:
  assumes "build_signal_sentinel token = Inr sentinel"
  shows "list_all (\<lambda>c. c < 128) sentinel" and "utf8_bytes sentinel = sentinel"
proof -
  have "list_all (\<lambda>c. c < 128) token"
    using assms
    by (auto simp: build_signal_sentinel_Inr is_signal_token_def list_all_iff is_token_unit_def is_digit_def)
  with assms show "list_all (\<lambda>c. c < 128) sentinel"
    by (simp add: build_signal_sentinel_Inr short_sentinel_prefix_def run_complete_suffix_def js_eval)
  then show "utf8_bytes sentinel = sentinel" by (rule utf8_bytes_ascii)
qed

lemma postamble_units:
  assumes "build_signal_sentinel token = Inr sentinel"
  shows "list_all postamble_unit (postamble_of sentinel)"
proof -
  have "list_all postamble_unit (octal_escape b)" if "b \<in> set sentinel" for b
    using sentinel_bytes(1) [OF assms] that by (intro octal_escape_units) (auto simp: list_all_iff)
  then have "list_all postamble_unit (shell_octal_escaped_bytes sentinel)"
    by (auto simp: shell_octal_escaped_bytes_def sentinel_bytes(2) [OF assms] list_all_iff)
  then show ?thesis by (simp add: postamble_of_def js_eval postamble_unit_def)
qed

lemma postamble_shape:
  assumes "build_signal_sentinel token = Inr sentinel"
  shows "length (postamble_of sentinel) = 57" and "starts_with (postamble_of sentinel) postamble_echo_prefix"
    and "postamble_of sentinel ! 28 = 92"
proof -
  have "length token = 6" and s: "sentinel = short_sentinel_prefix @ token @ run_complete_suffix"
    using assms by (auto simp: build_signal_sentinel_Inr is_signal_token_def)
  then obtain a b c d e f where t: "token = [a, b, c, d, e, f]"
    by (auto simp: length_Suc_conv eval_nat_numeral)
  have eq: "postamble_of sentinel = js ''printf '' @ [39] @ concat (map octal_escape sentinel) @ [39]"
    by (simp add: postamble_of_def shell_octal_escaped_bytes_def sentinel_bytes(2) [OF assms])
  show "length (postamble_of sentinel) = 57" "starts_with (postamble_of sentinel) postamble_echo_prefix"
      "postamble_of sentinel ! 28 = 92"
    unfolding eq unfolding s t
    by (simp_all add: short_sentinel_prefix_def run_complete_suffix_def octal_escape_def
        postamble_echo_prefix_def starts_with_def js_eval)
qed

lemma postamble_excludes:
  assumes "build_signal_sentinel token = Inr sentinel" and "w \<noteq> []" and "\<not> list_all postamble_unit w"
  shows "\<not> includes_sub (postamble_of sentinel) w"
  using postamble_units [OF assms(1)] assms(3) by (auto simp: includes_sub_iff)

text \<open>Every 32 units of the postamble hold the backslash at place 28, which no payload holds.\<close>

lemma postamble_excludes_payload:
  assumes "build_signal_sentinel token = Inr sentinel" and "length w = 32" and "list_all is_lower_hex w"
  shows "\<not> includes_sub (postamble_of sentinel) w"
proof
  assume "includes_sub (postamble_of sentinel) w"
  then obtain a b where eq: "postamble_of sentinel = a @ w @ b" by (auto simp: includes_sub_iff)
  then have "length (a @ w @ b) = 57" using postamble_shape(1) [OF assms(1)] by simp
  then have "length a \<le> 25" using assms(2) by simp
  then have "postamble_of sentinel ! 28 = w ! (28 - length a)" and "28 - length a < length w"
    using eq assms(2) by (auto simp: nth_append)
  with postamble_shape(3) [OF assms(1)] assms(3) have "is_lower_hex 92"
    by (metis list_all_length)
  then show False by (simp add: is_lower_hex_def is_digit_def)
qed

lemma run_marker_payload:
  assumes "is_run_marker marker"
  shows "length (marker_payload marker) = 32" and "list_all is_lower_hex (marker_payload marker)"
  using assms by (auto simp: is_run_marker_def marker_payload_def)

lemma build_postamble_ok:
  assumes "is_run_marker marker" and "build_signal_sentinel token = Inr sentinel"
  shows "build_postamble marker sentinel = Inr (postamble_of sentinel @ [10])"
    and "good_body (postamble_of sentinel)"
proof -
  have ne: "sentinel \<noteq> []" using build_signal_sentinel_frame(1) [OF assms(2)] .
  have "\<not> includes_sub (postamble_of sentinel) (js ''agent-tty:run-complete:'')"
    "\<not> includes_sub (postamble_of sentinel) (js ''__AT_MARKER_'')"
    by (rule postamble_excludes [OF assms(2)]; simp add: js_eval postamble_unit_def)+
  moreover have "\<not> includes_sub (postamble_of sentinel) (marker_payload marker)"
    using run_marker_payload [OF assms(1)] by (intro postamble_excludes_payload [OF assms(2)])
  ultimately show "build_postamble marker sentinel = Inr (postamble_of sentinel @ [10])"
    using assms(1) ne run_marker_payload(1) [OF assms(1)] postamble_shape(1,2) [OF assms(2)]
    by (simp add: build_postamble_def assert_run_marker_def Let_def
        max_postamble_echo_length_def)
  have "hd (postamble_of sentinel) = 112" by (simp add: postamble_of_def js_eval)
  moreover have "10 \<notin> set (postamble_of sentinel)" "13 \<notin> set (postamble_of sentinel)"
    "27 \<notin> set (postamble_of sentinel)"
    using postamble_units [OF assms(2)] by (auto simp: list_all_iff postamble_unit_def)
  ultimately show "good_body (postamble_of sentinel)"
    using postamble_shape(1) [OF assms(2)]
    by (simp add: good_body_def min_tolerant_echo_prefix_length_def postamble_echo_start_def)
qed

section \<open>The markers that a scan completes\<close>

fun piece_markers :: "sentinel_piece list \<Rightarrow> jstring list" where
  "piece_markers [] = []"
| "piece_markers (PieceOutput d # ps) = piece_markers ps"
| "piece_markers (PieceComplete m # ps) = m # piece_markers ps"

lemma piece_markers_append [simp]: "piece_markers (ps @ qs) = piece_markers ps @ piece_markers qs"
  by (induction ps rule: piece_markers.induct) simp_all

lemma piece_markers_push [simp]: "piece_markers (push_output d) = []"
  by (simp add: push_output_def)

lemma signal_sentinels_delete: "signal_sentinels act \<Longrightarrow> signal_sentinels (omap_delete m act)"
  unfolding signal_sentinels_def omap_delete_def
  by (auto simp: distinct_map inj_on_def)

definition markers_taken :: "active_sentinels \<Rightarrow> sentinel_piece list \<Rightarrow> active_sentinels \<Rightarrow> bool" where
  "markers_taken act ps act' \<longleftrightarrow>
     distinct (piece_markers ps) \<and> set (piece_markers ps) \<subseteq> fst ` set act
     \<and> set act' \<subseteq> set act \<and> fst ` set act' \<inter> set (piece_markers ps) = {}
     \<and> (signal_sentinels act \<longrightarrow> signal_sentinels act')"

lemma markers_taken_none: "piece_markers ps = [] \<Longrightarrow> markers_taken act ps act"
  by (simp add: markers_taken_def)

lemma scan_loop_markers:
  "scan_loop fin act out rest = Inr (ps, act', tail) \<Longrightarrow> markers_taken act ps act'"
proof (induction fin act out rest arbitrary: ps rule: scan_loop.induct)
  case (1 fin act out rest)
  show ?case
  proof (cases rest)
    case Nil
    with "1.prems" have "assert_tail_bound act [] (Inr (push_output out, act, [])) = Inr (ps, act', tail)"
      by (simp add: scan_loop.simps [of fin act out])
    then show ?thesis
      by (auto simp: assert_tail_bound_def res_simps markers_taken_none split: if_splits)
  next
    case (Cons c cs)
    consider (idle) "act = []" | (plain) "act \<noteq> []" "c \<noteq> 27" | (esc) "act \<noteq> []" "\<not> c \<noteq> 27" by blast
    then show ?thesis
    proof cases
      case idle
      with "1.prems" Cons show ?thesis by (auto simp: scan_loop.simps [of fin "[]" out] markers_taken_none)
    next
      case plain
      with "1.prems" Cons have "scan_loop fin act (out @ [c]) cs = Inr (ps, act', tail)"
        by (simp add: scan_loop.simps [of fin act out])
      with "1.IH"(1) [OF Cons plain] show ?thesis by blast
    next
      case esc
      obtain matched where m: "find_complete act rest None = Inr matched"
        using "1.prems" Cons esc by (auto simp: scan_loop.simps [of _ act out "27 # cs"] res_simps)
      show ?thesis
      proof (cases matched)
        case None
        show ?thesis
        proof (cases "\<not> fin \<and> has_partial act rest")
          case True
          then have "set_tail act rest (Inr (push_output out, act, rest)) = Inr (ps, act', tail)"
            using "1.prems" Cons esc m None by (auto simp: scan_loop.simps [of _ act out "27 # cs"])
          then show ?thesis
            by (auto simp: set_tail_def assert_tail_bound_def res_simps markers_taken_none split: if_splits)
        next
          case False
          then have "scan_loop fin act (out @ [c]) cs = Inr (ps, act', tail)"
            using "1.prems" Cons esc m None by (auto simp: scan_loop.simps [of _ act out "27 # cs"])
          with "1.IH"(2) [OF Cons esc m None False] show ?thesis by blast
        qed
      next
        case (Some ms)
        obtain n s where ms: "ms = (n, s)" by fastforce
        from "1.prems" Cons esc m Some ms have has: "omap_has n act"
          and "\<exists>qs. scan_loop fin (omap_delete n act) [] (drop (length s) rest) = Inr (qs, act', tail)
                \<and> ps = push_output out @ PieceComplete n # qs"
          by (auto simp: scan_loop.simps [of _ act out "27 # cs"] res_simps)
        then obtain qs where qs: "scan_loop fin (omap_delete n act) [] (drop (length s) rest) = Inr (qs, act', tail)"
            "ps = push_output out @ PieceComplete n # qs"
          by blast
        have "markers_taken (omap_delete n act) qs act'"
          using "1.IH"(3) [OF Cons esc m Some _ has qs(1)] ms by auto
        with has qs(2) signal_sentinels_delete [of act n] show ?thesis
          by (auto simp: markers_taken_def set_omap_delete omap_has_def)
      qed
    qed
  qed
qed

lemma scan_buffer_markers:
  "scan_buffer sn buffer fin = Inr (ps, sn') \<Longrightarrow> markers_taken (sn_active sn) ps (sn_active sn')"
  by (auto simp: scan_buffer_def res_simps markers_taken_none dest: scan_loop_markers split: if_splits)

lemma scanner_feed_markers:
  "scanner_feed sn c = Inr (ps, sn') \<Longrightarrow> markers_taken (sn_active sn) ps (sn_active sn')"
  by (auto simp: scanner_feed_def res_simps markers_taken_none dest: scan_buffer_markers split: if_splits)

lemma scanner_flush_markers:
  "scanner_flush sn = Inr (ps, sn') \<Longrightarrow> markers_taken (sn_active sn) ps (sn_active sn')"
  by (auto simp: scanner_flush_def res_simps markers_taken_none dest: scan_buffer_markers split: if_splits)

lemma scanner_feed_ok:
  assumes "scanner_ok sn"
  shows "\<exists>ps sn'. scanner_feed sn c = Inr (ps, sn') \<and> scanner_ok sn'"
  using scanf.feed_step [OF assms, of c] by (auto simp: unit_feed_def res_simps)

lemma scanner_flush_ok:
  assumes "scanner_ok sn"
  shows "\<exists>ps sn'. scanner_flush sn = Inr (ps, sn') \<and> scanner_ok sn'"
  using scanf.flush_step [OF assms] by (auto simp: unit_flush_def res_simps)

section \<open>The invariant\<close>

definition co_ok :: "coordinator \<Rightarrow> sentinel_piece list \<Rightarrow> bool" where
  \<comment> \<open>The pieces are those that a scan has given and that are not appended yet.\<close>
  "co_ok co ps \<longleftrightarrow>
     scanner_ok (co_scanner co) \<and> signal_sentinels (sn_active (co_scanner co))
     \<and> sanitizer_ok (co_sanitizer co) \<and> distinct (map fst (co_active co))
     \<and> (\<forall>(m, s) \<in> set (sn_active (co_scanner co)). \<exists>r. (m, r) \<in> set (co_active co) \<and> ar_sentinel r = s)
     \<and> (\<forall>(m, r) \<in> set (co_active co). is_run_marker m \<and> ar_sentinel r \<noteq> [])
     \<and> distinct (piece_markers ps) \<and> set (piece_markers ps) \<subseteq> fst ` set (co_active co)
     \<and> set (piece_markers ps) \<inter> fst ` set (sn_active (co_scanner co)) = {}
     \<and> distinct (co_waiters co) \<and> set (co_waiters co) \<subseteq> fst ` set (co_active co)
     \<and> fst ` set (sz_active (co_sanitizer co)) \<subseteq> fst ` set (co_active co)"

lemma co_ok_new: "co_ok new_coordinator []"
  by (simp add: co_ok_def new_coordinator_def new_scanner_def new_sanitizer_def scanner_ok_def
      sentinels_ok_def signal_sentinels_def sanitizer_ok_def echoes_ok_def)

lemma co_ok_run:
  assumes "co_ok co ps" and "(m, s) \<in> set (sn_active (co_scanner co))"
  shows "\<exists>r. (m, r) \<in> set (co_active co) \<and> ar_sentinel r = s"
proof -
  have "\<forall>(m, s) \<in> set (sn_active (co_scanner co)). \<exists>r. (m, r) \<in> set (co_active co) \<and> ar_sentinel r = s"
    using assms(1) by (simp add: co_ok_def)
  from bspec [OF this assms(2)] show ?thesis by simp
qed

lemma co_ok_keys:
  assumes "co_ok co ps"
  shows "fst ` set (sn_active (co_scanner co)) \<subseteq> fst ` set (co_active co)"
proof
  fix m assume "m \<in> fst ` set (sn_active (co_scanner co))"
  then obtain s where "(m, s) \<in> set (sn_active (co_scanner co))" by auto
  from co_ok_run [OF assms this] obtain r where "(m, r) \<in> set (co_active co)" by blast
  then have "fst (m, r) \<in> fst ` set (co_active co)" by (rule imageI)
  then show "m \<in> fst ` set (co_active co)" by simp
qed

lemma co_ok_scanned:
  assumes "co_ok co []" and "markers_taken (sn_active (co_scanner co)) ps (sn_active sn)" and "scanner_ok sn"
  shows "co_ok (co\<lparr>co_scanner := sn\<rparr>) ps"
proof -
  have taken: "distinct (piece_markers ps)" "set (piece_markers ps) \<subseteq> fst ` set (sn_active (co_scanner co))"
      "set (sn_active sn) \<subseteq> set (sn_active (co_scanner co))"
      "set (piece_markers ps) \<inter> fst ` set (sn_active sn) = {}" "signal_sentinels (sn_active sn)"
    using assms(1,2) by (auto simp: co_ok_def markers_taken_def)
  have "fst ` set (sn_active (co_scanner co)) \<subseteq> fst ` set (co_active co)"
    using assms(1) by (rule co_ok_keys)
  with taken(2) have "set (piece_markers ps) \<subseteq> fst ` set (co_active co)" by (rule subset_trans)
  moreover have "\<forall>(m, s) \<in> set (sn_active sn). \<exists>r. (m, r) \<in> set (co_active co) \<and> ar_sentinel r = s"
    using co_ok_run [OF assms(1)] taken(3) by auto
  ultimately show ?thesis
    using assms(1,3) taken by (simp add: co_ok_def)
qed

lemma sanitizer_fed:
  "sanitizer_ok sz \<Longrightarrow>
     \<exists>out sz'. sanitizer_feed sz c = Inr (out, sz') \<and> sanitizer_ok sz' \<and> sz_active sz' = sz_active sz"
  using sanitizer_feed_result by blast

lemma co_ok_sanitizer:
  "co_ok co ps \<Longrightarrow> sanitizer_ok sz \<Longrightarrow> set (sz_active sz) \<subseteq> set (sz_active (co_sanitizer co)) \<Longrightarrow>
     co_ok (co\<lparr>co_sanitizer := sz\<rparr>) ps"
  using subset_trans [OF image_mono [of "set (sz_active sz)" "set (sz_active (co_sanitizer co))" fst],
      of "fst ` set (co_active co)"]
  by (simp add: co_ok_def)

lemma co_ok_tail: "co_ok co (p # ps) \<Longrightarrow> co_ok co ps"
  by (cases p) (auto simp: co_ok_def)

lemma co_ok_less: "co_ok co ps \<Longrightarrow> co_ok co []"
  by (induction ps) (auto dest: co_ok_tail)

lemma forget_waiter_sel [simp]:
  "co_active (forget_waiter co m) = co_active co" "co_scanner (forget_waiter co m) = co_scanner co"
  "co_sanitizer (forget_waiter co m) = co_sanitizer co" "co_settled (forget_waiter co m) = co_settled co"
  "set (co_waiters (forget_waiter co m)) = set (co_waiters co) - {m}"
  "distinct (co_waiters co) \<Longrightarrow> distinct (co_waiters (forget_waiter co m))"
  by (auto simp: forget_waiter_def)

lemma settle_waiter_sel [simp]:
  "co_active (settle_waiter co m res) = co_active co" "co_scanner (settle_waiter co m res) = co_scanner co"
  "co_sanitizer (settle_waiter co m res) = co_sanitizer co"
  "set (co_waiters (settle_waiter co m res)) = set (co_waiters co) - {m}"
  "distinct (co_waiters co) \<Longrightarrow> distinct (co_waiters (settle_waiter co m res))"
  by (auto simp: settle_waiter_def forget_waiter_def)

lemma co_ok_forget: "co_ok co ps \<Longrightarrow> co_ok (forget_waiter co m) ps"
  by (auto simp: co_ok_def)

lemma co_ok_settle: "co_ok co ps \<Longrightarrow> co_ok (settle_waiter co m res) ps"
  by (auto simp: co_ok_def)

lemma co_ok_sanitizerD: "co_ok co ps \<Longrightarrow> sanitizer_ok (co_sanitizer co)"
  by (simp add: co_ok_def)

lemma co_ok_completed:
  assumes "co_ok co (PieceComplete m # ps)" and "m \<notin> fst ` set (sz_active (co_sanitizer co))"
  shows "co_ok (settle_waiter (co\<lparr>co_active := omap_delete m (co_active co)\<rparr>) m res) ps"
proof -
  from assms(1) have fresh: "m \<notin> set (piece_markers ps)" "m \<notin> fst ` set (sn_active (co_scanner co))"
    by (auto simp: co_ok_def)
  have "\<exists>r. (m', r) \<in> set (omap_delete m (co_active co)) \<and> ar_sentinel r = s'"
    if sn: "(m', s') \<in> set (sn_active (co_scanner co))" for m' s'
  proof -
    have "m' \<noteq> m" using sn fresh(2) by force
    moreover obtain r where "(m', r) \<in> set (co_active co)" "ar_sentinel r = s'"
      using co_ok_run [OF assms(1) sn] by blast
    ultimately show ?thesis by (auto simp: set_omap_delete)
  qed
  moreover have "fst ` set (omap_delete m (co_active co)) = fst ` set (co_active co) - {m}"
    by (force simp: set_omap_delete)
  moreover have "\<forall>(m', r) \<in> set (omap_delete m (co_active co)). is_run_marker m' \<and> ar_sentinel r \<noteq> []"
    using assms by (auto simp: co_ok_def set_omap_delete)
  moreover have "fst ` set (sz_active (co_sanitizer co)) \<subseteq> fst ` set (co_active co) - {m}"
    using assms by (simp add: co_ok_def subset_Diff_insert)
  ultimately show ?thesis
    using assms(1) fresh by (auto simp: co_ok_def distinct_omap_delete)
qed

text \<open>The error of a call is one that the log threw.\<close>

definition appender_error :: "'s appender \<Rightarrow> js_error option \<Rightarrow> bool" where
  "appender_error app err \<longleftrightarrow> (\<forall>e. err = Some e \<longrightarrow> (\<exists>s p. app s p = Inl e))"

lemma append_output_error: "append_output app s out = Inl e \<Longrightarrow> \<exists>s p. app s p = Inl e"
  by (cases "app s (Output out)") (auto simp: append_output_def split: if_splits)

lemma complete_run_ok:
  assumes "co_ok co (PieceComplete m # ps)" and "(m, r) \<in> set (co_active co)"
    and "complete_run app co s m r = (co', s', err)"
  shows "co_ok co' ps \<and> appender_error app err"
proof -
  have "is_run_marker m" using assms(1,2) by (auto simp: co_ok_def)
  then obtain out sz where sz: "deregister_echo (co_sanitizer co) m = Inr (out, sz)" "sanitizer_ok sz"
      "sz_active sz = omap_delete m (sz_active (co_sanitizer co))"
    using deregister_echo_result [OF co_ok_sanitizerD [OF assms(1)]] by blast
  let ?co1 = "co\<lparr>co_sanitizer := sz\<rparr>"
  have ok1: "co_ok ?co1 (PieceComplete m # ps)" 
    using assms(1) sz(2) by (rule co_ok_sanitizer) (auto simp: sz(3) set_omap_delete)
  have rejected: "co_ok (settle_waiter ?co1 m res) ps" for res
    using co_ok_settle [OF co_ok_tail [OF ok1]] .
  show ?thesis
  proof (cases "append_output app s out")
    case (Inl e)
    with assms(3) sz(1) rejected append_output_error [OF Inl] show ?thesis
      by (auto simp: complete_run_def appender_error_def)
  next
    case (Inr s1)
    show ?thesis
    proof (cases "app s1 (RunComplete m (Some (int (ar_input_run_seq r))))")
      case (Inl e)
      with assms(3) sz(1) Inr rejected show ?thesis
        by (auto simp: complete_run_def appender_error_def)
    next
      case app: (Inr x)
      let ?co2 = "?co1\<lparr>co_active := omap_delete m (co_active ?co1)\<rparr>"
      have "co_ok (settle_waiter ?co2 m (RunCompleted q)) ps" for q
        using ok1 by (rule co_ok_completed) (auto simp: sz(3) set_omap_delete)
      with assms(3) sz(1) Inr app show ?thesis
        by (cases x) (auto simp: complete_run_def appender_error_def)
    qed
  qed
qed

lemma append_piece_ok:
  assumes "co_ok co (p # ps)" and "append_piece app co s p = (co', s', err)"
  shows "co_ok co' ps \<and> appender_error app err"
proof (cases p)
  case (PieceOutput d)
  obtain out sz where sz: "sanitizer_feed (co_sanitizer co) d = Inr (out, sz)" "sanitizer_ok sz"
      "sz_active sz = sz_active (co_sanitizer co)"
    using sanitizer_fed [OF co_ok_sanitizerD [OF assms(1)]] by blast
  have "co_ok (co\<lparr>co_sanitizer := sz\<rparr>) ps"
    using co_ok_sanitizer [OF co_ok_tail [OF assms(1)] sz(2)] sz(3) by simp
  with assms(2) PieceOutput sz(1) append_output_error show ?thesis
    by (cases "append_output app s out") (auto simp: appender_error_def Let_def)
next
  case (PieceComplete m)
  have "m \<in> fst ` set (co_active co)" using assms(1) PieceComplete by (simp add: co_ok_def)
  then obtain r where r: "(m, r) \<in> set (co_active co)" by auto
  moreover have "distinct (map fst (co_active co))" using assms(1) by (simp add: co_ok_def)
  ultimately have "map_of (co_active co) m = Some r" by simp
  moreover have "ar_sentinel r \<noteq> []" using assms(1) r by (auto simp: co_ok_def)
  ultimately have "complete_run app co s m r = (co', s', err)"
    using assms(2) PieceComplete by simp
  with complete_run_ok [of co m ps r] assms(1) r PieceComplete show ?thesis by simp
qed

section \<open>Registration keeps the invariant\<close>

lemma pick_sentinel_ok:
  "list_all is_signal_token tokens \<Longrightarrow>
     \<exists>r. pick_sentinel co tokens = Inr r
       \<and> (\<forall>s. r = Some s \<longrightarrow> \<not> has_active_sentinel co s \<and> (\<exists>t. build_signal_sentinel t = Inr s))"
proof (induction tokens)
  case Nil
  then show ?case by simp
next
  case (Cons t tokens)
  obtain s where "build_signal_sentinel t = Inr s"
    using Cons.prems by (auto simp: build_signal_sentinel_Inr)
  with Cons show ?case by auto
qed

lemma register_echo_ok:
  assumes "sanitizer_ok sz" and "is_run_marker m" and "good_body x" and "\<not> omap_has m (sz_active sz)"
  shows "register_echo sz m (x @ [10])
      = Inr (sz\<lparr>sz_active := sz_active sz @ [(m, [x @ [13, 10], x @ [10]])]\<rparr>)"
    and "sanitizer_ok (sz\<lparr>sz_active := sz_active sz @ [(m, [x @ [13, 10], x @ [10]])]\<rparr>)"
proof -
  let ?act = "sz_active sz @ [(m, [x @ [13, 10], x @ [10]])]"
  have ok: "echoes_ok ?act" using assms(1,3) by (auto simp: sanitizer_ok_def echoes_ok_def)
  have "max_echo_length (sz_active sz) \<le> max_echo_length ?act"
    using max_echo_fold_ge [of "max_echo_length (sz_active sz)" "flat_echoes [(m, [x @ [13, 10], x @ [10]])]"]
    by (simp add: max_echo_length_def flat_echoes_def)
  then have fits: "echo_tail_fits ?act (sz_tail sz)"
    using assms(1) by (auto simp: sanitizer_ok_def echo_tail_fits_def)
  from ok fits show "sanitizer_ok (sz\<lparr>sz_active := ?act\<rparr>)" by (simp add: sanitizer_ok_def)
  from ok fits assms show "register_echo sz m (x @ [10]) = Inr (sz\<lparr>sz_active := ?act\<rparr>)"
    by (simp add: register_echo_def assert_run_marker_def postamble_variants_good omap_set_new
        assert_echo_tail_bound_ok)
qed

definition registered :: "coordinator \<Rightarrow> nat \<Rightarrow> jstring \<Rightarrow> jstring \<Rightarrow> coordinator" where
  \<comment> \<open>The coordinator once the run is registered with this sentinel.\<close>
  "registered co inputRunSeq m s =
     co\<lparr>co_active := co_active co @ [(m, \<lparr>ar_input_run_seq = inputRunSeq, ar_sentinel = s\<rparr>)],
        co_scanner := (co_scanner co)\<lparr>sn_active := sn_active (co_scanner co) @ [(m, s)]\<rparr>,
        co_sanitizer := (co_sanitizer co)\<lparr>sz_active := sz_active (co_sanitizer co)
            @ [(m, [postamble_of s @ [13, 10], postamble_of s @ [10]])]\<rparr>,
        co_waiters := co_waiters co @ [m]\<rparr>"

lemma register_waited_run_ok:
  assumes ok: "co_ok co ps" and m: "is_run_marker m" "\<not> omap_has m (co_active co)"
    and picked: "pick_sentinel co tokens = Inr (Some s)" and tokens: "list_all is_signal_token tokens"
  shows "register_waited_run co inputRunSeq m tokens
      = Inr (Some ((postamble_of s @ [10], s), registered co inputRunSeq m s))"
    and "co_ok (registered co inputRunSeq m s) ps"
proof -
  let ?co = "registered co inputRunSeq m s"
  from pick_sentinel_ok [OF tokens, of co] picked obtain t where fresh: "\<not> has_active_sentinel co s"
      and t: "build_signal_sentinel t = Inr s"
    by auto
  have new: "m \<notin> fst ` set (co_active co)" using m(2) by (auto simp: omap_has_def)
  have sub: "fst ` set (sn_active (co_scanner co)) \<subseteq> fst ` set (co_active co)"
    using ok by (rule co_ok_keys)
  have "s \<notin> set (map snd (sn_active (co_scanner co)))"
  proof
    assume "s \<in> set (map snd (sn_active (co_scanner co)))"
    then obtain m' where "(m', s) \<in> set (sn_active (co_scanner co))" by auto
    from co_ok_run [OF ok this] fresh show False by (auto simp: has_active_sentinel_def list_ex_iff)
  qed
  moreover have "\<not> omap_has m (sn_active (co_scanner co))" using new sub by (auto simp: omap_has_def)
  moreover have "scanner_ok (co_scanner co)" "signal_sentinels (sn_active (co_scanner co))"
    using ok by (simp_all add: co_ok_def)
  ultimately have sn: "register_sentinel (co_scanner co) m (Some s) = Inr (co_scanner ?co)"
      "scanner_ok (co_scanner ?co)" "signal_sentinels (sn_active (co_scanner ?co))"
    using register_signal_sentinel [of "co_scanner co" m t s] m(1) t by (simp_all add: registered_def)
  have "\<not> omap_has m (sz_active (co_sanitizer co))" using ok new by (auto simp: co_ok_def omap_has_def)
  with register_echo_ok [OF co_ok_sanitizerD [OF ok] m(1) build_postamble_ok(2) [OF m(1) t]]
  have sz: "register_echo (co_sanitizer co) m (postamble_of s @ [10]) = Inr (co_sanitizer ?co)"
      "sanitizer_ok (co_sanitizer ?co)"
    by (simp_all add: registered_def)
  have "m \<notin> set (co_waiters co)" using ok new by (auto simp: co_ok_def)
  then show "register_waited_run co inputRunSeq m tokens = Inr (Some ((postamble_of s @ [10], s), ?co))"
    using m picked build_postamble_ok(1) [OF m(1) t] sn(1) sz(1)
    by (simp add: register_waited_run_def assert_run_marker_def subscribe_run_completion_def omap_set_new
        registered_def)
  have "\<forall>(m', s') \<in> set (sn_active (co_scanner ?co)). \<exists>r. (m', r) \<in> set (co_active ?co) \<and> ar_sentinel r = s'"
    using co_ok_run [OF ok] by (fastforce simp: registered_def)
  moreover have "\<forall>(m', r) \<in> set (co_active ?co). is_run_marker m' \<and> ar_sentinel r \<noteq> []"
    using ok m(1) build_signal_sentinel_frame(1) [OF t] by (auto simp: co_ok_def registered_def)
  moreover have old: "distinct (map fst (co_active co))" "set (piece_markers ps) \<subseteq> fst ` set (co_active co)"
      "distinct (co_waiters co)" "set (co_waiters co) \<subseteq> fst ` set (co_active co)"
      "fst ` set (sz_active (co_sanitizer co)) \<subseteq> fst ` set (co_active co)" "distinct (piece_markers ps)"
      "set (piece_markers ps) \<inter> fst ` set (sn_active (co_scanner co)) = {}"
    using ok by (simp_all add: co_ok_def)
  have "set (piece_markers ps) \<inter> fst ` set (sn_active (co_scanner ?co)) = {}"
    "distinct (map fst (co_active ?co))" "set (piece_markers ps) \<subseteq> fst ` set (co_active ?co)"
    "distinct (co_waiters ?co)" "set (co_waiters ?co) \<subseteq> fst ` set (co_active ?co)"
    "fst ` set (sz_active (co_sanitizer ?co)) \<subseteq> fst ` set (co_active ?co)"
    using old new by (auto simp: registered_def)
  ultimately show "co_ok ?co ps"
    unfolding co_ok_def using old(6) sn(2,3) sz(2) by (intro conjI)
qed

section \<open>Interleavings\<close>

text \<open>
  A state of the host's queue: the coordinator, the log, and the pieces of the last scan that
  still wait for their append. Between two of them a run can register, a wait can end, and other
  handlers can append.
\<close>

type_synonym 's co_state = "coordinator \<times> 's \<times> sentinel_piece list"

inductive co_step :: "'s appender \<Rightarrow> 's co_state \<Rightarrow> 's co_state \<Rightarrow> bool" for app where
  co_feed: "scanner_feed (co_scanner co) d = Inr (ps, sn) \<Longrightarrow>
    co_step app (co, s, []) (co\<lparr>co_scanner := sn\<rparr>, s, ps)"
| co_flush: "scanner_flush (co_scanner co) = Inr (ps, sn) \<Longrightarrow>
    co_step app (co, s, []) (co\<lparr>co_scanner := sn\<rparr>, s, ps)"
| co_piece: "append_piece app co s p = (co', s', None) \<Longrightarrow> co_step app (co, s, p # ps) (co', s', ps)"
| co_piece_failed: "append_piece app co s p = (co', s', Some e) \<Longrightarrow>
    co_step app (co, s, p # ps) (co', s', [])"
| co_flush_echo: "append_flushed_echo_output app co s = (co', s', err) \<Longrightarrow>
    co_step app (co, s, []) (co', s', [])"
| co_register: "register_waited_run co n m tokens = Inr (Some (x, co')) \<Longrightarrow>
    list_all is_signal_token tokens \<Longrightarrow> co_step app (co, s, ps) (co', s, ps)"
| co_forget: "co_step app (co, s, ps) (forget_waiter co m, s, ps)"
| co_other: "app s p = Inr (q, s') \<Longrightarrow> co_step app (co, s, ps) (co, s', ps)"
| co_reset: "co_step app (co, s, []) (reset_for_exit co, s, [])"

inductive co_reach :: "'s appender \<Rightarrow> 's \<Rightarrow> 's co_state \<Rightarrow> bool" for app s0 where
  co_start: "co_reach app s0 (new_coordinator, s0, [])"
| co_next: "co_reach app s0 x \<Longrightarrow> co_step app x y \<Longrightarrow> co_reach app s0 y"

lemma flushed_echo_ok:
  assumes "co_ok co []" and "append_flushed_echo_output app co s = (co', s', err)"
  shows "co_ok co' [] \<and> appender_error app err"
proof -
  obtain out sz where sz: "sanitizer_flush (co_sanitizer co) = Inr (out, sz)" "sanitizer_ok sz"
      "sz_active sz = sz_active (co_sanitizer co)"
    using sanitizer_flush_result [OF co_ok_sanitizerD [OF assms(1)]] by blast
  have "co_ok (co\<lparr>co_sanitizer := sz\<rparr>) []"
    using co_ok_sanitizer [OF assms(1) sz(2)] sz(3) by simp
  with assms(2) sz(1) append_output_error show ?thesis
    by (cases "append_output app s out")
      (auto simp: append_flushed_echo_output_def appender_error_def)
qed

lemma register_waited_run_Inr:
  assumes "co_ok co ps" and "register_waited_run co n m tokens = Inr (Some (x, co'))"
    and "list_all is_signal_token tokens"
  shows "is_run_marker m" and "\<not> omap_has m (co_active co)"
    and "\<exists>s. pick_sentinel co tokens = Inr (Some s) \<and> x = (postamble_of s @ [10], s)
           \<and> co' = registered co n m s"
proof -
  show m: "is_run_marker m" "\<not> omap_has m (co_active co)"
    using assms(2) by (auto simp: register_waited_run_def assert_run_marker_def res_simps)
  have "pick_sentinel co tokens \<noteq> Inr None"
    using assms(2) m by (auto simp: register_waited_run_def assert_run_marker_def)
  then obtain s where "pick_sentinel co tokens = Inr (Some s)"
    using pick_sentinel_ok [OF assms(3), of co] by force
  with register_waited_run_ok(1) [OF assms(1) m this assms(3)] assms(2)
  show "\<exists>s. pick_sentinel co tokens = Inr (Some s) \<and> x = (postamble_of s @ [10], s)
      \<and> co' = registered co n m s"
    by auto
qed

definition state_ok :: "'s co_state \<Rightarrow> bool" where
  "state_ok x \<longleftrightarrow> co_ok (fst x) (snd (snd x))"

lemma co_step_ok: "co_step app x y \<Longrightarrow> state_ok x \<Longrightarrow> state_ok y"
proof (induction rule: co_step.induct)
  case (co_feed co d ps sn s)
  then have ok: "co_ok co []" by (simp add: state_ok_def)
  then have "scanner_ok sn" using scanner_feed_ok [of "co_scanner co" d] co_feed.hyps by (auto simp: co_ok_def)
  with co_ok_scanned [OF ok scanner_feed_markers [OF co_feed.hyps]] show ?case by (simp add: state_ok_def)
next
  case (co_flush co ps sn s)
  then have ok: "co_ok co []" by (simp add: state_ok_def)
  then have "scanner_ok sn" using scanner_flush_ok [of "co_scanner co"] co_flush.hyps by (auto simp: co_ok_def)
  with co_ok_scanned [OF ok scanner_flush_markers [OF co_flush.hyps]] show ?case by (simp add: state_ok_def)
next
  case (co_piece co s p co' s' ps)
  then show ?case using append_piece_ok by (fastforce simp: state_ok_def)
next
  case (co_piece_failed co s p co' s' e ps)
  then have "co_ok co' ps" using append_piece_ok by (fastforce simp: state_ok_def)
  then show ?case using co_ok_less by (auto simp: state_ok_def)
next
  case (co_flush_echo co s co' s' err)
  then show ?case using flushed_echo_ok by (fastforce simp: state_ok_def)
next
  case (co_register co n m tokens x co' s ps)
  then have ok: "co_ok co ps" by (simp add: state_ok_def)
  from register_waited_run_Inr [OF ok co_register.hyps] register_waited_run_ok(2) [OF ok] co_register.hyps(2)
  show ?case by (auto simp: state_ok_def)
next
  case (co_forget co s ps m)
  then show ?case by (simp add: state_ok_def co_ok_forget)
next
  case (co_other s p q s' co ps)
  then show ?case by (simp add: state_ok_def)
next
  case (co_reset co s)
  show ?case using co_ok_new by (simp add: state_ok_def co_ok_def reset_for_exit_def new_coordinator_def)
qed

lemma co_reach_ok: "co_reach app s0 x \<Longrightarrow> state_ok x"
  by (induction rule: co_reach.induct) (auto simp: state_ok_def [of "(new_coordinator, _)"] co_ok_new dest: co_step_ok)

lemma append_pieces_ok:
  "co_ok co ps \<Longrightarrow> append_pieces app co s ps = (co', s', err) \<Longrightarrow> co_ok co' [] \<and> appender_error app err"
proof (induction ps arbitrary: co s)
  case Nil
  then show ?case by (auto simp: appender_error_def)
next
  case (Cons p ps)
  obtain co1 s1 err1 where one: "append_piece app co s p = (co1, s1, err1)" by (metis prod_cases3)
  from append_piece_ok [OF Cons.prems(1) one] have ok: "co_ok co1 ps" "appender_error app err1" by auto
  show ?case
  proof (cases err1)
    case None
    with Cons one ok show ?thesis by simp
  next
    case (Some e)
    with Cons.prems(2) one ok co_ok_less show ?thesis by auto
  qed
qed

lemma ingest_pty_data_ok:
  assumes "co_ok co []" and "ingest_pty_data app co s d = (co', s', err)"
  shows "co_ok co' [] \<and> appender_error app err"
proof -
  obtain ps sn where sn: "scanner_feed (co_scanner co) d = Inr (ps, sn)" "scanner_ok sn"
    using scanner_feed_ok assms(1) by (metis co_ok_def)
  from co_ok_scanned [OF assms(1) scanner_feed_markers [OF sn(1)] sn(2)]
  have "co_ok (co\<lparr>co_scanner := sn\<rparr>) ps" .
  with append_pieces_ok assms(2) sn(1) show ?thesis by (fastforce simp: ingest_pty_data_def)
qed

section \<open>The host's appender\<close>

type_synonym clocked_log = "event_log \<times> (nat \<Rightarrow> jstring)" \<comment> \<open>the log, and the clock texts to come\<close>

definition clocked_append :: "clocked_log appender" where
  \<comment> \<open>\<open>eventLog.append\<close>, which reads the clock for the record and for a stop marker.\<close>
  "clocked_append lc p =
     bind_res (append_log (fst lc) p (snd lc 0) (snd lc 1))
       (\<lambda>(q, l'). Inr (q, (l', \<lambda>i. snd lc (i + 2))))"

lemma clocked_append_Inr:
  "clocked_append lc p = Inr (q, lc') \<Longrightarrow>
     append_log (fst lc) p (snd lc 0) (snd lc 1) = Inr (q, fst lc')"
  by (auto simp: clocked_append_def res_simps)

interpretation clog: event_appender clocked_append "\<lambda>lc. el_buffer (fst lc)" "\<lambda>lc. log_sane (fst lc)"
proof unfold_locales
  fix lc :: clocked_log and p q lc'
  assume sane: "log_sane (fst lc)" and "clocked_append lc p = Inr (q, lc')"
  then have app: "append_log (fst lc) p (snd lc 0) (snd lc 1) = Inr (q, fst lc')"
    by (intro clocked_append_Inr)
  show "log_sane (fst lc')" by (rule elog.app_ok [OF sane app])
  show "Suc q = length (el_buffer (fst lc'))" by (rule elog.app_seq [OF sane app])
  show "\<exists>rs. el_buffer (fst lc') = el_buffer (fst lc) @ rs \<and> length rs \<le> 1
      \<and> (\<forall>r \<in> set rs. ev_payload r = p \<or> is_stop_marker r)"
    by (rule elog.app_stores [OF sane app])
next
  fix lc :: clocked_log assume "log_sane (fst lc)"
  then show "contiguous (el_buffer (fst lc))" by (rule elog.hist_numbered)
qed

lemma append_output_sane:
  "log_sane (fst lc) \<Longrightarrow> append_output clocked_append lc out = Inr lc' \<Longrightarrow> log_sane (fst lc')"
  by (auto simp: append_output_def res_simps intro: clog.app_ok split: if_splits)

lemma append_log_running:
  assumes "log_sane l" and "append_log l p ts tsStop = Inr (q, l')" and "\<not> el_stopped l'"
  shows "\<exists>ts. el_buffer l' = el_buffer l @ [make_record (el_next_seq l) ts p]"
proof -
  have "queue_append l p ts tsStop = Inr (q, l')" using assms(2) by (simp add: append_log_Inr)
  from queue_append_Inr [OF this] assms(1)
  have l': "l' = effect_state (append_effect l p ts tsStop) l p ts tsStop" by (simp add: log_sane_def)
  show ?thesis
  proof (cases "append_effect l p ts tsStop")
    case Ignored
    then have "el_stopped l" by (auto simp: append_effect_def split: if_splits option.splits)
    with l' Ignored assms(3) show ?thesis by simp
  qed (use l' assms(3) in auto)
qed

section \<open>A waited run from end to end\<close>

text \<open>An appender that writes down what it is asked to append.\<close>

definition trace_append :: "payload list appender" where
  "trace_append ps p = Inr (length ps, ps @ [p])"

fun ingest_all ::
  "'s appender \<Rightarrow> coordinator \<Rightarrow> 's \<Rightarrow> jstring list \<Rightarrow> coordinator \<times> 's \<times> js_error option" where
  "ingest_all app co s [] = (co, s, None)"
| "ingest_all app co s (c # cs) =
     (case ingest_pty_data app co s c of
        (co1, s1, Some e) \<Rightarrow> (co1, s1, Some e)
      | (co1, s1, None) \<Rightarrow> ingest_all app co1 s1 cs)"

lemma append_piece_scanner:
  "append_piece app (co\<lparr>co_scanner := sn\<rparr>) s p =
     (case append_piece app co s p of (co', s', err) \<Rightarrow> (co'\<lparr>co_scanner := sn\<rparr>, s', err))"
proof (cases p)
  case (PieceOutput d)
  then show ?thesis by (auto simp: Let_def split: sum.split)
next
  case (PieceComplete m)
  then show ?thesis
    by (auto simp: complete_run_def settle_waiter_def forget_waiter_def Let_def
        split: sum.split option.split)
qed

lemma append_pieces_scanner:
  "append_pieces app (co\<lparr>co_scanner := sn\<rparr>) s ps =
     (case append_pieces app co s ps of (co', s', err) \<Rightarrow> (co'\<lparr>co_scanner := sn\<rparr>, s', err))"
  by (induction ps arbitrary: co s) (auto simp: append_piece_scanner split: prod.split option.split)

lemma append_pieces_append:
  "append_pieces app co s (ps @ qs) =
     (case append_pieces app co s ps of
        (co1, s1, Some e) \<Rightarrow> (co1, s1, Some e)
      | (co1, s1, None) \<Rightarrow> append_pieces app co1 s1 qs)"
  by (induction ps arbitrary: co s) (auto split: prod.split option.split)

lemma ingest_all_pieces:
  assumes "feed_all scanner_feed (co_scanner co) cs = Inr (ps, sn)"
    and "append_pieces app co s ps = (co', s', None)"
  shows "ingest_all app co s cs = (co'\<lparr>co_scanner := sn\<rparr>, s', None)"
  using assms
proof (induction cs arbitrary: co s ps co')
  case Nil
  then show ?case by auto
next
  case (Cons c cs)
  obtain ps1 sn1 ps2 where one: "scanner_feed (co_scanner co) c = Inr (ps1, sn1)"
    and two: "feed_all scanner_feed sn1 cs = Inr (ps2, sn)" and ps: "ps = ps1 @ ps2"
    using Cons.prems(1) by (auto simp: res_simps)
  from Cons.prems(2) obtain co1 s1 where a1: "append_pieces app co s ps1 = (co1, s1, None)"
    and a2: "append_pieces app co1 s1 ps2 = (co', s', None)"
    by (auto simp: ps append_pieces_append split: prod.splits option.splits)
  let ?co1 = "co1\<lparr>co_scanner := sn1\<rparr>"
  have "ingest_pty_data app co s c = (?co1, s1, None)"
    using one a1 by (simp add: ingest_pty_data_def append_pieces_scanner)
  moreover have "append_pieces app ?co1 s1 ps2 = (co'\<lparr>co_scanner := sn1\<rparr>, s', None)"
    using a2 by (simp add: append_pieces_scanner)
  ultimately show ?case using Cons.IH [of ?co1 ps2 s1 "co'\<lparr>co_scanner := sn1\<rparr>"] two by simp
qed

lemma units_outputs:
  "units_of ps = map OutUnit b \<Longrightarrow> \<exists>ds. ps = map PieceOutput ds \<and> concat ds = b"
proof (induction ps arbitrary: b)
  case (Cons p ps)
  show ?case
  proof (cases p)
    case (PieceOutput d)
    with Cons.prems obtain b2 where "b = d @ b2" "units_of ps = map OutUnit b2"
      by (auto simp: append_eq_map_conv inj_map_eq_map inj_def)
    with Cons.IH [of b2] PieceOutput show ?thesis by (auto intro: exI [of _ "d # _"])
  qed (use Cons.prems in auto)
qed simp

lemma map_outputs_before:
  "map OutUnit d @ us = map OutUnit a @ DoneUnit m # vs \<Longrightarrow>
     \<exists>a2. a = d @ a2 \<and> us = map OutUnit a2 @ DoneUnit m # vs"
proof (induction d arbitrary: a)
  case (Cons c d)
  then show ?case by (cases a) auto
qed simp

lemma units_completion:
  "units_of ps = map OutUnit a @ DoneUnit m # map OutUnit b \<Longrightarrow>
     \<exists>ds es. ps = map PieceOutput ds @ PieceComplete m # map PieceOutput es \<and> concat ds = a \<and> concat es = b"
proof (induction ps arbitrary: a)
  case (Cons p ps)
  show ?case
  proof (cases p)
    case (PieceOutput d)
    have "\<exists>a2. a = d @ a2 \<and> units_of ps = map OutUnit a2 @ DoneUnit m # map OutUnit b"
      using Cons.prems PieceOutput by (intro map_outputs_before) simp
    then obtain a2 where a2: "a = d @ a2" "units_of ps = map OutUnit a2 @ DoneUnit m # map OutUnit b"
      by blast
    from Cons.IH [OF a2(2)] obtain ds es where
        "ps = map PieceOutput ds @ PieceComplete m # map PieceOutput es" "concat ds = a2" "concat es = b"
      by blast
    with a2(1) PieceOutput show ?thesis by (intro exI [of _ "d # ds"] exI [of _ es]) simp
  next
    case (PieceComplete n)
    with Cons.prems have "a = []" "n = m" "units_of ps = map OutUnit b" by (cases a; simp)+
    with units_outputs PieceComplete show ?thesis by (metis append_Nil concat.simps(1) list.map(1))
  qed
qed simp

lemma append_outputs_trace:
  "feed_all sanitizer_feed (co_sanitizer co) ds = Inr (out, sz) \<Longrightarrow>
     \<exists>es. append_pieces trace_append co t (map PieceOutput ds)
         = (co\<lparr>co_sanitizer := sz\<rparr>, t @ map Output es, None) \<and> concat es = out"
proof (induction ds arbitrary: co t out)
  case Nil
  then show ?case by auto
next
  case (Cons d ds)
  obtain o1 sz1 o2 where one: "sanitizer_feed (co_sanitizer co) d = Inr (o1, sz1)"
    and two: "feed_all sanitizer_feed sz1 ds = Inr (o2, sz)" and out: "out = o1 @ o2"
    using Cons.prems by (auto simp: res_simps)
  let ?es = "if o1 = [] then [] else [o1]"
  have piece: "append_piece trace_append co t (PieceOutput d)
      = (co\<lparr>co_sanitizer := sz1\<rparr>, t @ map Output ?es, None)"
    using one by (simp add: append_output_def trace_append_def)
  obtain es where "append_pieces trace_append (co\<lparr>co_sanitizer := sz1\<rparr>) (t @ map Output ?es) (map PieceOutput ds)
      = (co\<lparr>co_sanitizer := sz\<rparr>, (t @ map Output ?es) @ map Output es, None)" "concat es = o2"
    using Cons.IH [of "co\<lparr>co_sanitizer := sz1\<rparr>" o2 "t @ map Output ?es"] two by auto
  with piece out show ?case by (intro exI [of _ "?es @ es"]) simp
qed

lemma quiet_complete_run:
  assumes "is_run_marker m" and "sz_strip (co_sanitizer co) = None" and "sz_tail (co_sanitizer co) = []"
    and "m \<in> set (co_waiters co)"
  shows "\<exists>co'. complete_run trace_append co t m r
      = (co', t @ [RunComplete m (Some (int (ar_input_run_seq r)))], None)
    \<and> co_sanitizer co' = (co_sanitizer co)\<lparr>sz_active := omap_delete m (sz_active (co_sanitizer co))\<rparr>
    \<and> (m, RunCompleted (length t)) \<in> set (co_settled co')"
proof -
  have "deregister_echo (co_sanitizer co) m
      = Inr ([], (co_sanitizer co)\<lparr>sz_active := omap_delete m (sz_active (co_sanitizer co))\<rparr>)"
    using assms(1-3) by (simp add: deregister_echo_def assert_run_marker_def)
  with assms(4) show ?thesis
    by (simp add: complete_run_def append_output_def trace_append_def settle_waiter_def)
qed

text \<open>
  A coordinator at rest, then a run registers, its echo and its output arrive, cut anywhere, with
  the sentinel at the end of the run.
\<close>

definition at_rest :: "coordinator \<Rightarrow> bool" where
  "at_rest co \<longleftrightarrow> co_ok co [] \<and> sn_tail (co_scanner co) = []
     \<and> sz_strip (co_sanitizer co) = None \<and> sz_tail (co_sanitizer co) = []"

lemma waited_run_trace:
  assumes rest: "at_rest co"
    and reg: "register_waited_run co n m tokens = Inr (Some ((postamble, s), co1))"
    and tokens: "list_all is_signal_token tokens"
    and echo: "echo = postamble \<or> echo = butlast postamble @ [13, 10]"
    and cs: "concat cs = a @ echo @ b @ s @ c"
    and free: "27 \<notin> set (a @ b @ c)" "112 \<notin> set (a @ b @ c)"
  shows "\<exists>ps sn1 qs sn2 co2 o1 o2. feed_all scanner_feed (co_scanner co1) cs = Inr (ps, sn1)
    \<and> scanner_flush sn1 = Inr (qs, sn2)
    \<and> append_pieces trace_append co1 t (ps @ qs)
        = (co2, t @ map Output o1 @ [RunComplete m (Some (int n))] @ map Output o2, None)
    \<and> concat o1 = a @ b \<and> concat o2 = c \<and> sz_tail (co_sanitizer co2) = []
    \<and> (m, RunCompleted (length t + length o1)) \<in> set (co_settled co2)"
proof -
  let ?x = "postamble_of s"
  have ok: "co_ok co []" using rest by (simp add: at_rest_def)
  from register_waited_run_Inr [OF ok reg tokens] have m: "is_run_marker m" "\<not> omap_has m (co_active co)"
      and picked: "pick_sentinel co tokens = Inr (Some s)" and post: "postamble = ?x @ [10]"
      and co1: "co1 = registered co n m s"
    by auto
  have ok1: "co_ok co1 []" using register_waited_run_ok(2) [OF ok m picked tokens] co1 by simp
  obtain tk where tk: "build_signal_sentinel tk = Inr s"
    using pick_sentinel_ok [OF tokens, of co] picked by auto
  have x: "good_body ?x" by (rule build_postamble_ok(2) [OF m(1) tk])
  have e: "echo_of ?x echo" using echo post by (auto simp: echo_of_def)
  have own: "own_echo (sz_active (co_sanitizer co1)) ?x echo"
    using ok1 x e by (auto simp: own_echo_def co1 registered_def co_ok_def sanitizer_ok_def)
  have esc: "27 \<notin> set (a @ echo @ b)" "27 \<notin> set c"
    using free(1) x e by (auto simp: good_body_def echo_of_def)
  have sn: "scanner_ok (co_scanner co1)" using ok1 by (simp add: co_ok_def)
  have "whole_units (sn_active (co_scanner co1)) ((a @ echo @ b) @ s @ c)
      = map OutUnit (a @ echo @ b) @ DoneUnit m # map OutUnit c"
    by (rule whole_units_run) (use sn esc in \<open>auto simp: scanner_ok_def co1 registered_def\<close>)
  moreover have "sn_tail (co_scanner co1) = []" using rest by (simp add: co1 registered_def at_rest_def)
  ultimately obtain ps sn1 qs sn2 where scan: "feed_all scanner_feed (co_scanner co1) cs = Inr (ps, sn1)"
      "scanner_flush sn1 = Inr (qs, sn2)"
      and units: "units_of (ps @ qs) = map OutUnit (a @ echo @ b) @ DoneUnit m # map OutUnit c"
    using feed_flush_units [OF sn, of cs] cs by auto
  from units_completion [OF units] obtain ds es where
      pieces: "ps @ qs = map PieceOutput ds @ PieceComplete m # map PieceOutput es"
      and ds: "concat ds = a @ echo @ b" and es: "concat es = c" by blast
  have "stream_at a ?x echo [] (sz_strip (co_sanitizer co1)) (sz_tail (co_sanitizer co1)) []"
    using rest by (simp add: stream_at_def co1 registered_def at_rest_def)
  from feed_all_stream [OF own _ _ this, of b ds] free(2) ds obtain d sz1 where
      feed1: "feed_all sanitizer_feed (co_sanitizer co1) ds = Inr (d, sz1)"
      "sz_active sz1 = sz_active (co_sanitizer co1)"
      "stream_at a ?x echo (a @ echo @ b) (sz_strip sz1) (sz_tail sz1) d"
    by (auto simp: postamble_echo_start_def)
  note sz1 = stream_at_end [OF own feed1(3)]
  obtain o1 where out1: "append_pieces trace_append co1 t (map PieceOutput ds)
      = (co1\<lparr>co_sanitizer := sz1\<rparr>, t @ map Output o1, None)" "concat o1 = a @ b"
    using append_outputs_trace [OF feed1(1)] sz1(3) by blast
  let ?r = "\<lparr>ar_input_run_seq = n, ar_sentinel = s\<rparr>"
  let ?coa = "co1\<lparr>co_sanitizer := sz1\<rparr>"
  have run: "map_of (co_active ?coa) m = Some ?r"
    using m(2) by (auto simp: co1 registered_def omap_has_def map_add_Some_iff map_of_eq_None_iff)
  obtain co2 where co2: "complete_run trace_append ?coa (t @ map Output o1) m ?r
        = (co2, (t @ map Output o1) @ [RunComplete m (Some (int n))], None)"
      "co_sanitizer co2 = sz1\<lparr>sz_active := omap_delete m (sz_active sz1)\<rparr>"
      "(m, RunCompleted (length (t @ map Output o1))) \<in> set (co_settled co2)"
    using quiet_complete_run [OF m(1), of ?coa "t @ map Output o1" ?r] sz1 by (auto simp: co1 registered_def)
  have "ar_sentinel ?r \<noteq> []" using build_signal_sentinel_frame(1) [OF tk] by simp
  with run co2(1) have piece: "append_piece trace_append ?coa (t @ map Output o1) (PieceComplete m)
      = (co2, (t @ map Output o1) @ [RunComplete m (Some (int n))], None)"
    by simp
  have "sanitizer_ok (co_sanitizer co2)"
    using ok1 feed1(2) sz1 co2(2) echoes_ok_delete by (auto simp: co_ok_def sanitizer_ok_def)
  then have "feed_all sanitizer_feed (co_sanitizer co2) es = Inr (c, co_sanitizer co2)"
    using feed_all_clean [of "co_sanitizer co2" es] es co2(2) sz1 free(2)
    by (simp add: postamble_echo_start_def)
  from append_outputs_trace [OF this, of "(t @ map Output o1) @ [RunComplete m (Some (int n))]"] obtain o2
    where out2: "append_pieces trace_append co2 ((t @ map Output o1) @ [RunComplete m (Some (int n))])
        (map PieceOutput es)
      = (co2, ((t @ map Output o1) @ [RunComplete m (Some (int n))]) @ map Output o2, None)" "concat o2 = c"
    by auto
  have "append_pieces trace_append co1 t (ps @ qs)
      = (co2, t @ map Output o1 @ [RunComplete m (Some (int n))] @ map Output o2, None)"
    unfolding pieces using out1(1) piece out2(1) by (simp add: append_pieces_append)
  with scan out1(2) out2(2) co2(2,3) sz1(2) show ?thesis by auto
qed

lemma ingest_then_flush:
  assumes "feed_all scanner_feed (co_scanner co) cs = Inr (ps, sn1)" and "scanner_flush sn1 = Inr (qs, sn2)"
    and "append_pieces app co t (ps @ qs) = (co2, t2, None)" and "sz_tail (co_sanitizer co2) = []"
  shows "\<exists>coa ta cob. ingest_all app co t cs = (coa, ta, None)
    \<and> flush_pty_data_on_exit app coa ta = (cob, t2, None) \<and> co_settled cob = co_settled co2"
proof -
  from assms(3) obtain co1 t1 where one: "append_pieces app co t ps = (co1, t1, None)"
    and two: "append_pieces app co1 t1 qs = (co2, t2, None)"
    by (auto simp: append_pieces_append split: prod.splits option.splits)
  have "ingest_all app co t cs = (co1\<lparr>co_scanner := sn1\<rparr>, t1, None)"
    by (rule ingest_all_pieces [OF assms(1) one])
  moreover have "flush_pty_data_on_exit app (co1\<lparr>co_scanner := sn1\<rparr>) t1
      = (co2\<lparr>co_scanner := sn2\<rparr>, t2, None)"
    using assms(2,4) two
    by (simp add: flush_pty_data_on_exit_def append_pieces_scanner append_flushed_echo_output_def
        sanitizer_flush_def append_output_def)
  ultimately show ?thesis by simp
qed

lemma at_rest_new: "at_rest new_coordinator"
  using co_ok_new by (simp add: at_rest_def new_coordinator_def new_scanner_def new_sanitizer_def)

lemma example_marker_ok: "is_run_marker example_marker"
  by (simp add: is_run_marker_def example_marker_def is_lower_hex_def is_digit_def js_eval)

lemma example_sentinel_ok: "build_signal_sentinel (js ''abcdef'') = Inr example_sentinel"
  by (simp add: build_signal_sentinel_Inr example_sentinel_def is_signal_token_def is_token_unit_def
      is_digit_def js_eval)

lemma example_tokens_ok: "list_all is_signal_token [js ''abcdef'']"
  by (simp add: is_signal_token_def is_token_unit_def is_digit_def js_eval)

lemma register_example:
  "register_waited_run new_coordinator 7 example_marker [js ''abcdef'']
     = Inr (Some ((postamble_of example_sentinel @ [10], example_sentinel),
                  registered new_coordinator 7 example_marker example_sentinel))"
proof (rule register_waited_run_ok(1) [OF co_ok_new example_marker_ok _ _ example_tokens_ok])
  show "\<not> omap_has example_marker (co_active new_coordinator)"
    by (simp add: new_coordinator_def omap_has_def)
  show "pick_sentinel new_coordinator [js ''abcdef''] = Inr (Some example_sentinel)"
    using example_sentinel_ok by (simp add: has_active_sentinel_def new_coordinator_def)
qed

lemma run_complete_bytes:
  "record_bytes (make_record 1 (js ''2024'') (RunComplete example_marker (Some 7))) = 130"
  by (simp add: record_bytes_def record_line_def json_of_record_def make_record_def quote_def
      quote_unit_def is_high_surrogate_def is_low_surrogate_def int_digits_def nat_digits.simps
      optional_field_def example_marker_def js_eval)

lemma append_run_complete_example:
  "append_log example_log (RunComplete example_marker (Some 7)) (js ''2024'') (js ''2024'')
     = Inr (1, store (make_record 1 (js ''2024'') (RunComplete example_marker (Some 7))) example_log)"
proof -
  have seq: "el_next_seq example_log = 1" by (simp add: example_log_def fresh_log_def)
  have "append_effect example_log (RunComplete example_marker (Some 7)) (js ''2024'') (js ''2024'') = Stored"
    using run_complete_bytes seq record_bytes_example
    by (simp add: append_effect_def find_stop_reason_def example_log_def fresh_log_def
        tail_reserve_bytes_def tail_reserve_entries_def)
  then show ?thesis
    using queue_append_effect [of example_log "RunComplete example_marker (Some 7)"] seq
    by (simp add: append_log_def)
qed

lemma complete_example:
  "\<exists>co' l' clk. append_piece clocked_append (registered new_coordinator 7 example_marker example_sentinel)
      (example_log, \<lambda>_. js ''2024'') (PieceComplete example_marker) = (co', (l', clk), None)
    \<and> \<not> el_stopped l'"
proof -
  let ?sz = "co_sanitizer (registered new_coordinator 7 example_marker example_sentinel)"
  have "\<exists>sz. deregister_echo ?sz example_marker = Inr ([], sz)"
    using example_marker_ok
    by (simp add: deregister_echo_def assert_run_marker_def registered_def new_coordinator_def
        new_sanitizer_def)
  moreover have "example_sentinel \<noteq> []" by (simp add: example_sentinel_def short_sentinel_prefix_def)
  ultimately show ?thesis
    using append_run_complete_example
    by (auto simp: complete_run_def append_output_def clocked_append_def registered_def
        new_coordinator_def)
qed

section \<open>Properties\<close>



text \<open>Under any interleaving of output, completions, registrations, ended waits, exits and
  appends by other handlers, no assertion of the coordinator, the scanner or the sanitizer fails:
  the only error that an ingestion can raise is one that the event log raised.\<close>

theorem coordinator_never_asserts:
  assumes "co_reach app s0 (co, s, [])"
  shows "appender_error app (snd (snd (ingest_pty_data app co s d)))"
proof -
  have "co_ok co []" using co_reach_ok [OF assms] by (simp add: state_ok_def)
  then show ?thesis using ingest_pty_data_ok by (metis prod.collapse)
qed

lemma coordinator_never_asserts_witness:
  "appender_error trace_append (snd (snd (ingest_pty_data trace_append new_coordinator [] [27, 95, 97])))"
  by (rule coordinator_never_asserts [OF co_start])

text \<open>The number a waiter gets is that of the record which completes its run. When a completion
  is appended to the host's log and the log still runs afterwards, its last record is the
  \<open>run_complete\<close> with the marker and the \<open>input_run\<close> number of the run, and the waiter of that
  marker has settled with the number of that record.\<close>

theorem completion_reports_record:
  assumes "log_sane (fst lc)" and "map_of (co_active co) m = Some run" and "m \<in> set (co_waiters co)"
    and "append_piece clocked_append co lc (PieceComplete m) = (co', lc', None)"
    and "\<not> el_stopped (fst lc')"
  shows "\<exists>r. last (get_events (fst lc')) = r
    \<and> ev_payload r = RunComplete m (Some (int (ar_input_run_seq run)))
    \<and> (m, RunCompleted (ev_seq r)) \<in> set (co_settled co')
    \<and> m \<notin> set (co_waiters co') \<and> map_of (co_active co') m = None"
proof -
  have "complete_run clocked_append co lc m run = (co', lc', None)"
    using assms(2,4) by (auto split: if_splits)
  then obtain out sz lc1 q where d: "deregister_echo (co_sanitizer co) m = Inr (out, sz)"
      and a1: "append_output clocked_append lc out = Inr lc1"
      and a2: "clocked_append lc1 (RunComplete m (Some (int (ar_input_run_seq run)))) = Inr (q, lc')"
      and co': "co' = settle_waiter (co\<lparr>co_sanitizer := sz, co_active := omap_delete m (co_active co)\<rparr>)
          m (RunCompleted q)"
    by (auto simp: complete_run_def Let_def split: sum.splits prod.splits)
  have sane: "log_sane (fst lc1)" by (rule append_output_sane [OF assms(1) a1])
  obtain ts where "el_buffer (fst lc') = el_buffer (fst lc1)
      @ [make_record (el_next_seq (fst lc1)) ts (RunComplete m (Some (int (ar_input_run_seq run))))]"
    using append_log_running [OF sane clocked_append_Inr [OF a2] assms(5)] by blast
  moreover have "ev_seq (last (el_buffer (fst lc'))) = q" by (rule clog.app_last [OF sane a2])
  ultimately show ?thesis
    using co' assms(3) by (auto simp: get_events_def settle_waiter_def)
qed

lemma completion_reports_record_witness:
  "\<exists>co' l' clk. append_piece clocked_append
      (registered new_coordinator 7 example_marker example_sentinel)
      (example_log, \<lambda>_. js ''2024'') (PieceComplete example_marker) = (co', (l', clk), None)
    \<and> ev_payload (last (get_events l')) = RunComplete example_marker (Some 7)"
proof -
  let ?co = "registered new_coordinator 7 example_marker example_sentinel"
  obtain co' l' clk where step: "append_piece clocked_append ?co (example_log, \<lambda>_. js ''2024'')
      (PieceComplete example_marker) = (co', (l', clk), None)" and "\<not> el_stopped l'"
    using complete_example by blast
  moreover have "log_sane example_log"
    by (rule log_reach_sane [OF reach_example log_sane_fresh [OF limits_example]])
  moreover have "map_of (co_active ?co) example_marker
      = Some \<lparr>ar_input_run_seq = 7, ar_sentinel = example_sentinel\<rparr>"
    "example_marker \<in> set (co_waiters ?co)"
    by (simp_all add: registered_def new_coordinator_def)
  ultimately show ?thesis
    using completion_reports_record [of "(example_log, \<lambda>_. js ''2024'')" ?co example_marker
        "\<lparr>ar_input_run_seq = 7, ar_sentinel = example_sentinel\<rparr>" co' "(l', clk)"]
    by auto
qed

end
