(* ===== verification/SessionModel.thy ===== *)
theory SessionModel
  imports Prelude
begin

text \<open>
  The session record and its life cycle in one process: the statuses and the table that classifies
  them, the operations of \<open>SessionState\<close> with every assertion, the termination category that a
  client reads, and the serial manifest writer of the host. The disk that several processes share
  is in theory \<open>SessionStore\<close>.
\<close>

section \<open>Statuses\<close>

datatype session_status = Running | Exiting | Exited | Failed | Destroying | Destroyed

datatype failure_origin = HostDeath | RendererFailure | StorageCorruption | UnknownOrigin

record status_policy =
  pol_active :: bool
  pol_terminal :: bool
  pol_commandable :: bool
  pol_live_host :: bool
  pol_offline_replay :: bool
  pol_collectable :: bool
  pol_destroyed :: bool

fun session_status_policy :: "session_status \<Rightarrow> status_policy" where
  "session_status_policy Running =
     \<lparr>pol_active = True, pol_terminal = False, pol_commandable = True, pol_live_host = True,
      pol_offline_replay = False, pol_collectable = False, pol_destroyed = False\<rparr>"
| "session_status_policy Exiting =
     \<lparr>pol_active = True, pol_terminal = False, pol_commandable = False, pol_live_host = True,
      pol_offline_replay = False, pol_collectable = False, pol_destroyed = False\<rparr>"
| "session_status_policy Exited =
     \<lparr>pol_active = False, pol_terminal = True, pol_commandable = False, pol_live_host = False,
      pol_offline_replay = True, pol_collectable = True, pol_destroyed = False\<rparr>"
| "session_status_policy Failed =
     \<lparr>pol_active = False, pol_terminal = True, pol_commandable = False, pol_live_host = False,
      pol_offline_replay = True, pol_collectable = True, pol_destroyed = False\<rparr>"
| "session_status_policy Destroying =
     \<lparr>pol_active = True, pol_terminal = False, pol_commandable = False, pol_live_host = False,
      pol_offline_replay = True, pol_collectable = False, pol_destroyed = False\<rparr>"
| "session_status_policy Destroyed =
     \<lparr>pol_active = False, pol_terminal = True, pol_commandable = False, pol_live_host = False,
      pol_offline_replay = True, pol_collectable = True, pol_destroyed = True\<rparr>"

definition policy_ok :: "status_policy \<Rightarrow> bool" where
  \<comment> \<open>What the module checks of every row when it loads.\<close>
  "policy_ok p \<longleftrightarrow> pol_active p \<noteq> pol_terminal p
     \<and> (pol_collectable p \<longrightarrow> pol_terminal p)
     \<and> (pol_commandable p \<longrightarrow> pol_active p)
     \<and> pol_live_host p \<noteq> pol_offline_replay p"

definition is_active :: "session_status \<Rightarrow> bool" where
  "is_active s = pol_active (session_status_policy s)"

definition is_terminal :: "session_status \<Rightarrow> bool" where
  "is_terminal s = pol_terminal (session_status_policy s)"

definition is_commandable :: "session_status \<Rightarrow> bool" where
  "is_commandable s = pol_commandable (session_status_policy s)"

definition is_live_host_eligible :: "session_status \<Rightarrow> bool" where
  "is_live_host_eligible s = pol_live_host (session_status_policy s)"

definition is_offline_replay_eligible :: "session_status \<Rightarrow> bool" where
  "is_offline_replay_eligible s = pol_offline_replay (session_status_policy s)"

definition is_collectable :: "session_status \<Rightarrow> bool" where
  "is_collectable s = pol_collectable (session_status_policy s)"

definition is_destroyed :: "session_status \<Rightarrow> bool" where
  "is_destroyed s = pol_destroyed (session_status_policy s)"

named_theorems status_simps \<open>the classifications of the statuses\<close>

lemma is_terminal_iff [status_simps]: "is_terminal s \<longleftrightarrow> s \<in> {Exited, Failed, Destroyed}"
  by (cases s) (simp_all add: is_terminal_def)

lemma is_active_iff [status_simps]: "is_active s \<longleftrightarrow> s \<in> {Running, Exiting, Destroying}"
  by (cases s) (simp_all add: is_active_def)

lemma is_commandable_iff [status_simps]: "is_commandable s \<longleftrightarrow> s = Running"
  by (cases s) (simp_all add: is_commandable_def)

lemma is_destroyed_iff [status_simps]: "is_destroyed s \<longleftrightarrow> s = Destroyed"
  by (cases s) (simp_all add: is_destroyed_def)

lemma is_collectable_iff [status_simps]: "is_collectable s \<longleftrightarrow> s \<in> {Exited, Failed, Destroyed}"
  by (cases s) (simp_all add: is_collectable_def)

lemma is_live_host_eligible_iff [status_simps]:
  "is_live_host_eligible s \<longleftrightarrow> s \<in> {Running, Exiting}"
  by (cases s) (simp_all add: is_live_host_eligible_def)

lemma is_offline_replay_eligible_iff [status_simps]:
  "is_offline_replay_eligible s \<longleftrightarrow> s \<notin> {Running, Exiting}"
  by (cases s) (simp_all add: is_offline_replay_eligible_def)

text \<open>The checks that the module makes when it loads never throw.\<close>

lemma status_table_ok: "policy_ok (session_status_policy s)"
  by (cases s) (simp_all add: policy_ok_def)

section \<open>The session record\<close>

record session =
  s_id :: jstring
  s_created_at :: jstring
  s_updated_at :: jstring
  s_status :: session_status
  s_failure_reason :: "jstring option"
  s_failure_origin :: "failure_origin option"
  s_command :: "jstring list"
  s_cwd :: jstring
  s_name :: "jstring option"
  s_env :: "(jstring \<times> jstring) list option"
  s_shell :: "jstring option"
  s_term :: "jstring option"
  s_cols :: int
  s_rows :: int
  s_creation_cols :: "int option"
  s_creation_rows :: "int option"
  s_idle_timeout_ms :: "int option"
  s_host_pid :: "int option"
  s_child_pid :: "int option"
  s_exit_code :: "int option"
  s_exit_signal :: "jstring option"

section \<open>The operations of the host's session state\<close>

text \<open>
  Each operation takes the time that \<open>touch\<close> reads. A dimension, a pid or an exit code is an
  integer here, so the parts of the assertions that reject fractions hold by typing.
\<close>

definition touch :: "jstring \<Rightarrow> session \<Rightarrow> session" where
  "touch now r = r\<lparr>s_updated_at := now\<rparr>"

definition set_child_pid :: "jstring \<Rightarrow> int \<Rightarrow> session \<Rightarrow> session res" where
  "set_child_pid now pid r =
     check (s_status r = Running) ''Cannot set child PID unless session is running''
     (check (s_child_pid r = None) ''Child PID has already been set''
     (check (pid > 0) ''Child PID must be a positive integer''
       (Inr (touch now (r\<lparr>s_child_pid := Some pid\<rparr>)))))"

definition set_dimensions :: "jstring \<Rightarrow> int \<Rightarrow> int \<Rightarrow> session \<Rightarrow> session res" where
  "set_dimensions now cols rows r =
     check (s_status r = Running) ''Cannot set dimensions unless session is running''
     (check (cols > 0) ''Columns must be a positive integer''
     (check (rows > 0) ''Rows must be a positive integer''
       (Inr (touch now (r\<lparr>s_cols := cols, s_rows := rows\<rparr>)))))"

fun status_text :: "session_status \<Rightarrow> jstring" where
  "status_text Running = js ''running''"
| "status_text Exiting = js ''exiting''"
| "status_text Exited = js ''exited''"
| "status_text Failed = js ''failed''"
| "status_text Destroying = js ''destroying''"
| "status_text Destroyed = js ''destroyed''"

definition set_failure_origin :: "jstring \<Rightarrow> failure_origin \<Rightarrow> session \<Rightarrow> session res" where
  "set_failure_origin now origin r =
     check_str (s_status r = Failed)
       (js ''Cannot set failureOrigin on '' @ status_text (s_status r) @ js '' session'')
     (check (s_failure_reason r \<noteq> None) ''Cannot set failureOrigin without failureReason''
       (Inr (touch now (r\<lparr>s_failure_origin := Some origin\<rparr>))))"

definition request_destroy :: "jstring \<Rightarrow> session \<Rightarrow> session res" where
  "request_destroy now r =
     check (s_status r \<noteq> Destroyed) ''Cannot destroy an already destroyed session''
     (check (s_status r \<noteq> Destroying) ''Session is already being destroyed''
     (check_str (s_status r \<in> {Running, Exited, Failed})
        (js ''Cannot request destroy in current state: '' @ status_text (s_status r))
       (Inr (touch now (r\<lparr>s_status := Destroying\<rparr>)))))"

type_synonym exit_info = "int option \<times> jstring option"

definition record_destroyed :: "jstring \<Rightarrow> exit_info option \<Rightarrow> session \<Rightarrow> session res" where
  "record_destroyed now info r =
     check_str (s_status r = Destroying)
       (js ''Cannot record destroyed unless session is destroying, current status: ''
          @ status_text (s_status r))
       (let r1 = (case info of None \<Rightarrow> r
                  | Some (code, sig) \<Rightarrow> r\<lparr>s_exit_code := code, s_exit_signal := sig\<rparr>)
        in Inr (touch now (r1\<lparr>s_status := Destroyed\<rparr>)))"

definition record_exit :: "jstring \<Rightarrow> int option \<Rightarrow> jstring option \<Rightarrow> session \<Rightarrow> session res" where
  "record_exit now code sig r =
     check (s_status r = Running \<or> s_status r = Exiting)
       ''Cannot record exit after session has exited''
     (check (s_exit_code r = None \<and> s_exit_signal r = None)
       ''Session exit has already been recorded''
       (Inr (touch now (r\<lparr>s_exit_code := code, s_exit_signal := sig, s_status := Exited\<rparr>))))"

text \<open>One call on the state, so that a sequence of calls can be followed.\<close>

datatype state_call =
    SetChildPid int | SetDimensions int int | SetFailureOrigin failure_origin
  | RequestDestroy | RecordDestroyed "exit_info option" | RecordExit "int option" "jstring option"

fun call_state :: "jstring \<Rightarrow> state_call \<Rightarrow> session \<Rightarrow> session res" where
  "call_state now (SetChildPid p) r = set_child_pid now p r"
| "call_state now (SetDimensions c w) r = set_dimensions now c w r"
| "call_state now (SetFailureOrigin f) r = set_failure_origin now f r"
| "call_state now RequestDestroy r = request_destroy now r"
| "call_state now (RecordDestroyed i) r = record_destroyed now i r"
| "call_state now (RecordExit c s) r = record_exit now c s r"

fun try_calls :: "(jstring \<times> state_call) list \<Rightarrow> session \<Rightarrow> session" where
  \<comment> \<open>The calls in order; one that throws changes nothing.\<close>
  "try_calls [] r = r"
| "try_calls ((now, c) # cs) r = try_calls cs (case call_state now c r of Inr r' \<Rightarrow> r' | Inl _ \<Rightarrow> r)"

section \<open>What a client reads\<close>

datatype termination_category =
    StillRunning | CatDestroyed | CatHostDeath | CatRendererFailure | CatStorageCorruption
  | CatUnknown | SignalExit | CleanExit | NonzeroExit

definition derive_termination_category :: "session \<Rightarrow> termination_category" where
  "derive_termination_category r =
     (case s_status r of
        Running \<Rightarrow> StillRunning
      | Exiting \<Rightarrow> StillRunning
      | Destroying \<Rightarrow> CatDestroyed
      | Destroyed \<Rightarrow> CatDestroyed
      | Failed \<Rightarrow>
          (case s_failure_origin r of
             Some HostDeath \<Rightarrow> CatHostDeath
           | Some RendererFailure \<Rightarrow> CatRendererFailure
           | Some StorageCorruption \<Rightarrow> CatStorageCorruption
           | _ \<Rightarrow> CatUnknown)
      | Exited \<Rightarrow>
          (if s_exit_signal r \<noteq> None then SignalExit
           else if s_exit_code r = Some 0 \<or> s_exit_code r = None then CleanExit
           else NonzeroExit))"

definition normalize_exit_signal :: "int option \<Rightarrow> jstring option res" where
  "normalize_exit_signal sig =
     check (case sig of None \<Rightarrow> True | Some n \<Rightarrow> n \<ge> 0)
       ''PTY exit signal must be a non-negative integer or null''
       (Inr (case sig of None \<Rightarrow> None | Some n \<Rightarrow> if n = 0 then None else Some (int_digits n)))"

definition assert_session_commandable :: "session \<Rightarrow> unit res" where
  "assert_session_commandable r =
     (if is_commandable (s_status r) then Inr ()
      else Inl (Cli SESSION_NOT_RUNNING (js ''Session is not running.'')))"

section \<open>The serial manifest writer\<close>

text \<open>
  \<open>tail\<close> runs one write after the other. A request waits in \<open>mw_waiting\<close>; when its turn comes it
  takes its snapshot, unless a terminal record was written before. The result of the write is an
  input: a write that fails changes neither the file nor \<open>wroteTerminal\<close>, and the next request
  still runs.
\<close>

record manifest_writer =
  mw_wrote_terminal :: bool
  mw_waiting :: nat
  mw_writing :: "session option"

definition new_manifest_writer :: manifest_writer where
  "new_manifest_writer = \<lparr>mw_wrote_terminal = False, mw_waiting = 0, mw_writing = None\<rparr>"

definition request_write :: "manifest_writer \<Rightarrow> manifest_writer" where
  "request_write w = w\<lparr>mw_waiting := Suc (mw_waiting w)\<rparr>"

definition begin_write :: "session \<Rightarrow> manifest_writer \<Rightarrow> manifest_writer" where
  "begin_write snapshot w =
     (if mw_writing w \<noteq> None \<or> mw_waiting w = 0 then w
      else if mw_wrote_terminal w then w\<lparr>mw_waiting := mw_waiting w - 1\<rparr>
      else w\<lparr>mw_waiting := mw_waiting w - 1, mw_writing := Some snapshot\<rparr>)"

definition end_write :: "bool \<Rightarrow> manifest_writer \<Rightarrow> session option \<times> manifest_writer" where
  \<comment> \<open>The record that the file gets, if the write lands.\<close>
  "end_write lands w =
     (case mw_writing w of
        None \<Rightarrow> (None, w)
      | Some r \<Rightarrow>
          (if lands
           then (Some r, w\<lparr>mw_writing := None, mw_wrote_terminal := is_terminal (s_status r)\<rparr>)
           else (None, w\<lparr>mw_writing := None\<rparr>)))"

datatype writer_event = WRequest | WBegin session | WEnd bool

fun writer_run :: "writer_event list \<Rightarrow> manifest_writer \<Rightarrow> session list \<times> manifest_writer" where
  \<comment> \<open>The records written, in order.\<close>
  "writer_run [] w = ([], w)"
| "writer_run (WRequest # es) w = writer_run es (request_write w)"
| "writer_run (WBegin r # es) w = writer_run es (begin_write r w)"
| "writer_run (WEnd b # es) w =
     (let (rec, w1) = end_write b w; (rs, w2) = writer_run es w1
      in (case rec of None \<Rightarrow> rs | Some r \<Rightarrow> r # rs, w2))"

section \<open>The life cycle is one way\<close>

fun status_rank :: "session_status \<Rightarrow> nat" where
  "status_rank Running = 0"
| "status_rank Exiting = 1"
| "status_rank Exited = 2"
| "status_rank Failed = 2"
| "status_rank Destroying = 3"
| "status_rank Destroyed = 4"

definition same_identity :: "session \<Rightarrow> session \<Rightarrow> bool" where
  \<comment> \<open>The fields that no operation of the host changes.\<close>
  "same_identity r r' \<longleftrightarrow>
     s_id r' = s_id r \<and> s_created_at r' = s_created_at r \<and> s_command r' = s_command r
   \<and> s_cwd r' = s_cwd r \<and> s_name r' = s_name r \<and> s_env r' = s_env r \<and> s_shell r' = s_shell r
   \<and> s_term r' = s_term r \<and> s_creation_cols r' = s_creation_cols r
   \<and> s_creation_rows r' = s_creation_rows r \<and> s_idle_timeout_ms r' = s_idle_timeout_ms r
   \<and> s_host_pid r' = s_host_pid r \<and> s_failure_reason r' = s_failure_reason r"

definition dimensions_ok :: "session \<Rightarrow> bool" where
  "dimensions_ok r \<longleftrightarrow> s_cols r > 0 \<and> s_rows r > 0 \<and> (\<forall>p. s_child_pid r = Some p \<longrightarrow> p > 0)"

lemmas state_call_defs = set_child_pid_def set_dimensions_def set_failure_origin_def
  request_destroy_def record_destroyed_def record_exit_def touch_def

lemma same_identity_refl [simp]: "same_identity r r"
  by (simp add: same_identity_def)

lemma same_identity_trans:
  "same_identity r r1 \<Longrightarrow> same_identity r1 r2 \<Longrightarrow> same_identity r r2"
  by (simp add: same_identity_def)

lemma call_state_rank: "call_state now c r = Inr r' \<Longrightarrow> status_rank (s_status r) \<le> status_rank (s_status r')"
  by (cases c) (auto simp: state_call_defs res_simps Let_def split: option.splits prod.splits)

lemma call_state_identity: "call_state now c r = Inr r' \<Longrightarrow> same_identity r r'"
  by (cases c)
     (auto simp: state_call_defs res_simps Let_def same_identity_def split: option.splits prod.splits)

lemma call_state_dimensions: "call_state now c r = Inr r' \<Longrightarrow> dimensions_ok r \<Longrightarrow> dimensions_ok r'"
  by (cases c)
     (auto simp: state_call_defs res_simps Let_def dimensions_ok_def split: option.splits prod.splits)

lemma call_state_child: "call_state now c r = Inr r' \<Longrightarrow> s_child_pid r = Some p \<Longrightarrow> s_child_pid r' = Some p"
  by (cases c) (auto simp: state_call_defs res_simps Let_def split: option.splits prod.splits)

lemma call_state_destroyed: "s_status r = Destroyed \<Longrightarrow> \<exists>e. call_state now c r = Inl e"
  by (cases c) (auto simp: state_call_defs Let_def)

lemma try_calls_step:
  "r1 = (case call_state now c r of Inr r' \<Rightarrow> r' | Inl _ \<Rightarrow> r) \<Longrightarrow>
     status_rank (s_status r) \<le> status_rank (s_status r1) \<and> same_identity r r1
   \<and> (dimensions_ok r \<longrightarrow> dimensions_ok r1)
   \<and> (\<forall>p. s_child_pid r = Some p \<longrightarrow> s_child_pid r1 = Some p)
   \<and> (s_status r = Destroyed \<longrightarrow> r1 = r)"
  using call_state_rank call_state_identity call_state_dimensions call_state_child
    call_state_destroyed [of r now c]
  by (cases "call_state now c r") fastforce+

lemma try_calls_props:
  "status_rank (s_status r) \<le> status_rank (s_status (try_calls cs r)) \<and> same_identity r (try_calls cs r)
   \<and> (dimensions_ok r \<longrightarrow> dimensions_ok (try_calls cs r))
   \<and> (\<forall>p. s_child_pid r = Some p \<longrightarrow> s_child_pid (try_calls cs r) = Some p)
   \<and> (s_status r = Destroyed \<longrightarrow> try_calls cs r = r)"
proof (induction cs arbitrary: r)
  case Nil
  then show ?case by simp
next
  case (Cons nc cs)
  obtain now c where nc: "nc = (now, c)" by (cases nc)
  define r1 where "r1 = (case call_state now c r of Inr r' \<Rightarrow> r' | Inl _ \<Rightarrow> r)"
  have tail: "try_calls (nc # cs) r = try_calls cs r1"
    by (simp add: nc r1_def)
  show ?case
    unfolding tail using try_calls_step [OF r1_def] Cons.IH [of r1] same_identity_trans
    by (metis le_trans)
qed

text \<open>C25: Whatever calls reach a session's state, in whatever order and failing or not: the status
  only moves forward (running, exiting, exited or failed, destroying, destroyed), and at most once
  through each stage; the identity of the session, its command and its host pid never change; the
  size and the child pid stay positive and the child pid is set once; and a destroyed record is
  never changed again, not even its time.
\<close>
theorem session_state_lifecycle:
  "let r' = try_calls cs r in
     status_rank (s_status r) \<le> status_rank (s_status r')
   \<and> same_identity r r'
   \<and> (dimensions_ok r \<longrightarrow> dimensions_ok r')
   \<and> (\<forall>p. s_child_pid r = Some p \<longrightarrow> s_child_pid r' = Some p)
   \<and> (s_status r = Destroyed \<longrightarrow> r' = r)"
  using try_calls_props [of r cs] by (simp add: Let_def)

section \<open>A terminal manifest is the last one\<close>

definition writer_done :: "manifest_writer \<Rightarrow> bool" where
  "writer_done w \<longleftrightarrow> mw_wrote_terminal w \<and> mw_writing w = None"

lemma writer_run_done: "writer_done w \<Longrightarrow> fst (writer_run es w) = []"
proof (induction es arbitrary: w)
  case Nil
  then show ?case by simp
next
  case (Cons e es)
  then show ?case
  proof (cases e)
    case WRequest
    moreover have "writer_done (request_write w)"
      using Cons.prems by (simp add: writer_done_def request_write_def)
    ultimately show ?thesis using Cons.IH by simp
  next
    case (WBegin r)
    moreover have "writer_done (begin_write r w)"
      using Cons.prems by (auto simp: writer_done_def begin_write_def)
    ultimately show ?thesis using Cons.IH by simp
  next
    case (WEnd b)
    moreover have "end_write b w = (None, w)"
      using Cons.prems by (simp add: writer_done_def end_write_def)
    ultimately show ?thesis using Cons.IH [OF Cons.prems] by (simp split: prod.split)
  qed
qed

definition writer_ok :: "manifest_writer \<Rightarrow> bool" where
  "writer_ok w \<longleftrightarrow> mw_writing w \<noteq> None \<longrightarrow> \<not> mw_wrote_terminal w"

definition begun :: "writer_event list \<Rightarrow> session set" where
  "begun es = {r. WBegin r \<in> set es}"

lemma begin_write_ok: "writer_ok w \<Longrightarrow> writer_ok (begin_write r w)"
  by (auto simp: writer_ok_def begin_write_def)

lemma end_write_cases:
  assumes "writer_ok w" and "end_write b w = (rec, w1)"
  shows "(rec = None \<and> (writer_ok w1)) \<or>
     (\<exists>r. rec = Some r \<and> mw_writing w = Some r \<and> writer_ok w1
        \<and> (is_terminal (s_status r) \<longrightarrow> writer_done w1))"
  using assms by (auto simp: end_write_def writer_ok_def writer_done_def split: option.splits if_splits)

lemma end_write_writing: "end_write b w = (rec, w1) \<Longrightarrow> mw_writing w1 = None"
  by (auto simp: end_write_def split: option.splits if_splits)

lemma butlast_Cons_subset: "rs \<noteq> [] \<Longrightarrow> set (butlast (r # rs)) = insert r (set (butlast rs))"
  by simp

lemma writer_run_terminal_last:
  "writer_ok w \<Longrightarrow>
     (\<forall>r \<in> set (butlast (fst (writer_run es w))). \<not> is_terminal (s_status r))
   \<and> set (fst (writer_run es w)) \<subseteq> begun es \<union> set_option (mw_writing w)"
proof (induction es arbitrary: w)
  case Nil
  then show ?case by simp
next
  case (Cons e es)
  show ?case
  proof (cases e)
    case WRequest
    have "writer_ok (request_write w)" "mw_writing (request_write w) = mw_writing w"
      using Cons.prems by (simp_all add: request_write_def writer_ok_def)
    with Cons.IH [of "request_write w"] WRequest show ?thesis by (simp add: begun_def)
  next
    case (WBegin r)
    have "set_option (mw_writing (begin_write r w)) \<subseteq> insert r (set_option (mw_writing w))"
      by (auto simp: begin_write_def)
    with Cons.IH [OF begin_write_ok [OF Cons.prems]] WBegin show ?thesis
      by (fastforce simp: begun_def)
  next
    case (WEnd b)
    obtain rec w1 where e: "end_write b w = (rec, w1)" by fastforce
    have mono: "begun es \<subseteq> begun (WEnd b # es)" by (auto simp: begun_def)
    from end_write_cases [OF Cons.prems e] show ?thesis
    proof (elim disjE exE conjE)
      assume "rec = None" "writer_ok w1"
      with Cons.IH [of w1] WEnd e mono end_write_writing [OF e] show ?thesis
        by (auto split: prod.splits)
    next
      fix r
      assume r: "rec = Some r" "mw_writing w = Some r" "writer_ok w1"
        "is_terminal (s_status r) \<longrightarrow> writer_done w1"
      have run: "fst (writer_run (e # es) w) = r # fst (writer_run es w1)"
        using WEnd e r(1) by (simp split: prod.splits)
      show ?thesis
      proof (cases "fst (writer_run es w1) = []")
        case True
        with run r(2) show ?thesis by simp
      next
        case False
        then have "\<not> is_terminal (s_status r)" using writer_run_done r(4) by blast
        with False run Cons.IH [OF r(3)] r(2) WEnd mono end_write_writing [OF e] show ?thesis
          by auto
      qed
    qed
  qed
qed

text \<open>C26: However requests, snapshots and write failures interleave, the host's writer never writes a
  record after a terminal one, and it writes only snapshots it took: a record that another process
  stores over a terminal manifest is safe from this host.
\<close>
theorem terminal_manifest_is_final:
  "writer_run es new_manifest_writer = (rs, w) \<Longrightarrow>
     (\<forall>r \<in> set (butlast rs). \<not> is_terminal (s_status r)) \<and> set rs \<subseteq> {r. WBegin r \<in> set es}"
  using writer_run_terminal_last [of new_manifest_writer es]
  by (auto simp: writer_ok_def new_manifest_writer_def begun_def)

definition example_session :: session where
  "example_session =
     \<lparr>s_id = js ''01'', s_created_at = js ''t0'', s_updated_at = js ''t0'', s_status = Running,
      s_failure_reason = None, s_failure_origin = None, s_command = [js ''sh''], s_cwd = js ''/'',
      s_name = None, s_env = None, s_shell = Some (js ''sh''), s_term = Some (js ''xterm''),
      s_cols = 80, s_rows = 24, s_creation_cols = Some 80, s_creation_rows = Some 24,
      s_idle_timeout_ms = None, s_host_pid = Some 41, s_child_pid = None, s_exit_code = None,
      s_exit_signal = None\<rparr>"

definition example_writes :: "writer_event list" where
  "example_writes =
     [WRequest, WBegin example_session, WRequest, WEnd True,
      WBegin (example_session\<lparr>s_status := Exited\<rparr>), WEnd False, WRequest, WRequest,
      WBegin (example_session\<lparr>s_status := Exited\<rparr>), WEnd True, WBegin example_session, WEnd True]"

lemma example_writes_run:
  "fst (writer_run example_writes new_manifest_writer) =
     [example_session, example_session\<lparr>s_status := Exited\<rparr>]"
  by (simp add: example_writes_def example_session_def new_manifest_writer_def request_write_def
      begin_write_def end_write_def is_terminal_iff)

theorem terminal_manifest_is_final_witness:
  "fst (writer_run example_writes new_manifest_writer) =
     [example_session, example_session\<lparr>s_status := Exited\<rparr>]
   \<and> \<not> is_terminal (s_status example_session)"
proof -
  have "writer_run example_writes new_manifest_writer =
      ([example_session, example_session\<lparr>s_status := Exited\<rparr>],
       snd (writer_run example_writes new_manifest_writer))"
    by (metis example_writes_run prod.collapse)
  from terminal_manifest_is_final [OF this] example_writes_run show ?thesis by simp
qed


definition example_calls :: "(jstring \<times> state_call) list" where
  "example_calls =
     [(js ''t1'', SetChildPid 7), (js ''t2'', SetChildPid 8), (js ''t3'', SetDimensions 100 0),
      (js ''t4'', RequestDestroy), (js ''t5'', RecordExit (Some 1) None),
      (js ''t6'', RecordDestroyed (Some (Some 1, None)))]"

lemma example_calls_run:
  "try_calls example_calls example_session = example_session
     \<lparr>s_child_pid := Some 7, s_exit_code := Some 1, s_status := Destroyed, s_updated_at := js ''t6''\<rparr>"
  by (simp add: example_calls_def example_session_def state_call_defs)

theorem session_state_lifecycle_witness:
  "dimensions_ok example_session \<and> dimensions_ok (try_calls example_calls example_session)
   \<and> same_identity example_session (try_calls example_calls example_session)
   \<and> try_calls [(js ''t7'', RequestDestroy)] (try_calls example_calls example_session)
        = try_calls example_calls example_session"
proof -
  have "dimensions_ok example_session" by (simp add: dimensions_ok_def example_session_def)
  moreover have "s_status (try_calls example_calls example_session) = Destroyed"
    by (simp add: example_calls_run)
  ultimately show ?thesis
    using session_state_lifecycle [of example_calls example_session]
      session_state_lifecycle [of "[(js ''t7'', RequestDestroy)]" "try_calls example_calls example_session"]
    unfolding Let_def by blast
qed

end
