(* ===== verification/SessionStore.thy ===== *)
theory SessionStore
  imports SessionModel
begin

text \<open>
  A session's folder as the processes share it: the manifest file and the destroy marker. The host
  of the session writes the manifest through its serial writer; any number of other processes run
  \<open>reconcileSession\<close> and \<open>destroySession\<close> on the same folder, and gc can remove it. Each routine is
  a machine whose phases are the places where the code awaits, so a step of one process is the
  code between two awaits, and the steps of all processes interleave. What the operating system
  answers (liveness, whether the program's group ended, whether a write lands, the answer of the
  RPC) is the input of a step.
\<close>

section \<open>The folder\<close>

record folder =
  fo_manifest :: "session option"
  fo_marker :: bool

definition not_found :: js_error where
  \<comment> \<open>The message of every such error starts with these words and names the session.\<close>
  "not_found = Cli SESSION_NOT_FOUND (js ''Session'')"

definition write_manifest :: "bool \<Rightarrow> session \<Rightarrow> folder \<Rightarrow> folder res" where
  \<comment> \<open>A write through a temporary file and a rename: it lands whole or not at all.\<close>
  "write_manifest lands r d =
     (if fo_manifest d = None then Inl not_found
      else if lands then Inr (d\<lparr>fo_manifest := Some r\<rparr>)
      else Inl (Cli STORAGE_WRITE_ERROR (js ''Failed to write session manifest'')))"

definition write_destroy_marker :: "bool \<Rightarrow> folder \<Rightarrow> folder res" where
  "write_destroy_marker lands d =
     (if fo_manifest d = None then Inl not_found
      else if lands then Inr (d\<lparr>fo_marker := True\<rparr>)
      else Inl (Cli STORAGE_WRITE_ERROR (js ''Failed to write destroy marker'')))"

definition is_marked_destroyed :: "session \<Rightarrow> folder \<Rightarrow> bool" where
  "is_marked_destroyed m d \<longleftrightarrow>
     is_terminal (s_status m) \<and> \<not> is_destroyed (s_status m) \<and> fo_marker d"

section \<open>What a step sees of the system\<close>

datatype group_outcome = GroupGone | GroupLives | GroupThrows js_error

datatype rpc_outcome = RpcAnswered | RpcUnreachable js_error | RpcThrows js_error

record step_input =
  in_now :: jstring
  in_host_alive :: bool
  in_group :: group_outcome
  in_lands :: bool
  in_rpc :: rpc_outcome
  in_throw :: "js_error option"

section \<open>reconcileSession\<close>

fun reconciled_status :: "session_status \<Rightarrow> session_status" where
  "reconciled_status Running = Failed"
| "reconciled_status Exiting = Exited"
| "reconciled_status Destroying = Destroyed"
| "reconciled_status _ = Failed"

definition reconciled_failure :: "session \<Rightarrow> (jstring \<times> failure_origin) option" where
  "reconciled_failure r =
     (case s_status r of
        Running \<Rightarrow>
          Some (case s_host_pid r of
                  Some p \<Rightarrow> js ''host process died unexpectedly (pid: '' @ int_digits p @ js '')''
                | None \<Rightarrow> js ''host process died unexpectedly'', HostDeath)
      | Exiting \<Rightarrow> None
      | Destroying \<Rightarrow> None
      | _ \<Rightarrow> Some (js ''unexpected pre-reconcile status: '' @ status_text (s_status r), UnknownOrigin))"

definition reconciled_manifest :: "jstring \<Rightarrow> session \<Rightarrow> session" where
  "reconciled_manifest now r =
     (let r1 = r\<lparr>s_status := reconciled_status (s_status r), s_updated_at := now,
                 s_host_pid := None, s_child_pid := None\<rparr>
      in case reconciled_failure r of
           None \<Rightarrow> r1
         | Some (reason, origin) \<Rightarrow> r1\<lparr>s_failure_reason := Some reason, s_failure_origin := Some origin\<rparr>)"

definition marked_manifest :: "jstring \<Rightarrow> session \<Rightarrow> session" where
  \<comment> \<open>What \<open>writeMarkedDestroyed\<close> stores.\<close>
  "marked_manifest now r =
     r\<lparr>s_failure_reason := None, s_failure_origin := None, s_status := Destroyed,
       s_updated_at := now, s_host_pid := None, s_child_pid := None\<rparr>"

definition redestroyed_manifest :: "jstring \<Rightarrow> session \<Rightarrow> session" where
  \<comment> \<open>The second write of \<open>reconcileSession\<close>, over the record it read last.\<close>
  "redestroyed_manifest now r =
     r\<lparr>s_status := Destroyed, s_updated_at := now, s_host_pid := None, s_child_pid := None\<rparr>"

datatype recon_phase =
    RStart            \<comment> \<open>before the first read\<close>
  | RRead session     \<comment> \<open>the first read came back\<close>
  | RRepair session   \<comment> \<open>about to write a marked session as destroyed\<close>
  | RJudge session    \<comment> \<open>judging the host\<close>
  | RCurrent          \<comment> \<open>the host is dead; before the second read\<close>
  | RWait             \<comment> \<open>stopping the group and waiting for it\<close>
  | RLatest           \<comment> \<open>the group is gone; before the third read\<close>
  | RWrite session    \<comment> \<open>about to write the reconciled record\<close>
  | RMark session     \<comment> \<open>it landed; about to look for the marker\<close>
  | RAgain session    \<comment> \<open>about to write destroyed\<close>
  | RDone
  | RThrow js_error

definition read_active :: "folder \<Rightarrow> session option" where
  \<comment> \<open>A read whose caller goes on only for a manifest that is there and not terminal.\<close>
  "read_active d =
     (case fo_manifest d of
        None \<Rightarrow> None
      | Some m \<Rightarrow> if is_terminal (s_status m) then None else Some m)"

definition after_write :: "folder res \<Rightarrow> folder \<Rightarrow> recon_phase \<Rightarrow> folder \<times> recon_phase" where
  \<comment> \<open>A missing folder ends the reconcile quietly; other errors pass on.\<close>
  "after_write w d next_phase =
     (case w of
        Inr d' \<Rightarrow> (d', next_phase)
      | Inl e \<Rightarrow> (d, if e = not_found then RDone else RThrow e))"

fun recon_step :: "step_input \<Rightarrow> folder \<Rightarrow> recon_phase \<Rightarrow> folder \<times> recon_phase" where
  "recon_step i d RStart =
     (d, case fo_manifest d of None \<Rightarrow> RDone | Some m \<Rightarrow> RRead m)"
| "recon_step i d (RRead m) =
     (d, if is_marked_destroyed m d then RRepair m
         else if is_terminal (s_status m) then RDone
         else RJudge m)"
| "recon_step i d (RRepair m) =
     after_write (write_manifest (in_lands i) (marked_manifest (in_now i) m) d) d RDone"
| "recon_step i d (RJudge m) =
     (d, if s_host_pid m \<noteq> None \<and> in_host_alive i then RDone else RCurrent)"
| "recon_step i d RCurrent =
     (d, case read_active d of None \<Rightarrow> RDone | Some _ \<Rightarrow> RWait)"
| "recon_step i d RWait =
     (d, case in_group i of GroupGone \<Rightarrow> RLatest | GroupLives \<Rightarrow> RDone | GroupThrows e \<Rightarrow> RThrow e)"
| "recon_step i d RLatest =
     (d, case read_active d of None \<Rightarrow> RDone | Some l \<Rightarrow> RWrite l)"
| "recon_step i d (RWrite l) =
     after_write (write_manifest (in_lands i) (reconciled_manifest (in_now i) l) d) d (RMark l)"
| "recon_step i d (RMark l) =
     (d, if reconciled_status (s_status l) \<noteq> Destroyed \<and> fo_marker d then RAgain l else RDone)"
| "recon_step i d (RAgain l) =
     after_write (write_manifest (in_lands i) (redestroyed_manifest (in_now i) l) d) d RDone"
| "recon_step i d RDone = (d, RDone)"
| "recon_step i d (RThrow e) = (d, RThrow e)"

fun recon_run :: "step_input list \<Rightarrow> folder \<Rightarrow> recon_phase \<Rightarrow> folder \<times> recon_phase" where
  \<comment> \<open>A reconcile that no other process disturbs.\<close>
  "recon_run [] d p = (d, p)"
| "recon_run (i # is) d p = (let (d', p') = recon_step i d p in recon_run is d' p')"

section \<open>destroySession\<close>

definition destroy_max_attempts :: nat where
  "destroy_max_attempts = 50"

datatype destroy_phase =
    DStart bool                   \<comment> \<open>whether \<open>force\<close> is set\<close>
  | DLeft session                 \<comment> \<open>a terminal record: stop what the program left\<close>
  | DForce1                       \<comment> \<open>force: stop the host and the group\<close>
  | DForce2                       \<comment> \<open>the host is dead: read again\<close>
  | DForce3 session               \<comment> \<open>stop the processes that this read names\<close>
  | DRpc                          \<comment> \<open>ask the host\<close>
  | DPoll nat                     \<comment> \<open>wait for a terminal manifest\<close>
  | DRecon recon_phase js_error   \<comment> \<open>reconcile; the error to throw if it stays active\<close>
  | DRecord session               \<comment> \<open>\<open>recordDestroyed\<close>: its assertion\<close>
  | DMark session                 \<comment> \<open>write the marker\<close>
  | DWrite session                \<comment> \<open>write the record\<close>
  | DUnlink                       \<comment> \<open>remove the sockets\<close>
  | DDone "unit res"

definition already_destroyed :: js_error where
  "already_destroyed = Cli SESSION_ALREADY_DESTROYED (js ''Session'')"

definition force_timeout :: js_error where
  "force_timeout = Cli HOST_TIMEOUT (js ''Timed out forcing session'')"

definition destroy_timeout :: js_error where
  "destroy_timeout = Cli HOST_TIMEOUT (js ''Timed out waiting for session'')"

definition destroyed_manifest :: "jstring \<Rightarrow> session \<Rightarrow> session" where
  "destroyed_manifest now m = m\<lparr>s_status := Destroyed, s_updated_at := now\<rparr>"

definition after_stop :: "bool \<Rightarrow> step_input \<Rightarrow> destroy_phase \<Rightarrow> destroy_phase" where
  \<comment> \<open>\<open>stopUnlessUnreadable\<close>, waiting for the host where the code names one: it goes on only when
     the host was seen dead and the group gone, or when force ignores a group it cannot read.\<close>
  "after_stop names_host i next_phase =
     (case in_group i of
        GroupThrows e \<Rightarrow> DDone (Inl e)
      | GroupLives \<Rightarrow> DDone (Inl force_timeout)
      | GroupGone \<Rightarrow> if names_host \<and> in_host_alive i then DDone (Inl force_timeout) else next_phase)"

fun destroy_step :: "step_input \<Rightarrow> folder \<Rightarrow> destroy_phase \<Rightarrow> folder \<times> destroy_phase" where
  "destroy_step i d (DStart force) =
     (d, case in_throw i of
           Some e \<Rightarrow> DDone (Inl e)
         | None \<Rightarrow>
           (case fo_manifest d of
              None \<Rightarrow> DDone (Inl not_found)
            | Some m \<Rightarrow>
                if is_destroyed (s_status m) then DDone (Inl already_destroyed)
                else if is_terminal (s_status m) then DLeft m
                else if force then DForce1
                else DRpc))"
| "destroy_step i d (DLeft m) = (d, after_stop False i (DRecord m))"
| "destroy_step i d DForce1 = (d, after_stop True i DForce2)"
| "destroy_step i d DForce2 =
     (d, case fo_manifest d of None \<Rightarrow> DDone (Inl not_found) | Some c \<Rightarrow> DForce3 c)"
| "destroy_step i d (DForce3 c) = (d, after_stop True i (DRecord c))"
| "destroy_step i d DRpc =
     (d, case in_rpc i of
           RpcAnswered \<Rightarrow> DPoll 0
         | RpcUnreachable e \<Rightarrow> DRecon RStart e
         | RpcThrows e \<Rightarrow> DDone (Inl e))"
| "destroy_step i d (DPoll k) =
     (d, case in_throw i of
           Some e \<Rightarrow> DDone (Inl e)
         | None \<Rightarrow>
           (case fo_manifest d of
              None \<Rightarrow> DDone (Inl (Cli STORAGE_READ_ERROR (js ''Failed to read session manifest'')))
            | Some m \<Rightarrow>
                if is_terminal (s_status m) then DLeft m
                else if k + 1 < destroy_max_attempts then DPoll (k + 1)
                else DRecon RStart destroy_timeout))"
| "destroy_step i d (DRecon p e) =
     (case p of
        RThrow e' \<Rightarrow> (d, DDone (Inl e'))
      | RDone \<Rightarrow>
          (d, case fo_manifest d of
                None \<Rightarrow> DDone (Inl not_found)
              | Some m \<Rightarrow> if is_terminal (s_status m) then DLeft m else DDone (Inl e))
      | _ \<Rightarrow> (let (d', p') = recon_step i d p in (d', DRecon p' e)))"
| "destroy_step i d (DRecord m) =
     (d, if is_terminal (s_status m) \<or> (\<not> in_host_alive i \<and> in_group i = GroupGone)
         then if is_destroyed (s_status m) then DUnlink else DMark m
         else DDone (Inl (Assertion
                (js ''recordDestroyed needs a terminal manifest or dead session processes''))))"
| "destroy_step i d (DMark m) =
     (case write_destroy_marker (in_lands i) d of
        Inl e \<Rightarrow> (d, DDone (Inl e))
      | Inr d' \<Rightarrow> (d', DWrite m))"
| "destroy_step i d (DWrite m) =
     (case write_manifest (in_lands i) (destroyed_manifest (in_now i) m) d of
        Inl e \<Rightarrow> (d, DDone (Inl e))
      | Inr d' \<Rightarrow> (d', DUnlink))"
| "destroy_step i d DUnlink =
     (d, DDone (case in_throw i of Some e \<Rightarrow> Inl e | None \<Rightarrow> Inr ()))"
| "destroy_step i d (DDone r) = (d, DDone r)"

section \<open>The host\<close>

record session_host =
  ho_alive :: bool
  ho_state :: session
  ho_writer :: manifest_writer
  ho_exit_handled :: bool
  ho_exit :: "(session_status \<times> exit_info) option"
    \<comment> \<open>after the PTY exit, until its continuation ran: the status then and the exit\<close>
  ho_shutdown :: bool

datatype host_event =
    HSpawn int                 \<comment> \<open>the program started with this pid\<close>
  | HPersist                   \<comment> \<open>\<open>persistManifest()\<close> once the socket listens\<close>
  | HResize int int            \<comment> \<open>the \<open>resize\<close> request\<close>
  | HShutdown                  \<comment> \<open>\<open>initiateShutdown\<close>\<close>
  | HPtyExit int "int option"  \<comment> \<open>\<open>handlePtyExit\<close>\<close>
  | HExitDone bool             \<comment> \<open>its continuation; whether the group ended\<close>
  | HBegin                     \<comment> \<open>the writer starts the next write\<close>
  | HEnd bool                  \<comment> \<open>the write settles\<close>

definition host_set :: "session \<Rightarrow> session_host \<Rightarrow> session_host" where
  \<comment> \<open>A change of the state followed by \<open>persistManifest()\<close>.\<close>
  "host_set r h = h\<lparr>ho_state := r, ho_writer := request_write (ho_writer h)\<rparr>"

definition handle_pty_exit :: "jstring \<Rightarrow> int \<Rightarrow> int option \<Rightarrow> session_host \<Rightarrow> session_host res" where
  "handle_pty_exit now code sig h =
     check (\<not> ho_exit_handled h) ''PTY exit must only be handled once''
     (bind_res (normalize_exit_signal sig) (\<lambda>sig'.
        let status = s_status (ho_state h);
            h1 = h\<lparr>ho_exit_handled := True, ho_exit := Some (status, (Some code, sig'))\<rparr>
        in if status = Destroying then Inr h1
           else bind_res (record_exit now (Some code) sig' (ho_state h)) (\<lambda>r.
                  Inr (h1\<lparr>ho_state := r\<rparr>))))"

definition finish_pty_exit :: "jstring \<Rightarrow> bool \<Rightarrow> session_host \<Rightarrow> session_host res" where
  "finish_pty_exit now group_gone h =
     (case ho_exit h of
        None \<Rightarrow> Inr h
      | Some (status, info) \<Rightarrow>
          bind_res
            (if status = Destroying \<and> group_gone
             then record_destroyed now (Some info) (ho_state h) else Inr (ho_state h))
            (\<lambda>r. Inr (host_set r (h\<lparr>ho_exit := None\<rparr>))))"

definition initiate_shutdown :: "jstring \<Rightarrow> session_host \<Rightarrow> session_host res" where
  "initiate_shutdown now h =
     (if ho_shutdown h then Inr h
      else if is_commandable (s_status (ho_state h)) then
        bind_res (request_destroy now (ho_state h)) (\<lambda>r. Inr (host_set r (h\<lparr>ho_shutdown := True\<rparr>)))
      else Inr (h\<lparr>ho_shutdown := True\<rparr>))"

definition handle_resize :: "jstring \<Rightarrow> int \<Rightarrow> int \<Rightarrow> session_host \<Rightarrow> session_host res" where
  "handle_resize now cols rows h =
     bind_res (assert_session_commandable (ho_state h)) (\<lambda>_.
     check (cols > 0) ''cols must be a positive integer''
     (check (rows > 0) ''rows must be a positive integer''
       (bind_res (set_dimensions now cols rows (ho_state h)) (\<lambda>r. Inr (host_set r h)))))"

fun host_step :: "jstring \<Rightarrow> host_event \<Rightarrow> folder \<Rightarrow> session_host \<Rightarrow> (folder \<times> session_host) res" where
  "host_step now (HSpawn pid) d h =
     bind_res (set_child_pid now pid (ho_state h)) (\<lambda>r. Inr (d, h\<lparr>ho_state := r\<rparr>))"
| "host_step now HPersist d h = Inr (d, h\<lparr>ho_writer := request_write (ho_writer h)\<rparr>)"
| "host_step now (HResize c w) d h = bind_res (handle_resize now c w h) (\<lambda>h'. Inr (d, h'))"
| "host_step now HShutdown d h = bind_res (initiate_shutdown now h) (\<lambda>h'. Inr (d, h'))"
| "host_step now (HPtyExit c s) d h = bind_res (handle_pty_exit now c s h) (\<lambda>h'. Inr (d, h'))"
| "host_step now (HExitDone g) d h = bind_res (finish_pty_exit now g h) (\<lambda>h'. Inr (d, h'))"
| "host_step now HBegin d h = Inr (d, h\<lparr>ho_writer := begin_write (ho_state h) (ho_writer h)\<rparr>)"
| "host_step now (HEnd lands) d h =
     (let (rec, w) = end_write (lands \<and> fo_manifest d \<noteq> None) (ho_writer h);
          h' = h\<lparr>ho_writer := w\<rparr>
      in case rec of
           None \<Rightarrow> Inr (d, h')
         | Some r \<Rightarrow> bind_res (write_manifest True r d) (\<lambda>d'. Inr (d', h')))"

section \<open>All processes together\<close>

datatype proc = Idle | Recon recon_phase | Destroy destroy_phase | Killed

record shared_store =
  st_folder :: folder
  st_host :: session_host
  st_procs :: "nat \<Rightarrow> proc"
  st_broken :: bool
    \<comment> \<open>some reconcile or destroy was killed or threw (no process reads it)\<close>

fun proc_step :: "step_input \<Rightarrow> folder \<Rightarrow> proc \<Rightarrow> folder \<times> proc" where
  "proc_step i d (Recon p) = (let (d', p') = recon_step i d p in (d', Recon p'))"
| "proc_step i d (Destroy p) = (let (d', p') = destroy_step i d p in (d', Destroy p'))"
| "proc_step i d p = (d, p)"

fun proc_threw :: "proc \<Rightarrow> bool" where
  "proc_threw (Recon (RThrow e)) = True"
| "proc_threw (Destroy (DDone (Inl e))) = True"
| "proc_threw Killed = True"
| "proc_threw _ = False"

inductive store_step :: "shared_store \<Rightarrow> shared_store \<Rightarrow> bool" where
  host: "ho_alive (st_host s) \<Longrightarrow> host_step now ev (st_folder s) (st_host s) = Inr (d, h) \<Longrightarrow>
    store_step s (s\<lparr>st_folder := d, st_host := h\<rparr>)"
| host_dies: "store_step s (s\<lparr>st_host := (st_host s)\<lparr>ho_alive := False\<rparr>\<rparr>)"
| starts: "st_procs s k = Idle \<Longrightarrow> p \<in> {Recon RStart, Destroy (DStart force)} \<Longrightarrow>
    store_step s (s\<lparr>st_procs := (st_procs s)(k := p)\<rparr>)"
| proc: "(ho_alive (st_host s) \<longrightarrow> in_host_alive i) \<Longrightarrow>
    proc_step i (st_folder s) (st_procs s k) = (d, p) \<Longrightarrow>
    store_step s (s\<lparr>st_folder := d, st_procs := (st_procs s)(k := p),
                   st_broken := st_broken s \<or> proc_threw p\<rparr>)"
| killed: "store_step s (s\<lparr>st_procs := (st_procs s)(k := Killed), st_broken := True\<rparr>)"
| gc_removes: "store_step s (s\<lparr>st_folder := \<lparr>fo_manifest = None, fo_marker = False\<rparr>\<rparr>)"

definition new_host :: "session \<Rightarrow> session_host" where
  "new_host r = \<lparr>ho_alive = True, ho_state = r, ho_writer = new_manifest_writer,
     ho_exit_handled = False, ho_exit = None, ho_shutdown = False\<rparr>"

definition fresh_record :: "session \<Rightarrow> bool" where
  \<comment> \<open>What \<open>allocateSession\<close> stores.\<close>
  "fresh_record r \<longleftrightarrow> s_status r = Running \<and> s_host_pid r \<noteq> None \<and> s_exit_code r = None
     \<and> s_exit_signal r = None \<and> s_failure_reason r = None \<and> s_failure_origin r = None
     \<and> s_cols r > 0 \<and> s_rows r > 0"

definition new_store :: "session \<Rightarrow> shared_store" where
  "new_store r =
     \<lparr>st_folder = \<lparr>fo_manifest = Some r, fo_marker = False\<rparr>, st_host = new_host r,
      st_procs = (\<lambda>_. Idle), st_broken = False\<rparr>"

inductive store_reach :: "session \<Rightarrow> shared_store \<Rightarrow> bool" for r where
  fresh: "store_reach r (new_store r)"
| more: "store_reach r s \<Longrightarrow> store_step s s' \<Longrightarrow> store_reach r s'"

section \<open>What every reachable store satisfies\<close>

definition ended :: "session_host \<Rightarrow> bool" where
  \<comment> \<open>The host writes no manifest any more.\<close>
  "ended h \<longleftrightarrow> \<not> ho_alive h \<or> writer_done (ho_writer h)"

definition disk_terminal :: "folder \<Rightarrow> bool" where
  "disk_terminal d \<longleftrightarrow> (\<forall>m. fo_manifest d = Some m \<longrightarrow> is_terminal (s_status m))"

definition disk_destroyed :: "folder \<Rightarrow> bool" where
  "disk_destroyed d \<longleftrightarrow> (\<forall>m. fo_manifest d = Some m \<longrightarrow> s_status m = Destroyed)"

definition has_marker :: "folder \<Rightarrow> bool" where
  "has_marker d \<longleftrightarrow> fo_manifest d = None \<or> fo_marker d"

definition settled :: "folder \<Rightarrow> bool" where
  "settled d \<longleftrightarrow> has_marker d \<or> disk_destroyed d"

definition agrees :: "folder \<Rightarrow> session \<Rightarrow> bool" where
  \<comment> \<open>The disk still has the status that a reconcile read, or what a reconcile makes of it.\<close>
  "agrees d l \<longleftrightarrow> (\<forall>m. fo_manifest d = Some m \<longrightarrow>
     fo_marker d \<or> s_status m = s_status l \<or> s_status m = reconciled_status (s_status l))"

fun recon_ok :: "session_host \<Rightarrow> folder \<Rightarrow> recon_phase \<Rightarrow> bool" where
  "recon_ok h d (RRead m) =
     (if is_terminal (s_status m) then ended h \<and> disk_terminal d else s_host_pid m \<noteq> None)"
| "recon_ok h d (RRepair m) = (ended h \<and> has_marker d \<and> disk_terminal d)"
| "recon_ok h d (RJudge m) = (s_host_pid m \<noteq> None)"
| "recon_ok h d RCurrent = (\<not> ho_alive h)"
| "recon_ok h d RWait = (\<not> ho_alive h)"
| "recon_ok h d RLatest = (\<not> ho_alive h)"
| "recon_ok h d (RWrite l) = (\<not> ho_alive h \<and> is_active (s_status l) \<and> agrees d l)"
| "recon_ok h d (RMark l) = (\<not> ho_alive h \<and> is_active (s_status l) \<and> agrees d l)"
| "recon_ok h d (RAgain l) = (\<not> ho_alive h \<and> has_marker d)"
| "recon_ok h d p = True"

fun destroy_ok :: "session_host \<Rightarrow> folder \<Rightarrow> destroy_phase \<Rightarrow> bool" where
  "destroy_ok h d (DLeft m) = (is_terminal (s_status m) \<and> ended h \<and> disk_terminal d
     \<and> (s_status m = Destroyed \<longrightarrow> settled d))"
| "destroy_ok h d DForce2 = (\<not> ho_alive h)"
| "destroy_ok h d (DForce3 m) = (\<not> ho_alive h \<and> (is_terminal (s_status m) \<longrightarrow> disk_terminal d)
     \<and> (s_status m = Destroyed \<longrightarrow> settled d))"
| "destroy_ok h d (DRecon p e) = recon_ok h d p"
| "destroy_ok h d (DRecord m) = ((is_terminal (s_status m) \<longrightarrow> ended h \<and> disk_terminal d)
     \<and> (s_status m = Destroyed \<longrightarrow> ended h \<and> settled d))"
| "destroy_ok h d (DMark m) = ended h"
| "destroy_ok h d (DWrite m) = (ended h \<and> has_marker d)"
| "destroy_ok h d DUnlink = (ended h \<and> disk_terminal d \<and> settled d)"
| "destroy_ok h d (DDone (Inr u)) = (ended h \<and> disk_terminal d \<and> settled d)"
| "destroy_ok h d p = True"

fun proc_ok :: "session_host \<Rightarrow> folder \<Rightarrow> proc \<Rightarrow> bool" where
  "proc_ok h d (Recon p) = recon_ok h d p"
| "proc_ok h d (Destroy p) = destroy_ok h d p"
| "proc_ok h d p = True"

definition disk_ok :: "session_host \<Rightarrow> folder \<Rightarrow> bool" where
  "disk_ok h d \<longleftrightarrow> (fo_marker d \<longrightarrow> ended h)
     \<and> (\<forall>m. fo_manifest d = Some m \<longrightarrow>
          (if is_terminal (s_status m) then ended h else s_host_pid m \<noteq> None))"

definition grows :: "session_host \<Rightarrow> folder \<Rightarrow> session_host \<Rightarrow> folder \<Rightarrow> bool" where
  \<comment> \<open>What a step of any process keeps of what the others rely on.\<close>
  "grows h d h' d' \<longleftrightarrow>
     (ended h \<longrightarrow> ended h') \<and> (\<not> ho_alive h \<longrightarrow> \<not> ho_alive h')
   \<and> (has_marker d \<longrightarrow> has_marker d') \<and> (disk_terminal d \<longrightarrow> disk_terminal d')
   \<and> (ended h \<and> settled d \<longrightarrow> settled d')
   \<and> (\<forall>l. \<not> ho_alive h \<and> is_active (s_status l) \<and> agrees d l \<longrightarrow> agrees d' l)"

lemmas disk_preds = disk_terminal_def disk_destroyed_def has_marker_def settled_def agrees_def

lemma grows_refl [simp]: "grows h d h d"
  by (simp add: grows_def)

lemma recon_ok_grows: "recon_ok h d p \<Longrightarrow> grows h d h' d' \<Longrightarrow> recon_ok h' d' p"
  by (cases p) (auto simp: grows_def split: if_splits)

lemma destroy_ok_grows: "destroy_ok h d p \<Longrightarrow> grows h d h' d' \<Longrightarrow> destroy_ok h' d' p"
proof (cases p)
  case (DDone r)
  assume "destroy_ok h d p" "grows h d h' d'"
  with DDone show ?thesis by (cases r) (auto simp: grows_def)
next
  case (DForce3 m)
  assume "destroy_ok h d p" "grows h d h' d'"
  with DForce3 show ?thesis by (auto simp: grows_def ended_def)
qed (auto simp: grows_def intro: recon_ok_grows [unfolded grows_def])

lemma proc_ok_grows: "proc_ok h d p \<Longrightarrow> grows h d h' d' \<Longrightarrow> proc_ok h' d' p"
  by (cases p) (auto intro: recon_ok_grows destroy_ok_grows)

text \<open>A write of a destroyed record where the marker stands, and the write of a reconcile.\<close>

lemma grows_destroyed:
  assumes "has_marker d" and "fo_manifest d \<noteq> None" and "s_status r = Destroyed"
  shows "grows h d h (d\<lparr>fo_manifest := Some r\<rparr>)"
  using assms by (auto simp: grows_def disk_preds is_terminal_iff)

lemma reconciled_inj:
  "is_active a \<Longrightarrow> is_active b \<Longrightarrow> c = a \<or> c = reconciled_status a \<Longrightarrow>
     c = b \<or> c = reconciled_status b \<Longrightarrow> a = b"
  by (cases a; cases b) (auto simp: is_active_iff)

lemma reconciled_terminal: "is_terminal (reconciled_status a)"
  by (cases a) (auto simp: is_terminal_iff)

lemma status_reconciled [simp]: "s_status (reconciled_manifest now l) = reconciled_status (s_status l)"
  by (auto simp: reconciled_manifest_def Let_def split: option.splits)

lemma grows_reconciled:
  assumes l: "is_active (s_status l)" "agrees d l" and m: "fo_manifest d = Some m"
  shows "grows h d h (d\<lparr>fo_manifest := Some (reconciled_manifest now l)\<rparr>)"
proof -
  have "agrees (d\<lparr>fo_manifest := Some (reconciled_manifest now l)\<rparr>) l'"
    if "is_active (s_status l')" "agrees d l'" for l'
    using reconciled_inj [OF l(1) that(1), of "s_status m"] l(2) that(2) m
    by (auto simp: agrees_def)
  moreover have "settled (d\<lparr>fo_manifest := Some (reconciled_manifest now l)\<rparr>)" if "settled d"
    using that l m by (auto simp: disk_preds is_active_iff)
  ultimately show ?thesis
    using reconciled_terminal m by (auto simp: grows_def disk_preds)
qed

lemma agrees_self: "fo_manifest d = Some m \<Longrightarrow> agrees d m"
  by (simp add: agrees_def)

lemma agrees_reconciled: "agrees (d\<lparr>fo_manifest := Some (reconciled_manifest now l)\<rparr>) l"
  by (simp add: agrees_def)


lemma writes_destroyed:
  assumes "disk_ok h d" "has_marker d" "ended h" "s_status r = Destroyed"
    and "write_manifest lands r d = Inr d'"
  shows "grows h d h d' \<and> disk_ok h d' \<and> disk_destroyed d' \<and> has_marker d' \<and> disk_terminal d'"
proof -
  from assms(5) have d': "d' = d\<lparr>fo_manifest := Some r\<rparr>" and "fo_manifest d \<noteq> None"
    by (auto simp: write_manifest_def split: if_splits)
  with grows_destroyed [of d r h] assms(1-4) show ?thesis
    by (auto simp: disk_ok_def disk_preds is_terminal_iff)
qed

lemma writes_reconciled:
  assumes "\<not> ho_alive h" "is_active (s_status l)" "agrees d l"
    and "write_manifest lands (reconciled_manifest now l) d = Inr d'"
  shows "grows h d h d' \<and> disk_ok h d' \<and> agrees d' l"
proof -
  from assms(4) obtain m where d': "d' = d\<lparr>fo_manifest := Some (reconciled_manifest now l)\<rparr>"
    and m: "fo_manifest d = Some m"
    by (auto simp: write_manifest_def split: if_splits)
  with grows_reconciled [OF assms(2,3) m] assms(1) show ?thesis
    by (auto simp: disk_ok_def agrees_reconciled ended_def reconciled_terminal)
qed

lemma after_write_cases:
  assumes "after_write w d q = (d', p')"
  shows "(w = Inr d' \<and> p' = q) \<or> (d' = d \<and> (p' = RDone \<or> (\<exists>e. p' = RThrow e)))"
  using assms by (auto simp: after_write_def split: sum.splits if_splits)

lemma disk_okD:
  assumes "disk_ok h d" and "fo_manifest d = Some m"
  shows "is_terminal (s_status m) \<Longrightarrow> ended h" and "\<not> is_terminal (s_status m) \<Longrightarrow> s_host_pid m \<noteq> None"
  using assms by (auto simp: disk_ok_def)

lemma disk_ok_marker: "disk_ok h d \<Longrightarrow> fo_marker d \<Longrightarrow> ended h"
  by (simp add: disk_ok_def)

lemma disk_terminalI: "fo_manifest d = Some m \<Longrightarrow> is_terminal (s_status m) \<Longrightarrow> disk_terminal d"
  by (simp add: disk_terminal_def)

lemma active_not_terminal: "is_active s \<longleftrightarrow> \<not> is_terminal s"
  by (cases s) (auto simp: status_simps)

lemma read_active_Some:
  "read_active d = Some m \<longleftrightarrow> fo_manifest d = Some m \<and> is_active (s_status m)"
  by (auto simp: read_active_def active_not_terminal split: option.splits)

lemma recon_step_ok:
  assumes ok: "recon_ok h d p" "disk_ok h d" and alive: "ho_alive h \<longrightarrow> in_host_alive i"
    and step: "recon_step i d p = (d', p')"
  shows "grows h d h d' \<and> disk_ok h d' \<and> recon_ok h d' p'"
proof (cases p)
  case RStart
  with step ok show ?thesis
    by (auto split: option.splits dest: disk_okD intro: disk_terminalI)
next
  case (RRead m)
  with step ok show ?thesis
    by (auto simp: is_marked_destroyed_def has_marker_def)
next
  case (RRepair m)
  with step have "after_write (write_manifest (in_lands i) (marked_manifest (in_now i) m) d) d RDone = (d', p')"
    by simp
  from after_write_cases [OF this] writes_destroyed [OF ok(2), of "marked_manifest (in_now i) m"] RRepair ok
  show ?thesis by (auto simp: marked_manifest_def)
next
  case (RWrite l)
  with step have "after_write (write_manifest (in_lands i) (reconciled_manifest (in_now i) l) d) d (RMark l) = (d', p')"
    by simp
  from after_write_cases [OF this] writes_reconciled RWrite ok
  show ?thesis by auto
next
  case (RAgain l)
  with step have "after_write (write_manifest (in_lands i) (redestroyed_manifest (in_now i) l) d) d RDone = (d', p')"
    by simp
  from after_write_cases [OF this] writes_destroyed [OF ok(2), of "redestroyed_manifest (in_now i) l"] RAgain ok
  show ?thesis by (auto simp: redestroyed_manifest_def ended_def)
next
  case RLatest
  with step ok show ?thesis
    by (auto simp: read_active_Some agrees_self split: option.splits)
next
  case (RMark l)
  with step ok show ?thesis by (auto simp: has_marker_def)
next
  case (RJudge m)
  with step ok alive show ?thesis by auto
qed (use step ok alive in \<open>auto split: option.splits group_outcome.splits\<close>)

lemma after_stop_ok:
  assumes "after_stop b i q = p'"
  shows "p' = q \<and> in_group i = GroupGone \<and> (b \<longrightarrow> \<not> in_host_alive i) \<or> (\<exists>e. p' = DDone (Inl e))"
  using assms by (auto simp: after_stop_def split: group_outcome.splits if_splits)

lemma settledI: "disk_destroyed d \<Longrightarrow> settled d" "has_marker d \<Longrightarrow> settled d"
  by (auto simp: settled_def)

lemma disk_destroyedI: "fo_manifest d = Some m \<Longrightarrow> s_status m = Destroyed \<Longrightarrow> disk_destroyed d"
  by (simp add: disk_destroyed_def)

lemma destroy_reads_terminal:
  assumes "disk_ok h d" "fo_manifest d = Some m" "is_terminal (s_status m)"
  shows "destroy_ok h d (DLeft m)"
  using assms disk_okD(1) [OF assms(1,2)] disk_terminalI [OF assms(2)]
    settledI(1) [OF disk_destroyedI [OF assms(2)]] by auto


lemma destroy_step_ok:
  assumes ok: "destroy_ok h d p" "disk_ok h d" and alive: "ho_alive h \<longrightarrow> in_host_alive i"
    and step: "destroy_step i d p = (d', p')"
  shows "grows h d h d' \<and> disk_ok h d' \<and> destroy_ok h d' p'"
proof (cases p)
  case (DStart force)
  with step ok show ?thesis
    by (auto simp del: destroy_ok.simps(1) split: option.splits intro: destroy_reads_terminal)
next
  case (DLeft m)
  with step have "d' = d" "after_stop False i (DRecord m) = p'" by auto
  with after_stop_ok [OF this(2)] DLeft ok show ?thesis by auto
next
  case DForce1
  with step have "d' = d" "after_stop True i DForce2 = p'" by auto
  with after_stop_ok [OF this(2)] DForce1 ok alive show ?thesis by auto
next
  case DForce2
  with step ok disk_terminalI [of d] settledI(1) [OF disk_destroyedI [of d]] show ?thesis
    by (auto split: option.splits)
next
  case (DForce3 m)
  with step have "d' = d" "after_stop True i (DRecord m) = p'" by auto
  with after_stop_ok [OF this(2)] DForce3 ok show ?thesis by (auto simp: ended_def)
next
  case DRpc
  with step ok show ?thesis by (auto split: rpc_outcome.splits)
next
  case (DPoll k)
  with step ok show ?thesis
    by (auto simp del: destroy_ok.simps(1) split: option.splits if_splits intro: destroy_reads_terminal)
next
  case (DRecon q e)
  consider "q = RDone" | e' where "q = RThrow e'" | "q \<noteq> RDone" "\<forall>e'. q \<noteq> RThrow e'" by blast
  then show ?thesis
  proof cases
    case 1
    with DRecon step ok show ?thesis
      by (auto simp del: destroy_ok.simps(1) split: option.splits if_splits intro: destroy_reads_terminal)
  next
    case 2
    with DRecon step ok show ?thesis by auto
  next
    case 3
    obtain d1 q1 where r: "recon_step i d q = (d1, q1)" by fastforce
    from 3 DRecon step have "d' = d1" "p' = DRecon q1 e" using r by (cases q; auto)+
    with recon_step_ok [OF _ ok(2) alive r] ok(1) DRecon show ?thesis by auto
  qed
next
  case (DRecord m)
  with step ok alive show ?thesis by (auto simp: ended_def is_destroyed_iff is_terminal_iff split: if_splits)
next
  case (DMark m)
  show ?thesis
  proof (cases "write_destroy_marker (in_lands i) d")
    case (Inl e)
    with DMark step ok show ?thesis by auto
  next
    case (Inr d1)
    then have "d1 = d\<lparr>fo_marker := True\<rparr>" by (auto simp: write_destroy_marker_def split: if_splits)
    with Inr DMark step ok show ?thesis by (auto simp: grows_def disk_preds disk_ok_def)
  qed
next
  case (DWrite m)
  show ?thesis
  proof (cases "write_manifest (in_lands i) (destroyed_manifest (in_now i) m) d")
    case (Inl e)
    with DWrite step ok show ?thesis by auto
  next
    case (Inr d1)
    with writes_destroyed [OF ok(2) _ _ _ Inr] DWrite step ok show ?thesis
      by (auto simp: destroyed_manifest_def intro: settledI)
  qed
next
  case DUnlink
  with step ok show ?thesis by (auto split: option.splits)
next
  case (DDone r)
  with step ok show ?thesis by (cases r) auto
qed

lemma proc_step_ok:
  assumes ok: "proc_ok h d p" "disk_ok h d" "ho_alive h \<longrightarrow> in_host_alive i"
    and step: "proc_step i d p = (d', p')"
  shows "grows h d h d' \<and> disk_ok h d' \<and> proc_ok h d' p'"
proof (cases p)
  case (Recon q)
  obtain d1 q1 where r: "recon_step i d q = (d1, q1)" by fastforce
  with step Recon have "d' = d1" "p' = Recon q1" by simp_all
  with recon_step_ok [OF _ ok(2,3) r] ok(1) Recon show ?thesis by simp
next
  case (Destroy q)
  obtain d1 q1 where r: "destroy_step i d q = (d1, q1)" by fastforce
  with step Destroy have "d' = d1" "p' = Destroy q1" by simp_all
  with destroy_step_ok [OF _ ok(2,3) r] ok(1) Destroy show ?thesis by simp
qed (use assms in auto)

section \<open>The host keeps its side\<close>

definition host_ok :: "session_host \<Rightarrow> bool" where
  "host_ok h \<longleftrightarrow>
     s_host_pid (ho_state h) \<noteq> None
   \<and> writer_ok (ho_writer h)
   \<and> (\<forall>r. mw_writing (ho_writer h) = Some r \<longrightarrow> s_host_pid r \<noteq> None)
   \<and> (\<not> ho_exit_handled h \<longrightarrow> s_status (ho_state h) \<in> {Running, Destroying}
        \<and> s_exit_code (ho_state h) = None \<and> s_exit_signal (ho_state h) = None \<and> ho_exit h = None)
   \<and> (ho_exit_handled h \<longrightarrow> s_status (ho_state h) \<noteq> Running)
   \<and> (\<forall>info. ho_exit h = Some (Destroying, info) \<longrightarrow> s_status (ho_state h) = Destroying)"

lemma new_host_ok: "fresh_record r \<Longrightarrow> host_ok (new_host r)"
  by (simp add: host_ok_def new_host_def fresh_record_def writer_ok_def new_manifest_writer_def)

lemmas host_op_defs = host_set_def handle_pty_exit_def finish_pty_exit_def initiate_shutdown_def
  handle_resize_def normalize_exit_signal_def assert_session_commandable_def request_write_def

definition is_write :: "host_event \<Rightarrow> bool" where
  "is_write ev \<longleftrightarrow> ev = HBegin \<or> (\<exists>b. ev = HEnd b)"

lemma host_step_folder: "host_step now ev d h = Inr (d', h') \<Longrightarrow> \<not> is_write ev \<Longrightarrow> d' = d"
  by (cases ev) (auto simp: is_write_def res_simps)

lemma host_step_writer:
  "host_step now ev d h = Inr (d', h') \<Longrightarrow> \<not> is_write ev \<Longrightarrow>
     ho_alive h' = ho_alive h \<and> mw_writing (ho_writer h') = mw_writing (ho_writer h)
   \<and> mw_wrote_terminal (ho_writer h') = mw_wrote_terminal (ho_writer h)"
  by (cases ev) (auto simp: is_write_def host_op_defs res_simps Let_def split: option.splits if_splits)


lemma host_ok_event:
  assumes "host_ok h" and "host_step now ev d h = Inr (d', h')" and "\<not> is_write ev"
  shows "host_ok h'"
  using assms
proof (cases ev)
  case (HExitDone g)
  with assms show ?thesis
    by (auto simp: host_ok_def host_op_defs state_call_defs res_simps Let_def writer_ok_def
        split: option.splits if_splits)
next
  case (HPtyExit c sig)
  with assms show ?thesis
    by (auto simp: host_ok_def host_op_defs state_call_defs res_simps Let_def writer_ok_def
        split: option.splits if_splits)
qed (auto simp: host_ok_def host_op_defs state_call_defs res_simps Let_def writer_ok_def is_write_def
        is_commandable_iff split: option.splits if_splits)

lemma begin_write_facts:
  "writer_ok w \<Longrightarrow> writer_ok (begin_write r w) \<and> (writer_done w \<longrightarrow> writer_done (begin_write r w))
     \<and> (mw_writing (begin_write r w) = mw_writing w \<or> mw_writing (begin_write r w) = Some r)"
  by (auto simp: begin_write_def writer_ok_def writer_done_def)

lemma host_step_ok:
  assumes ok: "host_ok h" "disk_ok h d" and alive: "ho_alive h"
    and step: "host_step now ev d h = Inr (d', h')"
  shows "host_ok h' \<and> grows h d h' d' \<and> disk_ok h' d'"
proof (cases "is_write ev")
  case False
  from host_step_writer [OF step False] have "ended h' = ended h" "ho_alive h' = ho_alive h"
    by (simp_all add: ended_def writer_done_def)
  with host_ok_event [OF ok(1) step False] host_step_folder [OF step False] ok(2) show ?thesis
    by (auto simp: grows_def disk_ok_def)
next
  case True
  then consider "ev = HBegin" | b where "ev = HEnd b" by (auto simp: is_write_def)
  then show ?thesis
  proof cases
    case 1
    with step have d': "d' = d"
      and h': "h' = h\<lparr>ho_writer := begin_write (ho_state h) (ho_writer h)\<rparr>" by simp_all
    from ok(1) begin_write_facts [of "ho_writer h" "ho_state h"] have "host_ok h'"
      unfolding h' host_ok_def by auto
    moreover from ok(1) begin_write_facts [of "ho_writer h" "ho_state h"]
    have "ended h \<Longrightarrow> ended h'" "ho_alive h' = ho_alive h" by (auto simp: h' ended_def host_ok_def)
    ultimately show ?thesis using ok(2) alive d' by (auto simp: grows_def disk_ok_def)
  next
    case 2
    obtain rec w where e: "end_write (b \<and> fo_manifest d \<noteq> None) (ho_writer h) = (rec, w)" by fastforce
    have wok: "writer_ok (ho_writer h)" using ok(1) by (simp add: host_ok_def)
    from 2 step e have h': "h' = h\<lparr>ho_writer := w\<rparr>"
      by (auto simp: res_simps Let_def split: option.splits)
    from end_write_cases [OF wok e] have "writer_ok w" "mw_writing w = None"
      using end_write_writing [OF e] by (auto simp: writer_ok_def writer_done_def)
    then have hok: "host_ok h'" using ok(1) by (simp add: h' host_ok_def)
    show ?thesis
    proof (cases rec)
      case None
      with 2 step e have "d' = d" by simp
      moreover have "ended h \<Longrightarrow> ended h'"
        using e None by (auto simp: h' ended_def writer_done_def end_write_def split: option.splits if_splits)
      moreover have "ho_alive h' = ho_alive h" by (simp add: h')
      ultimately show ?thesis using ok(2) alive hok by (auto simp: grows_def disk_ok_def)
    next
      case (Some r)
      from end_write_cases [OF wok e] Some have w: "mw_writing (ho_writer h) = Some r"
        "is_terminal (s_status r) \<longrightarrow> writer_done w" by auto
      then have "\<not> ended h" and pid: "s_host_pid r \<noteq> None"
        using alive ok(1) by (auto simp: ended_def writer_done_def host_ok_def)
      from e Some have ne: "fo_manifest d \<noteq> None"
        by (auto simp: end_write_def split: option.splits if_splits)
      with 2 step e Some have d': "d' = d\<lparr>fo_manifest := Some r\<rparr>"
        by (auto simp: write_manifest_def res_simps)
      from ne ok(2) \<open>\<not> ended h\<close> have "\<not> disk_terminal d" "\<not> fo_marker d"
        by (auto simp: disk_ok_def disk_terminal_def)
      with \<open>\<not> ended h\<close> ne alive have "grows h d h' d'" by (auto simp: grows_def has_marker_def)
      moreover have "disk_ok h' d'"
        using w(2) pid \<open>\<not> fo_marker d\<close> by (auto simp: disk_ok_def d' h' ended_def)
      ultimately show ?thesis using hok by simp
    qed
  qed
qed

section \<open>The invariant of the whole\<close>

definition store_ok :: "shared_store \<Rightarrow> bool" where
  "store_ok s \<longleftrightarrow> host_ok (st_host s) \<and> disk_ok (st_host s) (st_folder s)
     \<and> (\<forall>k. proc_ok (st_host s) (st_folder s) (st_procs s k))"

lemma procs_ok_grows:
  "\<forall>k. proc_ok h d (f k) \<Longrightarrow> grows h d h' d' \<Longrightarrow> proc_ok h' d' (f k)"
  using proc_ok_grows by blast

lemma store_ok_step:
  assumes "store_ok s" and "store_step s s'"
  shows "store_ok s' \<and> grows (st_host s) (st_folder s) (st_host s') (st_folder s')"
  using assms(2)
proof (cases rule: store_step.cases)
  case (host now ev d h)
  with assms(1) host_step_ok [of "st_host s" "st_folder s" now ev d h] show ?thesis
    by (auto simp: store_ok_def intro: procs_ok_grows)
next
  case host_dies
  have "grows (st_host s) (st_folder s) ((st_host s)\<lparr>ho_alive := False\<rparr>) (st_folder s)"
    by (simp add: grows_def ended_def)
  moreover have "host_ok ((st_host s)\<lparr>ho_alive := False\<rparr>)"
    "disk_ok ((st_host s)\<lparr>ho_alive := False\<rparr>) (st_folder s)"
    using assms(1) by (auto simp: store_ok_def host_ok_def disk_ok_def ended_def)
  ultimately show ?thesis using assms(1) host_dies by (auto simp: store_ok_def intro: procs_ok_grows)
next
  case (starts k p force)
  with assms(1) show ?thesis by (auto simp: store_ok_def)
next
  case (proc i k d p)
  with assms(1) have "grows (st_host s) (st_folder s) (st_host s) d \<and> disk_ok (st_host s) d
    \<and> proc_ok (st_host s) d p"
    using proc_step_ok [of "st_host s" "st_folder s" "st_procs s k" i d p] by (auto simp: store_ok_def)
  with proc assms(1) show ?thesis by (auto simp: store_ok_def intro: procs_ok_grows)
next
  case (killed k)
  with assms(1) show ?thesis by (auto simp: store_ok_def)
next
  case gc_removes
  have "grows (st_host s) (st_folder s) (st_host s) \<lparr>fo_manifest = None, fo_marker = False\<rparr>"
    by (simp add: grows_def disk_preds)
  with gc_removes assms(1) show ?thesis by (auto simp: store_ok_def disk_ok_def intro: procs_ok_grows)
qed

lemma store_reach_ok: "store_reach r s \<Longrightarrow> fresh_record r \<Longrightarrow> store_ok s"
proof (induction rule: store_reach.induct)
  case fresh
  then show ?case
    by (auto simp: store_ok_def new_store_def new_host_ok disk_ok_def is_terminal_iff fresh_record_def)
next
  case (more s s')
  then show ?case using store_ok_step by blast
qed

section \<open>A destroy mark is never lost\<close>

fun recon_pending :: "recon_phase \<Rightarrow> bool" where
  \<comment> \<open>The phases of a process that will still write a destroyed record, or throw.\<close>
  "recon_pending (RMark l) = (reconciled_status (s_status l) \<noteq> Destroyed)"
| "recon_pending (RAgain l) = True"
| "recon_pending _ = False"

fun recon_throws :: "recon_phase \<Rightarrow> bool" where
  "recon_throws (RThrow e) = True"
| "recon_throws _ = False"

fun proc_pending :: "proc \<Rightarrow> bool" where
  "proc_pending (Recon p) = recon_pending p"
| "proc_pending (Destroy (DRecon p e)) = (recon_pending p \<or> recon_throws p)"
| "proc_pending (Destroy (DWrite m)) = True"
| "proc_pending _ = False"

definition mark_kept :: "shared_store \<Rightarrow> bool" where
  "mark_kept s \<longleftrightarrow> (fo_marker (st_folder s) \<longrightarrow>
     disk_destroyed (st_folder s) \<or> st_broken s \<or> (\<exists>k. proc_pending (st_procs s k)))"

text \<open>A step of one process: when it touches the mark or leaves a pending phase, what is left.\<close>

definition mark_step :: "folder \<Rightarrow> bool \<Rightarrow> folder \<Rightarrow> bool \<Rightarrow> bool \<Rightarrow> bool" where
  \<comment> \<open>From folder and pending to folder, pending and whether the process threw.\<close>
  "mark_step d pend d' pend' threw \<longleftrightarrow>
     (fo_marker d' \<longrightarrow> disk_destroyed d' \<or> pend' \<or> threw
        \<or> (fo_marker d \<and> (disk_destroyed d \<longrightarrow> disk_destroyed d') \<and> \<not> pend))"

lemma write_manifest_cases:
  "(\<exists>e. write_manifest lands r d = Inl e \<and> (e = not_found \<longrightarrow> fo_manifest d = None))
   \<or> write_manifest lands r d = Inr (d\<lparr>fo_manifest := Some r\<rparr>)"
  by (simp add: write_manifest_def not_found_def)

lemma missing_destroyed: "fo_manifest d = None \<Longrightarrow> disk_destroyed d"
  by (simp add: disk_destroyed_def)

lemma after_write_mark:
  assumes "after_write (write_manifest lands r d) d q = (d', p')"
  shows "(d' = d\<lparr>fo_manifest := Some r\<rparr> \<and> p' = q) \<or> (d' = d \<and> (\<exists>e. p' = RThrow e))
     \<or> (d' = d \<and> p' = RDone \<and> disk_destroyed d')"
  using assms write_manifest_cases [of lands r d] missing_destroyed
  by (auto simp: after_write_def split: if_splits)

lemma recon_mark_step:
  assumes "recon_step i d p = (d', p')"
  shows "mark_step d (recon_pending p) d' (recon_pending p') (recon_throws p')"
proof (cases p)
  case (RRepair m)
  with assms after_write_mark [of "in_lands i" "marked_manifest (in_now i) m" d RDone d' p']
  show ?thesis by (auto simp: mark_step_def disk_destroyed_def marked_manifest_def)
next
  case (RWrite l)
  with assms after_write_mark [of "in_lands i" "reconciled_manifest (in_now i) l" d "RMark l" d' p']
  show ?thesis by (auto simp: mark_step_def disk_destroyed_def)
next
  case (RAgain l)
  with assms after_write_mark [of "in_lands i" "redestroyed_manifest (in_now i) l" d RDone d' p']
  show ?thesis by (auto simp: mark_step_def disk_destroyed_def redestroyed_manifest_def)
qed (use assms in \<open>auto simp: mark_step_def\<close>)

lemma destroy_mark_step:
  assumes "destroy_step i d p = (d', p')"
  shows "mark_step d (proc_pending (Destroy p)) d' (proc_pending (Destroy p')) (proc_threw (Destroy p'))"
proof (cases p)
  case (DRecon q e)
  consider "q = RDone" | e' where "q = RThrow e'" | "q \<noteq> RDone" "\<forall>e'. q \<noteq> RThrow e'" by blast
  then show ?thesis
  proof cases
    case 3
    obtain d1 q1 where r: "recon_step i d q = (d1, q1)" by fastforce
    from 3 DRecon assms have eqs: "d' = d1" "p' = DRecon q1 e" using r by (cases q; auto)+
    from 3(2) have "\<not> recon_throws q" by (cases q) auto
    with recon_mark_step [OF r] eqs DRecon show ?thesis by (auto simp: mark_step_def)
  qed (use DRecon assms in \<open>auto simp: mark_step_def\<close>)
next
  case (DMark m)
  with assms show ?thesis
    by (auto simp: mark_step_def write_destroy_marker_def split: if_splits)
next
  case (DWrite m)
  with assms write_manifest_cases [of "in_lands i" "destroyed_manifest (in_now i) m" d] show ?thesis
    by (auto simp: mark_step_def disk_destroyed_def destroyed_manifest_def)
qed (use assms in \<open>auto simp: mark_step_def\<close>)


lemma proc_mark_step:
  assumes "proc_step i d p = (d', p')"
  shows "mark_step d (proc_pending p) d' (proc_pending p') (proc_threw p')"
proof (cases p)
  case (Recon q)
  obtain d1 q1 where r: "recon_step i d q = (d1, q1)" by fastforce
  with assms Recon have "d' = d1" "p' = Recon q1" by simp_all
  moreover have "recon_throws q1 \<Longrightarrow> proc_threw (Recon q1)" by (cases q1) auto
  ultimately show ?thesis using recon_mark_step [OF r] Recon by (auto simp: mark_step_def)
next
  case (Destroy q)
  obtain d1 q1 where r: "destroy_step i d q = (d1, q1)" by fastforce
  with assms Destroy have "d' = d1" "p' = Destroy q1" by simp_all
  with destroy_mark_step [OF r] Destroy show ?thesis by simp
qed (use assms in \<open>auto simp: mark_step_def\<close>)

lemma host_step_marked:
  assumes "disk_ok h d" "host_ok h" "ho_alive h" "host_step now ev d h = Inr (d', h')"
  shows "fo_marker d' = fo_marker d \<and> (fo_marker d \<longrightarrow> d' = d)"
proof (cases "is_write ev")
  case False
  with host_step_folder [OF assms(4)] show ?thesis by simp
next
  case True
  then consider "ev = HBegin" | b where "ev = HEnd b" by (auto simp: is_write_def)
  then show ?thesis
  proof cases
    case 1
    with assms(4) show ?thesis by simp
  next
    case 2
    with assms show ?thesis
      by (auto simp: disk_ok_def ended_def writer_done_def Let_def end_write_def write_manifest_def
          split: option.splits if_splits)
  qed
qed

lemma mark_kept_step:
  assumes ok: "store_ok s" and kept: "mark_kept s" and step: "store_step s s'"
  shows "mark_kept s'"
  using step
proof (cases rule: store_step.cases)
  case (host now ev d h)
  with host_step_marked [of "st_host s" "st_folder s" now ev d h] ok kept show ?thesis
    by (auto simp: mark_kept_def store_ok_def)
next
  case (starts k p force)
  have "proc_pending (((st_procs s)(k := p)) j)" if "proc_pending (st_procs s j)" for j
    using starts that by auto
  then have "(\<exists>j. proc_pending (st_procs s j)) \<Longrightarrow> \<exists>j. proc_pending (((st_procs s)(k := p)) j)"
    by blast
  with kept show ?thesis unfolding mark_kept_def starts(1) by (simp del: fun_upd_apply) blast
next
  case (proc i k d p)
  have other: "proc_pending (((st_procs s)(k := p)) j)"
    if "proc_pending (st_procs s j)" "j \<noteq> k" for j using that by simp
  have "mark_step (st_folder s) (proc_pending (st_procs s k)) d (proc_pending p) (proc_threw p)"
    using proc_mark_step [OF proc(3)] .
  then have "disk_destroyed d \<or> st_broken s \<or> proc_threw p
      \<or> (\<exists>j. proc_pending (((st_procs s)(k := p)) j))" if "fo_marker d"
    using kept that other unfolding mark_step_def mark_kept_def by (metis fun_upd_same)
  with proc(1) show ?thesis by (auto simp: mark_kept_def)
qed (use kept in \<open>auto simp: mark_kept_def\<close>)

lemma store_reach_mark_kept: "store_reach r s \<Longrightarrow> fresh_record r \<Longrightarrow> mark_kept s"
proof (induction rule: store_reach.induct)
  case fresh
  then show ?case by (simp add: mark_kept_def new_store_def)
next
  case (more s s')
  then show ?case using mark_kept_step store_reach_ok by blast
qed

section \<open>What the session store promises\<close>

text \<open>C8: Whatever hosts, reconciles, destroys, crashes and gc do, in every interleaving of their
  steps: a manifest that once read terminal (exited, failed or destroyed) never reads active
  again, in this and every later state.
\<close>
theorem terminal_never_reactivated:
  assumes "fresh_record r" and "store_reach r s" and "store_step\<^sup>*\<^sup>* s s'"
    and "disk_terminal (st_folder s)"
  shows "store_reach r s' \<and> disk_terminal (st_folder s')"
  using assms(3)
proof (induction rule: rtranclp_induct)
  case base
  then show ?case using assms by simp
next
  case (step s1 s2)
  from store_ok_step [OF store_reach_ok [OF _ assms(1)] step(2)] step show ?case
    by (auto simp: grows_def intro: store_reach.more)
qed


definition reconcile_outcome :: "jstring \<Rightarrow> folder \<Rightarrow> session \<Rightarrow> session" where
  \<comment> \<open>The record after a reconcile of a session whose processes are gone.\<close>
  "reconcile_outcome now d m =
     (if is_marked_destroyed m d then marked_manifest now m
      else if is_terminal (s_status m) then m
      else if fo_marker d then redestroyed_manifest now m
      else reconciled_manifest now m)"

lemma recon_run_done: "recon_run is d RDone = (d, RDone)"
  by (induction "is") auto

lemma recon_run_replicate:
  "recon_run (replicate (Suc n) i) d p = (let (d', p') = recon_step i d p in recon_run (replicate n i) d' p')"
  by simp

lemma redestroyed_eq_reconciled:
  "s_status m = Destroying \<Longrightarrow> redestroyed_manifest now m = reconciled_manifest now m"
  by (simp add: redestroyed_manifest_def reconciled_manifest_def reconciled_failure_def Let_def)

lemma reconciled_not_destroyed:
  "is_active a \<Longrightarrow> reconciled_status a \<noteq> Destroyed \<longleftrightarrow> a \<noteq> Destroying"
  by (cases a) (auto simp: is_active_iff)


text \<open>No assertion of the session's state can fail in the host, whatever requests, shutdowns, PTY
  exits and other processes come in whatever order: the one error of these steps is the answer
  SESSION_NOT_RUNNING to a resize. And once the program's exit was handled and its continuation
  ran with the group gone, the host's record reads exited or destroyed and carries the exit code
  and the signal, and a write of it was requested.
\<close>
theorem host_never_asserts:
  assumes "fresh_record r" and "store_reach r s" and "\<not> ho_exit_handled (st_host s)"
    and "0 < cols" and "0 < rows" and "0 \<le> sig"
  shows "(\<exists>x. host_step now HShutdown d (st_host s) = Inr x)
     \<and> (host_step now (HResize cols rows) d (st_host s)
          = Inl (Cli SESSION_NOT_RUNNING (js ''Session is not running.''))
        \<or> (\<exists>x. host_step now (HResize cols rows) d (st_host s) = Inr x))
     \<and> (\<exists>h h'. host_step now (HPtyExit code (Some sig)) d (st_host s) = Inr (d, h)
          \<and> host_step now' (HExitDone True) d h = Inr (d, h')
          \<and> s_status (ho_state h') =
              (if s_status (ho_state (st_host s)) = Destroying then Destroyed else Exited)
          \<and> s_exit_code (ho_state h') = Some code
          \<and> s_exit_signal (ho_state h') = (if sig = 0 then None else Some (int_digits sig))
          \<and> mw_waiting (ho_writer h') = Suc (mw_waiting (ho_writer (st_host s))))"
proof -
  have ok: "host_ok (st_host s)" using store_reach_ok [OF assms(2,1)] by (simp add: store_ok_def)
  let ?r = "ho_state (st_host s)"
  from ok assms(3) have st: "s_status ?r \<in> {Running, Destroying}" "s_exit_code ?r = None"
    "s_exit_signal ?r = None" by (simp_all add: host_ok_def)
  have "\<exists>x. host_step now HShutdown d (st_host s) = Inr x"
    using st by (auto simp: host_op_defs state_call_defs is_commandable_iff)
  moreover have "host_step now (HResize cols rows) d (st_host s)
          = Inl (Cli SESSION_NOT_RUNNING (js ''Session is not running.''))
        \<or> (\<exists>x. host_step now (HResize cols rows) d (st_host s) = Inr x)"
    using assms(4,5) by (auto simp: host_op_defs state_call_defs is_commandable_iff)
  moreover have "\<exists>h h'. host_step now (HPtyExit code (Some sig)) d (st_host s) = Inr (d, h)
          \<and> host_step now' (HExitDone True) d h = Inr (d, h')
          \<and> s_status (ho_state h') = (if s_status ?r = Destroying then Destroyed else Exited)
          \<and> s_exit_code (ho_state h') = Some code
          \<and> s_exit_signal (ho_state h') = (if sig = 0 then None else Some (int_digits sig))
          \<and> mw_waiting (ho_writer h') = Suc (mw_waiting (ho_writer (st_host s)))"
    using st assms(3,6)
    by (cases "s_status ?r = Destroying")
       (simp_all add: host_op_defs state_call_defs Let_def)
  ultimately show ?thesis by blast
qed

section \<open>A run with a stale reconcile\<close>

definition example_input :: step_input where
  "example_input = \<lparr>in_now = js ''t1'', in_host_alive = False, in_group = GroupGone,
     in_lands = True, in_rpc = RpcAnswered, in_throw = None\<rparr>"

definition step_proc :: "nat \<Rightarrow> shared_store \<Rightarrow> shared_store" where
  "step_proc k s =
     (let (d, p) = proc_step example_input (st_folder s) (st_procs s k)
      in s\<lparr>st_folder := d, st_procs := (st_procs s)(k := p), st_broken := st_broken s \<or> proc_threw p\<rparr>)"

definition crashed_store :: shared_store where
  \<comment> \<open>The host died; process 0 runs a reconcile and process 1 a forced destroy.\<close>
  "crashed_store =
     (new_store example_session)
       \<lparr>st_host := (new_host example_session)\<lparr>ho_alive := False\<rparr>,
        st_procs := (\<lambda>_. Idle)(0 := Recon RStart, 1 := Destroy (DStart True))\<rparr>"

lemma example_fresh: "fresh_record example_session"
  by (simp add: fresh_record_def example_session_def)

lemma crashed_reach: "store_reach example_session crashed_store"
proof -
  let ?s0 = "new_store example_session"
  let ?s1 = "?s0\<lparr>st_host := (st_host ?s0)\<lparr>ho_alive := False\<rparr>\<rparr>"
  let ?s2 = "?s1\<lparr>st_procs := (st_procs ?s1)(0 := Recon RStart)\<rparr>"
  let ?s3 = "?s2\<lparr>st_procs := (st_procs ?s2)(1 := Destroy (DStart True))\<rparr>"
  have "store_reach example_session ?s1"
    by (rule store_reach.more [OF store_reach.fresh store_step.host_dies])
  then have "store_reach example_session ?s2"
    by (rule store_reach.more) (rule store_step.starts, simp_all add: new_store_def)
  then have "store_reach example_session ?s3"
    by (rule store_reach.more) (rule store_step.starts [where force = True], simp_all add: new_store_def)
  moreover have "?s3 = crashed_store" by (simp add: crashed_store_def new_store_def)
  ultimately show ?thesis by simp
qed

lemma step_proc_dead: "ho_alive (st_host (step_proc k s)) = ho_alive (st_host s)"
  by (simp add: step_proc_def split: prod.split)

lemma step_proc_step: "\<not> ho_alive (st_host s) \<Longrightarrow> store_step s (step_proc k s)"
  by (auto simp: step_proc_def split: prod.split intro!: store_step.proc [of _ example_input])

lemma run_procs_reach:
  "store_reach r s \<Longrightarrow> \<not> ho_alive (st_host s) \<Longrightarrow>
     store_reach r (fold step_proc ks s) \<and> store_step\<^sup>*\<^sup>* s (fold step_proc ks s)"
proof (induction ks arbitrary: s)
  case Nil
  then show ?case by simp
next
  case (Cons k ks)
  have one: "store_step s (step_proc k s)" using Cons.prems(2) step_proc_step by blast
  have "store_reach r (step_proc k s)" using Cons.prems(1) one by (rule store_reach.more)
  with Cons.IH [of "step_proc k s"] Cons.prems(2) one show ?case
    by (auto simp: step_proc_dead intro: converse_rtranclp_into_rtranclp)
qed

text \<open>
  The reconcile reads running and is about to write; the destroy runs from its start to its end;
  the reconcile writes failed over destroyed, finds the marker and writes destroyed.
\<close>

definition stale_schedule :: "nat list" where
  "stale_schedule = replicate 6 0 @ replicate 9 1 @ replicate 3 0"

lemmas example_run_simps = crashed_store_def new_store_def new_host_def step_proc_def
  example_input_def example_session_def fold_simps numeral_eq_Suc is_marked_destroyed_def status_simps read_active_def
  after_stop_def after_write_def write_manifest_def write_destroy_marker_def

definition stale_end :: shared_store where
  "stale_end = fold step_proc stale_schedule crashed_store"

lemma stale_run:
  "st_procs stale_end 0 = Recon RDone \<and> st_procs stale_end 1 = Destroy (DDone (Inr ()))
   \<and> (\<forall>j. st_procs stale_end (Suc (Suc j)) = Idle) \<and> \<not> st_broken stale_end"
  by (simp add: stale_end_def stale_schedule_def example_run_simps)

lemma stale_not_pending: "\<not> proc_pending (st_procs stale_end j)"
  using stale_run by (cases j; cases "j - 1") auto

lemma stale_middle: "disk_terminal (st_folder (fold step_proc (replicate 6 0 @ replicate 9 1) crashed_store))"
  by (simp add: example_run_simps disk_terminal_def destroyed_manifest_def)


theorem terminal_never_reactivated_witness:
  "disk_terminal (st_folder (fold step_proc (replicate 6 0 @ replicate 9 1) crashed_store))
   \<and> disk_terminal (st_folder stale_end)"
proof -
  let ?mid = "fold step_proc (replicate 6 0 @ replicate 9 1) crashed_store"
  have dead: "\<not> ho_alive (st_host crashed_store)" by (simp add: crashed_store_def)
  have "store_reach example_session ?mid" using run_procs_reach [OF crashed_reach dead] by blast
  moreover have "\<not> ho_alive (st_host (fold step_proc ks s))" if "\<not> ho_alive (st_host s)" for ks s
    using that by (induction ks arbitrary: s) (auto simp: step_proc_dead)
  then have "store_step\<^sup>*\<^sup>* ?mid (fold step_proc (replicate 3 0) ?mid)"
    using run_procs_reach [OF \<open>store_reach example_session ?mid\<close>] dead by blast
  then have "store_step\<^sup>*\<^sup>* ?mid stale_end"
    by (simp add: stale_end_def stale_schedule_def)
  ultimately show ?thesis
    using terminal_never_reactivated [OF example_fresh _ _ stale_middle] stale_middle by blast
qed



theorem host_never_asserts_witness:
  "\<exists>h h'. host_step (js ''t1'') (HPtyExit 3 (Some 9)) \<lparr>fo_manifest = None, fo_marker = False\<rparr> (new_host example_session) = Inr (\<lparr>fo_manifest = None, fo_marker = False\<rparr>, h)
      \<and> host_step (js ''t2'') (HExitDone True) \<lparr>fo_manifest = None, fo_marker = False\<rparr> h = Inr (\<lparr>fo_manifest = None, fo_marker = False\<rparr>, h')
      \<and> s_status (ho_state h') = Exited \<and> s_exit_code (ho_state h') = Some 3
      \<and> s_exit_signal (ho_state h') = Some (js ''9'')"
proof -
  have "\<not> ho_exit_handled (st_host (new_store example_session))"
    and st: "s_status (ho_state (st_host (new_store example_session))) = Running"
    and h: "st_host (new_store example_session) = new_host example_session"
    by (simp_all add: new_store_def new_host_def example_session_def)
  moreover have "int_digits 9 = js ''9''"
    by (simp add: int_digits_def nat_digits.simps js_eval)
  ultimately show ?thesis
    using host_never_asserts [OF example_fresh store_reach.fresh, of 80 24 9 "js ''t1''" "\<lparr>fo_manifest = None, fo_marker = False\<rparr>" 3 "js ''t2''"]
    by auto
qed

end
