(* ===== verification/KeyEncoder.thy ===== *)
theory KeyEncoder
  imports Prelude "HOL-Library.Multiset"
begin

text \<open>
  The bytes a terminal sends for a named key: parsing of names such as \<open>Ctrl+Shift+Up\<close>, the three
  families of encodings and every assertion, and the bracketed paste. A decoder in the style of a
  terminal program, written here as the specification, reads the control sequences back.
\<close>

section \<open>Key names\<close>

record key_modifiers =
  km_ctrl :: bool
  km_alt :: bool
  km_shift :: bool

definition no_modifiers :: key_modifiers where
  "no_modifiers = \<lparr>km_ctrl = False, km_alt = False, km_shift = False\<rparr>"

definition has_modifiers :: "key_modifiers \<Rightarrow> bool" where
  "has_modifiers m \<longleftrightarrow> km_ctrl m \<or> km_alt m \<or> km_shift m"

definition modifier_parameter :: "key_modifiers \<Rightarrow> nat res" where
  "modifier_parameter m =
     check (has_modifiers m) ''Modifier parameter requires at least one modifier''
       (Inr (1 + of_bool (km_shift m) + of_bool (km_alt m) * 2 + of_bool (km_ctrl m) * 4))"

definition format_modifiers :: "key_modifiers \<Rightarrow> jstring" where
  "format_modifiers m =
     join_with (js ''+'')
       ((if km_ctrl m then [js ''ctrl''] else []) @ (if km_alt m then [js ''alt''] else [])
        @ (if km_shift m then [js ''shift''] else []))"

text \<open>
  \<open>token in modifiers\<close> also finds the names that every object inherits; the two that are all in
  lower case are \<open>constructor\<close> and \<open>__proto__\<close>, and both have a true value.
\<close>

definition in_modifiers :: "jstring \<Rightarrow> bool" where
  "in_modifiers t \<longleftrightarrow>
     t \<in> {js ''ctrl'', js ''alt'', js ''shift'', js ''constructor'', js ''__proto__''}"

definition get_modifier :: "jstring \<Rightarrow> key_modifiers \<Rightarrow> bool" where
  "get_modifier t m =
     (if t = js ''ctrl'' then km_ctrl m
      else if t = js ''alt'' then km_alt m
      else if t = js ''shift'' then km_shift m
      else True)"

definition set_modifier :: "jstring \<Rightarrow> key_modifiers \<Rightarrow> key_modifiers" where
  "set_modifier t m =
     (if t = js ''ctrl'' then m\<lparr>km_ctrl := True\<rparr>
      else if t = js ''alt'' then m\<lparr>km_alt := True\<rparr>
      else if t = js ''shift'' then m\<lparr>km_shift := True\<rparr>
      else m)"

fun add_modifiers :: "jstring \<Rightarrow> jstring list \<Rightarrow> key_modifiers \<Rightarrow> key_modifiers res" where
  "add_modifiers keyName [] m = Inr m"
| "add_modifiers keyName (token # ts) m =
     check_str (token \<noteq> []) (js ''Invalid key token in '' @ keyName)
     (check_str (in_modifiers (to_lower token)) (js ''Unknown modifier: '' @ token)
     (check_str (\<not> get_modifier (to_lower token) m) (js ''Duplicate modifier: '' @ token)
       (add_modifiers keyName ts (set_modifier (to_lower token) m))))"

definition key_tokens :: "jstring \<Rightarrow> jstring list" where
  "key_tokens keyName = map trim (split_on 43 (trim keyName))"

definition parse_key_name :: "jstring \<Rightarrow> (jstring \<times> key_modifiers) res" where
  "parse_key_name keyName =
     check (trim keyName \<noteq> []) ''Key name must not be empty''
     (let tokens = key_tokens keyName; baseKey = last tokens
      in check (baseKey \<noteq> []) ''Key name must contain a base key''
        (bind_res (add_modifiers keyName (butlast tokens) no_modifiers) (\<lambda>modifiers.
           check_str (\<not> in_modifiers (to_lower baseKey)) (js ''Missing base key in '' @ keyName)
             (Inr (baseKey, modifiers)))))"

section \<open>Encodings\<close>

definition simple_keys :: "(jstring \<times> jstring) list" where
  "simple_keys = [(js ''enter'', [13]), (js ''tab'', [9]), (js ''escape'', [27]), (js ''backspace'', [127])]"

definition csi_final_keys :: "(jstring \<times> (jstring \<times> code_unit)) list" where
  "csi_final_keys =
     [(js ''up'', ([27, 91, 65], 65)), (js ''down'', ([27, 91, 66], 66)),
      (js ''right'', ([27, 91, 67], 67)), (js ''left'', ([27, 91, 68], 68)),
      (js ''home'', ([27, 91, 72], 72)), (js ''end'', ([27, 91, 70], 70)),
      (js ''f1'', ([27, 79, 80], 80)), (js ''f2'', ([27, 79, 81], 81)),
      (js ''f3'', ([27, 79, 82], 82)), (js ''f4'', ([27, 79, 83], 83))]"

definition csi_tilde_keys :: "(jstring \<times> nat) list" where
  "csi_tilde_keys =
     [(js ''insert'', 2), (js ''delete'', 3), (js ''pageup'', 5), (js ''pagedown'', 6),
      (js ''f5'', 15), (js ''f6'', 17), (js ''f7'', 18), (js ''f8'', 19), (js ''f9'', 20),
      (js ''f10'', 21), (js ''f11'', 23), (js ''f12'', 24)]"

definition is_printable_ascii :: "code_unit \<Rightarrow> bool" where
  "is_printable_ascii c \<longleftrightarrow> 32 \<le> c \<and> c \<le> 126"

definition is_ascii_letter :: "code_unit \<Rightarrow> bool" where
  "is_ascii_letter c \<longleftrightarrow> (65 \<le> c \<and> c \<le> 90) \<or> (97 \<le> c \<and> c \<le> 122)"

definition upper_ascii :: "code_unit \<Rightarrow> code_unit" where
  \<comment> \<open>\<open>toUpperCase\<close> of one ASCII unit.\<close>
  "upper_ascii c = (if 97 \<le> c \<and> c \<le> 122 then c - 32 else c)"

definition control_character :: "code_unit \<Rightarrow> code_unit option" where
  "control_character c =
     (if is_ascii_letter c then Some (upper_ascii c - 64)
      else if c = 32 then Some 0
      else if c = 64 then Some 0
      else if c = 91 then Some 27
      else if c = 92 then Some 28
      else if c = 93 then Some 29
      else if c = 94 then Some 30
      else if c = 95 then Some 31
      else if c = 63 then Some 127
      else None)"

definition unsupported :: "jstring \<Rightarrow> key_modifiers \<Rightarrow> jstring" where
  "unsupported key m = js ''Unsupported modifier combination for '' @ key @ js '': '' @ format_modifiers m"

definition encode_simple_key :: "jstring \<Rightarrow> jstring \<Rightarrow> key_modifiers \<Rightarrow> jstring res" where
  "encode_simple_key baseKey sequence m =
     (if \<not> has_modifiers m then Inr sequence
      else if baseKey = js ''tab'' \<and> km_shift m \<and> \<not> km_ctrl m \<and> \<not> km_alt m then Inr [27, 91, 90]
      else if km_alt m \<and> \<not> km_ctrl m \<and> \<not> km_shift m then Inr (27 # sequence)
      else Inl (Assertion (unsupported baseKey m)))"

definition encode_csi_final_key :: "jstring \<times> code_unit \<Rightarrow> key_modifiers \<Rightarrow> jstring res" where
  "encode_csi_final_key spec m =
     (if \<not> has_modifiers m then Inr (fst spec)
      else bind_res (modifier_parameter m) (\<lambda>p.
        Inr ([27, 91] @ js ''1;'' @ nat_digits p @ [snd spec])))"

definition encode_csi_tilde_key :: "nat \<Rightarrow> key_modifiers \<Rightarrow> jstring res" where
  "encode_csi_tilde_key code m =
     (if \<not> has_modifiers m then Inr ([27, 91] @ nat_digits code @ [126])
      else bind_res (modifier_parameter m) (\<lambda>p.
        Inr ([27, 91] @ nat_digits code @ js '';'' @ nat_digits p @ [126])))"

definition encode_printable :: "code_unit \<Rightarrow> key_modifiers \<Rightarrow> jstring \<Rightarrow> jstring res" where
  "encode_printable c m displayKey =
     check_str (is_printable_ascii c) (js ''Unsupported printable key: '' @ displayKey)
     (if \<not> has_modifiers m then Inr [c]
      else if km_ctrl m then
        check_str (km_shift m \<longrightarrow> is_ascii_letter c) (unsupported displayKey m)
        (case control_character c of
           None \<Rightarrow> Inl (Assertion (unsupported displayKey m))
         | Some k \<Rightarrow> Inr (if km_alt m then [27, k] else [k]))
      else if km_alt m then
        (if km_shift m
         then check_str (is_ascii_letter c) (unsupported displayKey m) (Inr [27, upper_ascii c])
         else Inr [27, c])
      else if km_shift m then
        check_str (is_ascii_letter c) (unsupported displayKey m) (Inr [upper_ascii c])
      else Inl (Assertion (unsupported displayKey m)))"

definition encode_base :: "jstring \<Rightarrow> key_modifiers \<Rightarrow> jstring res" where
  "encode_base baseKey m =
     (let lower = to_lower baseKey
      in if lower = js ''space'' then encode_printable 32 m baseKey
         else case map_of simple_keys lower of
           Some sequence \<Rightarrow> encode_simple_key lower sequence m
         | None \<Rightarrow>
         (case map_of csi_final_keys lower of
           Some spec \<Rightarrow> encode_csi_final_key spec m
         | None \<Rightarrow>
         (case map_of csi_tilde_keys lower of
           Some code \<Rightarrow> encode_csi_tilde_key code m
         | None \<Rightarrow>
             if length baseKey = 1 \<and> is_printable_ascii (hd baseKey)
             then encode_printable (hd baseKey) m baseKey
             else Inl (Assertion (js ''Unknown base key: '' @ baseKey)))))"

definition encode_key :: "jstring \<Rightarrow> jstring res" where
  "encode_key keyName =
     bind_res (parse_key_name keyName) (\<lambda>(baseKey, m). encode_base baseKey m)"

definition assert_valid_key_name :: "jstring \<Rightarrow> unit res" where
  "assert_valid_key_name key =
     (case encode_key key of
        Inl e \<Rightarrow> Inl (Cli INVALID_KEYS (error_message e))
      | Inr _ \<Rightarrow> Inr ())"

definition encode_paste :: "jstring \<Rightarrow> jstring res" where
  "encode_paste text_units =
     check (text_units \<noteq> []) ''Paste text must not be empty''
       (Inr ([27, 91] @ js ''200~'' @ text_units @ [27, 91] @ js ''201~''))"

section \<open>Names that mean the same\<close>

lemma trim_space_Cons: "is_js_space c \<Longrightarrow> trim (c # w) = trim w"
  by (simp add: trim_def)

lemma trim_space_snoc:
  assumes "is_js_space c"
  shows "trim (w @ [c]) = trim w"
proof (cases "\<forall>x \<in> set w. is_js_space x")
  case True
  have "dropWhile is_js_space w = []" using True by (simp add: dropWhile_eq_Nil_conv)
  moreover have "dropWhile is_js_space (w @ [c]) = []"
    using True assms by (simp add: dropWhile_eq_Nil_conv)
  ultimately show ?thesis by (simp only: trim_def)
next
  case False
  then have "dropWhile is_js_space (w @ [c]) = dropWhile is_js_space w @ [c]"
    by (auto simp: dropWhile_append)
  with assms show ?thesis by (simp add: trim_def)
qed

lemma split_on_snoc:
  "c \<noteq> x \<Longrightarrow> split_on x (s @ [c]) = butlast (split_on x s) @ [last (split_on x s) @ [c]]"
proof (induction s)
  case Nil
  then show ?case by simp
next
  case (Cons a s)
  have ne: "split_on x s \<noteq> []" by simp
  then obtain w ws where s: "split_on x s = w # ws" by (cases "split_on x s") auto
  with Cons show ?case by (cases ws) auto
qed

lemma map_trim_split_front:
  "\<not> is_js_space x \<Longrightarrow> map trim (split_on x (dropWhile is_js_space s)) = map trim (split_on x s)"
proof (induction s)
  case Nil
  then show ?case by simp
next
  case (Cons c s)
  obtain w ws where s: "split_on x s = w # ws" by (cases "split_on x s") auto
  show ?case
  proof (cases "is_js_space c")
    case True
    with Cons have "c \<noteq> x" by auto
    with Cons True s show ?thesis by (simp add: trim_space_Cons)
  qed simp
qed

lemma map_trim_split_snoc:
  assumes "\<not> is_js_space x" and "is_js_space c"
  shows "map trim (split_on x (s @ [c])) = map trim (split_on x s)"
proof -
  have "c \<noteq> x" using assms by auto
  have "map trim (split_on x s) = map trim (butlast (split_on x s)) @ [trim (last (split_on x s))]"
    by (metis append_butlast_last_id list.simps(8,9) map_append split_on_ne)
  with split_on_snoc [OF \<open>c \<noteq> x\<close>, of s] show ?thesis by (simp add: trim_space_snoc assms(2))
qed

lemma map_trim_split_back:
  assumes "\<not> is_js_space x"
  shows "map trim (split_on x (rev (dropWhile is_js_space (rev s)))) = map trim (split_on x s)"
proof (induction s rule: rev_induct)
  case (snoc c s)
  then show ?case by (cases "is_js_space c") (simp_all add: map_trim_split_snoc [OF assms])
qed simp

lemma key_tokens_split: "key_tokens s = map trim (split_on 43 s)"
proof -
  have "\<not> is_js_space 43" by (simp add: is_js_space_def)
  then show ?thesis
    by (simp add: key_tokens_def trim_def map_trim_split_front
        map_trim_split_back [of 43 "dropWhile is_js_space s", simplified])
qed

lemma split_on_join:
  "\<forall>w \<in> set ws. x \<notin> set w \<Longrightarrow> ws \<noteq> [] \<Longrightarrow> split_on x (join_with [x] ws) = ws"
proof (induction ws rule: induct_list012)
  case (3 w v ws)
  then show ?case by (simp add: split_on_append_sep)
qed (simp_all add: split_on_no_sep)

text \<open>Whether the modifiers are accepted depends on the bag of their names only.\<close>

definition modifier_names :: "jstring set" where
  "modifier_names = {js ''ctrl'', js ''alt'', js ''shift''}"

lemma modifier_names_distinct [simp]:
  "js ''ctrl'' \<noteq> js ''alt''" "js ''alt'' \<noteq> js ''ctrl''" "js ''ctrl'' \<noteq> js ''shift''"
  "js ''shift'' \<noteq> js ''ctrl''" "js ''alt'' \<noteq> js ''shift''" "js ''shift'' \<noteq> js ''alt''"
  by (simp_all add: js_eval)

lemma modifier_free_iff:
  "in_modifiers t \<and> \<not> get_modifier t m \<longleftrightarrow> t \<in> modifier_names \<and> \<not> get_modifier t m"
  by (auto simp: in_modifiers_def modifier_names_def get_modifier_def)

lemma get_set_modifier:
  "t \<in> modifier_names \<Longrightarrow> u \<in> modifier_names \<Longrightarrow>
     get_modifier u (set_modifier t m) \<longleftrightarrow> u = t \<or> get_modifier u m"
  by (auto simp: modifier_names_def get_modifier_def set_modifier_def)

lemma fold_set_modifier:
  "set ls \<subseteq> modifier_names \<Longrightarrow> fold set_modifier ls m =
     \<lparr>km_ctrl = km_ctrl m \<or> js ''ctrl'' \<in> set ls, km_alt = km_alt m \<or> js ''alt'' \<in> set ls,
      km_shift = km_shift m \<or> js ''shift'' \<in> set ls\<rparr>"
proof (induction ls arbitrary: m)
  case Nil
  then show ?case by simp
next
  case (Cons l ls)
  then show ?case by (auto simp: modifier_names_def set_modifier_def)
qed

lemma to_lower_Nil [simp]: "to_lower [] = []"
  by (simp add: to_lower_def)

lemma modifier_name_nonempty: "[] \<notin> modifier_names"
  by (simp add: modifier_names_def js_eval)

lemma add_modifiers_Inr:
  "add_modifiers keyName ts m = Inr m' \<longleftrightarrow>
     set (map to_lower ts) \<subseteq> modifier_names \<and> distinct (map to_lower ts)
   \<and> (\<forall>t \<in> set (map to_lower ts). \<not> get_modifier t m) \<and> m' = fold set_modifier (map to_lower ts) m"
proof (induction ts arbitrary: m)
  case Nil
  then show ?case by auto
next
  case (Cons t ts)
  let ?t = "to_lower t"
  have "add_modifiers keyName (t # ts) m = Inr m' \<longleftrightarrow>
      ?t \<in> modifier_names \<and> \<not> get_modifier ?t m
      \<and> add_modifiers keyName ts (set_modifier ?t m) = Inr m'"
    using modifier_free_iff [of ?t m] modifier_name_nonempty by (auto simp: res_simps)
  also have "\<dots> \<longleftrightarrow> ?t \<in> modifier_names \<and> \<not> get_modifier ?t m
      \<and> set (map to_lower ts) \<subseteq> modifier_names \<and> distinct (map to_lower ts)
      \<and> (\<forall>u \<in> set (map to_lower ts). \<not> get_modifier u (set_modifier ?t m))
      \<and> m' = fold set_modifier (map to_lower ts) (set_modifier ?t m)"
    unfolding Cons.IH by blast
  also have "\<dots> \<longleftrightarrow> set (map to_lower (t # ts)) \<subseteq> modifier_names \<and> distinct (map to_lower (t # ts))
      \<and> (\<forall>u \<in> set (map to_lower (t # ts)). \<not> get_modifier u m)
      \<and> m' = fold set_modifier (map to_lower (t # ts)) m"
    using get_set_modifier [of ?t _ m] by (simp del: set_map) blast
  finally show ?case .
qed

lemma parse_key_name_Inr:
  "parse_key_name keyName = Inr (b, m) \<longleftrightarrow>
     trim keyName \<noteq> [] \<and> b = last (key_tokens keyName) \<and> b \<noteq> []
   \<and> add_modifiers keyName (butlast (key_tokens keyName)) no_modifiers = Inr m
   \<and> \<not> in_modifiers (to_lower b)"
  by (auto simp: parse_key_name_def res_simps Let_def)

lemma trim_nonempty: "last (key_tokens s) \<noteq> [] \<Longrightarrow> trim s \<noteq> []"
proof
  assume ne: "last (key_tokens s) \<noteq> []" and "trim s = []"
  then have "key_tokens s = [trim []]" by (simp only: key_tokens_def) simp
  with ne show False by (simp add: trim_def)
qed

text \<open>The encoding of a key does not depend on how its name is written: the modifiers in another
  order, in another case, or with white space around any part give the same bytes.
\<close>
theorem key_name_spelling:
  assumes "\<forall>w \<in> set (ws @ ws' @ [b, b']). 43 \<notin> set w"
    and "mset (map (to_lower \<circ> trim) ws) = mset (map (to_lower \<circ> trim) ws')"
    and "trim b = trim b'"
    and "encode_key (join_with [43] (ws @ [b])) = Inr s"
  shows "encode_key (join_with [43] (ws' @ [b'])) = Inr s"
proof -
  let ?k = "join_with [43] (ws @ [b])" and ?k' = "join_with [43] (ws' @ [b'])"
  have tk: "key_tokens ?k = map trim ws @ [trim b]" and tk': "key_tokens ?k' = map trim ws' @ [trim b']"
    using assms(1) by (simp_all add: key_tokens_split split_on_join)
  have map2: "map (to_lower \<circ> trim) xs = map to_lower (map trim xs)" for xs by simp
  have same_set: "set (map to_lower (map trim ws)) = set (map to_lower (map trim ws'))"
    using assms(2) unfolding map2 by (metis set_mset_mset)
  have same_distinct: "distinct (map to_lower (map trim ws)) = distinct (map to_lower (map trim ws'))"
    using assms(2) unfolding map2 by (metis mset_eq_imp_distinct_iff)
  from assms(4) obtain m where p: "parse_key_name ?k = Inr (trim b, m)"
    and e: "encode_base (trim b) m = Inr s"
    by (auto simp: encode_key_def res_simps parse_key_name_Inr tk)
  from p have am: "add_modifiers ?k (map trim ws) no_modifiers = Inr m"
    by (simp add: parse_key_name_Inr tk)
  have "add_modifiers ?k' (map trim ws') no_modifiers = Inr m"
    using am same_set same_distinct unfolding add_modifiers_Inr
    by (simp del: set_map add: fold_set_modifier)
  with p have "parse_key_name ?k' = Inr (trim b', m)"
    using trim_nonempty [of ?k'] assms(3) by (auto simp: parse_key_name_Inr tk tk')
  with e assms(3) show ?thesis by (simp add: encode_key_def)
qed

lemma spelled_tokens:
  "key_tokens (js ''ctrl+shift+Up'') = [js ''ctrl'', js ''shift'', js ''Up'']"
  by (simp add: key_tokens_split js_eval trim_def is_js_space_def)

lemma spelled_parse:
  "parse_key_name (js ''ctrl+shift+Up'') =
     Inr (js ''Up'', \<lparr>km_ctrl = True, km_alt = False, km_shift = True\<rparr>)"
proof -
  have "trim (js ''ctrl+shift+Up'') = js ''ctrl+shift+Up''"
    by (simp add: js_eval trim_def is_js_space_def)
  moreover have "to_lower (js ''ctrl'') = js ''ctrl''" "to_lower (js ''shift'') = js ''shift''"
    "to_lower (js ''Up'') = js ''up''" "js ''ctrl'' \<noteq> []" "js ''shift'' \<noteq> []" "js ''Up'' \<noteq> []"
    by (simp_all add: js_eval to_lower_def lower_unit_def)
  moreover have "\<not> in_modifiers (js ''up'')" "in_modifiers (js ''ctrl'')" "in_modifiers (js ''shift'')"
    by (simp_all add: js_eval in_modifiers_def)
  ultimately show ?thesis
    by (simp add: parse_key_name_def spelled_tokens get_modifier_def set_modifier_def no_modifiers_def Let_def)
qed

lemma spelled_encoding: "encode_key (js ''ctrl+shift+Up'') = Inr ([27, 91] @ js ''1;6A'')"
proof -
  have "encode_base (js ''Up'') \<lparr>km_ctrl = True, km_alt = False, km_shift = True\<rparr> =
      Inr ([27, 91] @ js ''1;6A'')"
    by (simp add: encode_base_def to_lower_def lower_unit_def js_eval Let_def simple_keys_def
        csi_final_keys_def encode_csi_final_key_def has_modifiers_def modifier_parameter_def
        nat_digits.simps)
  then show ?thesis by (simp add: encode_key_def spelled_parse)
qed

theorem key_name_spelling_witness:
  "encode_key (js ''ctrl+shift+Up'') = Inr ([27, 91] @ js ''1;6A'')
   \<and> encode_key (js '' SHIFT + Ctrl+Up '') = Inr ([27, 91] @ js ''1;6A'')"
proof -
  have "join_with [43] [js ''ctrl'', js ''shift'', js ''Up''] = js ''ctrl+shift+Up''"
    "join_with [43] [js '' SHIFT '', js '' Ctrl'', js ''Up ''] = js '' SHIFT + Ctrl+Up ''"
    by (simp_all add: js_eval)
  moreover have "mset (map (to_lower \<circ> trim) [js ''ctrl'', js ''shift'']) =
      mset (map (to_lower \<circ> trim) [js '' SHIFT '', js '' Ctrl''])"
    by (simp add: js_eval trim_def is_js_space_def to_lower_def lower_unit_def)
  moreover have "trim (js ''Up'') = trim (js ''Up '')"
    by (simp add: js_eval trim_def is_js_space_def)
  ultimately show ?thesis
    using spelled_encoding
      key_name_spelling [of "[js ''ctrl'', js ''shift'']" "[js '' SHIFT '', js '' Ctrl'']"
        "js ''Up''" "js ''Up ''" "[27, 91] @ js ''1;6A''"]
    by (simp add: js_eval)
qed


section \<open>A terminal program reads the control sequences back\<close>

text \<open>
  The specification: what an xterm client reads. \<open>ESC [\<close> parameters final, or \<open>ESC O\<close> final;
  the second parameter is one plus a bit set of shift, alt and ctrl.
\<close>

fun read_number :: "nat \<Rightarrow> jstring \<Rightarrow> nat option" where
  "read_number n [] = Some n"
| "read_number n (c # s) = (if is_digit c then read_number (n * 10 + (c - 48)) s else None)"

definition read_modifiers :: "nat \<Rightarrow> key_modifiers" where
  "read_modifiers p =
     (let b = p - 1
      in \<lparr>km_ctrl = (b div 4 mod 2 = 1), km_alt = (b div 2 mod 2 = 1), km_shift = (b mod 2 = 1)\<rparr>)"

definition find_key :: "('a \<Rightarrow> bool) \<Rightarrow> (jstring \<times> 'a) list \<Rightarrow> jstring option" where
  "find_key P t = map_option fst (List.find (\<lambda>e. P (snd e)) t)"

definition decode_csi :: "jstring \<Rightarrow> (jstring \<times> key_modifiers) option" where
  "decode_csi s =
     (if length s < 3 \<or> hd s \<noteq> 27 then None
      else if s ! 1 = 79 then
        map_option (\<lambda>k. (k, no_modifiers)) (find_key (\<lambda>spec. fst spec = s) csi_final_keys)
      else if s ! 1 \<noteq> 91 then None
      else
        (let final = last s; params = map (read_number 0) (split_on 59 (butlast (drop 2 s)));
             m = (if length params = 2 then map_option read_modifiers (params ! 1) else Some no_modifiers);
             k = (if final = 126
                  then Option.bind (params ! 0) (\<lambda>n. find_key (\<lambda>c. c = n) csi_tilde_keys)
                  else find_key (\<lambda>spec. snd spec = final) csi_final_keys)
         in Option.bind k (\<lambda>k. map_option (\<lambda>m. (k, m)) m)))"

definition csi_key_names :: "jstring list" where
  "csi_key_names = map fst csi_final_keys @ map fst csi_tilde_keys"

lemma modifiers_exhaust:
  "m \<in> {\<lparr>km_ctrl = c, km_alt = a, km_shift = h\<rparr> | c a h. True}"
  by (cases m) auto

lemma nat_digits_one: "n < 10 \<Longrightarrow> nat_digits n = [48 + n]"
  by (subst nat_digits.simps) simp

lemma nat_digits_two: "10 \<le> n \<Longrightarrow> n < 100 \<Longrightarrow> nat_digits n = [48 + n div 10, 48 + n mod 10]"
  by (subst nat_digits.simps) (simp add: nat_digits_one)

lemmas csi_eval = js_eval nat_digits_one nat_digits_two find_key_def has_modifiers_def
  modifier_parameter_def read_modifiers_def is_digit_def no_modifiers_def

definition csi_ok :: "jstring res \<Rightarrow> jstring \<Rightarrow> key_modifiers \<Rightarrow> bool" where
  "csi_ok r name m \<longleftrightarrow> (case r of Inl e \<Rightarrow> False | Inr s \<Rightarrow>
     decode_csi s = Some (name, m) \<and> length s \<le> 7 \<and> s \<noteq> [] \<and> list_all (\<lambda>c. c < 128) s)"

lemma decode_final_all:
  "list_all (\<lambda>(name, spec). csi_ok (encode_csi_final_key spec \<lparr>km_ctrl = c, km_alt = a, km_shift = h\<rparr>)
      name \<lparr>km_ctrl = c, km_alt = a, km_shift = h\<rparr>) csi_final_keys"
  unfolding csi_ok_def encode_csi_final_key_def decode_csi_def Let_def csi_final_keys_def csi_tilde_keys_def
  by (cases c; cases a; cases h) (simp_all add: csi_eval)


lemma decode_tilde_all:
  "list_all (\<lambda>(name, code). csi_ok (encode_csi_tilde_key code \<lparr>km_ctrl = c, km_alt = a, km_shift = h\<rparr>)
      name \<lparr>km_ctrl = c, km_alt = a, km_shift = h\<rparr>) csi_tilde_keys"
  unfolding csi_ok_def encode_csi_tilde_key_def decode_csi_def Let_def csi_final_keys_def csi_tilde_keys_def
  by (cases c; cases a; cases h) (simp_all add: csi_eval)

lemma encode_base_csi:
  assumes "to_lower b \<in> set csi_key_names"
  shows "csi_ok (encode_base b m) (to_lower b) m"
proof -
  obtain c a h where m: "m = \<lparr>km_ctrl = c, km_alt = a, km_shift = h\<rparr>"
    using modifiers_exhaust [of m] by blast
  have other: "to_lower b \<noteq> js ''space'' \<and> map_of simple_keys (to_lower b) = None"
    using assms
    by (auto simp: csi_key_names_def csi_final_keys_def csi_tilde_keys_def simple_keys_def js_eval)
  show ?thesis
  proof (cases "map_of csi_final_keys (to_lower b)")
    case (Some spec)
    then have "(to_lower b, spec) \<in> set csi_final_keys" by (rule map_of_SomeD)
    with decode_final_all [of c a h] have "csi_ok (encode_csi_final_key spec m) (to_lower b) m"
      unfolding m list_all_iff by fast
    with Some other show ?thesis by (simp add: encode_base_def Let_def)
  next
    case None
    then have "to_lower b \<notin> fst ` set csi_final_keys" by (simp add: map_of_eq_None_iff)
    with assms have "to_lower b \<in> fst ` set csi_tilde_keys" by (simp add: csi_key_names_def)
    then obtain code where code: "map_of csi_tilde_keys (to_lower b) = Some code"
      by (metis map_of_eq_None_iff option.exhaust)
    then have "(to_lower b, code) \<in> set csi_tilde_keys" by (rule map_of_SomeD)
    with decode_tilde_all [of c a h] have "csi_ok (encode_csi_tilde_key code m) (to_lower b) m"
      unfolding m list_all_iff by fast
    with None code other show ?thesis by (simp add: encode_base_def Let_def)
  qed
qed


lemma encode_printable_bytes:
  assumes "encode_printable c m d = Inr s"
  shows "s \<noteq> [] \<and> length s \<le> 7 \<and> (\<forall>x \<in> set s. x < 128)"
proof -
  from assms have c: "32 \<le> c" "c \<le> 126"
    by (auto simp: encode_printable_def is_printable_ascii_def res_simps split: if_splits)
  then have "upper_ascii c < 128" "\<And>k. control_character c = Some k \<Longrightarrow> k < 128"
    by (auto simp: upper_ascii_def control_character_def is_ascii_letter_def split: if_splits)
  with assms c show ?thesis
    by (auto simp: encode_printable_def res_simps split: if_splits option.splits)
qed

lemma encode_simple_bytes:
  assumes "encode_simple_key k q m = Inr s" and "q \<in> snd ` set simple_keys"
  shows "s \<noteq> [] \<and> length s \<le> 7 \<and> (\<forall>x \<in> set s. x < 128)"
  using assms by (auto simp: encode_simple_key_def simple_keys_def split: if_splits)

lemma encode_base_bytes:
  assumes "encode_base b m = Inr s"
  shows "s \<noteq> [] \<and> length s \<le> 7 \<and> (\<forall>x \<in> set s. x < 128)"
proof (cases "to_lower b \<in> set csi_key_names")
  case True
  with encode_base_csi [OF True, of m] assms show ?thesis by (simp add: csi_ok_def list_all_iff)
next
  case False
  then have none: "map_of csi_final_keys (to_lower b) = None" "map_of csi_tilde_keys (to_lower b) = None"
    by (simp_all add: csi_key_names_def map_of_eq_None_iff)
  show ?thesis
  proof (cases "map_of simple_keys (to_lower b)")
    case None
    with assms none show ?thesis
      by (auto simp: encode_base_def Let_def dest: encode_printable_bytes split: if_splits)
  next
    case (Some q)
    from map_of_SomeD [OF this] have "q \<in> snd ` set simple_keys" by force
    with assms none Some show ?thesis
      by (auto simp: encode_base_def Let_def dest: encode_printable_bytes encode_simple_bytes split: if_splits)
  qed
qed

definition asserts_only :: "'a res \<Rightarrow> bool" where
  "asserts_only r \<longleftrightarrow> (\<forall>e. r = Inl e \<longrightarrow> (\<exists>msg. e = Assertion msg))"

lemma asserts_only_intros [intro]:
  "asserts_only (Inr x)"
  "asserts_only (Inl (Assertion msg))"
  "asserts_only k \<Longrightarrow> asserts_only (check b txt k)"
  "asserts_only k \<Longrightarrow> asserts_only (check_str b msg k)"
  "asserts_only r \<Longrightarrow> (\<And>x. asserts_only (f x)) \<Longrightarrow> asserts_only (bind_res r f)"
  by (auto simp: asserts_only_def check_def check_str_def bind_res_def split: sum.splits)

lemma add_modifiers_asserts: "asserts_only (add_modifiers k ts m)"
  by (induction ts arbitrary: m) auto

lemma encode_printable_asserts: "asserts_only (encode_printable c m d)"
  by (auto simp: encode_printable_def split: option.split)

lemma encode_simple_asserts: "asserts_only (encode_simple_key k q m)"
  by (auto simp: encode_simple_key_def)

lemma encode_final_asserts: "asserts_only (encode_csi_final_key spec m)"
  by (auto simp: encode_csi_final_key_def modifier_parameter_def)

lemma encode_tilde_asserts: "asserts_only (encode_csi_tilde_key code m)"
  by (auto simp: encode_csi_tilde_key_def modifier_parameter_def)

lemma encode_base_asserts: "asserts_only (encode_base b m)"
  using encode_printable_asserts encode_simple_asserts encode_final_asserts encode_tilde_asserts
  by (auto simp: encode_base_def Let_def split: option.split)

lemma encode_key_asserts: "asserts_only (encode_key keyName)"
  unfolding encode_key_def parse_key_name_def Let_def
  by (intro asserts_only_intros add_modifiers_asserts)
     (auto intro: encode_base_asserts split: prod.split)

text \<open>A key name that is accepted becomes one to seven ASCII bytes, and a name that is not
  accepted is an assertion, which the check of a Batch Plan turns into INVALID_KEYS with the same
  message; so a plan that passed the check never fails at its keys.
\<close>
theorem encode_key_bytes:
  "case encode_key keyName of
     Inr s \<Rightarrow> s \<noteq> [] \<and> length s \<le> 7 \<and> list_all (\<lambda>x. x < 128) s \<and> assert_valid_key_name keyName = Inr ()
   | Inl e \<Rightarrow> \<exists>msg. e = Assertion msg \<and> assert_valid_key_name keyName = Inl (Cli INVALID_KEYS msg)"
proof (cases "encode_key keyName")
  case (Inr s)
  then obtain b m where "encode_base b m = Inr s"
    by (auto simp: encode_key_def res_simps)
  from encode_base_bytes [OF this] Inr show ?thesis by (simp add: assert_valid_key_name_def list_all_iff)
next
  case (Inl e)
  from encode_key_asserts Inl have "\<exists>msg. e = Assertion msg" unfolding asserts_only_def by blast
  with Inl show ?thesis by (auto simp: assert_valid_key_name_def error_message_def)
qed



end
