(* ===== verification/RenderWait.thy ===== *)
theory RenderWait
  imports Prelude
begin

text \<open>
  Render waits: the check of a condition, the guard against regular expressions that can take
  exponential time, the matching of one snapshot, and the polling loop of the host that follows
  the screen over time. Snapshots come from a renderer and regular expressions are run by the
  JavaScript engine; both are arguments here.
\<close>

section \<open>Nested quantifiers\<close>

definition braced_quantifier :: "jstring \<Rightarrow> bool" where
  \<comment> \<open>\<open>/^\{(?:\d+|\d+,\d*)\}/\<close>\<close>
  "braced_quantifier s =
     (case s of
        [] \<Rightarrow> False
      | c # t \<Rightarrow> c = 123 \<and> takeWhile is_digit t \<noteq> [] \<and>
          (case dropWhile is_digit t of
             [] \<Rightarrow> False
           | d # u \<Rightarrow> d = 125 \<or> (d = 44 \<and> starts_with (dropWhile is_digit u) [125])))"

definition is_regex_quantifier_at :: "jstring \<Rightarrow> bool" where
  \<comment> \<open>The argument is the pattern from the index on.\<close>
  "is_regex_quantifier_at s =
     (case s of
        [] \<Rightarrow> False
      | c # _ \<Rightarrow> c = 42 \<or> c = 43 \<or> c = 63 \<or> (c = 123 \<and> braced_quantifier s))"

definition mark_top :: "bool list \<Rightarrow> bool list" where
  \<comment> \<open>The stack is kept with its top first.\<close>
  "mark_top stack = (case stack of [] \<Rightarrow> [] | _ # rest \<Rightarrow> True # rest)"

fun scan_quantifiers :: "code_unit option \<Rightarrow> jstring \<Rightarrow> bool list \<Rightarrow> bool \<Rightarrow> bool" where
  \<comment> \<open>From the unit before the index, the pattern from the index on, the stack, and whether the
     index is inside a character class.\<close>
  "scan_quantifiers prev [] stack inClass = False"
| "scan_quantifiers prev (c # s) stack inClass =
     (if c = 92 then
        (case s of [] \<Rightarrow> False | d # t \<Rightarrow> scan_quantifiers (Some d) t stack inClass)
      else if c = 91 then scan_quantifiers (Some c) s stack True
      else if c = 93 \<and> inClass then scan_quantifiers (Some c) s stack False
      else if inClass then scan_quantifiers (Some c) s stack inClass
      else if c = 40 then scan_quantifiers (Some c) s (False # stack) inClass
      else if c = 41 then
        (let has_q = (case stack of [] \<Rightarrow> False | q # _ \<Rightarrow> q);
             stack' = tl stack;
             quantified = is_regex_quantifier_at s
         in if has_q \<and> quantified then True
            else scan_quantifiers (Some c) s
                   (if has_q \<or> quantified then mark_top stack' else stack') inClass)
      else if stack = [] then scan_quantifiers (Some c) s stack inClass
      else if c = 42 \<or> c = 43 \<or> c = 63 then
        scan_quantifiers (Some c) s (if prev \<noteq> Some 40 then mark_top stack else stack) inClass
      else if c = 123 \<and> is_regex_quantifier_at (c # s) then
        scan_quantifiers (Some c) s (mark_top stack) inClass
      else scan_quantifiers (Some c) s stack inClass)"

definition has_nested_quantifiers :: "jstring \<Rightarrow> bool" where
  "has_nested_quantifiers pattern = scan_quantifiers None pattern [] False"

section \<open>Conditions\<close>

definition max_text_length :: nat where "max_text_length = 1000"
definition max_regex_length :: nat where "max_regex_length = 200"
definition max_regex_text_length :: nat where "max_regex_text_length = 50000"
definition default_wait_timeout_ms :: int where "default_wait_timeout_ms = 30000"
definition poll_interval_ms :: int where "poll_interval_ms = 200"

definition screen_stable_minimum_ms :: "int \<Rightarrow> int" where
  "screen_stable_minimum_ms window = max (window + poll_interval_ms) (2 * poll_interval_ms)"

datatype wait_scope = WholeScreen | CursorLine

type_synonym regex_exec = "jstring \<Rightarrow> jstring option" \<comment> \<open>\<open>exec\<close>: the text of the match\<close>

record wait_condition =
  wc_text :: "jstring option"
  wc_regex :: "jstring option"
  wc_scope :: "wait_scope option"
  wc_stable_ms :: "int option"
  wc_cursor_row :: "int option"
  wc_cursor_col :: "int option"
  wc_after_seq :: "int option"

record prepared_condition = wait_condition +
  pc_compiled :: "regex_exec option"

definition invalid_wait :: "jstring \<Rightarrow> 'a res" where
  "invalid_wait msg = Inl (Cli INVALID_INPUT msg)"

definition check_compiled ::
  "(jstring \<Rightarrow> jstring + regex_exec) \<Rightarrow> jstring option \<Rightarrow> regex_exec option res" where
  \<comment> \<open>The regular expression of a condition; \<open>compile\<close> is the \<open>RegExp\<close> constructor.\<close>
  "check_compiled compile regex =
     (case regex of
        None \<Rightarrow> Inr None
      | Some p \<Rightarrow>
          if length p < 1 \<or> length p > max_regex_length
          then invalid_wait (js ''Wait regex pattern must be between 1 and 200 characters'')
          else if has_nested_quantifiers p
          then invalid_wait (js ''Regex pattern contains nested quantifiers which may cause catastrophic backtracking. Simplify the pattern.'')
          else case compile p of
                 Inl msg \<Rightarrow> invalid_wait (js ''Invalid regex pattern: '' @ msg)
               | Inr r \<Rightarrow> Inr (Some r))"

definition prepare_condition ::
  "(jstring \<Rightarrow> jstring + regex_exec) \<Rightarrow> wait_condition \<Rightarrow> prepared_condition res" where
  "prepare_condition compile c =
     (if wc_scope c = Some CursorLine \<and> wc_text c = None \<and> wc_regex c = None
      then invalid_wait (js ''scope '' @ [39] @ js ''cursor-line'' @ [39] @ js '' requires a text or regex condition'')
      else if wc_text c = None \<and> wc_regex c = None \<and> wc_stable_ms c = None
          \<and> wc_cursor_row c = None \<and> wc_cursor_col c = None
      then invalid_wait (js ''waitForRender requires at least one of text, regex, screenStableMs, cursorRow, or cursorCol'')
      else if wc_text c \<noteq> None \<and> wc_regex c \<noteq> None
      then invalid_wait (js ''waitForRender text and regex filters are mutually exclusive'')
      else if (case wc_text c of None \<Rightarrow> False | Some t \<Rightarrow> length t < 1 \<or> length t > max_text_length)
      then invalid_wait (js ''Wait text must be between 1 and 1000 characters'')
      else bind_res (check_compiled compile (wc_regex c)) (\<lambda>compiled.
        if (case wc_stable_ms c of None \<Rightarrow> False | Some n \<Rightarrow> n \<le> 0)
        then invalid_wait (js ''screenStableMs must be a positive integer'')
        else if (case wc_cursor_row c of None \<Rightarrow> False | Some n \<Rightarrow> n < 0)
        then invalid_wait (js ''cursorRow must be a non-negative integer'')
        else if (case wc_cursor_col c of None \<Rightarrow> False | Some n \<Rightarrow> n < 0)
        then invalid_wait (js ''cursorCol must be a non-negative integer'')
        else if (case wc_after_seq c of None \<Rightarrow> False | Some n \<Rightarrow> n < -1)
        then invalid_wait (js ''afterSeq must be an integer of at least -1'')
        else Inr (wait_condition.extend c \<lparr>pc_compiled = compiled\<rparr>)))"

section \<open>Matching one snapshot\<close>

record snapshot =
  sn_visible_lines :: "jstring list"
  sn_cursor_row :: nat
  sn_cursor_col :: nat
  sn_captured_at :: int

definition canonical_visible_text :: "snapshot \<Rightarrow> jstring" where
  "canonical_visible_text s = join_with [10] (sn_visible_lines s)"

definition safe_regex_exec :: "regex_exec \<Rightarrow> jstring \<Rightarrow> jstring option" where
  "safe_regex_exec r t =
     r (if length t > max_regex_text_length then take max_regex_text_length t else t)"

record wait_match =
  wm_matched :: bool
  wm_text_matched :: bool
  wm_cursor_matched :: bool
  wm_stability_matched :: bool
  wm_baseline_matched :: bool
  wm_content_and_cursor :: bool
  wm_matched_text :: "jstring option"

definition match_target :: "'a prepared_condition_scheme \<Rightarrow> snapshot \<Rightarrow> jstring" where
  "match_target c s =
     (if wc_scope c = Some CursorLine
      then (if sn_cursor_row s < length (sn_visible_lines s)
            then sn_visible_lines s ! sn_cursor_row s else [])
      else canonical_visible_text s)"

definition text_match :: "prepared_condition \<Rightarrow> snapshot \<Rightarrow> bool \<times> jstring option" where
  "text_match c s =
     (case wc_text c of
        Some t \<Rightarrow> if includes_sub (match_target c s) t then (True, Some t) else (False, None)
      | None \<Rightarrow>
          (case pc_compiled c of
             Some r \<Rightarrow>
               (case safe_regex_exec r (match_target c s) of
                  None \<Rightarrow> (False, None)
                | Some m \<Rightarrow> (True, Some m))
           | None \<Rightarrow> (True, None)))"

definition match_snapshot :: "prepared_condition \<Rightarrow> snapshot \<Rightarrow> int option \<Rightarrow> wait_match res" where
  "match_snapshot c s stable_for =
     check (wc_regex c = None \<or> pc_compiled c \<noteq> None)
       ''PreparedRenderWaitCondition with regex must have compiledRegex; use prepareRenderWaitCondition()''
     (check (sn_captured_at s \<ge> -1) ''snapshot capturedAtSeq must be an integer of at least -1''
     (check (case stable_for of None \<Rightarrow> True | Some n \<Rightarrow> n \<ge> 0)
       ''stableForMs must be a non-negative finite number when provided''
     (let (text_ok, matched) = text_match c s;
          cursor_ok =
            (case wc_cursor_row c of None \<Rightarrow> True | Some n \<Rightarrow> int (sn_cursor_row s) = n)
            \<and> (case wc_cursor_col c of None \<Rightarrow> True | Some n \<Rightarrow> int (sn_cursor_col s) = n);
          stable_ok =
            (case wc_stable_ms c of None \<Rightarrow> True
             | Some d \<Rightarrow> (case stable_for of None \<Rightarrow> False | Some n \<Rightarrow> n \<ge> d));
          baseline_ok = (case wc_after_seq c of None \<Rightarrow> True | Some q \<Rightarrow> sn_captured_at s > q)
      in Inr \<lparr>wm_matched = (text_ok \<and> cursor_ok) \<and> stable_ok \<and> baseline_ok,
              wm_text_matched = text_ok, wm_cursor_matched = cursor_ok,
              wm_stability_matched = stable_ok, wm_baseline_matched = baseline_ok,
              wm_content_and_cursor = text_ok \<and> cursor_ok, wm_matched_text = matched\<rparr>)))"

section \<open>The polling loop of the host\<close>

text \<open>
  One poll ends with a snapshot or with an error, at the time \<open>now\<close>. The wait settles at the first
  poll that matches, or at the tenth error in a row.
\<close>

definition max_consecutive_poll_failures :: nat where
  "max_consecutive_poll_failures = 10"

record wait_state =
  ws_last_text :: "jstring option"
  ws_last_change :: int
  ws_latest_seq :: int
  ws_seen_post_baseline :: bool
  ws_failures :: nat

record wait_result =
  wr_matched_text :: "jstring option"
  wr_snapshot :: snapshot

datatype poll_outcome = Polling wait_state | Resolved wait_result | Rejected js_error

definition start_wait :: "int \<Rightarrow> wait_state" where
  "start_wait now = \<lparr>ws_last_text = None, ws_last_change = now, ws_latest_seq = -1,
     ws_seen_post_baseline = False, ws_failures = 0\<rparr>"

definition poll_failed :: "js_error \<Rightarrow> wait_state \<Rightarrow> poll_outcome" where
  "poll_failed e w =
     (if Suc (ws_failures w) \<ge> max_consecutive_poll_failures then Rejected e
      else Polling (w\<lparr>ws_failures := Suc (ws_failures w)\<rparr>))"

definition poll_step ::
  "prepared_condition \<Rightarrow> int \<Rightarrow> js_error + snapshot \<Rightarrow> wait_state \<Rightarrow> poll_outcome" where
  "poll_step c now polled w =
     (case polled of
        Inl e \<Rightarrow> poll_failed e w
      | Inr s \<Rightarrow>
          let visible = canonical_visible_text s;
              w1 = w\<lparr>ws_latest_seq := sn_captured_at s, ws_failures := 0\<rparr>
          in if \<not> (case wc_after_seq c of None \<Rightarrow> True | Some q \<Rightarrow> sn_captured_at s > q)
             then Polling w1
             else
               let changed = \<not> ws_seen_post_baseline w1 \<or> ws_last_text w1 \<noteq> Some visible;
                   w2 = (if changed then w1\<lparr>ws_last_text := Some visible, ws_last_change := now\<rparr> else w1);
                   w3 = w2\<lparr>ws_seen_post_baseline := True\<rparr>
               in case match_snapshot c s (Some (now - ws_last_change w3)) of
                    Inl e \<Rightarrow> poll_failed e w3
                  | Inr m \<Rightarrow>
                      if wm_matched m
                      then Resolved \<lparr>wr_matched_text = wm_matched_text m, wr_snapshot = s\<rparr>
                      else Polling w3)"

fun run_polls ::
  "prepared_condition \<Rightarrow> (int \<times> (js_error + snapshot)) list \<Rightarrow> wait_state \<Rightarrow> poll_outcome" where
  "run_polls c [] w = Polling w"
| "run_polls c ((now, p) # ps) w =
     (case poll_step c now p w of Polling w' \<Rightarrow> run_polls c ps w' | out \<Rightarrow> out)"

section \<open>The guard against nested quantifiers, on regular expressions as trees\<close>

datatype rx =
    Lit code_unit              \<comment> \<open>an ordinary unit\<close>
  | Escaped code_unit          \<comment> \<open>a unit after a backslash\<close>
  | CharClass jstring          \<comment> \<open>\<open>[...]\<close>\<close>
  | Group jstring "rx list"    \<comment> \<open>a group with its prefix, such as \<open>?:\<close>\<close>
  | Quantified rx jstring      \<comment> \<open>an item with its quantifier\<close>

fun print_rx :: "rx \<Rightarrow> jstring" where
  "print_rx (Lit c) = [c]"
| "print_rx (Escaped c) = [92, c]"
| "print_rx (CharClass b) = [91] @ b @ [93]"
| "print_rx (Group p rs) = [40] @ p @ concat (map print_rx rs) @ [41]"
| "print_rx (Quantified r q) = print_rx r @ q"

definition quantifier_ok :: "jstring \<Rightarrow> bool" where
  \<comment> \<open>\<open>*\<close>, \<open>+\<close>, \<open>?\<close> or braces, and perhaps the \<open>?\<close> of a lazy one.\<close>
  "quantifier_ok q \<longleftrightarrow> (\<exists>b lazy. q = b @ lazy \<and> lazy \<in> {[], [63]} \<and>
     (b \<in> {[42], [43], [63]}
      \<or> (\<exists>ds es. b = [123] @ ds @ es @ [125] \<and> ds \<noteq> [] \<and> list_all is_digit ds
           \<and> (es = [] \<or> (hd es = 44 \<and> list_all is_digit (tl es) \<and> es \<noteq> [])))))"

fun rx_ok :: "rx \<Rightarrow> bool" where
  "rx_ok (Lit c) = (c \<notin> {92, 91, 40, 41, 42, 43, 63, 123})"
| "rx_ok (Escaped c) = True"
| "rx_ok (CharClass b) = (92 \<notin> set b \<and> 93 \<notin> set b)"
| "rx_ok (Group p rs) = (p \<in> {[], [63, 58], [63, 61], [63, 33]} \<and> list_all rx_ok rs)"
| "rx_ok (Quantified r q) =
     (rx_ok r \<and> quantifier_ok q \<and> (\<forall>r' q'. r \<noteq> Quantified r' q') \<and> r \<noteq> Escaped 40)"

fun has_quantifier :: "rx \<Rightarrow> bool" where
  "has_quantifier (Group p rs) = list_ex has_quantifier rs"
| "has_quantifier (Quantified r q) = True"
| "has_quantifier _ = False"

fun nested :: "rx \<Rightarrow> bool" where
  \<comment> \<open>A quantified group holds a quantifier.\<close>
  "nested (Group p rs) = list_ex nested rs"
| "nested (Quantified r q) =
     (nested r \<or> (case r of Group p rs \<Rightarrow> list_ex has_quantifier rs | _ \<Rightarrow> False))"
| "nested _ = False"

definition starts_quantifier :: "jstring \<Rightarrow> bool" where
  "starts_quantifier s = (case s of [] \<Rightarrow> False | c # _ \<Rightarrow> c \<in> {42, 43, 63, 123})"

definition mark_if :: "bool \<Rightarrow> bool list \<Rightarrow> bool list" where
  "mark_if b stack = (if b then mark_top stack else stack)"

lemma mark_top_Nil [simp]: "mark_top [] = []"
  by (simp add: mark_top_def)

lemma mark_top_Cons [simp]: "mark_top (b # st) = True # st"
  by (simp add: mark_top_def)

lemma mark_top_twice [simp]: "mark_top (mark_top st) = mark_top st"
  by (cases st) simp_all

lemma mark_if_simps [simp]:
  "mark_if True st = mark_top st" "mark_if False st = st" "mark_if b [] = []"
  "mark_if b (x # st) = (x \<or> b) # st"
  by (simp_all add: mark_if_def)

lemma mark_if_if: "mark_if b (mark_if c st) = mark_if (b \<or> c) st"
  by (cases st) (auto simp: mark_if_def)

lemma scan_prev:
  "\<not> starts_quantifier s \<Longrightarrow> scan_quantifiers prev s st cl = scan_quantifiers prev' s st cl"
  by (cases s) (auto simp: starts_quantifier_def)

lemma not_quantifier_at: "\<not> starts_quantifier s \<Longrightarrow> \<not> is_regex_quantifier_at s"
  by (cases s) (auto simp: starts_quantifier_def is_regex_quantifier_at_def)

text \<open>Units that are neither special nor quantifiers pass.\<close>

lemma scan_plain:
  "list_all (\<lambda>c. c \<notin> {92, 91, 40, 41, 42, 43, 63, 123}) t \<Longrightarrow> \<not> starts_quantifier s \<Longrightarrow>
     scan_quantifiers prev (t @ s) st False = scan_quantifiers prev' s st False"
proof (induction t arbitrary: prev)
  case Nil
  then show ?case using scan_prev by simp
next
  case (Cons c t)
  then show ?case by auto
qed

lemma scan_class:
  "92 \<notin> set b \<Longrightarrow> 93 \<notin> set b \<Longrightarrow>
     scan_quantifiers prev (b @ 93 # s) st True = scan_quantifiers (Some 93) s st False"
  by (induction b arbitrary: prev) auto

lemma quantifier_digits_plain:
  "list_all is_digit ds \<Longrightarrow> list_all (\<lambda>c. c \<notin> {92, 91, 40, 41, 42, 43, 63, 123}) ds"
  by (induction ds) (auto simp: is_digit_def)

lemma braced_ok:
  assumes "ds \<noteq> []" "list_all is_digit ds"
    and "es = [] \<or> (hd es = 44 \<and> list_all is_digit (tl es) \<and> es \<noteq> [])"
  shows "braced_quantifier ([123] @ ds @ es @ [125] @ s)"
proof -
  have no: "\<not> is_digit 44" "\<not> is_digit 125" by (simp_all add: is_digit_def)
  have tw: "takeWhile is_digit (ds @ c # u) = ds" "dropWhile is_digit (ds @ c # u) = c # u"
    if "\<not> is_digit c" "list_all is_digit ds" for c u ds
    using that by (induction ds) auto
  show ?thesis
  proof (cases es)
    case Nil
    with assms tw [OF no(2)] show ?thesis by (simp add: braced_quantifier_def)
  next
    case (Cons e es')
    with assms have "e = 44" "list_all is_digit es'" by auto
    with Cons assms tw [OF no(1)] tw [OF no(2)] show ?thesis
      by (simp add: braced_quantifier_def starts_with_def)
  qed
qed


lemma scan_plain_last:
  "list_all (\<lambda>c. c \<notin> {92, 91, 40, 41, 42, 43, 63, 123}) t \<Longrightarrow> t \<noteq> [] \<Longrightarrow>
     scan_quantifiers prev (t @ s) st False = scan_quantifiers (Some (last t)) s st False"
proof (induction t arbitrary: prev)
  case (Cons c t)
  then show ?case by (cases t) auto
qed simp

lemma scan_star:
  "c \<in> {42, 43, 63} \<Longrightarrow> prev \<noteq> Some 40 \<Longrightarrow>
     scan_quantifiers prev (c # s) st False = scan_quantifiers (Some c) s (mark_top st) False"
  by (cases st) auto

lemma scan_lazy:
  assumes "lazy \<in> {[], [63]}" and "prev \<noteq> Some 40" and "\<not> starts_quantifier s"
  shows "scan_quantifiers prev (lazy @ s) (mark_top st) False = scan_quantifiers prev' s (mark_top st) False"
proof (cases "lazy = []")
  case True
  then show ?thesis using scan_prev [OF assms(3), of prev _ _ prev'] by simp
next
  case False
  with assms(1) have "lazy = [63]" by simp
  with scan_star [of 63 prev s "mark_top st"] assms(2) scan_prev [OF assms(3), of "Some 63" _ _ prev']
  show ?thesis by (simp del: scan_quantifiers.simps)
qed

lemma scan_quantifier:
  assumes q: "quantifier_ok q" and prev: "prev \<noteq> Some 40" and s: "\<not> starts_quantifier s"
  shows "scan_quantifiers prev (q @ s) st False = scan_quantifiers prev' s (mark_top st) False
    \<and> is_regex_quantifier_at (q @ s)"
proof -
  from q obtain b lazy where b: "q = b @ lazy" "lazy \<in> {[], [63]}"
    "b \<in> {[42], [43], [63]}
      \<or> (\<exists>ds es. b = [123] @ ds @ es @ [125] \<and> ds \<noteq> [] \<and> list_all is_digit ds
           \<and> (es = [] \<or> (hd es = 44 \<and> list_all is_digit (tl es) \<and> es \<noteq> [])))"
    unfolding quantifier_ok_def by blast
  show ?thesis
  proof (cases "b \<in> {[42], [43], [63]}")
    case True
    then obtain c where c: "b = [c]" "c \<in> {42, 43, 63}" by auto
    then have "c \<noteq> 40" by auto
    with scan_star [OF c(2) prev] scan_lazy [OF b(2) _ s, of "Some c" st prev'] b(1) c show ?thesis
      by (auto simp: is_regex_quantifier_at_def)
  next
    case False
    with b(3) obtain ds es where d: "b = [123] @ ds @ es @ [125]" "ds \<noteq> []" "list_all is_digit ds"
      and es: "es = [] \<or> (hd es = 44 \<and> list_all is_digit (tl es) \<and> es \<noteq> [])" by blast
    let ?t = "ds @ es @ [125]"
    have at: "is_regex_quantifier_at (123 # ?t @ lazy @ s)"
      using braced_ok [OF d(2,3) es, of "lazy @ s"] by (simp add: is_regex_quantifier_at_def)
    have plain: "list_all (\<lambda>c. c \<notin> {92, 91, 40, 41, 42, 43, 63, 123}) ?t"
      using quantifier_digits_plain [OF d(3)] quantifier_digits_plain [of "tl es"] es by (cases es) auto
    have "scan_quantifiers prev (123 # ?t @ lazy @ s) st False =
        scan_quantifiers (Some 123) (?t @ lazy @ s) (mark_top st) False"
      using at by (cases st) auto
    also have "\<dots> = scan_quantifiers (Some 125) (lazy @ s) (mark_top st) False"
      using scan_plain_last [OF plain] by simp
    also have "\<dots> = scan_quantifiers prev' s (mark_top st) False"
      using scan_lazy [OF b(2) _ s] by simp
    finally show ?thesis using at b(1) d(1) by simp
  qed
qed

lemma print_not_quantifier: "rx_ok r \<Longrightarrow> \<not> starts_quantifier (print_rx r @ s)"
  by (induction r arbitrary: s) (auto simp: starts_quantifier_def)

lemma print_list_not_quantifier:
  "list_all rx_ok rs \<Longrightarrow> \<not> starts_quantifier s \<Longrightarrow> \<not> starts_quantifier (concat (map print_rx rs) @ s)"
  by (cases rs) (simp_all add: print_not_quantifier)

text \<open>What the scan does with one item and with a list of items.\<close>

definition scans :: "rx \<Rightarrow> bool" where
  "scans r \<longleftrightarrow> (\<forall>prev prev' s st. \<not> starts_quantifier s \<longrightarrow>
     scan_quantifiers prev (print_rx r @ s) st False
       = (nested r \<or> scan_quantifiers prev' s (mark_if (has_quantifier r) st) False))"

lemma scans_list:
  assumes "\<forall>r \<in> set rs. scans r" and "list_all rx_ok rs" and "\<not> starts_quantifier s"
  shows "scan_quantifiers prev (concat (map print_rx rs) @ s) st False
    = (list_ex nested rs \<or> scan_quantifiers prev' s (mark_if (list_ex has_quantifier rs) st) False)"
  using assms(1,2)
proof (induction rs arbitrary: prev st)
  case Nil
  then show ?case using scan_prev [OF assms(3)] by simp
next
  case (Cons r rs)
  have "\<not> starts_quantifier (concat (map print_rx rs) @ s)"
    using Cons.prems(2) assms(3) by (simp add: print_list_not_quantifier)
  with Cons.prems(1) have "scan_quantifiers prev (print_rx r @ concat (map print_rx rs) @ s) st False
      = (nested r \<or> scan_quantifiers None (concat (map print_rx rs) @ s) (mark_if (has_quantifier r) st) False)"
    by (simp add: scans_def)
  with Cons.IH [of None "mark_if (has_quantifier r) st"] Cons.prems show ?case
    by (simp add: mark_if_if disj_ac)
qed

lemma scan_prefix:
  assumes "p \<in> {[], [63, 58], [63, 61], [63, 33]}" and "\<not> starts_quantifier s"
  shows "scan_quantifiers (Some 40) (p @ s) (False # st) False = scan_quantifiers None s (False # st) False"
proof -
  have "scan_quantifiers (Some x) s (False # st) False = scan_quantifiers None s (False # st) False" for x
    using scan_prev [OF assms(2)] .
  then show ?thesis using assms(1) by auto
qed

lemma scan_group:
  assumes "\<forall>r \<in> set rs. scans r" and "list_all rx_ok rs" and p: "p \<in> {[], [63, 58], [63, 61], [63, 33]}"
  shows "scan_quantifiers prev (print_rx (Group p rs) @ s) st False
    = (list_ex nested rs \<or> (list_ex has_quantifier rs \<and> is_regex_quantifier_at s)
       \<or> scan_quantifiers (Some 41) s
           (mark_if (list_ex has_quantifier rs \<or> is_regex_quantifier_at s) st) False)"
proof -
  let ?body = "concat (map print_rx rs)" and ?h = "list_ex has_quantifier rs"
  have nq: "\<not> starts_quantifier (41 # s)" by (simp add: starts_quantifier_def)
  have "scan_quantifiers prev (print_rx (Group p rs) @ s) st False
      = scan_quantifiers (Some 40) (p @ ?body @ 41 # s) (False # st) False" by simp
  also have "\<dots> = scan_quantifiers None (?body @ 41 # s) (False # st) False"
    using scan_prefix [OF p] print_list_not_quantifier [OF assms(2) nq] by blast
  also have "\<dots> = (list_ex nested rs \<or> scan_quantifiers None (41 # s) (?h # st) False)"
    using scans_list [OF assms(1,2) nq, of None "False # st" None] by simp
  also have "scan_quantifiers None (41 # s) (?h # st) False =
      ((?h \<and> is_regex_quantifier_at s)
       \<or> scan_quantifiers (Some 41) s (mark_if (?h \<or> is_regex_quantifier_at s) st) False)"
    by (auto simp: mark_if_def)
  finally show ?thesis .
qed

lemma rx_scans_all:
  "rx_ok r \<Longrightarrow> scans r \<and> (\<forall>p rs. r = Group p rs \<longrightarrow> (\<forall>x \<in> set rs. scans x))"
proof (induction r)
  case (Lit c)
  have "scans (Lit c)" unfolding scans_def
  proof (intro allI impI)
    fix prev prev' s st
    assume "\<not> starts_quantifier s"
    with Lit show "scan_quantifiers prev (print_rx (Lit c) @ s) st False
        = (nested (Lit c) \<or> scan_quantifiers prev' s (mark_if (has_quantifier (Lit c)) st) False)"
      using scan_plain_last [of "[c]" prev s st] scan_prev [of s "Some c" st False prev']
      by (simp del: scan_quantifiers.simps)
  qed
  then show ?case by simp
next
  case (Escaped c)
  then show ?case using scan_prev by (simp add: scans_def)
next
  case (CharClass b)
  then show ?case using scan_class [of b] scan_prev by (simp add: scans_def)
next
  case (Group p rs)
  then have rs: "\<forall>r \<in> set rs. scans r" "list_all rx_ok rs" by (auto simp: list_all_iff)
  from rs scan_group [of rs p] Group.prems scan_prev not_quantifier_at have "scans (Group p rs)"
    by (simp add: scans_def del: print_rx.simps scan_quantifiers.simps) blast
  with rs show ?case by simp
next
  case (Quantified r q)
  have "scans (Quantified r q)" unfolding scans_def
  proof (intro allI impI)
    fix prev prev' s st
    assume s: "\<not> starts_quantifier s"
    have q: "quantifier_ok q" and r: "rx_ok r" "r \<noteq> Escaped 40" "\<forall>r' q'. r \<noteq> Quantified r' q'"
      using Quantified.prems by simp_all
    have at: "is_regex_quantifier_at (q @ s)"
      and go: "scan_quantifiers (Some x) (q @ s) st' False = scan_quantifiers prev' s (mark_top st') False"
      if "x \<noteq> 40" for x st'
      using scan_quantifier [OF q _ s, of "Some x" st' prev'] that by simp_all
    have at: "is_regex_quantifier_at (q @ s)" using at [of 41] by simp
    have "scan_quantifiers prev (print_rx r @ q @ s) st False
        = (nested (Quantified r q) \<or> scan_quantifiers prev' s (mark_top st) False)"
    proof (cases r)
      case (Lit c)
      with r scan_plain_last [of "[c]" prev "q @ s" st] go [of c st] show ?thesis
        by (simp del: scan_quantifiers.simps)
    next
      case (Escaped c)
      with r go [of c st] show ?thesis by simp
    next
      case (CharClass b)
      with r scan_class [of b _ "q @ s" st] go [of 93 st] show ?thesis by simp
    next
      case (Group p rs)
      have "rx_ok x \<and> scans x" if "x \<in> set rs" for x
        using that Quantified.IH [OF r(1)] r(1) Group by (auto simp: list_all_iff)
      with scan_group [of rs p prev "q @ s" st] go [of 41] at r(1) Group show ?thesis
        by (auto simp: list_all_iff simp del: print_rx.simps scan_quantifiers.simps)
    next
      case (Quantified r' q')
      with r(3) show ?thesis by simp
    qed
    then show "scan_quantifiers prev (print_rx (Quantified r q) @ s) st False
        = (nested (Quantified r q) \<or> scan_quantifiers prev' s (mark_if (has_quantifier (Quantified r q)) st) False)"
      by simp
  qed
  then show ?case by simp
qed


text \<open>
  The condition that no escaped opening parenthesis is quantified is needed: the scan takes the
  unit before a quantifier as the start of a group even when it is escaped.
\<close>

lemma escaped_parenthesis_missed:
  "\<not> has_nested_quantifiers (concat (map print_rx [Quantified (Group [] [Quantified (Escaped 40) [42]]) [43]]))
   \<and> nested (Quantified (Group [] [Quantified (Escaped 40) [42]]) [43])"
  by (simp add: has_nested_quantifiers_def is_regex_quantifier_at_def)

definition example_rx :: "rx list" where
  "example_rx = [Lit 97, Quantified (Group [63, 58] [Lit 98, Quantified (CharClass [40, 42]) [123, 50, 44, 125]]) [43, 63]]"



section \<open>What a settled wait has seen\<close>

definition post_baseline :: "prepared_condition \<Rightarrow> snapshot \<Rightarrow> bool" where
  "post_baseline c s \<longleftrightarrow> (case wc_after_seq c of None \<Rightarrow> True | Some q \<Rightarrow> sn_captured_at s > q)"

type_synonym polls = "(int \<times> (js_error + snapshot)) list"

definition same_since :: "prepared_condition \<Rightarrow> int \<Rightarrow> jstring option \<Rightarrow> polls \<Rightarrow> bool" where
  \<comment> \<open>Every snapshot after the baseline taken since then shows this text.\<close>
  "same_since c t txt qs \<longleftrightarrow> (\<forall>t' s. (t', Inr s) \<in> set qs \<and> post_baseline c s \<and> t \<le> t' \<longrightarrow>
     txt = Some (canonical_visible_text s))"

definition wait_inv :: "prepared_condition \<Rightarrow> polls \<Rightarrow> wait_state \<Rightarrow> bool" where
  "wait_inv c qs w \<longleftrightarrow>
     (if ws_seen_post_baseline w
      then (\<exists>s. (ws_last_change w, Inr s) \<in> set qs \<and> post_baseline c s)
         \<and> same_since c (ws_last_change w) (ws_last_text w) qs
      else (\<forall>t s. (t, Inr s) \<in> set qs \<longrightarrow> \<not> post_baseline c s))"

text \<open>The state a post-baseline snapshot leads to, before the match is looked at.\<close>

definition seen_state :: "int \<Rightarrow> snapshot \<Rightarrow> wait_state \<Rightarrow> wait_state" where
  "seen_state now s w =
     (let w1 = w\<lparr>ws_latest_seq := sn_captured_at s, ws_failures := 0\<rparr>;
          w2 = (if \<not> ws_seen_post_baseline w1 \<or> ws_last_text w1 \<noteq> Some (canonical_visible_text s)
                then w1\<lparr>ws_last_text := Some (canonical_visible_text s), ws_last_change := now\<rparr> else w1)
      in w2\<lparr>ws_seen_post_baseline := True\<rparr>)"

lemma poll_step_cases:
  "poll_step c now polled w =
     (case polled of
        Inl e \<Rightarrow> poll_failed e w
      | Inr s \<Rightarrow>
          if \<not> post_baseline c s then Polling (w\<lparr>ws_latest_seq := sn_captured_at s, ws_failures := 0\<rparr>)
          else (case match_snapshot c s (Some (now - ws_last_change (seen_state now s w))) of
                  Inl e \<Rightarrow> poll_failed e (seen_state now s w)
                | Inr m \<Rightarrow>
                    if wm_matched m
                    then Resolved \<lparr>wr_matched_text = wm_matched_text m, wr_snapshot = s\<rparr>
                    else Polling (seen_state now s w)))"
  unfolding poll_step_def post_baseline_def seen_state_def Let_def
  by (simp split: sum.split)

lemma wait_inv_fields:
  "ws_seen_post_baseline w' = ws_seen_post_baseline w \<Longrightarrow> ws_last_change w' = ws_last_change w \<Longrightarrow>
     ws_last_text w' = ws_last_text w \<Longrightarrow> wait_inv c qs w \<Longrightarrow> wait_inv c qs w'"
  by (simp add: wait_inv_def)

lemma wait_inv_skip:
  "wait_inv c qs w \<Longrightarrow> (case p of Inl e \<Rightarrow> True | Inr s \<Rightarrow> \<not> post_baseline c s) \<Longrightarrow>
     wait_inv c (qs @ [(now, p)]) w"
  by (cases p) (auto simp: wait_inv_def same_since_def)

lemma wait_inv_seen:
  assumes "wait_inv c qs w" and "post_baseline c s" and "\<forall>q \<in> set qs. fst q < now"
  shows "wait_inv c (qs @ [(now, Inr s)]) (seen_state now s w)
    \<and> ws_last_text (seen_state now s w) = Some (canonical_visible_text s)"
proof (cases "\<not> ws_seen_post_baseline w \<or> ws_last_text w \<noteq> Some (canonical_visible_text s)")
  case True
  then have "ws_last_change (seen_state now s w) = now"
    "ws_last_text (seen_state now s w) = Some (canonical_visible_text s)"
    "ws_seen_post_baseline (seen_state now s w)"
    by (auto simp: seen_state_def Let_def)
  moreover have "same_since c now (Some (canonical_visible_text s)) (qs @ [(now, Inr s)])"
    using assms(3) by (fastforce simp: same_since_def)
  ultimately show ?thesis using assms(2) by (auto simp: wait_inv_def)
next
  case False
  then have "ws_last_change (seen_state now s w) = ws_last_change w"
    "ws_last_text (seen_state now s w) = Some (canonical_visible_text s)"
    "ws_seen_post_baseline (seen_state now s w)" "ws_seen_post_baseline w"
    "ws_last_text w = Some (canonical_visible_text s)"
    by (auto simp: seen_state_def Let_def)
  with assms(1) show ?thesis by (auto simp: wait_inv_def same_since_def)
qed

lemma poll_failed_inv:
  "poll_failed e w = Polling w' \<Longrightarrow> wait_inv c qs w \<Longrightarrow> wait_inv c qs w'"
  by (auto simp: poll_failed_def wait_inv_def split: if_splits)

lemma poll_step_inv:
  assumes "wait_inv c qs w" and "\<forall>q \<in> set qs. fst q < now" and "poll_step c now p w = Polling w'"
  shows "wait_inv c (qs @ [(now, p)]) w'"
proof (cases p)
  case (Inl e)
  with assms poll_failed_inv wait_inv_skip [of c qs w p now] show ?thesis
    by (auto simp: poll_step_cases)
next
  case (Inr s)
  show ?thesis
  proof (cases "post_baseline c s")
    case False
    with assms Inr wait_inv_skip [of c qs w p now] show ?thesis
      by (auto simp: poll_step_cases intro: wait_inv_fields)
  next
    case True
    have "wait_inv c (qs @ [(now, p)]) (seen_state now s w)"
      using wait_inv_seen [OF assms(1) True assms(2)] Inr by simp
    with assms(3) Inr True poll_failed_inv show ?thesis
      by (auto simp: poll_step_cases split: sum.splits if_splits)
  qed
qed

definition stable_enough :: "prepared_condition \<Rightarrow> int \<Rightarrow> snapshot \<Rightarrow> polls \<Rightarrow> bool" where
  \<comment> \<open>Some poll at least the window ago, and every one since, showed what the last one shows.\<close>
  "stable_enough c now s qs \<longleftrightarrow>
     (\<forall>d. wc_stable_ms c = Some d \<longrightarrow>
        (\<exists>t s0. (t, Inr s0) \<in> set qs \<and> post_baseline c s0 \<and> t + d \<le> now
           \<and> same_since c t (Some (canonical_visible_text s)) qs))"

lemma match_snapshot_Inr:
  assumes "match_snapshot c s (Some n) = Inr m" and "wm_matched m"
  shows "text_match c s = (True, wm_matched_text m)
    \<and> (\<forall>d. wc_stable_ms c = Some d \<longrightarrow> d \<le> n)
    \<and> (\<forall>k. wc_cursor_row c = Some k \<longrightarrow> int (sn_cursor_row s) = k)
    \<and> (\<forall>k. wc_cursor_col c = Some k \<longrightarrow> int (sn_cursor_col s) = k)"
  using assms
  by (auto simp: match_snapshot_def res_simps Let_def split: prod.splits option.splits)

lemma poll_step_resolved:
  assumes "wait_inv c qs w" and "\<forall>q \<in> set qs. fst q < now" and "poll_step c now p w = Resolved r"
  shows "p = Inr (wr_snapshot r) \<and> post_baseline c (wr_snapshot r)
    \<and> text_match c (wr_snapshot r) = (True, wr_matched_text r)
    \<and> (\<forall>k. wc_cursor_row c = Some k \<longrightarrow> int (sn_cursor_row (wr_snapshot r)) = k)
    \<and> (\<forall>k. wc_cursor_col c = Some k \<longrightarrow> int (sn_cursor_col (wr_snapshot r)) = k)
    \<and> stable_enough c now (wr_snapshot r) (qs @ [(now, p)])"
proof -
  from assms(3) obtain s m where s: "p = Inr s" "post_baseline c s"
    and m: "match_snapshot c s (Some (now - ws_last_change (seen_state now s w))) = Inr m" "wm_matched m"
    and r: "r = \<lparr>wr_matched_text = wm_matched_text m, wr_snapshot = s\<rparr>"
    by (auto simp: poll_step_cases poll_failed_def split: sum.splits if_splits)
  from wait_inv_seen [OF assms(1) s(2) assms(2)]
  have inv: "wait_inv c (qs @ [(now, p)]) (seen_state now s w)"
    and shown: "ws_last_text (seen_state now s w) = Some (canonical_visible_text s)"
    by (simp_all add: s(1))
  moreover have "ws_seen_post_baseline (seen_state now s w)" by (simp add: seen_state_def Let_def)
  ultimately have "stable_enough c now s (qs @ [(now, p)])"
    using match_snapshot_Inr [OF m] unfolding stable_enough_def wait_inv_def
    by (metis (no_types, lifting) add.commute le_diff_eq)
  with match_snapshot_Inr [OF m] s r show ?thesis by simp
qed

lemma run_polls_resolved:
  "wait_inv c qs w \<Longrightarrow> run_polls c ps w = Resolved r \<Longrightarrow> sorted_wrt (<) (map fst (qs @ ps)) \<Longrightarrow>
     \<exists>us now rest. ps = us @ (now, Inr (wr_snapshot r)) # rest
       \<and> post_baseline c (wr_snapshot r)
       \<and> text_match c (wr_snapshot r) = (True, wr_matched_text r)
       \<and> (\<forall>k. wc_cursor_row c = Some k \<longrightarrow> int (sn_cursor_row (wr_snapshot r)) = k)
       \<and> (\<forall>k. wc_cursor_col c = Some k \<longrightarrow> int (sn_cursor_col (wr_snapshot r)) = k)
       \<and> stable_enough c now (wr_snapshot r) (qs @ us @ [(now, Inr (wr_snapshot r))])"
proof (induction ps arbitrary: qs w)
  case Nil
  then show ?case by simp
next
  case (Cons q ps)
  obtain now p where q: "q = (now, p)" by (cases q)
  have before: "\<forall>x \<in> set qs. fst x < now"
    using Cons.prems(3) by (auto simp: q sorted_wrt_append)
  show ?case
  proof (cases "poll_step c now p w")
    case (Polling w')
    have "run_polls c ps w' = Resolved r" using Cons.prems(2) Polling by (simp add: q)
    moreover have "wait_inv c (qs @ [(now, p)]) w'"
      by (rule poll_step_inv [OF Cons.prems(1) before Polling])
    moreover have "sorted_wrt (<) (map fst ((qs @ [(now, p)]) @ ps))" using Cons.prems(3) q by simp
    ultimately obtain us now' rest where "ps = us @ (now', Inr (wr_snapshot r)) # rest"
      and "post_baseline c (wr_snapshot r) \<and> text_match c (wr_snapshot r) = (True, wr_matched_text r)
        \<and> (\<forall>k. wc_cursor_row c = Some k \<longrightarrow> int (sn_cursor_row (wr_snapshot r)) = k)
        \<and> (\<forall>k. wc_cursor_col c = Some k \<longrightarrow> int (sn_cursor_col (wr_snapshot r)) = k)
        \<and> stable_enough c now' (wr_snapshot r) ((qs @ [(now, p)]) @ us @ [(now', Inr (wr_snapshot r))])"
      using Cons.IH by blast
    then show ?thesis
      by - (rule exI [of _ "(now, p) # us"], rule exI [of _ now'], rule exI [of _ rest], simp add: q)
  next
    case (Resolved r')
    then have "r' = r" using Cons.prems(2) by (simp add: q)
    with Resolved have "poll_step c now p w = Resolved r" by simp
    note settled = poll_step_resolved [OF Cons.prems(1) before this]
    then have "p = Inr (wr_snapshot r)" by blast
    with settled show ?thesis
      by - (rule exI [of _ "[]"], rule exI [of _ now], rule exI [of _ ps], simp add: q)
  next
    case (Rejected e)
    then show ?thesis using Cons.prems(2) by (simp add: q)
  qed
qed

lemma start_wait_inv: "wait_inv c [] (start_wait t0)"
  by (simp add: wait_inv_def start_wait_def)



definition polls_spaced :: "int \<Rightarrow> polls \<Rightarrow> bool" where
  \<comment> \<open>The interval timer fires first after one period and then a period apart.\<close>
  "polls_spaced t0 ps \<longleftrightarrow> sorted_wrt (\<lambda>a b. a + poll_interval_ms \<le> b) (t0 # map fst ps)"

lemma spaced_increasing: "polls_spaced t0 ps \<Longrightarrow> sorted_wrt (<) (map fst ps)"
  unfolding polls_spaced_def poll_interval_ms_def
  by (auto elim: sorted_wrt_mono_rel [rotated])

text \<open>A wait for a stable screen cannot settle before the minimum that a Batch Plan is checked
  against: with polls a period apart, the first one period after the start, a window of \<open>d\<close>
  milliseconds takes at least \<open>screenStableMinimumMs d\<close>. So the plans that the check rejects could
  only have timed out.
\<close>
theorem stable_wait_minimum:
  assumes "run_polls c ps (start_wait t0) = Resolved r" and "polls_spaced t0 ps"
    and "wc_stable_ms c = Some d" and "0 < d"
  shows "\<exists>now. (now, Inr (wr_snapshot r)) \<in> set ps \<and> t0 + screen_stable_minimum_ms d \<le> now"
proof -
  from run_polls_resolved [OF start_wait_inv assms(1)] spaced_increasing [OF assms(2)]
  obtain us now rest where ps: "ps = us @ (now, Inr (wr_snapshot r)) # rest"
    and st: "stable_enough c now (wr_snapshot r) (us @ [(now, Inr (wr_snapshot r))])" by auto
  then obtain t s0 where t: "(t, Inr s0) \<in> set (us @ [(now, Inr (wr_snapshot r))])" "t + d \<le> now"
    using assms(3) unfolding stable_enough_def by blast
  with assms(4) have "(t, Inr s0) \<in> set us" by auto
  with assms(2) ps have "t0 + poll_interval_ms \<le> t" "t + poll_interval_ms \<le> now"
    using image_eqI [of t fst "(t, Inr s0)" "set us"]
    by (auto simp: polls_spaced_def sorted_wrt_append)
  with t(2) ps show ?thesis
    by (intro exI [of _ now]) (auto simp: screen_stable_minimum_ms_def)
qed

definition example_screen :: "int \<Rightarrow> string \<Rightarrow> snapshot" where
  "example_screen q line = \<lparr>sn_visible_lines = [js ''$ make'', js line], sn_cursor_row = 1,
     sn_cursor_col = 2, sn_captured_at = q\<rparr>"

definition example_condition :: prepared_condition where
  "example_condition = \<lparr>wc_text = Some (js ''ok''), wc_regex = None, wc_scope = Some CursorLine,
     wc_stable_ms = Some 300, wc_cursor_row = Some 1, wc_cursor_col = None, wc_after_seq = Some 4,
     pc_compiled = None\<rparr>"

definition example_polls :: polls where
  "example_polls =
     [(200, Inr (example_screen 4 ''ok'')), (400, Inr (example_screen 5 ''..'')),
      (600, Inl (Plain [])), (800, Inr (example_screen 6 ''ok'')), (1000, Inr (example_screen 7 ''ok'')),
      (1200, Inr (example_screen 7 ''ok''))]"

lemma example_polls_run:
  "run_polls example_condition example_polls (start_wait 0) =
     Resolved \<lparr>wr_matched_text = Some (js ''ok''), wr_snapshot = example_screen 7 ''ok''\<rparr>"
  by (simp add: example_polls_def example_condition_def example_screen_def start_wait_def
      poll_step_def poll_failed_def max_consecutive_poll_failures_def match_snapshot_def
      text_match_def match_target_def canonical_visible_text_def js_eval starts_with_def Let_def)


theorem stable_wait_minimum_witness:
  "\<exists>now. (now, Inr (example_screen 7 ''ok'')) \<in> set example_polls \<and> 500 \<le> now"
proof -
  have "polls_spaced 0 example_polls" by (simp add: polls_spaced_def example_polls_def poll_interval_ms_def)
  from stable_wait_minimum [OF example_polls_run this, of 300] show ?thesis
    by (simp add: example_condition_def screen_stable_minimum_ms_def poll_interval_ms_def)
qed

section \<open>A settled screen ends a wait\<close>

definition screen_wanted :: "prepared_condition \<Rightarrow> snapshot \<Rightarrow> bool" where
  "screen_wanted c s \<longleftrightarrow> -1 \<le> sn_captured_at s \<and> post_baseline c s \<and> fst (text_match c s)
     \<and> (case wc_cursor_row c of None \<Rightarrow> True | Some n \<Rightarrow> int (sn_cursor_row s) = n)
     \<and> (case wc_cursor_col c of None \<Rightarrow> True | Some n \<Rightarrow> int (sn_cursor_col s) = n)"

definition shows_wanted :: "prepared_condition \<Rightarrow> jstring \<Rightarrow> int \<times> (js_error + snapshot) \<Rightarrow> bool" where
  "shows_wanted c shown q \<longleftrightarrow>
     (case snd q of Inl e \<Rightarrow> False
      | Inr s \<Rightarrow> screen_wanted c s \<and> canonical_visible_text s = shown)"

definition window_passed :: "prepared_condition \<Rightarrow> int \<Rightarrow> int \<Rightarrow> bool" where
  "window_passed c since now \<longleftrightarrow> (case wc_stable_ms c of None \<Rightarrow> True | Some d \<Rightarrow> since + d \<le> now)"

lemma run_polls_append:
  "run_polls c (ps @ qs) w =
     (case run_polls c ps w of Polling w' \<Rightarrow> run_polls c qs w' | out \<Rightarrow> out)"
  by (induction c ps w rule: run_polls.induct) (auto split: poll_outcome.split)

lemma run_polls_change_time:
  "run_polls c ps w = Polling w' \<Longrightarrow> ws_last_change w \<le> t0 \<Longrightarrow> sorted_wrt (<) (t0 # map fst (ps @ [(t, p)])) \<Longrightarrow>
     ws_last_change w' < t"
proof (induction ps arbitrary: w t0)
  case Nil
  then show ?case by simp
next
  case (Cons q ps)
  obtain now x where q: "q = (now, x)" by (cases q)
  from Cons.prems(1) q obtain w1 where w1: "poll_step c now x w = Polling w1" "run_polls c ps w1 = Polling w'"
    by (auto split: poll_outcome.splits)
  have "ws_last_change w1 = ws_last_change w \<or> ws_last_change w1 = now"
    using w1(1) by (auto simp: poll_step_cases poll_failed_def seen_state_def Let_def split: sum.splits if_splits)
  then have "ws_last_change w1 \<le> now" using Cons.prems(2,3) q by auto
  from Cons.IH [OF w1(2) this] Cons.prems(3) q show ?case by simp
qed

lemma wanted_poll:
  assumes "shows_wanted c shown (now, p)" and "wc_regex c = None \<or> pc_compiled c \<noteq> None"
    and "ws_last_change w \<le> now"
  shows "(\<exists>r. poll_step c now p w = Resolved r \<and> canonical_visible_text (wr_snapshot r) = shown)
    \<or> (\<exists>w'. poll_step c now p w = Polling w' \<and> ws_seen_post_baseline w' \<and> ws_last_text w' = Some shown
         \<and> ws_last_change w' \<le> now \<and> \<not> window_passed c (ws_last_change w') now
         \<and> (ws_seen_post_baseline w \<and> ws_last_text w = Some shown \<longrightarrow> ws_last_change w' = ws_last_change w))"
proof -
  obtain s where s: "p = Inr s" "screen_wanted c s" "canonical_visible_text s = shown"
    using assms(1) by (auto simp: shows_wanted_def split: sum.splits)
  let ?w = "seen_state now s w"
  have w: "ws_seen_post_baseline ?w" "ws_last_text ?w = Some shown" "ws_last_change ?w \<le> now"
    "ws_seen_post_baseline w \<and> ws_last_text w = Some shown \<longrightarrow> ws_last_change ?w = ws_last_change w"
    using assms(3) s(3) by (auto simp: seen_state_def Let_def)
  obtain mt where mt: "text_match c s = (True, mt)" using s(2) by (cases "text_match c s") (auto simp: screen_wanted_def)
  have "\<exists>m. match_snapshot c s (Some (now - ws_last_change ?w)) = Inr m
      \<and> (wm_matched m \<longleftrightarrow> window_passed c (ws_last_change ?w) now)"
    using assms(2) s(2) w(3) mt
    by (auto simp: match_snapshot_def check_def screen_wanted_def post_baseline_def window_passed_def Let_def
        split: option.split)
  then obtain m where m: "match_snapshot c s (Some (now - ws_last_change ?w)) = Inr m"
    "wm_matched m \<longleftrightarrow> window_passed c (ws_last_change ?w) now" by blast
  with s w show ?thesis
    by (cases "wm_matched m") (auto simp: poll_step_cases screen_wanted_def)
qed

lemma wanted_polls:
  "list_all (shows_wanted c shown) ps \<Longrightarrow> wc_regex c = None \<or> pc_compiled c \<noteq> None \<Longrightarrow> ps \<noteq> [] \<Longrightarrow>
     ws_seen_post_baseline w \<Longrightarrow> ws_last_text w = Some shown \<Longrightarrow>
     sorted_wrt (<) (ws_last_change w # map fst ps) \<Longrightarrow> window_passed c (ws_last_change w) (fst (last ps)) \<Longrightarrow>
     \<exists>r. run_polls c ps w = Resolved r \<and> canonical_visible_text (wr_snapshot r) = shown"
proof (induction ps arbitrary: w)
  case (Cons q ps)
  obtain now p where q: "q = (now, p)" by (cases q)
  have "shows_wanted c shown (now, p)" "ws_last_change w \<le> now" using Cons.prems(1,6) q by auto
  from wanted_poll [OF this(1) Cons.prems(2) this(2)] show ?case
  proof (elim disjE exE conjE)
    fix r assume "poll_step c now p w = Resolved r" "canonical_visible_text (wr_snapshot r) = shown"
    then show ?thesis using q by simp
  next
    fix w' assume w': "poll_step c now p w = Polling w'" "ws_seen_post_baseline w'" "ws_last_text w' = Some shown"
      "\<not> window_passed c (ws_last_change w') now"
      "ws_seen_post_baseline w \<and> ws_last_text w = Some shown \<longrightarrow> ws_last_change w' = ws_last_change w"
    then have same: "ws_last_change w' = ws_last_change w" using Cons.prems(4,5) by simp
    have "ps \<noteq> []" using w'(4) same Cons.prems(7) q by auto
    with Cons.IH [of w'] Cons.prems w' same q show ?thesis by auto
  qed
qed simp

text \<open>C16: A render wait ends. Whatever the polls before saw, once the screen shows what the wait is for
  and stays as it is, the wait settles with that screen at the latest at the first poll that is the
  window after the first of these polls.\<close>

theorem settled_screen_ends_wait:
  assumes "run_polls c before (start_wait t0) = Polling w"
    and "wc_regex c = None \<or> pc_compiled c \<noteq> None"
    and "list_all (shows_wanted c shown) calm" and "calm \<noteq> []"
    and "sorted_wrt (<) (t0 # map fst (before @ calm))"
    and "window_passed c (fst (hd calm)) (fst (last calm))"
  shows "\<exists>r. run_polls c (before @ calm) (start_wait t0) = Resolved r
    \<and> canonical_visible_text (wr_snapshot r) = shown"
proof -
  obtain now p rest where calm: "calm = (now, p) # rest" using assms(4) by (cases calm) auto
  have "sorted_wrt (<) (t0 # map fst (before @ [(now, p)]))"
    using assms(5) calm by (auto simp: sorted_wrt_append)
  from run_polls_change_time [OF assms(1) _ this] have "ws_last_change w \<le> now"
    by (simp add: start_wait_def)
  moreover have "shows_wanted c shown (now, p)" using assms(3) calm by simp
  ultimately consider
      r where "poll_step c now p w = Resolved r" "canonical_visible_text (wr_snapshot r) = shown"
    | w' where "poll_step c now p w = Polling w'" "ws_seen_post_baseline w'" "ws_last_text w' = Some shown"
        "ws_last_change w' \<le> now" "\<not> window_passed c (ws_last_change w') now"
    using wanted_poll [OF _ assms(2), of shown now p w] by blast
  then show ?thesis
  proof cases
    case 1
    with assms(1) calm show ?thesis by (simp add: run_polls_append)
  next
    case 2
    have later: "window_passed c (ws_last_change w') (fst (last calm))"
      using assms(6) 2(4) calm by (auto simp: window_passed_def split: option.splits)
    with 2(5) calm have "rest \<noteq> []" by auto
    moreover have "sorted_wrt (<) (ws_last_change w' # map fst rest)"
      using assms(5) 2(4) calm by (auto simp: sorted_wrt_append)
    ultimately have "\<exists>r. run_polls c rest w' = Resolved r \<and> canonical_visible_text (wr_snapshot r) = shown"
      using assms(2,3) 2(2,3) later calm by (intro wanted_polls) auto
    with assms(1) 2(1) calm show ?thesis by (auto simp: run_polls_append)
  qed
qed

lemma settled_screen_ends_wait_witness:
  "\<exists>r. run_polls example_condition
      ([(200, Inr (example_screen 4 ''ok'')), (400, Inr (example_screen 5 ''..'')), (600, Inl (Plain []))]
       @ [(800, Inr (example_screen 6 ''ok'')), (1000, Inr (example_screen 7 ''ok'')),
          (1200, Inr (example_screen 7 ''ok''))]) (start_wait 0) = Resolved r
     \<and> canonical_visible_text (wr_snapshot r) = canonical_visible_text (example_screen 7 ''ok'')"
proof -
  have "\<exists>w. run_polls example_condition
      [(200, Inr (example_screen 4 ''ok'')), (400, Inr (example_screen 5 ''..'')), (600, Inl (Plain []))]
      (start_wait 0) = Polling w"
    by (simp add: example_condition_def example_screen_def start_wait_def
      poll_step_def poll_failed_def max_consecutive_poll_failures_def match_snapshot_def
      text_match_def match_target_def canonical_visible_text_def js_eval starts_with_def Let_def)
  then show ?thesis
    by (elim exE, intro settled_screen_ends_wait)
      (assumption,
       simp_all add: example_condition_def example_screen_def shows_wanted_def screen_wanted_def
         post_baseline_def window_passed_def text_match_def match_target_def canonical_visible_text_def
         js_eval starts_with_def)
qed

end
