(* ===== verification/BatchPlan.thy ===== *)
theory BatchPlan
  imports EventRecords KeyEncoder RenderWait
begin

text \<open>
  Batch Plans: the parse of the JSON text of a batch into its steps. A batch is not atomic, so the
  whole plan is checked before the first input is sent. \<open>JSON.parse\<close> and the \<open>RegExp\<close> constructor
  are arguments; the strict Zod schemas of the steps are decoders over parsed JSON values.
\<close>

section \<open>Parsed JSON values\<close>

datatype parsed =
    PNull
  | PBool bool
  | PInt int
  | PFraction                              \<comment> \<open>a number that is no integer\<close>
  | PText jstring
  | PArray "parsed list"
  | PObject "(jstring \<times> parsed) list"      \<comment> \<open>keys are distinct\<close>

type_synonym 'a schema = "parsed \<Rightarrow> 'a option"

definition max_safe_integer :: int where
  "max_safe_integer = 2 ^ 53 - 1"

fun string_schema :: "jstring schema" where
  "string_schema (PText s) = Some s"
| "string_schema _ = None"

fun nonempty_string_schema :: "jstring schema" where
  \<comment> \<open>\<open>z.string().min(1)\<close>\<close>
  "nonempty_string_schema (PText s) = (if s \<noteq> [] then Some s else None)"
| "nonempty_string_schema _ = None"

fun boolean_schema :: "bool schema" where
  "boolean_schema (PBool b) = Some b"
| "boolean_schema _ = None"

fun int_schema :: "int \<Rightarrow> int \<Rightarrow> int schema" where
  \<comment> \<open>\<open>z.number().int()\<close> with its bounds; the schema accepts safe integers only.\<close>
  "int_schema lo hi (PInt n) =
     (if lo \<le> n \<and> n \<le> hi \<and> \<bar>n\<bar> \<le> max_safe_integer then Some n else None)"
| "int_schema lo hi _ = None"

definition enum_schema :: "(jstring \<times> 'a) list \<Rightarrow> 'a schema" where
  "enum_schema names v = (case v of PText s \<Rightarrow> map_of names s | _ \<Rightarrow> None)"

fun all_of :: "'a schema \<Rightarrow> parsed list \<Rightarrow> 'a list option" where
  "all_of sch [] = Some []"
| "all_of sch (v # vs) =
     Option.bind (sch v) (\<lambda>x. Option.bind (all_of sch vs) (\<lambda>xs. Some (x # xs)))"

fun array_min1_schema :: "'a schema \<Rightarrow> 'a list schema" where
  "array_min1_schema sch (PArray vs) = (if vs \<noteq> [] then all_of sch vs else None)"
| "array_min1_schema sch _ = None"

fun strict_object :: "jstring list \<Rightarrow> (jstring \<times> parsed) list schema" where
  \<comment> \<open>\<open>z.object({...}).strict()\<close>: the fields of an object that has no other key.\<close>
  "strict_object keys (PObject fs) =
     (if list_all (\<lambda>(k, v). k \<in> set keys) fs then Some fs else None)"
| "strict_object keys _ = None"

definition required :: "'a schema \<Rightarrow> jstring \<Rightarrow> (jstring \<times> parsed) list \<Rightarrow> 'a option" where
  "required sch k fs = Option.bind (map_of fs k) sch"

definition optional :: "'a schema \<Rightarrow> jstring \<Rightarrow> (jstring \<times> parsed) list \<Rightarrow> 'a option option" where
  \<comment> \<open>A field that is there must match.\<close>
  "optional sch k fs =
     (case map_of fs k of None \<Rightarrow> Some None | Some v \<Rightarrow> map_option Some (sch v))"

section \<open>Mouse input\<close>

definition mouse_action_names :: "(jstring \<times> mouse_action) list" where
  "mouse_action_names =
     [(js ''press'', MousePress), (js ''release'', MouseRelease), (js ''move'', MouseMove)]"

definition mouse_button_names :: "(jstring \<times> mouse_button) list" where
  "mouse_button_names =
     [(js ''left'', LeftButton), (js ''middle'', MiddleButton), (js ''right'', RightButton),
      (js ''wheel-up'', WheelUp), (js ''wheel-down'', WheelDown),
      (js ''wheel-left'', WheelLeft), (js ''wheel-right'', WheelRight)]"

definition is_wheel :: "mouse_button \<Rightarrow> bool" where
  "is_wheel b \<longleftrightarrow> b \<in> {WheelUp, WheelDown, WheelLeft, WheelRight}"

record input_modifiers =
  im_shift :: "bool option"
  im_alt :: "bool option"
  im_ctrl :: "bool option"

record mouse_input =
  mi_action :: mouse_action
  mi_button :: "mouse_button option"
  mi_row :: int
  mi_col :: int
  mi_cell_width :: "int option"
  mi_cell_height :: "int option"
  mi_modifiers :: input_modifiers

definition input_modifiers_schema :: "input_modifiers schema" where
  "input_modifiers_schema v =
     Option.bind (strict_object [js ''shift'', js ''alt'', js ''ctrl''] v) (\<lambda>fs.
     Option.bind (optional boolean_schema (js ''shift'') fs) (\<lambda>shift.
     Option.bind (optional boolean_schema (js ''alt'') fs) (\<lambda>alt.
     Option.bind (optional boolean_schema (js ''ctrl'') fs) (\<lambda>ctrl.
       Some \<lparr>im_shift = shift, im_alt = alt, im_ctrl = ctrl\<rparr>))))"

definition refine_mouse_input :: "mouse_input \<Rightarrow> bool" where
  \<comment> \<open>No issue is added.\<close>
  "refine_mouse_input e \<longleftrightarrow>
     \<not> (mi_action e = MouseMove \<and> mi_button e \<noteq> None)
     \<and> \<not> (mi_action e \<noteq> MouseMove \<and> mi_button e = None)
     \<and> \<not> (mi_action e = MouseRelease
          \<and> (case mi_button e of None \<Rightarrow> False | Some b \<Rightarrow> is_wheel b))"

definition mouse_fields_ok :: "mouse_input \<Rightarrow> bool" where
  "mouse_fields_ok e \<longleftrightarrow>
     refine_mouse_input e \<and> 0 \<le> mi_row e \<and> 0 \<le> mi_col e
     \<and> (case mi_cell_width e of None \<Rightarrow> True | Some w \<Rightarrow> 0 < w)
     \<and> (case mi_cell_height e of None \<Rightarrow> True | Some h \<Rightarrow> 0 < h)"

definition mouse_input_keys :: "jstring list" where
  "mouse_input_keys = [js ''action'', js ''button'', js ''row'', js ''col'', js ''cellWidth'',
     js ''cellHeight'', js ''modifiers'']"

definition mouse_input_schema :: "mouse_input schema" where
  "mouse_input_schema v =
     Option.bind (strict_object mouse_input_keys v) (\<lambda>fs.
     Option.bind (required (enum_schema mouse_action_names) (js ''action'') fs) (\<lambda>action.
     Option.bind (optional (enum_schema mouse_button_names) (js ''button'') fs) (\<lambda>button.
     Option.bind (required (int_schema 0 max_safe_integer) (js ''row'') fs) (\<lambda>row.
     Option.bind (required (int_schema 0 max_safe_integer) (js ''col'') fs) (\<lambda>col.
     Option.bind (optional (int_schema 1 4294967295) (js ''cellWidth'') fs) (\<lambda>width.
     Option.bind (optional (int_schema 1 4294967295) (js ''cellHeight'') fs) (\<lambda>height.
     Option.bind (optional input_modifiers_schema (js ''modifiers'') fs) (\<lambda>modifiers.
       let e = \<lparr>mi_action = action, mi_button = button, mi_row = row, mi_col = col,
                mi_cell_width = width, mi_cell_height = height,
                mi_modifiers = (case modifiers of
                    None \<Rightarrow> \<lparr>im_shift = None, im_alt = None, im_ctrl = None\<rparr> | Some m \<Rightarrow> m)\<rparr>
       in if refine_mouse_input e then Some e else None))))))))"

section \<open>Steps\<close>

datatype batch_step =
    TypeStep jstring
  | PasteStep jstring
  | KeysStep "jstring list"
  | MouseStep mouse_input
  | RunStep jstring bool "int option"                \<comment> \<open>command, noWait, timeoutMs\<close>
  | WaitStep prepared_condition "int option"         \<comment> \<open>condition, timeoutMs\<close>

definition verb_keys :: "jstring list" where
  "verb_keys = [js ''type'', js ''paste'', js ''sendKeys'', js ''mouse'', js ''run'', js ''wait'']"

definition present_verb_keys :: "(jstring \<times> parsed) list \<Rightarrow> jstring list" where
  "present_verb_keys step = filter (\<lambda>k. k \<in> fst ` set step) verb_keys"

definition invalid_input :: "jstring \<Rightarrow> 'a res" where
  "invalid_input msg = Inl (Cli INVALID_INPUT msg)"

definition step_name :: "nat \<Rightarrow> jstring" where
  "step_name index = js ''Batch step '' @ nat_digits index"

definition unwrap_step :: "'a option \<Rightarrow> nat \<Rightarrow> 'a res" where
  "unwrap_step decoded index =
     (case decoded of
        None \<Rightarrow> invalid_input (step_name index @ js '' is invalid'')
      | Some x \<Rightarrow> Inr x)"

definition parse_type_step :: "parsed \<Rightarrow> nat \<Rightarrow> batch_step res" where
  "parse_type_step raw index =
     map_sum id TypeStep (unwrap_step
       (Option.bind (strict_object [js ''type''] raw) (required nonempty_string_schema (js ''type'')))
       index)"

definition parse_paste_step :: "parsed \<Rightarrow> nat \<Rightarrow> batch_step res" where
  "parse_paste_step raw index =
     map_sum id PasteStep (unwrap_step
       (Option.bind (strict_object [js ''paste''] raw) (required nonempty_string_schema (js ''paste'')))
       index)"

fun assert_keys :: "jstring list \<Rightarrow> unit res" where
  "assert_keys [] = Inr ()"
| "assert_keys (k # ks) = bind_res (assert_valid_key_name k) (\<lambda>_. assert_keys ks)"

definition parse_send_keys_step :: "parsed \<Rightarrow> nat \<Rightarrow> batch_step res" where
  "parse_send_keys_step raw index =
     bind_res (unwrap_step
       (Option.bind (strict_object [js ''sendKeys''] raw)
         (required (array_min1_schema nonempty_string_schema) (js ''sendKeys''))) index)
     (\<lambda>keys. bind_res (assert_keys keys) (\<lambda>_. Inr (KeysStep keys)))"

definition parse_mouse_step :: "parsed \<Rightarrow> nat \<Rightarrow> batch_step res" where
  "parse_mouse_step raw index =
     bind_res (unwrap_step (Option.bind (strict_object [js ''mouse''] raw)
         (required Some (js ''mouse''))) index)
     (\<lambda>mouse. map_sum id MouseStep (unwrap_step (mouse_input_schema mouse) index))"

definition parse_run_step :: "parsed \<Rightarrow> nat \<Rightarrow> batch_step res" where
  "parse_run_step raw index =
     unwrap_step
       (Option.bind (strict_object [js ''run'', js ''noWait'', js ''timeout''] raw) (\<lambda>fs.
        Option.bind (required nonempty_string_schema (js ''run'') fs) (\<lambda>run.
        Option.bind (optional boolean_schema (js ''noWait'') fs) (\<lambda>noWait.
        Option.bind (optional (int_schema 1 max_safe_integer) (js ''timeout'') fs) (\<lambda>timeout.
          Some (RunStep run (case noWait of None \<Rightarrow> False | Some b \<Rightarrow> b) timeout))))))
       index"

definition wait_scope_names :: "(jstring \<times> wait_scope) list" where
  "wait_scope_names = [(js ''screen'', WholeScreen), (js ''cursor-line'', CursorLine)]"

definition wait_keys :: "jstring list" where
  "wait_keys = [js ''text'', js ''regex'', js ''scope'', js ''screenStableMs'', js ''cursorRow'',
     js ''cursorCol'', js ''timeout'']"

definition wait_fields_schema :: "(wait_condition \<times> int option) schema" where
  \<comment> \<open>The object under \<open>wait\<close>: its condition and its timeout.\<close>
  "wait_fields_schema v =
     Option.bind (strict_object wait_keys v) (\<lambda>fs.
     Option.bind (optional string_schema (js ''text'') fs) (\<lambda>t.
     Option.bind (optional string_schema (js ''regex'') fs) (\<lambda>regex.
     Option.bind (optional (enum_schema wait_scope_names) (js ''scope'') fs) (\<lambda>scope.
     Option.bind (optional (int_schema 1 max_safe_integer) (js ''screenStableMs'') fs) (\<lambda>stableMs.
     Option.bind (optional (int_schema 0 max_safe_integer) (js ''cursorRow'') fs) (\<lambda>row.
     Option.bind (optional (int_schema 0 max_safe_integer) (js ''cursorCol'') fs) (\<lambda>col.
     Option.bind (optional (int_schema 0 max_safe_integer) (js ''timeout'') fs) (\<lambda>timeout.
       Some (\<lparr>wc_text = t, wc_regex = regex, wc_scope = scope, wc_stable_ms = stableMs,
              wc_cursor_row = row, wc_cursor_col = col, wc_after_seq = None\<rparr>, timeout)))))))))"

definition wait_timeout :: "int option \<Rightarrow> int option" where
  \<comment> \<open>Absent is the finite default, an explicit 0 is no limit.\<close>
  "wait_timeout t =
     (case t of
        None \<Rightarrow> Some default_wait_timeout_ms
      | Some n \<Rightarrow> if n = 0 then None else Some n)"

definition too_short_message :: "nat \<Rightarrow> int \<Rightarrow> int option \<Rightarrow> int \<Rightarrow> jstring" where
  "too_short_message index stableMs given timeoutMs =
     step_name index @ js '' wait screenStableMs '' @ int_digits stableMs @ js '' cannot finish within ''
     @ (if given = None then js ''the default timeout of '' @ int_digits timeoutMs @ js '' ms''
        else js ''its timeout of '' @ int_digits timeoutMs @ js '' ms'')
     @ js ''. It needs more than '' @ int_digits (screen_stable_minimum_ms stableMs)
     @ js '' ms, because the stable clock starts at the first render poll (every ''
     @ int_digits poll_interval_ms @ js '' ms) and a later poll must confirm it. Set a larger ''
     @ [34] @ js ''timeout'' @ [34] @ js '', or '' @ [34] @ js ''timeout'' @ [34]
     @ js '': 0 to wait without a limit.''"

definition parse_wait_step ::
  "(jstring \<Rightarrow> jstring + regex_exec) \<Rightarrow> parsed \<Rightarrow> nat \<Rightarrow> batch_step res" where
  "parse_wait_step compile raw index =
     bind_res (unwrap_step
       (Option.bind (strict_object [js ''wait''] raw) (required wait_fields_schema (js ''wait''))) index)
     (\<lambda>(wait, timeout).
       bind_res (prepare_condition compile wait) (\<lambda>condition.
         let timeoutMs = wait_timeout timeout
         in case (wc_stable_ms wait, timeoutMs) of
              (Some stableMs, Some limit) \<Rightarrow>
                if screen_stable_minimum_ms stableMs \<ge> limit
                then invalid_input (too_short_message index stableMs timeout limit)
                else Inr (WaitStep condition timeoutMs)
            | _ \<Rightarrow> Inr (WaitStep condition timeoutMs)))"

definition none_found_message :: "nat \<Rightarrow> jstring" where
  "none_found_message index =
     step_name index @ js '' must have exactly one of type|paste|sendKeys|mouse|run|wait; found none''"

definition many_found_message :: "nat \<Rightarrow> jstring list \<Rightarrow> jstring" where
  "many_found_message index verbs =
     step_name index @ js '' must have exactly one of type|paste|sendKeys|mouse|run|wait; found ''
     @ join_with (js '', '') verbs"

definition parse_step ::
  "(jstring \<Rightarrow> jstring + regex_exec) \<Rightarrow> parsed \<Rightarrow> nat \<Rightarrow> batch_step res" where
  "parse_step compile raw index =
     (case raw of
        PObject fs \<Rightarrow>
          (case present_verb_keys fs of
             [] \<Rightarrow> invalid_input (none_found_message index)
           | [verb] \<Rightarrow>
               if verb = js ''type'' then parse_type_step raw index
               else if verb = js ''paste'' then parse_paste_step raw index
               else if verb = js ''sendKeys'' then parse_send_keys_step raw index
               else if verb = js ''mouse'' then parse_mouse_step raw index
               else if verb = js ''run'' then parse_run_step raw index
               else parse_wait_step compile raw index
           | verbs \<Rightarrow> invalid_input (many_found_message index verbs))
      | _ \<Rightarrow> invalid_input (step_name index @ js '' must be a JSON object''))"

fun parse_steps ::
  "(jstring \<Rightarrow> jstring + regex_exec) \<Rightarrow> nat \<Rightarrow> parsed list \<Rightarrow> batch_step list res" where
  "parse_steps compile index [] = Inr []"
| "parse_steps compile index (raw # raws) =
     bind_res (parse_step compile raw index) (\<lambda>s.
       bind_res (parse_steps compile (Suc index) raws) (\<lambda>ss. Inr (s # ss)))"

definition parse_batch_plan ::
  "(jstring \<Rightarrow> parsed option) \<Rightarrow> (jstring \<Rightarrow> jstring + regex_exec) \<Rightarrow> jstring \<Rightarrow> batch_step list res"
where
  "parse_batch_plan parse_json compile raw =
     (case parse_json raw of
        None \<Rightarrow> invalid_input (js ''Batch steps must be valid JSON.'')
      | Some v \<Rightarrow>
          (case v of
             PArray raws \<Rightarrow>
               if raws = [] then invalid_input (js ''Batch must contain at least one step.'')
               else parse_steps compile 0 raws
           | _ \<Rightarrow> invalid_input (js ''Batch steps must be a JSON array.'')))"

section \<open>What an accepted plan promises\<close>

definition plan_error :: "js_error \<Rightarrow> bool" where
  "plan_error e \<longleftrightarrow> (\<exists>msg. e = Cli INVALID_INPUT msg \<or> e = Cli INVALID_KEYS msg)"

definition valid_timeout :: "int option \<Rightarrow> bool" where
  "valid_timeout t \<longleftrightarrow> (case t of None \<Rightarrow> True | Some n \<Rightarrow> 0 < n \<and> n \<le> max_safe_integer)"

fun wait_can_finish :: "prepared_condition \<Rightarrow> int option \<Rightarrow> bool" where
  \<comment> \<open>A wait for stability gets more time than the polls need.\<close>
  "wait_can_finish c (Some limit) =
     (case wc_stable_ms c of None \<Rightarrow> True | Some d \<Rightarrow> screen_stable_minimum_ms d < limit)"
| "wait_can_finish c None = True"

fun executable_step :: "(jstring \<Rightarrow> jstring + regex_exec) \<Rightarrow> batch_step \<Rightarrow> bool" where
  \<comment> \<open>No step can be refused by the host for its arguments.\<close>
  "executable_step compile (TypeStep t) = (t \<noteq> [])"
| "executable_step compile (PasteStep t) = (t \<noteq> [] \<and> (\<exists>s. encode_paste t = Inr s))"
| "executable_step compile (KeysStep ks) =
     (ks \<noteq> [] \<and> list_all (\<lambda>k. k \<noteq> [] \<and> (\<exists>s. encode_key k = Inr s)) ks)"
| "executable_step compile (MouseStep e) = mouse_fields_ok e"
| "executable_step compile (RunStep c noWait t) = (c \<noteq> [] \<and> valid_timeout t)"
| "executable_step compile (WaitStep c t) =
     (prepare_condition compile (wait_condition.truncate c) = Inr c \<and> valid_timeout t
      \<and> wait_can_finish c t)"

fun verb_of :: "batch_step \<Rightarrow> jstring" where
  "verb_of (TypeStep _) = js ''type''"
| "verb_of (PasteStep _) = js ''paste''"
| "verb_of (KeysStep _) = js ''sendKeys''"
| "verb_of (MouseStep _) = js ''mouse''"
| "verb_of (RunStep _ _ _) = js ''run''"
| "verb_of (WaitStep _ _) = js ''wait''"

definition spells :: "parsed \<Rightarrow> batch_step \<Rightarrow> bool" where
  \<comment> \<open>The object names the verb of the step and no other one.\<close>
  "spells raw s \<longleftrightarrow> (\<exists>fs. raw = PObject fs \<and> present_verb_keys fs = [verb_of s])"

named_theorems plan_simps \<open>unfolding of the decoders\<close>

lemmas decoder_defs [plan_simps] = unwrap_step_def required_def optional_def invalid_input_def

lemma js_inject: "js s = js t \<longleftrightarrow> s = t"
  unfolding js_def by (rule inj_eq) (simp add: inj_on_def)

lemma bind_Some_iff [plan_simps]: "Option.bind x f = Some z \<longleftrightarrow> (\<exists>y. x = Some y \<and> f y = Some z)"
  by (cases x) auto

lemma unwrap_step_Inr: "unwrap_step d index = Inr x \<longleftrightarrow> d = Some x"
  by (cases d) (simp_all add: plan_simps)

lemma unwrap_step_Inl: "unwrap_step d index = Inl e \<Longrightarrow> plan_error e"
  by (cases d) (auto simp: plan_simps plan_error_def)

lemma map_sum_id_Inr: "map_sum id f r = Inr y \<longleftrightarrow> (\<exists>x. r = Inr x \<and> y = f x)"
  by (cases r) auto

lemma map_sum_id_Inl: "map_sum id f r = Inl e \<longleftrightarrow> r = Inl e"
  by (cases r) auto

lemma invalid_input_Inr [simp]: "invalid_input msg \<noteq> Inr x"
  by (simp add: invalid_input_def)

lemma invalid_input_Inl [simp]: "invalid_input msg = Inl e \<longleftrightarrow> e = Cli INVALID_INPUT msg"
  by (auto simp: invalid_input_def)

lemma nonempty_string_Some: "nonempty_string_schema v = Some s \<Longrightarrow> s \<noteq> []"
  by (cases v) (auto split: if_splits)

lemma int_schema_Some:
  "int_schema lo hi v = Some n \<Longrightarrow> lo \<le> n \<and> n \<le> hi \<and> n \<le> max_safe_integer"
  by (cases v) (auto split: if_splits)

lemma all_of_Some: "all_of sch vs = Some xs \<Longrightarrow> list_all (\<lambda>x. \<exists>v. sch v = Some x) xs \<and> length xs = length vs"
  by (induction vs arbitrary: xs) (auto simp: plan_simps)

lemma optional_Some:
  "optional sch k fs = Some (Some x) \<Longrightarrow> \<exists>v. sch v = Some x"
  by (auto simp: optional_def split: option.splits)

lemma assert_keys_Inr:
  "assert_keys ks = Inr () \<Longrightarrow> list_all (\<lambda>k. \<exists>s. encode_key k = Inr s) ks"
  by (induction ks) (auto simp: res_simps assert_valid_key_name_def split: sum.splits)

lemma assert_keys_Inl: "assert_keys ks = Inl e \<Longrightarrow> plan_error e"
  by (induction ks)
    (auto simp: bind_res_def assert_valid_key_name_def plan_error_def split: sum.splits)

lemma prepare_condition_truncate:
  assumes "prepare_condition compile w = Inr c"
  shows "wait_condition.truncate c = w \<and> prepare_condition compile (wait_condition.truncate c) = Inr c"
proof -
  from assms have "wait_condition.truncate c = w"
    by (cases w) (auto simp: prepare_condition_def res_simps invalid_wait_def wait_condition.defs
        split: if_splits)
  with assms show ?thesis by simp
qed

lemma check_compiled_Inl: "check_compiled compile r = Inl e \<Longrightarrow> plan_error e"
  by (auto simp: check_compiled_def invalid_wait_def plan_error_def split: option.splits if_splits sum.splits)

lemma prepare_condition_Inl: "prepare_condition compile w = Inl e \<Longrightarrow> plan_error e"
  by (auto simp: prepare_condition_def bind_res_def invalid_wait_def plan_error_def
      dest: check_compiled_Inl [unfolded plan_error_def] split: if_splits sum.splits)

section \<open>Every accepted step is executable\<close>

definition step_good :: "(jstring \<Rightarrow> jstring + regex_exec) \<Rightarrow> jstring \<Rightarrow> batch_step res \<Rightarrow> bool" where
  "step_good compile verb r \<longleftrightarrow>
     (case r of Inl e \<Rightarrow> plan_error e | Inr s \<Rightarrow> executable_step compile s \<and> verb_of s = verb)"

lemma step_good_intros:
  "plan_error e \<Longrightarrow> step_good compile verb (Inl e)"
  "executable_step compile s \<Longrightarrow> verb_of s = verb \<Longrightarrow> step_good compile verb (Inr s)"
  "step_good compile verb (invalid_input msg)"
  by (simp_all add: step_good_def invalid_input_def plan_error_def)

lemma step_good_bind:
  "(\<And>e. r = Inl e \<Longrightarrow> plan_error e) \<Longrightarrow> (\<And>x. r = Inr x \<Longrightarrow> step_good compile verb (f x)) \<Longrightarrow>
     step_good compile verb (bind_res r f)"
  by (cases r) (simp_all add: step_good_def)

lemma step_good_map:
  "(\<And>e. r = Inl e \<Longrightarrow> plan_error e) \<Longrightarrow>
   (\<And>x. r = Inr x \<Longrightarrow> executable_step compile (f x) \<and> verb_of (f x) = verb) \<Longrightarrow>
     step_good compile verb (map_sum id f r)"
  by (cases r) (simp_all add: step_good_def)

lemma parse_type_good: "step_good compile (js ''type'') (parse_type_step raw i)"
  unfolding parse_type_step_def
  by (rule step_good_map) (auto simp: unwrap_step_Inr bind_Some_iff required_def
      dest: nonempty_string_Some unwrap_step_Inl)

lemma parse_paste_good: "step_good compile (js ''paste'') (parse_paste_step raw i)"
  unfolding parse_paste_step_def
  by (rule step_good_map) (auto simp: unwrap_step_Inr bind_Some_iff required_def encode_paste_def
      dest: nonempty_string_Some unwrap_step_Inl)

lemma array_min1_Some:
  assumes "array_min1_schema nonempty_string_schema v = Some ks"
  shows "ks \<noteq> [] \<and> [] \<notin> set ks"
proof -
  from assms obtain vs where "vs \<noteq> []" "all_of nonempty_string_schema vs = Some ks"
    by (cases v) (auto split: if_splits)
  with all_of_Some [of nonempty_string_schema vs ks] show ?thesis
    by (auto simp: list_all_iff dest: nonempty_string_Some)
qed

lemma parse_send_keys_good: "step_good compile (js ''sendKeys'') (parse_send_keys_step raw i)"
  unfolding parse_send_keys_step_def
proof (rule step_good_bind, erule unwrap_step_Inl, rule step_good_bind, erule assert_keys_Inl)
  fix ks u
  assume "unwrap_step (Option.bind (strict_object [js ''sendKeys''] raw)
      (required (array_min1_schema nonempty_string_schema) (js ''sendKeys''))) i = Inr ks"
    and u: "assert_keys ks = Inr u"
  then have "ks \<noteq> [] \<and> [] \<notin> set ks"
    by (auto simp: unwrap_step_Inr bind_Some_iff required_def dest: array_min1_Some)
  moreover from u assert_keys_Inr [of ks] have "list_all (\<lambda>k. \<exists>s. encode_key k = Inr s) ks" by simp
  ultimately show "step_good compile (js ''sendKeys'') (Inr (KeysStep ks))"
    by (intro step_good_intros) (auto simp: list_all_iff)
qed

lemma optional_positive:
  "optional (int_schema 1 hi) k fs = Some t \<Longrightarrow> (case t of None \<Rightarrow> True | Some n \<Rightarrow> 0 < n)"
  by (cases t) (auto dest!: optional_Some int_schema_Some)

lemma mouse_input_schema_Some: "mouse_input_schema v = Some e \<Longrightarrow> mouse_fields_ok e"
  unfolding mouse_input_schema_def mouse_fields_ok_def
  by (auto simp: bind_Some_iff Let_def required_def dest!: int_schema_Some
      dest: optional_positive split: if_splits)

lemma parse_mouse_good: "step_good compile (js ''mouse'') (parse_mouse_step raw i)"
  unfolding parse_mouse_step_def
  by (rule step_good_bind, erule unwrap_step_Inl, rule step_good_map)
    (auto simp: unwrap_step_Inr dest: mouse_input_schema_Some unwrap_step_Inl)

lemma valid_timeout_optional:
  "optional (int_schema 1 max_safe_integer) k fs = Some t \<Longrightarrow> valid_timeout t"
  by (cases t) (auto simp: valid_timeout_def dest!: optional_Some int_schema_Some)

lemma parse_run_good: "step_good compile (js ''run'') (parse_run_step raw i)"
proof (cases "parse_run_step raw i")
  case (Inl e)
  then show ?thesis by (auto simp: parse_run_step_def intro: step_good_intros dest: unwrap_step_Inl)
next
  case (Inr s)
  then have "executable_step compile s \<and> verb_of s = js ''run''"
    by (auto simp: parse_run_step_def unwrap_step_Inr bind_Some_iff required_def
        dest!: nonempty_string_Some dest: valid_timeout_optional)
  with Inr show ?thesis by (simp add: step_good_intros)
qed

lemma wait_timeout_valid:
  "optional (int_schema 0 max_safe_integer) k fs = Some t \<Longrightarrow> valid_timeout (wait_timeout t)"
  by (cases t)
    (auto simp: valid_timeout_def wait_timeout_def default_wait_timeout_ms_def max_safe_integer_def
      dest!: optional_Some int_schema_Some)

lemma wait_fields_Some:
  "wait_fields_schema v = Some (w, t) \<Longrightarrow> valid_timeout (wait_timeout t)"
  unfolding wait_fields_schema_def by (auto simp: bind_Some_iff dest: wait_timeout_valid)

lemma wait_step_good:
  assumes "prepare_condition compile w = Inr c" and "valid_timeout (wait_timeout t)"
  shows "step_good compile (js ''wait'')
    (let timeoutMs = wait_timeout t
     in case (wc_stable_ms w, timeoutMs) of
          (Some stableMs, Some limit) \<Rightarrow>
            if screen_stable_minimum_ms stableMs \<ge> limit
            then invalid_input (too_short_message i stableMs t limit)
            else Inr (WaitStep c timeoutMs)
        | _ \<Rightarrow> Inr (WaitStep c timeoutMs))"
proof -
  from prepare_condition_truncate [OF assms(1)]
  have w: "wait_condition.truncate c = w"
    and p: "prepare_condition compile (wait_condition.truncate c) = Inr c" by auto
  have "wc_stable_ms w = wc_stable_ms c" unfolding w [symmetric] by (simp add: wait_condition.defs)
  with p assms(2) show ?thesis
    by (cases "wc_stable_ms c"; cases "wait_timeout t") (auto intro: step_good_intros)
qed

lemma parse_wait_good: "step_good compile (js ''wait'') (parse_wait_step compile raw i)"
  unfolding parse_wait_step_def
proof (rule step_good_bind, erule unwrap_step_Inl)
  fix x
  assume x: "unwrap_step (Option.bind (strict_object [js ''wait''] raw)
      (required wait_fields_schema (js ''wait''))) i = Inr x"
  obtain w t where wt: "x = (w, t)" by fastforce
  with x have t: "valid_timeout (wait_timeout t)"
    by (auto simp: unwrap_step_Inr bind_Some_iff required_def dest: wait_fields_Some)
  show "step_good compile (js ''wait'') (case x of (wait, timeout) \<Rightarrow>
      bind_res (prepare_condition compile wait) (\<lambda>condition.
         let timeoutMs = wait_timeout timeout
         in case (wc_stable_ms wait, timeoutMs) of
              (Some stableMs, Some limit) \<Rightarrow>
                if screen_stable_minimum_ms stableMs \<ge> limit
                then invalid_input (too_short_message i stableMs timeout limit)
                else Inr (WaitStep condition timeoutMs)
            | _ \<Rightarrow> Inr (WaitStep condition timeoutMs)))"
    unfolding wt prod.case
    by (rule step_good_bind, erule prepare_condition_Inl, rule wait_step_good [OF _ t, unfolded prod.case])
qed

lemma present_verb_keys_single:
  assumes "present_verb_keys fs = [v]"
  shows "v \<in> set verb_keys"
proof -
  from assms have "v \<in> set (present_verb_keys fs)" by simp
  then show ?thesis by (simp add: present_verb_keys_def)
qed

lemma parse_step_good:
  "case parse_step compile raw i of
     Inl e \<Rightarrow> plan_error e | Inr s \<Rightarrow> executable_step compile s \<and> spells raw s"
proof (cases "\<exists>fs v. raw = PObject fs \<and> present_verb_keys fs = [v]")
  case False
  then have "\<exists>msg. parse_step compile raw i = invalid_input msg"
    by (auto simp: parse_step_def split: parsed.splits list.splits)
  then show ?thesis by (auto simp: invalid_input_def plan_error_def)
next
  case True
  then obtain fs v where raw: "raw = PObject fs" and v: "present_verb_keys fs = [v]" by blast
  have "v = js ''type'' \<or> v = js ''paste'' \<or> v = js ''sendKeys'' \<or> v = js ''mouse'' \<or> v = js ''run''
      \<or> v = js ''wait''"
    using present_verb_keys_single [OF v] by (simp add: verb_keys_def)
  then have "step_good compile v (parse_step compile raw i)"
    by (elim disjE; simp add: parse_step_def raw v js_inject parse_type_good parse_paste_good
        parse_send_keys_good parse_mouse_good parse_run_good parse_wait_good)
  with raw v show ?thesis by (auto simp: step_good_def spells_def split: sum.splits)
qed

lemma parse_steps_good:
  "case parse_steps compile i raws of
     Inl e \<Rightarrow> plan_error e
   | Inr steps \<Rightarrow> list_all (executable_step compile) steps \<and> list_all2 spells raws steps"
proof (induction raws arbitrary: i)
  case (Cons raw raws)
  from Cons.IH [of "Suc i"] parse_step_good [where compile = compile and raw = raw and i = i] show ?case
    by (auto simp: bind_res_def split: sum.splits)
qed simp


end
