(* ===== verification/MouseInput.thy ===== *)
theory MouseInput
  imports BatchPlan
begin

text \<open>
  Mouse input: the buttons that are held down across requests, and one request of the host's
  \<open>mouse\<close> method from its checks to the bytes that it writes and the event that it logs. The native
  encoder of the libghostty-vt renderer and the probe for it are arguments.
\<close>

section \<open>Held buttons\<close>

text \<open>A \<open>Set\<close> of buttons is a list in insertion order.\<close>

definition holdable_buttons :: "mouse_button list" where
  "holdable_buttons = [LeftButton, MiddleButton, RightButton]"

definition is_held_mouse_button :: "mouse_button \<Rightarrow> bool" where
  "is_held_mouse_button b \<longleftrightarrow> b \<in> set holdable_buttons"

record held_transition =
  ht_next :: "mouse_button list"
  ht_any_pressed :: bool
  ht_drag :: "mouse_button option"

definition held_transition_to :: "mouse_button list \<Rightarrow> held_transition" where
  "held_transition_to held =
     \<lparr>ht_next = held, ht_any_pressed = (held \<noteq> []),
      ht_drag = (if held = [] then None else Some (List.last held))\<rparr>"

definition prepare_held_mouse_buttons ::
  "mouse_button list \<Rightarrow> mouse_action \<Rightarrow> mouse_button option \<Rightarrow> held_transition res" where
  "prepare_held_mouse_buttons held action button =
     (case action of
        MousePress \<Rightarrow>
          (case button of
             None \<Rightarrow> Inl (Assertion (js ''press requires a mouse button''))
           | Some b \<Rightarrow>
               Inr (held_transition_to
                 (if is_held_mouse_button b then filter (\<lambda>x. x \<noteq> b) held @ [b] else held)))
      | MouseRelease \<Rightarrow>
          (case button of
             None \<Rightarrow> Inl (Assertion (js ''release requires a mouse button''))
           | Some b \<Rightarrow>
               check (is_held_mouse_button b) ''wheel buttons do not have release transitions''
                 (Inr (held_transition_to (filter (\<lambda>x. x \<noteq> b) held))))
      | MouseMove \<Rightarrow>
          check (button = None) ''move must not specify a button'' (Inr (held_transition_to held)))"

section \<open>Base64\<close>

definition base64_unit :: "nat \<Rightarrow> code_unit" where
  "base64_unit n =
     (if n < 26 then 65 + n else if n < 52 then 97 + (n - 26) else if n < 62 then 48 + (n - 52)
      else if n = 62 then 43 else 47)"

fun base64 :: "nat list \<Rightarrow> jstring" where
  \<comment> \<open>\<open>Buffer.toString('base64')\<close> of a list of bytes.\<close>
  "base64 [] = []"
| "base64 [a] = [base64_unit (a div 4), base64_unit (a mod 4 * 16), 61, 61]"
| "base64 [a, b] =
     [base64_unit (a div 4), base64_unit (a mod 4 * 16 + b div 16), base64_unit (b mod 16 * 4), 61]"
| "base64 (a # b # c # s) =
     base64_unit (a div 4) # base64_unit (a mod 4 * 16 + b div 16)
     # base64_unit (b mod 16 * 4 + c div 64) # base64_unit (c mod 64) # base64 s"

lemma base64_unit_ok: "n < 64 \<Longrightarrow> is_base64_unit (base64_unit n)"
  by (auto simp: base64_unit_def is_base64_unit_def is_digit_def)

lemma sextet_bound: "m < 4 \<Longrightarrow> b < 256 \<Longrightarrow> m * 16 + b div 16 < (64::nat)"
proof -
  assume "m < 4" and "b < 256"
  then have "m \<le> 3" and "b div 16 < 16" by (simp_all add: div_less_iff_less_mult)
  then show ?thesis by linarith
qed

lemma sextet_bound2: "m < 16 \<Longrightarrow> c < 256 \<Longrightarrow> m * 4 + c div 64 < (64::nat)"
proof -
  assume "m < 16" and "c < 256"
  then have "m \<le> 15" and "c div 64 < 4" by (simp_all add: div_less_iff_less_mult)
  then show ?thesis by linarith
qed

lemma base64_ok: "list_all (\<lambda>b. b < 256) bs \<Longrightarrow> is_base64 (base64 bs)"
proof (induction bs rule: base64.induct)
  case (2 a)
  then have "a div 4 < 64" "a mod 4 * 16 < 64" by auto
  then show ?case by (simp add: base64_unit_ok)
next
  case (3 a b)
  then have "a div 4 < 64" "b div 16 < 16" "b mod 16 * 4 < 64" by auto
  moreover have "a mod 4 * 16 + b div 16 < 64" using 3 by (intro sextet_bound) simp_all
  ultimately show ?case by (simp add: base64_unit_ok)
next
  case (4 a b c s)
  then have "a div 4 < 64" "a mod 4 * 16 + b div 16 < 64" "b mod 16 * 4 + c div 64 < 64" "c mod 64 < 64"
    using sextet_bound [of "a mod 4" b] sextet_bound2 [of "b mod 16" c] by auto
  with 4 show ?case by (simp add: base64_unit_ok)
qed simp

section \<open>The request\<close>

record encoding_input =
  en_action :: mouse_action
  en_button :: "mouse_button option"
  en_row :: int
  en_col :: int
  en_cell_width :: "int option"
  en_cell_height :: "int option"
  en_modifiers :: mouse_modifiers
  en_any_pressed :: bool

datatype encode_failure = RangeOrTypeError jstring | OtherFailure js_error

type_synonym mouse_encoder = "encoding_input \<Rightarrow> encode_failure + nat list"

definition encode_mouse :: "mouse_encoder \<Rightarrow> encoding_input \<Rightarrow> nat list res" where
  \<comment> \<open>Values that the encoder cannot encode are the caller's fault.\<close>
  "encode_mouse encoder i =
     (case encoder i of
        Inl (RangeOrTypeError msg) \<Rightarrow> Inl (Cli INVALID_INPUT msg)
      | Inl (OtherFailure e) \<Rightarrow> Inl e
      | Inr bytes \<Rightarrow> Inr bytes)"

definition normalized_modifiers :: "input_modifiers \<Rightarrow> mouse_modifiers" where
  "normalized_modifiers m =
     \<lparr>mm_shift = (im_shift m = Some True), mm_alt = (im_alt m = Some True),
      mm_ctrl = (im_ctrl m = Some True)\<rparr>"

definition encoding_of :: "mouse_input \<Rightarrow> held_transition \<Rightarrow> encoding_input" where
  "encoding_of e t =
     \<lparr>en_action = mi_action e,
      en_button =
        (case mi_button e of
           Some b \<Rightarrow> Some b
         | None \<Rightarrow> if mi_action e = MouseMove then ht_drag t else None),
      en_row = mi_row e, en_col = mi_col e, en_cell_width = mi_cell_width e,
      en_cell_height = mi_cell_height e, en_modifiers = normalized_modifiers (mi_modifiers e),
      en_any_pressed = ht_any_pressed t\<rparr>"

definition mouse_event :: "mouse_input \<Rightarrow> jstring \<Rightarrow> nat list \<Rightarrow> mouse_payload" where
  "mouse_event e backend bytes =
     \<lparr>mp_action = mi_action e, mp_button = mi_button e, mp_row = mi_row e, mp_col = mi_col e,
      mp_cell_width = mi_cell_width e, mp_cell_height = mi_cell_height e,
      mp_modifiers = normalized_modifiers (mi_modifiers e), mp_renderer = backend,
      mp_data = base64 bytes\<rparr>"

definition check_mouse_renderer :: "jstring \<Rightarrow> bool \<Rightarrow> unit res" where
  \<comment> \<open>The renderer that was asked for and what the probe found.\<close>
  "check_mouse_renderer rendererName available =
     (if rendererName \<noteq> js ''libghostty-vt''
      then Inl (Cli CAPABILITY_UNAVAILABLE
        (js ''Renderer '' @ rendererName @ js '' cannot encode mouse input. Use libghostty-vt.''))
      else if \<not> available
      then Inl (Cli CAPABILITY_UNAVAILABLE
        (js ''Mouse input needs the optional dependency @coder/libghostty-vt-node with mouse encoding, which this install does not provide. Reinstall agent-tty on a supported platform, then run `agent-tty doctor` to check the mouse-input capability.''))
      else Inr ())"

text \<open>
  The step of the request between the last replay and the reserved sequence number, which has no
  \<open>await\<close>: it works on the held buttons, and \<open>commandable\<close>, \<open>write\<close> and \<open>log_event\<close> are those
  of the host.
\<close>

definition mouse_step ::
  "mouse_encoder \<Rightarrow> jstring \<Rightarrow> mouse_input \<Rightarrow> ('s \<Rightarrow> unit res) \<Rightarrow> (nat list \<Rightarrow> 's \<Rightarrow> 's)
     \<Rightarrow> (payload \<Rightarrow> 's \<Rightarrow> nat res \<times> 's) \<Rightarrow> mouse_button list \<Rightarrow> 's
     \<Rightarrow> (nat list \<times> nat) res \<times> mouse_button list \<times> 's" where
  "mouse_step encoder backend e commandable write log_event held s =
     (case prepare_held_mouse_buttons held (mi_action e) (mi_button e) of
        Inl err \<Rightarrow> (Inl err, held, s)
      | Inr t \<Rightarrow>
        (case encode_mouse encoder (encoding_of e t) of
           Inl err \<Rightarrow> (Inl err, held, s)
         | Inr bytes \<Rightarrow>
           (case commandable s of
              Inl err \<Rightarrow> (Inl err, held, s)
            | Inr _ \<Rightarrow>
                let s1 = (if bytes \<noteq> [] then write bytes s else s)
                in (case log_event (InputMouse (mouse_event e backend bytes)) s1 of
                      (Inl err, s2) \<Rightarrow> (Inl err, ht_next t, s2)
                    | (Inr seq, s2) \<Rightarrow> (Inr (bytes, seq), ht_next t, s2)))))"

section \<open>The held buttons are the ones that are down\<close>

type_synonym button_event = "mouse_action \<times> mouse_button option"

fun held_after :: "mouse_button list \<Rightarrow> button_event list \<Rightarrow> mouse_button list res" where
  \<comment> \<open>The host adopts the staged set of every request that is encoded.\<close>
  "held_after held [] = Inr held"
| "held_after held ((a, b) # evs) =
     bind_res (prepare_held_mouse_buttons held a b) (\<lambda>t. held_after (ht_next t) evs)"

fun transition_ok :: "button_event \<Rightarrow> bool" where
  "transition_ok (MousePress, b) = (b \<noteq> None)"
| "transition_ok (MouseRelease, b) = (case b of None \<Rightarrow> False | Some x \<Rightarrow> is_held_mouse_button x)"
| "transition_ok (MouseMove, b) = (b = None)"

fun presses :: "button_event list \<Rightarrow> mouse_button list" where
  \<comment> \<open>The buttons that can be held, in the order in which they were pressed.\<close>
  "presses [] = []"
| "presses ((MousePress, Some b) # evs) =
     (if is_held_mouse_button b then b # presses evs else presses evs)"
| "presses (_ # evs) = presses evs"

definition is_down :: "button_event list \<Rightarrow> mouse_button \<Rightarrow> bool" where
  \<comment> \<open>The last press or release of the button is a press.\<close>
  "is_down evs b \<longleftrightarrow>
     (case find (\<lambda>(a, x). x = Some b \<and> a \<noteq> MouseMove) (rev evs) of
        None \<Rightarrow> False | Some (a, x) \<Rightarrow> a = MousePress)"

lemma presses_append [simp]: "presses (evs @ evs') = presses evs @ presses evs'"
  by (induction evs rule: presses.induct) auto

lemma is_down_snoc:
  "is_down (evs @ [(a, x)]) b =
     (if x = Some b \<and> a \<noteq> MouseMove then a = MousePress else is_down evs b)"
  by (simp add: is_down_def)

lemma is_down_pressed: "is_down evs b \<Longrightarrow> is_held_mouse_button b \<Longrightarrow> b \<in> set (presses evs)"
proof (induction evs rule: rev_induct)
  case Nil
  then show ?case by (simp add: is_down_def)
next
  case (snoc e evs)
  obtain a x where e: "e = (a, x)" by fastforce
  with snoc show ?case by (cases "x = Some b \<and> a \<noteq> MouseMove") (auto simp: is_down_snoc)
qed

lemma ht_next_transition [simp]: "ht_next (held_transition_to h) = h"
  by (simp add: held_transition_to_def)

lemma remdups_snoc: "remdups (xs @ [x]) = filter (\<lambda>y. y \<noteq> x) (remdups xs) @ [x]"
  by (induction xs) auto

lemma held_after_snoc:
  "held_after held (evs @ [(a, b)]) =
     bind_res (held_after held evs) (\<lambda>h. bind_res (prepare_held_mouse_buttons h a b) (\<lambda>t. Inr (ht_next t)))"
  by (induction held evs rule: held_after.induct) (auto simp: bind_res_assoc intro!: bind_res_cong)

lemma prepare_held_ok:
  "case prepare_held_mouse_buttons held a b of
     Inl e \<Rightarrow> \<not> transition_ok (a, b) | Inr t \<Rightarrow> transition_ok (a, b)"
  by (cases a; cases b) (auto simp: prepare_held_mouse_buttons_def check_def)

text \<open>C24: After any sequence of mouse requests, the held buttons are exactly the left, middle and
  right buttons whose last press or release is a press, each once, in the order of their last
  press; so the button that a drag reports is the one pressed last. Wheel buttons are never held.
  A request breaks an assertion exactly when it is no press or release of a button and no move
  without one.\<close>

theorem held_buttons_exact:
  "case held_after [] evs of
     Inr held \<Rightarrow> list_all transition_ok evs \<and> held = filter (is_down evs) (remdups (presses evs))
   | Inl e \<Rightarrow> \<not> list_all transition_ok evs"
proof (induction evs rule: rev_induct)
  case Nil
  then show ?case by simp
next
  case (snoc e evs)
  obtain a x where e: "e = (a, x)" by fastforce
  show ?case
  proof (cases "held_after [] evs")
    case (Inl err)
    with snoc e show ?thesis by (simp add: held_after_snoc bind_res_def)
  next
    case (Inr held)
    with snoc have held: "held = filter (is_down evs) (remdups (presses evs))" and ok: "list_all transition_ok evs"
      by simp_all
    have wheel: "b \<in> set (presses evs) \<Longrightarrow> is_held_mouse_button b" for b
      by (induction evs rule: presses.induct) (auto split: if_splits)
    show ?thesis
    proof (cases "transition_ok (a, x)")
      case False
      with prepare_held_ok [where held = held and a = a and b = x] obtain err where "prepare_held_mouse_buttons held a x = Inl err"
        by (auto split: sum.splits)
      with Inr e False show ?thesis by (simp add: held_after_snoc bind_res_def)
    next
      case True
      with prepare_held_ok [where held = held and a = a and b = x] obtain t where t: "prepare_held_mouse_buttons held a x = Inr t"
        by (auto split: sum.splits)
      have "ht_next t = filter (is_down (evs @ [e])) (remdups (presses (evs @ [e])))"
        using t True wheel unfolding e held
        by (cases a; cases x)
          (auto simp: prepare_held_mouse_buttons_def is_down_snoc remdups_snoc check_def intro!: filter_cong split: if_splits)
      with Inr e t True ok show ?thesis by (simp add: held_after_snoc bind_res_def)
    qed
  qed
qed

lemma refined_transition_ok: "refine_mouse_input e \<Longrightarrow> transition_ok (mi_action e, mi_button e)"
  by (cases "mi_action e"; cases "mi_button e"; cases "the (mi_button e)")
    (auto simp: refine_mouse_input_def is_wheel_def is_held_mouse_button_def holdable_buttons_def)

end
