(* ===== verification/HostRequests.thy ===== *)
theory HostRequests
  imports RunCoordinator SessionStore MouseInput
begin

text \<open>
  The request handlers of the host that send input to the program, with what they share: the
  session state, the event log, the run-completion coordinator, the PTY and the held mouse buttons.
  Every handler checks that the session is commandable, writes to the PTY and reserves the number
  of its record in one synchronous step, so the order of the records is the order of the writes.
  The lines of the log reach the disk later; a write that fails there is not modelled here.
\<close>

section \<open>State\<close>

record host_core =
  hc_session :: session
  hc_log :: clocked_log
  hc_co :: coordinator
  hc_pty :: "jstring list"             \<comment> \<open>what was written to the PTY, one entry per write\<close>
  hc_held :: "mouse_button list"

definition history :: "host_core \<Rightarrow> event_record list" where
  "history h = get_events (fst (hc_log h))"

definition append_event :: "payload \<Rightarrow> host_core \<Rightarrow> nat res \<times> host_core" where
  "append_event p h =
     (case clocked_append (hc_log h) p of
        Inl e \<Rightarrow> (Inl e, h)
      | Inr (q, lc) \<Rightarrow> (Inr q, h\<lparr>hc_log := lc\<rparr>))"

definition write_pty :: "jstring \<Rightarrow> host_core \<Rightarrow> host_core" where
  "write_pty d h = h\<lparr>hc_pty := hc_pty h @ [d]\<rparr>"

definition if_commandable ::
  "host_core \<Rightarrow> 'a res \<times> host_core \<Rightarrow> 'a res \<times> host_core" where
  "if_commandable h answer =
     (case assert_session_commandable (hc_session h) of
        Inl e \<Rightarrow> (Inl e, h)
      | Inr _ \<Rightarrow> answer)"

section \<open>Handlers\<close>

definition handle_type :: "jstring \<Rightarrow> host_core \<Rightarrow> nat res \<times> host_core" where
  "handle_type t h = if_commandable h (append_event (InputText t) (write_pty t h))"

definition handle_mark :: "jstring \<Rightarrow> host_core \<Rightarrow> nat res \<times> host_core" where
  "handle_mark label h = if_commandable h (append_event (Marker label) h)"

definition handle_paste :: "jstring \<Rightarrow> host_core \<Rightarrow> nat res \<times> host_core" where
  "handle_paste t h = if_commandable h
     (if t = [] then (Inl (Assertion (js ''paste text must be a non-empty string'')), h)
      else case encode_paste t of
             Inl e \<Rightarrow> (Inl e, h)
           | Inr encoded \<Rightarrow> append_event (InputPaste encoded) (write_pty encoded h))"

definition encode_keys :: "jstring list \<Rightarrow> jstring res" where
  "encode_keys keys =
     (case map_res encode_key keys of
        Inl e \<Rightarrow> Inl (Cli INVALID_KEYS (error_message e))
      | Inr encs \<Rightarrow> Inr (concat encs))"

definition handle_send_keys :: "jstring list \<Rightarrow> host_core \<Rightarrow> (jstring list \<times> nat \<times> nat) res \<times> host_core" where
  \<comment> \<open>The keys it accepted, the bytes it wrote and the number of the record.\<close>
  "handle_send_keys keys h = if_commandable h
     (if keys = [] then (Inl (Assertion (js ''keys must be a non-empty array'')), h)
      else case encode_keys keys of
             Inl e \<Rightarrow> (Inl e, h)
           | Inr encoded \<Rightarrow>
               (case append_event (InputKeys keys) (write_pty encoded h) of
                  (Inl e, h1) \<Rightarrow> (Inl e, h1)
                | (Inr seq, h1) \<Rightarrow> (Inr (keys, utf8_length encoded, seq), h1)))"

definition check_run :: "jstring \<Rightarrow> int option \<Rightarrow> unit res" where
  "check_run command timeoutMs =
     check (command \<noteq> []) ''run command must be a non-empty string''
     (check (case timeoutMs of None \<Rightarrow> True | Some n \<Rightarrow> 0 < n)
        ''run timeoutMs must be a positive integer'' (Inr ()))"

definition handle_run_no_wait :: "jstring \<Rightarrow> int option \<Rightarrow> host_core \<Rightarrow> nat res \<times> host_core" where
  "handle_run_no_wait command timeoutMs h = if_commandable h
     (case check_run command timeoutMs of
        Inl e \<Rightarrow> (Inl e, h)
      | Inr _ \<Rightarrow> append_event (InputRun command None True) (write_pty (command @ [10]) h))"

definition start_waited_run ::
  "jstring \<Rightarrow> int option \<Rightarrow> jstring \<Rightarrow> jstring list \<Rightarrow> host_core \<Rightarrow> (nat \<times> jstring) option res \<times> host_core"
where
  \<comment> \<open>A waited run until its wait: the number and the marker. The hex digits are those of the UUID,
     the tokens the random ones that the sentinel is chosen from; \<open>None\<close> when they run out.\<close>
  "start_waited_run command timeoutMs hex tokens h = if_commandable h
     (case check_run command timeoutMs of
        Inl e \<Rightarrow> (Inl e, h)
      | Inr _ \<Rightarrow>
        (case prepare_waited_run hex of
           Inl e \<Rightarrow> (Inl e, h)
         | Inr marker \<Rightarrow>
           (case append_event (InputRun command (Some marker) False) h of
              (Inl e, h1) \<Rightarrow> (Inl e, h1)
            | (Inr seq, h1) \<Rightarrow>
              (case register_waited_run (hc_co h1) seq marker tokens of
                 Inl e \<Rightarrow> (Inl e, h1)
               | Inr None \<Rightarrow> (Inr None, h1)
               | Inr (Some ((postamble, sentinel), co)) \<Rightarrow>
                   (Inr (Some (seq, marker)),
                    write_pty (command @ [10] @ postamble) (h1\<lparr>hc_co := co\<rparr>))))))"

definition settled_run :: "jstring \<Rightarrow> host_core \<Rightarrow> run_wait_result option" where
  \<comment> \<open>How the wait of the run with this marker has ended.\<close>
  "settled_run marker h = map_of (rev (co_settled (hc_co h))) marker"

fun replay_until :: "int \<Rightarrow> int list \<Rightarrow> int option" where
  \<comment> \<open>The loop that replays until the backend holds the whole log: the sequence number that it has
     applied and the targets that the loads of the replay input give, one per turn; \<open>None\<close> while
     it still runs.\<close>
  "replay_until appliedSeq [] = None"
| "replay_until appliedSeq (latest # loads) =
     (if latest > appliedSeq then replay_until latest loads else Some appliedSeq)"

definition handle_mouse ::
  "jstring \<Rightarrow> bool \<Rightarrow> (event_record list \<Rightarrow> mouse_encoder) \<Rightarrow> jstring \<Rightarrow> int \<Rightarrow> int list
     \<Rightarrow> mouse_input \<Rightarrow> host_core \<Rightarrow> (bool \<times> nat \<times> nat) option res \<times> host_core" where
  \<comment> \<open>The renderer that was asked for, what the probe found, the encoder of a backend that has
     replayed these records, its name, what it had replayed at first and the loads of the loop.
     Gives whether the program asked for reports, the bytes written and the number; \<open>None\<close> while
     the loop still runs.\<close>
  "handle_mouse rendererName available encoder backend appliedSeq loads e h =
     (case assert_session_commandable (hc_session h) of
        Inl err \<Rightarrow> (Inl err, h)
      | Inr _ \<Rightarrow>
        (case check_mouse_renderer rendererName available of
           Inl err \<Rightarrow> (Inl err, h)
         | Inr _ \<Rightarrow>
           (case replay_until appliedSeq loads of
              None \<Rightarrow> (Inr None, h)
            | Some applied \<Rightarrow>
              (case mouse_step (encoder (take (nat (applied + 1)) (history h))) backend e
                      (\<lambda>h. assert_session_commandable (hc_session h)) write_pty append_event (hc_held h) h of
                 (Inl err, held, h1) \<Rightarrow> (Inl err, h1\<lparr>hc_held := held\<rparr>)
               | (Inr (bytes, seq), held, h1) \<Rightarrow>
                   (Inr (Some (bytes \<noteq> [], length bytes, seq)), h1\<lparr>hc_held := held\<rparr>)))))"

definition allowed_signals :: "jstring list" where
  "allowed_signals = map js [''SIGTERM'', ''SIGINT'', ''SIGKILL'', ''SIGHUP'', ''SIGUSR1'', ''SIGUSR2'']"

definition handle_signal :: "jstring \<Rightarrow> bool \<Rightarrow> js_error option \<Rightarrow> host_core \<Rightarrow> unit res \<times> host_core" where
  \<comment> \<open>Whether the child answers signal 0, and what the kill throws.\<close>
  "handle_signal sig alive killed h = if_commandable h
     (if sig = [] then (Inl (Assertion (js ''signal must be a non-empty string'')), h)
      else if sig \<notin> set allowed_signals
      then (Inl (Cli INVALID_SIGNAL (js ''Invalid signal: '' @ sig @ js ''. Allowed: ''
              @ join_with (js '', '') allowed_signals)), h)
      else (case s_child_pid (hc_session h) of
              None \<Rightarrow> (Inl (Assertion (js ''child PID must be set for signal delivery'')), h)
            | Some pid \<Rightarrow>
                if \<not> 0 < pid
                then (Inl (Assertion (js ''child PID must be set for signal delivery'')), h)
                else if \<not> alive
                then (Inl (Cli SESSION_NOT_RUNNING (js ''Child process is no longer running.'')), h)
                else (case killed of
                        Some e \<Rightarrow> (Inl e, h)
                      | None \<Rightarrow>
                          (case append_event (SignalSent sig) h of
                             (Inl e, h1) \<Rightarrow> (Inl e, h1)
                           | (Inr _, h1) \<Rightarrow> (Inr (), h1)))))"

section \<open>What happens in a host\<close>

datatype host_happening =
    TypeRequest jstring
  | MarkRequest jstring
  | PasteRequest jstring
  | KeysRequest "jstring list"
  | RunRequest jstring "int option"
  | WaitedRunRequest jstring "int option" jstring "jstring list"
  | MouseRequest jstring bool "event_record list \<Rightarrow> mouse_encoder" jstring int "int list" mouse_input
  | SignalRequest jstring bool "js_error option"
  | ResizeRequest jstring int int           \<comment> \<open>the clock, the columns and the rows\<close>
  | WaitGaveUp jstring                      \<comment> \<open>the wait of a run timed out or was aborted\<close>
  | PtyOutput jstring
  | PtyFlush
  | ProgramExit jstring int "jstring option"
  | DestroyRequest jstring

definition handle_resize_request :: "jstring \<Rightarrow> int \<Rightarrow> int \<Rightarrow> host_core \<Rightarrow> (int \<times> int) res \<times> host_core" where
  "handle_resize_request now cols rows h = if_commandable h
     (case check (cols > 0) ''cols must be a positive integer''
             (check (rows > 0) ''rows must be a positive integer''
               (set_dimensions now cols rows (hc_session h))) of
        Inl e \<Rightarrow> (Inl e, h)
      | Inr r \<Rightarrow>
          (case append_event (Resize cols rows) (h\<lparr>hc_session := r\<rparr>) of
             (Inl e, h1) \<Rightarrow> (Inl e, h1)
           | (Inr _, h1) \<Rightarrow> (Inr (cols, rows), h1)))"

definition pty_output :: "jstring \<Rightarrow> host_core \<Rightarrow> host_core" where
  "pty_output d h =
     (case ingest_pty_data clocked_append (hc_co h) (hc_log h) d of
        (co, lc, _) \<Rightarrow> h\<lparr>hc_co := co, hc_log := lc\<rparr>)"

definition pty_flush :: "host_core \<Rightarrow> host_core" where
  "pty_flush h =
     (case flush_pty_data_on_exit clocked_append (hc_co h) (hc_log h) of
        (co, lc, _) \<Rightarrow> h\<lparr>hc_co := co, hc_log := lc\<rparr>)"

definition program_exit :: "jstring \<Rightarrow> int \<Rightarrow> jstring option \<Rightarrow> host_core \<Rightarrow> host_core" where
  \<comment> \<open>\<open>handlePtyExit\<close>: the state, the exit record, then the waits of the runs.\<close>
  "program_exit now code sig h =
     (let h1 = (if s_status (hc_session h) = Destroying then h
                else case record_exit now (Some code) sig (hc_session h) of
                       Inl e \<Rightarrow> h
                     | Inr r \<Rightarrow> h\<lparr>hc_session := r\<rparr>);
          h2 = snd (append_event (Exit (Some code) sig) h1)
      in h2\<lparr>hc_co := reset_for_exit (hc_co h2)\<rparr>)"

definition destroy_request :: "jstring \<Rightarrow> host_core \<Rightarrow> host_core" where
  "destroy_request now h =
     (case assert_session_commandable (hc_session h) of
        Inl _ \<Rightarrow> h
      | Inr _ \<Rightarrow>
          (case request_destroy now (hc_session h) of
             Inl _ \<Rightarrow> h
           | Inr r \<Rightarrow> h\<lparr>hc_session := r\<rparr>))"

fun happen :: "host_happening \<Rightarrow> host_core \<Rightarrow> host_core" where
  "happen (TypeRequest t) h = snd (handle_type t h)"
| "happen (MarkRequest l) h = snd (handle_mark l h)"
| "happen (PasteRequest t) h = snd (handle_paste t h)"
| "happen (KeysRequest ks) h = snd (handle_send_keys ks h)"
| "happen (RunRequest c t) h = snd (handle_run_no_wait c t h)"
| "happen (WaitedRunRequest c t hex tokens) h = snd (start_waited_run c t hex tokens h)"
| "happen (MouseRequest name ok enc backend applied loads e) h =
     snd (handle_mouse name ok enc backend applied loads e h)"
| "happen (SignalRequest sig alive killed) h = snd (handle_signal sig alive killed h)"
| "happen (ResizeRequest now cols rows) h = snd (handle_resize_request now cols rows h)"
| "happen (WaitGaveUp marker) h = h\<lparr>hc_co := forget_waiter (hc_co h) marker\<rparr>"
| "happen (PtyOutput d) h = pty_output d h"
| "happen PtyFlush h = pty_flush h"
| "happen (ProgramExit now code sig) h = program_exit now code sig h"
| "happen (DestroyRequest now) h = destroy_request now h"

fun params_ok :: "host_happening \<Rightarrow> host_core \<Rightarrow> bool" where
  \<comment> \<open>What the parameter schemas promise, and what the host gets from outside: a fresh UUID, enough
     random tokens for a sentinel that no run uses, encoders that give bytes, and loads of the replay
     input that end at the whole log.\<close>
  "params_ok (KeysRequest ks) h = ([] \<notin> set ks)"
| "params_ok (WaitedRunRequest c t hex tokens) h =
     (list_all is_lower_hex hex \<and> length hex = 32
      \<and> \<not> omap_has (js ''__AT_MARKER_'' @ hex @ js ''__'') (co_active (hc_co h))
      \<and> list_all is_signal_token tokens
      \<and> list_ex (\<lambda>t. \<not> has_active_sentinel (hc_co h) (short_sentinel_prefix @ t @ run_complete_suffix)) tokens)"
| "params_ok (MouseRequest name ok enc backend applied loads e) h =
     (mouse_fields_ok e \<and> backend \<noteq> []
      \<and> (\<forall>rs i bytes. enc rs i = Inr bytes \<longrightarrow> list_all (\<lambda>b. b < 256) bytes)
      \<and> loads \<noteq> [] \<and> replay_until applied (butlast loads) = None
      \<and> List.last loads = int (length (history h)) - 1)"
| "params_ok _ h = True"

inductive host_reach :: "host_core \<Rightarrow> host_core \<Rightarrow> bool" for h0 where
  host_start: "host_reach h0 h0"
| host_next: "host_reach h0 h \<Longrightarrow> params_ok ev h \<Longrightarrow> host_reach h0 (happen ev h)"

definition fresh_host :: "session \<Rightarrow> nat \<Rightarrow> nat \<Rightarrow> (nat \<Rightarrow> jstring) \<Rightarrow> host_core" where
  "fresh_host s maxBytes maxEntries clock =
     \<lparr>hc_session = s, hc_log = (fresh_log maxBytes maxEntries, clock), hc_co = new_coordinator,
      hc_pty = [], hc_held = []\<rparr>"

section \<open>The log answers every handler\<close>

definition log_ready :: "clocked_log \<Rightarrow> bool" where
  "log_ready lc \<longleftrightarrow> log_sane (fst lc) \<and> tail_ok (fst lc) \<and> \<not> el_poisoned (fst lc)
     \<and> \<not> el_closed (fst lc) \<and> (\<forall>i. clock_text (snd lc i))"

definition core_ok :: "host_core \<Rightarrow> bool" where
  "core_ok h \<longleftrightarrow> log_ready (hc_log h) \<and> co_ok (hc_co h) []"

lemma log_ready_append:
  assumes "log_ready lc" and "clocked_append lc p = Inr (q, lc')"
  shows "log_ready lc'"
proof -
  have app: "append_log (fst lc) p (snd lc 0) (snd lc 1) = Inr (q, fst lc')"
    by (rule clocked_append_Inr [OF assms(2)])
  then have step: "log_step (fst lc) (fst lc')"
    using assms(1) by (intro step_append) (auto simp: log_ready_def)
  have "queue_append (fst lc) p (snd lc 0) (snd lc 1) = Inr (q, fst lc')"
    using app by (simp add: append_log_Inr)
  from queue_append_Inr [OF this] assms(1)
  have l': "fst lc' = effect_state (append_effect (fst lc) p (snd lc 0) (snd lc 1)) (fst lc) p (snd lc 0) (snd lc 1)"
    by (simp add: log_ready_def log_sane_def)
  have "el_poisoned (fst lc') = el_poisoned (fst lc)" "el_closed (fst lc') = el_closed (fst lc)"
    unfolding l' by (cases "append_effect (fst lc) p (snd lc 0) (snd lc 1)"; simp)+
  moreover have "snd lc' i = snd lc (i + 2)" for i
    using assms(2) by (auto simp: clocked_append_def res_simps)
  ultimately show ?thesis
    using assms(1) step log_step_sane [OF step] log_step_tail [OF step]
    by (simp add: log_ready_def)
qed

lemma clocked_append_answers:
  assumes "log_ready lc" and "valid_payload p" and "\<not> is_stop_marker (make_record 0 [] p)"
  obtains q lc' where "clocked_append lc p = Inr (q, lc')" and "log_ready lc'"
proof -
  from assms have "\<exists>q l'. append_log (fst lc) p (snd lc 0) (snd lc 1) = Inr (q, l')"
    using append_log_answers [of "fst lc" p "snd lc 1" "snd lc 0"] by (auto simp: log_ready_def)
  then obtain q lc' where "clocked_append lc p = Inr (q, lc')"
    by (auto simp: clocked_append_def res_simps)
  with that log_ready_append [OF assms(1) this] show thesis by blast
qed

section \<open>The log accounts for the writes to the PTY\<close>

fun is_input :: "payload \<Rightarrow> bool" where
  "is_input (InputText t) = True"
| "is_input (InputPaste d) = True"
| "is_input (InputKeys ks) = True"
| "is_input (InputRun c m w) = True"
| "is_input (InputMouse p) = True"
| "is_input _ = False"

fun input_writes :: "payload \<Rightarrow> jstring list \<Rightarrow> bool" where
  \<comment> \<open>What the host writes to the PTY for one record of the log.\<close>
  "input_writes (InputText t) ws = (ws = [t])"
| "input_writes (InputPaste d) ws = (ws = [d])"
| "input_writes (InputKeys ks) ws = (\<exists>encs. map_res encode_key ks = Inr encs \<and> ws = [concat encs])"
| "input_writes (InputRun c None noWait) ws = (noWait \<and> ws = [c @ [10]])"
| "input_writes (InputRun c (Some m) noWait) ws =
     (\<not> noWait \<and> (\<exists>sentinel postamble. build_postamble m sentinel = Inr postamble \<and> ws = [c @ [10] @ postamble]))"
| "input_writes (InputMouse p) ws =
     (\<exists>bytes. mp_data p = base64 bytes \<and> ws = (if bytes = [] then [] else [bytes]))"
| "input_writes _ ws = (ws = [])"

lemma input_writes_other: "\<not> is_input p \<Longrightarrow> input_writes p ws \<longleftrightarrow> ws = []"
  by (cases p) auto

definition log_extends :: "clocked_log \<Rightarrow> clocked_log \<Rightarrow> bool" where
  \<comment> \<open>Nothing but records that are no input, unless the log has stopped.\<close>
  "log_extends lc lc' \<longleftrightarrow> el_stopped (fst lc')
     \<or> \<not> el_stopped (fst lc) \<and> (\<exists>rs. el_buffer (fst lc') = el_buffer (fst lc) @ rs
          \<and> list_all (\<lambda>r. \<not> is_input (ev_payload r)) rs)"

lemma log_extends_refl [simp]: "log_extends lc lc"
  by (auto simp: log_extends_def)

lemma log_extends_trans: "log_extends lc lc1 \<Longrightarrow> log_extends lc1 lc2 \<Longrightarrow> log_extends lc lc2"
  by (force simp: log_extends_def)

lemma clocked_append_stores:
  assumes "log_ready lc" and "clocked_append lc p = Inr (q, lc')" and "\<not> el_stopped (fst lc')"
  shows "\<not> el_stopped (fst lc) \<and> (\<exists>r. el_buffer (fst lc') = el_buffer (fst lc) @ [r] \<and> ev_payload r = p)"
proof -
  have sane: "log_sane (fst lc)" using assms(1) by (simp add: log_ready_def)
  have app: "append_log (fst lc) p (snd lc 0) (snd lc 1) = Inr (q, fst lc')"
    by (rule clocked_append_Inr [OF assms(2)])
  from append_log_running [OF sane app assms(3)]
  have "\<exists>r. el_buffer (fst lc') = el_buffer (fst lc) @ [r] \<and> ev_payload r = p" by (auto simp: make_record_def)
  moreover have "queue_append (fst lc) p (snd lc 0) (snd lc 1) = Inr (q, fst lc')"
    using app by (simp add: append_log_Inr)
  from queue_append_Inr [OF this] sane
  have l': "fst lc' = effect_state (append_effect (fst lc) p (snd lc 0) (snd lc 1)) (fst lc) p (snd lc 0) (snd lc 1)"
    by (simp add: log_sane_def)
  have "el_stopped (fst lc) \<longrightarrow> el_stopped (fst lc')"
    unfolding l' by (cases "append_effect (fst lc) p (snd lc 0) (snd lc 1)") simp_all
  ultimately show ?thesis using assms(3) by blast
qed

lemma clocked_append_extends:
  assumes "log_ready lc" and "clocked_append lc p = Inr (q, lc')" and "\<not> is_input p"
  shows "log_extends lc lc'"
  using clocked_append_stores [OF assms(1,2)] assms(3) by (fastforce simp: log_extends_def)

definition quietly :: "clocked_log \<Rightarrow> clocked_log \<Rightarrow> bool" where
  "quietly lc lc' \<longleftrightarrow>
     (log_ready lc \<longrightarrow> log_ready lc' \<and> log_extends lc lc' \<and> prefix (el_buffer (fst lc)) (el_buffer (fst lc')))"

lemma quietly_refl [simp]: "quietly lc lc"
  by (simp add: quietly_def)

lemma quietly_trans: "quietly lc lc1 \<Longrightarrow> quietly lc1 lc2 \<Longrightarrow> quietly lc lc2"
  unfolding quietly_def using log_extends_trans prefix_order.order_trans by blast

lemma clocked_append_grows:
  assumes "log_ready lc" and "clocked_append lc p = Inr (q, lc')"
  shows "prefix (el_buffer (fst lc)) (el_buffer (fst lc')) \<and> Suc q = length (el_buffer (fst lc'))"
  using assms clog.app_grows clog.app_seq by (metis log_ready_def)

lemma quietly_append:
  "clocked_append lc p = Inr (q, lc') \<Longrightarrow> \<not> is_input p \<Longrightarrow> quietly lc lc'"
  unfolding quietly_def by (meson log_ready_append clocked_append_extends clocked_append_grows)

lemma quietly_output: "append_output clocked_append lc d = Inr lc' \<Longrightarrow> quietly lc lc'"
  by (auto simp: append_output_def res_simps intro: quietly_append split: if_splits)

lemma quietly_complete:
  assumes "complete_run clocked_append co lc m run = (co', lc', err)"
  shows "quietly lc lc'"
proof (cases "deregister_echo (co_sanitizer co) m")
  case (Inl e)
  with assms show ?thesis by (simp add: complete_run_def)
next
  case (Inr r)
  obtain trailing sz where r: "r = (trailing, sz)" by (meson surj_pair)
  show ?thesis
  proof (cases "append_output clocked_append lc trailing")
    case (Inl e)
    with assms Inr r show ?thesis by (simp add: complete_run_def)
  next
    case out: (Inr lc1)
    show ?thesis
    proof (cases "clocked_append lc1 (RunComplete m (Some (int (ar_input_run_seq run))))")
      case (Inl e)
      with assms Inr r out show ?thesis by (auto simp: complete_run_def intro: quietly_output)
    next
      case app: (Inr x)
      obtain q lc2 where "x = (q, lc2)" by (meson surj_pair)
      with assms Inr r out app have "lc' = lc2"
        and "clocked_append lc1 (RunComplete m (Some (int (ar_input_run_seq run)))) = Inr (q, lc2)"
        by (simp_all add: complete_run_def)
      then show ?thesis
        using quietly_trans [OF quietly_output [OF out] quietly_append [of lc1 _ q lc2]] by simp
    qed
  qed
qed

lemma quietly_piece: "append_piece clocked_append co lc p = (co', lc', err) \<Longrightarrow> quietly lc lc'"
  by (cases p)
    (auto simp: Let_def split: option.splits sum.splits prod.splits if_splits
      intro: quietly_output quietly_complete)

lemma quietly_pieces: "append_pieces clocked_append co lc ps = (co', lc', err) \<Longrightarrow> quietly lc lc'"
proof (induction ps arbitrary: co lc)
  case (Cons p ps)
  obtain co1 lc1 err1 where one: "append_piece clocked_append co lc p = (co1, lc1, err1)"
    by (metis prod_cases3)
  with Cons.prems Cons.IH [of co1 lc1] quietly_piece [OF one] show ?case
    by (cases err1) (auto intro: quietly_trans)
qed simp

lemma pty_output_ok:
  assumes "core_ok h"
  shows "core_ok (pty_output d h) \<and> log_extends (hc_log h) (hc_log (pty_output d h))
    \<and> hc_pty (pty_output d h) = hc_pty h"
proof -
  obtain co lc err where r: "ingest_pty_data clocked_append (hc_co h) (hc_log h) d = (co, lc, err)"
    by (metis prod_cases3)
  have "quietly (hc_log h) lc"
    using r by (auto simp: ingest_pty_data_def split: sum.splits prod.splits dest: quietly_pieces)
  with r assms ingest_pty_data_ok [OF _ r] show ?thesis
    by (simp add: pty_output_def core_ok_def quietly_def)
qed

lemma pty_flush_ok:
  assumes "core_ok h"
  shows "core_ok (pty_flush h) \<and> log_extends (hc_log h) (hc_log (pty_flush h))
    \<and> hc_pty (pty_flush h) = hc_pty h"
proof -
  obtain co lc err where r: "flush_pty_data_on_exit clocked_append (hc_co h) (hc_log h) = (co, lc, err)"
    by (metis prod_cases3)
  have ok: "co_ok (hc_co h) []" using assms by (simp add: core_ok_def)
  then obtain ps sn where sn: "scanner_flush (co_scanner (hc_co h)) = Inr (ps, sn)" "scanner_ok sn"
    using scanner_flush_ok by (metis co_ok_def)
  obtain co1 lc1 err1 where p: "append_pieces clocked_append ((hc_co h)\<lparr>co_scanner := sn\<rparr>) (hc_log h) ps = (co1, lc1, err1)"
    by (metis prod_cases3)
  have co1: "co_ok co1 []"
    using append_pieces_ok [OF co_ok_scanned [OF ok scanner_flush_markers [OF sn(1)] sn(2)] p] by simp
  have q1: "quietly (hc_log h) lc1" by (rule quietly_pieces [OF p])
  have "co_ok co [] \<and> quietly (hc_log h) lc"
  proof (cases err1)
    case (Some e)
    with r sn p co1 q1 show ?thesis by (simp add: flush_pty_data_on_exit_def)
  next
    case None
    with r sn p have f: "append_flushed_echo_output clocked_append co1 lc1 = (co, lc, err)"
      by (simp add: flush_pty_data_on_exit_def)
    then have "quietly lc1 lc"
      by (auto simp: append_flushed_echo_output_def split: sum.splits prod.splits intro: quietly_output)
    with flushed_echo_ok [OF co1 f] q1 show ?thesis by (auto intro: quietly_trans)
  qed
  with r assms show ?thesis by (simp add: pty_flush_def core_ok_def quietly_def)
qed

definition recorded :: "host_core \<Rightarrow> bool" where
  "recorded h \<longleftrightarrow> core_ok h
     \<and> (el_stopped (fst (hc_log h))
        \<or> (\<exists>wss. list_all2 input_writes (map ev_payload (history h)) wss \<and> concat wss = hc_pty h))"

lemma core_ok_fields [simp]:
  "core_ok (h\<lparr>hc_session := s\<rparr>) = core_ok h" "core_ok (h\<lparr>hc_pty := ds\<rparr>) = core_ok h"
  "core_ok (h\<lparr>hc_held := bs\<rparr>) = core_ok h"
  by (simp_all add: core_ok_def)

lemma history_fields [simp]:
  "history (h\<lparr>hc_session := s\<rparr>) = history h" "history (h\<lparr>hc_pty := ds\<rparr>) = history h"
  "history (h\<lparr>hc_held := bs\<rparr>) = history h" "history (h\<lparr>hc_co := co\<rparr>) = history h"
  by (simp_all add: history_def)

lemma recorded_fields [simp]:
  "recorded (h\<lparr>hc_session := s\<rparr>) = recorded h" "recorded (h\<lparr>hc_held := bs\<rparr>) = recorded h"
  by (simp_all add: recorded_def)

lemma recorded_cong:
  "recorded h \<Longrightarrow> hc_log h' = hc_log h \<Longrightarrow> hc_co h' = hc_co h \<Longrightarrow> hc_pty h' = hc_pty h \<Longrightarrow> recorded h'"
  by (simp add: recorded_def core_ok_def history_def)

lemma recorded_co: "recorded h \<Longrightarrow> co_ok co [] \<Longrightarrow> recorded (h\<lparr>hc_co := co\<rparr>)"
  by (simp add: recorded_def core_ok_def)

lemma recorded_quiet:
  assumes "recorded h" and "core_ok h'" and "log_extends (hc_log h) (hc_log h')" and "hc_pty h' = hc_pty h"
  shows "recorded h'"
proof (cases "el_stopped (fst (hc_log h'))")
  case True
  with assms(2) show ?thesis by (simp add: recorded_def)
next
  case False
  with assms(3) obtain rs where ns: "\<not> el_stopped (fst (hc_log h))" and h': "history h' = history h @ rs"
    and rs: "list_all (\<lambda>r. \<not> is_input (ev_payload r)) rs"
    by (auto simp: log_extends_def history_def get_events_def)
  from assms(1) ns obtain wss where wss: "list_all2 input_writes (map ev_payload (history h)) wss"
    "concat wss = hc_pty h" by (auto simp: recorded_def)
  have "list_all2 input_writes (map ev_payload rs) (map (\<lambda>_. []) rs)"
    using rs by (induction rs) (simp_all add: input_writes_other)
  with wss have "list_all2 input_writes (map ev_payload (history h')) (wss @ map (\<lambda>_. []) rs)"
    unfolding h' by (auto intro: list_all2_appendI)
  moreover have "concat (wss @ map (\<lambda>_. []) rs) = hc_pty h'" using wss(2) assms(4) by simp
  ultimately show ?thesis using assms(2) by (auto simp: recorded_def)
qed

lemma append_event_ready:
  assumes "core_ok h"
  shows "core_ok (snd (append_event p h))"
proof (cases "clocked_append (hc_log h) p")
  case (Inr x)
  obtain q lc where "x = (q, lc)" by (meson surj_pair)
  with Inr assms log_ready_append [of "hc_log h" p q lc] show ?thesis
    by (simp add: append_event_def core_ok_def)
qed (use assms in \<open>simp add: append_event_def\<close>)

lemma append_event_pty [simp]:
  "hc_pty (snd (append_event p h)) = hc_pty h" "hc_co (snd (append_event p h)) = hc_co h"
  "hc_session (snd (append_event p h)) = hc_session h"
  by (auto simp: append_event_def split: sum.splits prod.splits)

lemma recorded_other:
  assumes "recorded h" and "\<not> is_input p"
  shows "recorded (snd (append_event p h))"
proof (rule recorded_quiet [OF assms(1)])
  show "core_ok (snd (append_event p h))"
    using assms(1) by (simp add: append_event_ready recorded_def)
  show "log_extends (hc_log h) (hc_log (snd (append_event p h)))"
    using assms by (auto simp: append_event_def recorded_def core_ok_def dest: clocked_append_extends
        split: sum.splits prod.splits)
qed simp

lemma recorded_input:
  assumes "recorded h" and "valid_payload p" and "is_input p" and "input_writes p ws"
  obtains q h' where "append_event p (h\<lparr>hc_pty := hc_pty h @ ws\<rparr>) = (Inr q, h')"
    and "recorded h'" and "hc_co h' = hc_co h"
proof -
  let ?h = "h\<lparr>hc_pty := hc_pty h @ ws\<rparr>"
  have ready: "log_ready (hc_log h)" using assms(1) by (simp add: recorded_def core_ok_def)
  have "\<not> is_stop_marker (make_record 0 [] p)"
    using assms(3) by (cases p) (auto simp: is_stop_marker_def make_record_def)
  from clocked_append_answers [OF ready assms(2) this] obtain q lc where
    app: "clocked_append (hc_log h) p = Inr (q, lc)" and lc: "log_ready lc" by blast
  let ?h' = "?h\<lparr>hc_log := lc\<rparr>"
  have eq: "append_event p ?h = (Inr q, ?h')" using app by (simp add: append_event_def)
  have core: "core_ok ?h'" using lc assms(1) by (simp add: core_ok_def recorded_def)
  have "recorded ?h'"
  proof (cases "el_stopped (fst lc)")
    case True
    with core show ?thesis by (simp add: recorded_def)
  next
    case False
    from clocked_append_stores [OF ready app False] obtain r where ns: "\<not> el_stopped (fst (hc_log h))"
      and r: "history ?h' = history h @ [r]" "ev_payload r = p"
      by (auto simp: history_def get_events_def)
    from assms(1) ns obtain wss where wss: "list_all2 input_writes (map ev_payload (history h)) wss"
      "concat wss = hc_pty h" by (auto simp: recorded_def)
    have "list_all2 input_writes (map ev_payload (history ?h')) (wss @ [ws])"
      unfolding r(1) using wss(1) r(2) assms(4) by (auto intro: list_all2_appendI)
    moreover have "concat (wss @ [ws]) = hc_pty ?h'" using wss(2) by simp
    ultimately show ?thesis using core by (auto simp: recorded_def)
  qed
  from that [OF eq this] show thesis by simp
qed

lemma recorded_write:
  assumes "recorded h" and "valid_payload p" and "is_input p" and "input_writes p [d]"
  obtains q h' where "append_event p (write_pty d h) = (Inr q, h')" and "recorded h'" and "hc_co h' = hc_co h"
  using recorded_input [OF assms] by (auto simp: write_pty_def)

lemma recorded_if_commandable:
  "recorded h \<Longrightarrow> recorded (snd answer) \<Longrightarrow> recorded (snd (if_commandable h answer))"
  by (auto simp: if_commandable_def split: sum.splits)

lemma handle_type_recorded:
  assumes "recorded h"
  shows "recorded (snd (handle_type t h))"
  unfolding handle_type_def
  by (rule recorded_if_commandable [OF assms], rule recorded_write [OF assms, of "InputText t" t]) simp_all

lemma handle_paste_recorded:
  assumes "recorded h"
  shows "recorded (snd (handle_paste t h))"
proof -
  have "recorded (snd (append_event (InputPaste d) (write_pty d h)))" for d
    by (rule recorded_write [OF assms, of "InputPaste d" d]) simp_all
  with assms show ?thesis
    unfolding handle_paste_def by (intro recorded_if_commandable) (auto split: sum.splits)
qed

lemma snd_answer:
  "snd (case x of (Inl e, h1) \<Rightarrow> (Inl e, h1) | (Inr q, h1) \<Rightarrow> (Inr (f q), h1)) = snd x"
  by (cases x; cases "fst x") auto

lemma handle_send_keys_recorded:
  assumes "recorded h" and "[] \<notin> set ks"
  shows "recorded (snd (handle_send_keys ks h))"
proof -
  have "recorded (snd (append_event (InputKeys ks) (write_pty d h)))"
    if "ks \<noteq> []" "encode_keys ks = Inr d" for d
    using that assms(2)
    by - (rule recorded_write [OF assms(1), of "InputKeys ks" d],
      auto simp: encode_keys_def split: sum.splits)
  then have "recorded (snd (case encode_keys ks of Inl e \<Rightarrow> (Inl e, h)
      | Inr d \<Rightarrow> (case append_event (InputKeys ks) (write_pty d h) of
          (Inl e, h1) \<Rightarrow> (Inl e, h1) | (Inr q, h1) \<Rightarrow> (Inr (ks, utf8_length d, q), h1))))" if "ks \<noteq> []"
    using that assms(1) by (cases "encode_keys ks") (simp_all add: snd_answer)
  with assms(1) show ?thesis
    unfolding handle_send_keys_def by (intro recorded_if_commandable) simp_all
qed

lemma handle_run_recorded:
  assumes "recorded h"
  shows "recorded (snd (handle_run_no_wait c t h))"
proof -
  have "recorded (snd (append_event (InputRun c None True) (write_pty (c @ [10]) h)))" if "c \<noteq> []"
    using that by - (rule recorded_write [OF assms, of "InputRun c None True" "c @ [10]"],
      auto simp: valid_input_run_def)
  moreover have "check_run c t = Inr () \<Longrightarrow> c \<noteq> []" by (auto simp: check_run_def check_def)
  ultimately have "recorded (snd (case check_run c t of Inl e \<Rightarrow> (Inl e, h)
      | Inr _ \<Rightarrow> append_event (InputRun c None True) (write_pty (c @ [10]) h)))"
    using assms by (cases "check_run c t") simp_all
  with assms show ?thesis
    unfolding handle_run_no_wait_def by (intro recorded_if_commandable)
qed

lemma run_marker_of_hex:
  "list_all is_lower_hex hex \<Longrightarrow> length hex = 32 \<Longrightarrow> is_run_marker (js ''__AT_MARKER_'' @ hex @ js ''__'')"
  by (simp add: is_run_marker_def)

lemma pick_sentinel_found:
  assumes "list_all is_signal_token tokens"
    and "list_ex (\<lambda>t. \<not> has_active_sentinel co (short_sentinel_prefix @ t @ run_complete_suffix)) tokens"
  shows "\<exists>t s. pick_sentinel co tokens = Inr (Some s) \<and> build_signal_sentinel t = Inr s"
  using assms
proof (induction tokens)
  case (Cons t tokens)
  have "build_signal_sentinel t = Inr (short_sentinel_prefix @ t @ run_complete_suffix)"
    using Cons.prems by (simp add: build_signal_sentinel_Inr)
  with Cons show ?case by auto
qed simp

lemma start_waited_run_recorded:
  assumes "recorded h" and "params_ok (WaitedRunRequest c t hex tokens) h"
  shows "recorded (snd (start_waited_run c t hex tokens h))"
proof -
  let ?m = "js ''__AT_MARKER_'' @ hex @ js ''__''"
  have m: "is_run_marker ?m" "\<not> omap_has ?m (co_active (hc_co h))" and tokens: "list_all is_signal_token tokens"
    using assms(2) by (simp_all add: run_marker_of_hex)
  from pick_sentinel_found [OF tokens, of "hc_co h"] assms(2) obtain tok s where
    s: "pick_sentinel (hc_co h) tokens = Inr (Some s)" "build_signal_sentinel tok = Inr s" by auto
  have co: "co_ok (hc_co h) []" using assms(1) by (simp add: recorded_def core_ok_def)
  note post = build_postamble_ok(1) [OF m(1) s(2)]
  have "recorded (snd (start_waited_run c t hex tokens h))" if c: "c \<noteq> []"
  proof -
    let ?w = "c @ [10] @ postamble_of s @ [10]"
    have "input_writes (InputRun c (Some ?m) False) [?w]" using post by auto
    then obtain q h1 where h1: "append_event (InputRun c (Some ?m) False) (h\<lparr>hc_pty := hc_pty h @ [?w]\<rparr>) = (Inr q, h1)"
      "recorded h1" "hc_co h1 = hc_co h"
      using c by (rule_tac recorded_input [OF assms(1), of "InputRun c (Some ?m) False" "[?w]"])
        (auto simp: valid_input_run_def)
    from h1(1) obtain lc where lc: "clocked_append (hc_log h) (InputRun c (Some ?m) False) = Inr (q, lc)"
      and h1': "h1 = h\<lparr>hc_pty := hc_pty h @ [?w], hc_log := lc\<rparr>"
      by (auto simp: append_event_def split: sum.splits prod.splits)
    note reg = register_waited_run_ok [OF co m s(1) tokens, of q]
    have "recorded (h1\<lparr>hc_co := registered (hc_co h) q ?m s\<rparr>)" by (rule recorded_co [OF h1(2) reg(2)])
    then have r: "recorded (write_pty ?w (h\<lparr>hc_log := lc, hc_co := registered (hc_co h) q ?m s\<rparr>))"
      by (rule recorded_cong) (simp_all add: write_pty_def h1')
    show ?thesis
      unfolding start_waited_run_def
      by (rule recorded_if_commandable [OF assms(1)])
        (use assms(1) r lc reg(1) m(1) in \<open>auto simp: check_run_def check_def prepare_waited_run_def
          append_event_def Let_def\<close>)
  qed
  moreover have "recorded (snd (start_waited_run c t hex tokens h))" if "c = []"
    using that assms(1) unfolding start_waited_run_def
    by (intro recorded_if_commandable) (auto simp: check_run_def check_def)
  ultimately show ?thesis by blast
qed

lemma mouse_event_valid:
  assumes "mouse_fields_ok e" and "backend \<noteq> []" and "list_all (\<lambda>b. b < 256) bytes"
  shows "valid_payload (InputMouse (mouse_event e backend bytes))"
  using assms base64_ok [OF assms(3)]
  by (simp add: valid_mouse_payload_def mouse_event_def mouse_fields_ok_def refine_mouse_input_def)

lemma mouse_step_recorded:
  assumes "recorded h" and "mouse_fields_ok e" and "backend \<noteq> []"
    and "\<And>i bytes. enc i = Inr bytes \<Longrightarrow> list_all (\<lambda>b. b < 256) bytes"
  shows "recorded (snd (snd (mouse_step enc backend e g write_pty append_event held h)))"
proof (cases "prepare_held_mouse_buttons held (mi_action e) (mi_button e)")
  case (Inl err)
  with assms(1) show ?thesis by (simp add: mouse_step_def)
next
  case (Inr t)
  show ?thesis
  proof (cases "encode_mouse enc (encoding_of e t)")
    case (Inl err)
    with Inr assms(1) show ?thesis by (simp add: mouse_step_def)
  next
    case enc: (Inr bytes)
    then have "enc (encoding_of e t) = Inr bytes"
      by (auto simp: encode_mouse_def split: sum.splits encode_failure.splits)
    then have bytes: "list_all (\<lambda>b. b < 256) bytes" by (rule assms(4))
    show ?thesis
    proof (cases "g h")
      case (Inl err)
      with Inr enc assms(1) show ?thesis by (simp add: mouse_step_def)
    next
      case g: (Inr u)
      let ?ws = "if bytes = [] then [] else [bytes]"
      have "input_writes (InputMouse (mouse_event e backend bytes)) ?ws"
        by (auto simp: mouse_event_def)
      then obtain q h' where
        h': "append_event (InputMouse (mouse_event e backend bytes)) (h\<lparr>hc_pty := hc_pty h @ ?ws\<rparr>) = (Inr q, h')"
        "recorded h'"
        by (rule recorded_input [OF assms(1) mouse_event_valid [OF assms(2,3) bytes], rotated]) auto
      have "(if bytes \<noteq> [] then write_pty bytes h else h) = h\<lparr>hc_pty := hc_pty h @ ?ws\<rparr>"
        by (simp add: write_pty_def)
      with Inr enc g h' show ?thesis by (simp add: mouse_step_def)
    qed
  qed
qed

lemma snd_mouse_answer:
  "snd (case x of (Inl err, held, h1) \<Rightarrow> (Inl err, h1\<lparr>hc_held := held\<rparr>)
      | (Inr (b, q), held, h1) \<Rightarrow> (Inr (f b q), h1\<lparr>hc_held := held\<rparr>))
   = (snd (snd x))\<lparr>hc_held := fst (snd x)\<rparr>"
  by (cases x; cases "fst x") auto

lemma handle_mouse_recorded:
  assumes "recorded h" and "params_ok (MouseRequest name ok enc backend applied loads e) h"
  shows "recorded (snd (handle_mouse name ok enc backend applied loads e h))"
proof -
  have step: "recorded (snd (snd (mouse_step (enc rs) backend e g write_pty append_event held h)))" for rs g held
    using assms by (intro mouse_step_recorded) auto
  show ?thesis
    unfolding handle_mouse_def
    using assms(1) step by (auto simp: snd_mouse_answer split: sum.split option.split)
qed

lemma session_step_recorded:
  assumes "recorded h"
  shows "recorded (snd (handle_signal sig alive killed h))"
    and "recorded (snd (handle_resize_request now cols rows h))"
    and "recorded (destroy_request now h)" and "recorded (program_exit now code sg h)"
proof -
  have other: "recorded (snd (append_event p (h\<lparr>hc_session := s\<rparr>)))"
    "recorded (snd (append_event p h))" if "\<not> is_input p" for p s
    using that assms by (simp_all add: recorded_other)
  show "recorded (snd (handle_signal sig alive killed h))"
    unfolding handle_signal_def using assms other(2) [of "SignalSent sig"]
    by (intro recorded_if_commandable) (simp_all add: snd_answer split: option.split)
  show "recorded (snd (handle_resize_request now cols rows h))"
    unfolding handle_resize_request_def using assms other(1) [of "Resize cols rows"]
    by (intro recorded_if_commandable) (simp_all add: snd_answer split: sum.split)
  show "recorded (destroy_request now h)"
    using assms by (simp add: destroy_request_def split: sum.split)
  let ?h1 = "if s_status (hc_session h) = Destroying then h
     else case record_exit now (Some code) sg (hc_session h) of Inl e \<Rightarrow> h | Inr r \<Rightarrow> h\<lparr>hc_session := r\<rparr>"
  have "recorded ?h1" using assms by (simp split: sum.split)
  then have "recorded (snd (append_event (Exit (Some code) sg) ?h1))" by (rule recorded_other) simp
  moreover have "co_ok (reset_for_exit co) []" for co
    using co_ok_new by (simp add: co_ok_def reset_for_exit_def new_coordinator_def)
  ultimately show "recorded (program_exit now code sg h)"
    unfolding program_exit_def Let_def by (rule recorded_co)
qed

lemma handle_mark_recorded: "recorded h \<Longrightarrow> recorded (snd (handle_mark l h))"
  unfolding handle_mark_def by (intro recorded_if_commandable recorded_other) simp_all

lemma happen_recorded:
  assumes "recorded h" and "params_ok ev h"
  shows "recorded (happen ev h)"
proof (cases ev)
  case (PtyOutput d)
  with assms pty_output_ok [of h d] show ?thesis
    using recorded_quiet [OF assms(1), of "pty_output d h"] by (simp add: recorded_def)
next
  case PtyFlush
  with assms pty_flush_ok [of h] show ?thesis
    using recorded_quiet [OF assms(1), of "pty_flush h"] by (simp add: recorded_def)
next
  case (WaitGaveUp m)
  with assms show ?thesis by (simp add: recorded_co co_ok_forget recorded_def core_ok_def)
next
  case (WaitedRunRequest c t hex tokens)
  with start_waited_run_recorded [OF assms(1)] assms(2) show ?thesis by simp
next
  case (MouseRequest name ok enc backend applied loads e)
  with handle_mouse_recorded [OF assms(1)] assms(2) show ?thesis by simp
qed (use assms in \<open>simp_all add: handle_type_recorded handle_mark_recorded handle_paste_recorded
  handle_send_keys_recorded handle_run_recorded session_step_recorded\<close>)

lemma fresh_host_recorded:
  assumes "limits_ok mb me" and "\<And>i. clock_text (clock i)"
  shows "recorded (fresh_host s mb me clock)"
proof -
  have "log_ready (fresh_log mb me, clock)"
    using assms log_sane_fresh tail_ok_fresh by (simp add: log_ready_def fresh_log_def)
  then show ?thesis
    by (simp add: recorded_def core_ok_def fresh_host_def co_ok_new history_def get_events_def fresh_log_def)
qed

lemma host_reach_recorded: "host_reach h0 h \<Longrightarrow> recorded h0 \<Longrightarrow> recorded h"
  by (induction rule: host_reach.induct) (simp_all add: happen_recorded)


definition example_host :: host_core where
  "example_host = fresh_host example_session 5000 5 (\<lambda>_. js ''2024'')"

definition typed_host :: host_core where
  "typed_host = happen (TypeRequest (js ''ls'')) example_host"

lemma typed_bytes: "record_bytes (make_record 0 (js ''2024'') (InputText (js ''ls''))) = 66"
  by (simp add: record_bytes_def record_line_def json_of_record_def make_record_def quote_def
      quote_unit_def is_high_surrogate_def is_low_surrogate_def int_digits_def nat_digits.simps js_eval)

lemma example_clock: "clock_text (js ''2024'')"
  by (simp add: clock_text_def js_eval)

lemma typed_host_eq:
  "handle_type (js ''ls'') example_host = (Inr 0, typed_host)"
  "typed_host = example_host\<lparr>hc_pty := [js ''ls''],
     hc_log := (store (make_record 0 (js ''2024'') (InputText (js ''ls''))) (fresh_log 5000 5), \<lambda>_. js ''2024'')\<rparr>"
proof -
  have "append_effect (fresh_log 5000 5) (InputText (js ''ls'')) (js ''2024'') (js ''2024'') = Stored"
    by (simp add: append_effect_def find_stop_reason_def typed_bytes fresh_log_def
        tail_reserve_bytes_def tail_reserve_entries_def)
  then have "append_log (fresh_log 5000 5) (InputText (js ''ls'')) (js ''2024'') (js ''2024'')
      = Inr (0, store (make_record 0 (js ''2024'') (InputText (js ''ls''))) (fresh_log 5000 5))"
    using queue_append_effect [of "fresh_log 5000 5" "InputText (js ''ls'')" "js ''2024''" "js ''2024''"]
    by (simp add: append_log_def fresh_log_def)
  moreover have "assert_session_commandable (hc_session example_host) = Inr ()"
    by (simp add: assert_session_commandable_def example_host_def fresh_host_def example_session_def
        is_commandable_iff)
  ultimately have "handle_type (js ''ls'') example_host = (Inr 0, example_host\<lparr>hc_pty := [js ''ls''],
     hc_log := (store (make_record 0 (js ''2024'') (InputText (js ''ls''))) (fresh_log 5000 5), \<lambda>_. js ''2024'')\<rparr>)"
    by (simp add: handle_type_def if_commandable_def append_event_def write_pty_def clocked_append_def
        example_host_def fresh_host_def)
  then show "handle_type (js ''ls'') example_host = (Inr 0, typed_host)"
    and "typed_host = example_host\<lparr>hc_pty := [js ''ls''],
     hc_log := (store (make_record 0 (js ''2024'') (InputText (js ''ls''))) (fresh_log 5000 5), \<lambda>_. js ''2024'')\<rparr>"
    by (simp_all add: typed_host_def)
qed

lemma typed_host_reach: "host_reach (fresh_host example_session 5000 5 (\<lambda>_. js ''2024'')) typed_host"
  unfolding typed_host_def example_host_def by (intro host_next host_start) simp

lemma typed_host_sel [simp]:
  "el_stopped (fst (hc_log typed_host)) = False" "hc_pty typed_host = [js ''ls'']"
  by (simp_all add: typed_host_eq(2) fresh_log_def)


end
