(* ===== verification/BatchExecutor.thy ===== *)
theory BatchExecutor
  imports BatchPlan EventCodec
begin

text \<open>
  The Batch executor: the steps of a plan run in order through an injected driver, each step ends
  in one record, and the number that an input step returns is the Wait Baseline of the waits after
  it. The driver is an argument here, a record of functions on a state; the host behind it is
  modelled elsewhere.
\<close>

section \<open>Records\<close>

datatype step_status = StepCompleted | StepFailed | StepNotRun | StepInterrupted

datatype run_outcome = OutcomeCompleted | OutcomeTimedOut | OutcomeSessionExited | OutcomeStarted

record batch_step_error =
  se_code :: protocol_code
  se_message :: jstring

record step_base =
  br_index :: nat
  br_duration_ms :: int
  br_status :: step_status
  br_error :: "batch_step_error option"

datatype input_kind = KindType | KindPaste | KindKeys

record input_step_record = step_base +
  ir_kind :: input_kind
  ir_seq :: "nat option"

record mouse_step_record = step_base +
  mr_seq :: "nat option"
  mr_reported :: "bool option"
  mr_bytes_written :: "nat option"

record run_step_record = step_base +
  rn_seq :: "nat option"
  rn_no_wait :: bool
  rn_completed :: "bool option"
  rn_timed_out :: "bool option"
  rn_outcome :: "run_outcome option"

record wait_step_record = step_base +
  wn_baseline :: "nat option"
  wn_matched :: "bool option"
  wn_timed_out :: "bool option"
  wn_matched_text :: "jstring option"
  wn_captured_at :: "int option"
  wn_screen_hash :: "jstring option"

datatype step_record =
    InputRecord input_step_record
  | MouseRecord mouse_step_record
  | RunRecord run_step_record
  | WaitRecord wait_step_record

fun base_of :: "step_record \<Rightarrow> step_base" where
  "base_of (InputRecord r) = step_base.truncate r"
| "base_of (MouseRecord r) = step_base.truncate r"
| "base_of (RunRecord r) = step_base.truncate r"
| "base_of (WaitRecord r) = step_base.truncate r"

definition status_of :: "step_record \<Rightarrow> step_status" where
  "status_of r = br_status (base_of r)"

definition index_of_record :: "step_record \<Rightarrow> nat" where
  "index_of_record r = br_index (base_of r)"

fun record_seq :: "step_record \<Rightarrow> nat option" where
  \<comment> \<open>\<open>record.kind !== 'wait'\<close> and its \<open>seq\<close>.\<close>
  "record_seq (InputRecord r) = ir_seq r"
| "record_seq (MouseRecord r) = mr_seq r"
| "record_seq (RunRecord r) = rn_seq r"
| "record_seq (WaitRecord r) = None"

record batch_result =
  bt_steps :: "step_record list"
  bt_completed_count :: nat
  bt_failed_indices :: "nat list"

fun with_base :: "step_base \<Rightarrow> batch_step \<Rightarrow> step_record" where
  \<comment> \<open>A record of the step's kind that holds nothing but its base, and \<open>noWait\<close> for a run.\<close>
  "with_base b (RunStep c noWait t) = RunRecord (step_base.extend b
     \<lparr>rn_seq = None, rn_no_wait = noWait, rn_completed = None, rn_timed_out = None, rn_outcome = None\<rparr>)"
| "with_base b (WaitStep c t) = WaitRecord (step_base.extend b
     \<lparr>wn_baseline = None, wn_matched = None, wn_timed_out = None, wn_matched_text = None,
      wn_captured_at = None, wn_screen_hash = None\<rparr>)"
| "with_base b (TypeStep t) = InputRecord (step_base.extend b \<lparr>ir_kind = KindType, ir_seq = None\<rparr>)"
| "with_base b (PasteStep t) = InputRecord (step_base.extend b \<lparr>ir_kind = KindPaste, ir_seq = None\<rparr>)"
| "with_base b (KeysStep ks) = InputRecord (step_base.extend b \<lparr>ir_kind = KindKeys, ir_seq = None\<rparr>)"
| "with_base b (MouseStep e) = MouseRecord (step_base.extend b
     \<lparr>mr_seq = None, mr_reported = None, mr_bytes_written = None\<rparr>)"

definition unreached_step_record :: "batch_step \<Rightarrow> nat \<Rightarrow> step_status \<Rightarrow> step_record" where
  "unreached_step_record step index status =
     with_base \<lparr>br_index = index, br_duration_ms = 0, br_status = status, br_error = None\<rparr> step"

fun unreached_from :: "nat \<Rightarrow> batch_step list \<Rightarrow> step_record list" where
  \<comment> \<open>The steps from the index on that have no record: the first one was in flight.\<close>
  "unreached_from index [] = []"
| "unreached_from index (s # ss) =
     unreached_step_record s index StepInterrupted
     # map (\<lambda>(i, t). unreached_step_record t i StepNotRun) (enumerate (Suc index) ss)"

definition build_partial_batch_result :: "batch_step list \<Rightarrow> step_record list \<Rightarrow> batch_result" where
  "build_partial_batch_result plan recorded =
     (let steps = recorded @ unreached_from (length recorded) (drop (length recorded) plan)
      in \<lparr>bt_steps = steps,
          bt_completed_count = length (filter (\<lambda>r. status_of r = StepCompleted) steps),
          bt_failed_indices = map index_of_record (filter (\<lambda>r. status_of r = StepFailed) steps)\<rparr>)"

section \<open>The driver\<close>

record mouse_result =
  mu_reported :: bool
  mu_bytes_written :: nat
  mu_seq :: nat

record run_result =
  rr_seq :: nat
  rr_completed :: "bool option"
  rr_timed_out :: "bool option"

record render_wait_result =
  rw_matched :: bool
  rw_timed_out :: bool
  rw_matched_text :: "jstring option"
  rw_captured_at :: int
  rw_screen_hash :: "jstring option"
  rw_stop :: "event_log_stop option"

record 's driver =
  dr_now :: "'s \<Rightarrow> int"                          \<comment> \<open>\<open>Date.now()\<close>\<close>
  dr_type :: "jstring \<Rightarrow> 's \<Rightarrow> nat res \<times> 's"
  dr_paste :: "jstring \<Rightarrow> 's \<Rightarrow> nat res \<times> 's"
  dr_keys :: "jstring list \<Rightarrow> 's \<Rightarrow> nat res \<times> 's"
  dr_mouse :: "mouse_input \<Rightarrow> 's \<Rightarrow> mouse_result res \<times> 's"
  dr_run :: "jstring \<Rightarrow> bool \<Rightarrow> int option \<Rightarrow> 's \<Rightarrow> run_result res \<times> 's"
  dr_wait :: "prepared_condition \<Rightarrow> nat option \<Rightarrow> int option \<Rightarrow> 's \<Rightarrow> render_wait_result res \<times> 's"
  dr_commandable :: "'s \<Rightarrow> unit res \<times> 's"        \<comment> \<open>\<open>assertCommandable\<close>, when it is given\<close>

section \<open>One step\<close>

definition to_batch_step_error :: "protocol_code \<Rightarrow> jstring \<Rightarrow> batch_step_error" where
  "to_batch_step_error code msg = \<lparr>se_code = code, se_message = msg\<rparr>"

definition reframe_as_internal_error :: "nat \<Rightarrow> jstring" where
  "reframe_as_internal_error index =
     js ''Batch step '' @ nat_digits index @ js '' failed with an unexpected error.''"

fun caught_error :: "nat \<Rightarrow> js_error \<Rightarrow> batch_step_error" where
  \<comment> \<open>The error of the record when a step throws.\<close>
  "caught_error index (Cli code msg) = to_batch_step_error code msg"
| "caught_error index e = to_batch_step_error INTERNAL_ERROR (reframe_as_internal_error index)"

definition classify_run_outcome :: "bool \<Rightarrow> bool option \<Rightarrow> bool option \<Rightarrow> run_outcome" where
  "classify_run_outcome noWait completed timedOut =
     (if noWait then OutcomeStarted
      else if completed = Some True then OutcomeCompleted
      else if timedOut = Some True then OutcomeTimedOut
      else OutcomeSessionExited)"

definition base_record :: "nat \<Rightarrow> int \<Rightarrow> step_status \<Rightarrow> batch_step_error option \<Rightarrow> step_base" where
  "base_record index duration status err =
     \<lparr>br_index = index, br_duration_ms = duration, br_status = status, br_error = err\<rparr>"

definition run_run_step ::
  "'s driver \<Rightarrow> jstring \<Rightarrow> bool \<Rightarrow> int option \<Rightarrow> nat \<Rightarrow> int \<Rightarrow> 's \<Rightarrow> step_record res \<times> 's" where
  "run_run_step dr command noWait timeoutMs index startedAt s =
     (case dr_run dr command noWait timeoutMs s of
        (Inl e, s1) \<Rightarrow> (Inl e, s1)
      | (Inr result, s1) \<Rightarrow>
          let runOutcome = classify_run_outcome noWait (rr_completed result) (rr_timed_out result);
              isFailed = (\<not> noWait \<and> rr_completed result \<noteq> Some True);
              err =
                (if \<not> isFailed then None
                 else if runOutcome = OutcomeTimedOut
                 then Some (to_batch_step_error WAIT_TIMEOUT
                   (js ''Waited Run at step '' @ nat_digits index @ js '' timed out before completing.''))
                 else Some (to_batch_step_error SESSION_NOT_RUNNING
                   (js ''Waited Run at step '' @ nat_digits index
                     @ js '' was interrupted by Session exit before completing.'')))
          in (Inr (RunRecord (step_base.extend
                (base_record index (dr_now dr s1 - startedAt)
                   (if isFailed then StepFailed else StepCompleted) err)
                \<lparr>rn_seq = Some (rr_seq result), rn_no_wait = noWait,
                 rn_completed = rr_completed result, rn_timed_out = rr_timed_out result,
                 rn_outcome = Some runOutcome\<rparr>)), s1))"

fun stop_reason_text :: "stop_reason \<Rightarrow> jstring" where
  "stop_reason_text (Reached LimitBytes) = js ''byte limit''"
| "stop_reason_text (Reached LimitEvents) = js ''event limit''"
| "stop_reason_text UnknownReason = js ''reason unknown''"

definition describe_event_log_stop :: "event_log_stop \<Rightarrow> jstring" where
  "describe_event_log_stop st =
     js ''at seq '' @ nat_digits (stop_seq st) @ js '' ('' @ stop_reason_text (stop_reason st) @ js '')''"

definition event_log_stop_timeout_note :: "event_log_stop \<Rightarrow> jstring" where
  "event_log_stop_timeout_note st =
     js ''The event log stopped '' @ describe_event_log_stop st @ js '', so output after it is not seen.''"

definition wait_timeout_message :: "nat \<Rightarrow> int option \<Rightarrow> render_wait_result \<Rightarrow> jstring" where
  "wait_timeout_message index timeoutMs r =
     join_with (js '' '')
       ((case timeoutMs of
           Some n \<Rightarrow>
             if rw_timed_out r
             then [js ''Render wait at step '' @ nat_digits index @ js '' timed out after ''
                     @ int_digits n @ js '' ms.'']
             else [js ''Render wait at step '' @ nat_digits index
                     @ js '' timed out before its condition was met.'']
         | None \<Rightarrow> [js ''Render wait at step '' @ nat_digits index
                     @ js '' timed out before its condition was met.''])
        @ (case rw_stop r of None \<Rightarrow> [] | Some st \<Rightarrow> [event_log_stop_timeout_note st]))"

definition observed_wait :: "nat option \<Rightarrow> render_wait_result \<Rightarrow> step_base \<Rightarrow> step_record" where
  \<comment> \<open>The record of a wait with its baseline and its observations.\<close>
  "observed_wait lastInputSeq r b = WaitRecord (step_base.extend b
     \<lparr>wn_baseline = lastInputSeq, wn_matched = Some (rw_matched r),
      wn_timed_out = Some (rw_timed_out r), wn_matched_text = rw_matched_text r,
      wn_captured_at = Some (rw_captured_at r), wn_screen_hash = rw_screen_hash r\<rparr>)"

definition run_wait_step ::
  "'s driver \<Rightarrow> prepared_condition \<Rightarrow> int option \<Rightarrow> nat \<Rightarrow> nat option \<Rightarrow> int \<Rightarrow> 's
     \<Rightarrow> step_record res \<times> 's" where
  "run_wait_step dr condition timeoutMs index lastInputSeq startedAt s =
     (case dr_commandable dr s of
        (Inl e, s1) \<Rightarrow> (Inl e, s1)
      | (Inr _, s1) \<Rightarrow>
        (case dr_wait dr condition lastInputSeq timeoutMs s1 of
           (Inl e, s2) \<Rightarrow> (Inl e, s2)
         | (Inr r, s2) \<Rightarrow>
           if rw_timed_out r \<or> \<not> rw_matched r
           then (Inr (observed_wait lastInputSeq r
                   (base_record index (dr_now dr s2 - startedAt) StepFailed
                     (Some (to_batch_step_error WAIT_TIMEOUT (wait_timeout_message index timeoutMs r))))), s2)
           else
             (case dr_commandable dr s2 of
                (Inl (Cli code msg), s3) \<Rightarrow>
                  (Inr (observed_wait lastInputSeq r
                     (base_record index (dr_now dr s3 - startedAt) StepFailed
                       (Some (to_batch_step_error code msg)))), s3)
              | (Inl e, s3) \<Rightarrow> (Inl e, s3)
              | (Inr _, s3) \<Rightarrow>
                  (Inr (observed_wait lastInputSeq r
                     (base_record index (dr_now dr s3 - startedAt) StepCompleted None)), s3))))"

definition input_step ::
  "'s driver \<Rightarrow> input_kind \<Rightarrow> nat \<Rightarrow> int \<Rightarrow> nat res \<times> 's \<Rightarrow> step_record res \<times> 's" where
  "input_step dr kind index startedAt answer =
     (case answer of
        (Inl e, s1) \<Rightarrow> (Inl e, s1)
      | (Inr seq, s1) \<Rightarrow>
          (Inr (InputRecord (step_base.extend
             (base_record index (dr_now dr s1 - startedAt) StepCompleted None)
             \<lparr>ir_kind = kind, ir_seq = Some seq\<rparr>)), s1))"

fun run_step ::
  "'s driver \<Rightarrow> nat \<Rightarrow> nat option \<Rightarrow> int \<Rightarrow> batch_step \<Rightarrow> 's \<Rightarrow> step_record res \<times> 's" where
  "run_step dr index lastInputSeq startedAt (TypeStep t) s =
     input_step dr KindType index startedAt (dr_type dr t s)"
| "run_step dr index lastInputSeq startedAt (PasteStep t) s =
     input_step dr KindPaste index startedAt (dr_paste dr t s)"
| "run_step dr index lastInputSeq startedAt (KeysStep ks) s =
     input_step dr KindKeys index startedAt (dr_keys dr ks s)"
| "run_step dr index lastInputSeq startedAt (MouseStep e) s =
     (case dr_mouse dr e s of
        (Inl err, s1) \<Rightarrow> (Inl err, s1)
      | (Inr r, s1) \<Rightarrow>
          (Inr (MouseRecord (step_base.extend
             (base_record index (dr_now dr s1 - startedAt) StepCompleted None)
             \<lparr>mr_seq = Some (mu_seq r), mr_reported = Some (mu_reported r),
              mr_bytes_written = Some (mu_bytes_written r)\<rparr>)), s1))"
| "run_step dr index lastInputSeq startedAt (RunStep c noWait t) s =
     run_run_step dr c noWait t index startedAt s"
| "run_step dr index lastInputSeq startedAt (WaitStep c t) s =
     run_wait_step dr c t index lastInputSeq startedAt s"

definition failed_record :: "batch_step \<Rightarrow> nat \<Rightarrow> int \<Rightarrow> batch_step_error \<Rightarrow> step_record" where
  "failed_record step index duration err =
     with_base (base_record index duration StepFailed (Some err)) step"

definition not_run_record :: "batch_step \<Rightarrow> nat \<Rightarrow> step_record" where
  "not_run_record step index = unreached_step_record step index StepNotRun"

section \<open>The loop\<close>

record exec_state =
  xs_steps :: "step_record list"
  xs_failed :: "nat list"
  xs_completed :: nat
  xs_last_seq :: "nat option"
  xs_stopped :: bool

definition exec_init :: exec_state where
  "exec_init = \<lparr>xs_steps = [], xs_failed = [], xs_completed = 0, xs_last_seq = None,
     xs_stopped = False\<rparr>"

definition finalize :: "step_record \<Rightarrow> exec_state \<Rightarrow> exec_state" where
  "finalize r x =
     x\<lparr>xs_steps := xs_steps x @ [r],
       xs_completed := (if status_of r = StepCompleted then xs_completed x + 1 else xs_completed x),
       xs_failed := (if status_of r = StepFailed then xs_failed x @ [index_of_record r]
                     else xs_failed x)\<rparr>"

definition exec_step :: "'s driver \<Rightarrow> bool \<Rightarrow> nat \<Rightarrow> batch_step \<Rightarrow> exec_state \<times> 's \<Rightarrow> exec_state \<times> 's" where
  "exec_step dr keepGoing index step st =
     (let x = fst st; s = snd st in
      if xs_stopped x then (finalize (not_run_record step index) x, s)
      else
        let startedAt = dr_now dr s;
            ran = run_step dr index (xs_last_seq x) startedAt step s;
            s1 = snd ran;
            r = (case fst ran of
                   Inr r \<Rightarrow> r
                 | Inl e \<Rightarrow> failed_record step index (dr_now dr s1 - startedAt) (caught_error index e));
            x1 = (case record_seq r of None \<Rightarrow> x | Some q \<Rightarrow> x\<lparr>xs_last_seq := Some q\<rparr>);
            x2 = finalize r x1
        in (if status_of r = StepFailed \<and> \<not> keepGoing then x2\<lparr>xs_stopped := True\<rparr> else x2, s1))"

fun exec_from :: "'s driver \<Rightarrow> bool \<Rightarrow> nat \<Rightarrow> batch_step list \<Rightarrow> exec_state \<times> 's \<Rightarrow> exec_state \<times> 's" where
  "exec_from dr keepGoing index [] st = st"
| "exec_from dr keepGoing index (step # steps) st =
     exec_from dr keepGoing (Suc index) steps (exec_step dr keepGoing index step st)"

definition execute_batch :: "'s driver \<Rightarrow> bool \<Rightarrow> batch_step list \<Rightarrow> 's \<Rightarrow> batch_result \<times> 's" where
  "execute_batch dr keepGoing plan s =
     (let st = exec_from dr keepGoing 0 plan (exec_init, s); x = fst st
      in (\<lparr>bt_steps = xs_steps x, bt_completed_count = xs_completed x,
           bt_failed_indices = xs_failed x\<rparr>, snd st))"

section \<open>The records of a batch\<close>

fun same_kind :: "batch_step \<Rightarrow> step_record \<Rightarrow> bool" where
  "same_kind (TypeStep t) (InputRecord r) = (ir_kind r = KindType)"
| "same_kind (PasteStep t) (InputRecord r) = (ir_kind r = KindPaste)"
| "same_kind (KeysStep ks) (InputRecord r) = (ir_kind r = KindKeys)"
| "same_kind (MouseStep e) (MouseRecord r) = True"
| "same_kind (RunStep c noWait t) (RunRecord r) = (rn_no_wait r = noWait)"
| "same_kind (WaitStep c t) (WaitRecord r) = True"
| "same_kind _ _ = False"

fun observed :: "step_record \<Rightarrow> bool" where
  \<comment> \<open>What a step of this kind returns when it completes is there.\<close>
  "observed (InputRecord r) = (ir_seq r \<noteq> None)"
| "observed (MouseRecord r) = (mr_seq r \<noteq> None \<and> mr_reported r \<noteq> None \<and> mr_bytes_written r \<noteq> None)"
| "observed (RunRecord r) =
     (rn_seq r \<noteq> None
      \<and> rn_outcome r = Some (if rn_no_wait r then OutcomeStarted else OutcomeCompleted))"
| "observed (WaitRecord r) =
     (wn_matched r = Some True \<and> wn_timed_out r = Some False \<and> wn_captured_at r \<noteq> None)"

definition record_for :: "nat \<Rightarrow> batch_step \<Rightarrow> step_record \<Rightarrow> bool" where
  "record_for index step r \<longleftrightarrow>
     same_kind step r \<and> index_of_record r = index
     \<and> (br_error (base_of r) \<noteq> None \<longleftrightarrow> status_of r = StepFailed)
     \<and> (case status_of r of
          StepCompleted \<Rightarrow> observed r
        | StepFailed \<Rightarrow> True
        | _ \<Rightarrow> r = unreached_step_record step index (status_of r))"

lemmas record_defs = status_of_def index_of_record_def base_record_def step_base.defs

lemma record_for_unreached: "status \<in> {StepNotRun, StepInterrupted} \<Longrightarrow>
    record_for index step (unreached_step_record step index status)"
  by (cases step) (auto simp: record_for_def unreached_step_record_def record_defs)

lemma status_unreached [simp]: "status_of (unreached_step_record step index status) = status"
  by (cases step) (simp_all add: unreached_step_record_def record_defs)

lemma record_for_failed:
  "record_for index step (failed_record step index d e) \<and> status_of (failed_record step index d e) = StepFailed"
  by (cases step) (auto simp: record_for_def failed_record_def record_defs)

lemma input_step_record:
  "input_step dr kind index t a = (Inr r, s') \<Longrightarrow>
     \<exists>b q. r = InputRecord (step_base.extend b \<lparr>ir_kind = kind, ir_seq = Some q\<rparr>)
       \<and> b = base_record index (dr_now dr s' - t) StepCompleted None \<and> a = (Inr q, s')"
  by (auto simp: input_step_def split: prod.splits sum.splits)

lemma input_record_for:
  assumes "input_step dr kind index t a = (Inr r, s')" and "\<And>q. same_kind step (InputRecord
    (step_base.extend (base_record index (dr_now dr s' - t) StepCompleted None)
       \<lparr>ir_kind = kind, ir_seq = Some q\<rparr>))"
  shows "record_for index step r \<and> status_of r = StepCompleted"
proof -
  from input_step_record [OF assms(1)] obtain q where r: "r = InputRecord (step_base.extend
      (base_record index (dr_now dr s' - t) StepCompleted None) \<lparr>ir_kind = kind, ir_seq = Some q\<rparr>)"
    by blast
  with assms(2) [of q] show ?thesis by (simp add: record_for_def record_defs)
qed

lemma run_run_step_record_for:
  "run_run_step dr c noWait t index st s = (Inr r, s') \<Longrightarrow>
     record_for index (RunStep c noWait t) r \<and> status_of r \<in> {StepCompleted, StepFailed}"
  by (auto simp: run_run_step_def record_for_def record_defs classify_run_outcome_def Let_def
      split: prod.splits sum.splits if_splits)

lemma observed_wait_for:
  "record_for index (WaitStep c t) (observed_wait lastq r (base_record index d StepFailed (Some e)))"
  "rw_matched r \<Longrightarrow> \<not> rw_timed_out r \<Longrightarrow>
     record_for index (WaitStep c t) (observed_wait lastq r (base_record index d StepCompleted None))"
  "status_of (observed_wait lastq r (base_record index d st err)) = st"
  by (simp_all add: record_for_def record_defs observed_wait_def)

lemma run_wait_step_eqs:
  "dr_commandable dr s = (Inl err, s1) \<Longrightarrow> run_wait_step dr c t index lastq start s = (Inl err, s1)"
  "dr_commandable dr s = (Inr u, s1) \<Longrightarrow> dr_wait dr c lastq t s1 = (Inl err, s2) \<Longrightarrow>
     run_wait_step dr c t index lastq start s = (Inl err, s2)"
  "dr_commandable dr s = (Inr u, s1) \<Longrightarrow> dr_wait dr c lastq t s1 = (Inr r, s2) \<Longrightarrow>
     rw_timed_out r \<or> \<not> rw_matched r \<Longrightarrow>
     run_wait_step dr c t index lastq start s =
       (Inr (observed_wait lastq r (base_record index (dr_now dr s2 - start) StepFailed
          (Some (to_batch_step_error WAIT_TIMEOUT (wait_timeout_message index t r))))), s2)"
  "dr_commandable dr s = (Inr u, s1) \<Longrightarrow> dr_wait dr c lastq t s1 = (Inr r, s2) \<Longrightarrow>
     rw_matched r \<Longrightarrow> \<not> rw_timed_out r \<Longrightarrow> dr_commandable dr s2 = (Inr v, s3) \<Longrightarrow>
     run_wait_step dr c t index lastq start s =
       (Inr (observed_wait lastq r (base_record index (dr_now dr s3 - start) StepCompleted None)), s3)"
  "dr_commandable dr s = (Inr u, s1) \<Longrightarrow> dr_wait dr c lastq t s1 = (Inr r, s2) \<Longrightarrow>
     rw_matched r \<Longrightarrow> \<not> rw_timed_out r \<Longrightarrow> dr_commandable dr s2 = (Inl err, s3) \<Longrightarrow>
     run_wait_step dr c t index lastq start s =
       (case err of
          Cli code msg \<Rightarrow> (Inr (observed_wait lastq r (base_record index (dr_now dr s3 - start) StepFailed
            (Some (to_batch_step_error code msg)))), s3)
        | _ \<Rightarrow> (Inl err, s3))"
  by (simp_all add: run_wait_step_def split: js_error.split)

lemma run_wait_step_cases:
  assumes "run_wait_step dr c t index lastq start s = (Inr x, s')"
  obtains s1 s2 r d e where "dr_commandable dr s = (Inr (), s1)"
    and "dr_wait dr c lastq t s1 = (Inr r, s2)"
    and "x = observed_wait lastq r (base_record index d StepFailed (Some e))"
    and "s' = s2 \<or> (\<exists>u. dr_commandable dr s2 = (u, s'))"
  | s1 s2 r where "dr_commandable dr s = (Inr (), s1)"
    and "dr_wait dr c lastq t s1 = (Inr r, s2)" and "rw_matched r" and "\<not> rw_timed_out r"
    and "dr_commandable dr s2 = (Inr (), s')"
    and "x = observed_wait lastq r (base_record index (dr_now dr s' - start) StepCompleted None)"
proof -
  obtain a s1 where a: "dr_commandable dr s = (a, s1)" by (meson surj_pair)
  with assms have a': "a = Inr ()" by (cases a) (simp_all add: run_wait_step_eqs(1))
  obtain b s2 where b: "dr_wait dr c lastq t s1 = (b, s2)" by (meson surj_pair)
  from assms run_wait_step_eqs(2) [OF a [unfolded a']] b obtain r where r: "b = Inr r"
    by (cases b) simp_all
  obtain u s3 where u: "dr_commandable dr s2 = (u, s3)" by (meson surj_pair)
  note waited = a [unfolded a'] b [unfolded r]
  show thesis
  proof (cases "rw_timed_out r \<or> \<not> rw_matched r")
    case True
    from run_wait_step_eqs(3) [OF waited True, of index start] assms
    show ?thesis by (intro that(1) [OF waited]) auto
  next
    case False
    then have m: "rw_matched r" "\<not> rw_timed_out r" by simp_all
    show ?thesis
    proof (cases u)
      case (Inl err)
      from run_wait_step_eqs(5) [OF waited m u [unfolded Inl], of index start] assms u show ?thesis
        by (cases err) (auto intro: that(1) [OF waited])
    next
      case (Inr v)
      from run_wait_step_eqs(4) [OF waited m u [unfolded Inr], of index start] assms u Inr
      show ?thesis by (intro that(2) [OF waited m]) auto
    qed
  qed
qed

lemma run_wait_step_record_for:
  "run_wait_step dr c t index lastq st s = (Inr r, s') \<Longrightarrow>
     record_for index (WaitStep c t) r \<and> status_of r \<in> {StepCompleted, StepFailed}"
  by (erule run_wait_step_cases) (simp_all add: observed_wait_for)

lemma run_step_record_for:
  assumes "run_step dr index lastq st step s = (Inr r, s')"
  shows "record_for index step r \<and> status_of r \<in> {StepCompleted, StepFailed}"
proof (cases step)
  case (MouseStep e)
  with assms show ?thesis
    by (auto simp: record_for_def record_defs split: prod.splits sum.splits)
next
  case (RunStep c noWait t)
  with assms show ?thesis using run_run_step_record_for by fastforce
next
  case (WaitStep c t)
  with assms show ?thesis using run_wait_step_record_for by fastforce
next
  case (TypeStep t)
  with assms have "input_step dr KindType index st (dr_type dr t s) = (Inr r, s')" by simp
  then show ?thesis using TypeStep by (auto dest: input_record_for [where step = step] simp: record_defs)
next
  case (PasteStep t)
  with assms have "input_step dr KindPaste index st (dr_paste dr t s) = (Inr r, s')" by simp
  then show ?thesis using PasteStep by (auto dest: input_record_for [where step = step] simp: record_defs)
next
  case (KeysStep ks)
  with assms have "input_step dr KindKeys index st (dr_keys dr ks s) = (Inr r, s')" by simp
  then show ?thesis using KeysStep by (auto dest: input_record_for [where step = step] simp: record_defs)
qed

definition new_record :: "'s driver \<Rightarrow> nat \<Rightarrow> batch_step \<Rightarrow> exec_state \<times> 's \<Rightarrow> step_record" where
  \<comment> \<open>The record that one turn of the loop adds.\<close>
  "new_record dr index step st =
     (let x = fst st; s = snd st in
      if xs_stopped x then not_run_record step index
      else let ran = run_step dr index (xs_last_seq x) (dr_now dr s) step s
           in case fst ran of
                Inr r \<Rightarrow> r
              | Inl e \<Rightarrow> failed_record step index (dr_now dr (snd ran) - dr_now dr s) (caught_error index e))"

lemma new_record_for:
  "record_for index step (new_record dr index step st)
   \<and> (status_of (new_record dr index step st) = StepNotRun \<longleftrightarrow> xs_stopped (fst st))
   \<and> status_of (new_record dr index step st) \<noteq> StepInterrupted"
proof (cases "xs_stopped (fst st)")
  case True
  then show ?thesis by (simp add: new_record_def not_run_record_def record_for_unreached)
next
  case False
  obtain ran s1 where r: "run_step dr index (xs_last_seq (fst st)) (dr_now dr (snd st)) step (snd st) = (ran, s1)"
    by fastforce
  show ?thesis
  proof (cases ran)
    case (Inl e)
    with r False show ?thesis using record_for_failed by (simp add: new_record_def)
  next
    case (Inr x)
    with r have "record_for index step x \<and> status_of x \<in> {StepCompleted, StepFailed}"
      by (metis run_step_record_for)
    with r False Inr show ?thesis by (auto simp: new_record_def)
  qed
qed

lemma finalize_sel [simp]:
  "xs_stopped (finalize r x) = xs_stopped x" "xs_steps (finalize r x) = xs_steps x @ [r]"
  "xs_last_seq (finalize r x) = xs_last_seq x"
  by (simp_all add: finalize_def)

lemma exec_step_fst:
  "xs_steps (fst (exec_step dr kg index step st)) = xs_steps (fst st) @ [new_record dr index step st]"
  "xs_stopped (fst (exec_step dr kg index step st)) \<longleftrightarrow>
     xs_stopped (fst st) \<or> (status_of (new_record dr index step st) = StepFailed \<and> \<not> kg)"
  using new_record_for [of index step dr st]
  by (auto simp: exec_step_def new_record_def not_run_record_def Let_def split: sum.splits option.splits)

definition counts_ok :: "exec_state \<Rightarrow> bool" where
  "counts_ok x \<longleftrightarrow>
     xs_completed x = length (filter (\<lambda>r. status_of r = StepCompleted) (xs_steps x))
     \<and> xs_failed x = map index_of_record (filter (\<lambda>r. status_of r = StepFailed) (xs_steps x))"

lemma counts_ok_finalize: "counts_ok x \<Longrightarrow> counts_ok (finalize r x)"
  by (auto simp: counts_ok_def finalize_def)

lemma counts_ok_fields [simp]:
  "counts_ok (x\<lparr>xs_last_seq := q\<rparr>) = counts_ok x" "counts_ok (x\<lparr>xs_stopped := b\<rparr>) = counts_ok x"
  by (simp_all add: counts_ok_def)

lemma exec_step_counts: "counts_ok (fst st) \<Longrightarrow> counts_ok (fst (exec_step dr kg index step st))"
  by (auto simp: exec_step_def Let_def counts_ok_finalize split: option.splits)

lemma exec_from_counts: "counts_ok (fst st) \<Longrightarrow> counts_ok (fst (exec_from dr kg index steps st))"
  by (induction steps arbitrary: index st) (simp_all add: exec_step_counts)

lemma exec_from_records:
  "\<exists>rs. xs_steps (fst (exec_from dr kg index steps st)) = xs_steps (fst st) @ rs
     \<and> list_all2 (\<lambda>(i, step) r. record_for i step r \<and> status_of r \<noteq> StepInterrupted) (enumerate index steps) rs"
proof (induction steps arbitrary: index st)
  case (Cons step steps)
  from Cons.IH [of "Suc index" "exec_step dr kg index step st"] new_record_for [of index step dr st]
  show ?case by (force simp: exec_step_fst)
qed simp

text \<open>Once the batch has stopped, the driver is not called again.\<close>

lemma exec_from_stopped:
  "xs_stopped (fst st) \<Longrightarrow>
     snd (exec_from dr kg index steps st) = snd st
     \<and> xs_steps (fst (exec_from dr kg index steps st)) =
         xs_steps (fst st) @ map (\<lambda>(i, t). not_run_record t i) (enumerate index steps)"
proof (induction steps arbitrary: index st)
  case (Cons step steps)
  then have e: "exec_step dr kg index step st = (finalize (not_run_record step index) (fst st), snd st)"
    by (simp add: exec_step_def)
  with Cons.IH [of "exec_step dr kg index step st" "Suc index"] Cons.prems show ?case by simp
qed simp

lemma exec_from_kept_going:
  "\<not> xs_stopped (fst st) \<Longrightarrow> kg \<Longrightarrow>
     \<exists>rs. xs_steps (fst (exec_from dr kg index steps st)) = xs_steps (fst st) @ rs
       \<and> list_all (\<lambda>r. status_of r \<noteq> StepNotRun) rs"
proof (induction steps arbitrary: index st)
  case (Cons step steps)
  then have "\<not> xs_stopped (fst (exec_step dr kg index step st))" by (simp add: exec_step_fst)
  from Cons.IH [OF this Cons.prems(2), of "Suc index"] Cons.prems(1) new_record_for [of index step dr st]
  show ?case by (auto simp: exec_step_fst)
qed simp

lemma exec_from_fail_fast:
  "\<not> xs_stopped (fst st) \<Longrightarrow> \<not> kg \<Longrightarrow>
     \<exists>rs k. xs_steps (fst (exec_from dr kg index steps st)) = xs_steps (fst st) @ rs
       \<and> list_all (\<lambda>r. status_of r = StepCompleted) (take k rs)
       \<and> (k = length steps \<or>
          k < length steps \<and> status_of (rs ! k) = StepFailed
          \<and> drop (Suc k) rs = map (\<lambda>(i, t). not_run_record t i) (enumerate (index + Suc k) (drop (Suc k) steps))
          \<and> snd (exec_from dr kg index steps st) = snd (exec_from dr kg index (take (Suc k) steps) st))"
proof (induction steps arbitrary: index st)
  case Nil
  then show ?case by simp
next
  case (Cons step steps)
  let ?st = "exec_step dr kg index step st" and ?r = "new_record dr index step st"
  have st: "status_of ?r = StepCompleted \<or> status_of ?r = StepFailed"
    using new_record_for [of index step dr st] Cons.prems(1) by (cases "status_of ?r") auto
  show ?case
  proof (cases "status_of ?r = StepFailed")
    case True
    then have "xs_stopped (fst ?st)" using Cons.prems(2) by (simp add: exec_step_fst)
    from exec_from_stopped [OF this, of dr kg "Suc index" steps] True show ?thesis
      by (intro exI [of _ "?r # map (\<lambda>(i, t). not_run_record t i) (enumerate (Suc index) steps)"] exI [of _ 0])
        (simp add: exec_step_fst)
  next
    case False
    then have "\<not> xs_stopped (fst ?st)" using Cons.prems by (simp add: exec_step_fst)
    from Cons.IH [OF this Cons.prems(2), of "Suc index"] obtain rs k where
      rs: "xs_steps (fst (exec_from dr kg (Suc index) steps ?st)) = xs_steps (fst ?st) @ rs"
      and c: "list_all (\<lambda>r. status_of r = StepCompleted) (take k rs)"
      and k: "k = length steps \<or>
          k < length steps \<and> status_of (rs ! k) = StepFailed
          \<and> drop (Suc k) rs = map (\<lambda>(i, t). not_run_record t i) (enumerate (Suc index + Suc k) (drop (Suc k) steps))
          \<and> snd (exec_from dr kg (Suc index) steps ?st) = snd (exec_from dr kg (Suc index) (take (Suc k) steps) ?st)"
      by blast
    from False st rs c k show ?thesis
      by (intro exI [of _ "?r # rs"] exI [of _ "Suc k"]) (auto simp: exec_step_fst)
  qed
qed

lemma unreached_from_records:
  "list_all2 (\<lambda>(i, step) r. record_for i step r) (enumerate index steps) (unreached_from index steps)"
proof (cases steps)
  case (Cons s ss)
  have "list_all2 (\<lambda>(i, step) r. record_for i step r) (enumerate j ts)
      (map (\<lambda>(i, t). unreached_step_record t i StepNotRun) (enumerate j ts))" for j ts
    by (induction ts arbitrary: j) (simp_all add: record_for_unreached)
  with Cons show ?thesis by (simp add: record_for_unreached)
qed simp

lemma enumerate_take_drop:
  "n \<le> length xs \<Longrightarrow> enumerate i xs = take n (enumerate i xs) @ enumerate (i + n) (drop n xs)"
proof (induction n arbitrary: i xs)
  case (Suc n)
  then obtain x ys where "xs = x # ys" "n \<le> length ys" by (cases xs) auto
  with Suc.IH [of ys "Suc i"] show ?case by simp
qed simp

lemma partial_records:
  assumes "list_all2 (\<lambda>(i, step) r. record_for i step r) (enumerate 0 plan) rs"
  shows "list_all2 (\<lambda>(i, step) r. record_for i step r) (enumerate 0 plan)
           (bt_steps (build_partial_batch_result plan (take n rs)))"
proof -
  have len: "length rs = length plan" using list_all2_lengthD [OF assms] by simp
  have take_rs: "take (length (take n rs)) rs = take n rs" by (simp add: min_def)
  have e: "enumerate 0 plan = take (length (take n rs)) (enumerate 0 plan)
      @ enumerate (length (take n rs)) (drop (length (take n rs)) plan)"
    using enumerate_take_drop [of "length (take n rs)" plan 0] len by simp
  show ?thesis
    unfolding build_partial_batch_result_def Let_def batch_result.simps
    by (subst e, rule list_all2_appendI [OF list_all2_takeI [OF assms, of "length (take n rs)", unfolded take_rs]
          unreached_from_records])
qed

text \<open>C14: A batch always returns one record for every step, in the order of the plan, with its index
  and its kind. A record has an error exactly when its step failed, and what a completed step of
  its kind observes when it completed. The count and the list of failures agree with the records.
  Without \<open>keepGoing\<close> the steps before the first failure completed, the ones after it were not run,
  and the driver was not called for them; with it every step runs. What the signal handler makes
  of the first records and the plan has the same shape.\<close>

theorem batch_result_shape:
  "let res = fst (execute_batch dr keepGoing plan s); rs = bt_steps res in
     list_all2 (\<lambda>(i, step) r. record_for i step r \<and> status_of r \<noteq> StepInterrupted) (enumerate 0 plan) rs
     \<and> bt_completed_count res = length (filter (\<lambda>r. status_of r = StepCompleted) rs)
     \<and> bt_failed_indices res = map index_of_record (filter (\<lambda>r. status_of r = StepFailed) rs)
     \<and> (if keepGoing then list_all (\<lambda>r. status_of r \<noteq> StepNotRun) rs
        else \<exists>k. list_all (\<lambda>r. status_of r = StepCompleted) (take k rs)
           \<and> (k = length plan \<or>
              k < length plan \<and> status_of (rs ! k) = StepFailed
              \<and> drop (Suc k) rs = map (\<lambda>(i, t). not_run_record t i) (enumerate (Suc k) (drop (Suc k) plan))
              \<and> snd (execute_batch dr keepGoing plan s) = snd (execute_batch dr keepGoing (take (Suc k) plan) s)))
     \<and> list_all2 (\<lambda>(i, step) r. record_for i step r) (enumerate 0 plan)
         (bt_steps (build_partial_batch_result plan (take n rs)))"
proof -
  let ?st = "exec_from dr keepGoing 0 plan (exec_init, s)"
  have init: "counts_ok exec_init" "xs_steps exec_init = []" "\<not> xs_stopped exec_init"
    by (simp_all add: counts_ok_def exec_init_def)
  from exec_from_records [of dr keepGoing 0 plan "(exec_init, s)"] init(2)
  have records: "list_all2 (\<lambda>(i, step) r. record_for i step r \<and> status_of r \<noteq> StepInterrupted)
      (enumerate 0 plan) (xs_steps (fst ?st))" by simp
  then have "list_all2 (\<lambda>(i, step) r. record_for i step r) (enumerate 0 plan) (xs_steps (fst ?st))"
    by (rule list_all2_mono) auto
  note partial = partial_records [OF this]
  from init(1) have counts: "counts_ok (fst ?st)" by (simp add: exec_from_counts)
  have going: "list_all (\<lambda>r. status_of r \<noteq> StepNotRun) (xs_steps (fst ?st))" if keepGoing
    using exec_from_kept_going [of "(exec_init, s)" keepGoing dr 0 plan] that init by auto
  have fast: "\<exists>k. list_all (\<lambda>r. status_of r = StepCompleted) (take k (xs_steps (fst ?st)))
       \<and> (k = length plan \<or> k < length plan \<and> status_of (xs_steps (fst ?st) ! k) = StepFailed
          \<and> drop (Suc k) (xs_steps (fst ?st)) = map (\<lambda>(i, t). not_run_record t i) (enumerate (Suc k) (drop (Suc k) plan))
          \<and> snd ?st = snd (exec_from dr keepGoing 0 (take (Suc k) plan) (exec_init, s)))"
    if "\<not> keepGoing"
    using exec_from_fail_fast [of "(exec_init, s)" keepGoing dr 0 plan] that init(2,3)
    by (simp only: fst_conv append_Nil add_0) blast
  show ?thesis
    using records counts going fast partial by (simp add: execute_batch_def Let_def counts_ok_def)
qed

section \<open>Waits see the input before them\<close>

text \<open>
  What the executor relies on: the number that an input step returns is the last one of the log at
  that point or a later one, and a wait that matched has seen a screen past its baseline. \<open>nextq\<close> is
  the number that the log gives next.
\<close>

definition answered :: "('s \<Rightarrow> bool) \<Rightarrow> ('s \<Rightarrow> nat) \<Rightarrow> ('a \<Rightarrow> nat) \<Rightarrow> 's \<Rightarrow> 'a res \<times> 's \<Rightarrow> bool" where
  "answered ok nextq seq s out \<longleftrightarrow>
     ok (snd out) \<and> nextq s \<le> nextq (snd out)
     \<and> (\<forall>a. fst out = Inr a \<longrightarrow> nextq s \<le> Suc (seq a) \<and> seq a < nextq (snd out))"

definition waited :: "('s \<Rightarrow> bool) \<Rightarrow> ('s \<Rightarrow> nat) \<Rightarrow> nat option \<Rightarrow> 's \<Rightarrow> render_wait_result res \<times> 's \<Rightarrow> bool" where
  "waited ok nextq baseline s out \<longleftrightarrow>
     ok (snd out) \<and> nextq s \<le> nextq (snd out)
     \<and> (\<forall>r q. fst out = Inr r \<and> rw_matched r \<and> baseline = Some q \<longrightarrow> int q < rw_captured_at r)"

definition sees_input :: "step_record list \<Rightarrow> bool" where
  "sees_input rs \<longleftrightarrow>
     (\<forall>i j q w. i < j \<and> j < length rs \<and> record_seq (rs ! i) = Some q
        \<and> rs ! j = WaitRecord w \<and> br_status w = StepCompleted
        \<longrightarrow> (\<exists>c. wn_captured_at w = Some c \<and> int q < c))"

definition sound_record :: "('s \<Rightarrow> nat) \<Rightarrow> nat option \<Rightarrow> 's \<Rightarrow> 's \<Rightarrow> step_record \<Rightarrow> bool" where
  \<comment> \<open>What a step from \<open>s\<close> to \<open>s'\<close> may record, with its baseline.\<close>
  "sound_record nextq lastq s s' r \<longleftrightarrow>
     (\<forall>q. record_seq r = Some q \<longrightarrow> nextq s \<le> Suc q \<and> q < nextq s')
     \<and> (\<forall>w q. r = WaitRecord w \<and> br_status w = StepCompleted \<and> lastq = Some q
         \<longrightarrow> (\<exists>c. wn_captured_at w = Some c \<and> int q < c))"

locale step_driver =
  fixes dr :: "'s driver" and ok :: "'s \<Rightarrow> bool" and nextq :: "'s \<Rightarrow> nat"
  assumes type_law: "ok s \<Longrightarrow> answered ok nextq id s (dr_type dr t s)"
    and paste_law: "ok s \<Longrightarrow> answered ok nextq id s (dr_paste dr t s)"
    and keys_law: "ok s \<Longrightarrow> answered ok nextq id s (dr_keys dr ks s)"
    and mouse_law: "ok s \<Longrightarrow> answered ok nextq mu_seq s (dr_mouse dr e s)"
    and run_law: "ok s \<Longrightarrow> answered ok nextq rr_seq s (dr_run dr c noWait limit s)"
    and wait_law: "ok s \<Longrightarrow> waited ok nextq b s (dr_wait dr cond b limit s)"
    and commandable_law: "ok s \<Longrightarrow>
      ok (snd (dr_commandable dr s)) \<and> nextq s \<le> nextq (snd (dr_commandable dr s))"
begin

lemma input_step_law:
  assumes "answered ok nextq id s a"
  shows "let out = input_step dr kind index start a
    in ok (snd out) \<and> nextq s \<le> nextq (snd out)
       \<and> (\<forall>r. fst out = Inr r \<longrightarrow> sound_record nextq lastq s (snd out) r)"
  using assms
  by (auto simp: input_step_def answered_def sound_record_def step_base.defs
      split: prod.splits sum.splits)

lemma run_wait_law:
  assumes "ok s"
  shows "let out = run_wait_step dr c t index lastq start s
    in ok (snd out) \<and> nextq s \<le> nextq (snd out)
       \<and> (\<forall>r. fst out = Inr r \<longrightarrow> sound_record nextq lastq s (snd out) r)"
proof -
  obtain a s1 where a: "dr_commandable dr s = (a, s1)" by (meson surj_pair)
  obtain b s2 where b: "dr_wait dr c lastq t s1 = (b, s2)" by (meson surj_pair)
  obtain u s3 where u: "dr_commandable dr s2 = (u, s3)" by (meson surj_pair)
  from commandable_law [OF assms] a have s1: "ok s1" "nextq s \<le> nextq s1" by simp_all
  from wait_law [OF s1(1), of lastq c t] b have s2: "ok s2" "nextq s1 \<le> nextq s2"
    and m: "\<And>r q. b = Inr r \<Longrightarrow> rw_matched r \<Longrightarrow> lastq = Some q \<Longrightarrow> int q < rw_captured_at r"
    by (simp_all add: waited_def)
  from commandable_law [OF s2(1)] u have s3: "ok s3" "nextq s2 \<le> nextq s3" by simp_all
  have sound: "sound_record nextq lastq s s' (observed_wait lastq r (base_record index d st err))"
    if "b = Inr r" "rw_matched r \<or> st \<noteq> StepCompleted" for s' r d st err
    using that m by (auto simp: sound_record_def observed_wait_def record_defs)
  show ?thesis
  proof (cases a)
    case (Inl e)
    with a s1 show ?thesis by (simp add: run_wait_step_eqs(1))
  next
    case a': (Inr v)
    show ?thesis
    proof (cases b)
      case (Inl e)
      with a a' b s1 s2 show ?thesis by (simp add: run_wait_step_eqs(2))
    next
      case b': (Inr r)
      note w = a [unfolded a'] b [unfolded b']
      show ?thesis
      proof (cases "rw_timed_out r \<or> \<not> rw_matched r")
        case True
        from run_wait_step_eqs(3) [OF w this] s1 s2 sound [OF b'] show ?thesis by simp
      next
        case False
        then have f: "rw_matched r" "\<not> rw_timed_out r" by simp_all
        show ?thesis
        proof (cases u)
          case (Inl e)
          from run_wait_step_eqs(5) [OF w f u [unfolded Inl]] s1 s2 s3 sound [OF b'] show ?thesis
            by (cases e) simp_all
        next
          case (Inr v)
          from run_wait_step_eqs(4) [OF w f u [unfolded Inr]] s1 s2 s3 f sound [OF b'] show ?thesis
            by simp
        qed
      qed
    qed
  qed
qed

lemma run_step_law:
  assumes "ok s"
  shows "let out = run_step dr index lastq start step s
    in ok (snd out) \<and> nextq s \<le> nextq (snd out)
       \<and> (\<forall>r. fst out = Inr r \<longrightarrow> sound_record nextq lastq s (snd out) r)"
proof (cases step)
  case (MouseStep e)
  with mouse_law [OF assms, of e] show ?thesis
    by (auto simp: answered_def sound_record_def step_base.defs split: prod.splits sum.splits)
next
  case (RunStep c noWait t)
  with run_law [OF assms, of c noWait t] show ?thesis
    by (auto simp: answered_def sound_record_def run_run_step_def Let_def step_base.defs
        split: prod.splits sum.splits)
next
  case (WaitStep c t)
  with run_wait_law [OF assms] show ?thesis by simp
next
  case (TypeStep t)
  with input_step_law [OF type_law [OF assms]] show ?thesis by simp
next
  case (PasteStep t)
  with input_step_law [OF paste_law [OF assms]] show ?thesis by simp
next
  case (KeysStep ks)
  with input_step_law [OF keys_law [OF assms]] show ?thesis by simp
qed

definition exec_ok :: "exec_state \<Rightarrow> 's \<Rightarrow> bool" where
  "exec_ok x s \<longleftrightarrow> ok s \<and> sees_input (xs_steps x)
     \<and> (\<forall>r \<in> set (xs_steps x). \<forall>q. record_seq r = Some q \<longrightarrow>
          q < nextq s \<and> (\<exists>p. xs_last_seq x = Some p \<and> q \<le> p))"

lemma sees_input_snoc:
  assumes "sees_input rs" and "\<And>i q w. i < length rs \<Longrightarrow> record_seq (rs ! i) = Some q \<Longrightarrow>
    r = WaitRecord w \<Longrightarrow> br_status w = StepCompleted \<Longrightarrow> \<exists>c. wn_captured_at w = Some c \<and> int q < c"
  shows "sees_input (rs @ [r])"
  unfolding sees_input_def
proof (intro allI impI)
  fix i j q w
  assume h: "i < j \<and> j < length (rs @ [r]) \<and> record_seq ((rs @ [r]) ! i) = Some q
      \<and> (rs @ [r]) ! j = WaitRecord w \<and> br_status w = StepCompleted"
  show "\<exists>c. wn_captured_at w = Some c \<and> int q < c"
  proof (cases "j < length rs")
    case True
    with h have "i < length rs" by simp
    with h True have "i < j \<and> j < length rs \<and> record_seq (rs ! i) = Some q
        \<and> rs ! j = WaitRecord w \<and> br_status w = StepCompleted" by (simp add: nth_append)
    with assms(1) show ?thesis unfolding sees_input_def by blast
  next
    case False
    with h have "j = length rs" "i < length rs" by simp_all
    with h assms(2) [of i q w] show ?thesis by (simp add: nth_append)
  qed
qed

lemma record_seq_unreached [simp]:
  "record_seq (unreached_step_record step index status) = None"
  "record_seq (failed_record step index d err) = None"
  by (cases step; simp add: unreached_step_record_def failed_record_def step_base.defs)+

lemma failed_wait_record:
  "failed_record step index d err = WaitRecord w \<Longrightarrow> br_status w = StepFailed"
  "unreached_step_record step index st = WaitRecord w \<Longrightarrow> br_status w = st"
  by (cases step; auto simp: failed_record_def unreached_step_record_def record_defs)+

lemma sound_failed:
  "sound_record nextq lastq s s' (failed_record step index d err)"
  "sound_record nextq lastq s s' (not_run_record step index)"
  by (auto simp: sound_record_def not_run_record_def dest: failed_wait_record)

lemma exec_ok_finalize:
  assumes "exec_ok x s" and "ok s'" and "nextq s \<le> nextq s'"
    and "sound_record nextq (xs_last_seq x) s s' r"
  shows "exec_ok (finalize r (case record_seq r of None \<Rightarrow> x | Some q \<Rightarrow> x\<lparr>xs_last_seq := Some q\<rparr>)) s'"
proof -
  let ?x = "case record_seq r of None \<Rightarrow> x | Some q \<Rightarrow> x\<lparr>xs_last_seq := Some q\<rparr>"
  have steps: "xs_steps ?x = xs_steps x" by (simp split: option.splits)
  have seqs: "q < nextq s \<and> (\<exists>p. xs_last_seq x = Some p \<and> q \<le> p)"
    if "r' \<in> set (xs_steps x)" "record_seq r' = Some q" for r' q
    using assms(1) that by (simp add: exec_ok_def)
  have "sees_input (xs_steps x @ [r])"
  proof (rule sees_input_snoc)
    show "sees_input (xs_steps x)" using assms(1) by (simp add: exec_ok_def)
    fix i q w
    assume i: "i < length (xs_steps x)" "record_seq (xs_steps x ! i) = Some q"
      and w: "r = WaitRecord w" "br_status w = StepCompleted"
    from seqs [OF nth_mem [OF i(1)] i(2)] obtain p where "xs_last_seq x = Some p" "q \<le> p" by blast
    with assms(4) w show "\<exists>c. wn_captured_at w = Some c \<and> int q < c"
      unfolding sound_record_def by fastforce
  qed
  moreover have "q < nextq s' \<and> (\<exists>p. xs_last_seq ?x = Some p \<and> q \<le> p)"
    if "r' \<in> set (xs_steps x @ [r])" "record_seq r' = Some q" for r' q
  proof (cases "r' = r")
    case True
    with that assms(4) show ?thesis by (simp add: sound_record_def)
  next
    case False
    with that have old: "r' \<in> set (xs_steps x)" by simp
    from seqs [OF old that(2)] assms(3,4) show ?thesis
      by (cases "record_seq r") (auto simp: sound_record_def)
  qed
  ultimately show ?thesis using assms(2) by (simp add: exec_ok_def steps)
qed

lemma exec_step_law:
  assumes "exec_ok (fst st) (snd st)"
  shows "let st' = exec_step dr kg index step st in exec_ok (fst st') (snd st')"
proof (cases "xs_stopped (fst st)")
  case True
  from exec_ok_finalize [OF assms _ order_refl sound_failed(2), of step index] assms True
  show ?thesis by (simp add: exec_step_def not_run_record_def exec_ok_def)
next
  case False
  let ?x = "fst st" and ?s = "snd st"
  obtain ran s1 where ran: "run_step dr index (xs_last_seq ?x) (dr_now dr ?s) step ?s = (ran, s1)"
    by (meson surj_pair)
  let ?r = "case ran of Inr r \<Rightarrow> r
    | Inl e \<Rightarrow> failed_record step index (dr_now dr s1 - dr_now dr ?s) (caught_error index e)"
  have "ok ?s" using assms by (simp add: exec_ok_def)
  from run_step_law [OF this, of index "xs_last_seq ?x" "dr_now dr ?s" step] ran
  have s1: "ok s1" "nextq ?s \<le> nextq s1" and r: "sound_record nextq (xs_last_seq ?x) ?s s1 ?r"
    by (auto simp: Let_def sound_failed split: sum.splits)
  from exec_ok_finalize [OF assms s1 r]
  have "exec_ok (finalize ?r (case record_seq ?r of None \<Rightarrow> ?x | Some q \<Rightarrow> ?x\<lparr>xs_last_seq := Some q\<rparr>)) s1" .
  moreover have "exec_ok (x\<lparr>xs_stopped := b\<rparr>) s = exec_ok x s" for x b s
    by (simp add: exec_ok_def)
  ultimately show ?thesis using False ran by (cases ran) (simp_all add: exec_step_def Let_def)
qed

lemma exec_from_law:
  "exec_ok (fst st) (snd st) \<Longrightarrow>
     let st' = exec_from dr kg index steps st in exec_ok (fst st') (snd st')"
proof (induction steps arbitrary: index st)
  case (Cons step steps)
  from exec_step_law [OF Cons.prems] have "exec_ok (fst (exec_step dr kg index step st))
      (snd (exec_step dr kg index step st))" by (simp add: Let_def)
  from Cons.IH [OF this] show ?case by simp
qed (simp add: Let_def)

lemma batch_sees_input:
  assumes "ok s"
  shows "sees_input (bt_steps (fst (execute_batch dr kg plan s)))"
proof -
  have "exec_ok exec_init s" using assms by (simp add: exec_ok_def exec_init_def sees_input_def)
  with exec_from_law [of "(exec_init, s)" kg 0 plan] show ?thesis
    by (simp add: execute_batch_def Let_def exec_ok_def)
qed

end

end
