(* ===== verification/BatchOnHost.thy ===== *)
theory BatchOnHost
  imports HostRequests BatchExecutor
begin

text \<open>
  The Batch executor on the host: each verb of the driver is one request to the host's handlers,
  while the program prints, other clients send requests and replies get lost. What comes from
  outside is a list of turns, one for each request, and the renderer's screens are part of the
  turns. The executor's interface is interpreted on this driver, which ties the Wait Baseline of
  the batch to the sequence numbers of the log.
\<close>

section \<open>Waiting for a screen\<close>

record poll_input =
  pl_before :: "host_happening list"      \<comment> \<open>until the replay input is loaded\<close>
  pl_during :: "host_happening list"      \<comment> \<open>while the backend replays and takes the snapshot\<close>
  pl_elapsed :: nat
  pl_screen :: "js_error + jstring list \<times> nat \<times> nat"   \<comment> \<open>the visible lines and the cursor\<close>

definition happen_all :: "host_happening list \<Rightarrow> host_core \<Rightarrow> host_core" where
  "happen_all evs h = fold happen evs h"

definition load_target :: "host_core \<Rightarrow> int" where
  \<comment> \<open>\<open>loadReplayInput().targetSeq\<close>\<close>
  "load_target h = int (length (history h)) - 1"

fun poll_host ::
  "prepared_condition \<Rightarrow> poll_input list \<Rightarrow> int \<Rightarrow> wait_state \<Rightarrow> host_core \<Rightarrow> poll_outcome \<times> host_core" where
  "poll_host c [] now w h = (Polling w, h)"
| "poll_host c (p # ps) now w h =
     (let h1 = happen_all (pl_before p) h;
          h2 = happen_all (pl_during p) h1;
          now1 = now + int (pl_elapsed p);
          polled = (case pl_screen p of
                      Inl e \<Rightarrow> Inl e
                    | Inr (visible, row, col) \<Rightarrow>
                        Inr \<lparr>sn_visible_lines = visible, sn_cursor_row = row, sn_cursor_col = col,
                             sn_captured_at = load_target h1\<rparr>)
      in case poll_step c now1 polled w of
           Polling w1 \<Rightarrow> poll_host c ps now1 w1 h2
         | out \<Rightarrow> (out, h2))"

definition handle_wait_for_render ::
  "(jstring \<Rightarrow> jstring + regex_exec) \<Rightarrow> (snapshot \<Rightarrow> jstring) \<Rightarrow> wait_condition \<Rightarrow> int option
     \<Rightarrow> poll_input list \<Rightarrow> int \<Rightarrow> host_core \<Rightarrow> render_wait_result option res \<times> host_core" where
  \<comment> \<open>The \<open>RegExp\<close> constructor and the screen hash, the parameters, the polls until the wait ends,
     and the clock; \<open>None\<close> while a wait without a timeout still runs.\<close>
  "handle_wait_for_render compile hash wait timeoutMs polls now h =
     (case prepare_condition compile wait of
        Inl e \<Rightarrow> (Inl e, h)
      | Inr c \<Rightarrow>
          if \<not> (case timeoutMs of None \<Rightarrow> True | Some n \<Rightarrow> 0 < n)
          then (Inl (Assertion (js ''timeoutMs must be a positive integer'')), h)
          else
            (case poll_host c polls now (start_wait now) h of
               (Resolved r, h1) \<Rightarrow>
                 (Inr (Some \<lparr>rw_matched = True, rw_timed_out = False, rw_matched_text = wr_matched_text r,
                             rw_captured_at = sn_captured_at (wr_snapshot r),
                             rw_screen_hash = Some (hash (wr_snapshot r)), rw_stop = None\<rparr>), h1)
             | (Rejected e, h1) \<Rightarrow> (Inl e, h1)
             | (Polling w, h1) \<Rightarrow>
                 (if timeoutMs = None then (Inr None, h1)
                  else (Inr (Some \<lparr>rw_matched = False, rw_timed_out = True, rw_matched_text = None,
                                  rw_captured_at = load_target h1, rw_screen_hash = None,
                                  rw_stop = get_stop (fst (hc_log h1))\<rparr>), h1))))"

section \<open>The driver\<close>

record turn =
  tn_before :: "host_happening list"       \<comment> \<open>until the handler runs\<close>
  tn_after :: "host_happening list"        \<comment> \<open>until it replies\<close>
  tn_reached :: bool                       \<comment> \<open>the request reached the host\<close>
  tn_lost :: "js_error option"             \<comment> \<open>what the caller gets instead of the reply\<close>
  tn_elapsed :: nat
  tn_uuid :: jstring
  tn_tokens :: "jstring list"
  tn_renderer :: jstring
  tn_encoder :: "event_record list \<Rightarrow> mouse_encoder"
  tn_loads :: "int list"
  tn_polls :: "poll_input list"

record batch_world =
  bw_host :: host_core
  bw_now :: int
  bw_turns :: "turn list"
  bw_checks :: "(host_happening list \<times> unit res) list"   \<comment> \<open>for \<open>assertCommandable\<close>\<close>

definition unreachable_host :: js_error where
  "unreachable_host = Cli HOST_UNREACHABLE (js ''Session host is not reachable.'')"

definition send_request ::
  "(turn \<Rightarrow> int \<Rightarrow> host_core \<Rightarrow> 'a res \<times> host_core) \<Rightarrow> batch_world \<Rightarrow> 'a res \<times> batch_world" where
  \<comment> \<open>\<open>sendRpc\<close> of one method: the host moves before the handler, and the reply can be lost.\<close>
  "send_request handler w =
     (case bw_turns w of
        [] \<Rightarrow> (Inl unreachable_host, w)
      | t # ts \<Rightarrow>
          let h1 = happen_all (tn_before t) (bw_host w);
              (answer, h2) = (if tn_reached t then handler t (bw_now w) h1 else (Inl unreachable_host, h1))
          in (case tn_lost t of None \<Rightarrow> answer | Some e \<Rightarrow> Inl e,
              w\<lparr>bw_host := h2, bw_turns := ts, bw_now := bw_now w + int (tn_elapsed t)\<rparr>))"

definition then_happen :: "turn \<Rightarrow> 'a res \<times> host_core \<Rightarrow> 'a res \<times> host_core" where
  "then_happen t r = (fst r, happen_all (tn_after t) (snd r))"

definition finish_run :: "nat \<Rightarrow> jstring \<Rightarrow> host_core \<Rightarrow> run_result res \<times> host_core" where
  \<comment> \<open>How the \<open>run\<close> handler ends once its wait has; a wait that has not settled timed out.\<close>
  "finish_run seq marker h =
     (case settled_run marker h of
        Some (RunCompleted q) \<Rightarrow>
          (Inr \<lparr>rr_seq = seq, rr_completed = Some True, rr_timed_out = Some False\<rparr>, h)
      | Some RunExited \<Rightarrow>
          (Inr \<lparr>rr_seq = seq, rr_completed = Some False, rr_timed_out = Some False\<rparr>, h)
      | Some (RunRejected e) \<Rightarrow> (Inl e, h)
      | None \<Rightarrow>
          (Inr \<lparr>rr_seq = seq, rr_completed = Some False, rr_timed_out = Some True\<rparr>,
           h\<lparr>hc_co := forget_waiter (hc_co h) marker\<rparr>))"

definition run_on_host :: "jstring \<Rightarrow> bool \<Rightarrow> int option \<Rightarrow> turn \<Rightarrow> host_core \<Rightarrow> run_result res \<times> host_core" where
  "run_on_host command noWait timeoutMs t h =
     (if noWait then
        (case then_happen t (handle_run_no_wait command None h) of
           (Inl e, h1) \<Rightarrow> (Inl e, h1)
         | (Inr seq, h1) \<Rightarrow> (Inr \<lparr>rr_seq = seq, rr_completed = None, rr_timed_out = None\<rparr>, h1))
      else
        (case then_happen t (start_waited_run command timeoutMs (tn_uuid t) (tn_tokens t) h) of
           (Inl e, h1) \<Rightarrow> (Inl e, h1)
         | (Inr None, h1) \<Rightarrow> (Inl unreachable_host, h1)
         | (Inr (Some (seq, marker)), h1) \<Rightarrow> finish_run seq marker h1))"

definition mouse_on_host :: "mouse_input \<Rightarrow> turn \<Rightarrow> host_core \<Rightarrow> mouse_result res \<times> host_core" where
  "mouse_on_host e t h =
     (case then_happen t (handle_mouse (tn_renderer t) True (tn_encoder t) (js ''libghostty-vt'')
             (load_target h) (tn_loads t) e h) of
        (Inl err, h1) \<Rightarrow> (Inl err, h1)
      | (Inr None, h1) \<Rightarrow> (Inl unreachable_host, h1)
      | (Inr (Some (reported, bytes, seq)), h1) \<Rightarrow>
          (Inr \<lparr>mu_reported = reported, mu_bytes_written = bytes, mu_seq = seq\<rparr>, h1))"

definition keys_on_host :: "jstring list \<Rightarrow> turn \<Rightarrow> host_core \<Rightarrow> nat res \<times> host_core" where
  "keys_on_host ks t h =
     (case then_happen t (handle_send_keys ks h) of
        (Inl e, h1) \<Rightarrow> (Inl e, h1)
      | (Inr (accepted, bytes, seq), h1) \<Rightarrow> (Inr seq, h1))"

definition build_wait_params :: "prepared_condition \<Rightarrow> nat option \<Rightarrow> wait_condition" where
  \<comment> \<open>The condition without its compiled expression, with the Wait Baseline.\<close>
  "build_wait_params c afterSeq =
     (wait_condition.truncate c)\<lparr>wc_after_seq := map_option int afterSeq\<rparr>"

definition wait_on_host ::
  "(jstring \<Rightarrow> jstring + regex_exec) \<Rightarrow> (snapshot \<Rightarrow> jstring) \<Rightarrow> prepared_condition \<Rightarrow> nat option
     \<Rightarrow> int option \<Rightarrow> turn \<Rightarrow> int \<Rightarrow> host_core \<Rightarrow> render_wait_result res \<times> host_core" where
  "wait_on_host compile hash c afterSeq timeoutMs t now h =
     (case handle_wait_for_render compile hash (build_wait_params c afterSeq) timeoutMs (tn_polls t) now h of
        (Inl e, h1) \<Rightarrow> (Inl e, h1)
      | (Inr None, h1) \<Rightarrow> (Inl unreachable_host, h1)
      | (Inr (Some r), h1) \<Rightarrow> (Inr r, h1))"

definition check_commandable :: "batch_world \<Rightarrow> unit res \<times> batch_world" where
  "check_commandable w =
     (case bw_checks w of
        [] \<Rightarrow> (Inr (), w)
      | (evs, r) # cs \<Rightarrow> (r, w\<lparr>bw_host := happen_all evs (bw_host w), bw_checks := cs\<rparr>))"

definition host_driver ::
  "(jstring \<Rightarrow> jstring + regex_exec) \<Rightarrow> (snapshot \<Rightarrow> jstring) \<Rightarrow> batch_world driver" where
  \<comment> \<open>\<open>createRpcStepDriver\<close> in front of the handlers of the host.\<close>
  "host_driver compile hash =
     \<lparr>dr_now = bw_now,
      dr_type = (\<lambda>x. send_request (\<lambda>t now h. then_happen t (handle_type x h))),
      dr_paste = (\<lambda>x. send_request (\<lambda>t now h. then_happen t (handle_paste x h))),
      dr_keys = (\<lambda>ks. send_request (\<lambda>t now h. keys_on_host ks t h)),
      dr_mouse = (\<lambda>e. send_request (\<lambda>t now h. mouse_on_host e t h)),
      dr_run = (\<lambda>c noWait limit. send_request (\<lambda>t now h. run_on_host c noWait limit t h)),
      dr_wait = (\<lambda>c afterSeq limit. send_request (wait_on_host compile hash c afterSeq limit)),
      dr_commandable = check_commandable\<rparr>"

section \<open>The log only grows\<close>

definition onward :: "host_core \<Rightarrow> host_core \<Rightarrow> bool" where
  "onward h h' \<longleftrightarrow> (log_ready (hc_log h) \<longrightarrow>
     log_ready (hc_log h') \<and> length (history h) \<le> length (history h'))"

lemma onward_refl [simp]: "onward h h"
  by (simp add: onward_def)

lemma onward_trans: "onward h h1 \<Longrightarrow> onward h1 h2 \<Longrightarrow> onward h h2"
  by (auto simp: onward_def)

lemma onward_fields [simp]:
  "onward h (h'\<lparr>hc_session := s\<rparr>) = onward h h'" "onward h (h'\<lparr>hc_co := co\<rparr>) = onward h h'"
  "onward h (h'\<lparr>hc_held := bs\<rparr>) = onward h h'" "onward h (write_pty d h') = onward h h'"
  "onward (h\<lparr>hc_session := s\<rparr>) h' = onward h h'" "onward (write_pty d h) h' = onward h h'"
  by (simp_all add: onward_def write_pty_def)

lemma onward_quietly:
  "quietly (hc_log h) lc \<Longrightarrow> hc_log h' = lc \<Longrightarrow> onward h h'"
  by (auto simp: quietly_def onward_def history_def get_events_def dest: prefix_length_le)

lemma append_event_onward: "onward h (snd (append_event p h))"
proof (cases "clocked_append (hc_log h) p")
  case (Inr x)
  obtain q lc where "x = (q, lc)" by (meson surj_pair)
  with Inr log_ready_append [of "hc_log h" p q lc] clocked_append_grows [of "hc_log h" p q lc] show ?thesis
    by (auto simp: append_event_def onward_def history_def get_events_def dest: prefix_length_le)
qed (simp add: append_event_def)

definition answers :: "('a \<Rightarrow> nat option) \<Rightarrow> host_core \<Rightarrow> 'a res \<times> host_core \<Rightarrow> bool" where
  \<comment> \<open>A reply that carries a number carries the last one of the log, or a later one.\<close>
  "answers seq h out \<longleftrightarrow> onward h (snd out)
     \<and> (\<forall>a q. log_ready (hc_log h) \<and> fst out = Inr a \<and> seq a = Some q \<longrightarrow>
          length (history h) \<le> Suc q \<and> q < length (history (snd out)))"

lemma answers_Inl: "onward h h' \<Longrightarrow> answers seq h (Inl e, h')"
  by (simp add: answers_def)

lemma answers_none: "onward h h' \<Longrightarrow> seq a = None \<Longrightarrow> answers seq h (Inr a, h')"
  by (simp add: answers_def)

lemma append_event_answers: "answers Some h (append_event p h)"
proof (cases "clocked_append (hc_log h) p")
  case (Inl e)
  then show ?thesis by (simp add: append_event_def answers_Inl)
next
  case (Inr x)
  obtain q lc where "x = (q, lc)" by (meson surj_pair)
  with Inr append_event_onward [of h p] clocked_append_grows [of "hc_log h" p q lc] show ?thesis
    by (auto simp: answers_def append_event_def history_def get_events_def dest: prefix_length_le)
qed

lemma answers_write: "answers seq (write_pty d h) out = answers seq h out"
  by (simp add: answers_def onward_def write_pty_def)

lemma answers_if_commandable: "answers seq h out \<Longrightarrow> answers seq h (if_commandable h out)"
  by (simp add: if_commandable_def answers_Inl split: sum.split)

lemma answers_later:
  assumes "answers seq h out" and "onward (snd out) h'" 
  shows "answers seq h (fst out, h')"
  using assms by (fastforce simp: answers_def onward_def)

lemma answers_map:
  assumes "answers seq h out" and "\<And>a. seq' (f a) = seq a"
  shows "answers seq' h (case out of (Inl e, h1) \<Rightarrow> (Inl e, h1) | (Inr a, h1) \<Rightarrow> (Inr (f a), h1))"
  using assms by (cases out; cases "fst out") (auto simp: answers_def)

lemma append_written: "answers Some h (append_event p (write_pty d h))"
  using append_event_answers [of "write_pty d h" p] by (simp add: answers_write)

lemma handle_type_answers: "answers Some h (handle_type t h)"
  unfolding handle_type_def by (intro answers_if_commandable append_written)

lemma handle_mark_answers: "answers Some h (handle_mark t h)"
  unfolding handle_mark_def by (intro answers_if_commandable append_event_answers)

lemma handle_paste_answers: "answers Some h (handle_paste t h)"
  unfolding handle_paste_def
  by (intro answers_if_commandable) (simp add: answers_Inl append_written split: sum.split)

lemma handle_send_keys_answers: "answers (\<lambda>(ks, n, q). Some q) h (handle_send_keys ks h)"
  unfolding handle_send_keys_def
  by (intro answers_if_commandable)
    (simp add: answers_Inl answers_map [OF append_written] split: sum.split)

lemma handle_run_no_wait_answers: "answers Some h (handle_run_no_wait c t h)"
  unfolding handle_run_no_wait_def
  by (intro answers_if_commandable) (simp add: answers_Inl append_written split: sum.split)

lemma start_waited_run_answers:
  "answers (map_option fst) h (start_waited_run c t hex tokens h)"
proof -
  have "answers (map_option fst) h (case append_event p h of
      (Inl e, h1) \<Rightarrow> (Inl e, h1)
    | (Inr seq, h1) \<Rightarrow>
       (case register_waited_run (hc_co h1) seq m tokens of
          Inl e \<Rightarrow> (Inl e, h1)
        | Inr None \<Rightarrow> (Inr None, h1)
        | Inr (Some ((postamble, sentinel), co)) \<Rightarrow>
            (Inr (Some (seq, m)), write_pty (c @ [10] @ postamble) (h1\<lparr>hc_co := co\<rparr>))))" for p m
  proof -
    obtain a h1 where a: "append_event p h = (a, h1)" by (meson surj_pair)
    with append_event_answers [of h p] have ans: "answers Some h (a, h1)" by simp
    show ?thesis
    proof (cases a)
      case (Inl e)
      with a ans show ?thesis by (simp add: answers_def)
    next
      case (Inr q)
      with a ans show ?thesis
        by (auto simp: answers_def write_pty_def onward_def split: sum.split option.split prod.split)
    qed
  qed
  then show ?thesis
    unfolding start_waited_run_def
    by (intro answers_if_commandable) (simp add: answers_Inl split: sum.split)
qed

lemma mouse_step_answers:
  "let out = mouse_step enc backend e g write_pty append_event held h
   in answers (\<lambda>(bytes, q). Some q) h (fst out, snd (snd out))"
proof -
  have app: "answers (\<lambda>(bytes, q). Some q) h
      (case append_event p h of (Inl err, s2) \<Rightarrow> (Inl err, s2) | (Inr q, s2) \<Rightarrow> (Inr (bs, q), s2))"
    "answers (\<lambda>(bytes, q). Some q) h
      (case append_event p (write_pty d h) of
         (Inl err, s2) \<Rightarrow> (Inl err, s2) | (Inr q, s2) \<Rightarrow> (Inr (bs, q), s2))"
    for p bs d
    by (rule answers_map [OF append_event_answers] answers_map [OF append_written], simp)+
  have eq: "(fst (case x of (Inl err, s2) \<Rightarrow> (Inl err, k, s2) | (Inr q, s2) \<Rightarrow> (Inr (bs, q), k, s2)),
       snd (snd (case x of (Inl err, s2) \<Rightarrow> (Inl err, k, s2) | (Inr q, s2) \<Rightarrow> (Inr (bs, q), k, s2))))
     = (case x of (Inl err, s2) \<Rightarrow> (Inl err, s2) | (Inr q, s2) \<Rightarrow> (Inr (bs, q), s2))"
    for x :: "nat res \<times> host_core" and bs :: "nat list" and k :: "mouse_button list"
    by (cases x; cases "fst x") auto
  show ?thesis
    unfolding mouse_step_def Let_def
    by (simp add: eq answers_Inl app split: sum.split)
qed

lemma handle_mouse_answers:
  "answers (\<lambda>a. map_option (\<lambda>(b, n, q). q) a) h (handle_mouse name ok enc backend applied loads e h)"
proof -
  have "answers (\<lambda>a. map_option (\<lambda>(b, n, q). q) a) h
      (case x of (Inl err, held, h1) \<Rightarrow> (Inl err, h1\<lparr>hc_held := held\<rparr>)
        | (Inr (bs, q), held, h1) \<Rightarrow> (Inr (Some (bs \<noteq> [], length bs, q)), h1\<lparr>hc_held := held\<rparr>))"
    if "answers (\<lambda>(bs, q). Some q) h (fst x, snd (snd x))"
    for x :: "(nat list \<times> nat) res \<times> mouse_button list \<times> host_core"
    using that by (cases x; cases "fst x") (auto simp: answers_def)
  then show ?thesis
    unfolding handle_mouse_def
    using mouse_step_answers [unfolded Let_def]
    by (simp add: answers_Inl answers_none split: sum.split option.split)
qed

lemma answers_onward: "answers seq h out \<Longrightarrow> onward h (snd out)"
  by (simp add: answers_def)

lemma onward_if_commandable: "onward h (snd out) \<Longrightarrow> onward h (snd (if_commandable h out))"
  by (simp add: if_commandable_def split: sum.split)

lemma happen_onward: "onward h (happen ev h)"
proof (cases ev)
  case (SignalRequest sig alive killed)
  have "onward h (snd (handle_signal sig alive killed h))"
    unfolding handle_signal_def
    by (intro onward_if_commandable) (simp add: snd_answer append_event_onward split: option.split)
  with SignalRequest show ?thesis by simp
next
  case (ResizeRequest now cols rows)
  have "onward h (snd (append_event p (h\<lparr>hc_session := s\<rparr>)))" for p s
    using append_event_onward [of "h\<lparr>hc_session := s\<rparr>" p] by simp
  then have "onward h (snd (handle_resize_request now cols rows h))"
    unfolding handle_resize_request_def
    by (intro onward_if_commandable) (simp add: snd_answer split: sum.split)
  with ResizeRequest show ?thesis by simp
next
  case (PtyOutput d)
  have "onward h (pty_output d h)"
    by (rule onward_quietly [OF _ refl])
      (auto simp: pty_output_def ingest_pty_data_def split: sum.splits prod.splits dest: quietly_pieces)
  with PtyOutput show ?thesis by simp
next
  case PtyFlush
  have flushed: "quietly lc lc'" if "append_flushed_echo_output clocked_append co lc = (co', lc', err)" for co lc co' lc' err
    using that by (auto simp: append_flushed_echo_output_def split: sum.splits prod.splits intro: quietly_output)
  have "quietly (hc_log h) (hc_log (pty_flush h))"
    by (auto simp: pty_flush_def flush_pty_data_on_exit_def split: sum.splits prod.splits option.splits
        dest: quietly_pieces flushed intro: quietly_trans)
  with PtyFlush show ?thesis using onward_quietly by simp
next
  case (ProgramExit now code sg)
  let ?h1 = "if s_status (hc_session h) = Destroying then h
     else case record_exit now (Some code) sg (hc_session h) of Inl e \<Rightarrow> h | Inr r \<Rightarrow> h\<lparr>hc_session := r\<rparr>"
  have "onward h ?h1" by (simp split: sum.split)
  then have "onward h (snd (append_event (Exit (Some code) sg) ?h1))"
    using append_event_onward onward_trans by blast
  then have "onward h (program_exit now code sg h)" unfolding program_exit_def Let_def by simp
  with ProgramExit show ?thesis by simp
qed (simp_all add: answers_onward [OF handle_type_answers] answers_onward [OF handle_mark_answers]
  answers_onward [OF handle_paste_answers] answers_onward [OF handle_send_keys_answers]
  answers_onward [OF handle_run_no_wait_answers] answers_onward [OF start_waited_run_answers]
  answers_onward [OF handle_mouse_answers] destroy_request_def split: sum.split)

lemma happen_all_onward: "onward h (happen_all evs h)"
  unfolding happen_all_def
proof (induction evs arbitrary: h)
  case (Cons ev evs)
  show ?case using onward_trans [OF happen_onward Cons.IH] by simp
qed simp

section \<open>The driver keeps the promises of the executor's interface\<close>

lemma then_happen_answers: "answers seq h out \<Longrightarrow> answers seq h (then_happen t out)"
  unfolding then_happen_def by (rule answers_later) (simp_all add: happen_all_onward)

lemma keys_on_host_answers: "answers Some h (keys_on_host ks t h)"
proof -
  have "answers Some h (case out of (Inl e, h1) \<Rightarrow> (Inl e, h1) | (Inr (acc, n, q), h1) \<Rightarrow> (Inr q, h1))"
    if "answers (\<lambda>(ks, n, q). Some q) h out" for out :: "(jstring list \<times> nat \<times> nat) res \<times> host_core"
    using that by (cases out; cases "fst out") (auto simp: answers_def)
  then show ?thesis
    unfolding keys_on_host_def by (simp add: then_happen_answers handle_send_keys_answers)
qed

lemma mouse_on_host_answers: "answers (\<lambda>r. Some (mu_seq r)) h (mouse_on_host e t h)"
proof -
  have "answers (\<lambda>r. Some (mu_seq r)) h
      (case out of (Inl err, h1) \<Rightarrow> (Inl err, h1) | (Inr None, h1) \<Rightarrow> (Inl unreachable_host, h1)
        | (Inr (Some (b, n, q)), h1) \<Rightarrow> (Inr \<lparr>mu_reported = b, mu_bytes_written = n, mu_seq = q\<rparr>, h1))"
    if "answers (\<lambda>a. map_option (\<lambda>(b, n, q). q) a) h out" for out :: "(bool \<times> nat \<times> nat) option res \<times> host_core"
    using that by (cases out; cases "fst out") (auto simp: answers_def split: option.split)
  then show ?thesis
    unfolding mouse_on_host_def by (simp add: then_happen_answers handle_mouse_answers)
qed

lemma finish_run_answers:
  assumes "onward h h1" and "log_ready (hc_log h) \<Longrightarrow> length (history h) \<le> Suc q \<and> q < length (history h1)"
  shows "answers (\<lambda>r. Some (rr_seq r)) h (finish_run q m h1)"
  using assms by (auto simp: answers_def finish_run_def split: option.split run_wait_result.split)

lemma run_on_host_answers: "answers (\<lambda>r. Some (rr_seq r)) h (run_on_host c noWait limit t h)"
proof (cases noWait)
  case True
  then show ?thesis
    unfolding run_on_host_def
    using answers_map [OF then_happen_answers [OF handle_run_no_wait_answers [of h c None]],
        of "\<lambda>r. Some (rr_seq r)" "\<lambda>q. \<lparr>rr_seq = q, rr_completed = None, rr_timed_out = None\<rparr>" t]
    by simp
next
  case False
  have "answers (\<lambda>r. Some (rr_seq r)) h
      (case out of (Inl e, h1) \<Rightarrow> (Inl e, h1) | (Inr None, h1) \<Rightarrow> (Inl unreachable_host, h1)
        | (Inr (Some (q, m)), h1) \<Rightarrow> finish_run q m h1)"
    if "answers (map_option fst) h out" for out :: "(nat \<times> jstring) option res \<times> host_core"
  proof -
    obtain a h1 where out: "out = (a, h1)" by (meson surj_pair)
    show ?thesis
    proof (cases a)
      case (Inr x)
      have "answers (\<lambda>r. Some (rr_seq r)) h (finish_run q m h1)" if "x = Some (q, m)" for q m
        using Inr out \<open>answers (map_option fst) h out\<close> that
        by (intro finish_run_answers) (simp_all add: answers_def)
      with Inr out that show ?thesis by (cases x) (auto simp: answers_def)
    qed (use out that in \<open>simp add: answers_def\<close>)
  qed
  with False show ?thesis
    unfolding run_on_host_def by (simp add: then_happen_answers start_waited_run_answers)
qed

definition world_ok :: "batch_world \<Rightarrow> bool" where
  "world_ok w \<longleftrightarrow> log_ready (hc_log (bw_host w))"

definition next_number :: "batch_world \<Rightarrow> nat" where
  "next_number w = length (history (bw_host w))"

lemma send_request_onward:
  assumes "\<And>t now h. onward h (snd (handler t now h))"
  shows "onward (bw_host w) (bw_host (snd (send_request handler w)))"
proof (cases "bw_turns w")
  case (Cons t ts)
  let ?h1 = "happen_all (tn_before t) (bw_host w)"
  show ?thesis
    using onward_trans [OF happen_all_onward [of "bw_host w" "tn_before t"] assms [of ?h1 t "bw_now w"]]
      happen_all_onward [of "bw_host w" "tn_before t"] Cons
    by (simp add: send_request_def Let_def split_beta)
qed (simp add: send_request_def)

lemma send_request_answered:
  assumes "\<And>t now h. answers (\<lambda>a. Some (seq a)) h (handler t now h)" and "world_ok w"
  shows "answered world_ok next_number seq w (send_request handler w)"
proof (cases "bw_turns w")
  case Nil
  with assms(2) show ?thesis by (simp add: send_request_def answered_def)
next
  case (Cons t ts)
  let ?h1 = "happen_all (tn_before t) (bw_host w)"
  have h1: "onward (bw_host w) ?h1" by (rule happen_all_onward)
  with assms(2) have ready: "log_ready (hc_log ?h1)" "length (history (bw_host w)) \<le> length (history ?h1)"
    by (auto simp: world_ok_def onward_def)
  from assms(1) [of ?h1 t "bw_now w"] Cons ready show ?thesis
    by (cases "tn_reached t")
      (auto simp: send_request_def answered_def answers_def world_ok_def next_number_def onward_def
        Let_def split_beta split: option.splits dest: order_trans)
qed

lemma poll_step_baseline:
  assumes "poll_step c now polled w = Resolved r" and "wc_after_seq c = Some q"
  shows "q < sn_captured_at (wr_snapshot r)"
  using assms
  by (auto simp: poll_step_def poll_failed_def Let_def split: sum.splits if_splits)

lemma poll_host_baseline:
  "poll_host c ps now w h = (Resolved r, h') \<Longrightarrow> wc_after_seq c = Some q \<Longrightarrow>
     q < sn_captured_at (wr_snapshot r)"
proof (induction c ps now w h rule: poll_host.induct)
  case (2 c p ps now w h)
  then show ?case
    by (auto simp: Let_def poll_step_baseline split: poll_outcome.splits)
qed simp

lemma poll_host_onward: "onward h (snd (poll_host c ps now w h))"
proof (induction c ps now w h rule: poll_host.induct)
  case (2 c p ps now w h)
  let ?h2 = "happen_all (pl_during p) (happen_all (pl_before p) h)"
  have h2: "onward h ?h2" using onward_trans [OF happen_all_onward happen_all_onward] .
  with 2 show ?case by (auto simp: Let_def split: poll_outcome.split intro: onward_trans)
qed simp

lemma handle_wait_onward: "onward h (snd (handle_wait_for_render compile hash wt limit polls now h))"
proof (cases "prepare_condition compile wt")
  case (Inr c)
  with poll_host_onward [of h c polls now "start_wait now"] show ?thesis
    by (auto simp: handle_wait_for_render_def split: prod.splits poll_outcome.splits)
qed (simp add: handle_wait_for_render_def)

lemma wait_on_host_onward: "onward h (snd (wait_on_host compile hash c b limit t now h))"
  using handle_wait_onward [of h compile hash "build_wait_params c b" limit "tn_polls t" now]
  by (auto simp: wait_on_host_def split: prod.splits sum.splits option.splits)

lemma wait_on_host_baseline:
  assumes "fst (wait_on_host compile hash c (Some q) limit t now h) = Inr r" and "rw_matched r"
  shows "int q < rw_captured_at r"
proof -
  let ?wt = "build_wait_params c (Some q)"
  from assms(1) have "\<exists>h1. handle_wait_for_render compile hash ?wt limit (tn_polls t) now h = (Inr (Some r), h1)"
    by (auto simp: wait_on_host_def split: prod.splits sum.splits option.splits)
  then obtain h1 where w: "handle_wait_for_render compile hash ?wt limit (tn_polls t) now h = (Inr (Some r), h1)"
    by blast
  then obtain pc where pc: "prepare_condition compile ?wt = Inr pc"
    by (cases "prepare_condition compile ?wt") (simp_all add: handle_wait_for_render_def)
  from prepare_condition_truncate [OF pc] have "wait_condition.truncate pc = ?wt" by blast
  then have "wc_after_seq pc = wc_after_seq ?wt"
    by (metis wait_condition.select_convs(7) wait_condition.truncate_def)
  then have after: "wc_after_seq pc = Some (int q)" by (simp add: build_wait_params_def)
  obtain x h2 where p: "poll_host pc (tn_polls t) now (start_wait now) h = (x, h2)" by (meson surj_pair)
  show ?thesis
  proof (cases x)
    case (Resolved res)
    with p w pc assms(2) poll_host_baseline [OF p [unfolded Resolved] after] show ?thesis
      by (auto simp: handle_wait_for_render_def split: if_splits option.splits)
  qed (use p w pc assms(2) in \<open>auto simp: handle_wait_for_render_def split: if_splits option.splits\<close>)
qed

lemma wait_waited:
  assumes "world_ok w"
  shows "waited world_ok next_number b w (send_request (wait_on_host compile hash c b limit) w)"
proof -
  let ?out = "send_request (wait_on_host compile hash c b limit) w"
  have "onward (bw_host w) (bw_host (snd ?out))"
    by (rule send_request_onward) (rule wait_on_host_onward)
  with assms have "world_ok (snd ?out) \<and> next_number w \<le> next_number (snd ?out)"
    by (simp add: world_ok_def next_number_def onward_def)
  moreover have "int q < rw_captured_at r" if "fst ?out = Inr r" "rw_matched r" "b = Some q" for r q
  proof (cases "bw_turns w")
    case Nil
    with that show ?thesis by (simp add: send_request_def)
  next
    case (Cons t ts)
    with that have "fst (wait_on_host compile hash c (Some q) limit t (bw_now w)
        (happen_all (tn_before t) (bw_host w))) = Inr r"
      by (auto simp: send_request_def Let_def split_beta split: option.splits if_splits)
    from wait_on_host_baseline [OF this that(2)] show ?thesis .
  qed
  ultimately show ?thesis by (auto simp: waited_def)
qed

interpretation hostd: step_driver "host_driver compile hash" world_ok next_number
  for compile hash
proof unfold_locales
  fix w :: batch_world assume ok: "world_ok w"
  show "answered world_ok next_number id w (dr_type (host_driver compile hash) t w)" for t
    unfolding host_driver_def driver.simps
    by (rule send_request_answered [OF _ ok]) (simp add: then_happen_answers handle_type_answers)
  show "answered world_ok next_number id w (dr_paste (host_driver compile hash) t w)" for t
    unfolding host_driver_def driver.simps
    by (rule send_request_answered [OF _ ok]) (simp add: then_happen_answers handle_paste_answers)
  show "answered world_ok next_number id w (dr_keys (host_driver compile hash) ks w)" for ks
    unfolding host_driver_def driver.simps
    by (rule send_request_answered [OF _ ok]) (simp add: keys_on_host_answers)
  show "answered world_ok next_number mu_seq w (dr_mouse (host_driver compile hash) e w)" for e
    unfolding host_driver_def driver.simps
    by (rule send_request_answered [OF _ ok]) (rule mouse_on_host_answers)
  show "answered world_ok next_number rr_seq w (dr_run (host_driver compile hash) c noWait limit w)"
    for c noWait limit
    unfolding host_driver_def driver.simps
    by (rule send_request_answered [OF _ ok]) (rule run_on_host_answers)
  show "waited world_ok next_number b w (dr_wait (host_driver compile hash) cond b limit w)" for b cond limit
    unfolding host_driver_def driver.simps by (rule wait_waited [OF ok])
  show "world_ok (snd (dr_commandable (host_driver compile hash) w))
      \<and> next_number w \<le> next_number (snd (dr_commandable (host_driver compile hash) w))"
    using ok happen_all_onward [of "bw_host w"]
    by (auto simp: host_driver_def check_commandable_def world_ok_def next_number_def onward_def
        split: list.split)
qed

text \<open>C9: A wait of a batch that completed has seen a screen that is newer than every input step
  before it, whatever runs between the requests: the sequence number that the screen was captured
  at lies past the numbers that those steps returned. So with \<open>keepGoing\<close>, after steps that failed
  or timed out, and while other clients and the program write to the log, no wait matches the
  screen from before the input.\<close>

theorem batch_waits_see_input:
  assumes "limits_ok mb me" and "\<And>n. clock_text (clock n)"
    and "host_reach (fresh_host s mb me clock) (bw_host w)"
    and "rs = bt_steps (fst (execute_batch (host_driver compile hash) keepGoing plan w))"
    and "i < j" and "j < length rs" and "record_seq (rs ! i) = Some q"
    and "rs ! j = WaitRecord r" and "br_status r = StepCompleted"
  shows "\<exists>c. wn_captured_at r = Some c \<and> int q < c"
proof -
  have "recorded (bw_host w)"
    by (rule host_reach_recorded [OF assms(3) fresh_host_recorded [OF assms(1,2)]])
  then have "world_ok w" by (simp add: world_ok_def recorded_def core_ok_def)
  from hostd.batch_sees_input [OF this, of compile hash keepGoing plan] assms(4-9) show ?thesis
    unfolding sees_input_def by blast
qed

definition printed_host :: host_core where
  "printed_host = happen (PtyOutput (js ''hi'')) typed_host"

lemma printed_bytes: "record_bytes (make_record 1 (js ''2024'') (Output (js ''hi''))) = 62"
  by (simp add: record_bytes_def record_line_def json_of_record_def make_record_def quote_def
      quote_unit_def is_high_surrogate_def is_low_surrogate_def int_digits_def nat_digits.simps js_eval)

lemma printed_append:
  "\<exists>lc. clocked_append (hc_log typed_host) (Output (js ''hi'')) = Inr (1, lc) \<and> length (el_buffer (fst lc)) = 2"
proof -
  let ?l = "fst (hc_log typed_host)"
  have l: "el_next_seq ?l = 1" "length (el_buffer ?l) = 1" "\<not> el_closed ?l" "snd (hc_log typed_host) = (\<lambda>_. js ''2024'')"
    by (simp_all add: typed_host_eq(2) fresh_log_def)
  have e: "append_effect ?l (Output (js ''hi'')) (js ''2024'') (js ''2024'') = Stored"
    using l(1) printed_bytes [unfolded One_nat_def]
    by (simp add: append_effect_def find_stop_reason_def typed_bytes typed_host_eq(2)
        fresh_log_def tail_reserve_bytes_def tail_reserve_entries_def)
  have "\<exists>l'. append_log ?l (Output (js ''hi'')) (js ''2024'') (js ''2024'') = Inr (1, l') \<and> length (el_buffer l') = 2"
    using queue_append_effect [of ?l "Output (js ''hi'')" "js ''2024''" "js ''2024''"] l e
    by (simp add: append_log_def)
  with l(4) show ?thesis by (auto simp: clocked_append_def)
qed

lemma printed_history: "length (history printed_host) = 2"
proof -
  have "hc_co typed_host = new_coordinator"
    by (simp add: typed_host_eq(2) example_host_def fresh_host_def)
  moreover obtain lc where "clocked_append (hc_log typed_host) (Output (js ''hi'')) = Inr (1, lc)"
    "length (el_buffer (fst lc)) = 2" using printed_append by blast
  ultimately show ?thesis
    by (simp add: printed_host_def pty_output_def ingest_pty_data_def new_coordinator_def scanner_feed_def
        new_scanner_def sanitizer_feed_def new_sanitizer_def
        append_output_def history_def get_events_def)
qed

definition batch_condition :: prepared_condition where
  "batch_condition = wait_condition.extend
     \<lparr>wc_text = Some (js ''hi''), wc_regex = None, wc_scope = None, wc_stable_ms = None,
      wc_cursor_row = None, wc_cursor_col = None, wc_after_seq = None\<rparr> \<lparr>pc_compiled = None\<rparr>"

definition example_turn :: "poll_input list \<Rightarrow> turn" where
  "example_turn polls =
     \<lparr>tn_before = [], tn_after = [], tn_reached = True, tn_lost = None, tn_elapsed = 5, tn_uuid = [],
      tn_tokens = [], tn_renderer = [], tn_encoder = (\<lambda>rs i. Inr []), tn_loads = [], tn_polls = polls\<rparr>"

definition example_poll :: poll_input where
  "example_poll = \<lparr>pl_before = [PtyOutput (js ''hi'')], pl_during = [], pl_elapsed = 200,
     pl_screen = Inr ([js ''hi''], 0, 2)\<rparr>"

definition example_world :: batch_world where
  "example_world = \<lparr>bw_host = example_host, bw_now = 0,
     bw_turns = [example_turn [], example_turn [example_poll]], bw_checks = []\<rparr>"

definition example_plan :: "batch_step list" where
  "example_plan = [TypeStep (js ''ls''), WaitStep batch_condition (Some 30000)]"

lemma wait_example:
  "\<exists>r. wait_on_host compile hash batch_condition (Some 0) (Some 30000) (example_turn [example_poll]) now typed_host
     = (Inr r, printed_host) \<and> rw_matched r \<and> \<not> rw_timed_out r"
proof -
  let ?wt = "build_wait_params batch_condition (Some 0)"
  let ?pc = "wait_condition.extend ?wt \<lparr>pc_compiled = None\<rparr>"
  have wt: "wc_text ?wt = Some (js ''hi'')" "wc_regex ?wt = None" "wc_scope ?wt = None" "wc_stable_ms ?wt = None"
    "wc_cursor_row ?wt = None" "wc_cursor_col ?wt = None" "wc_after_seq ?wt = Some 0"
    by (simp_all add: build_wait_params_def batch_condition_def wait_condition.defs)
  have pc: "prepare_condition compile ?wt = Inr ?pc"
    by (simp add: prepare_condition_def check_compiled_def max_text_length_def wt)
  have pcs: "wc_text ?pc = Some (js ''hi'')" "wc_regex ?pc = None" "wc_scope ?pc = None" "wc_stable_ms ?pc = None"
    "wc_cursor_row ?pc = None" "wc_cursor_col ?pc = None" "wc_after_seq ?pc = Some 0" "pc_compiled ?pc = None"
    using wt by (simp_all add: wait_condition.defs)
  have t: "load_target printed_host = 1" by (simp add: load_target_def printed_history)
  have hi: "includes_sub (js ''hi'') (js ''hi'')" by (simp add: includes_sub_iff exI [of _ "[]"])
  have h: "happen_all [PtyOutput (js ''hi'')] typed_host = printed_host"
    by (simp add: happen_all_def printed_host_def)
  show ?thesis
    unfolding wait_on_host_def handle_wait_for_render_def pc
    by (simp add: example_turn_def example_poll_def t h [simplified] happen_all_def [of "[]"] poll_step_def
        start_wait_def match_snapshot_def text_match_def match_target_def canonical_visible_text_def
        check_def pcs hi Let_def)
qed

lemma host_driver_now: "dr_now (host_driver compile hash) = bw_now"
  by (simp add: host_driver_def)

lemma execute_example:
  "\<exists>b w. bt_steps (fst (execute_batch (host_driver compile hash) True example_plan example_world))
     = [InputRecord (step_base.extend b \<lparr>ir_kind = KindType, ir_seq = Some 0\<rparr>), WaitRecord w]
     \<and> br_status w = StepCompleted"
proof -
  let ?b = "base_record 0 5 StepCompleted None"
  let ?rec = "InputRecord (step_base.extend ?b \<lparr>ir_kind = KindType, ir_seq = Some 0\<rparr>)"
  let ?x1 = "\<lparr>xs_steps = [?rec], xs_failed = [], xs_completed = 1, xs_last_seq = Some 0, xs_stopped = False\<rparr>"
  let ?w1 = "\<lparr>bw_host = typed_host, bw_now = 5, bw_turns = [example_turn [example_poll]], bw_checks = []\<rparr>"
  have e1: "exec_step (host_driver compile hash) True 0 (TypeStep (js ''ls'')) (exec_init, example_world)
      = (?x1, ?w1)"
    by (simp add: exec_step_def host_driver_def send_request_def example_world_def then_happen_def
        example_turn_def happen_all_def typed_host_eq(1) input_step_def exec_init_def finalize_def
        record_defs Let_def)
  obtain r where r: "wait_on_host compile hash batch_condition (Some 0) (Some 30000)
      (example_turn [example_poll]) 5 typed_host = (Inr r, printed_host)" "rw_matched r" "\<not> rw_timed_out r"
    using wait_example [of compile hash 5] by blast
  have c: "dr_commandable (host_driver compile hash) w = (Inr (), w)" if "bw_checks w = []" for w
    using that by (simp add: host_driver_def check_commandable_def)
  have w: "dr_wait (host_driver compile hash) batch_condition (Some 0) (Some 30000) ?w1
      = (Inr r, ?w1\<lparr>bw_host := printed_host, bw_turns := [], bw_now := 10\<rparr>)"
    using r(1) by (simp add: host_driver_def send_request_def happen_all_def example_turn_def)
  have "run_step (host_driver compile hash) 1 (Some 0) 5 (WaitStep batch_condition (Some 30000)) ?w1 =
      (Inr (observed_wait (Some 0) r (base_record 1 5 StepCompleted None)),
       ?w1\<lparr>bw_host := printed_host, bw_turns := [], bw_now := 10\<rparr>)"
    using run_wait_step_eqs(4) [OF c w r(2,3) c, of 1 5] by (simp add: host_driver_def)
  then show ?thesis
    by (intro exI [of _ ?b]) (simp add: execute_batch_def example_plan_def e1 exec_step_def [of _ _ "Suc 0"] observed_wait_def
        record_defs host_driver_now Let_def)
qed

lemma batch_waits_see_input_witness:
  "\<exists>w c. bt_steps (fst (execute_batch (host_driver (\<lambda>p. Inl []) (\<lambda>s. [])) True example_plan example_world)) ! 1
      = WaitRecord w \<and> wn_captured_at w = Some c \<and> 0 < c"
proof -
  obtain b w where e: "bt_steps (fst (execute_batch (host_driver (\<lambda>p. Inl []) (\<lambda>s. [])) True example_plan example_world))
     = [InputRecord (step_base.extend b \<lparr>ir_kind = KindType, ir_seq = Some 0\<rparr>), WaitRecord w]"
    "br_status w = StepCompleted"
    using execute_example by blast
  have "host_reach (fresh_host example_session 5000 5 (\<lambda>_. js ''2024'')) (bw_host example_world)"
    by (simp add: example_world_def example_host_def host_start)
  from batch_waits_see_input [OF limits_example _ this refl, where i = 0 and j = 1 and q = 0 and r = w
      and compile = "\<lambda>p. Inl []" and hash = "\<lambda>s. []" and keepGoing = True and plan = example_plan]
  have "\<exists>c. wn_captured_at w = Some c \<and> 0 < c"
    using e example_clock by (simp add: step_base.defs)
  with e show ?thesis by simp
qed

end
