(* ===== verification/QueryResponder.thy ===== *)
theory QueryResponder
  imports ChunkFilter
begin

text \<open>
  The part of the host that answers a program's questions to its terminal: the state machine over
  the output units, the replies to the colour, status and capability queries, and its bounds on
  memory. The specification is a reader of whole sequences, which knows nothing of states.
\<close>

section \<open>Options and replies\<close>

definition is_hex_digit :: "code_unit \<Rightarrow> bool" where
  "is_hex_digit c \<longleftrightarrow> (48 \<le> c \<and> c \<le> 57) \<or> (97 \<le> c \<and> c \<le> 102) \<or> (65 \<le> c \<and> c \<le> 70)"

definition assert_hex_color :: "jstring \<Rightarrow> string \<Rightarrow> 'a res \<Rightarrow> 'a res" where
  "assert_hex_color v label k =
     check_str (length v = 7 \<and> hd v = 35 \<and> list_all is_hex_digit (tl v))
       (js label @ js '' must be a '' @ [34] @ js ''#rrggbb'' @ [34] @ js '' hex color'') k"

definition slice :: "nat \<Rightarrow> nat \<Rightarrow> 'a list \<Rightarrow> 'a list" where
  "slice i j s = take (j - i) (drop i s)"

definition to_osc_color_payload :: "jstring \<Rightarrow> jstring" where
  "to_osc_color_payload color =
     (let red = to_lower (slice 1 3 color); green = to_lower (slice 3 5 color);
          blue = to_lower (slice 5 7 color)
      in js ''rgb:'' @ red @ red @ js ''/'' @ green @ green @ js ''/'' @ blue @ blue)"

definition hex_value :: "code_unit \<Rightarrow> nat" where
  "hex_value c = (if c \<le> 57 then c - 48 else if c \<le> 70 then c - 55 else c - 87)"

fun decode_hex :: "jstring \<Rightarrow> jstring" where
  \<comment> \<open>\<open>Buffer.from(s, 'hex').toString('latin1')\<close> for an even number of hex digits.\<close>
  "decode_hex (a # b # s) = (hex_value a * 16 + hex_value b) # decode_hex s"
| "decode_hex _ = []"

definition upper_hex_digit :: "nat \<Rightarrow> code_unit" where
  "upper_hex_digit n = (if n < 10 then 48 + n else 55 + n)"

definition encode_hex :: "jstring \<Rightarrow> jstring" where
  \<comment> \<open>\<open>Buffer.from(s, 'latin1').toString('hex').toUpperCase()\<close>\<close>
  "encode_hex s = concat (map (\<lambda>c. [upper_hex_digit (c div 16), upper_hex_digit (c mod 16)]) s)"

definition xtgettcap_capabilities :: "(jstring \<times> jstring option) list" where
  "xtgettcap_capabilities =
     [(js ''Tc'', None), (js ''RGB'', None),
      (js ''setrgbf'', Some (92 # js ''E[38;2;%p1%d;%p2%d;%p3%dm'')),
      (js ''setrgbb'', Some (92 # js ''E[48;2;%p1%d;%p2%d;%p3%dm''))]"

definition is_hex_name :: "jstring \<Rightarrow> bool" where
  "is_hex_name s \<longleftrightarrow> s \<noteq> [] \<and> even (length s) \<and> list_all is_hex_digit s"

definition answer_xtgettcap_name :: "jstring \<Rightarrow> jstring" where
  "answer_xtgettcap_name hexName =
     (if \<not> is_hex_name hexName then []
      else case map_of xtgettcap_capabilities (decode_hex hexName) of
        None \<Rightarrow> []
      | Some cap \<Rightarrow>
          [27] @ js ''P1+r'' @ hexName
            @ (case cap of None \<Rightarrow> [] | Some v \<Rightarrow> js ''='' @ encode_hex v) @ [27, 92])"

section \<open>The scanner\<close>

datatype scanner_state = Ground | Esc | Csi | Osc | OscEsc | Dcs | DcsEsc

record responder =
  qr_state :: scanner_state
  qr_buffer :: jstring
  qr_background :: jstring
  qr_foreground :: jstring

definition max_csi_param_length :: nat where "max_csi_param_length = 32"
definition max_osc_payload_length :: nat where "max_osc_payload_length = 64"
definition max_dcs_payload_length :: nat where "max_dcs_payload_length = 256"

definition new_responder :: "jstring \<Rightarrow> jstring \<Rightarrow> responder res" where
  "new_responder background foreground =
     assert_hex_color background ''backgroundColor''
     (assert_hex_color foreground ''foregroundColor''
       (Inr \<lparr>qr_state = Ground, qr_buffer = [], qr_background = to_osc_color_payload background,
             qr_foreground = to_osc_color_payload foreground\<rparr>))"

definition to_state :: "scanner_state \<Rightarrow> responder \<Rightarrow> responder" where
  "to_state st r = r\<lparr>qr_state := st, qr_buffer := []\<rparr>"

definition step_esc :: "code_unit \<Rightarrow> responder \<Rightarrow> jstring \<times> responder" where
  "step_esc c r =
     ([], if c = 91 then to_state Csi r
          else if c = 93 then to_state Osc r
          else if c = 80 then to_state Dcs r
          else if c \<noteq> 27 then r\<lparr>qr_state := Ground\<rparr>
          else r)"

definition abort_sequence :: "code_unit \<Rightarrow> responder \<Rightarrow> jstring \<times> responder" where
  "abort_sequence c r = ([], to_state (if c = 27 then Esc else Ground) r)"

definition step_csi :: "code_unit \<Rightarrow> responder \<Rightarrow> jstring \<times> responder" where
  "step_csi c r =
     (if 64 \<le> c \<and> c \<le> 126
      then (if qr_buffer r = js ''5'' \<and> c = 110 then [27] @ js ''[0n'' else [], to_state Ground r)
      else if 32 \<le> c \<and> c \<le> 63
      then ([], if length (qr_buffer r) < max_csi_param_length
                then r\<lparr>qr_buffer := qr_buffer r @ [c]\<rparr> else r)
      else abort_sequence c r)"

definition dispatch_osc :: "jstring \<Rightarrow> responder \<Rightarrow> jstring \<times> responder" where
  "dispatch_osc terminator r =
     (if qr_buffer r = js ''11;?'' then [27] @ js '']11;'' @ qr_background r @ terminator
      else if qr_buffer r = js ''10;?'' then [27] @ js '']10;'' @ qr_foreground r @ terminator
      else [], to_state Ground r)"

definition step_osc :: "code_unit \<Rightarrow> responder \<Rightarrow> jstring \<times> responder" where
  "step_osc c r =
     (if c = 7 \<or> c = 156 then dispatch_osc [c] r
      else if c = 27 then ([], r\<lparr>qr_state := OscEsc\<rparr>)
      else ([], if length (qr_buffer r) < max_osc_payload_length
                then r\<lparr>qr_buffer := qr_buffer r @ [c]\<rparr> else r))"

definition step_osc_esc :: "code_unit \<Rightarrow> responder \<Rightarrow> jstring \<times> responder" where
  "step_osc_esc c r = (if c = 92 then dispatch_osc [27, 92] r else abort_sequence c r)"

definition dispatch_dcs :: "responder \<Rightarrow> jstring \<times> responder" where
  "dispatch_dcs r =
     (let payload = qr_buffer r
      in (if length payload > max_dcs_payload_length then []
          else if starts_with payload (js ''+q'')
          then concat (map answer_xtgettcap_name (split_on 59 (drop 2 payload)))
          else if payload = js ''$qm'' then [27] @ js ''P0$r'' @ [27, 92]
          else [], to_state Ground r))"

definition step_dcs :: "code_unit \<Rightarrow> responder \<Rightarrow> jstring \<times> responder" where
  "step_dcs c r =
     (if c = 156 then dispatch_dcs r
      else if c = 27 then ([], r\<lparr>qr_state := DcsEsc\<rparr>)
      else ([], if length (qr_buffer r) \<le> max_dcs_payload_length
                then r\<lparr>qr_buffer := qr_buffer r @ [c]\<rparr> else r))"

definition step_dcs_esc :: "code_unit \<Rightarrow> responder \<Rightarrow> jstring \<times> responder" where
  "step_dcs_esc c r = (if c = 92 then dispatch_dcs r else abort_sequence c r)"

definition step_responder :: "code_unit \<Rightarrow> responder \<Rightarrow> jstring \<times> responder" where
  "step_responder c r =
     (case qr_state r of
        Ground \<Rightarrow> ([], if c = 27 then r\<lparr>qr_state := Esc\<rparr> else r)
      | Esc \<Rightarrow> step_esc c r
      | Csi \<Rightarrow> step_csi c r
      | Osc \<Rightarrow> step_osc c r
      | OscEsc \<Rightarrow> step_osc_esc c r
      | Dcs \<Rightarrow> step_dcs c r
      | DcsEsc \<Rightarrow> step_dcs_esc c r)"

fun step_all :: "responder \<Rightarrow> jstring \<Rightarrow> jstring \<times> responder" where
  "step_all r [] = ([], r)"
| "step_all r (c # cs) =
     (let (out, r1) = step_responder c r; (outs, r2) = step_all r1 cs in (out @ outs, r2))"

definition consume :: "responder \<Rightarrow> jstring \<Rightarrow> jstring \<times> responder" where
  "consume r chunk =
     (if qr_state r = Ground \<and> \<not> List.member chunk 27 then ([], r) else step_all r chunk)"

fun consume_all :: "responder \<Rightarrow> jstring list \<Rightarrow> jstring \<times> responder" where
  \<comment> \<open>The chunks of a PTY one after the other, with all that is written back.\<close>
  "consume_all r [] = ([], r)"
| "consume_all r (c # cs) =
     (let (out, r1) = consume r c; (outs, r2) = consume_all r1 cs in (out @ outs, r2))"

section \<open>The division into chunks\<close>

lemma step_all_append:
  "step_all r (s @ t) =
     (let (out, r1) = step_all r s; (outs, r2) = step_all r1 t in (out @ outs, r2))"
  by (induction s arbitrary: r) (auto simp: Let_def split: prod.splits)

lemma step_all_ground: "qr_state r = Ground \<Longrightarrow> 27 \<notin> set s \<Longrightarrow> step_all r s = ([], r)"
  by (induction s) (auto simp: step_responder_def)

lemma consume_step_all: "consume r chunk = step_all r chunk"
  by (auto simp: consume_def step_all_ground List.member_iff)

definition responder_feed :: "responder \<Rightarrow> jstring \<Rightarrow> (jstring \<times> responder) res" where
  "responder_feed r chunk = Inr (consume r chunk)"

definition responder_flush :: "responder \<Rightarrow> (jstring \<times> responder) res" where
  \<comment> \<open>The host does nothing with the responder when the program exits.\<close>
  "responder_flush r = Inr ([], r)"

lemma fst_step_all_append:
  "fst (step_all r (s @ t)) = fst (step_all r s) @ fst (step_all (snd (step_all r s)) t)"
  by (simp add: step_all_append Let_def split: prod.splits)

interpretation queryf: chunk_filter responder_feed responder_flush "\<lambda>_. True" "\<lambda>r s. fst (step_all r s)"
proof unfold_locales
  fix r c
  show "\<exists>os r'. responder_feed r c = Inr (os, r') \<and> True
      \<and> (\<forall>ext. fst (step_all r (c @ ext)) = os @ fst (step_all r' ext))"
  proof (intro exI conjI allI)
    show "responder_feed r c = Inr (fst (step_all r c), snd (step_all r c))"
      by (simp add: responder_feed_def consume_step_all)
  qed (simp_all add: fst_step_all_append)
qed (simp add: responder_flush_def)

lemma consume_all_feed: "feed_all responder_feed r cs = Inr (consume_all r cs)"
  by (induction cs arbitrary: r) (auto simp: responder_feed_def Let_def split: prod.splits)

lemma consume_all_whole: "fst (consume_all r cs) = fst (step_all r (concat cs))"
  using queryf.feed_all_flush [of r cs] by (auto simp: consume_all_feed responder_flush_def)

section \<open>Whole sequences\<close>

datatype item =
    Plain jstring              \<comment> \<open>output without an escape\<close>
  | EscSeq code_unit           \<comment> \<open>a short escape sequence\<close>
  | CsiSeq jstring code_unit   \<comment> \<open>parameters and final unit\<close>
  | OscSeq jstring jstring     \<comment> \<open>payload and terminator\<close>
  | DcsSeq jstring jstring

fun item_ok :: "item \<Rightarrow> bool" where
  "item_ok (Plain t) = (27 \<notin> set t)"
| "item_ok (EscSeq c) = (c \<notin> {27, 91, 93, 80})"
| "item_ok (CsiSeq p f) = (list_all (\<lambda>c. 32 \<le> c \<and> c \<le> 63) p \<and> 64 \<le> f \<and> f \<le> 126)"
| "item_ok (OscSeq p t) = (set p \<inter> {7, 27, 156} = {} \<and> t \<in> {[7], [156], [27, 92]})"
| "item_ok (DcsSeq p t) = (set p \<inter> {27, 156} = {} \<and> t \<in> {[156], [27, 92]})"

fun item_units :: "item \<Rightarrow> jstring" where
  "item_units (Plain t) = t"
| "item_units (EscSeq c) = [27, c]"
| "item_units (CsiSeq p f) = [27, 91] @ p @ [f]"
| "item_units (OscSeq p t) = [27, 93] @ p @ t"
| "item_units (DcsSeq p t) = [27, 80] @ p @ t"

fun item_reply :: "jstring \<Rightarrow> jstring \<Rightarrow> item \<Rightarrow> jstring" where
  "item_reply bg fg (CsiSeq p f) = (if p = js ''5'' \<and> f = 110 then [27] @ js ''[0n'' else [])"
| "item_reply bg fg (OscSeq p t) =
     (if p = js ''11;?'' then [27] @ js '']11;'' @ bg @ t
      else if p = js ''10;?'' then [27] @ js '']10;'' @ fg @ t
      else [])"
| "item_reply bg fg (DcsSeq p t) =
     (if length p > max_dcs_payload_length then []
      else if starts_with p (js ''+q'') then concat (map answer_xtgettcap_name (split_on 59 (drop 2 p)))
      else if p = js ''$qm'' then [27] @ js ''P0$r'' @ [27, 92]
      else [])"
| "item_reply bg fg i = []"

lemmas step_defs = step_responder_def step_esc_def step_csi_def step_osc_def step_osc_esc_def
  step_dcs_def step_dcs_esc_def abort_sequence_def to_state_def
lemmas length_caps = max_csi_param_length_def max_osc_payload_length_def max_dcs_payload_length_def

lemma take_snoc_full: "length b = n \<Longrightarrow> take n (b @ p) = b"
  by simp

lemma step_all_csi:
  "qr_state r = Csi \<Longrightarrow> list_all (\<lambda>c. 32 \<le> c \<and> c \<le> 63) p \<Longrightarrow> length (qr_buffer r) \<le> 32 \<Longrightarrow>
     step_all r p = ([], r\<lparr>qr_buffer := take 32 (qr_buffer r @ p)\<rparr>)"
proof (induction p arbitrary: r)
  case (Cons c p)
  show ?case
  proof (cases "length (qr_buffer r) < 32")
    case True
    with Cons show ?thesis by (simp add: step_defs length_caps take_Cons')
  next
    case False
    with Cons show ?thesis by (simp add: step_defs length_caps)
  qed
qed simp

lemma step_all_osc:
  "qr_state r = Osc \<Longrightarrow> set p \<inter> {7, 27, 156} = {} \<Longrightarrow> length (qr_buffer r) \<le> 64 \<Longrightarrow>
     step_all r p = ([], r\<lparr>qr_buffer := take 64 (qr_buffer r @ p)\<rparr>)"
proof (induction p arbitrary: r)
  case (Cons c p)
  show ?case
  proof (cases "length (qr_buffer r) < 64")
    case True
    with Cons show ?thesis by (simp add: step_defs length_caps take_Cons')
  next
    case False
    with Cons show ?thesis by (simp add: step_defs length_caps)
  qed
qed simp

lemma step_all_dcs:
  "qr_state r = Dcs \<Longrightarrow> set p \<inter> {27, 156} = {} \<Longrightarrow> length (qr_buffer r) \<le> 257 \<Longrightarrow>
     step_all r p = ([], r\<lparr>qr_buffer := take 257 (qr_buffer r @ p)\<rparr>)"
proof (induction p arbitrary: r)
  case (Cons c p)
  show ?case
  proof (cases "length (qr_buffer r) < 257")
    case True
    with Cons show ?thesis by (simp add: step_defs length_caps take_Cons')
  next
    case False
    with Cons show ?thesis by (simp add: step_defs length_caps)
  qed
qed simp

lemma take_eq_short: "length q < n \<Longrightarrow> take n p = q \<longleftrightarrow> p = q"
  by (auto simp: min_def split: if_splits)

lemma step_item:
  assumes "qr_state r = Ground" and "item_ok i"
  shows "step_all r (item_units i) =
    (item_reply (qr_background r) (qr_foreground r) i,
     case i of Plain t \<Rightarrow> r | EscSeq c \<Rightarrow> r | _ \<Rightarrow> to_state Ground r)"
proof (cases i)
  case (Plain t)
  with assms show ?thesis by (simp add: step_all_ground)
next
  case (EscSeq c)
  with assms show ?thesis by (simp add: step_defs)
next
  case (CsiSeq p f)
  with assms show ?thesis
    by (simp add: step_all_append step_all_csi step_responder_def step_esc_def to_state_def
        step_csi_def take_eq_short)
next
  case (OscSeq p t)
  with assms show ?thesis
    by (auto simp: step_all_append step_all_osc step_responder_def step_esc_def to_state_def
        step_osc_def step_osc_esc_def dispatch_osc_def take_eq_short)
next
  case (DcsSeq p t)
  have long: "length (take 257 p) > 256 \<longleftrightarrow> length p > 256" by (simp add: min_def)
  have short: "\<not> length p > 256 \<Longrightarrow> take 257 p = p" by simp
  show ?thesis
  proof (cases "length p > 256")
    case True
    with DcsSeq assms show ?thesis
      by (auto simp: step_all_append step_all_dcs step_responder_def step_esc_def to_state_def
          step_dcs_def step_dcs_esc_def dispatch_dcs_def length_caps Let_def)
  next
    case False
    with DcsSeq assms show ?thesis
      by (auto simp: step_all_append step_all_dcs step_responder_def step_esc_def to_state_def
          step_dcs_def step_dcs_esc_def dispatch_dcs_def length_caps Let_def)
  qed
qed

lemma step_items:
  "qr_state r = Ground \<Longrightarrow> list_all item_ok is \<Longrightarrow>
     fst (step_all r (concat (map item_units is))) =
       concat (map (item_reply (qr_background r) (qr_foreground r)) is)"
proof (induction "is" arbitrary: r)
  case Nil
  then show ?case by simp
next
  case (Cons i "is")
  let ?r = "case i of Plain t \<Rightarrow> r | EscSeq c \<Rightarrow> r | _ \<Rightarrow> to_state Ground r"
  have "qr_state ?r = Ground" "qr_background ?r = qr_background r" "qr_foreground ?r = qr_foreground r"
    using Cons.prems(1) by (cases i; simp add: to_state_def)+
  with Cons.IH [of ?r] Cons.prems step_item [of r i] show ?case
    by (simp add: fst_step_all_append)
qed

text \<open>C22: However the output of the program is cut into chunks, the responder writes back exactly the
  replies that its whole sequences call for, in order and each once: the two colours with the
  terminator of the question, the status report, each known capability of a request under the name
  that was asked, and nothing for plain output, other sequences and over-long payloads.
\<close>
theorem queries_answered:
  assumes "qr_state r = Ground" and "list_all item_ok is"
    and "concat chunks = concat (map item_units is)"
  shows "fst (consume_all r chunks) =
    concat (map (item_reply (qr_background r) (qr_foreground r)) is)"
  using assms step_items by (simp add: consume_all_whole)


definition example_responder :: responder where
  "example_responder =
     \<lparr>qr_state = Ground, qr_buffer = [], qr_background = js ''rgb:1e1e/1e1e/2e2e'',
      qr_foreground = js ''rgb:cdcd/d6d6/f4f4''\<rparr>"

definition example_items :: "item list" where
  "example_items = [Plain (js ''vim''), OscSeq (js ''11;?'') [27, 92], CsiSeq (js ''5'') 110,
     DcsSeq (js ''+q5463;00'') [156], OscSeq (js ''0;title'') [7]]"

theorem queries_answered_witness:
  "fst (consume_all example_responder
     [js ''vim'' @ [27], js '']11'', js '';?'' @ [27, 92, 27, 91], js ''5n'' @ [27] @ js ''P+q54'',
      js ''63;00'' @ [156, 27] @ js '']0;title'' @ [7]]) =
   [27] @ js '']11;rgb:1e1e/1e1e/2e2e'' @ [27, 92] @ [27] @ js ''[0n''
     @ [27] @ js ''P1+r5463'' @ [27, 92]"
proof -
  let ?chunks = "[js ''vim'' @ [27], js '']11'', js '';?'' @ [27, 92, 27, 91], js ''5n'' @ [27] @ js ''P+q54'',
      js ''63;00'' @ [156, 27] @ js '']0;title'' @ [7]]"
  have "list_all item_ok example_items"
    by (simp add: example_items_def js_eval)
  moreover have "concat ?chunks = concat (map item_units example_items)"
    by (simp add: example_items_def js_eval)
  ultimately have "fst (consume_all example_responder ?chunks) =
      concat (map (item_reply (qr_background example_responder) (qr_foreground example_responder)) example_items)"
    by (intro queries_answered) (simp_all add: example_responder_def)
  then show ?thesis
    by (simp add: example_items_def example_responder_def js_eval starts_with_def length_caps
        answer_xtgettcap_name_def is_hex_name_def is_hex_digit_def hex_value_def xtgettcap_capabilities_def)
qed

section \<open>Bounds\<close>

definition buffer_cap :: "scanner_state \<Rightarrow> nat" where
  "buffer_cap st = (case st of Ground \<Rightarrow> 0 | Esc \<Rightarrow> 0 | Csi \<Rightarrow> max_csi_param_length
     | Osc \<Rightarrow> max_osc_payload_length | OscEsc \<Rightarrow> max_osc_payload_length
     | Dcs \<Rightarrow> Suc max_dcs_payload_length | DcsEsc \<Rightarrow> Suc max_dcs_payload_length)"

definition responder_ok :: "responder \<Rightarrow> bool" where
  "responder_ok r \<longleftrightarrow> length (qr_buffer r) \<le> buffer_cap (qr_state r)"

lemma step_responder_bounded:
  "responder_ok r \<Longrightarrow> step_responder c r = (out, r') \<Longrightarrow>
     responder_ok r' \<and> qr_background r' = qr_background r \<and> qr_foreground r' = qr_foreground r
   \<and> (out \<noteq> [] \<longrightarrow> qr_state r' = Ground)"
  by (cases "qr_state r")
     (auto simp: step_defs dispatch_osc_def dispatch_dcs_def responder_ok_def buffer_cap_def
       length_caps Let_def split: if_splits)

lemma step_all_bounded:
  "responder_ok r \<Longrightarrow> responder_ok (snd (step_all r s))
     \<and> qr_background (snd (step_all r s)) = qr_background r
     \<and> qr_foreground (snd (step_all r s)) = qr_foreground r"
proof (induction s arbitrary: r)
  case (Cons c s)
  obtain out r1 where one: "step_responder c r = (out, r1)" by fastforce
  from step_responder_bounded [OF Cons.prems one]
  have "responder_ok r1" "qr_background r1 = qr_background r" "qr_foreground r1 = qr_foreground r"
    by simp_all
  with Cons.IH [of r1] one show ?case by (simp add: split_beta)
qed simp

lemma consume_all_state: "snd (consume_all r cs) = snd (step_all r (concat cs))"
  by (induction cs arbitrary: r)
     (auto simp: consume_step_all step_all_append Let_def split: prod.splits dest: arg_cong [of _ _ snd])

lemma new_responder_ok: "new_responder bg fg = Inr r \<Longrightarrow> responder_ok r"
  by (auto simp: new_responder_def assert_hex_color_def res_simps responder_ok_def)

text \<open>Whatever a program prints, in whatever chunks, the responder holds at most 257 units, holds none
  between sequences, and keeps its colours: no output makes it grow or changes what it answers.
\<close>
theorem responder_bounded:
  assumes "new_responder bg fg = Inr r"
  shows "let r' = snd (consume_all r chunks) in
    length (qr_buffer r') \<le> 257 \<and> (qr_state r' = Ground \<longrightarrow> qr_buffer r' = [])
    \<and> qr_background r' = qr_background r \<and> qr_foreground r' = qr_foreground r"
proof -
  let ?r' = "snd (consume_all r chunks)"
  have "responder_ok ?r'" "qr_background ?r' = qr_background r" "qr_foreground ?r' = qr_foreground r"
    using step_all_bounded [OF new_responder_ok [OF assms], of "concat chunks"]
    by (simp_all add: consume_all_state)
  then show ?thesis
    by (cases "qr_state ?r'") (simp_all add: responder_ok_def buffer_cap_def length_caps Let_def)
qed

theorem responder_bounded_witness:
  "\<exists>r. new_responder (js ''#1E1e2e'') (js ''#cdd6f4'') = Inr r
     \<and> length (qr_buffer (snd (consume_all r [[27], js '']11;'']))) \<le> 257"
proof -
  obtain r where r: "new_responder (js ''#1E1e2e'') (js ''#cdd6f4'') = Inr r"
    by (simp add: new_responder_def assert_hex_color_def js_eval is_hex_digit_def)
  then show ?thesis using responder_bounded [OF r, of "[[27], js '']11;'']"] by (auto simp: Let_def)
qed

end
