(* ===== verification/LineDiff.thy ===== *)
theory LineDiff
  imports Prelude
begin

text \<open>
  The line diff of two screens: the table of longest common subsequences, the walk over it, the
  fallback for a middle that is too large, and the trimming of what both screens begin and end
  with. The theorems replay the diff on both sides and compare it with the longest common
  subsequence of the whole screens.
\<close>

section \<open>The diff\<close>

datatype diff_entry =
    Equal jstring nat nat    \<comment> \<open>text, row in A, row in B\<close>
  | Delete jstring nat       \<comment> \<open>text, row in A\<close>
  | Add jstring nat          \<comment> \<open>text, row in B\<close>

definition max_diff_cells :: nat where
  "max_diff_cells = 4000000"

fun delete_entries :: "nat \<Rightarrow> jstring list \<Rightarrow> diff_entry list" where
  "delete_entries off [] = []"
| "delete_entries off (t # ts) = Delete t off # delete_entries (Suc off) ts"

fun add_entries :: "nat \<Rightarrow> jstring list \<Rightarrow> diff_entry list" where
  "add_entries off [] = []"
| "add_entries off (t # ts) = Add t off # add_entries (Suc off) ts"

fun equal_entries :: "nat \<Rightarrow> nat \<Rightarrow> jstring list \<Rightarrow> diff_entry list" where
  "equal_entries aRow bRow [] = []"
| "equal_entries aRow bRow (t # ts) = Equal t aRow bRow # equal_entries (Suc aRow) (Suc bRow) ts"

definition fallback_entries :: "jstring list \<Rightarrow> jstring list \<Rightarrow> nat \<Rightarrow> nat \<Rightarrow> diff_entry list" where
  "fallback_entries a b aOff bOff = delete_entries aOff a @ add_entries bOff b"

text \<open>
  Row \<open>i\<close> of the table is filled from the right and from row \<open>i + 1\<close>, so a row is a function of
  the line, of the other screen and of the next row.
\<close>

fun lcs_row :: "jstring \<Rightarrow> jstring list \<Rightarrow> nat list \<Rightarrow> nat list" where
  "lcs_row x [] next_row = [0]"
| "lcs_row x (y # ys) next_row =
     (let rest = lcs_row x ys (tl next_row)
      in (if x = y then next_row ! 1 + 1 else max (hd next_row) (hd rest)) # rest)"

fun lcs_table :: "jstring list \<Rightarrow> jstring list \<Rightarrow> nat list list" where
  "lcs_table [] b = [replicate (length b + 1) 0]"
| "lcs_table (x # xs) b = (let rest = lcs_table xs b in lcs_row x b (hd rest) # rest)"

definition table_at :: "nat list list \<Rightarrow> nat \<Rightarrow> nat \<Rightarrow> nat" where
  \<comment> \<open>\<open>lcs[i]?.[j] ?? 0\<close>\<close>
  "table_at t i j = (if i < length t \<and> j < length (t ! i) then t ! i ! j else 0)"

function lcs_walk ::
  "jstring list \<Rightarrow> jstring list \<Rightarrow> nat list list \<Rightarrow> nat \<Rightarrow> nat \<Rightarrow> nat \<Rightarrow> nat \<Rightarrow> diff_entry list" where
  "lcs_walk a b t aOff bOff i j =
     (if i < length a \<and> j < length b then
        if a ! i = b ! j then
          Equal (a ! i) (aOff + i) (bOff + j) # lcs_walk a b t aOff bOff (Suc i) (Suc j)
        else if table_at t (Suc i) j \<ge> table_at t i (Suc j) then
          Delete (a ! i) (aOff + i) # lcs_walk a b t aOff bOff (Suc i) j
        else
          Add (b ! j) (bOff + j) # lcs_walk a b t aOff bOff i (Suc j)
      else delete_entries (aOff + i) (drop i a) @ add_entries (bOff + j) (drop j b))"
  by pat_completeness auto
termination
  by (relation "measure (\<lambda>(a, b, t, aOff, bOff, i, j). (length a - i) + (length b - j))") auto

declare lcs_walk.simps [simp del]

definition lcs_entries :: "jstring list \<Rightarrow> jstring list \<Rightarrow> nat \<Rightarrow> nat \<Rightarrow> diff_entry list" where
  "lcs_entries a b aOff bOff =
     (if a = [] \<or> b = [] then fallback_entries a b aOff bOff
      else lcs_walk a b (lcs_table a b) aOff bOff 0 0)"

fun common_prefix :: "jstring list \<Rightarrow> jstring list \<Rightarrow> nat" where
  "common_prefix (x # xs) (y # ys) = (if x = y then Suc (common_prefix xs ys) else 0)"
| "common_prefix _ _ = 0"

function suffix_from :: "jstring list \<Rightarrow> jstring list \<Rightarrow> nat \<Rightarrow> nat \<Rightarrow> nat" where
  "suffix_from a b pre k =
     (if k < length a - pre \<and> k < length b - pre \<and> a ! (length a - 1 - k) = b ! (length b - 1 - k)
      then suffix_from a b pre (Suc k) else k)"
  by pat_completeness auto
termination
  by (relation "measure (\<lambda>(a, b, pre, k). length a - k)") auto

declare suffix_from.simps [simp del]

definition within_budget :: "jstring list \<Rightarrow> jstring list \<Rightarrow> bool" where
  "within_budget aMiddle bMiddle \<longleftrightarrow> (length aMiddle + 1) * (length bMiddle + 1) \<le> max_diff_cells"

definition diff_lines :: "jstring list \<Rightarrow> jstring list \<Rightarrow> diff_entry list" where
  "diff_lines a b =
     (let pre = common_prefix a b;
          suf = suffix_from a b pre 0;
          aMiddle = take (length a - suf - pre) (drop pre a);
          bMiddle = take (length b - suf - pre) (drop pre b)
      in equal_entries 0 0 (take pre a)
         @ (if within_budget aMiddle bMiddle then lcs_entries aMiddle bMiddle pre pre
            else fallback_entries aMiddle bMiddle pre pre)
         @ equal_entries (length a - suf) (length b - suf) (drop (length a - suf) a))"

section \<open>The longest common subsequence\<close>

fun lcs :: "'a list \<Rightarrow> 'a list \<Rightarrow> nat" where
  "lcs [] ys = 0"
| "lcs (x # xs) [] = 0"
| "lcs (x # xs) (y # ys) = (if x = y then Suc (lcs xs ys) else max (lcs xs (y # ys)) (lcs (x # xs) ys))"

lemma lcs_Nil2 [simp]: "lcs xs [] = 0"
  by (cases xs) auto

lemma lcs_attained: "\<exists>zs. subseq zs xs \<and> subseq zs ys \<and> length zs = lcs xs ys"
proof (induction xs ys rule: lcs.induct)
  case (1 ys)
  then show ?case by (intro exI [of _ "[]"]) simp
next
  case (2 x xs)
  then show ?case by (intro exI [of _ "[]"]) simp
next
  case (3 x xs y ys)
  show ?case
  proof (cases "x = y")
    case True
    with 3 obtain zs where "subseq zs xs" "subseq zs ys" "length zs = lcs xs ys" by blast
    with True show ?thesis by (intro exI [of _ "x # zs"]) simp
  next
    case False
    with 3 obtain us vs where "subseq us xs" "subseq us (y # ys)" "length us = lcs xs (y # ys)"
      "subseq vs (x # xs)" "subseq vs ys" "length vs = lcs (x # xs) ys" by blast
    then show ?thesis
      using False by (cases "lcs xs (y # ys) \<le> lcs (x # xs) ys") (auto simp: max_def intro: list_emb_Cons)
  qed
qed

lemma lcs_bound: "subseq zs xs \<Longrightarrow> subseq zs ys \<Longrightarrow> length zs \<le> lcs xs ys"
proof (induction xs ys arbitrary: zs rule: lcs.induct)
  case (3 x xs y ys)
  show ?case
  proof (cases "x = y")
    case True
    show ?thesis
    proof (cases zs)
      case (Cons z zs')
      with "3.prems" have "subseq zs' xs" "subseq zs' ys"
        by (metis subseq_Cons' subseq_Cons2' subseq_Cons2_neq)+
      with 3 True Cons show ?thesis by simp
    qed simp
  next
    case False
    show ?thesis
    proof (cases zs)
      case (Cons z zs')
      with False have "z \<noteq> x \<or> z \<noteq> y" by auto
      with "3.prems" Cons have "subseq zs xs \<or> subseq zs ys" by (metis subseq_Cons2_neq)
      with 3 False show ?thesis by (auto simp: le_max_iff_disj)
    qed simp
  qed
qed auto

lemma subseq_rev: "subseq xs ys \<Longrightarrow> subseq (rev xs) (rev ys)"
proof (induction rule: list_emb.induct)
  case (list_emb_Cons xs ys y)
  then show ?case using list_emb_append_mono [of "(=)" "rev xs" "rev ys" "[]" "[y]"] by simp
next
  case (list_emb_Cons2 x y xs ys)
  then show ?case using list_emb_append_mono [of "(=)" "rev xs" "rev ys" "[x]" "[y]"] by simp
qed simp

lemma lcs_rev: "lcs (rev xs) (rev ys) = lcs xs ys"
proof (rule antisym)
  obtain zs where "subseq zs (rev xs)" "subseq zs (rev ys)" "length zs = lcs (rev xs) (rev ys)"
    using lcs_attained by blast
  then show "lcs (rev xs) (rev ys) \<le> lcs xs ys"
    using lcs_bound [of "rev zs" xs ys] by (metis length_rev rev_rev_ident subseq_rev)
next
  obtain zs where "subseq zs xs" "subseq zs ys" "length zs = lcs xs ys"
    using lcs_attained by blast
  then show "lcs xs ys \<le> lcs (rev xs) (rev ys)"
    using lcs_bound [of "rev zs" "rev xs" "rev ys"] by (metis length_rev subseq_rev)
qed

lemma lcs_prefix: "lcs (ps @ xs) (ps @ ys) = length ps + lcs xs ys"
  by (induction ps) auto

lemma lcs_suffix: "lcs (xs @ ss) (ys @ ss) = lcs xs ys + length ss"
  using lcs_prefix [of "rev ss" "rev xs" "rev ys"] lcs_rev [of "xs @ ss" "ys @ ss"] lcs_rev [of xs ys]
  by simp

section \<open>The table holds it\<close>

definition row_spec :: "jstring list \<Rightarrow> jstring list \<Rightarrow> nat list" where
  "row_spec xs b = map (\<lambda>j. lcs xs (drop j b)) [0..<Suc (length b)]"

lemma row_spec_Nil [simp]: "row_spec xs [] = [0]"
  by (simp add: row_spec_def)

lemma row_spec_Cons [simp]: "row_spec xs (y # ys) = lcs xs (y # ys) # row_spec xs ys"
proof -
  have "[0..<Suc (length (y # ys))] = 0 # map Suc [0..<Suc (length ys)]"
    by (simp add: map_Suc_upt upt_conv_Cons del: upt_Suc)
  then show ?thesis by (simp add: row_spec_def del: upt_Suc)
qed

lemma hd_row_spec: "hd (row_spec xs ys) = lcs xs ys"
  by (cases ys) simp_all

lemma row_spec_1: "row_spec xs (y # ys) ! 1 = lcs xs ys"
  by (cases ys) simp_all

lemma lcs_row_spec: "lcs_row x b (row_spec xs b) = row_spec (x # xs) b"
proof (induction b)
  case (Cons y ys)
  then show ?case using row_spec_1 [of xs y ys] by (simp add: hd_row_spec Let_def del: nth_Cons_0)
qed simp

lemma lcs_table_spec: "lcs_table a b = map (\<lambda>i. row_spec (drop i a) b) [0..<Suc (length a)]"
proof (induction a)
  case Nil
  have "replicate (length b + 1) 0 = row_spec [] b"
    by (simp add: row_spec_def map_replicate_const del: upt_Suc)
  then show ?case by simp
next
  case (Cons x xs)
  have shift: "[0..<Suc (length (x # xs))] = 0 # map Suc [0..<Suc (length xs)]"
    by (simp add: map_Suc_upt upt_conv_Cons del: upt_Suc)
  have "hd (lcs_table xs b) = row_spec xs b"
    unfolding Cons.IH by (simp add: upt_conv_Cons del: upt_Suc)
  then show ?case
    using Cons.IH unfolding shift by (simp add: Let_def lcs_row_spec del: upt_Suc)
qed

lemma table_at_lcs:
  "i \<le> length a \<Longrightarrow> j \<le> length b \<Longrightarrow> table_at (lcs_table a b) i j = lcs (drop i a) (drop j b)"
  by (simp add: table_at_def lcs_table_spec row_spec_def del: upt_Suc)

section \<open>Both sides of a diff\<close>

fun a_side :: "diff_entry list \<Rightarrow> (nat \<times> jstring) list" where
  "a_side [] = []"
| "a_side (Equal t i j # es) = (i, t) # a_side es"
| "a_side (Delete t i # es) = (i, t) # a_side es"
| "a_side (Add t j # es) = a_side es"

fun b_side :: "diff_entry list \<Rightarrow> (nat \<times> jstring) list" where
  "b_side [] = []"
| "b_side (Equal t i j # es) = (j, t) # b_side es"
| "b_side (Delete t i # es) = b_side es"
| "b_side (Add t j # es) = (j, t) # b_side es"

fun kept :: "diff_entry list \<Rightarrow> jstring list" where
  "kept [] = []"
| "kept (Equal t i j # es) = t # kept es"
| "kept (Delete t i # es) = kept es"
| "kept (Add t j # es) = kept es"

lemma sides_append [simp]:
  "a_side (es @ fs) = a_side es @ a_side fs" "b_side (es @ fs) = b_side es @ b_side fs"
  "kept (es @ fs) = kept es @ kept fs"
  by (induction es rule: kept.induct) simp_all

lemma sides_delete [simp]:
  "a_side (delete_entries off ts) = List.enumerate off ts" "b_side (delete_entries off ts) = []"
  "kept (delete_entries off ts) = []"
  by (induction ts arbitrary: off) simp_all

lemma sides_add [simp]:
  "a_side (add_entries off ts) = []" "b_side (add_entries off ts) = List.enumerate off ts"
  "kept (add_entries off ts) = []"
  by (induction ts arbitrary: off) simp_all

lemma sides_equal [simp]:
  "a_side (equal_entries i j ts) = List.enumerate i ts" "b_side (equal_entries i j ts) = List.enumerate j ts"
  "kept (equal_entries i j ts) = ts"
  by (induction ts arbitrary: i j) simp_all

lemma enumerate_drop_Cons:
  "i < length a \<Longrightarrow> List.enumerate k (drop i a) = (k, a ! i) # List.enumerate (Suc k) (drop (Suc i) a)"
  by (subst Cons_nth_drop_Suc [symmetric]) simp_all

lemma lcs_walk_sides:
  "i \<le> length a \<Longrightarrow> j \<le> length b \<Longrightarrow>
     a_side (lcs_walk a b t aOff bOff i j) = List.enumerate (aOff + i) (drop i a)
   \<and> b_side (lcs_walk a b t aOff bOff i j) = List.enumerate (bOff + j) (drop j b)"
proof (induction a b t aOff bOff i j rule: lcs_walk.induct)
  case (1 a b t aOff bOff i j)
  show ?case
  proof (cases "i < length a \<and> j < length b")
    case True
    then have "i < length a" "j < length b" by simp_all
    with 1 enumerate_drop_Cons [of i a "aOff + i"] enumerate_drop_Cons [of j b "bOff + j"] show ?thesis
      by (subst (1 2) lcs_walk.simps) auto
  next
    case False
    then show ?thesis by (subst (1 2) lcs_walk.simps) auto
  qed
qed

lemma lcs_drop_Cons:
  "i < length a \<Longrightarrow> j < length b \<Longrightarrow> lcs (drop i a) (drop j b) =
     (if a ! i = b ! j then Suc (lcs (drop (Suc i) a) (drop (Suc j) b))
      else max (lcs (drop (Suc i) a) (drop j b)) (lcs (drop i a) (drop (Suc j) b)))"
  using Cons_nth_drop_Suc [of i a, symmetric] Cons_nth_drop_Suc [of j b, symmetric]
  by (simp only: lcs.simps)

lemma lcs_walk_kept:
  "i \<le> length a \<Longrightarrow> j \<le> length b \<Longrightarrow> t = lcs_table a b \<Longrightarrow>
     length (kept (lcs_walk a b t aOff bOff i j)) = lcs (drop i a) (drop j b)"
proof (induction a b t aOff bOff i j rule: lcs_walk.induct)
  case (1 a b t aOff bOff i j)
  show ?case
  proof (cases "i < length a \<and> j < length b")
    case True
    then have l: "i < length a" "j < length b" by simp_all
    with 1 lcs_drop_Cons [OF l] table_at_lcs [of "Suc i" a j b] table_at_lcs [of i a "Suc j" b]
    show ?thesis by (subst lcs_walk.simps) auto
  next
    case False
    with "1.prems" show ?thesis by (subst lcs_walk.simps) auto
  qed
qed

lemma fallback_sides [simp]:
  "a_side (fallback_entries a b i j) = List.enumerate i a"
  "b_side (fallback_entries a b i j) = List.enumerate j b"
  "kept (fallback_entries a b i j) = []"
  by (simp_all add: fallback_entries_def)

lemma lcs_entries_sides [simp]:
  "a_side (lcs_entries a b i j) = List.enumerate i a"
  "b_side (lcs_entries a b i j) = List.enumerate j b"
  using lcs_walk_sides [of 0 a 0 b "lcs_table a b" i j] by (auto simp: lcs_entries_def)

lemma lcs_entries_kept: "length (kept (lcs_entries a b i j)) = lcs a b"
  using lcs_walk_kept [of 0 a 0 b "lcs_table a b" i j] by (auto simp: lcs_entries_def)

section \<open>Trimming\<close>

lemma common_prefix_props:
  "common_prefix a b \<le> length a \<and> common_prefix a b \<le> length b
     \<and> take (common_prefix a b) a = take (common_prefix a b) b"
  by (induction a b rule: common_prefix.induct) auto

lemma suffix_from_props:
  "pre \<le> length a \<Longrightarrow> pre \<le> length b \<Longrightarrow> k \<le> length a - pre \<Longrightarrow> k \<le> length b - pre \<Longrightarrow>
     drop (length a - k) a = drop (length b - k) b \<Longrightarrow>
     (let s = suffix_from a b pre k
      in s \<le> length a - pre \<and> s \<le> length b - pre \<and> drop (length a - s) a = drop (length b - s) b)"
proof (induction a b pre k rule: suffix_from.induct)
  case (1 a b pre k)
  show ?case
  proof (cases "k < length a - pre \<and> k < length b - pre \<and> a ! (length a - 1 - k) = b ! (length b - 1 - k)")
    case True
    have cons: "drop (length xs - Suc k) xs = xs ! (length xs - 1 - k) # drop (length xs - k) xs"
      if "k < length xs" for xs :: "jstring list"
      using Cons_nth_drop_Suc [of "length xs - Suc k" xs] that by (simp add: Suc_diff_Suc)
    from True have "k < length a - pre" "k < length b - pre" by blast+
    then have "k < length a" "k < length b" by linarith+
    with True "1.prems" cons [of a] cons [of b]
    have "drop (length a - Suc k) a = drop (length b - Suc k) b" by simp
    with True "1.IH" "1.prems" show ?thesis by (subst suffix_from.simps) auto
  next
    case False
    with "1.prems" show ?thesis by (subst suffix_from.simps) (auto simp: Let_def)
  qed
qed

lemma enumerate_append:
  "List.enumerate n (xs @ ys) = List.enumerate n xs @ List.enumerate (n + length xs) ys"
  by (simp add: enumerate_append_eq)

lemma three_parts:
  assumes "p \<le> length a" and "s \<le> length a - p"
  shows "a = take p a @ take (length a - s - p) (drop p a) @ drop (length a - s) a"
proof -
  have "drop (length a - s) a = drop (length a - s - p) (drop p a)"
    using assms by (simp add: drop_drop)
  then show ?thesis by (metis append_take_drop_id)
qed

lemma diff_lines_trims:
  "\<exists>ps am bm ss. a = ps @ am @ ss \<and> b = ps @ bm @ ss
     \<and> diff_lines a b = equal_entries 0 0 ps
         @ (if within_budget am bm then lcs_entries am bm (length ps) (length ps)
            else fallback_entries am bm (length ps) (length ps))
         @ equal_entries (length ps + length am) (length ps + length bm) ss"
proof -
  let ?p = "common_prefix a b" and ?s = "suffix_from a b (common_prefix a b) 0"
  let ?am = "take (length a - ?s - ?p) (drop ?p a)" and ?bm = "take (length b - ?s - ?p) (drop ?p b)"
  have p: "?p \<le> length a" "?p \<le> length b" "take ?p a = take ?p b"
    using common_prefix_props [of a b] by simp_all
  have s: "?s \<le> length a - ?p" "?s \<le> length b - ?p" "drop (length a - ?s) a = drop (length b - ?s) b"
    using suffix_from_props [OF p(1,2), of 0] by (simp_all add: Let_def)
  have len: "length (take ?p a) = ?p" "?p + length ?am = length a - ?s" "?p + length ?bm = length b - ?s"
    using p s by simp_all
  show ?thesis
  proof (intro exI conjI)
    show "a = take ?p a @ ?am @ drop (length a - ?s) a" by (rule three_parts [OF p(1) s(1)])
    show "b = take ?p a @ ?bm @ drop (length a - ?s) a"
      using three_parts [OF p(2) s(2)] unfolding p(3) s(3) .
    show "diff_lines a b = equal_entries 0 0 (take ?p a)
         @ (if within_budget ?am ?bm then lcs_entries ?am ?bm (length (take ?p a)) (length (take ?p a))
            else fallback_entries ?am ?bm (length (take ?p a)) (length (take ?p a)))
         @ equal_entries (length (take ?p a) + length ?am) (length (take ?p a) + length ?bm)
             (drop (length a - ?s) a)"
      unfolding len diff_lines_def Let_def ..
  qed
qed

text \<open>The diff of any two screens, whatever their size and whether or not the middle fits the table,
  replays both: its equal and deleted lines are screen A line by line with their row numbers, and
  its equal and added lines are screen B.
\<close>
theorem diff_replays:
  "a_side (diff_lines a b) = List.enumerate 0 a \<and> b_side (diff_lines a b) = List.enumerate 0 b"
  using diff_lines_trims [of a b] by (auto simp: enumerate_append)

lemma diff_sides:
  "map snd (a_side (diff_lines a b)) = a \<and> map snd (b_side (diff_lines a b)) = b"
  using diff_lines_trims [of a b] by (auto simp: enumerate_append)

lemma kept_subseq: "subseq (kept es) (map snd (a_side es)) \<and> subseq (kept es) (map snd (b_side es))"
  by (induction es rule: kept.induct) auto

text \<open>C23: For screens within the budget the diff is minimal: the lines it keeps are common to both
  screens in order, and no other common subsequence of the two screens is longer, although the
  table covers only the middle that is left after trimming.
\<close>
theorem diff_minimal:
  assumes "within_budget a b"
  shows "subseq (kept (diff_lines a b)) a \<and> subseq (kept (diff_lines a b)) b
    \<and> (subseq zs a \<and> subseq zs b \<longrightarrow> length zs \<le> length (kept (diff_lines a b)))"
proof -
  obtain ps am bm ss where d: "a = ps @ am @ ss" "b = ps @ bm @ ss"
    and e: "diff_lines a b = equal_entries 0 0 ps
         @ (if within_budget am bm then lcs_entries am bm (length ps) (length ps)
            else fallback_entries am bm (length ps) (length ps))
         @ equal_entries (length ps + length am) (length ps + length bm) ss"
    using diff_lines_trims by metis
  have "(length am + 1) * (length bm + 1) \<le> (length a + 1) * (length b + 1)"
    using d by (intro mult_le_mono) simp_all
  with assms have "within_budget am bm" by (simp add: within_budget_def)
  with e have "length (kept (diff_lines a b)) = lcs a b"
    using d by (simp add: lcs_entries_kept lcs_prefix lcs_suffix)
  then show ?thesis
    using kept_subseq [of "diff_lines a b"] diff_sides [of a b] lcs_bound [of zs a b] by simp
qed

definition screen_a :: "jstring list" where
  "screen_a = [js ''title'', js ''one'', js ''two'', js ''$'']"

definition screen_b :: "jstring list" where
  "screen_b = [js ''title'', js ''two'', js ''three'', js ''$'']"

theorem diff_minimal_witness:
  "length [js ''title'', js ''two'', js ''$''] \<le> length (kept (diff_lines screen_a screen_b))"
proof -
  have "within_budget screen_a screen_b"
    by (simp add: within_budget_def screen_a_def screen_b_def max_diff_cells_def)
  from diff_minimal [OF this, of "[js ''title'', js ''two'', js ''$'']"] show ?thesis
    by (simp add: screen_a_def screen_b_def)
qed

end
