(* ===== verification/Replay.thy ===== *)
theory Replay
  imports Complex_Main EventLog SessionModel
begin

text \<open>
  The replay of an event log into a renderer backend: the input of a replay, the events of it that
  a backend has not applied yet, and the replay of a long backlog in slices. What the slices need
  of a backend is the locale \<open>replay_backend\<close>; the backends themselves are in theory \<open>Backends\<close>.
\<close>

section \<open>The input of a replay\<close>

record replay_input =
  ri_session :: jstring
  ri_cols :: int
  ri_rows :: int
  ri_events :: "event_record list"
  ri_target :: int

definition opt_ok :: "('a \<Rightarrow> bool) \<Rightarrow> 'a option \<Rightarrow> bool" where
  "opt_ok p x = (case x of None \<Rightarrow> True | Some y \<Rightarrow> p y)"

lemma opt_ok_simps [simp]: "opt_ok p None" "opt_ok p (Some x) = p x"
  by (simp_all add: opt_ok_def)

definition session_record_schema :: "(jstring \<Rightarrow> bool) \<Rightarrow> session \<Rightarrow> bool" where
  \<comment> \<open>The verdict on an ISO time is an argument.\<close>
  "session_record_schema iso_date m \<longleftrightarrow>
     iso_date (s_created_at m) \<and> iso_date (s_updated_at m)
     \<and> opt_ok (\<lambda>t. t \<noteq> []) (s_failure_reason m) \<and> s_command m \<noteq> []
     \<and> opt_ok (\<lambda>t. t \<noteq> []) (s_name m) \<and> opt_ok (\<lambda>env. [] \<notin> set (map fst env)) (s_env m)
     \<and> opt_ok (\<lambda>t. t \<noteq> []) (s_shell m) \<and> opt_ok (\<lambda>t. t \<noteq> []) (s_term m)
     \<and> 0 < s_cols m \<and> 0 < s_rows m
     \<and> opt_ok (\<lambda>n. 0 < n) (s_creation_cols m) \<and> opt_ok (\<lambda>n. 0 < n) (s_creation_rows m)
     \<and> opt_ok (\<lambda>n. 0 \<le> n) (s_idle_timeout_ms m)
     \<and> opt_ok (\<lambda>n. 0 < n) (s_host_pid m) \<and> opt_ok (\<lambda>n. 0 < n) (s_child_pid m)"

definition event_record_schema :: "(jstring \<Rightarrow> bool) \<Rightarrow> event_record \<Rightarrow> bool" where
  "event_record_schema iso_date r \<longleftrightarrow> iso_date (ev_ts r) \<and> valid_payload (ev_payload r)"

fun check_records :: "(jstring \<Rightarrow> bool) \<Rightarrow> nat \<Rightarrow> event_record list \<Rightarrow> unit res" where
  "check_records iso_date i [] = Inr ()"
| "check_records iso_date i (r # rs) =
     check_str (event_record_schema iso_date r)
       (js ''event log record '' @ nat_digits i @ js '' must match EventRecordSchema'')
       (check_records iso_date (i + 1) rs)"

definition validate_event_records ::
  "(jstring \<Rightarrow> bool) \<Rightarrow> event_record list \<Rightarrow> event_record list res" where
  "validate_event_records iso_date events =
     bind_res (check_records iso_date 0 events)
       (\<lambda>_. bind_res (assert_contiguous_sequence events) (\<lambda>_. Inr events))"

definition initial_cols :: "session \<Rightarrow> int" where
  "initial_cols m = (case s_creation_cols m of Some c \<Rightarrow> c | None \<Rightarrow> s_cols m)"

definition initial_rows :: "session \<Rightarrow> int" where
  "initial_rows m = (case s_creation_rows m of Some r \<Rightarrow> r | None \<Rightarrow> s_rows m)"

definition last_seq :: "event_record list \<Rightarrow> int" where
  "last_seq events = (if events = [] then -1 else int (ev_seq (last events)))"

definition build_replay_input ::
  "(jstring \<Rightarrow> bool) \<Rightarrow> jstring \<Rightarrow> session \<Rightarrow> event_record list \<Rightarrow> int option \<Rightarrow> bool \<Rightarrow> replay_input res" where
  "build_replay_input iso_date sessionId m events targetSeq trustValidated =
     check (sessionId \<noteq> []) ''sessionId must be a non-empty string''
     (check (session_record_schema iso_date m) ''manifest must match SessionRecordSchema''
     (check (s_id m \<noteq> []) ''manifest sessionId must be a non-empty string''
     (check (s_id m = sessionId) ''sessionId must match manifest sessionId''
     (check (initial_cols m > 0) ''initial cols must be positive''
     (check (initial_rows m > 0) ''initial rows must be positive''
     (bind_res (if trustValidated then Inr events else validate_event_records iso_date events)
       (\<lambda>validated.
         let target = (case targetSeq of Some q \<Rightarrow> q | None \<Rightarrow> last_seq validated);
             input = \<lparr>ri_session = sessionId, ri_cols = initial_cols m, ri_rows = initial_rows m,
                      ri_events = validated, ri_target = target\<rparr>
         in if validated = []
            then check (target = -1) ''targetSeq must be -1 when replay has no events'' (Inr input)
            else check (target \<ge> 0) ''targetSeq must be non-negative''
                 (check (target \<le> last_seq validated) ''targetSeq must not exceed the last event seq''
                 (Inr input)))))))))"

section \<open>The events of a replay that are left\<close>

text \<open>
  The generator of the events after \<open>lastAppliedSeq\<close> up to the target gives the events that it
  yields, and whether it ended or threw because the order is broken.
\<close>

fun in_range_from :: "int \<Rightarrow> int \<Rightarrow> int \<Rightarrow> event_record list \<Rightarrow> event_record list \<times> bool" where
  "in_range_from previous lastApplied target [] = ([], True)"
| "in_range_from previous lastApplied target (e # es) =
     (if \<not> int (ev_seq e) > previous then ([], False)
      else if int (ev_seq e) \<le> lastApplied then in_range_from (int (ev_seq e)) lastApplied target es
      else if int (ev_seq e) > target then ([], True)
      else case in_range_from (int (ev_seq e)) lastApplied target es of (rs, ok) \<Rightarrow> (e # rs, ok))"

definition iterate_in_range :: "replay_input \<Rightarrow> int \<Rightarrow> event_record list \<times> bool" where
  "iterate_in_range input lastApplied =
     in_range_from (-1) lastApplied (ri_target input) (ri_events input)"

definition ordered :: "event_record list \<Rightarrow> bool" where
  "ordered es \<longleftrightarrow> sorted_wrt (<) (map ev_seq es)"

definition left_after :: "int \<Rightarrow> int \<Rightarrow> event_record list \<Rightarrow> event_record list" where
  "left_after lastApplied target es =
     filter (\<lambda>e. lastApplied < int (ev_seq e) \<and> int (ev_seq e) \<le> target) es"

lemma in_range_from_ordered:
  "ordered es \<Longrightarrow> (\<forall>e \<in> set es. previous < int (ev_seq e)) \<Longrightarrow>
     in_range_from previous lastApplied target es = (left_after lastApplied target es, True)"
proof (induction es arbitrary: previous)
  case Nil
  then show ?case by (simp add: left_after_def)
next
  case (Cons e es)
  then have rest: "in_range_from (int (ev_seq e)) lastApplied target es = (left_after lastApplied target es, True)"
    by (intro Cons.IH) (auto simp: ordered_def)
  have "left_after lastApplied target es = []" if "target < int (ev_seq e)"
    using that Cons.prems(1) by (force simp: left_after_def ordered_def filter_empty_conv)
  with rest Cons.prems(2) show ?case by (auto simp: left_after_def)
qed

lemma iterate_in_range_ordered:
  "ordered (ri_events input) \<Longrightarrow>
     iterate_in_range input lastApplied = (left_after lastApplied (ri_target input) (ri_events input), True)"
  unfolding iterate_in_range_def by (rule in_range_from_ordered) auto

lemma contiguous_ordered: "contiguous rs \<Longrightarrow> ordered rs"
  by (simp add: contiguous_def ordered_def sorted_wrt_upt)

section \<open>Slices\<close>

definition first_slice_events :: nat where
  "first_slice_events = 32"

definition target_slice_ms :: nat where
  "target_slice_ms = 500"

definition max_slice_bytes :: nat where
  "max_slice_bytes = 1024 * 1024"

definition max_slice_flushes :: nat where
  "max_slice_flushes = 16"

definition max_slice_scale :: nat where
  "max_slice_scale = 4"

function count_between :: "event_record list \<Rightarrow> int \<Rightarrow> nat \<Rightarrow> nat \<Rightarrow> nat" where
  "count_between events q low high =
     (if low < high
      then let middle = (low + high) div 2
           in if int (ev_seq (events ! middle)) \<le> q then count_between events q (middle + 1) high
              else count_between events q low middle
      else low)"
  by pat_completeness auto
termination by (relation "measure (\<lambda>(_, _, low, high). high - low)") auto

declare count_between.simps [simp del]

definition count_events_through :: "event_record list \<Rightarrow> int \<Rightarrow> nat" where
  "count_events_through events q = count_between events q 0 (length events)"

definition output_bytes :: "event_record \<Rightarrow> nat" where
  "output_bytes e = (case ev_payload e of Output d \<Rightarrow> utf8_length d | _ \<Rightarrow> 0)"

definition output_event :: "event_record \<Rightarrow> bool" where
  "output_event e = is_output (ev_payload e)"

function slice_from ::
  "event_record list \<Rightarrow> nat \<Rightarrow> nat \<Rightarrow> nat \<Rightarrow> nat \<Rightarrow> bool \<Rightarrow> nat \<Rightarrow> nat" where
  "slice_from events start limit bytes flushes outputPending index =
     (if index < limit
      then let event = events ! index;
               bytes1 = bytes + output_bytes event;
               flushes1 = (if \<not> output_event event \<and> outputPending then flushes + 1 else flushes)
           in if index > start \<and> (bytes1 > max_slice_bytes \<or> flushes1 > max_slice_flushes)
              then index
              else slice_from events start limit bytes1 flushes1 (output_event event) (index + 1)
      else index)"
  by pat_completeness auto
termination by (relation "measure (\<lambda>(_, _, limit, _, _, _, index). limit - index)") auto

declare slice_from.simps [simp del]

definition slice_end :: "event_record list \<Rightarrow> nat \<Rightarrow> nat \<Rightarrow> nat \<Rightarrow> nat res" where
  "slice_end events start end' maxEvents =
     check (0 < maxEvents) ''slice event limit must be a positive integer''
       (Inr (slice_from events start (min end' (start + maxEvents)) 0 0 False start))"

definition next_slice_size :: "nat \<Rightarrow> rat \<Rightarrow> nat res" where
  "next_slice_size n elapsedMs =
     check (0 < n) ''slice size must be a positive integer''
       (let scaled = \<lfloor>of_nat (n * target_slice_ms) / max elapsedMs 1 + 1 / 2\<rfloor>
        in Inr (nat (min (int (n * max_slice_scale))
                      (max \<lceil>of_nat n / (of_nat max_slice_scale :: rat)\<rceil> scaled))))"


subsection \<open>The search for a sequence number\<close>

lemma count_between_eq:
  assumes "ordered events" and "high \<le> length events"
    and "\<forall>i < low. int (ev_seq (events ! i)) \<le> q"
    and "\<forall>i. high \<le> i \<and> i < length events \<longrightarrow> q < int (ev_seq (events ! i))"
    and "low \<le> high"
  shows "count_between events q low high = length (takeWhile (\<lambda>e. int (ev_seq e) \<le> q) events)"
  using assms
proof (induction events q low high rule: count_between.induct)
  case (1 events q low high)
  let ?m = "(low + high) div 2"
  have less: "i < j \<Longrightarrow> j < length events \<Longrightarrow> ev_seq (events ! i) < ev_seq (events ! j)" for i j
    using 1(3) sorted_wrt_nth_less [of "(<)" "map ev_seq events" i j] by (simp add: ordered_def)
  show ?case
  proof (cases "low < high")
    case True
    then have m: "low \<le> ?m" "?m < high" "?m < length events" using 1(4) by auto
    show ?thesis
    proof (cases "int (ev_seq (events ! ?m)) \<le> q")
      case le: True
      have "int (ev_seq (events ! i)) \<le> q" if "i < ?m + 1" for i
        using le less [of i ?m] m that by (cases "i = ?m") force+
      with True le m 1 show ?thesis
        by (subst count_between.simps) (simp add: Let_def)
    next
      case gt: False
      have "q < int (ev_seq (events ! i))" if "?m \<le> i" "i < length events" for i
        using gt less [of ?m i] that by (cases "i = ?m") force+
      with True gt m 1 show ?thesis
        by (subst count_between.simps) (simp add: Let_def)
    qed
  next
    case False
    with 1 have "low = high" by simp
    with 1 have "takeWhile (\<lambda>e. int (ev_seq e) \<le> q) events = take low events"
      by (intro takeWhile_eq_take_P_nth) auto
    with False \<open>low = high\<close> 1 show ?thesis by (subst count_between.simps) simp
  qed
qed

lemma count_events_through_eq:
  "ordered events \<Longrightarrow>
     count_events_through events q = length (takeWhile (\<lambda>e. int (ev_seq e) \<le> q) events)"
  unfolding count_events_through_def by (rule count_between_eq) auto

lemma count_events_through_le: "ordered es \<Longrightarrow> count_events_through es q \<le> length es"
  by (simp add: count_events_through_eq length_takeWhile_le)

lemma count_less_iff:
  assumes "ordered es" and "i < length es"
  shows "i < count_events_through es q \<longleftrightarrow> int (ev_seq (es ! i)) \<le> q"
proof -
  have less: "i < j \<Longrightarrow> j < length es \<Longrightarrow> ev_seq (es ! i) < ev_seq (es ! j)" for i j
    using assms(1) sorted_wrt_nth_less [of "(<)" "map ev_seq es" i j] by (simp add: ordered_def)
  let ?k = "length (takeWhile (\<lambda>e. int (ev_seq e) \<le> q) es)"
  have "int (ev_seq (es ! i)) \<le> q" if "i < ?k"
    using that nth_mem set_takeWhileD takeWhile_nth by metis
  moreover have "q < int (ev_seq (es ! i))" if "\<not> i < ?k"
  proof -
    have "?k < length es" using assms(2) that by simp
    then have "q < int (ev_seq (es ! ?k))" using nth_length_takeWhile by force
    with less [of ?k i] assms(2) that show ?thesis by (cases "i = ?k") force+
  qed
  ultimately show ?thesis using count_events_through_eq [OF assms(1)] by force
qed

lemma count_mono:
  "ordered es \<Longrightarrow> q \<le> q' \<Longrightarrow> count_events_through es q \<le> count_events_through es q'"
proof (rule ccontr)
  assume es: "ordered es" and q: "q \<le> q'"
    and "\<not> count_events_through es q \<le> count_events_through es q'"
  then have i: "count_events_through es q' < count_events_through es q" by simp
  then have len: "count_events_through es q' < length es"
    using count_events_through_le [OF es, of q] by simp
  from i have "int (ev_seq (es ! count_events_through es q')) \<le> q'"
    using count_less_iff [OF es len, of q] q by simp
  then show False using count_less_iff [OF es len, of q'] by simp
qed

subsection \<open>The size of a slice\<close>

definition slice_bytes :: "event_record list \<Rightarrow> nat \<Rightarrow> nat \<Rightarrow> nat" where
  "slice_bytes es start k = (\<Sum>i = start..<k. output_bytes (es ! i))"

definition flush_points :: "event_record list \<Rightarrow> nat \<Rightarrow> nat \<Rightarrow> nat set" where
  \<comment> \<open>where an event follows output, so that a renderer writes its batch\<close>
  "flush_points es start k =
     {i. start < i \<and> i < k \<and> \<not> output_event (es ! i) \<and> output_event (es ! (i - 1))}"

definition slice_fits :: "event_record list \<Rightarrow> nat \<Rightarrow> nat \<Rightarrow> bool" where
  "slice_fits es start k \<longleftrightarrow> k \<le> start + 1
     \<or> slice_bytes es start k \<le> max_slice_bytes \<and> card (flush_points es start k) \<le> max_slice_flushes"

lemma finite_flush_points: "finite (flush_points es start k)"
  by (rule finite_subset [of _ "{start<..<k}"]) (auto simp: flush_points_def)

lemma slice_bytes_mono: "k \<le> k' \<Longrightarrow> slice_bytes es start k \<le> slice_bytes es start k'"
  unfolding slice_bytes_def by (rule sum_mono2) auto

lemma flush_points_mono: "k \<le> k' \<Longrightarrow> card (flush_points es start k) \<le> card (flush_points es start k')"
  by (rule card_mono [OF finite_flush_points]) (auto simp: flush_points_def)

lemma slice_bytes_Suc: "start \<le> k \<Longrightarrow> slice_bytes es start (Suc k) = slice_bytes es start k + output_bytes (es ! k)"
  by (simp add: slice_bytes_def)

lemma flush_points_Suc:
  "start \<le> k \<Longrightarrow> card (flush_points es start (Suc k)) = card (flush_points es start k)
     + (if start < k \<and> \<not> output_event (es ! k) \<and> output_event (es ! (k - 1)) then 1 else 0)"
proof -
  have "flush_points es start (Suc k) =
      (if start < k \<and> \<not> output_event (es ! k) \<and> output_event (es ! (k - 1))
       then insert k (flush_points es start k) else flush_points es start k)"
    by (auto simp: flush_points_def less_Suc_eq)
  moreover have "k \<notin> flush_points es start k" by (simp add: flush_points_def)
  ultimately show ?thesis by (simp add: finite_flush_points)
qed

lemma slice_fits_antimono: "slice_fits es start k' \<Longrightarrow> k \<le> k' \<Longrightarrow> slice_fits es start k"
  using slice_bytes_mono [of k k' es start] flush_points_mono [of k k' es start]
  by (auto simp: slice_fits_def)

definition longest_slice :: "event_record list \<Rightarrow> nat \<Rightarrow> nat \<Rightarrow> nat \<Rightarrow> bool" where
  "longest_slice es start limit k \<longleftrightarrow>
     start \<le> k \<and> k \<le> limit \<and> (start < limit \<longrightarrow> start < k) \<and> slice_fits es start k
     \<and> (\<forall>k'. k < k' \<and> k' \<le> limit \<longrightarrow> \<not> slice_fits es start k')"

lemma slice_from_longest:
  assumes "start \<le> index" and "index \<le> limit" and "slice_fits es start index"
    and "bytes = slice_bytes es start index" and "flushes = card (flush_points es start index)"
    and "pending = (start < index \<and> output_event (es ! (index - 1)))"
    and "start < limit \<longrightarrow> start < index \<or> index < limit"
  shows "longest_slice es start limit (slice_from es start limit bytes flushes pending index)"
  using assms
proof (induction es start limit bytes flushes pending index rule: slice_from.induct)
  case (1 es start limit bytes flushes pending index)
  show ?case
  proof (cases "index < limit")
    case True
    let ?b = "bytes + output_bytes (es ! index)"
    let ?f = "if \<not> output_event (es ! index) \<and> pending then flushes + 1 else flushes"
    have b: "?b = slice_bytes es start (index + 1)" and f: "?f = card (flush_points es start (index + 1))"
      using "1.prems" by (simp_all add: slice_bytes_Suc flush_points_Suc)
    show ?thesis
    proof (cases "index > start \<and> (?b > max_slice_bytes \<or> ?f > max_slice_flushes)")
      case stop: True
      then have "slice_from es start limit bytes flushes pending index = index"
        using True by (subst slice_from.simps) (simp add: Let_def)
      moreover have "\<not> slice_fits es start k'" if "index < k'" for k'
      proof -
        have "\<not> slice_fits es start (index + 1)"
          using stop unfolding b f by (auto simp: slice_fits_def)
        then show ?thesis using slice_fits_antimono that by fastforce
      qed
      ultimately show ?thesis using "1.prems"(1-3) stop by (simp add: longest_slice_def)
    next
      case go: False
      then have step: "slice_from es start limit bytes flushes pending index
          = slice_from es start limit ?b ?f (output_event (es ! index)) (index + 1)"
        by (subst slice_from.simps) (simp only: Let_def True go if_True if_False)
      have fits: "slice_fits es start (index + 1)"
        using go "1.prems"(1) unfolding b f by (auto simp: slice_fits_def)
      show ?thesis
        unfolding step
        by (rule "1.IH" [OF True refl refl refl go _ _ fits b f]) (use True "1.prems"(1) in simp_all)
    qed
  next
    case False
    with "1.prems" show ?thesis by (subst slice_from.simps) (auto simp: longest_slice_def)
  qed
qed

lemma slice_end_longest:
  assumes "start \<le> stop" and "0 < n"
  obtains k where "slice_end es start stop n = Inr k" and "longest_slice es start (min stop (start + n)) k"
proof -
  have "slice_fits es start start" by (simp add: slice_fits_def)
  from slice_from_longest [of start start "min stop (start + n)" es 0 0 False] this assms that show ?thesis
    by (simp add: slice_end_def slice_bytes_def flush_points_def)
qed

lemma next_slice_size_Inr:
  assumes "0 < n"
  obtains m where "next_slice_size n elapsed = Inr m" and "0 < m" and "m \<le> n * 4" and "n \<le> m * 4"
proof -
  let ?s = "\<lfloor>of_nat (n * target_slice_ms) / max elapsed 1 + 1 / 2\<rfloor>"
  let ?c = "\<lceil>(of_nat n :: rat) / 4\<rceil>"
  let ?m = "nat (min (int (n * 4)) (max ?c ?s))"
  have c: "(of_nat n :: rat) / 4 \<le> of_int ?c" by (rule le_of_int_ceiling)
  then have "(of_nat n :: rat) \<le> 4 * of_int ?c" by (simp only: divide_le_eq mult.commute)
  then have "(of_int (int n) :: rat) \<le> of_int (4 * ?c)" by (simp only: of_int_mult of_int_of_nat_eq of_int_numeral)
  then have c1: "int n \<le> 4 * ?c" unfolding of_int_le_iff .
  have "next_slice_size n elapsed = Inr ?m"
    using assms by (simp add: next_slice_size_def max_slice_scale_def Let_def)
  moreover have "0 < ?m" "?m \<le> n * 4" "n \<le> ?m * 4"
    using assms c1 by (auto simp: nat_le_iff)
  ultimately show ?thesis using that by blast
qed


section \<open>Replay in slices\<close>

record replay_state =
  rs_last_seq :: int
  rs_cols :: int
  rs_rows :: int
  rs_cursor_row :: int
  rs_cursor_col :: int

type_synonym 's replayer = "replay_input \<Rightarrow> 's \<Rightarrow> replay_state res \<times> 's"

text \<open>
  \<open>elapsed k\<close> is the time of the k-th slice. The states that \<open>onReplayed\<close> hears of are a result.
\<close>

lemma slice_end_step:
  "slice_end es first stop n = Inr k \<Longrightarrow> k < stop \<Longrightarrow> first < k"
proof -
  assume k: "slice_end es first stop n = Inr k" "k < stop"
  then have n: "0 < n" by (simp add: slice_end_def res_simps)
  have "k = slice_from es first (min stop (first + n)) 0 0 False first"
    using k(1) by (simp add: slice_end_def res_simps)
  then show "first < k"
  proof (cases "first < stop")
    case True
    with slice_end_longest [of first stop n es] n k show ?thesis by (auto simp: longest_slice_def)
  next
    case False
    with k \<open>k = _\<close> show ?thesis by (subst (asm) slice_from.simps) auto
  qed
qed

function replay_slices ::
  "'s replayer \<Rightarrow> replay_input \<Rightarrow> nat \<Rightarrow> (nat \<Rightarrow> rat) \<Rightarrow> nat \<Rightarrow> nat \<Rightarrow> nat \<Rightarrow> 's
     \<Rightarrow> replay_state list \<Rightarrow> unit res \<times> 's \<times> replay_state list" where
  "replay_slices replay input end' elapsed k first n s reported =
     (case slice_end (ri_events input) first end' n of
        Inl e \<Rightarrow> (Inl e, s, reported)
      | Inr stop \<Rightarrow>
          if stop < end' then
            (case replay (input\<lparr>ri_events := take (stop - first) (drop first (ri_events input))\<rparr>) s of
               (Inl e, s1) \<Rightarrow> (Inl e, s1, reported)
             | (Inr st, s1) \<Rightarrow>
                 let reached = count_events_through (ri_events input) (rs_last_seq st)
                 in if stop \<le> reached \<and> reached \<le> end'
                    then (case (if stop - first = n then next_slice_size n (elapsed k) else Inr n) of
                            Inl e \<Rightarrow> (Inl e, s1, reported @ [st])
                          | Inr n1 \<Rightarrow>
                              replay_slices replay input end' elapsed (k + 1) reached n1 s1 (reported @ [st]))
                    else (Inl (Assertion (js ''a replay slice must end at its last event or at the backend position'')),
                          s1, reported @ [st]))
          else
            (case replay input s of
               (Inl e, s1) \<Rightarrow> (Inl e, s1, reported)
             | (Inr st, s1) \<Rightarrow> (Inr (), s1, reported @ [st])))"
  by pat_completeness auto
termination
  by (relation "measure (\<lambda>(_, _, end', _, _, first, _). end' - first)") (auto dest: slice_end_step)

declare replay_slices.simps [simp del]

definition replay_in_slices ::
  "'s replayer \<Rightarrow> replay_input \<Rightarrow> int \<Rightarrow> (nat \<Rightarrow> rat) \<Rightarrow> 's \<Rightarrow> unit res \<times> 's \<times> replay_state list" where
  "replay_in_slices replay input appliedSeq elapsed s =
     (if \<not> appliedSeq \<ge> -1
      then (Inl (Assertion (js ''appliedSeq must be an integer of at least -1'')), s, [])
      else replay_slices replay input (count_events_through (ri_events input) (ri_target input)) elapsed 0
             (count_events_through (ri_events input) appliedSeq) first_slice_events s [])"

text \<open>
  What the slices need of a backend: its position is the last event that it has applied, and a part
  of the events that it may hold already takes it no further than that part and changes nothing
  about the replay of the whole.
\<close>

locale replay_backend =
  fixes replay :: "'s replayer"
    and position :: "'s \<Rightarrow> int"
    and ready :: "replay_input \<Rightarrow> 's \<Rightarrow> bool"
  assumes position_in_range: "ready input s \<Longrightarrow> position s \<le> ri_target input"
    and part_of_replay:
      "ready input s \<Longrightarrow> ordered (ri_events input) \<Longrightarrow> ri_events input = before @ part @ after \<Longrightarrow>
       part \<noteq> [] \<Longrightarrow> int (ev_seq (last part)) \<le> ri_target input \<Longrightarrow>
       (\<forall>e \<in> set before. int (ev_seq e) \<le> position s) \<Longrightarrow>
       \<exists>st s1. replay (input\<lparr>ri_events := part\<rparr>) s = (Inr st, s1)
         \<and> rs_last_seq st = max (position s) (int (ev_seq (last part)))
         \<and> position s1 = rs_last_seq st \<and> ready input s1 \<and> replay input s1 = replay input s"
    and whole_replay:
      "ready input s \<Longrightarrow> ordered (ri_events input) \<Longrightarrow> \<exists>st s1. replay input s = (Inr st, s1)"
begin

lemma replay_slices_whole:
  assumes "ready input s" and "ordered (ri_events input)" and "0 < n"
    and "first \<le> count_events_through (ri_events input) (position s)"
    and "end' = count_events_through (ri_events input) (ri_target input)"
  shows "\<exists>sts st s1. replay_slices replay input end' elapsed k first n s reported = (Inr (), s1, reported @ sts @ [st])
    \<and> replay input s = (Inr st, s1) \<and> sorted_wrt (<) (map rs_last_seq sts)
    \<and> (\<forall>st \<in> set sts. position s \<le> rs_last_seq st
         \<and> (first = count_events_through (ri_events input) (position s) \<longrightarrow> position s < rs_last_seq st))"
  using assms
proof (induction "end' - first" arbitrary: k first n s reported rule: less_induct)
  case less
  let ?es = "ri_events input" and ?count = "count_events_through (ri_events input)"
  note le = count_events_through_le [OF less.prems(2)]
  have "?count (position s) \<le> ?count (ri_target input)"
    by (rule count_mono [OF less.prems(2) position_in_range [OF less.prems(1)]])
  then have first: "first \<le> end'" using less.prems(4,5) by simp
  obtain stop where stop: "slice_end ?es first end' n = Inr stop"
    "longest_slice ?es first (min end' (first + n)) stop"
    using slice_end_longest [OF first less.prems(3)] by blast
  show ?case
  proof (cases "stop < end'")
    case False
    from whole_replay [OF less.prems(1,2)] obtain st s1 where "replay input s = (Inr st, s1)" by blast
    with False stop(1) have "replay_slices replay input end' elapsed k first n s reported = (Inr (), s1, reported @ [] @ [st])
        \<and> replay input s = (Inr st, s1)"
      by (subst replay_slices.simps) simp
    then show ?thesis by fastforce
  next
    case True
    let ?part = "take (stop - first) (drop first ?es)"
    have fs: "first < stop" by (rule slice_end_step [OF stop(1) True])
    have len: "stop \<le> length ?es" "stop - 1 < length ?es" using True less.prems(5) le [of "ri_target input"] fs by simp_all
    have split: "?es = take first ?es @ ?part @ drop stop ?es"
      using fs by (metis append_take_drop_id drop_drop le_add_diff_inverse2 less_imp_le)
    have part: "?part \<noteq> []" using fs len by simp
    have last: "last ?part = ?es ! (stop - 1)"
      using part fs len by (simp add: last_conv_nth)
    have "stop - 1 < ?count (ri_target input)" using True less.prems(5) fs by simp
    then have in_target: "int (ev_seq (last ?part)) \<le> ri_target input"
      using count_less_iff [OF less.prems(2) len(2)] last by simp
    have held: "\<forall>e \<in> set (take first ?es). int (ev_seq e) \<le> position s"
    proof
      fix e assume "e \<in> set (take first ?es)"
      then obtain i where "i < first" "i < length ?es" "e = ?es ! i" by (auto simp: in_set_conv_nth)
      with count_less_iff [OF less.prems(2), of i "position s"] less.prems(4) show "int (ev_seq e) \<le> position s" by simp
    qed
    from part_of_replay [OF less.prems(1,2) split part in_target held] obtain st s1 where
      st: "replay (input\<lparr>ri_events := ?part\<rparr>) s = (Inr st, s1)" "position s1 = rs_last_seq st"
      and pos: "rs_last_seq st = max (position s) (int (ev_seq (last ?part)))"
      and s1: "ready input s1" "replay input s1 = replay input s" by blast
    let ?reached = "?count (rs_last_seq st)"
    have "stop - 1 < ?reached" using count_less_iff [OF less.prems(2) len(2)] pos last by simp
    then have reached: "stop \<le> ?reached" by simp
    have "rs_last_seq st \<le> ri_target input" using position_in_range [OF less.prems(1)] pos in_target by simp
    then have reached': "?reached \<le> end'" using count_mono [OF less.prems(2)] less.prems(5) by simp
    obtain n1 where n1: "(if stop - first = n then next_slice_size n (elapsed k) else Inr n) = Inr n1" "0 < n1"
    proof (cases "stop - first = n")
      case True
      obtain m where "next_slice_size n (elapsed k) = Inr m" "0 < m"
        by (rule next_slice_size_Inr [OF less.prems(3)])
      with True that show ?thesis by simp
    next
      case False
      with that less.prems(3) show ?thesis by simp
    qed
    have step: "replay_slices replay input end' elapsed k first n s reported
        = replay_slices replay input end' elapsed (k + 1) ?reached n1 s1 (reported @ [st])"
      using stop(1) True st(1) reached reached' n1(1) by (subst replay_slices.simps) simp
    have "end' - ?reached < end' - first" using fs reached True by simp
    from less.hyps [OF this s1(1) less.prems(2) n1(2) _ less.prems(5), of "k + 1" "reported @ [st]"] st(2)
    obtain sts st' s2 where
      rest: "replay_slices replay input end' elapsed (k + 1) ?reached n1 s1 (reported @ [st])
          = (Inr (), s2, (reported @ [st]) @ sts @ [st'])" "replay input s1 = (Inr st', s2)"
      and up: "sorted_wrt (<) (map rs_last_seq sts)" "\<forall>x \<in> set sts. rs_last_seq st < rs_last_seq x"
      by auto
    have "position s < rs_last_seq st" if "first = ?count (position s)"
    proof -
      have "\<not> stop - 1 < ?count (position s)" using that fs by simp
      then show ?thesis using count_less_iff [OF less.prems(2) len(2)] pos last by simp
    qed
    moreover have "position s \<le> rs_last_seq st" using pos by simp
    ultimately have "sorted_wrt (<) (map rs_last_seq (st # sts))
      \<and> (\<forall>x \<in> set (st # sts). position s \<le> rs_last_seq x \<and> (first = ?count (position s) \<longrightarrow> position s < rs_last_seq x))"
      using up by fastforce
    with step rest s1(2) show ?thesis by fastforce
  qed
qed

lemma replay_in_slices_whole:
  assumes "ready input s" and "ordered (ri_events input)" and "-1 \<le> applied" and "applied \<le> position s"
  obtains sts st s1 where "replay_in_slices replay input applied elapsed s = (Inr (), s1, sts @ [st])"
    and "replay input s = (Inr st, s1)" and "sorted_wrt (<) (map rs_last_seq sts)"
proof -
  have "count_events_through (ri_events input) applied \<le> count_events_through (ri_events input) (position s)"
    by (rule count_mono [OF assms(2,4)])
  from replay_slices_whole [OF assms(1,2) _ this refl, of first_slice_events elapsed 0 "[]"] assms(3) that
  show ?thesis by (auto simp: replay_in_slices_def first_slice_events_def)
qed

end


section \<open>The limits of a slice\<close>

text \<open>C28: The limits of a slice. From every start, the slice is the longest one that ends by the target,
  has at most the given number of events, and, unless it is one event, at most 1 MiB of output and
  16 points where a renderer has to write a batch of output; it is empty only when nothing is left.
  The next size differs from the last by a factor of 4 at most, and unless that factor limits it, the
  next slice takes the target time at the measured speed, up to the time of half an event.\<close>

theorem slice_limits:
  assumes "start \<le> stop" and "0 < n"
  shows "(\<exists>k. slice_end es start stop n = Inr k \<and> longest_slice es start (min stop (start + n)) k)
    \<and> (\<exists>m. next_slice_size n elapsed = Inr m \<and> 0 < m \<and> m \<le> n * 4 \<and> n \<le> m * 4
         \<and> (m < n * 4 \<and> n + 4 \<le> m * 4 \<longrightarrow>
              \<bar>of_nat m * max elapsed 1 - of_nat n * of_nat target_slice_ms\<bar> \<le> max elapsed 1 / 2))"
proof
  show "\<exists>k. slice_end es start stop n = Inr k \<and> longest_slice es start (min stop (start + n)) k"
    using slice_end_longest [OF assms] by blast
next
  obtain m where m: "next_slice_size n elapsed = Inr m" "0 < m" "m \<le> n * 4" "n \<le> m * 4"
    by (rule next_slice_size_Inr [OF assms(2)])
  let ?T = "max elapsed 1" and ?x = "of_nat (n * target_slice_ms) / max elapsed 1 :: rat"
  let ?c = "\<lceil>(of_nat n :: rat) / 4\<rceil>"
  have "\<bar>of_nat m * ?T - of_nat n * of_nat target_slice_ms\<bar> \<le> ?T / 2" if "m < n * 4" and "n + 4 \<le> m * 4"
  proof -
    have "of_int ?c < (of_nat n :: rat) / 4 + 1" by linarith
    also have "\<dots> \<le> of_nat m"
    proof -
      have "(of_nat (n + 4) :: rat) \<le> of_nat (m * 4)" using that(2) of_nat_le_iff by blast
      then show ?thesis by (simp add: field_simps)
    qed
    finally have "of_int ?c < (of_int (int m) :: rat)" by simp
    then have "?c < int m" unfolding of_int_less_iff .
    moreover have "m = nat (min (int (n * 4)) (max ?c \<lfloor>?x + 1 / 2\<rfloor>))"
      using m(1) assms(2) by (simp add: next_slice_size_def max_slice_scale_def Let_def)
    ultimately have "int m = \<lfloor>?x + 1 / 2\<rfloor>" using that(1) m(2) by (auto simp: min_def max_def split: if_splits)
    then have "of_int (int m) \<le> ?x + 1 / 2" "?x + 1 / 2 < of_int (int m) + 1"
      using of_int_floor_le [of "?x + 1 / 2"] floor_correct [of "?x + 1 / 2"] by simp_all
    then have "\<bar>of_nat m - ?x\<bar> \<le> 1 / 2" unfolding of_int_of_nat_eq by linarith
    then have "\<bar>of_nat m - ?x\<bar> * ?T \<le> 1 / 2 * ?T" by (rule mult_right_mono) simp
    moreover have "\<bar>of_nat m - ?x\<bar> * ?T = \<bar>(of_nat m - ?x) * ?T\<bar>" by (simp add: abs_mult)
    moreover have "(of_nat m - ?x) * ?T = of_nat m * ?T - of_nat n * of_nat target_slice_ms"
      by (simp add: field_simps)
    ultimately show ?thesis by simp
  qed
  with m show "\<exists>m. next_slice_size n elapsed = Inr m \<and> 0 < m \<and> m \<le> n * 4 \<and> n \<le> m * 4
         \<and> (m < n * 4 \<and> n + 4 \<le> m * 4 \<longrightarrow>
              \<bar>of_nat m * ?T - of_nat n * of_nat target_slice_ms\<bar> \<le> ?T / 2)" by blast
qed

theorem slice_limits_witness:
  "\<exists>k. slice_end [\<lparr>ev_seq = 0, ev_ts = [], ev_payload = Output (js ''a'')\<rparr>] 0 1 32 = Inr k
     \<and> longest_slice [\<lparr>ev_seq = 0, ev_ts = [], ev_payload = Output (js ''a'')\<rparr>] 0 1 k"
  using slice_limits [of 0 1 32 "[\<lparr>ev_seq = 0, ev_ts = [], ev_payload = Output (js ''a'')\<rparr>]" 500] by simp

end
