(* ===== verification/Backends.thy ===== *)
theory Backends
  imports Replay
begin

text \<open>
  The two renderer backends as far as their replays go: \<open>LibghosttyVtBackend\<close> feeds each output to
  a native terminal, \<open>GhosttyWebBackend\<close> collects outputs and writes them to a browser page in
  batches. The terminal emulator inside is an argument. Both give the laws of \<open>replay_backend\<close>, so
  the slices of theory \<open>Replay\<close> work on both.
\<close>

section \<open>Terminal emulators\<close>

record visible_line =
  vl_row :: int
  vl_text :: jstring

record screen =
  sz_cols :: int
  sz_rows :: int
  sz_cursor_row :: int
  sz_cursor_col :: int
  sz_is_alt_screen :: bool
  sz_visible :: "visible_line list"
  sz_scrollback :: "visible_line list option"

record ('t, 'n) emulator =
  em_feed :: "jstring \<Rightarrow> 't \<Rightarrow> 't"
  em_resize :: "int \<Rightarrow> int \<Rightarrow> 't \<Rightarrow> 't"
  em_snapshot :: "'t \<Rightarrow> 'n screen_scheme"

fun line_rows_ok :: "int \<Rightarrow> visible_line list \<Rightarrow> bool" where
  "line_rows_ok previous [] = True"
| "line_rows_ok previous (l # ls) = (0 \<le> vl_row l \<and> previous < vl_row l \<and> line_rows_ok (vl_row l) ls)"

definition screen_ok :: "'n screen_scheme \<Rightarrow> bool" where
  "screen_ok sn \<longleftrightarrow> 0 < sz_cols sn \<and> 0 < sz_rows sn \<and> 0 \<le> sz_cursor_row sn \<and> 0 \<le> sz_cursor_col sn
     \<and> sz_cursor_row sn < sz_rows sn \<and> sz_cursor_col sn < sz_cols sn
     \<and> line_rows_ok (-1) (sz_visible sn) \<and> int (length (sz_visible sn)) \<le> sz_rows sn
     \<and> (case sz_scrollback sn of None \<Rightarrow> True | Some ls \<Rightarrow> line_rows_ok (-1) ls)"

definition emulator_ok :: "('t, 'n) emulator \<Rightarrow> bool" where
  \<comment> \<open>What the terminal emulators document: the grid has the size that it was resized to last, and
     the cursor is on the grid.\<close>
  "emulator_ok em \<longleftrightarrow>
     (\<forall>t c r. 0 < c \<longrightarrow> 0 < r \<longrightarrow>
        sz_cols (em_snapshot em (em_resize em c r t)) = c \<and> sz_rows (em_snapshot em (em_resize em c r t)) = r)
     \<and> (\<forall>t d. sz_cols (em_snapshot em (em_feed em d t)) = sz_cols (em_snapshot em t)
            \<and> sz_rows (em_snapshot em (em_feed em d t)) = sz_rows (em_snapshot em t))
     \<and> (\<forall>t. 0 < sz_cols (em_snapshot em t) \<longrightarrow> 0 < sz_rows (em_snapshot em t) \<longrightarrow> screen_ok (em_snapshot em t))"

definition emulate_event :: "('t, 'n) emulator \<Rightarrow> event_record \<Rightarrow> 't \<Rightarrow> 't" where
  \<comment> \<open>what one event does to a terminal\<close>
  "emulate_event em e t =
     (case ev_payload e of Output d \<Rightarrow> em_feed em d t | Resize c r \<Rightarrow> em_resize em c r t | _ \<Rightarrow> t)"

definition emulate :: "('t, 'n) emulator \<Rightarrow> event_record list \<Rightarrow> 't \<Rightarrow> 't" where
  "emulate em es t = fold (emulate_event em) es t"

definition resizes_positive :: "event_record list \<Rightarrow> bool" where
  "resizes_positive es \<longleftrightarrow>
     list_all (\<lambda>e. case ev_payload e of Resize c r \<Rightarrow> 0 < c \<and> 0 < r | _ \<Rightarrow> True) es"

section \<open>The native backend\<close>

record 't vt_backend =
  vb_session :: jstring
  vb_booted :: bool
  vb_disposed :: bool
  vb_terminal :: "'t option"
  vb_initial_cols :: "int option"
  vb_initial_rows :: "int option"
  vb_cols :: int
  vb_rows :: int
  vb_last_applied :: int
  vb_latest :: "replay_input option"

definition require_terminal :: "string \<Rightarrow> 't vt_backend \<Rightarrow> 't res" where
  "require_terminal methodName b =
     check (\<not> vb_disposed b) (''LibghosttyVtBackend '' @ methodName @ '' cannot be used after dispose()'')
     (case vb_terminal b of
        Some t \<Rightarrow> check (vb_booted b) (''LibghosttyVtBackend '' @ methodName @ '' requires boot() first'') (Inr t)
      | None \<Rightarrow> Inl (Assertion (js (''LibghosttyVtBackend '' @ methodName @ '' requires boot() first''))))"

definition vt_check_input :: "replay_input \<Rightarrow> 't vt_backend \<Rightarrow> unit res" where
  "vt_check_input input b =
     check_str (ri_session input = vb_session b)
       (js ''replay input session '' @ ri_session input @ js '' does not match backend session '' @ vb_session b)
     (check (0 < ri_cols input) ''replay input initialCols must be positive''
     (check (0 < ri_rows input) ''replay input initialRows must be positive''
     (check (-1 \<le> ri_target input) ''replay input targetSeq must be an integer of at least -1''
     (check_str (vb_last_applied b \<le> ri_target input)
       (js ''stateful LibghosttyVtBackend cannot rewind from seq '' @ int_digits (vb_last_applied b)
          @ js '' to '' @ int_digits (ri_target input))
     (Inr ())))))"

definition vt_first_resize ::
  "('t, 'n) emulator \<Rightarrow> replay_input \<Rightarrow> 't \<Rightarrow> 't vt_backend \<Rightarrow> ('t \<times> 't vt_backend) res" where
  "vt_first_resize em input t b =
     (if vb_initial_cols b = None \<or> vb_initial_rows b = None
      then let t1 = em_resize em (ri_cols input) (ri_rows input) t
           in Inr (t1, b\<lparr>vb_terminal := Some t1, vb_initial_cols := Some (ri_cols input),
                         vb_initial_rows := Some (ri_rows input),
                         vb_cols := ri_cols input, vb_rows := ri_rows input\<rparr>)
      else check (vb_initial_cols b = Some (ri_cols input) \<and> vb_initial_rows b = Some (ri_rows input))
             ''replay input initial dimensions changed after first replay'' (Inr (t, b)))"

fun vt_apply ::
  "('t, 'n) emulator \<Rightarrow> event_record list \<Rightarrow> 't \<times> int \<times> int \<times> int
     \<Rightarrow> js_error option \<times> 't \<times> int \<times> int \<times> int" where
  \<comment> \<open>the terminal, the current size and the highest sequence number processed\<close>
  "vt_apply em [] st = (None, st)"
| "vt_apply em (e # es) (t, cols, rows, highest) =
     (case ev_payload e of
        Output d \<Rightarrow> vt_apply em es (em_feed em d t, cols, rows, int (ev_seq e))
      | Resize c r \<Rightarrow>
          if \<not> 0 < c then (Some (Assertion (js ''resize event cols must be positive'')), t, cols, rows, highest)
          else if \<not> 0 < r then (Some (Assertion (js ''resize event rows must be positive'')), t, cols, rows, highest)
          else vt_apply em es (em_resize em c r t, c, r, int (ev_seq e))
      | _ \<Rightarrow> vt_apply em es (t, cols, rows, int (ev_seq e)))"

definition order_error :: js_error where
  "order_error = Assertion (js ''replay events must be ordered by strictly increasing seq values'')"

definition assert_native_snapshot :: "'n screen_scheme \<Rightarrow> 'a res \<Rightarrow> 'a res" where
  \<comment> \<open>The tests on values of the types that the binding declares.\<close>
  "assert_native_snapshot sn k =
     check (0 < sz_cols sn) ''snapshot cols must be positive''
     (check (0 < sz_rows sn) ''snapshot rows must be positive''
     (check (0 \<le> sz_cursor_row sn) ''snapshot cursorRow must be non-negative''
     (check (0 \<le> sz_cursor_col sn) ''snapshot cursorCol must be non-negative''
     (check (sz_cursor_row sn < sz_rows sn) ''snapshot cursorRow must be within rows''
     (check (sz_cursor_col sn < sz_cols sn) ''snapshot cursorCol must be within cols''
     (check (line_rows_ok (-1) (sz_visible sn)) ''snapshot.visibleLines rows must be strictly increasing''
     (check (int (length (sz_visible sn)) \<le> sz_rows sn) ''snapshot visible line count must fit terminal rows''
     (check (case sz_scrollback sn of None \<Rightarrow> True | Some ls \<Rightarrow> line_rows_ok (-1) ls)
        ''snapshot.scrollbackLines rows must be strictly increasing'' k))))))))"

definition assert_snapshot_dimensions :: "'n screen_scheme \<Rightarrow> 't vt_backend \<Rightarrow> 'a res \<Rightarrow> 'a res" where
  "assert_snapshot_dimensions sn b k =
     check_str (sz_cols sn = vb_cols b)
       (js ''native snapshot cols '' @ int_digits (sz_cols sn) @ js '' must match current cols '' @ int_digits (vb_cols b))
     (check_str (sz_rows sn = vb_rows b)
       (js ''native snapshot rows '' @ int_digits (sz_rows sn) @ js '' must match current rows '' @ int_digits (vb_rows b)) k)"

definition state_of_screen :: "int \<Rightarrow> 'n screen_scheme \<Rightarrow> replay_state" where
  "state_of_screen q sn =
     \<lparr>rs_last_seq = q, rs_cols = sz_cols sn, rs_rows = sz_rows sn,
      rs_cursor_row = sz_cursor_row sn, rs_cursor_col = sz_cursor_col sn\<rparr>"

definition highest_processed :: "int \<Rightarrow> replay_input \<Rightarrow> int" where
  "highest_processed highest input = (if highest < 0 then ri_target input else highest)"

definition vt_replay_to :: "('t, 'n) emulator \<Rightarrow> 't vt_backend replayer" where
  "vt_replay_to em input b =
     (case bind_res (require_terminal ''replayTo()'' b)
             (\<lambda>t. bind_res (vt_check_input input b) (\<lambda>_. vt_first_resize em input t b)) of
        Inl e \<Rightarrow> (Inl e, b)
      | Inr (t1, b1) \<Rightarrow>
          let (events, ended) = iterate_in_range input (vb_last_applied b);
              (failed, t2, cols, rows, highest) = vt_apply em events (t1, vb_cols b1, vb_rows b1, vb_last_applied b);
              b2 = b1\<lparr>vb_terminal := Some t2, vb_cols := cols, vb_rows := rows\<rparr>
          in case failed of
               Some e \<Rightarrow> (Inl e, b2)
             | None \<Rightarrow>
                 if \<not> ended then (Inl order_error, b2)
                 else
                   let b3 = b2\<lparr>vb_last_applied := highest_processed highest input, vb_latest := Some input\<rparr>;
                       sn = em_snapshot em t2
                   in case assert_native_snapshot sn (assert_snapshot_dimensions sn b3 (Inr ())) of
                        Inl e \<Rightarrow> (Inl e, b3)
                      | Inr _ \<Rightarrow>
                          (Inr (state_of_screen (vb_last_applied b3) sn),
                           b3\<lparr>vb_cols := sz_cols sn, vb_rows := sz_rows sn\<rparr>))"

section \<open>The browser backend\<close>

record 't web_backend =
  wb_session :: jstring
  wb_failure :: "jstring option"
  wb_booted :: bool
  wb_page :: "'t option"
  wb_page_closed :: bool
  wb_initial_cols :: "int option"
  wb_initial_rows :: "int option"
  wb_cols :: int                  \<comment> \<open>null before the first resize, and not read before it\<close>
  wb_rows :: int
  wb_last_applied :: int

definition require_operational_page :: "string \<Rightarrow> 't web_backend \<Rightarrow> 't res" where
  "require_operational_page methodName b =
     (case wb_failure b of
        Some reason \<Rightarrow> Inl (Assertion (js methodName @ js '' cannot continue after renderer failure: '' @ reason))
      | None \<Rightarrow>
          check (wb_booted b) (methodName @ '' requires a booted GhosttyWebBackend'')
          (case wb_page b of
             None \<Rightarrow> Inl (Assertion (js (methodName @ '' requires an active Playwright page'')))
           | Some p \<Rightarrow> check (\<not> wb_page_closed b) (methodName @ '' requires an open Playwright page'') (Inr p)))"

definition web_check_input :: "replay_input \<Rightarrow> 't web_backend \<Rightarrow> unit res" where
  "web_check_input input b =
     check_str (ri_session input = wb_session b)
       (js ''replay input session '' @ ri_session input @ js '' does not match backend session '' @ wb_session b)
     (check (0 < ri_cols input) ''replay input initialCols must be a positive integer''
     (check (0 < ri_rows input) ''replay input initialRows must be a positive integer''
     (check (-1 \<le> ri_target input) ''replay input targetSeq must be an integer of at least -1''
     (check_str (wb_last_applied b \<le> ri_target input)
       (js ''stateful GhosttyWebBackend cannot rewind from seq '' @ int_digits (wb_last_applied b)
          @ js '' to '' @ int_digits (ri_target input))
     (Inr ())))))"

definition web_first_resize ::
  "('t, 'n) emulator \<Rightarrow> replay_input \<Rightarrow> 't \<Rightarrow> 't web_backend \<Rightarrow> ('t \<times> 't web_backend) res" where
  "web_first_resize em input t b =
     (if wb_initial_cols b = None \<or> wb_initial_rows b = None
      then let t1 = em_resize em (ri_cols input) (ri_rows input) t
           in Inr (t1, b\<lparr>wb_page := Some t1, wb_initial_cols := Some (ri_cols input),
                         wb_initial_rows := Some (ri_rows input),
                         wb_cols := ri_cols input, wb_rows := ri_rows input\<rparr>)
      else check (wb_initial_cols b = Some (ri_cols input) \<and> wb_initial_rows b = Some (ri_rows input))
             ''replay input initial dimensions changed after the first replay'' (Inr (t, b)))"

definition max_replay_batch_size :: nat where
  "max_replay_batch_size = 1000"

function flush_output_batch :: "('t, 'n) emulator \<Rightarrow> jstring list \<Rightarrow> 't \<Rightarrow> 't" where
  \<comment> \<open>batches of chunks, which \<open>writeBatchBridge\<close> writes one after the other\<close>
  "flush_output_batch em chunks t =
     (if chunks = [] then t
      else flush_output_batch em (drop max_replay_batch_size chunks)
             (fold (em_feed em) (take max_replay_batch_size chunks) t))"
  by pat_completeness auto
termination
  by (relation "measure (\<lambda>(_, chunks, _). length chunks)") (auto simp: max_replay_batch_size_def)

declare flush_output_batch.simps [simp del]

fun web_apply ::
  "('t, 'n) emulator \<Rightarrow> event_record list \<Rightarrow> jstring list \<Rightarrow> 't \<times> int \<times> int \<times> int
     \<Rightarrow> js_error option \<times> jstring list \<times> 't \<times> int \<times> int \<times> int" where
  \<comment> \<open>with the chunks that wait in the batch\<close>
  "web_apply em [] pending st = (None, pending, st)"
| "web_apply em (e # es) pending (t, cols, rows, highest) =
     (case ev_payload e of
        Output d \<Rightarrow> web_apply em es (pending @ [d]) (t, cols, rows, int (ev_seq e))
      | Resize c r \<Rightarrow>
          let t1 = flush_output_batch em pending t
          in if \<not> 0 < c
             then (Some (Assertion (js ''resize event cols must be a positive integer'')), [], t1, cols, rows, highest)
             else if \<not> 0 < r
             then (Some (Assertion (js ''resize event rows must be a positive integer'')), [], t1, cols, rows, highest)
             else web_apply em es [] (em_resize em c r t1, c, r, int (ev_seq e))
      | _ \<Rightarrow> web_apply em es [] (flush_output_batch em pending t, cols, rows, int (ev_seq e)))"

definition assert_harness_snapshot :: "'n screen_scheme \<Rightarrow> 'a res \<Rightarrow> 'a res" where
  \<comment> \<open>on what the decoder of the page's answer gives\<close>
  "assert_harness_snapshot sn k =
     check (int (length (sz_visible sn)) \<le> sz_rows sn) ''snapshot visible line count must not exceed the viewport rows''
     (check (sz_cursor_row sn < sz_rows sn) ''snapshot cursorRow must be within the viewport height''
     (check (sz_cursor_col sn < sz_cols sn) ''snapshot cursorCol must be within the viewport width'' k))"

definition web_replay_to :: "('t, 'n) emulator \<Rightarrow> 't web_backend replayer" where
  "web_replay_to em input b =
     (case bind_res (require_operational_page ''replayTo()'' b)
             (\<lambda>t. bind_res (web_check_input input b) (\<lambda>_. web_first_resize em input t b)) of
        Inl e \<Rightarrow> (Inl e, b)
      | Inr (t1, b1) \<Rightarrow>
          let (events, ended) = iterate_in_range input (wb_last_applied b);
              (failed, pending, t2, cols, rows, highest) =
                web_apply em events [] (t1, wb_cols b1, wb_rows b1, wb_last_applied b);
              b2 = b1\<lparr>wb_page := Some t2, wb_cols := cols, wb_rows := rows\<rparr>
          in case failed of
               Some e \<Rightarrow> (Inl e, b2)
             | None \<Rightarrow>
                 if \<not> ended then (Inl order_error, b2)
                 else
                   let t3 = flush_output_batch em pending t2;
                       b3 = b2\<lparr>wb_page := Some t3, wb_last_applied := highest_processed highest input\<rparr>;
                       sn = em_snapshot em t3
                   in case assert_harness_snapshot sn (Inr ()) of
                        Inl e \<Rightarrow> (Inl e, b3)
                      | Inr _ \<Rightarrow>
                          (Inr (state_of_screen (wb_last_applied b3) sn),
                           b3\<lparr>wb_cols := sz_cols sn, wb_rows := sz_rows sn\<rparr>))"


section \<open>Replays as emulations\<close>

lemma emulate_simps [simp]:
  "emulate em [] t = t"
  "emulate em (e # es) t = emulate em es (emulate_event em e t)"
  "emulate em (xs @ ys) t = emulate em ys (emulate em xs t)"
  by (simp_all add: emulate_def)

definition grid_of :: "('t, 'n) emulator \<Rightarrow> 't \<Rightarrow> int \<times> int" where
  "grid_of em t = (sz_cols (em_snapshot em t), sz_rows (em_snapshot em t))"

lemma grid_of_resize [simp]: "emulator_ok em \<Longrightarrow> 0 < c \<Longrightarrow> 0 < r \<Longrightarrow> grid_of em (em_resize em c r t) = (c, r)"
  by (simp add: grid_of_def emulator_ok_def)

lemma grid_of_feed [simp]: "emulator_ok em \<Longrightarrow> grid_of em (em_feed em d t) = grid_of em t"
  by (simp add: grid_of_def emulator_ok_def)

lemma grid_ok_snapshot:
  "emulator_ok em \<Longrightarrow> grid_of em t = (c, r) \<Longrightarrow> 0 < c \<Longrightarrow> 0 < r \<Longrightarrow> screen_ok (em_snapshot em t)"
  by (auto simp: grid_of_def emulator_ok_def)

definition highest_of :: "int \<Rightarrow> event_record list \<Rightarrow> int" where
  "highest_of q es = (if es = [] then q else int (ev_seq (last es)))"

lemma highest_of_simps [simp]: "highest_of q [] = q" "highest_of q (e # es) = highest_of (int (ev_seq e)) es"
  by (simp_all add: highest_of_def)

definition on_grid :: "('t, 'n) emulator \<Rightarrow> 't \<Rightarrow> int \<Rightarrow> int \<Rightarrow> bool" where
  "on_grid em t cols rows \<longleftrightarrow> emulator_ok em \<and> grid_of em t = (cols, rows) \<and> 0 < cols \<and> 0 < rows"

lemma on_grid_feeds: "on_grid em t cols rows \<Longrightarrow> on_grid em (fold (em_feed em) ds t) cols rows"
  by (induction ds arbitrary: t) (simp_all add: on_grid_def)

lemma resizes_positive_Cons [simp]:
  "resizes_positive (e # es) \<longleftrightarrow>
     (case ev_payload e of Resize c r \<Rightarrow> 0 < c \<and> 0 < r | _ \<Rightarrow> True) \<and> resizes_positive es"
  by (simp add: resizes_positive_def)

lemma vt_apply_step:
  assumes "on_grid em t cols rows" and "resizes_positive (e # es)"
  shows "\<exists>cols' rows'. vt_apply em (e # es) (t, cols, rows, q)
      = vt_apply em es (emulate_event em e t, cols', rows', int (ev_seq e))
    \<and> on_grid em (emulate_event em e t) cols' rows'"
  using assms by (cases "ev_payload e") (auto simp: emulate_event_def on_grid_def)

lemma vt_apply_emulates:
  "on_grid em t cols rows \<Longrightarrow> resizes_positive es \<Longrightarrow>
     \<exists>cols' rows'. vt_apply em es (t, cols, rows, q) = (None, emulate em es t, cols', rows', highest_of q es)
       \<and> on_grid em (emulate em es t) cols' rows'"
proof (induction es arbitrary: t cols rows q)
  case Nil
  then show ?case by simp
next
  case (Cons e es)
  obtain cols' rows' where
    step: "vt_apply em (e # es) (t, cols, rows, q) = vt_apply em es (emulate_event em e t, cols', rows', int (ev_seq e))"
      "on_grid em (emulate_event em e t) cols' rows'"
    using vt_apply_step [OF Cons.prems] by blast
  from Cons.IH [OF step(2), of "int (ev_seq e)"] Cons.prems(2) show ?case unfolding step(1) by simp
qed

lemma flush_output_batch_eq: "flush_output_batch em chunks t = fold (em_feed em) chunks t"
proof (induction em chunks t rule: flush_output_batch.induct)
  case (1 em chunks t)
  then show ?case
    by (subst flush_output_batch.simps)
      (metis (no_types, lifting) append_take_drop_id fold_append comp_apply fold_simps(1))
qed

lemma web_apply_step:
  assumes "on_grid em t cols rows" and "resizes_positive (e # es)"
  shows "\<exists>pending' t' cols' rows'. web_apply em (e # es) pending (t, cols, rows, q)
      = web_apply em es pending' (t', cols', rows', int (ev_seq e))
    \<and> fold (em_feed em) pending' t' = emulate_event em e (fold (em_feed em) pending t)
    \<and> on_grid em t' cols' rows'" (is ?goal)
proof -
  have flushed: ?goal
    if "web_apply em (e # es) pending (t, cols, rows, q)
          = web_apply em es [] (fold (em_feed em) pending t, cols, rows, int (ev_seq e))"
      and "emulate_event em e (fold (em_feed em) pending t) = fold (em_feed em) pending t"
    unfolding that using on_grid_feeds [OF assms(1), of pending] by fastforce
  show ?goal
  proof (cases "ev_payload e")
    case (Output d)
    then show ?thesis using assms
      by (intro exI [of _ "pending @ [d]"] exI [of _ t]) (auto simp: emulate_event_def)
  next
    case (Resize c r)
    then show ?thesis using assms
      by (intro exI [of _ "[]"] exI [of _ "em_resize em c r (fold (em_feed em) pending t)"])
        (auto simp: emulate_event_def flush_output_batch_eq on_grid_def)
  qed (rule flushed; simp add: emulate_event_def flush_output_batch_eq)+
qed

lemma web_apply_emulates:
  "on_grid em t cols rows \<Longrightarrow> resizes_positive es \<Longrightarrow>
     \<exists>pending' t' cols' rows'. web_apply em es pending (t, cols, rows, q) = (None, pending', t', cols', rows', highest_of q es)
       \<and> fold (em_feed em) pending' t' = emulate em es (fold (em_feed em) pending t)
       \<and> on_grid em t' cols' rows'"
proof (induction es arbitrary: pending t cols rows q)
  case Nil
  then show ?case by auto
next
  case (Cons e es)
  obtain pending' t' cols' rows' where
    step: "web_apply em (e # es) pending (t, cols, rows, q) = web_apply em es pending' (t', cols', rows', int (ev_seq e))"
      "fold (em_feed em) pending' t' = emulate_event em e (fold (em_feed em) pending t)" "on_grid em t' cols' rows'"
    using web_apply_step [OF Cons.prems] by blast
  from Cons.IH [OF step(3), of pending' "int (ev_seq e)"] Cons.prems(2) show ?case
    unfolding step(1) by (simp add: step(2))
qed

subsection \<open>What is left after a part\<close>

lemma left_after_part:
  assumes "ordered es" and "es = before @ part @ after" and "part \<noteq> []"
    and "int (ev_seq (last part)) \<le> target" and "\<forall>e \<in> set before. int (ev_seq e) \<le> q"
  shows "left_after q target es =
      left_after q target part @ left_after (max q (int (ev_seq (last part)))) target es"
    and "highest_of q (left_after q target part) = max q (int (ev_seq (last part)))"
proof -
  have sorted: "sorted_wrt (<) (map ev_seq (before @ part @ after))" using assms(1,2) by (simp add: ordered_def)
  have upto: "ev_seq e \<le> ev_seq (last part)" if "e \<in> set part" for e
    using sorted assms(3) that by (cases part rule: rev_cases) (auto simp: sorted_wrt_append)
  have after: "ev_seq (last part) < ev_seq e" if "e \<in> set after" for e
    using sorted assms(3) that by (auto simp: sorted_wrt_append)
  have b: "left_after q target before = []" "left_after (max q (int (ev_seq (last part)))) target before = []"
    using assms(5) by (auto simp: left_after_def filter_empty_conv)
  have p: "left_after (max q (int (ev_seq (last part)))) target part = []"
    using upto by (force simp: left_after_def filter_empty_conv)
  have a: "left_after (max q (int (ev_seq (last part)))) target after = left_after q target after"
    using after by (force simp: left_after_def intro: filter_cong)
  show "left_after q target es =
      left_after q target part @ left_after (max q (int (ev_seq (last part)))) target es"
    using b p a unfolding assms(2) by (simp add: left_after_def)
  show "highest_of q (left_after q target part) = max q (int (ev_seq (last part)))"
  proof (cases "q < int (ev_seq (last part))")
    case True
    obtain xs x where part: "part = xs @ [x]" using assms(3) by (cases part rule: rev_cases) auto
    with True assms(4) have "left_after q target part = left_after q target xs @ [x]"
      by (simp add: left_after_def)
    with True part show ?thesis by (simp add: highest_of_def)
  next
    case False
    then have "left_after q target part = []"
      using upto by (force simp: left_after_def filter_empty_conv)
    with False show ?thesis by simp
  qed
qed

lemma resizes_positive_left: "resizes_positive es \<Longrightarrow> resizes_positive (left_after q target es)"
  by (auto simp: resizes_positive_def left_after_def list_all_iff)

lemma ordered_part: "ordered (before @ part @ after) \<Longrightarrow> ordered part"
  by (simp add: ordered_def sorted_wrt_append)

section \<open>A backend that emulates what is left\<close>

text \<open>
  Both backends apply what is left of the events to their terminal, wherever it starts, and remember
  the position and the input. This is enough for the laws of a replay in slices.
\<close>

lemma highest_processed_nonneg: "0 \<le> q \<Longrightarrow> highest_processed q input = q"
  by (simp add: highest_processed_def)

locale emulating_backend =
  fixes em :: "('t, 'n) emulator"
    and replay :: "'s replayer"
    and position :: "'s \<Rightarrow> int"
    and ready :: "replay_input \<Rightarrow> 's \<Rightarrow> bool"
    and start :: "replay_input \<Rightarrow> 's \<Rightarrow> 't"
    and replayed :: "replay_input \<Rightarrow> int \<Rightarrow> 't \<Rightarrow> 's \<Rightarrow> 's"
  assumes replays:
      "ready input s \<Longrightarrow> ordered (ri_events input) \<Longrightarrow>
         rest = left_after (position s) (ri_target input) (ri_events input) \<Longrightarrow>
         t = emulate em rest (start input s) \<Longrightarrow> q = highest_processed (highest_of (position s) rest) input \<Longrightarrow>
         replay input s = (Inr (state_of_screen q (em_snapshot em t)), replayed input q t s)"
    and ready_position: "ready input s \<Longrightarrow> position s \<le> ri_target input"
    and ready_part:
      "ready input s \<Longrightarrow> ri_events input = before @ part @ after \<Longrightarrow> ready (input\<lparr>ri_events := part\<rparr>) s"
    and start_part: "start (input\<lparr>ri_events := part\<rparr>) s = start input s"
    and position_replayed: "position (replayed input q t s) = q"
    and start_replayed: "start input (replayed (input\<lparr>ri_events := part\<rparr>) q t s) = t"
    and replayed_again:
      "replayed input q t (replayed (input\<lparr>ri_events := part\<rparr>) q' t' s) = replayed input q t s"
    and ready_replayed:
      "ready input s \<Longrightarrow> resizes_positive rest \<Longrightarrow> t = emulate em rest (start input s) \<Longrightarrow>
         position s \<le> q \<Longrightarrow> q \<le> ri_target input \<Longrightarrow>
         ready input (replayed (input\<lparr>ri_events := part\<rparr>) q t s)"
    and ready_resizes: "ready input s \<Longrightarrow> resizes_positive (ri_events input)"
begin

lemma part_then_whole:
  assumes ready: "ready input s" and ord: "ordered (ri_events input)"
    and split: "ri_events input = before @ part @ after" and part: "part \<noteq> []"
    and target: "int (ev_seq (last part)) \<le> ri_target input"
    and before: "\<forall>e \<in> set before. int (ev_seq e) \<le> position s"
  shows "\<exists>st s1. replay (input\<lparr>ri_events := part\<rparr>) s = (Inr st, s1)
      \<and> rs_last_seq st = max (position s) (int (ev_seq (last part)))
      \<and> position s1 = rs_last_seq st \<and> ready input s1 \<and> replay input s1 = replay input s"
proof -
  let ?q = "position s" and ?q1 = "max (position s) (int (ev_seq (last part)))"
  let ?in = "input\<lparr>ri_events := part\<rparr>"
  note left = left_after_part [OF ord split part target before]
  have ord': "ordered (ri_events ?in)" using ord split by (simp add: ordered_def sorted_wrt_append)
  define t where "t = emulate em (left_after ?q (ri_target input) part) (start input s)"
  have one: "replay ?in s = (Inr (state_of_screen ?q1 (em_snapshot em t)), replayed ?in ?q1 t s)"
    by (rule replays [OF ready_part [OF ready split] ord' refl])
      (simp_all add: t_def start_part left(2) highest_processed_def)
  let ?s1 = "replayed ?in ?q1 t s"
  have "resizes_positive (left_after ?q (ri_target input) part)"
    using ready_resizes [OF ready_part [OF ready split]] by (simp add: resizes_positive_left)
  from ready_replayed [OF ready this t_def, of ?q1 part] target ready_position [OF ready]
  have ready1: "ready input ?s1" by simp
  define u where "u = emulate em (left_after ?q (ri_target input) (ri_events input)) (start input s)"
  have u1: "u = emulate em (left_after (position ?s1) (ri_target input) (ri_events input)) (start input ?s1)"
    unfolding u_def left(1) by (simp add: t_def start_replayed position_replayed)
  have h: "highest_of ?q (left_after ?q (ri_target input) (ri_events input))
      = highest_of (position ?s1) (left_after (position ?s1) (ri_target input) (ri_events input))"
    using left(2) unfolding left(1) by (auto simp: highest_of_def position_replayed)
  have "replay input ?s1 = replay input s"
    using replays [OF ready1 ord refl u1 refl] replays [OF ready ord refl u_def refl]
    by (simp add: replayed_again h)
  with one ready1 show ?thesis by (simp add: state_of_screen_def position_replayed)
qed

end

sublocale emulating_backend \<subseteq> replay_backend replay position ready
  by unfold_locales (use ready_position part_then_whole replays in blast)+

section \<open>The backends replay in slices as at once\<close>

definition vt_start :: "('t, 'n) emulator \<Rightarrow> replay_input \<Rightarrow> 't vt_backend \<Rightarrow> 't" where
  "vt_start em input b =
     (if vb_initial_cols b = None then em_resize em (ri_cols input) (ri_rows input) (the (vb_terminal b))
      else the (vb_terminal b))"

definition vt_ready :: "('t, 'n) emulator \<Rightarrow> replay_input \<Rightarrow> 't vt_backend \<Rightarrow> bool" where
  "vt_ready em input b \<longleftrightarrow>
     emulator_ok em \<and> \<not> vb_disposed b \<and> vb_booted b \<and> vb_terminal b \<noteq> None
     \<and> ri_session input = vb_session b \<and> 0 < ri_cols input \<and> 0 < ri_rows input
     \<and> -1 \<le> vb_last_applied b \<and> vb_last_applied b \<le> ri_target input
     \<and> resizes_positive (ri_events input)
     \<and> (vb_initial_cols b = None \<and> vb_initial_rows b = None
        \<or> vb_initial_cols b = Some (ri_cols input) \<and> vb_initial_rows b = Some (ri_rows input)
          \<and> on_grid em (the (vb_terminal b)) (vb_cols b) (vb_rows b))"

definition vt_replayed :: "('t, 'n) emulator \<Rightarrow> replay_input \<Rightarrow> int \<Rightarrow> 't \<Rightarrow> 't vt_backend \<Rightarrow> 't vt_backend" where
  "vt_replayed em input q t b =
     b\<lparr>vb_terminal := Some t, vb_initial_cols := Some (ri_cols input), vb_initial_rows := Some (ri_rows input),
       vb_cols := sz_cols (em_snapshot em t), vb_rows := sz_rows (em_snapshot em t),
       vb_last_applied := q, vb_latest := Some input\<rparr>"

lemma on_grid_snapshot:
  assumes "on_grid em t cols rows"
  shows "assert_native_snapshot (em_snapshot em t) k = k" "assert_harness_snapshot (em_snapshot em t) k = k"
    "sz_cols (em_snapshot em t) = cols" "sz_rows (em_snapshot em t) = rows"
proof -
  have "screen_ok (em_snapshot em t)" using assms by (auto simp: on_grid_def intro: grid_ok_snapshot)
  then show "assert_native_snapshot (em_snapshot em t) k = k" "assert_harness_snapshot (em_snapshot em t) k = k"
    by (simp_all add: assert_native_snapshot_def assert_harness_snapshot_def screen_ok_def)
  show "sz_cols (em_snapshot em t) = cols" "sz_rows (em_snapshot em t) = rows"
    using assms by (simp_all add: on_grid_def grid_of_def)
qed

lemma vt_start_on_grid:
  assumes "vt_ready em input b"
  shows "on_grid em (vt_start em input b)
    (if vb_initial_cols b = None then ri_cols input else vb_cols b)
    (if vb_initial_cols b = None then ri_rows input else vb_rows b)"
  using assms by (auto simp: vt_ready_def vt_start_def on_grid_def)

lemma vt_replay_to_ready:
  assumes "vt_ready em input b" and "ordered (ri_events input)"
  defines "rest \<equiv> left_after (vb_last_applied b) (ri_target input) (ri_events input)"
  defines "t \<equiv> emulate em rest (vt_start em input b)"
    and "q \<equiv> highest_processed (highest_of (vb_last_applied b) rest) input"
  shows "vt_replay_to em input b = (Inr (state_of_screen q (em_snapshot em t)), vt_replayed em input q t b)"
proof -
  obtain t0 where t0: "vb_terminal b = Some t0" using assms(1) by (auto simp: vt_ready_def)
  define b1 where "b1 = b\<lparr>vb_terminal := Some (vt_start em input b), vb_initial_cols := Some (ri_cols input),
    vb_initial_rows := Some (ri_rows input),
    vb_cols := (if vb_initial_cols b = None then ri_cols input else vb_cols b),
    vb_rows := (if vb_initial_cols b = None then ri_rows input else vb_rows b)\<rparr>"
  have first: "bind_res (require_terminal ''replayTo()'' b)
      (\<lambda>t. bind_res (vt_check_input input b) (\<lambda>_. vt_first_resize em input t b)) = Inr (vt_start em input b, b1)"
    using assms(1) t0
    by (auto simp: vt_ready_def require_terminal_def vt_check_input_def vt_first_resize_def vt_start_def b1_def Let_def)
  have "on_grid em (vt_start em input b) (vb_cols b1) (vb_rows b1)"
    using vt_start_on_grid [OF assms(1)] by (simp add: b1_def)
  from vt_apply_emulates [OF this, of rest "vb_last_applied b"] assms(1) obtain cols rows where
    run: "vt_apply em rest (vt_start em input b, vb_cols b1, vb_rows b1, vb_last_applied b)
        = (None, t, cols, rows, highest_of (vb_last_applied b) rest)" and grid: "on_grid em t cols rows"
    by (auto simp: vt_ready_def t_def rest_def resizes_positive_left)
  have rest: "iterate_in_range input (vb_last_applied b) = (rest, True)"
    unfolding rest_def by (rule iterate_in_range_ordered [OF assms(2)])
  show ?thesis
  proof -
    have "vt_replay_to em input b = (Inr (state_of_screen q (em_snapshot em t)),
        b1\<lparr>vb_terminal := Some t, vb_last_applied := q, vb_latest := Some input, vb_cols := cols, vb_rows := rows\<rparr>)"
      by (simp add: vt_replay_to_def first rest run assert_snapshot_dimensions_def q_def Let_def
          on_grid_snapshot [OF grid])
    then show ?thesis using on_grid_snapshot(3,4) [OF grid] by (simp add: vt_replayed_def b1_def)
  qed
qed

interpretation vt: emulating_backend em "vt_replay_to em" vb_last_applied "vt_ready em" "vt_start em"
  "vt_replayed em" for em :: "('t, 'n) emulator"
proof
  fix input rest t q and b :: "'t vt_backend" and part
  assume ready: "vt_ready em input b" and rest: "resizes_positive rest"
    and t: "t = emulate em rest (vt_start em input b)"
    and q: "vb_last_applied b \<le> q" "q \<le> ri_target input"
  obtain cols rows where grid: "on_grid em t cols rows"
    using vt_apply_emulates [OF vt_start_on_grid [OF ready] rest] t by blast
  with ready q on_grid_snapshot(3,4) [OF grid]
  show "vt_ready em input (vt_replayed em (input\<lparr>ri_events := part\<rparr>) q t b)"
    by (auto simp: vt_ready_def vt_replayed_def)
qed (auto simp: vt_replay_to_ready, auto simp: vt_ready_def vt_start_def vt_replayed_def resizes_positive_def)

definition web_start :: "('t, 'n) emulator \<Rightarrow> replay_input \<Rightarrow> 't web_backend \<Rightarrow> 't" where
  "web_start em input b =
     (if wb_initial_cols b = None then em_resize em (ri_cols input) (ri_rows input) (the (wb_page b))
      else the (wb_page b))"

definition web_ready :: "('t, 'n) emulator \<Rightarrow> replay_input \<Rightarrow> 't web_backend \<Rightarrow> bool" where
  "web_ready em input b \<longleftrightarrow>
     emulator_ok em \<and> wb_failure b = None \<and> wb_booted b \<and> wb_page b \<noteq> None \<and> \<not> wb_page_closed b
     \<and> ri_session input = wb_session b \<and> 0 < ri_cols input \<and> 0 < ri_rows input
     \<and> -1 \<le> wb_last_applied b \<and> wb_last_applied b \<le> ri_target input
     \<and> resizes_positive (ri_events input)
     \<and> (wb_initial_cols b = None \<and> wb_initial_rows b = None
        \<or> wb_initial_cols b = Some (ri_cols input) \<and> wb_initial_rows b = Some (ri_rows input)
          \<and> on_grid em (the (wb_page b)) (wb_cols b) (wb_rows b))"

definition web_replayed ::
  "('t, 'n) emulator \<Rightarrow> replay_input \<Rightarrow> int \<Rightarrow> 't \<Rightarrow> 't web_backend \<Rightarrow> 't web_backend" where
  "web_replayed em input q t b =
     b\<lparr>wb_page := Some t, wb_initial_cols := Some (ri_cols input), wb_initial_rows := Some (ri_rows input),
       wb_cols := sz_cols (em_snapshot em t), wb_rows := sz_rows (em_snapshot em t), wb_last_applied := q\<rparr>"

lemma web_start_on_grid:
  assumes "web_ready em input b"
  shows "on_grid em (web_start em input b)
    (if wb_initial_cols b = None then ri_cols input else wb_cols b)
    (if wb_initial_cols b = None then ri_rows input else wb_rows b)"
  using assms by (auto simp: web_ready_def web_start_def on_grid_def)

lemma web_replay_to_ready:
  assumes "web_ready em input b" and "ordered (ri_events input)"
  defines "rest \<equiv> left_after (wb_last_applied b) (ri_target input) (ri_events input)"
  defines "t \<equiv> emulate em rest (web_start em input b)"
    and "q \<equiv> highest_processed (highest_of (wb_last_applied b) rest) input"
  shows "web_replay_to em input b = (Inr (state_of_screen q (em_snapshot em t)), web_replayed em input q t b)"
proof -
  obtain t0 where t0: "wb_page b = Some t0" using assms(1) by (auto simp: web_ready_def)
  define b1 where "b1 = b\<lparr>wb_page := Some (web_start em input b), wb_initial_cols := Some (ri_cols input),
    wb_initial_rows := Some (ri_rows input),
    wb_cols := (if wb_initial_cols b = None then ri_cols input else wb_cols b),
    wb_rows := (if wb_initial_cols b = None then ri_rows input else wb_rows b)\<rparr>"
  have first: "bind_res (require_operational_page ''replayTo()'' b)
      (\<lambda>t. bind_res (web_check_input input b) (\<lambda>_. web_first_resize em input t b)) = Inr (web_start em input b, b1)"
    using assms(1) t0
    by (auto simp: web_ready_def require_operational_page_def web_check_input_def web_first_resize_def
        web_start_def b1_def Let_def)
  have "on_grid em (web_start em input b) (wb_cols b1) (wb_rows b1)"
    using web_start_on_grid [OF assms(1)] by (simp add: b1_def)
  from web_apply_emulates [OF this, of rest "[]" "wb_last_applied b"] assms(1) obtain pending t' cols rows where
    run: "web_apply em rest [] (web_start em input b, wb_cols b1, wb_rows b1, wb_last_applied b)
        = (None, pending, t', cols, rows, highest_of (wb_last_applied b) rest)"
    and t': "fold (em_feed em) pending t' = t" "on_grid em t' cols rows"
    by (auto simp: web_ready_def t_def rest_def resizes_positive_left)
  have grid: "on_grid em t cols rows" using on_grid_feeds [OF t'(2), of pending] t'(1) by simp
  have rest: "iterate_in_range input (wb_last_applied b) = (rest, True)"
    unfolding rest_def by (rule iterate_in_range_ordered [OF assms(2)])
  have "web_replay_to em input b = (Inr (state_of_screen q (em_snapshot em t)),
      b1\<lparr>wb_page := Some t, wb_last_applied := q, wb_cols := cols, wb_rows := rows\<rparr>)"
    by (simp add: web_replay_to_def first rest run flush_output_batch_eq t'(1) q_def Let_def
        on_grid_snapshot [OF grid])
  then show ?thesis using on_grid_snapshot(3,4) [OF grid] by (simp add: web_replayed_def b1_def)
qed

interpretation web: emulating_backend em "web_replay_to em" wb_last_applied "web_ready em" "web_start em"
  "web_replayed em" for em :: "('t, 'n) emulator"
proof
  fix input rest t q and b :: "'t web_backend" and part
  assume ready: "web_ready em input b" and rest: "resizes_positive rest"
    and t: "t = emulate em rest (web_start em input b)"
    and q: "wb_last_applied b \<le> q" "q \<le> ri_target input"
  obtain cols rows where grid: "on_grid em t cols rows"
    using vt_apply_emulates [OF web_start_on_grid [OF ready] rest] t by blast
  with ready q on_grid_snapshot(3,4) [OF grid]
  show "web_ready em input (web_replayed em (input\<lparr>ri_events := part\<rparr>) q t b)"
    by (auto simp: web_ready_def web_replayed_def)
qed (auto simp: web_replay_to_ready, auto simp: web_ready_def web_start_def web_replayed_def resizes_positive_def)

text \<open>C29: A replay in slices is a replay. Whatever the slices take, and although the caller may know
  only an older position of the backend, the slices end without an error in the state that one call
  of \<open>replayTo\<close> with the whole input gives, and the progress that is reported before that moves
  strictly forward. This holds for the native backend and for the browser backend.\<close>

theorem sliced_replay_is_replay:
  assumes "ordered (ri_events input)" and "-1 \<le> applied"
    and "vt_ready em input b" and "applied \<le> vb_last_applied b"
    and "web_ready em input w" and "applied \<le> wb_last_applied w"
  shows "(\<exists>sts st b'. replay_in_slices (vt_replay_to em) input applied elapsed b = (Inr (), b', sts @ [st])
        \<and> vt_replay_to em input b = (Inr st, b') \<and> sorted_wrt (<) (map rs_last_seq sts))
    \<and> (\<exists>sts st w'. replay_in_slices (web_replay_to em) input applied elapsed w = (Inr (), w', sts @ [st])
        \<and> web_replay_to em input w = (Inr st, w') \<and> sorted_wrt (<) (map rs_last_seq sts))"
  using vt.replay_in_slices_whole [OF assms(3,1,2,4), of elapsed]
    web.replay_in_slices_whole [OF assms(5,1,2,6), of elapsed] by metis

text \<open>C30: The two backends agree. Started on terminals in the same state, with the same position, they
  reply the same and leave their terminals in the same state, although one feeds every output on
  its own and the other collects outputs until an event of another type, in batches of 1,000.\<close>

theorem backends_agree:
  assumes "ordered (ri_events input)" and "vt_ready em input b" and "web_ready em input w"
    and "vb_last_applied b = wb_last_applied w" and "vb_terminal b = wb_page w"
    and "vb_initial_cols b = wb_initial_cols w"
  shows "fst (vt_replay_to em input b) = fst (web_replay_to em input w)
    \<and> vb_terminal (snd (vt_replay_to em input b)) = wb_page (snd (web_replay_to em input w))
    \<and> vb_last_applied (snd (vt_replay_to em input b)) = wb_last_applied (snd (web_replay_to em input w))"
proof -
  have "vt_start em input b = web_start em input w"
    using assms(5,6) by (simp add: vt_start_def web_start_def)
  with vt_replay_to_ready [OF assms(2,1)] web_replay_to_ready [OF assms(3,1)] assms(4)
  show ?thesis by (simp add: vt_replayed_def web_replayed_def)
qed

section \<open>A concrete terminal\<close>

text \<open>A terminal that keeps what it was fed, for the examples.\<close>

definition tape :: "(int \<times> int \<times> jstring list, unit) emulator" where
  "tape =
     \<lparr>em_feed = (\<lambda>d (c, r, ds). (c, r, ds @ [d])),
      em_resize = (\<lambda>c r (_, _, ds). (c, r, ds)),
      em_snapshot = (\<lambda>(c, r, ds). \<lparr>sz_cols = c, sz_rows = r, sz_cursor_row = 0, sz_cursor_col = 0,
        sz_is_alt_screen = False, sz_visible = [], sz_scrollback = None\<rparr>)\<rparr>"

lemma tape_ok: "emulator_ok tape"
  by (auto simp: emulator_ok_def tape_def screen_ok_def)

definition example_events :: "event_record list" where
  "example_events =
     [\<lparr>ev_seq = 0, ev_ts = [], ev_payload = Output (js ''a'')\<rparr>,
      \<lparr>ev_seq = 1, ev_ts = [], ev_payload = Output (js ''b'')\<rparr>,
      \<lparr>ev_seq = 2, ev_ts = [], ev_payload = Resize 100 30\<rparr>,
      \<lparr>ev_seq = 3, ev_ts = [], ev_payload = Output (js ''c'')\<rparr>]"

definition example_replay :: replay_input where
  "example_replay =
     \<lparr>ri_session = js ''s'', ri_cols = 80, ri_rows = 24, ri_events = example_events, ri_target = 3\<rparr>"

definition example_vt :: "(int \<times> int \<times> jstring list) vt_backend" where
  "example_vt =
     \<lparr>vb_session = js ''s'', vb_booted = True, vb_disposed = False, vb_terminal = Some (80, 24, []),
      vb_initial_cols = None, vb_initial_rows = None, vb_cols = 80, vb_rows = 24,
      vb_last_applied = -1, vb_latest = None\<rparr>"

definition example_web :: "(int \<times> int \<times> jstring list) web_backend" where
  "example_web =
     \<lparr>wb_session = js ''s'', wb_failure = None, wb_booted = True, wb_page = Some (80, 24, []),
      wb_page_closed = False, wb_initial_cols = None, wb_initial_rows = None, wb_cols = 80, wb_rows = 24,
      wb_last_applied = -1\<rparr>"

lemma example_ready:
  "ordered (ri_events example_replay)" "vt_ready tape example_replay example_vt" "web_ready tape example_replay example_web"
  by (simp_all add: example_replay_def example_events_def example_vt_def example_web_def ordered_def
      vt_ready_def web_ready_def tape_ok resizes_positive_def)

theorem sliced_replay_is_replay_witness:
  "\<exists>sts st b'. replay_in_slices (vt_replay_to tape) example_replay (-1) (\<lambda>_. 500) example_vt = (Inr (), b', sts @ [st])
     \<and> vt_replay_to tape example_replay example_vt = (Inr st, b') \<and> sorted_wrt (<) (map rs_last_seq sts)"
  using sliced_replay_is_replay [OF example_ready(1) _ example_ready(2) _ example_ready(3), of "-1" "\<lambda>_. 500"]
  by (simp add: example_vt_def example_web_def)

theorem backends_agree_witness:
  "vb_terminal (snd (vt_replay_to tape example_replay example_vt))
     = wb_page (snd (web_replay_to tape example_replay example_web))"
  using backends_agree [OF example_ready] by (simp add: example_vt_def example_web_def)

end
