(* ===== verification/RendererManager.thy ===== *)
theory RendererManager
  imports Backends
begin

text \<open>
  The renderer manager of the host: it owns at most one backend, replaces it when another renderer,
  another profile or another grid is asked for or when the browser page has died, replays the log
  into it, and runs one operation at a time on it. Screens of snapshots, render waits and mouse
  requests come from here.
\<close>

section \<open>Backends of either kind\<close>

datatype renderer_name = GhosttyWeb | LibghosttyVt

record render_profile =
  pf_name :: jstring
  pf_hash :: jstring      \<comment> \<open>\<open>hashProfile\<close> of the whole profile\<close>

datatype 't backend = Native "'t vt_backend" | Browser "'t web_backend"

definition default_cols :: int where
  "default_cols = 80"

definition default_rows :: int where
  "default_rows = 24"

definition new_vt_backend :: "jstring \<Rightarrow> 't vt_backend" where
  "new_vt_backend sessionId =
     \<lparr>vb_session = sessionId, vb_booted = False, vb_disposed = False, vb_terminal = None,
      vb_initial_cols = None, vb_initial_rows = None, vb_cols = default_cols, vb_rows = default_rows,
      vb_last_applied = -1, vb_latest = None\<rparr>"

definition new_web_backend :: "jstring \<Rightarrow> 't web_backend" where
  "new_web_backend sessionId =
     \<lparr>wb_session = sessionId, wb_failure = None, wb_booted = False, wb_page = None, wb_page_closed = False,
      wb_initial_cols = None, wb_initial_rows = None, wb_cols = 0, wb_rows = 0, wb_last_applied = -1\<rparr>"

definition create_renderer_backend :: "renderer_name \<Rightarrow> jstring \<Rightarrow> render_profile \<Rightarrow> 't backend res" where
  "create_renderer_backend name sessionId profile =
     check (sessionId \<noteq> []) ''sessionId must be a non-empty string''
     (check (pf_name profile \<noteq> []) ''profile.name must be a non-empty string''
     (Inr (case name of
             GhosttyWeb \<Rightarrow> Browser (new_web_backend sessionId)
           | LibghosttyVt \<Rightarrow> Native (new_vt_backend sessionId))))"

definition boot_failed_message :: jstring where
  "boot_failed_message = js ''Failed to boot renderer libghostty-vt via optional dependency @coder/libghostty-vt-node. Install a supported optional native package or retry with --renderer ghostty-web.''"

definition vt_boot :: "'t + js_error \<Rightarrow> 't vt_backend \<Rightarrow> unit res \<times> 't vt_backend" where
  \<comment> \<open>\<open>boot\<close> and its \<open>bootInternal\<close>, with the terminal that \<open>createTerminal\<close> makes or what goes wrong\<close>
  "vt_boot made b =
     (if vb_disposed b
      then (Inl (Assertion (js ''LibghosttyVtBackend boot() cannot be used after dispose()'')), b)
      else if vb_booted b then (Inr (), b)
      else case made of
             Inr e \<Rightarrow> (Inl (Plain boot_failed_message), b\<lparr>vb_terminal := None, vb_booted := False\<rparr>)
           | Inl t \<Rightarrow>
               (Inr (), b\<lparr>vb_terminal := Some t, vb_cols := default_cols, vb_rows := default_rows, vb_booted := True\<rparr>))"

definition web_boot :: "'t + js_error \<Rightarrow> 't web_backend \<Rightarrow> unit res \<times> 't web_backend" where
  \<comment> \<open>\<open>boot\<close> and its \<open>bootInternal\<close>, with the page that reports ready or what goes wrong\<close>
  "web_boot made b =
     (if wb_booted b then (Inr (), b)
      else case made of
             Inr e \<Rightarrow>
               (Inl e, b\<lparr>wb_page := None, wb_booted := False, wb_failure := Some (error_message e)\<rparr>)
           | Inl t \<Rightarrow>
               (Inr (), b\<lparr>wb_failure := None, wb_page := Some t, wb_page_closed := False, wb_booted := True\<rparr>))"

definition unexpected_failure :: "jstring \<Rightarrow> 't web_backend \<Rightarrow> 't web_backend" where
  "unexpected_failure reason b = b\<lparr>wb_failure := Some reason, wb_booted := False\<rparr>"

fun be_boot :: "'t + js_error \<Rightarrow> 't backend \<Rightarrow> unit res \<times> 't backend" where
  "be_boot made (Native b) = map_prod id Native (vt_boot made b)"
| "be_boot made (Browser b) = map_prod id Browser (web_boot made b)"

fun be_replay_to :: "('t, 'n) emulator \<Rightarrow> 't backend replayer" where
  "be_replay_to em input (Native b) = map_prod id Native (vt_replay_to em input b)"
| "be_replay_to em input (Browser b) = map_prod id Browser (web_replay_to em input b)"

fun be_booted :: "'t backend \<Rightarrow> bool" where
  "be_booted (Native b) = vb_booted b"
| "be_booted (Browser b) = wb_booted b"

fun be_name :: "'t backend \<Rightarrow> renderer_name" where
  "be_name (Native b) = LibghosttyVt"
| "be_name (Browser b) = GhosttyWeb"

fun be_position :: "'t backend \<Rightarrow> int" where
  "be_position (Native b) = vb_last_applied b"
| "be_position (Browser b) = wb_last_applied b"

fun be_terminal :: "'t backend \<Rightarrow> 't option" where
  "be_terminal (Native b) = vb_terminal b"
| "be_terminal (Browser b) = wb_page b"

section \<open>The manager\<close>

record 't manager =
  rm_session :: jstring
  rm_backend :: "'t backend option"
  rm_key :: "(renderer_name \<times> jstring) option"
  rm_profile :: "jstring option"
  rm_cols :: "int option"
  rm_rows :: "int option"
  rm_applied :: int
  rm_progress :: nat                  \<comment> \<open>how often the listeners heard of progress\<close>

definition new_manager :: "jstring \<Rightarrow> 't manager" where
  "new_manager sessionId =
     \<lparr>rm_session = sessionId, rm_backend = None, rm_key = None, rm_profile = None,
      rm_cols = None, rm_rows = None, rm_applied = -1, rm_progress = 0\<rparr>"

definition dispose_current_backend :: "'t manager \<Rightarrow> 't manager" where
  \<comment> \<open>\<open>dispose\<close> of a backend never throws, and nothing uses the backend after it.\<close>
  "dispose_current_backend m =
     m\<lparr>rm_backend := None, rm_key := None, rm_profile := None, rm_cols := None, rm_rows := None,
       rm_applied := -1\<rparr>"

definition report_progress :: "nat \<Rightarrow> 't manager \<Rightarrow> 't manager" where
  "report_progress n m = m\<lparr>rm_progress := rm_progress m + n\<rparr>"

definition ensure_backend ::
  "'t + js_error \<Rightarrow> renderer_name \<Rightarrow> render_profile \<Rightarrow> 't manager
     \<Rightarrow> 't backend res \<times> 't manager" where
  "ensure_backend made name profile m =
     (let key = (name, pf_hash profile);
          keep = (case rm_backend m of None \<Rightarrow> False | Some b \<Rightarrow> rm_key m = Some key \<and> be_booted b);
          created = (if keep then Inr m
                     else bind_res (create_renderer_backend name (rm_session m) profile)
                            (\<lambda>b. Inr ((dispose_current_backend m)\<lparr>rm_backend := Some b, rm_key := Some key,
                                       rm_profile := Some (pf_name profile)\<rparr>)))
      in case created of
           Inl e \<Rightarrow> (Inl e, dispose_current_backend m)
         | Inr m1 \<Rightarrow>
             (case rm_backend m1 of
                None \<Rightarrow> (Inl (Assertion (js ''current backend must exist'')), m1)
              | Some b \<Rightarrow>
                  if be_booted b then (Inr b, m1)
                  else (case be_boot made b of
                          (Inl e, _) \<Rightarrow> (Inl e, dispose_current_backend m1)
                        | (Inr _, b1) \<Rightarrow> (Inr b1, m1\<lparr>rm_backend := Some b1\<rparr>))))"

definition grid_changed :: "replay_input option \<Rightarrow> 't manager \<Rightarrow> bool" where
  "grid_changed input m =
     (case (input, rm_backend m, rm_cols m, rm_rows m) of
        (Some i, Some b, Some c, Some r) \<Rightarrow> c \<noteq> ri_cols i \<or> r \<noteq> ri_rows i
      | _ \<Rightarrow> False)"

definition run_operation ::
  "('t backend \<Rightarrow> 'a res \<times> 't backend) \<Rightarrow> 't backend \<Rightarrow> 't manager \<Rightarrow> 'a res \<times> 't manager" where
  "run_operation operation b m = (case operation b of (r, b1) \<Rightarrow> (r, m\<lparr>rm_backend := Some b1\<rparr>))"

definition with_backend ::
  "('t, 'n) emulator \<Rightarrow> 't + js_error \<Rightarrow> renderer_name \<Rightarrow> render_profile
     \<Rightarrow> replay_input option res \<Rightarrow> (nat \<Rightarrow> rat) \<Rightarrow> ('t backend \<Rightarrow> 'a res \<times> 't backend) \<Rightarrow> 't manager
     \<Rightarrow> 'a res \<times> 't manager" where
  \<comment> \<open>what a boot makes, the renderer, the profile, the input that is loaded under the lock, the times
     of the slices, and the operation\<close>
  "with_backend em made name profile loaded elapsed operation m =
     (if pf_name profile = [] then (Inl (Assertion (js ''profile name must be a non-empty string'')), m)
      else case loaded of
        Inl e \<Rightarrow> (Inl e, m)
      | Inr input \<Rightarrow>
      if (case input of None \<Rightarrow> False | Some i \<Rightarrow> ri_session i \<noteq> rm_session m)
      then (Inl (Assertion (js ''replay input sessionId must match manager sessionId'')), m)
      else
        (case ensure_backend made name profile
                (if grid_changed input m then dispose_current_backend m else m) of
           (Inl e, m1) \<Rightarrow> (Inl e, m1)
         | (Inr b, m1) \<Rightarrow>
             let m2 = report_progress 1 m1
             in case input of
                  None \<Rightarrow> run_operation operation b m2
                | Some i \<Rightarrow>
                    (case replay_in_slices (be_replay_to em) i (rm_applied m2) elapsed b of
                       (outcome, b1, sts) \<Rightarrow>
                         let m3 = (report_progress (length sts) m2)\<lparr>rm_backend := Some b1,
                                    rm_applied := (if sts = [] then rm_applied m2 else rs_last_seq (last sts))\<rparr>
                         in case outcome of
                              Inl e \<Rightarrow> (Inl e, m3)
                            | Inr _ \<Rightarrow>
                                run_operation operation b1
                                  (m3\<lparr>rm_cols := Some (ri_cols i), rm_rows := Some (ri_rows i)\<rparr>))))"

definition page_failure :: "jstring \<Rightarrow> 't manager \<Rightarrow> 't manager" where
  \<comment> \<open>a crash of the browser page between two operations\<close>
  "page_failure reason m =
     (case rm_backend m of
        Some (Browser b) \<Rightarrow> m\<lparr>rm_backend := Some (Browser (unexpected_failure reason b))\<rparr>
      | _ \<Rightarrow> m)"

section \<open>Both kinds emulate\<close>

fun be_ready :: "('t, 'n) emulator \<Rightarrow> replay_input \<Rightarrow> 't backend \<Rightarrow> bool" where
  "be_ready em input (Native b) = vt_ready em input b"
| "be_ready em input (Browser b) = web_ready em input b"

fun be_start :: "('t, 'n) emulator \<Rightarrow> replay_input \<Rightarrow> 't backend \<Rightarrow> 't" where
  "be_start em input (Native b) = vt_start em input b"
| "be_start em input (Browser b) = web_start em input b"

fun be_replayed :: "('t, 'n) emulator \<Rightarrow> replay_input \<Rightarrow> int \<Rightarrow> 't \<Rightarrow> 't backend \<Rightarrow> 't backend" where
  "be_replayed em input q t (Native b) = Native (vt_replayed em input q t b)"
| "be_replayed em input q t (Browser b) = Browser (web_replayed em input q t b)"

interpretation be: emulating_backend em "be_replay_to em" be_position "be_ready em" "be_start em" "be_replayed em"
  for em :: "('t, 'n) emulator"
proof (unfold_locales, goal_cases)
  case (1 input s rest t q)
  then show ?case using vt.replays web.replays by (cases s) fastforce+
next
  case (2 input s)
  then show ?case using vt.ready_position web.ready_position by (cases s) auto
next
  case (3 input s before part after)
  then show ?case using vt.ready_part web.ready_part by (cases s) auto
next
  case (4 input part s)
  then show ?case using vt.start_part web.start_part by (cases s) auto
next
  case (5 input q t s)
  then show ?case using vt.position_replayed web.position_replayed by (cases s) auto
next
  case (6 input part q t s)
  then show ?case using vt.start_replayed web.start_replayed by (cases s) auto
next
  case (7 input q t part q' t' s)
  then show ?case using vt.replayed_again web.replayed_again by (cases s) auto
next
  case (8 input s rest t q part)
  show ?case
  proof (cases s)
    case (Native b)
    with 8 vt.ready_replayed [of em input b rest t q part] show ?thesis by simp
  next
    case (Browser b)
    with 8 web.ready_replayed [of em input b rest t q part] show ?thesis by simp
  qed
next
  case (9 input s)
  then show ?case using vt.ready_resizes web.ready_resizes by (cases s) auto
qed

section \<open>A backend follows the log\<close>

lemma left_after_join:
  "ordered es \<Longrightarrow> a \<le> b \<Longrightarrow> b \<le> c \<Longrightarrow> left_after a b es @ left_after b c es = left_after a c es"
proof (induction es)
  case Nil
  then show ?case by (simp add: left_after_def)
next
  case (Cons e es)
  have "left_after a b es = []" if "b < int (ev_seq e)"
    using that Cons.prems(1) by (force simp: left_after_def ordered_def filter_empty_conv)
  moreover have "left_after a b es @ left_after b c es = left_after a c es"
    using Cons by (simp add: ordered_def)
  ultimately show ?case using Cons.prems(2,3) by (auto simp: left_after_def)
qed

lemma ordered_last: "ordered es \<Longrightarrow> e \<in> set es \<Longrightarrow> int (ev_seq e) \<le> last_seq es"
  by (cases es rule: rev_cases) (auto simp: ordered_def last_seq_def sorted_wrt_append)

lemma left_after_all: "ordered es \<Longrightarrow> left_after (-1) (last_seq es) es = es"
  by (auto simp: left_after_def ordered_last intro: filter_True)

lemma left_after_append:
  assumes "ordered (hist @ rs)" and "q \<le> last_seq hist"
  shows "left_after a q (hist @ rs) = left_after a q hist"
proof -
  have "\<not> int (ev_seq e) \<le> q" if "e \<in> set rs" for e
  proof (cases "hist = []")
    case True
    with assms(2) show ?thesis by (simp add: last_seq_def)
  next
    case False
    with assms(1) that have "ev_seq (last hist) < ev_seq e" by (auto simp: ordered_def sorted_wrt_append)
    with assms(2) False show ?thesis by (simp add: last_seq_def)
  qed
  then show ?thesis by (auto simp: left_after_def filter_empty_conv)
qed

lemma last_seq_mono: "ordered (hist @ rs) \<Longrightarrow> last_seq hist \<le> last_seq (hist @ rs)"
  using ordered_last [of "hist @ rs"] by (cases "hist = []") (auto simp: last_seq_def)

lemma last_seq_ge: "-1 \<le> last_seq es"
  by (simp add: last_seq_def)

lemma highest_of_rest:
  assumes "ordered es" and "-1 \<le> q" and "q \<le> last_seq es"
    and "ri_target input = last_seq es"
  shows "highest_processed (highest_of q (left_after q (last_seq es) es)) input = last_seq es"
proof (cases "q = last_seq es")
  case True
  then have "left_after q (last_seq es) es = []" by (auto simp: left_after_def filter_empty_conv)
  with True assms show ?thesis by (simp add: highest_processed_def)
next
  case False
  with assms have "es \<noteq> []" by (auto simp: last_seq_def)
  then obtain xs x where es: "es = xs @ [x]" by (cases es rule: rev_cases) auto
  with False assms have "left_after q (last_seq es) es = left_after q (last_seq es) xs @ [x]"
    by (simp add: left_after_def last_seq_def)
  then show ?thesis by (simp add: es highest_of_def highest_processed_def last_seq_def)
qed

fun be_grid :: "'t backend \<Rightarrow> (int \<times> int) option" where
  "be_grid (Native b) =
     (case (vb_initial_cols b, vb_initial_rows b) of (Some c, Some r) \<Rightarrow> Some (c, r) | _ \<Rightarrow> None)"
| "be_grid (Browser b) =
     (case (wb_initial_cols b, wb_initial_rows b) of (Some c, Some r) \<Rightarrow> Some (c, r) | _ \<Rightarrow> None)"

fun be_alive :: "('t, 'n) emulator \<Rightarrow> jstring \<Rightarrow> 't backend \<Rightarrow> bool" where
  "be_alive em sid (Native b) \<longleftrightarrow>
     \<not> vb_disposed b \<and> vb_booted b \<and> vb_terminal b \<noteq> None \<and> vb_session b = sid
     \<and> (vb_initial_cols b = None \<longleftrightarrow> vb_initial_rows b = None)
     \<and> (vb_initial_cols b \<noteq> None \<longrightarrow> on_grid em (the (vb_terminal b)) (vb_cols b) (vb_rows b))"
| "be_alive em sid (Browser b) \<longleftrightarrow>
     wb_failure b = None \<and> wb_booted b \<and> wb_page b \<noteq> None \<and> \<not> wb_page_closed b \<and> wb_session b = sid
     \<and> (wb_initial_cols b = None \<longleftrightarrow> wb_initial_rows b = None)
     \<and> (wb_initial_cols b \<noteq> None \<longrightarrow> on_grid em (the (wb_page b)) (wb_cols b) (wb_rows b))"

definition tracks ::
  "('t, 'n) emulator \<Rightarrow> (renderer_name \<Rightarrow> 't) \<Rightarrow> jstring \<Rightarrow> event_record list \<Rightarrow> 't backend \<Rightarrow> bool" where
  \<comment> \<open>The terminal is a fresh one that was resized to the grid and has applied the log up to the
     position.\<close>
  "tracks em fresh sid hist b \<longleftrightarrow>
     be_alive em sid b
     \<and> (case be_grid b of
          None \<Rightarrow> be_terminal b = Some (fresh (be_name b)) \<and> be_position b = -1
        | Some (c, r) \<Rightarrow> 0 < c \<and> 0 < r \<and> -1 \<le> be_position b \<and> be_position b \<le> last_seq hist
            \<and> be_terminal b =
                Some (emulate em (left_after (-1) (be_position b) hist) (em_resize em c r (fresh (be_name b)))))"

definition log_input :: "jstring \<Rightarrow> int \<Rightarrow> int \<Rightarrow> event_record list \<Rightarrow> replay_input" where
  \<comment> \<open>what \<open>loadReplayInput\<close> gives for the log of a host\<close>
  "log_input sid cols rows hist =
     \<lparr>ri_session = sid, ri_cols = cols, ri_rows = rows, ri_events = hist, ri_target = last_seq hist\<rparr>"

definition log_fine :: "event_record list \<Rightarrow> bool" where
  "log_fine hist \<longleftrightarrow> contiguous hist \<and> resizes_positive hist"

lemma tracks_longer:
  "tracks em fresh sid hist b \<Longrightarrow> log_fine (hist @ rs) \<Longrightarrow> tracks em fresh sid (hist @ rs) b"
  using last_seq_mono [of hist rs] left_after_append [of hist rs "be_position b" "-1"]
  by (auto simp: tracks_def log_fine_def contiguous_ordered split: option.splits)

lemma tracks_ready:
  assumes "emulator_ok em" and "tracks em fresh sid hist b" and "log_fine hist" and "0 < cols" and "0 < rows"
    and "be_grid b \<in> {None, Some (cols, rows)}"
  shows "be_ready em (log_input sid cols rows hist) b"
    and "be_start em (log_input sid cols rows hist) b
      = emulate em (left_after (-1) (be_position b) hist) (em_resize em cols rows (fresh (be_name b)))"
proof -
  have empty: "left_after (-1) (-1) hist = []" by (simp add: left_after_def filter_empty_conv)
  show "be_ready em (log_input sid cols rows hist) b"
    using assms last_seq_ge [of hist]
    by (cases b) (auto simp: tracks_def vt_ready_def web_ready_def log_input_def log_fine_def split: option.splits)
  show "be_start em (log_input sid cols rows hist) b
      = emulate em (left_after (-1) (be_position b) hist) (em_resize em cols rows (fresh (be_name b)))"
    using assms(2,6) empty
    by (cases b) (auto simp: tracks_def vt_start_def web_start_def log_input_def split: option.splits)
qed

lemma be_ready_alive: "be_ready em input b \<Longrightarrow> be_alive em (ri_session input) b"
  by (cases b) (auto simp: vt_ready_def web_ready_def)

lemma be_replayed_simps [simp]:
  "be_grid (be_replayed em input q t b) = Some (ri_cols input, ri_rows input)"
  "be_position (be_replayed em input q t b) = q"
  "be_terminal (be_replayed em input q t b) = Some t"
  "be_name (be_replayed em input q t b) = be_name b"
  by (cases b; simp add: vt_replayed_def web_replayed_def)+

lemma tracks_replays:
  assumes "emulator_ok em" and "tracks em fresh sid hist b" and "log_fine hist" and "0 < cols" and "0 < rows"
    and "be_grid b \<in> {None, Some (cols, rows)}"
  defines "t \<equiv> emulate em hist (em_resize em cols rows (fresh (be_name b)))"
    and "input \<equiv> log_input sid cols rows hist"
  shows "be_replay_to em input b =
      (Inr (state_of_screen (last_seq hist) (em_snapshot em t)), be_replayed em input (last_seq hist) t b)"
    and "tracks em fresh sid hist (be_replayed em input (last_seq hist) t b)"
    and "be_position b \<le> last_seq hist" and "-1 \<le> be_position b"
proof -
  note ready = tracks_ready [OF assms(1-6), folded input_def]
  have ord: "ordered hist" and res: "resizes_positive hist" using assms(3) by (simp_all add: log_fine_def contiguous_ordered)
  have input: "ri_target input = last_seq hist" "ri_events input = hist" "ri_cols input = cols" "ri_rows input = rows"
    "ri_session input = sid"
    by (simp_all add: input_def log_input_def)
  show pos: "be_position b \<le> last_seq hist" "-1 \<le> be_position b"
    using assms(2) last_seq_ge [of hist] by (auto simp: tracks_def split: option.splits)
  let ?rest = "left_after (be_position b) (last_seq hist) hist"
  have t: "t = emulate em ?rest (be_start em input b)"
    using left_after_join [OF ord pos(2,1)] left_after_all [OF ord]
    by (simp add: t_def ready(2) flip: emulate_simps(3))
  have "be_replay_to em input b = (Inr (state_of_screen (highest_processed (highest_of (be_position b) ?rest) input)
      (em_snapshot em t)), be_replayed em input (highest_processed (highest_of (be_position b) ?rest) input) t b)"
    by (rule be.replays [OF ready(1)]) (simp_all add: input ord t)
  then show "be_replay_to em input b =
      (Inr (state_of_screen (last_seq hist) (em_snapshot em t)), be_replayed em input (last_seq hist) t b)"
    by (simp add: highest_of_rest [OF ord pos(2,1) input(1)])
  have "be_ready em input (be_replayed em (input\<lparr>ri_events := hist\<rparr>) (last_seq hist) t b)"
    by (rule be.ready_replayed [OF ready(1) resizes_positive_left [OF res] t pos(1)]) (simp add: input)
  then have "be_alive em sid (be_replayed em input (last_seq hist) t b)"
    using be_ready_alive input(5) by (metis input(2) replay_input.surjective replay_input.update_convs(4))
  then show "tracks em fresh sid hist (be_replayed em input (last_seq hist) t b)"
    using assms(4,5) last_seq_ge [of hist] left_after_all [OF ord] by (simp add: tracks_def input t_def)
qed

section \<open>The manager never rewinds\<close>

definition cached_grid :: "'t manager \<Rightarrow> (int \<times> int) option" where
  "cached_grid m = (case (rm_cols m, rm_rows m) of (Some c, Some r) \<Rightarrow> Some (c, r) | _ \<Rightarrow> None)"

definition manager_ok ::
  "('t, 'n) emulator \<Rightarrow> (renderer_name \<Rightarrow> 't) \<Rightarrow> event_record list \<Rightarrow> 't manager \<Rightarrow> bool" where
  "manager_ok em fresh hist m \<longleftrightarrow>
     rm_session m \<noteq> [] \<and> -1 \<le> rm_applied m
     \<and> (case rm_backend m of
          None \<Rightarrow> rm_applied m = -1
        | Some b \<Rightarrow> (\<exists>hash. rm_key m = Some (be_name b, hash))
            \<and> (be_booted b \<longrightarrow> tracks em fresh (rm_session m) hist b \<and> rm_applied m \<le> be_position b
                 \<and> be_grid b = cached_grid m \<and> (rm_cols m = None \<longleftrightarrow> rm_rows m = None)))"

definition boots_fresh :: "(renderer_name \<Rightarrow> 't) \<Rightarrow> renderer_name \<Rightarrow> 't + js_error \<Rightarrow> bool" where
  "boots_fresh fresh name made \<longleftrightarrow> (\<forall>t. made = Inl t \<longrightarrow> t = fresh name)"

definition operation_ok ::
  "('t, 'n) emulator \<Rightarrow> (renderer_name \<Rightarrow> 't) \<Rightarrow> jstring \<Rightarrow> int \<Rightarrow> int \<Rightarrow> event_record list \<Rightarrow> event_record list
     \<Rightarrow> ('t backend \<Rightarrow> 'a res \<times> 't backend) \<Rightarrow> bool" where
  \<comment> \<open>The operation leaves the backend following the log, which may have grown.\<close>
  "operation_ok em fresh sid cols rows hist hist' operation \<longleftrightarrow>
     (\<forall>b. tracks em fresh sid hist b \<longrightarrow> be_grid b = Some (cols, rows) \<longrightarrow>
        tracks em fresh sid hist' (snd (operation b)) \<and> be_grid (snd (operation b)) = be_grid b
        \<and> be_name (snd (operation b)) = be_name b \<and> be_position b \<le> be_position (snd (operation b)))"

lemma report_progress_simps [simp]:
  "rm_applied (report_progress n m) = rm_applied m" "rm_session (report_progress n m) = rm_session m"
  "rm_key (report_progress n m) = rm_key m"
  by (simp_all add: report_progress_def)

lemma be_alive_booted: "be_alive em sid b \<Longrightarrow> be_booted b"
  by (cases b) auto

lemma manager_ok_dispose [simp]:
  "manager_ok em fresh hist (dispose_current_backend m) \<longleftrightarrow> rm_session m \<noteq> []"
  by (simp add: manager_ok_def dispose_current_backend_def)

lemma manager_ok_longer:
  "manager_ok em fresh hist m \<Longrightarrow> log_fine (hist @ rs) \<Longrightarrow> manager_ok em fresh (hist @ rs) m"
  by (auto simp: manager_ok_def tracks_longer split: option.splits)

lemma manager_ok_failure: "manager_ok em fresh hist m \<Longrightarrow> manager_ok em fresh hist (page_failure reason m)"
  by (auto simp: manager_ok_def page_failure_def unexpected_failure_def split: option.splits backend.splits)

lemma boot_fresh_tracks:
  assumes "create_renderer_backend name sid profile = Inr b" and "be_boot (Inl (fresh name)) b = (r, b1)"
  shows "r = Inr () \<and> tracks em fresh sid hist b1 \<and> be_name b1 = name \<and> be_grid b1 = None \<and> be_position b1 = -1"
  using assms
  by (cases name) (auto simp: create_renderer_backend_def res_simps tracks_def vt_boot_def web_boot_def
      new_vt_backend_def new_web_backend_def)

lemma boot_error:
  assumes "create_renderer_backend name sid profile = Inr b"
  shows "\<exists>e' b1. be_boot (Inr e) b = (Inl e', b1)"
  using assms
  by (cases name) (auto simp: create_renderer_backend_def res_simps vt_boot_def web_boot_def
      new_vt_backend_def new_web_backend_def)

lemma created_not_booted: "create_renderer_backend name sid profile = Inr b \<Longrightarrow> \<not> be_booted b"
  by (cases name) (auto simp: create_renderer_backend_def res_simps new_vt_backend_def new_web_backend_def)

definition ready_manager ::
  "('t, 'n) emulator \<Rightarrow> (renderer_name \<Rightarrow> 't) \<Rightarrow> event_record list \<Rightarrow> renderer_name \<Rightarrow> 't backend
     \<Rightarrow> 't manager \<Rightarrow> bool" where
  "ready_manager em fresh hist name b m \<longleftrightarrow>
     manager_ok em fresh hist m \<and> rm_backend m = Some b \<and> be_booted b \<and> be_name b = name"

lemma ensure_backend_ok:
  assumes ok: "manager_ok em fresh hist m" and made: "boots_fresh fresh name made" and profile: "pf_name profile \<noteq> []"
    and grid: "\<not> grid_changed input m"
  shows "(\<exists>e e' m1. made = Inr e \<and> ensure_backend made name profile m = (Inl e', m1)
        \<and> manager_ok em fresh hist m1 \<and> rm_session m1 = rm_session m)
    \<or> (\<exists>b m1. ensure_backend made name profile m = (Inr b, m1) \<and> ready_manager em fresh hist name b m1
        \<and> \<not> grid_changed input m1 \<and> rm_session m1 = rm_session m)"
proof (cases "\<exists>b. rm_backend m = Some b \<and> rm_key m = Some (name, pf_hash profile) \<and> be_booted b")
  case True
  then obtain b where b: "rm_backend m = Some b" "rm_key m = Some (name, pf_hash profile)" "be_booted b" by blast
  then have "ensure_backend made name profile m = (Inr b, m)" by (simp add: ensure_backend_def Let_def)
  moreover have "be_name b = name" using ok b by (auto simp: manager_ok_def)
  ultimately show ?thesis using ok grid b by (auto simp: ready_manager_def)
next
  case False
  have sid: "rm_session m \<noteq> []" using ok by (simp add: manager_ok_def)
  obtain b :: "'a backend" where b: "create_renderer_backend name (rm_session m) profile = Inr b"
    using sid profile by (simp add: create_renderer_backend_def)
  define m1 where "m1 = (dispose_current_backend m)\<lparr>rm_backend := Some b, rm_key := Some (name, pf_hash profile),
    rm_profile := Some (pf_name profile)\<rparr>"
  have keep: "\<not> (case rm_backend m of None \<Rightarrow> False | Some b \<Rightarrow> rm_key m = Some (name, pf_hash profile) \<and> be_booted b)"
    using False by (auto split: option.splits)
  have ensure: "ensure_backend made name profile m =
      (case be_boot made b of
         (Inl e, _) \<Rightarrow> (Inl e, dispose_current_backend m1)
       | (Inr _, b1) \<Rightarrow> (Inr b1, m1\<lparr>rm_backend := Some b1\<rparr>))"
    using created_not_booted [OF b] keep
    by (simp add: ensure_backend_def Let_def b flip: m1_def) (simp add: m1_def)
  show ?thesis
  proof (cases made)
    case (Inr e)
    with boot_error [OF b, of e] ensure sid show ?thesis
      by (auto simp: m1_def dispose_current_backend_def manager_ok_def)
  next
    case (Inl t)
    with made have t: "t = fresh name" by (simp add: boots_fresh_def)
    obtain r b1 where boot: "be_boot (Inl (fresh name)) b = (r, b1)" by (cases "be_boot (Inl (fresh name)) b")
    note booted = boot_fresh_tracks [where fresh = fresh and name = name, OF b boot, of em hist]
    have "ensure_backend made name profile m = (Inr b1, m1\<lparr>rm_backend := Some b1\<rparr>)"
      using ensure Inl t boot booted by simp
    moreover have "be_booted b1" using booted be_alive_booted by (auto simp: tracks_def)
    ultimately show ?thesis using booted sid
      by (auto simp: ready_manager_def manager_ok_def m1_def dispose_current_backend_def cached_grid_def
          grid_changed_def split: option.splits)
  qed
qed

lemma with_backend_ok:
  assumes em: "emulator_ok em" and ok: "manager_ok em fresh hist m" and hist: "log_fine hist"
    and made: "boots_fresh fresh name made" and profile: "pf_name profile \<noteq> []"
    and pos: "0 < cols" "0 < rows"
  defines "input \<equiv> log_input (rm_session m) cols rows hist"
  shows "(\<exists>e e' m1. made = Inr e
        \<and> with_backend em made name profile (Inr (Some input)) elapsed operation m = (Inl e', m1)
        \<and> manager_ok em fresh hist m1 \<and> rm_session m1 = rm_session m)
    \<or> (\<exists>b m1. with_backend em made name profile (Inr (Some input)) elapsed operation m = (fst (operation b), m1)
        \<and> be_name b = name \<and> tracks em fresh (rm_session m) hist b \<and> be_position b = last_seq hist
        \<and> be_terminal b = Some (emulate em hist (em_resize em cols rows (fresh name)))
        \<and> (operation_ok em fresh (rm_session m) cols rows hist hist' operation \<longrightarrow> manager_ok em fresh hist' m1)
        \<and> rm_session m1 = rm_session m)"
proof -
  define m0 where "m0 = (if grid_changed (Some input) m then dispose_current_backend m else m)"
  have m0: "manager_ok em fresh hist m0" "rm_session m0 = rm_session m"
    using ok by (auto simp: m0_def manager_ok_def dispose_current_backend_def)
  have i: "ri_session input = rm_session m" "ri_cols input = cols" "ri_rows input = rows"
    by (simp_all add: input_def log_input_def)
  have grid: "\<not> grid_changed (Some input) m0"
    by (auto simp: m0_def grid_changed_def dispose_current_backend_def)
  have with_m0: "with_backend em made name profile (Inr (Some input)) elapsed operation m =
     (case ensure_backend made name profile m0 of
           (Inl e, m1) \<Rightarrow> (Inl e, m1)
         | (Inr b, m1) \<Rightarrow>
             (case replay_in_slices (be_replay_to em) input (rm_applied m1) elapsed b of
                (outcome, b1, sts) \<Rightarrow>
                  let m3 = (report_progress (length sts) (report_progress 1 m1))\<lparr>rm_backend := Some b1,
                             rm_applied := (if sts = [] then rm_applied m1 else rs_last_seq (last sts))\<rparr>
                  in case outcome of
                       Inl e \<Rightarrow> (Inl e, m3)
                     | Inr _ \<Rightarrow>
                         run_operation operation b1 (m3\<lparr>rm_cols := Some cols, rm_rows := Some rows\<rparr>)))"
    using profile by (simp add: with_backend_def i flip: m0_def)
      (simp add: Let_def i cong: sum.case_cong prod.case_cong if_cong)
  from ensure_backend_ok [OF m0(1) made profile grid] show ?thesis
  proof (elim disjE exE conjE)
    fix e e' m1
    assume "made = Inr e" "ensure_backend made name profile m0 = (Inl e', m1)"
      "manager_ok em fresh hist m1" "rm_session m1 = rm_session m0"
    with m0(2) show ?thesis unfolding with_m0 by simp
  next
    fix b m1
    assume e: "ensure_backend made name profile m0 = (Inr b, m1)" and rdy: "ready_manager em fresh hist name b m1"
      and g: "\<not> grid_changed (Some input) m1" and s: "rm_session m1 = rm_session m0"
    have b: "rm_backend m1 = Some b" "be_booted b" "be_name b = name" "manager_ok em fresh hist m1"
      using rdy by (simp_all add: ready_manager_def)
    have t: "tracks em fresh (rm_session m) hist b" "rm_applied m1 \<le> be_position b" "be_grid b = cached_grid m1"
      "-1 \<le> rm_applied m1" "\<exists>hash. rm_key m1 = Some (name, hash)"
      using b s m0(2) by (auto simp: manager_ok_def)
    have "be_grid b \<in> {None, Some (cols, rows)}"
      using g b(1) t(3) by (auto simp: grid_changed_def cached_grid_def input_def log_input_def split: option.splits)
    note tr = tracks_replays [OF em t(1) hist pos this, folded input_def]
    let ?t = "emulate em hist (em_resize em cols rows (fresh (be_name b)))"
    let ?b1 = "be_replayed em input (last_seq hist) ?t b"
    have ord: "ordered (ri_events input)" using hist by (simp add: input_def log_input_def log_fine_def contiguous_ordered)
    have "be_ready em input b" unfolding input_def
      by (rule tracks_ready(1) [OF em t(1) hist pos]) fact
    from be.replay_in_slices_whole [OF this ord t(4,2), of elapsed] tr(1) obtain sts st where
      sl: "replay_in_slices (be_replay_to em) input (rm_applied m1) elapsed b = (Inr (), ?b1, sts @ [st])"
      and st: "rs_last_seq st = last_seq hist"
      by (metis Inr_inject Pair_inject replay_state.select_convs(1) state_of_screen_def)
    define m3 where "m3 = (report_progress (length (sts @ [st])) (report_progress 1 m1))\<lparr>rm_backend := Some ?b1,
      rm_applied := last_seq hist, rm_cols := Some cols, rm_rows := Some rows\<rparr>"
    obtain r b2 where run: "operation ?b1 = (r, b2)" by (cases "operation ?b1")
    have "with_backend em made name profile (Inr (Some input)) elapsed operation m = (r, m3\<lparr>rm_backend := Some b2\<rparr>)"
      unfolding with_m0 by (simp add: e sl st Let_def run_operation_def run m3_def)
    moreover have "manager_ok em fresh hist' (m3\<lparr>rm_backend := Some b2\<rparr>)"
      if "operation_ok em fresh (rm_session m) cols rows hist hist' operation"
    proof -
      have "tracks em fresh (rm_session m) hist' b2 \<and> be_grid b2 = be_grid ?b1 \<and> be_name b2 = be_name ?b1
        \<and> be_position ?b1 \<le> be_position b2"
        using that tr(2) run i unfolding operation_ok_def by (metis snd_conv be_replayed_simps(1))
      then show ?thesis using b s m0(2) t(5) last_seq_ge [of hist] ok
        by (auto simp: m3_def manager_ok_def report_progress_def cached_grid_def i)
    qed
    ultimately show ?thesis using run b s m0(2) tr(2)
      by (intro disjI2 exI [of _ ?b1] exI [of _ "m3\<lparr>rm_backend := Some b2\<rparr>"])
        (simp add: m3_def report_progress_def)
  qed
qed

lemma read_only_ok: "(\<And>b. snd (operation b) = b) \<Longrightarrow> operation_ok em fresh sid cols rows hist hist operation"
  by (simp add: operation_ok_def)

lemma catching_up_ok:
  \<comment> \<open>a mouse request, which replays what was logged after the input of its \<open>withBackend\<close>\<close>
  assumes "emulator_ok em" and "log_fine (hist @ rs)" and "0 < cols" and "0 < rows"
  shows "operation_ok em fresh sid cols rows hist (hist @ rs) (be_replay_to em (log_input sid cols rows (hist @ rs)))"
  unfolding operation_ok_def
proof (intro allI impI)
  fix b :: "'a backend"
  assume b: "tracks em fresh sid hist b" "be_grid b = Some (cols, rows)"
  note longer = tracks_longer [OF b(1) assms(2)]
  from b(2) have "be_grid b \<in> {None, Some (cols, rows)}" by simp
  from tracks_replays [OF assms(1) longer assms(2-4) this] b(2)
  show "tracks em fresh sid (hist @ rs) (snd (be_replay_to em (log_input sid cols rows (hist @ rs)) b)) \<and>
      be_grid (snd (be_replay_to em (log_input sid cols rows (hist @ rs)) b)) = be_grid b \<and>
      be_name (snd (be_replay_to em (log_input sid cols rows (hist @ rs)) b)) = be_name b \<and>
      be_position b \<le> be_position (snd (be_replay_to em (log_input sid cols rows (hist @ rs)) b))"
    by (simp add: log_input_def)
qed

section \<open>Every use shows the loaded log\<close>

inductive manager_reach ::
  "('t, 'n) emulator \<Rightarrow> (renderer_name \<Rightarrow> 't) \<Rightarrow> event_record list \<Rightarrow> 't manager \<Rightarrow> bool"
  for em :: "('t, 'n) emulator" and fresh :: "renderer_name \<Rightarrow> 't" where
  start: "sid \<noteq> [] \<Longrightarrow> manager_reach em fresh [] (new_manager sid)"
| logged: "manager_reach em fresh hist m \<Longrightarrow> log_fine (hist @ rs) \<Longrightarrow> manager_reach em fresh (hist @ rs) m"
| crashed: "manager_reach em fresh hist m \<Longrightarrow> manager_reach em fresh hist (page_failure reason m)"
| disposed: "manager_reach em fresh hist m \<Longrightarrow> manager_reach em fresh hist (dispose_current_backend m)"
| failed_load: "manager_reach em fresh hist m \<Longrightarrow>
    manager_reach em fresh hist (snd (with_backend em made name profile (Inl e) elapsed
      (operation :: 't backend \<Rightarrow> unit res \<times> 't backend) m))"
| used: "manager_reach em fresh hist m \<Longrightarrow> boots_fresh fresh name made \<Longrightarrow> 0 < cols \<Longrightarrow> 0 < rows \<Longrightarrow>
    log_fine (hist @ rs) \<Longrightarrow>
    operation_ok em fresh (rm_session m) cols rows hist (hist @ rs) (operation :: 't backend \<Rightarrow> unit res \<times> 't backend) \<Longrightarrow>
    manager_reach em fresh (hist @ rs)
      (snd (with_backend em made name profile (Inr (Some (log_input (rm_session m) cols rows hist))) elapsed operation m))"

lemma manager_reach_ok:
  assumes "emulator_ok em" and "manager_reach em fresh hist m"
  shows "manager_ok em fresh hist m \<and> log_fine hist"
  using assms(2)
proof induction
  case (start sid)
  then show ?case by (simp add: manager_ok_def new_manager_def log_fine_def contiguous_def resizes_positive_def)
next
  case (logged hist m rs)
  then show ?case using manager_ok_longer by blast
next
  case (crashed hist m reason)
  then show ?case using manager_ok_failure by blast
next
  case (disposed hist m)
  then have "rm_session m \<noteq> []" by (simp add: manager_ok_def)
  with disposed show ?case by simp
next
  case (failed_load hist m made name profile e elapsed operation)
  then show ?case by (simp add: with_backend_def)
next
  case (used hist m name made cols rows rs operation profile elapsed)
  show ?case
  proof (cases "pf_name profile = []")
    case True
    then have "snd (with_backend em made name profile (Inr (Some (log_input (rm_session m) cols rows hist))) elapsed
        operation m) = m" by (simp add: with_backend_def)
    with manager_ok_longer [of em fresh hist m rs] used show ?thesis by simp
  next
    case False
    with with_backend_ok [OF assms(1) _ _ used.hyps(2) False used.hyps(3,4), of hist m elapsed operation "hist @ rs"]
      used manager_ok_longer [of em fresh hist _ rs]
    show ?thesis by fastforce
  qed
qed

text \<open>C31: What the host shows is the log. After any history of uses, crashes of the browser page,
  disposals and growth of the log, with any renderers, profiles and grids, a use of the manager
  gives the operation a backend of the renderer that it asks for, whose terminal is a fresh one that
  was resized to the session's grid and has applied exactly the events of the log that was loaded,
  provided that a boot that is needed works: the manager never rewinds a backend, never keeps one of
  another grid, and never fails on its own.\<close>

theorem renderer_shows_loaded_log:
  assumes "emulator_ok em" and "manager_reach em fresh hist m"
    and "made = Inl (fresh name)" and "pf_name profile \<noteq> []" and "0 < cols" and "0 < rows"
  shows "\<exists>b m1. with_backend em made name profile (Inr (Some (log_input (rm_session m) cols rows hist))) elapsed operation m
        = (fst (operation b), m1)
     \<and> be_name b = name \<and> be_position b = last_seq hist
     \<and> be_terminal b = Some (emulate em hist (em_resize em cols rows (fresh name)))"
proof -
  have ok: "manager_ok em fresh hist m" "log_fine hist" using manager_reach_ok [OF assms(1,2)] by simp_all
  with with_backend_ok [OF assms(1) ok, of name made profile cols rows elapsed operation hist] assms(3-)
  show ?thesis by (fastforce simp: boots_fresh_def)
qed

definition example_profile :: render_profile where
  "example_profile = \<lparr>pf_name = js ''default'', pf_hash = js ''0''\<rparr>"

definition example_fresh :: "renderer_name \<Rightarrow> int \<times> int \<times> jstring list" where
  "example_fresh _ = (80, 24, [])"

definition example_manager :: "(int \<times> int \<times> jstring list) manager" where
  \<comment> \<open>The browser shows the first two events, then its page crashes.\<close>
  "example_manager = page_failure (js ''page crashed'')
     (snd (with_backend tape (Inl (example_fresh GhosttyWeb)) GhosttyWeb example_profile
        (Inr (Some (log_input (js ''s'') 80 24 (take 2 example_events)))) (\<lambda>_. 500) (\<lambda>b. (Inr (), b))
        (new_manager (js ''s''))))"

lemma example_log: "log_fine example_events" "log_fine (take 2 example_events)"
  by (simp_all add: log_fine_def contiguous_def resizes_positive_def example_events_def)

lemma example_reach: "manager_reach tape example_fresh example_events example_manager"
proof -
  have "manager_reach tape example_fresh [] (new_manager (js ''s''))"
    by (rule manager_reach.start) simp
  then have "manager_reach tape example_fresh ([] @ take 2 example_events) (new_manager (js ''s''))"
    by (rule manager_reach.logged) (simp add: example_log)
  then have "manager_reach tape example_fresh (take 2 example_events @ []) example_manager"
    unfolding example_manager_def
    by (intro manager_reach.crashed manager_reach.used [where rs = "[]", of _ _ _ "new_manager (js ''s'')",
          unfolded new_manager_def manager.simps, folded new_manager_def])
      (simp_all add: boots_fresh_def example_log read_only_ok)
  then have "manager_reach tape example_fresh (take 2 example_events) example_manager" by simp
  from manager_reach.logged [OF this, of "drop 2 example_events"] example_log(1) show ?thesis by simp
qed

theorem renderer_shows_loaded_log_witness:
  "\<exists>m1. with_backend tape (Inl (example_fresh GhosttyWeb)) GhosttyWeb example_profile
        (Inr (Some (log_input (rm_session example_manager) 100 30 example_events))) (\<lambda>_. 500)
        (\<lambda>b. (Inr (be_terminal b), b)) example_manager
      = (Inr (Some (emulate tape example_events (100, 30, []))), m1)"
proof -
  have "pf_name example_profile \<noteq> []" by (simp add: example_profile_def)
  from renderer_shows_loaded_log [OF tape_ok example_reach refl this, where cols = 100 and rows = 30 and
      name = GhosttyWeb and elapsed = "\<lambda>_. 500" and operation = "\<lambda>b. (Inr (be_terminal b), b)"]
  show ?thesis by (auto simp: tape_def example_fresh_def)
qed

end
