(* ===== verification/Snapshots.thy ===== *)
theory Snapshots
  imports Backends RenderWait
begin

text \<open>
  Semantic snapshots: how the native backend packs the cell records of its terminal into rows that
  are indexed by column and pads the visible lines to the grid, how the browser backend checks what
  its page answers, and how a snapshot becomes the result of a request.

  The records that a terminal gives for its options are an argument, \<open>shot\<close>.
\<close>

section \<open>Cells\<close>

record native_cell =
  nc_row :: int
  nc_col :: int
  nc_text :: jstring
  nc_width :: int
  nc_bold :: "bool option"
  nc_italic :: "bool option"
  nc_underline :: "bool option"
  nc_fg :: "jstring option"
  nc_bg :: "jstring option"

record snapshot_cell =
  sc_char :: jstring
  sc_fg :: "jstring option"
  sc_bg :: "jstring option"
  sc_bold :: "bool option"
  sc_italic :: "bool option"
  sc_underline :: "bool option"
  sc_strikethrough :: "bool option"
  sc_width :: "int option"

record rich_line =
  rl_number :: int
  rl_cells :: "snapshot_cell list"

record native_screen = screen +
  ns_cells :: "native_cell list option"

record harness_screen = screen +
  hs_cells :: "rich_line list option"

record snapshot_options =
  so_scrollback :: bool
  so_cells :: bool

record semantic_snapshot =
  ss_session :: jstring
  ss_captured :: int
  ss_cols :: int
  ss_rows :: int
  ss_cursor_row :: int
  ss_cursor_col :: int
  ss_is_alt_screen :: bool
  ss_visible :: "visible_line list"
  ss_scrollback :: "visible_line list option"
  ss_cells :: "rich_line list option"

definition blank_cell :: snapshot_cell where
  \<comment> \<open>\<open>{ char: '' }\<close>\<close>
  "blank_cell = \<lparr>sc_char = [], sc_fg = None, sc_bg = None, sc_bold = None, sc_italic = None,
                 sc_underline = None, sc_strikethrough = None, sc_width = None\<rparr>"

definition to_styled_cell :: "native_cell \<Rightarrow> snapshot_cell" where
  "to_styled_cell c =
     \<lparr>sc_char = nc_text c, sc_fg = nc_fg c, sc_bg = nc_bg c, sc_bold = nc_bold c, sc_italic = nc_italic c,
      sc_underline = nc_underline c, sc_strikethrough = None,
      sc_width = (if nc_width c > 1 then Some (nc_width c) else None)\<rparr>"

definition spacer_cell :: "native_cell \<Rightarrow> snapshot_cell" where
  "spacer_cell c = (to_styled_cell c)\<lparr>sc_width := None, sc_char := []\<rparr>"

definition place_cell :: "native_cell \<Rightarrow> snapshot_cell list \<Rightarrow> snapshot_cell list" where
  "place_cell c cells =
     cells @ replicate (nat (nc_col c) - length cells) blank_cell @ [to_styled_cell c]
       @ replicate (nat (nc_width c - 1)) (spacer_cell c)"

definition pack_row :: "native_cell list \<Rightarrow> snapshot_cell list" where
  "pack_row cells = fold place_cell (sort_key nc_col cells) []"

definition group_cell :: "native_cell \<Rightarrow> (int \<times> native_cell list) list \<Rightarrow> (int \<times> native_cell list) list" where
  "group_cell c grouped =
     (let rowCells = (case map_of grouped (nc_row c) of None \<Rightarrow> [] | Some cs \<Rightarrow> cs)
      in omap_set (nc_row c) (rowCells @ [c]) grouped)"

definition map_native_cells :: "native_cell list option \<Rightarrow> rich_line list option" where
  "map_native_cells cells =
     map_option (\<lambda>cs. map (\<lambda>(row, rowCells). \<lparr>rl_number = row, rl_cells = pack_row rowCells\<rparr>)
       (sort_key fst (fold group_cell cs []))) cells"

definition pad_visible_lines_to_rows :: "visible_line list \<Rightarrow> int \<Rightarrow> visible_line list res" where
  "pad_visible_lines_to_rows ls rows =
     check (int (length ls) \<le> rows) ''native visible line count must not exceed terminal rows''
       (Inr (ls @ map (\<lambda>row. \<lparr>vl_row = int row, vl_text = []\<rparr>) [length ls..<nat rows]))"

fun validate_native_cells :: "nat \<Rightarrow> native_cell list \<Rightarrow> 'a res \<Rightarrow> 'a res" where
  "validate_native_cells i [] k = k"
| "validate_native_cells i (c # cs) k =
     (let path = js ''snapshot.cells['' @ nat_digits i @ js ''].''
      in check_str (0 \<le> nc_row c) (path @ js ''row must be non-negative'')
        (check_str (0 \<le> nc_col c) (path @ js ''col must be non-negative'')
        (check_str (0 < nc_width c) (path @ js ''width must be positive'')
        (validate_native_cells (i + 1) cs k))))"

definition cell_schema :: "snapshot_cell \<Rightarrow> bool" where
  "cell_schema c \<longleftrightarrow> (case sc_width c of None \<Rightarrow> True | Some w \<Rightarrow> 2 \<le> w)"

definition rich_line_schema :: "rich_line \<Rightarrow> bool" where
  "rich_line_schema l \<longleftrightarrow> 0 \<le> rl_number l \<and> list_all cell_schema (rl_cells l)"

definition semantic_snapshot_schema :: "semantic_snapshot \<Rightarrow> bool" where
  "semantic_snapshot_schema s \<longleftrightarrow>
     ss_session s \<noteq> [] \<and> -1 \<le> ss_captured s \<and> 0 < ss_cols s \<and> 0 < ss_rows s
     \<and> 0 \<le> ss_cursor_row s \<and> 0 \<le> ss_cursor_col s
     \<and> list_all (\<lambda>l. 0 \<le> vl_row l) (ss_visible s)
     \<and> (case ss_scrollback s of None \<Rightarrow> True | Some ls \<Rightarrow> list_all (\<lambda>l. 0 \<le> vl_row l) ls)
     \<and> (case ss_cells s of None \<Rightarrow> True | Some ls \<Rightarrow> list_all rich_line_schema ls)"

section \<open>Snapshots of the backends\<close>

definition vt_snapshot ::
  "(snapshot_options \<Rightarrow> 't \<Rightarrow> native_screen) \<Rightarrow> snapshot_options \<Rightarrow> 't vt_backend
     \<Rightarrow> semantic_snapshot res \<times> 't vt_backend" where
  \<comment> \<open>The text of a Zod error is not modelled.\<close>
  "vt_snapshot shot options b =
     (case bind_res (require_terminal ''snapshot()'' b)
             (\<lambda>t. check (vb_latest b \<noteq> None) ''snapshot() requires replayTo() first''
               (let sn = shot options t
                in assert_native_snapshot sn (validate_native_cells 0 (case ns_cells sn of None \<Rightarrow> [] | Some cs \<Rightarrow> cs)
                     (assert_snapshot_dimensions sn b (Inr sn))))) of
        Inl e \<Rightarrow> (Inl e, b)
      | Inr sn \<Rightarrow>
          (bind_res (pad_visible_lines_to_rows (sz_visible sn) (sz_rows sn))
             (\<lambda>visible.
                let s = \<lparr>ss_session = vb_session b, ss_captured = vb_last_applied b,
                         ss_cols = sz_cols sn, ss_rows = sz_rows sn,
                         ss_cursor_row = sz_cursor_row sn, ss_cursor_col = sz_cursor_col sn,
                         ss_is_alt_screen = sz_is_alt_screen sn, ss_visible = visible,
                         ss_scrollback = sz_scrollback sn, ss_cells = map_native_cells (ns_cells sn)\<rparr>
                in if semantic_snapshot_schema s then Inr s else Inl (Plain [])),
           b\<lparr>vb_cols := sz_cols sn, vb_rows := sz_rows sn\<rparr>))"

fun harness_rows_ok :: "int option \<Rightarrow> string \<Rightarrow> nat \<Rightarrow> int \<Rightarrow> visible_line list \<Rightarrow> 'a res \<Rightarrow> 'a res" where
  \<comment> \<open>\<open>validateHarnessLines\<close> on values of the declared types, with the row before\<close>
  "harness_rows_ok bound label i previous [] k = k"
| "harness_rows_ok bound label i previous (l # ls) k =
     (let path = js label @ js '' '' @ nat_digits i
      in check_str (0 \<le> vl_row l) (path @ js '' row must be a non-negative integer'')
        (check_str (case bound of None \<Rightarrow> True | Some n \<Rightarrow> vl_row l < n) (path @ js '' row must be within bounds'')
        (check_str (previous < vl_row l) (path @ js '' rows must be strictly increasing'')
        (harness_rows_ok bound label (i + 1) (vl_row l) ls k))))"

definition is_hex_color :: "jstring \<Rightarrow> bool" where
  \<comment> \<open>\<open>/^#[0-9a-fA-F]{6}$/u\<close>\<close>
  "is_hex_color s \<longleftrightarrow>
     (case s of [] \<Rightarrow> False
      | c # hex \<Rightarrow> c = 35 \<and> length hex = 6
          \<and> list_all (\<lambda>d. is_digit d \<or> 65 \<le> d \<and> d \<le> 70 \<or> 97 \<le> d \<and> d \<le> 102) hex)"

fun harness_colors_ok :: "jstring \<Rightarrow> nat \<Rightarrow> snapshot_cell list \<Rightarrow> 'a res \<Rightarrow> 'a res" where
  "harness_colors_ok line j [] k = k"
| "harness_colors_ok line j (c # cs) k =
     (let path = js ''snapshot cell '' @ line @ js '':'' @ nat_digits j
      in check_str (case sc_fg c of None \<Rightarrow> True | Some x \<Rightarrow> is_hex_color x) (path @ js '' fg must be a hex color'')
        (check_str (case sc_bg c of None \<Rightarrow> True | Some x \<Rightarrow> is_hex_color x) (path @ js '' bg must be a hex color'')
        (harness_colors_ok line (j + 1) cs k)))"

fun harness_cells_ok :: "int \<Rightarrow> nat \<Rightarrow> visible_line list \<Rightarrow> rich_line list \<Rightarrow> 'a res \<Rightarrow> 'a res" where
  \<comment> \<open>\<open>validateHarnessSnapshotCells\<close> on values of the declared types\<close>
  "harness_cells_ok cols i [] [] k = k"
| "harness_cells_ok cols i (v # vs) [] k =
     Inl (Assertion (js ''snapshot cell line count must match visible line count''))"
| "harness_cells_ok cols i [] (l # ls) k =
     check_str (0 \<le> rl_number l)
       (js ''snapshot cell line '' @ nat_digits i @ js '' lineNumber must be a non-negative integer'')
       (Inl (Assertion (js ''snapshot cell line '' @ nat_digits i @ js '' must map to a visible line'')))"
| "harness_cells_ok cols i (v # vs) (l # ls) k =
     (let path = js ''snapshot cell line '' @ nat_digits i
      in check_str (0 \<le> rl_number l) (path @ js '' lineNumber must be a non-negative integer'')
        (check_str (rl_number l = vl_row v) (path @ js '' lineNumber must match visible line row'')
        (harness_colors_ok (nat_digits i) 0 (rl_cells l)
        (check_str (int (length (rl_cells l)) \<le> cols) (path @ js '' cell count must not exceed the terminal width'')
        (harness_cells_ok cols (i + 1) vs ls k)))))"

definition validate_harness_snapshot :: "harness_screen \<Rightarrow> 'a res \<Rightarrow> 'a res" where
  "validate_harness_snapshot sn k =
     check (0 < sz_cols sn) ''snapshot cols must be a positive integer''
     (check (0 < sz_rows sn) ''snapshot rows must be a positive integer''
     (check (0 \<le> sz_cursor_row sn) ''snapshot cursorRow must be a non-negative integer''
     (check (0 \<le> sz_cursor_col sn) ''snapshot cursorCol must be a non-negative integer''
     (check (sz_cursor_row sn < sz_rows sn) ''snapshot cursorRow must be within the terminal height''
     (check (sz_cursor_col sn < sz_cols sn) ''snapshot cursorCol must be within the terminal width''
     (harness_rows_ok (Some (sz_rows sn)) ''snapshot visible line'' 0 (-1) (sz_visible sn)
     (check (int (length (sz_visible sn)) \<le> sz_rows sn) ''snapshot visibleLines length must not exceed the viewport height''
     (harness_rows_ok None ''snapshot scrollback line'' 0 (-1) (case sz_scrollback sn of None \<Rightarrow> [] | Some ls \<Rightarrow> ls)
     (case hs_cells sn of None \<Rightarrow> k | Some ls \<Rightarrow> harness_cells_ok (sz_cols sn) 0 (sz_visible sn) ls k)))))))))"

definition assert_harness_cells :: "harness_screen \<Rightarrow> 'a res \<Rightarrow> 'a res" where
  "assert_harness_cells sn k =
     (case hs_cells sn of
        None \<Rightarrow> k
      | Some ls \<Rightarrow>
          check (length ls = length (sz_visible sn)) ''snapshot cell line count must match visible line count after validation''
          (check (list_all (\<lambda>l. int (length (rl_cells l)) \<le> sz_cols sn) ls)
             ''snapshot cell count must not exceed the viewport width'' k))"

definition web_snapshot ::
  "(snapshot_options \<Rightarrow> 't \<Rightarrow> harness_screen) \<Rightarrow> snapshot_options \<Rightarrow> 't web_backend
     \<Rightarrow> semantic_snapshot res \<times> 't web_backend" where
  "web_snapshot shot options b =
     (case bind_res (require_operational_page ''snapshot()'' b)
             (\<lambda>t. check (wb_initial_cols b \<noteq> None) ''snapshot() requires replayTo() first''
               (let sn = shot options t
                in validate_harness_snapshot sn (assert_harness_snapshot sn (assert_harness_cells sn (Inr sn))))) of
        Inl e \<Rightarrow> (Inl e, b)
      | Inr sn \<Rightarrow>
          (Inr \<lparr>ss_session = wb_session b, ss_captured = wb_last_applied b,
                ss_cols = sz_cols sn, ss_rows = sz_rows sn,
                ss_cursor_row = sz_cursor_row sn, ss_cursor_col = sz_cursor_col sn,
                ss_is_alt_screen = sz_is_alt_screen sn, ss_visible = sz_visible sn,
                ss_scrollback = sz_scrollback sn, ss_cells = hs_cells sn\<rparr>,
           b\<lparr>wb_cols := sz_cols sn, wb_rows := sz_rows sn\<rparr>))"

section \<open>Lines and results\<close>

definition strip_trailing_ascii_spaces :: "jstring \<Rightarrow> jstring" where
  "strip_trailing_ascii_spaces s = rev (dropWhile (\<lambda>c. c = 32) (rev s))"

definition assemble_canonical_line :: "(jstring \<times> nat) list \<Rightarrow> jstring" where
  \<comment> \<open>the decoded columns of a row, each with its grapheme and its width\<close>
  "assemble_canonical_line columns =
     strip_trailing_ascii_spaces
       (fold (\<lambda>(grapheme, width) text. if width = 0 then text
               else text @ (if grapheme = [0] then [32] else grapheme)) columns [])"

datatype snapshot_format = StructuredFormat | TextFormat

datatype snapshot_result =
    StructuredResult semantic_snapshot jstring
  | TextResult jstring int int int int int jstring jstring

definition canonical_visible_lines :: "semantic_snapshot \<Rightarrow> jstring list" where
  "canonical_visible_lines s = map vl_text (ss_visible s)"

definition screen_hash :: "(jstring \<Rightarrow> jstring) \<Rightarrow> semantic_snapshot \<Rightarrow> jstring" where
  "screen_hash sha256 s = sha256 (join_with [10] (canonical_visible_lines s))"

definition create_snapshot_result ::
  "(jstring \<Rightarrow> jstring) \<Rightarrow> semantic_snapshot \<Rightarrow> snapshot_format \<Rightarrow> snapshot_result" where
  "create_snapshot_result sha256 s format =
     (let textLines = map vl_text (case ss_scrollback s of None \<Rightarrow> [] | Some ls \<Rightarrow> ls) @ map vl_text (ss_visible s);
          hash = screen_hash sha256 s
      in case format of
           StructuredFormat \<Rightarrow> StructuredResult s hash
         | TextFormat \<Rightarrow>
             TextResult (ss_session s) (ss_captured s) (ss_cols s) (ss_rows s) (ss_cursor_row s) (ss_cursor_col s)
               (join_with [10] textLines) hash)"

section \<open>Packed rows are indexed by column\<close>

definition cell_end :: "native_cell \<Rightarrow> int" where
  "cell_end c = nc_col c + nc_width c"

definition apart :: "native_cell \<Rightarrow> native_cell \<Rightarrow> bool" where
  "apart c d \<longleftrightarrow> cell_end c \<le> nc_col d \<or> cell_end d \<le> nc_col c"

definition cells_fit :: "native_cell list \<Rightarrow> bool" where
  \<comment> \<open>What the terminal documents of its cells: no two of them overlap.\<close>
  "cells_fit cs \<longleftrightarrow>
     (\<forall>c \<in> set cs. 0 \<le> nc_row c \<and> 0 \<le> nc_col c \<and> 0 < nc_width c)
     \<and> sorted_wrt (\<lambda>c d. nc_row c = nc_row d \<longrightarrow> apart c d) cs"

definition shown :: "native_cell set \<Rightarrow> int \<Rightarrow> snapshot_cell \<Rightarrow> bool" where
  "shown cs k x \<longleftrightarrow>
     (\<exists>c \<in> cs. nc_col c = k \<and> x = to_styled_cell c)
     \<or> (\<exists>c \<in> cs. nc_col c < k \<and> k < cell_end c \<and> x = spacer_cell c)
     \<or> (\<forall>c \<in> cs. \<not> (nc_col c \<le> k \<and> k < cell_end c)) \<and> x = blank_cell"

lemma pack_sorted:
  assumes "sorted_wrt (\<lambda>c d. cell_end c \<le> nc_col d) cs" and "\<forall>c \<in> set cs. 0 \<le> nc_col c \<and> 0 < nc_width c"
  shows "int (length (fold place_cell cs [])) = (if cs = [] then 0 else cell_end (last cs))
    \<and> (\<forall>k < length (fold place_cell cs []). shown (set cs) (int k) (fold place_cell cs [] ! k))"
  using assms
proof (induction cs rule: rev_induct)
  case Nil
  then show ?case by simp
next
  case (snoc c cs)
  define cells where "cells = fold place_cell cs []"
  define packed where "packed = fold place_cell (cs @ [c]) []"
  have before: "\<forall>d \<in> set cs. cell_end d \<le> nc_col c" and c: "0 \<le> nc_col c" "0 < nc_width c"
    using snoc.prems by (auto simp: sorted_wrt_append)
  have IH: "int (length cells) = (if cs = [] then 0 else cell_end (last cs))"
    "\<forall>k < length cells. shown (set cs) (int k) (cells ! k)"
    using snoc by (simp_all add: sorted_wrt_append cells_def)
  then have le: "int (length cells) \<le> nc_col c" using before c by auto
  have all: "packed = cells @ replicate (nat (nc_col c) - length cells) blank_cell @ to_styled_cell c
      # replicate (nat (nc_width c - 1)) (spacer_cell c)"
    by (simp add: place_cell_def packed_def cells_def)
  have len: "int (length packed) = cell_end c" using le c by (simp add: all cell_end_def)
  have "shown (set (cs @ [c])) (int k) (packed ! k)" if k: "k < length packed" for k
  proof -
    consider "k < length cells" | "length cells \<le> k" "int k < nc_col c" | "int k = nc_col c" | "nc_col c < int k"
      by linarith
    then show ?thesis
    proof cases
      case 1
      then have "packed ! k = cells ! k" by (simp add: all nth_append)
      moreover have "int k < nc_col c" using 1 le by linarith
      ultimately show ?thesis using IH(2) 1 by (fastforce simp: shown_def)
    next
      case 2
      then have "packed ! k = blank_cell" using le by (auto simp: all nth_append)
      moreover have "\<not> int k < cell_end d" if "d \<in> set cs" for d
      proof -
        have "d = last cs \<or> cell_end d \<le> nc_col (last cs)"
          using snoc.prems(1) that by (cases cs rule: rev_cases) (auto simp: sorted_wrt_append)
        moreover have "last cs \<in> set cs" using that by (intro last_in_set) auto
        then have "nc_col (last cs) \<le> cell_end (last cs)" using snoc.prems(2) by (fastforce simp: cell_end_def)
        moreover have "cell_end (last cs) = int (length cells)" using IH(1) that by (cases cs) auto
        ultimately show ?thesis using 2 by auto
      qed
      ultimately show ?thesis using 2 by (auto simp: shown_def)
    next
      case 3
      then have "packed ! k = to_styled_cell c" using le by (auto simp: all nth_append)
      with 3 show ?thesis by (auto simp: shown_def)
    next
      case 4
      with le have i: "k - length cells - (nat (nc_col c) - length cells) = Suc (k - nat (nc_col c) - 1)"
        "k - nat (nc_col c) - 1 < nat (nc_width c - 1)" "\<not> k < length cells" "\<not> k - length cells < nat (nc_col c) - length cells"
        using k len c by (auto simp: cell_end_def)
      then have "packed ! k = spacer_cell c" by (simp add: all nth_append)
      moreover have "int k < cell_end c" using k len by simp
      ultimately show ?thesis using 4 by (auto simp: shown_def)
    qed
  qed
  with len show ?case unfolding packed_def by simp
qed

lemma sorted_wrt_insort:
  assumes "\<And>x y. P x y \<longleftrightarrow> P y x"
  shows "sorted_wrt P (insort_key f x xs) \<longleftrightarrow> (\<forall>y \<in> set xs. P x y) \<and> sorted_wrt P xs"
  by (induction xs) (auto simp: set_insort_key assms)

lemma sorted_wrt_sort_key: "(\<And>x y. P x y \<longleftrightarrow> P y x) \<Longrightarrow> sorted_wrt P (sort_key f xs) \<longleftrightarrow> sorted_wrt P xs"
  by (induction xs) (auto simp: sorted_wrt_insort)

lemma pack_row_shows:
  assumes "sorted_wrt apart cs" and "\<forall>c \<in> set cs. 0 \<le> nc_col c \<and> 0 < nc_width c"
  shows "(\<forall>k < length (pack_row cs). shown (set cs) (int k) (pack_row cs ! k))
    \<and> (cs \<noteq> [] \<longrightarrow> int (length (pack_row cs)) = Max (cell_end ` set cs))"
proof -
  let ?cs = "sort_key nc_col cs"
  have "sorted_wrt apart ?cs" using assms(1) by (subst sorted_wrt_sort_key) (auto simp: apart_def)
  moreover have "sorted_wrt (\<lambda>c d. nc_col c \<le> nc_col d) ?cs"
    using sorted_sort_key [of nc_col cs] by (simp add: sorted_wrt_map)
  ultimately have "sorted_wrt (\<lambda>c d. apart c d \<and> nc_col c \<le> nc_col d) ?cs"
    by (simp add: sorted_wrt_iff_nth_less)
  then have sorted: "sorted_wrt (\<lambda>c d. cell_end c \<le> nc_col d) ?cs"
    by (rule sorted_wrt_mono_rel [rotated]) (use assms(2) in \<open>fastforce simp: apart_def cell_end_def\<close>)
  note packed = pack_sorted [OF sorted] 
  have "int (length (pack_row cs)) = Max (cell_end ` set cs)" if "cs \<noteq> []"
  proof -
    have ne: "?cs \<noteq> []" using that by (metis set_empty set_sort)
    have "cell_end c \<le> cell_end (last ?cs)" if "c \<in> set cs" for c
    proof -
      obtain xs x where xs: "?cs = xs @ [x]" using ne by (cases ?cs rule: rev_cases) auto
      then have "c = x \<or> cell_end c \<le> nc_col x" using sorted that
        by (metis in_set_conv_decomp set_sort sorted_wrt_append UnE empty_iff empty_set set_ConsD set_append)
      moreover have "x \<in> set cs" using xs by (metis in_set_conv_decomp set_sort)
      ultimately show ?thesis using assms(2) xs by (fastforce simp: cell_end_def)
    qed
    moreover have "last ?cs \<in> set cs" using ne last_in_set set_sort by metis
    ultimately have "Max (cell_end ` set cs) = cell_end (last ?cs)" by (intro Max_eqI) auto
    then show ?thesis using packed assms(2) ne by (simp add: pack_row_def)
  qed
  then show ?thesis using packed assms(2) by (simp add: pack_row_def)
qed

lemma grouped_cells:
  "distinct (map fst (fold group_cell cs []))
   \<and> map_of (fold group_cell cs []) = (\<lambda>r. if r \<in> nc_row ` set cs then Some (filter (\<lambda>c. nc_row c = r) cs) else None)"
proof (induction cs rule: rev_induct)
  case Nil
  then show ?case by simp
next
  case (snoc c cs)
  then have "filter (\<lambda>d. nc_row d = nc_row c) cs
      = (case map_of (fold group_cell cs []) (nc_row c) of None \<Rightarrow> [] | Some cs \<Rightarrow> cs)"
    by (auto simp: filter_empty_conv image_iff)
  then have step: "fold group_cell (cs @ [c]) []
      = omap_set (nc_row c) (filter (\<lambda>d. nc_row d = nc_row c) cs @ [c]) (fold group_cell cs [])"
    by (simp add: group_cell_def)
  have "map_of (fold group_cell (cs @ [c]) []) r
      = (if r \<in> nc_row ` set (cs @ [c]) then Some (filter (\<lambda>d. nc_row d = r) (cs @ [c])) else None)" for r
    unfolding step using snoc by auto
  moreover have "distinct (map fst (fold group_cell (cs @ [c]) []))"
    unfolding step using snoc by (intro distinct_omap_set) simp
  ultimately show ?case by blast
qed

lemma map_native_cells_exact:
  assumes "cells_fit cs"
  obtains ls where "map_native_cells (Some cs) = Some ls"
    and "map rl_number ls = sorted_list_of_set (nc_row ` set cs)"
    and "\<And>l. l \<in> set ls \<Longrightarrow>
          (\<forall>k < length (rl_cells l). shown {c \<in> set cs. nc_row c = rl_number l} (int k) (rl_cells l ! k))
          \<and> int (length (rl_cells l)) = Max (cell_end ` {c \<in> set cs. nc_row c = rl_number l})"
proof
  let ?g = "fold group_cell cs []"
  let ?ls = "map (\<lambda>(row, rowCells). \<lparr>rl_number = row, rl_cells = pack_row rowCells\<rparr>) (sort_key fst ?g)"
  show "map_native_cells (Some cs) = Some ?ls" by (simp add: map_native_cells_def)
  have fst_g: "fst ` set ?g = nc_row ` set cs"
    using grouped_cells [of cs] by (auto simp: dom_map_of_conv_image_fst [symmetric] dom_def split: if_splits)
  have "map rl_number ?ls = map fst (sort_key fst ?g)" by (simp add: case_prod_beta comp_def)
  also have "\<dots> = sorted_list_of_set (nc_row ` set cs)"
  proof (rule sorted_distinct_set_unique)
    show "sorted (map fst (sort_key fst ?g))" by (rule sorted_sort_key)
    show "distinct (map fst (sort_key fst ?g))" using grouped_cells [of cs] by (simp add: distinct_map)
  qed (simp_all add: fst_g)
  finally show "map rl_number ?ls = sorted_list_of_set (nc_row ` set cs)" .
  fix l assume "l \<in> set ?ls"
  then obtain r rowCells where l: "l = \<lparr>rl_number = r, rl_cells = pack_row rowCells\<rparr>" and "(r, rowCells) \<in> set ?g"
    by auto
  then have row: "rowCells = filter (\<lambda>c. nc_row c = r) cs" "r \<in> nc_row ` set cs"
    using grouped_cells [of cs] by (auto dest!: map_of_is_SomeI [rotated] split: if_splits)
  then have "rowCells \<noteq> []" by (auto simp: filter_empty_conv)
  moreover have "sorted_wrt (\<lambda>c d. nc_row c = nc_row d \<longrightarrow> apart c d) rowCells"
    using assms row(1) by (simp add: cells_fit_def sorted_wrt_filter)
  then have "sorted_wrt apart rowCells"
    by (rule sorted_wrt_mono_rel [rotated]) (use row(1) in auto)
  ultimately show "(\<forall>k < length (rl_cells l). shown {c \<in> set cs. nc_row c = rl_number l} (int k) (rl_cells l ! k))
      \<and> int (length (rl_cells l)) = Max (cell_end ` {c \<in> set cs. nc_row c = rl_number l})"
    using pack_row_shows [of rowCells] assms row(1) by (simp add: l cells_fit_def)
qed

section \<open>A snapshot shows the terminal\<close>

definition shot_ok ::
  "('t, 'n) emulator \<Rightarrow> (snapshot_options \<Rightarrow> 't \<Rightarrow> native_screen) \<Rightarrow> bool" where
  \<comment> \<open>What the native terminal documents: whatever the options, it shows the same grid with the cursor
     on it, gives the visible lines from row 0 without gaps, and the cells that are asked for.\<close>
  "shot_ok em shot \<longleftrightarrow>
     (\<forall>options t. let sn = shot options t in
        sz_cols sn = sz_cols (em_snapshot em t) \<and> sz_rows sn = sz_rows (em_snapshot em t)
        \<and> (0 < sz_cols sn \<longrightarrow> 0 < sz_rows sn \<longrightarrow> screen_ok sn)
        \<and> map vl_row (sz_visible sn) = map int [0..<length (sz_visible sn)]
        \<and> (if so_cells options then \<exists>cs. ns_cells sn = Some cs \<and> cells_fit cs \<and> (\<forall>c \<in> set cs. nc_row c < sz_rows sn)
            else ns_cells sn = None))"

definition shown_rows :: "native_screen \<Rightarrow> visible_line list" where
  "shown_rows sn =
     sz_visible sn @ map (\<lambda>row. \<lparr>vl_row = int row, vl_text = []\<rparr>) [length (sz_visible sn)..<nat (sz_rows sn)]"

definition native_view :: "native_screen \<Rightarrow> jstring \<Rightarrow> int \<Rightarrow> semantic_snapshot" where
  "native_view sn sid q =
     \<lparr>ss_session = sid, ss_captured = q, ss_cols = sz_cols sn, ss_rows = sz_rows sn,
      ss_cursor_row = sz_cursor_row sn, ss_cursor_col = sz_cursor_col sn,
      ss_is_alt_screen = sz_is_alt_screen sn, ss_visible = shown_rows sn,
      ss_scrollback = sz_scrollback sn, ss_cells = map_native_cells (ns_cells sn)\<rparr>"

definition vt_shows :: "('t, 'n) emulator \<Rightarrow> 't \<Rightarrow> 't vt_backend \<Rightarrow> bool" where
  \<comment> \<open>a booted backend that has replayed and holds this terminal\<close>
  "vt_shows em t b \<longleftrightarrow>
     \<not> vb_disposed b \<and> vb_booted b \<and> vb_terminal b = Some t \<and> vb_latest b \<noteq> None \<and> vb_session b \<noteq> []
     \<and> -1 \<le> vb_last_applied b \<and> on_grid em t (vb_cols b) (vb_rows b)"

lemma validate_native_cells_fit: "cells_fit cs \<Longrightarrow> validate_native_cells i cs k = k"
  by (induction cs arbitrary: i) (auto simp: cells_fit_def Let_def)

lemma line_rows_nonneg: "line_rows_ok p ls \<Longrightarrow> l \<in> set ls \<Longrightarrow> 0 \<le> vl_row l"
  by (induction ls arbitrary: p) auto

lemma packed_widths: "x \<in> set (fold place_cell cs xs) \<Longrightarrow>
    (\<forall>x \<in> set xs. cell_schema x) \<Longrightarrow> cell_schema x"
proof (induction cs arbitrary: xs)
  case (Cons c cs)
  have "\<forall>x \<in> set (place_cell c xs). cell_schema x"
    using Cons.prems(2) by (auto simp: cell_schema_def place_cell_def to_styled_cell_def spacer_cell_def blank_cell_def)
  from Cons.IH [OF _ this] Cons.prems(1) show ?case by simp
qed simp

lemma map_native_cells_schema:
  assumes "cells_fit cs" and "map_native_cells (Some cs) = Some ls"
  shows "list_all rich_line_schema ls"
proof -
  obtain ls' where ls': "map_native_cells (Some cs) = Some ls'" "map rl_number ls' = sorted_list_of_set (nc_row ` set cs)"
    by (rule map_native_cells_exact [OF assms(1)])
  have "0 \<le> rl_number l" if "l \<in> set ls" for l
  proof -
    have "rl_number l \<in> set (map rl_number ls)" using that by simp
    then have "rl_number l \<in> nc_row ` set cs" using assms(2) ls' by (metis finite_imageI List.finite_set option.inject set_sorted_list_of_set)
    then show ?thesis using assms(1) by (auto simp: cells_fit_def)
  qed
  moreover have "cell_schema c" if "l \<in> set ls" "c \<in> set (rl_cells l)" for l c
    using that assms(2) packed_widths [of c _ "[]"] by (auto simp: map_native_cells_def pack_row_def)
  ultimately show ?thesis by (simp add: list_all_iff rich_line_schema_def)
qed

lemma vt_snapshot_shows:
  assumes "shot_ok em shot" and "vt_shows em t b"
  shows "vt_snapshot shot options b = (Inr (native_view (shot options t) (vb_session b) (vb_last_applied b)), b)"
proof -
  define sn where "sn = shot options t"
  have b: "\<not> vb_disposed b" "vb_booted b" "vb_terminal b = Some t" "vb_latest b \<noteq> None" "vb_session b \<noteq> []"
    "-1 \<le> vb_last_applied b" "on_grid em t (vb_cols b) (vb_rows b)"
    using assms(2) by (auto simp: vt_shows_def)
  have dims: "sz_cols sn = vb_cols b" "sz_rows sn = vb_rows b" "0 < vb_cols b" "0 < vb_rows b"
    using assms(1) b(7) by (simp_all add: shot_ok_def Let_def on_grid_def grid_of_def sn_def)
  have ok: "screen_ok sn" using assms(1) dims by (simp add: shot_ok_def Let_def sn_def)
  have "if so_cells options then \<exists>cs. ns_cells sn = Some cs \<and> cells_fit cs \<and> (\<forall>c \<in> set cs. nc_row c < sz_rows sn)
      else ns_cells sn = None"
    using assms(1) unfolding shot_ok_def Let_def sn_def by blast
  then have cells: "if so_cells options then \<exists>cs. ns_cells sn = Some cs \<and> cells_fit cs else ns_cells sn = None"
    by (auto split: if_splits)
  have "require_terminal ''snapshot()'' b = Inr t" using b by (simp add: require_terminal_def)
  moreover have "assert_native_snapshot sn k = k" for k :: "native_screen res"
    using ok by (simp add: assert_native_snapshot_def screen_ok_def)
  moreover have "validate_native_cells 0 (case ns_cells sn of None \<Rightarrow> [] | Some cs \<Rightarrow> cs) k = k" for k :: "native_screen res"
    using cells by (auto simp: validate_native_cells_fit split: if_splits)
  moreover have "pad_visible_lines_to_rows (sz_visible sn) (sz_rows sn) = Inr (shown_rows sn)"
    using ok by (simp add: pad_visible_lines_to_rows_def shown_rows_def screen_ok_def)
  moreover have "semantic_snapshot_schema (native_view sn (vb_session b) (vb_last_applied b))"
  proof -
    have "\<forall>l \<in> set (sz_visible sn). 0 \<le> vl_row l" using ok line_rows_nonneg by (auto simp: screen_ok_def)
    moreover have "case sz_scrollback sn of None \<Rightarrow> True | Some ls \<Rightarrow> list_all (\<lambda>l. 0 \<le> vl_row l) ls"
      using ok line_rows_nonneg by (auto simp: screen_ok_def list_all_iff split: option.splits)
    moreover have "case map_native_cells (ns_cells sn) of None \<Rightarrow> True | Some ls \<Rightarrow> list_all rich_line_schema ls"
      using cells map_native_cells_schema by (cases "ns_cells sn") (auto simp: map_native_cells_def split: if_splits)
    ultimately show ?thesis
      using ok b dims by (auto simp: semantic_snapshot_schema_def native_view_def shown_rows_def screen_ok_def list_all_iff)
  qed
  ultimately show ?thesis
    using b(4) dims by (simp add: vt_snapshot_def assert_snapshot_dimensions_def Let_def native_view_def flip: sn_def)
qed

end
