(* ===== verification/Following.thy ===== *)
theory Following
  imports RendererManager Snapshots
begin

text \<open>
  What the readers of a log rely on: a backend that they boot once, feed with the records that it
  does not hold yet, and ask for snapshots. The dashboard and the export of frames are proved on
  this interface, and the native backend provides it.
\<close>

definition visual :: "event_record \<Rightarrow> bool" where
  "visual e = (case ev_payload e of Output _ \<Rightarrow> True | Resize _ _ \<Rightarrow> True | _ \<Rightarrow> False)"

locale following_backend =
  fixes boot :: "'o \<Rightarrow> 's \<Rightarrow> unit res \<times> 's"
    and replay :: "'s replayer"
    and snapshot :: "snapshot_options \<Rightarrow> 's \<Rightarrow> semantic_snapshot res \<times> 's"
    and created :: "'s \<Rightarrow> bool"
    and sid :: jstring
    and holds :: "int \<Rightarrow> int \<Rightarrow> event_record list \<Rightarrow> 's \<Rightarrow> bool"
    and view :: "snapshot_options \<Rightarrow> int \<Rightarrow> int \<Rightarrow> event_record list \<Rightarrow> semantic_snapshot"
  assumes boot_holds:
      "created s \<Longrightarrow> 0 < cols \<Longrightarrow> 0 < rows \<Longrightarrow> boot outcome s = (Inr u, s1) \<Longrightarrow> holds cols rows [] s1"
    and boot_fails: "created s \<Longrightarrow> boot outcome s = (Inl failure, s1) \<Longrightarrow> created s1"
    and replay_holds:
      "holds cols rows hist s \<Longrightarrow> log_fine (hist @ es) \<Longrightarrow> es \<noteq> [] \<Longrightarrow>
       \<exists>st s1. replay \<lparr>ri_session = sid, ri_cols = cols, ri_rows = rows, ri_events = es,
                        ri_target = last_seq (hist @ es)\<rparr> s = (Inr st, s1) \<and> holds cols rows (hist @ es) s1"
    and snapshot_holds:
      "holds cols rows hist s \<Longrightarrow> hist \<noteq> [] \<Longrightarrow>
       \<exists>s1. snapshot options s = (Inr (view options cols rows hist), s1) \<and> holds cols rows hist s1"
    and view_idle:
      "\<not> visual e \<Longrightarrow> view options cols rows (hist @ [e]) = (view options cols rows hist)\<lparr>ss_captured := int (ev_seq e)\<rparr>"
    and view_cells:
      "holds cols rows hist s \<Longrightarrow> hist \<noteq> [] \<Longrightarrow> so_cells options \<Longrightarrow>
       0 < ss_cols (view options cols rows hist) \<and> 0 < ss_rows (view options cols rows hist)
       \<and> (\<exists>ls. ss_cells (view options cols rows hist) = Some ls
             \<and> (\<forall>l \<in> set ls. 0 \<le> rl_number l \<and> rl_number l < ss_rows (view options cols rows hist)))"

section \<open>The native backend\<close>

definition vt_view ::
  "('t, 'n) emulator \<Rightarrow> (snapshot_options \<Rightarrow> 't \<Rightarrow> native_screen) \<Rightarrow> 't \<Rightarrow> jstring
     \<Rightarrow> snapshot_options \<Rightarrow> int \<Rightarrow> int \<Rightarrow> event_record list \<Rightarrow> semantic_snapshot" where
  "vt_view em shot t0 sid options cols rows hist =
     native_view (shot options (emulate em hist (em_resize em cols rows t0))) sid (last_seq hist)"

definition vt_boot_with :: "'t \<Rightarrow> js_error option \<Rightarrow> 't vt_backend \<Rightarrow> unit res \<times> 't vt_backend" where
  "vt_boot_with t0 failure = vt_boot (case failure of None \<Rightarrow> Inl t0 | Some e \<Rightarrow> Inr e)"

definition vt_created ::
  "('t, 'n) emulator \<Rightarrow> (snapshot_options \<Rightarrow> 't \<Rightarrow> native_screen) \<Rightarrow> jstring \<Rightarrow> 't vt_backend \<Rightarrow> bool" where
  "vt_created em shot sid b \<longleftrightarrow> emulator_ok em \<and> shot_ok em shot \<and> sid \<noteq> [] \<and> b = new_vt_backend sid"

definition vt_holds ::
  "('t, 'n) emulator \<Rightarrow> (snapshot_options \<Rightarrow> 't \<Rightarrow> native_screen) \<Rightarrow> 't \<Rightarrow> jstring
     \<Rightarrow> int \<Rightarrow> int \<Rightarrow> event_record list \<Rightarrow> 't vt_backend \<Rightarrow> bool" where
  "vt_holds em shot t0 sid cols rows hist b \<longleftrightarrow>
     emulator_ok em \<and> shot_ok em shot \<and> sid \<noteq> [] \<and> 0 < cols \<and> 0 < rows \<and> log_fine hist
     \<and> tracks em (\<lambda>_. t0) sid hist (Native b) \<and> vb_last_applied b = last_seq hist
     \<and> (if hist = [] then be_grid (Native b) = None else be_grid (Native b) = Some (cols, rows) \<and> vb_latest b \<noteq> None)"

lemma shot_ok_cells:
  assumes "shot_ok em shot" and "so_cells options"
  shows "\<exists>cs. ns_cells (shot options t) = Some cs \<and> cells_fit cs \<and> (\<forall>c \<in> set cs. nc_row c < sz_rows (shot options t))"
proof -
  have "if so_cells options
      then \<exists>cs. ns_cells (shot options t) = Some cs \<and> cells_fit cs \<and> (\<forall>c \<in> set cs. nc_row c < sz_rows (shot options t))
      else ns_cells (shot options t) = None"
    using assms(1) unfolding shot_ok_def Let_def by blast
  with assms(2) show ?thesis by simp
qed

lemma vt_holds_terminal:
  assumes "vt_holds em shot t0 sid cols rows hist b" and "hist \<noteq> []"
  shows "vt_shows em (emulate em hist (em_resize em cols rows t0)) b \<and> vb_session b = sid"
  using assms left_after_all [of hist] contiguous_ordered [of hist] last_seq_ge [of hist]
  by (auto simp: vt_holds_def tracks_def vt_shows_def log_fine_def split: option.splits)

lemma left_after_suffix:
  assumes "ordered (hist @ es)"
  shows "left_after (last_seq hist) (last_seq (hist @ es)) es = es"
proof -
  have "last_seq hist < int (ev_seq e)" if "e \<in> set es" for e
    using assms that by (cases hist rule: rev_cases) (auto simp: last_seq_def ordered_def sorted_wrt_append)
  then show ?thesis using ordered_last [OF assms] by (auto simp: left_after_def intro: filter_True)
qed

interpretation vt_following: following_backend "vt_boot_with t0" "vt_replay_to em" "vt_snapshot shot"
  "vt_created em shot sid" sid "vt_holds em shot t0 sid" "vt_view em shot t0 sid"
  for em :: "('t, 'n) emulator" and shot t0 sid
proof
  fix s s1 :: "'t vt_backend" and cols rows :: int and u failure
  assume "vt_created em shot sid s" "0 < cols" "0 < rows" "vt_boot_with t0 failure s = (Inr u, s1)"
  then show "vt_holds em shot t0 sid cols rows [] s1"
    by (cases failure) (auto simp: vt_boot_with_def vt_created_def vt_holds_def vt_boot_def new_vt_backend_def tracks_def last_seq_def log_fine_def
        contiguous_def resizes_positive_def)
next
  fix s s1 :: "'t vt_backend" and failure e
  assume "vt_created em shot sid s" "vt_boot_with t0 failure s = (Inl e, s1)"
  then show "vt_created em shot sid s1"
    by (cases failure) (auto simp: vt_boot_with_def vt_created_def vt_boot_def new_vt_backend_def)
next
  fix s :: "'t vt_backend" and cols rows :: int and hist es :: "event_record list"
  assume holds: "vt_holds em shot t0 sid cols rows hist s" and fine: "log_fine (hist @ es)" and es: "es \<noteq> []"
  let ?input = "\<lparr>ri_session = sid, ri_cols = cols, ri_rows = rows, ri_events = es, ri_target = last_seq (hist @ es)\<rparr>"
  have ord: "ordered (hist @ es)" using fine by (simp add: log_fine_def contiguous_ordered)
  have h: "emulator_ok em" "0 < cols" "0 < rows" "log_fine hist" "tracks em (\<lambda>_. t0) sid hist (Native s)"
    "vb_last_applied s = last_seq hist" and grid: "be_grid (Native s) \<in> {None, Some (cols, rows)}"
    using holds by (auto simp: vt_holds_def split: if_splits)
  note ready = tracks_ready [OF h(1,5,4,2,3) grid]
  have rdy: "vt_ready em ?input s"
    using ready(1) fine last_seq_mono [OF ord] h(6)
    by (auto simp: vt_ready_def log_input_def log_fine_def resizes_positive_def)
  have start: "vt_start em ?input s = emulate em hist (em_resize em cols rows t0)"
  proof -
    have "vt_start em ?input s = vt_start em (log_input sid cols rows hist) s"
      by (simp add: vt_start_def log_input_def)
    then show ?thesis using ready(2) h(6) left_after_all [of hist] h(4)
      by (simp add: log_fine_def contiguous_ordered)
  qed
  have rest: "left_after (vb_last_applied s) (ri_target ?input) (ri_events ?input) = es"
    using left_after_suffix [OF ord] h(6) by simp
  let ?t = "emulate em (hist @ es) (em_resize em cols rows t0)"
  have q: "highest_processed (highest_of (vb_last_applied s) es) ?input = last_seq (hist @ es)"
    using es by (simp add: highest_of_def highest_processed_def last_seq_def)
  have "ordered (ri_events ?input)" using ord by (simp add: ordered_def sorted_wrt_append)
  from vt.replays [OF rdy this rest [symmetric] _ q [symmetric], of ?t] start
  have run: "vt_replay_to em ?input s = (Inr (state_of_screen (last_seq (hist @ es)) (em_snapshot em ?t)),
      vt_replayed em ?input (last_seq (hist @ es)) ?t s)" by simp
  have "vt_ready em ?input (vt_replayed em (?input\<lparr>ri_events := es\<rparr>) (last_seq (hist @ es)) ?t s)"
    by (rule vt.ready_replayed [OF rdy, of es]) (use fine start h(6) last_seq_mono [OF ord] in
        \<open>simp_all add: log_fine_def resizes_positive_def\<close>)
  then have "be_alive em sid (Native (vt_replayed em ?input (last_seq (hist @ es)) ?t s))"
    by (auto simp: vt_ready_def)
  then have "vt_holds em shot t0 sid cols rows (hist @ es) (vt_replayed em ?input (last_seq (hist @ es)) ?t s)"
    using holds fine es h(2,3) left_after_all [OF ord] last_seq_ge [of "hist @ es"]
    by (simp add: vt_holds_def tracks_def vt_replayed_def)
  with run show "\<exists>st s1. vt_replay_to em ?input s = (Inr st, s1) \<and> vt_holds em shot t0 sid cols rows (hist @ es) s1"
    by blast
next
  fix s :: "'t vt_backend" and cols rows :: int and hist and options :: snapshot_options
  assume holds: "vt_holds em shot t0 sid cols rows hist s" and hist: "hist \<noteq> []"
  have "shot_ok em shot" "vb_last_applied s = last_seq hist" using holds by (simp_all add: vt_holds_def)
  with vt_snapshot_shows [of em shot "emulate em hist (em_resize em cols rows t0)" s options] vt_holds_terminal [OF holds hist] holds
  show "\<exists>s1. vt_snapshot shot options s = (Inr (vt_view em shot t0 sid options cols rows hist), s1)
      \<and> vt_holds em shot t0 sid cols rows hist s1"
    by (simp add: vt_view_def)
next
  fix e :: event_record and options and cols rows :: int and hist
  assume "\<not> visual e"
  then have "emulate_event em e t = t" for t
    by (auto simp: visual_def emulate_event_def split: payload.splits)
  then show "vt_view em shot t0 sid options cols rows (hist @ [e])
      = (vt_view em shot t0 sid options cols rows hist)\<lparr>ss_captured := int (ev_seq e)\<rparr>"
    by (simp add: vt_view_def native_view_def last_seq_def)
next
  fix s :: "'t vt_backend" and cols rows :: int and hist and options :: snapshot_options
  assume holds: "vt_holds em shot t0 sid cols rows hist s" and hist: "hist \<noteq> []" and "so_cells options"
  let ?t = "emulate em hist (em_resize em cols rows t0)"
  obtain cs where cs: "ns_cells (shot options ?t) = Some cs" "cells_fit cs"
    "\<forall>c \<in> set cs. nc_row c < sz_rows (shot options ?t)"
    using shot_ok_cells [of em shot options ?t] holds \<open>so_cells options\<close> by (auto simp: vt_holds_def)
  obtain ls where ls: "map_native_cells (Some cs) = Some ls" "map rl_number ls = sorted_list_of_set (nc_row ` set cs)"
    by (rule map_native_cells_exact [OF cs(2)])
  have "\<forall>l \<in> set ls. rl_number l \<in> nc_row ` set cs"
    using arg_cong [OF ls(2), of set] by auto
  moreover have "0 < sz_cols (shot options ?t) \<and> 0 < sz_rows (shot options ?t)"
    using vt_holds_terminal [OF holds hist] holds
    by (simp add: vt_shows_def on_grid_def grid_of_def vt_holds_def shot_ok_def Let_def)
  ultimately show "0 < ss_cols (vt_view em shot t0 sid options cols rows hist)
      \<and> 0 < ss_rows (vt_view em shot t0 sid options cols rows hist)
      \<and> (\<exists>ls. ss_cells (vt_view em shot t0 sid options cols rows hist) = Some ls
          \<and> (\<forall>l \<in> set ls. 0 \<le> rl_number l \<and> rl_number l < ss_rows (vt_view em shot t0 sid options cols rows hist)))"
    using cs ls by (fastforce simp: vt_view_def native_view_def cells_fit_def)
qed

text \<open>A terminal that keeps its grid and the texts that it was fed, for the examples.\<close>

definition tape_shot :: "snapshot_options \<Rightarrow> int \<times> int \<times> jstring list \<Rightarrow> native_screen" where
  "tape_shot options t =
     (case t of (cols, rows, ds) \<Rightarrow>
        \<lparr>sz_cols = cols, sz_rows = rows, sz_cursor_row = 0, sz_cursor_col = 0, sz_is_alt_screen = False,
         sz_visible = (if ds = [] \<or> rows \<le> 0 then [] else [\<lparr>vl_row = 0, vl_text = concat ds\<rparr>]), sz_scrollback = None,
         ns_cells = (if so_cells options then Some [] else None)\<rparr>)"

lemma tape_shot_ok: "shot_ok tape tape_shot"
  by (auto simp: shot_ok_def tape_def tape_shot_def screen_ok_def cells_fit_def split: prod.splits)

end
