(* ===== verification/LiveView.thy ===== *)
theory LiveView
  imports Following
begin

text \<open>
  The live view of the dashboard: the tail of an event log file, which gives the records of the
  complete lines that it has read, and the follower, which replays the records that are new and
  keeps the last screen.

  The bytes of a file are numbers below 256; the decoding of bytes as UTF-8 and the parse of a line
  are arguments.
\<close>

section \<open>The tail of a log file\<close>

datatype source_state = SourcePending | SourceActive | SourceCollected

record event_batch =
  ba_records :: "event_record list"
  ba_state :: source_state

record tail_source =
  ts_offset :: nat
  ts_partial :: "nat list"
  ts_ever_present :: bool

definition new_tail_source :: tail_source where
  "new_tail_source = \<lparr>ts_offset = 0, ts_partial = [], ts_ever_present = False\<rparr>"

function drain_complete_lines ::
  "(nat list \<Rightarrow> jstring) \<Rightarrow> (jstring \<Rightarrow> parse_outcome) \<Rightarrow> nat list \<Rightarrow> event_record list \<times> nat list" where
  \<comment> \<open>the records, and the bytes that stay buffered\<close>
  "drain_complete_lines decode parse partial =
     (case index_of 10 partial of
        None \<Rightarrow> ([], partial)
      | Some i \<Rightarrow>
          let line = trim (decode (take i partial));
              (records, rest) = drain_complete_lines decode parse (drop (Suc i) partial)
          in if line = [] then (records, rest)
             else case parse line of
                    Parsed r \<Rightarrow> (r # records, rest)
                  | _ \<Rightarrow> (records, rest))"
  by pat_completeness auto
termination
  by (relation "measure (\<lambda>(_, _, partial). length partial)") (auto dest: index_of_Some)

declare drain_complete_lines.simps [simp del]

datatype stat_outcome = NotFound | StatFailed js_error | FileSize nat

definition poll_source ::
  "(nat list \<Rightarrow> jstring) \<Rightarrow> (jstring \<Rightarrow> parse_outcome) \<Rightarrow> stat_outcome \<Rightarrow> (nat \<Rightarrow> nat \<Rightarrow> nat list res)
     \<Rightarrow> tail_source \<Rightarrow> event_batch res \<times> tail_source" where
  \<comment> \<open>what \<open>stat\<close> gives, and what \<open>open\<close> and a read of so many bytes at an offset give\<close>
  "poll_source decode parse st read src =
     (case st of
        NotFound \<Rightarrow>
          (Inr \<lparr>ba_records = [],
                ba_state = (if ts_ever_present src then SourceCollected else SourcePending)\<rparr>,
           src\<lparr>ts_offset := 0, ts_partial := []\<rparr>)
      | StatFailed e \<Rightarrow> (Inl e, src)
      | FileSize fileSize \<Rightarrow>
          let src1 = src\<lparr>ts_ever_present := True\<rparr>;
              src2 = (if fileSize < ts_offset src1 then src1\<lparr>ts_offset := 0, ts_partial := []\<rparr> else src1)
          in if fileSize = ts_offset src2 then (Inr \<lparr>ba_records = [], ba_state = SourceActive\<rparr>, src2)
             else case read (ts_offset src2) (fileSize - ts_offset src2) of
                    Inl e \<Rightarrow> (Inl e, src2)
                  | Inr bytes \<Rightarrow>
                      let (records, rest) = drain_complete_lines decode parse (ts_partial src2 @ bytes)
                      in (Inr \<lparr>ba_records = records, ba_state = SourceActive\<rparr>,
                          src2\<lparr>ts_offset := ts_offset src2 + length bytes, ts_partial := rest\<rparr>))"

section \<open>The follower\<close>

datatype live_view_status = ViewPending | ViewFollowing | ViewExited | ViewCollected

record 's follower =
  lf_events :: "event_record list"
  lf_pending :: int
  lf_rendered :: int
  lf_booted :: bool
  lf_collected :: bool
  lf_exit :: "(int option \<times> jstring option) option"
  lf_snapshot :: "semantic_snapshot option"
  lf_backend :: 's

definition new_follower :: "'s \<Rightarrow> 's follower" where
  "new_follower b =
     \<lparr>lf_events = [], lf_pending = -1, lf_rendered = -1, lf_booted = False, lf_collected = False,
      lf_exit = None, lf_snapshot = None, lf_backend = b\<rparr>"

definition ingest_record :: "event_record \<Rightarrow> 's follower \<Rightarrow> 's follower" where
  "ingest_record r f =
     f\<lparr>lf_events := lf_events f @ [r],
       lf_pending := (if int (ev_seq r) > lf_pending f then int (ev_seq r) else lf_pending f),
       lf_exit := (case ev_payload r of Exit code sig \<Rightarrow> Some (code, sig) | _ \<Rightarrow> lf_exit f)\<rparr>"

definition ingest_batch :: "event_batch \<Rightarrow> 's follower \<Rightarrow> 's follower" where
  "ingest_batch batch f =
     (if ba_state batch = SourceCollected then f\<lparr>lf_collected := True\<rparr>
      else fold ingest_record (ba_records batch) f)"

definition cells_only :: snapshot_options where
  "cells_only = \<lparr>so_scrollback = False, so_cells = True\<rparr>"

definition render_frame ::
  "('s \<Rightarrow> unit res \<times> 's) \<Rightarrow> 's replayer \<Rightarrow> (snapshot_options \<Rightarrow> 's \<Rightarrow> semantic_snapshot res \<times> 's)
     \<Rightarrow> jstring \<Rightarrow> int \<Rightarrow> int \<Rightarrow> 's follower \<Rightarrow> bool res \<times> 's follower" where
  "render_frame boot replay snapshot sid cols rows f =
     (if lf_collected f then (Inr False, f)
      else if lf_pending f \<le> lf_rendered f \<or> lf_events f = [] then (Inr False, f)
      else case (if lf_booted f then (Inr (), lf_backend f) else boot (lf_backend f)) of
             (Inl e, b1) \<Rightarrow> (Inl e, f\<lparr>lf_backend := b1\<rparr>)
           | (Inr _, b1) \<Rightarrow>
               (case replay \<lparr>ri_session = sid, ri_cols = cols, ri_rows = rows, ri_events = lf_events f,
                             ri_target = lf_pending f\<rparr> b1 of
                  (Inl e, b2) \<Rightarrow> (Inl e, f\<lparr>lf_booted := True, lf_backend := b2\<rparr>)
                | (Inr _, b2) \<Rightarrow>
                    (case snapshot cells_only b2 of
                       (Inl e, b3) \<Rightarrow> (Inl e, f\<lparr>lf_booted := True, lf_backend := b3\<rparr>)
                     | (Inr sn, b3) \<Rightarrow>
                         (Inr True,
                          f\<lparr>lf_booted := True, lf_backend := b3, lf_snapshot := Some sn,
                            lf_rendered := lf_pending f, lf_events := []\<rparr>))))"

definition view_status :: "'s follower \<Rightarrow> live_view_status" where
  "view_status f =
     (if lf_collected f then ViewCollected
      else if lf_exit f \<noteq> None then ViewExited
      else if lf_snapshot f = None then ViewPending else ViewFollowing)"

section \<open>The tail gives every complete line once\<close>

lemma drain_Nil [simp]: "drain_complete_lines decode parse [] = ([], [])"
  by (simp add: drain_complete_lines.simps)

lemma index_of_append: "index_of x s = Some i \<Longrightarrow> index_of x (s @ t) = Some i"
  by (induction s arbitrary: i) (auto split: if_splits)

lemma index_of_first: "x \<notin> set s \<Longrightarrow> index_of x (s @ x # t) = Some (length s)"
  by (induction s) auto

lemma drain_append:
  "drain_complete_lines decode parse (xs @ ys) =
     (let (rs, rest) = drain_complete_lines decode parse xs;
          (rs', rest') = drain_complete_lines decode parse (rest @ ys)
      in (rs @ rs', rest'))"
proof (induction xs rule: length_induct)
  case (1 xs)
  show ?case
  proof (cases "index_of 10 xs")
    case None
    then show ?thesis by (simp add: drain_complete_lines.simps [of decode parse xs] split: prod.splits)
  next
    case (Some i)
    note i = index_of_Some [OF Some]
    then have "i < length xs" by blast
    then have "length (drop (Suc i) xs) < length xs" by simp
    note IH = "1.IH" [rule_format, OF this]
    have cut: "take i (xs @ ys) = take i xs" "drop (Suc i) (xs @ ys) = drop (Suc i) xs @ ys" using i by auto
    show ?thesis
      using index_of_append [OF Some, of ys] Some
      by (simp add: drain_complete_lines.simps [of decode parse xs] drain_complete_lines.simps [of decode parse "xs @ ys"]
          cut IH Let_def del: take_append drop_append split: prod.splits parse_outcome.splits)
  qed
qed

definition codec_ok ::
  "(event_record \<Rightarrow> nat list) \<Rightarrow> (nat list \<Rightarrow> jstring) \<Rightarrow> (jstring \<Rightarrow> parse_outcome) \<Rightarrow> event_record \<Rightarrow> bool" where
  \<comment> \<open>The bytes of a record are one line, which decodes and parses to the record.\<close>
  "codec_ok enc decode parse r \<longleftrightarrow>
     (\<exists>line. enc r = line @ [10] \<and> 10 \<notin> set line \<and> trim (decode line) \<noteq> [] \<and> parse (trim (decode line)) = Parsed r)"

definition log_bytes :: "(event_record \<Rightarrow> nat list) \<Rightarrow> event_record list \<Rightarrow> nat list" where
  "log_bytes enc hist = concat (map enc hist)"

lemma drain_record:
  assumes "codec_ok enc decode parse r"
  shows "drain_complete_lines decode parse (enc r @ bs)
    = (r # fst (drain_complete_lines decode parse bs), snd (drain_complete_lines decode parse bs))"
proof -
  obtain line where line: "enc r = line @ [10]" "10 \<notin> set line" "trim (decode line) \<noteq> []"
    "parse (trim (decode line)) = Parsed r"
    using assms by (auto simp: codec_ok_def)
  then have "index_of 10 (enc r @ bs) = Some (length line)" using index_of_first by simp
  with line show ?thesis
    by (simp add: drain_complete_lines.simps [of decode parse "line @ 10 # bs"] Let_def case_prod_beta)
qed

lemma drain_log_prefix:
  assumes "list_all (codec_ok enc decode parse) hist" and "prefix bs (log_bytes enc hist)"
  shows "\<exists>n. fst (drain_complete_lines decode parse bs) = take n hist
    \<and> (bs = log_bytes enc hist \<longrightarrow> fst (drain_complete_lines decode parse bs) = hist)"
  using assms
proof (induction hist arbitrary: bs)
  case Nil
  then show ?case by (auto simp: log_bytes_def drain_complete_lines.simps)
next
  case (Cons r hist)
  then obtain line where line: "enc r = line @ [10]" "10 \<notin> set line" by (auto simp: codec_ok_def)
  have bytes: "log_bytes enc (r # hist) = enc r @ log_bytes enc hist" by (simp add: log_bytes_def)
  from Cons.prems(2) consider (short) "prefix bs line" | (whole) bs' where "bs = enc r @ bs'" "prefix bs' (log_bytes enc hist)"
    unfolding bytes line(1) by (auto simp: prefix_append append_eq_Cons_conv prefix_Cons)
  then show ?case
  proof cases
    case short
    then have "10 \<notin> set bs" using line(2) by (meson set_mono_prefix subsetD)
    then have "index_of 10 bs = None" by (simp add: index_of_None)
    then have "drain_complete_lines decode parse bs = ([], bs)" by (simp add: drain_complete_lines.simps)
    moreover have "bs \<noteq> log_bytes enc (r # hist)" using \<open>10 \<notin> set bs\<close> by (auto simp: bytes line(1))
    ultimately show ?thesis by (intro exI [of _ 0]) simp
  next
    case whole
    from Cons.IH [OF _ whole(2)] Cons.prems(1) obtain n where
      n: "fst (drain_complete_lines decode parse bs') = take n hist"
      "bs' = log_bytes enc hist \<longrightarrow> fst (drain_complete_lines decode parse bs') = hist" by auto
    with drain_record [of enc decode parse r bs'] Cons.prems(1) show ?thesis
      by (intro exI [of _ "Suc n"]) (auto simp: whole(1) bytes)
  qed
qed

section \<open>The follower shows what it has read\<close>

lemma last_seq_snoc: "last_seq (hist @ [r]) = int (ev_seq r)" "last_seq (hist @ es @ [r]) = int (ev_seq r)"
  by (simp_all add: last_seq_def)

definition follower_ok ::
  "(int \<Rightarrow> int \<Rightarrow> event_record list \<Rightarrow> 's \<Rightarrow> bool) \<Rightarrow> ('s \<Rightarrow> bool)
     \<Rightarrow> (snapshot_options \<Rightarrow> int \<Rightarrow> int \<Rightarrow> event_record list \<Rightarrow> semantic_snapshot)
     \<Rightarrow> int \<Rightarrow> int \<Rightarrow> event_record list \<Rightarrow> 's follower \<Rightarrow> bool" where
  \<comment> \<open>The follower has ingested these records and shows some first part of them.\<close>
  "follower_ok holds created view cols rows hist f \<longleftrightarrow>
     0 < cols \<and> 0 < rows \<and> log_fine hist \<and> lf_pending f = last_seq hist
     \<and> (\<exists>shown. hist = shown @ lf_events f \<and> lf_rendered f = last_seq shown
          \<and> lf_snapshot f = (if shown = [] then None else Some (view cells_only cols rows shown))
          \<and> (if lf_booted f then holds cols rows shown (lf_backend f) else shown = [] \<and> created (lf_backend f)))"

context following_backend
begin

lemma ingest_records_ok:
  "follower_ok holds created view cols rows hist f \<Longrightarrow> log_fine (hist @ rs) \<Longrightarrow> follower_ok holds created view cols rows (hist @ rs) (fold ingest_record rs f)"
proof (induction rs arbitrary: hist f)
  case Nil
  then show ?case by simp
next
  case (Cons r rs)
  have "contiguous (hist @ r # rs)" using Cons.prems(2) by (simp add: log_fine_def)
  from contiguous_take [OF this, of "Suc (length hist)"] have c: "contiguous (hist @ [r])" by simp
  then have fine: "log_fine (hist @ [r])" using Cons.prems(2) by (simp add: log_fine_def resizes_positive_def)
  have ord: "ordered (hist @ [r])" by (rule contiguous_ordered [OF c])
  have "last_seq hist < int (ev_seq r)"
    using ord by (cases hist rule: rev_cases) (auto simp: last_seq_def ordered_def sorted_wrt_append)
  then have "follower_ok holds created view cols rows (hist @ [r]) (ingest_record r f)"
    using Cons.prems(1) fine unfolding follower_ok_def
    by (elim conjE exE, intro conjI) (simp_all add: ingest_record_def last_seq_snoc)
  from Cons.IH [OF this] Cons.prems(2) show ?case by simp
qed

lemma render_ok:
  fixes outcome :: 'o
  assumes ok: "follower_ok holds created view cols rows hist f"
  defines "out \<equiv> render_frame (boot outcome) replay snapshot sid cols rows f"
  shows "follower_ok holds created view cols rows hist (snd out)"
    and "lf_collected (snd out) = lf_collected f" and "lf_exit (snd out) = lf_exit f"
    and "fst out = Inl e \<Longrightarrow> created (lf_backend f) \<and> (\<exists>s1. boot outcome (lf_backend f) = (Inl e, s1))"
    and "\<not> lf_collected f \<Longrightarrow> hist \<noteq> [] \<Longrightarrow> fst out = Inr b \<Longrightarrow>
          lf_snapshot (snd out) = Some (view cells_only cols rows hist)"
proof -
  obtain seen where d: "hist = seen @ lf_events f" "lf_rendered f = last_seq seen"
    "lf_snapshot f = (if seen = [] then None else Some (view cells_only cols rows seen))"
    "if lf_booted f then holds cols rows seen (lf_backend f) else seen = [] \<and> created (lf_backend f)"
    and pos: "0 < cols" "0 < rows" "log_fine hist" "lf_pending f = last_seq hist"
    using ok by (auto simp: follower_ok_def)
  have ord: "ordered (seen @ lf_events f)" using pos(3) d(1) by (simp add: log_fine_def contiguous_ordered)
  have idle: "lf_pending f \<le> lf_rendered f \<Longrightarrow> lf_events f = []"
  proof (rule ccontr)
    assume "lf_pending f \<le> lf_rendered f" "lf_events f \<noteq> []"
    moreover have "last_seq seen < last_seq (seen @ lf_events f)" if "lf_events f \<noteq> []"
      using ord that by (cases seen rule: rev_cases)
        (auto simp: last_seq_def ordered_def sorted_wrt_append)
    ultimately show False using d pos by simp
  qed
  let ?goal = "follower_ok holds created view cols rows hist (snd out) \<and> lf_collected (snd out) = lf_collected f
    \<and> lf_exit (snd out) = lf_exit f
    \<and> (fst out = Inl e \<longrightarrow> created (lf_backend f) \<and> (\<exists>s1. boot outcome (lf_backend f) = (Inl e, s1)))
    \<and> (\<not> lf_collected f \<longrightarrow> hist \<noteq> [] \<longrightarrow> fst out = Inr b \<longrightarrow>
         lf_snapshot (snd out) = Some (view cells_only cols rows hist))"
  have ?goal
  proof (cases "lf_collected f \<or> lf_events f = []")
    case True
    then have "out = (Inr False, f)" by (auto simp: out_def render_frame_def)
    with True ok d show ?thesis by auto
  next
    case False
    then have live: "\<not> lf_collected f" "\<not> (lf_pending f \<le> lf_rendered f \<or> lf_events f = [])" using idle by auto
    obtain r b1 where boot: "(if lf_booted f then (Inr (), lf_backend f) else boot outcome (lf_backend f)) = (r, b1)"
      by fastforce
    show ?thesis
    proof (cases r)
      case (Inl e)
      with boot have "\<not> lf_booted f" "boot outcome (lf_backend f) = (Inl e, b1)" by (auto split: if_splits)
      moreover from this boot Inl live have "out = (Inl e, f\<lparr>lf_backend := b1\<rparr>)" by (simp add: out_def render_frame_def)
      ultimately show ?thesis using d pos boot_fails by (auto simp: follower_ok_def)
    next
      case (Inr u)
      have b1: "holds cols rows seen b1"
        using boot Inr d(4) boot_holds [OF _ pos(1,2)] by (auto split: if_splits)
      have "log_fine (seen @ lf_events f)" "lf_events f \<noteq> []" using pos d live by simp_all
      from replay_holds [OF b1 this] obtain st b2 where
        b2: "replay \<lparr>ri_session = sid, ri_cols = cols, ri_rows = rows, ri_events = lf_events f,
               ri_target = lf_pending f\<rparr> b1 = (Inr st, b2)" "holds cols rows hist b2"
        using d(1) pos(4) by auto
      have ne: "hist \<noteq> []" using d(1) live by auto
      from snapshot_holds [OF b2(2) ne] obtain b3 where
        b3: "snapshot cells_only b2 = (Inr (view cells_only cols rows hist), b3)" "holds cols rows hist b3" by blast
      have "out = (Inr True, f\<lparr>lf_booted := True, lf_backend := b3, lf_snapshot := Some (view cells_only cols rows hist),
          lf_rendered := lf_pending f, lf_events := []\<rparr>)"
        using live boot Inr b2(1) b3(1) by (simp add: out_def render_frame_def)
      with b3 pos ne show ?thesis by (auto simp: follower_ok_def)
    qed
  qed
  then show "follower_ok holds created view cols rows hist (snd out)"
    and "lf_collected (snd out) = lf_collected f" and "lf_exit (snd out) = lf_exit f"
    and "fst out = Inl e \<Longrightarrow> created (lf_backend f) \<and> (\<exists>s1. boot outcome (lf_backend f) = (Inl e, s1))"
    and "\<not> lf_collected f \<Longrightarrow> hist \<noteq> [] \<Longrightarrow> fst out = Inr b \<Longrightarrow>
          lf_snapshot (snd out) = Some (view cells_only cols rows hist)"
    by blast+
qed

end

section \<open>A live view of a log that grows\<close>

record 's live_view =
  lv_source :: tail_source
  lv_follower :: "'s follower"

definition ingest_source ::
  "(nat list \<Rightarrow> jstring) \<Rightarrow> (jstring \<Rightarrow> parse_outcome) \<Rightarrow> stat_outcome \<Rightarrow> (nat \<Rightarrow> nat \<Rightarrow> nat list res)
     \<Rightarrow> 's live_view \<Rightarrow> unit res \<times> 's live_view" where
  "ingest_source decode parse st read v =
     (case poll_source decode parse st read (lv_source v) of
        (Inl e, src) \<Rightarrow> (Inl e, v\<lparr>lv_source := src\<rparr>)
      | (Inr batch, src) \<Rightarrow>
          (Inr (), v\<lparr>lv_source := src, lv_follower := ingest_batch batch (lv_follower v)\<rparr>))"

definition render_view ::
  "('t, 'n) emulator \<Rightarrow> (snapshot_options \<Rightarrow> 't \<Rightarrow> native_screen) \<Rightarrow> 't \<Rightarrow> jstring \<Rightarrow> int \<Rightarrow> int \<Rightarrow> js_error option
     \<Rightarrow> 't vt_backend live_view \<Rightarrow> bool res \<times> 't vt_backend live_view" where
  "render_view em shot t0 sid cols rows failure v =
     (case render_frame (vt_boot_with t0 failure) (vt_replay_to em) (vt_snapshot shot) sid cols rows (lv_follower v) of
        (r, f) \<Rightarrow> (r, v\<lparr>lv_follower := f\<rparr>))"

definition short_read :: "nat list \<Rightarrow> nat \<Rightarrow> nat \<Rightarrow> nat \<Rightarrow> nat list res" where
  \<comment> \<open>A read gives some first part of the bytes that it is asked for.\<close>
  "short_read file k offset n = Inr (take (min k n) (drop offset file))"

inductive live_reach ::
  "('t, 'n) emulator \<Rightarrow> (snapshot_options \<Rightarrow> 't \<Rightarrow> native_screen) \<Rightarrow> 't \<Rightarrow> jstring \<Rightarrow> int \<Rightarrow> int
     \<Rightarrow> (event_record \<Rightarrow> nat list) \<Rightarrow> (nat list \<Rightarrow> jstring) \<Rightarrow> (jstring \<Rightarrow> parse_outcome)
     \<Rightarrow> event_record list \<Rightarrow> nat list \<Rightarrow> 't vt_backend live_view \<Rightarrow> bool"
  for em :: "('t, 'n) emulator" and shot t0 sid cols rows enc decode parse where
  start: "vt_created em shot sid b \<Longrightarrow> 0 < cols \<Longrightarrow> 0 < rows \<Longrightarrow>
    live_reach em shot t0 sid cols rows enc decode parse [] []
      \<lparr>lv_source = new_tail_source, lv_follower = new_follower b\<rparr>"
| logged: "live_reach em shot t0 sid cols rows enc decode parse hist file v \<Longrightarrow> log_fine (hist @ rs) \<Longrightarrow>
    list_all (codec_ok enc decode parse) rs \<Longrightarrow>
    live_reach em shot t0 sid cols rows enc decode parse (hist @ rs) file v"
| written: "live_reach em shot t0 sid cols rows enc decode parse hist file v \<Longrightarrow>
    prefix (file @ bytes) (log_bytes enc hist) \<Longrightarrow>
    live_reach em shot t0 sid cols rows enc decode parse hist (file @ bytes) v"
| polled: "live_reach em shot t0 sid cols rows enc decode parse hist file v \<Longrightarrow>
    live_reach em shot t0 sid cols rows enc decode parse hist file
      (snd (ingest_source decode parse (FileSize (length file)) (short_read file k) v))"
| missed: "live_reach em shot t0 sid cols rows enc decode parse hist file v \<Longrightarrow>
    live_reach em shot t0 sid cols rows enc decode parse hist file (snd (ingest_source decode parse NotFound read v))"
| rendered: "live_reach em shot t0 sid cols rows enc decode parse hist file v \<Longrightarrow>
    live_reach em shot t0 sid cols rows enc decode parse hist file
      (snd (render_view em shot t0 sid cols rows failure v))"

definition last_exit :: "event_record list \<Rightarrow> (int option \<times> jstring option) option" where
  "last_exit hist = fold (\<lambda>r x. case ev_payload r of Exit code sig \<Rightarrow> Some (code, sig) | _ \<Rightarrow> x) hist None"

lemma ingest_records_exit:
  "lf_exit (fold ingest_record rs f)
     = fold (\<lambda>r x. case ev_payload r of Exit code sig \<Rightarrow> Some (code, sig) | _ \<Rightarrow> x) rs (lf_exit f)"
  "lf_collected (fold ingest_record rs f) = lf_collected f" "lf_snapshot (fold ingest_record rs f) = lf_snapshot f"
  by (induction rs arbitrary: f) (simp_all add: ingest_record_def)

definition shows_part :: "(event_record list \<Rightarrow> semantic_snapshot) \<Rightarrow> event_record list \<Rightarrow> 's follower \<Rightarrow> bool" where
  "shows_part view hist f \<longleftrightarrow>
     (\<exists>n \<le> length hist. lf_snapshot f = (if n = 0 then None else Some (view (take n hist))))"

definition live_ok ::
  "('t, 'n) emulator \<Rightarrow> (snapshot_options \<Rightarrow> 't \<Rightarrow> native_screen) \<Rightarrow> 't \<Rightarrow> jstring \<Rightarrow> int \<Rightarrow> int
     \<Rightarrow> (event_record \<Rightarrow> nat list) \<Rightarrow> (nat list \<Rightarrow> jstring) \<Rightarrow> (jstring \<Rightarrow> parse_outcome)
     \<Rightarrow> event_record list \<Rightarrow> nat list \<Rightarrow> 't vt_backend live_view \<Rightarrow> bool" where
  "live_ok em shot t0 sid cols rows enc decode parse hist file v \<longleftrightarrow>
     prefix file (log_bytes enc hist) \<and> log_fine hist \<and> list_all (codec_ok enc decode parse) hist
     \<and> shows_part (vt_view em shot t0 sid cells_only cols rows) hist (lv_follower v)
     \<and> (\<not> lf_collected (lv_follower v) \<longrightarrow>
          (let src = lv_source v; read = drain_complete_lines decode parse (take (ts_offset src) file)
           in ts_offset src \<le> length file \<and> (\<not> ts_ever_present src \<longrightarrow> ts_offset src = 0)
              \<and> ts_partial src = snd read
              \<and> follower_ok (vt_holds em shot t0 sid) (vt_created em shot sid) (vt_view em shot t0 sid) cols rows
                    (fst read) (lv_follower v)
              \<and> lf_exit (lv_follower v) = last_exit (fst read)))"

lemma shows_part_longer: "shows_part view hist f \<Longrightarrow> shows_part view (hist @ rs) f"
  unfolding shows_part_def by (metis le_add1 length_append order.trans take_append diff_is_0_eq take_0 append_Nil2)

lemma follower_shows_part:
  assumes "follower_ok holds created view cols rows (take n hist) f"
  shows "shows_part (view cells_only cols rows) hist f"
proof -
  obtain shown where shown: "take n hist = shown @ lf_events f"
    "lf_snapshot f = (if shown = [] then None else Some (view cells_only cols rows shown))"
    using assms by (auto simp: follower_ok_def)
  then have "prefix shown hist" by (metis append_take_drop_id append.assoc prefixI)
  then have "shown = take (length shown) hist" "length shown \<le> length hist"
    by (auto simp: prefix_def)
  with shown(2) show ?thesis unfolding shows_part_def by (metis length_0_conv)
qed

lemma poll_reads_on:
  assumes "ts_offset src \<le> length file" and "ts_partial src = snd (drain_complete_lines decode parse (take (ts_offset src) file))"
  obtains src' rs where
    "poll_source decode parse (FileSize (length file)) (short_read file k) src = (Inr \<lparr>ba_records = rs, ba_state = SourceActive\<rparr>, src')"
    and "ts_offset src' = ts_offset src + min k (length file - ts_offset src)"
    and "drain_complete_lines decode parse (take (ts_offset src') file)
      = (fst (drain_complete_lines decode parse (take (ts_offset src) file)) @ rs, ts_partial src')"
    and "ts_ever_present src'"
proof (cases "ts_offset src = length file")
  case True
  with assms show ?thesis
    by (intro that [of "[]" "src\<lparr>ts_ever_present := True\<rparr>"]) (simp_all add: poll_source_def Let_def prod_eq_iff)
next
  case False
  let ?off = "ts_offset src" and ?n = "min k (length file - ts_offset src)"
  let ?bytes = "take ?n (drop ?off file)"
  obtain rs rest where d: "drain_complete_lines decode parse (ts_partial src @ ?bytes) = (rs, rest)" by fastforce
  have "take (?off + ?n) file = take ?off file @ ?bytes" by (simp add: take_add)
  with d assms(2) drain_append [of decode parse "take ?off file" ?bytes]
  have "drain_complete_lines decode parse (take (?off + ?n) file)
      = (fst (drain_complete_lines decode parse (take ?off file)) @ rs, rest)"
    by (simp add: Let_def case_prod_beta)
  with False d assms(1) show ?thesis
    by (intro that [of rs "src\<lparr>ts_ever_present := True, ts_offset := ?off + ?n, ts_partial := rest\<rparr>"])
      (simp_all add: poll_source_def short_read_def Let_def)
qed

lemma log_fine_take: "log_fine hist \<Longrightarrow> log_fine (take n hist)"
  by (auto simp: log_fine_def contiguous_take resizes_positive_def list_all_iff dest: in_set_takeD)

lemma live_reach_ok:
  "live_reach em shot t0 sid cols rows enc decode parse hist file v \<Longrightarrow>
   live_ok em shot t0 sid cols rows enc decode parse hist file v"
proof (induction rule: live_reach.induct)
  case (start b)
  then show ?case
    by (simp add: live_ok_def shows_part_def new_follower_def new_tail_source_def Let_def follower_ok_def log_fine_def
        contiguous_def resizes_positive_def last_seq_def last_exit_def drain_complete_lines.simps)
next
  case (logged hist content v rs)
  then show ?case
    by (auto simp: live_ok_def shows_part_longer log_bytes_def intro: prefix_order.trans)
next
  case (written hist content v bytes)
  then show ?case by (auto simp: live_ok_def Let_def)
next
  case (polled hist content v k)
  let ?src = "lv_source v" and ?f = "lv_follower v"
  from polled.IH have pre: "prefix content (log_bytes enc hist)" "log_fine hist" "list_all (codec_ok enc decode parse) hist"
    and part: "shows_part (vt_view em shot t0 sid cells_only cols rows) hist ?f"
    by (simp_all add: live_ok_def)
  show ?case
  proof (cases "lf_collected ?f")
    case True
    obtain out src where poll: "poll_source decode parse (FileSize (length content)) (short_read content k) ?src = (out, src)"
      by fastforce
    then have "snd (ingest_source decode parse (FileSize (length content)) (short_read content k) v)
        = v\<lparr>lv_source := src, lv_follower := (case out of Inl e \<Rightarrow> ?f | Inr batch \<Rightarrow> ingest_batch batch ?f)\<rparr>"
      by (simp add: ingest_source_def split: sum.splits)
    moreover have "lf_collected (ingest_batch batch ?f) \<and> lf_snapshot (ingest_batch batch ?f) = lf_snapshot ?f" for batch
      using True by (simp add: ingest_batch_def ingest_records_exit)
    ultimately show ?thesis
      using pre part True by (auto simp: live_ok_def shows_part_def split: sum.splits)
  next
    case False
    let ?read = "drain_complete_lines decode parse (take (ts_offset ?src) content)"
    from polled.IH False have src: "ts_offset ?src \<le> length content" "ts_partial ?src = snd ?read"
      and fo: "follower_ok (vt_holds em shot t0 sid) (vt_created em shot sid) (vt_view em shot t0 sid) cols rows (fst ?read) ?f"
      and exit: "lf_exit ?f = last_exit (fst ?read)"
      by (simp_all add: live_ok_def Let_def)
    obtain src' rs where
      poll: "poll_source decode parse (FileSize (length content)) (short_read content k) ?src
          = (Inr \<lparr>ba_records = rs, ba_state = SourceActive\<rparr>, src')"
      and off: "ts_offset src' = ts_offset ?src + min k (length content - ts_offset ?src)"
      and drain: "drain_complete_lines decode parse (take (ts_offset src') content) = (fst ?read @ rs, ts_partial src')"
      and ever: "ts_ever_present src'"
      by (rule poll_reads_on [OF src])
    have "prefix (take (ts_offset src') content) (log_bytes enc hist)"
      using pre(1) take_is_prefix prefix_order.trans by blast
    from drain_log_prefix [OF pre(3) this] drain obtain n where n: "fst ?read @ rs = take n hist" by auto
    then have "log_fine (fst ?read @ rs)" using log_fine_take [OF pre(2), of n] by simp
    note fo' = vt_following.ingest_records_ok [OF fo this]
    have off': "ts_offset src' \<le> length content" using off src(1) by simp
    have step: "snd (ingest_source decode parse (FileSize (length content)) (short_read content k) v)
        = v\<lparr>lv_source := src', lv_follower := fold ingest_record rs ?f\<rparr>"
      using poll by (simp add: ingest_source_def ingest_batch_def)
    have "shows_part (vt_view em shot t0 sid cells_only cols rows) hist (fold ingest_record rs ?f)"
      using fo' unfolding n by (rule follower_shows_part)
    moreover have "lf_exit (fold ingest_record rs ?f) = last_exit (fst ?read @ rs)"
      using exit by (simp add: ingest_records_exit last_exit_def)
    ultimately have "live_ok em shot t0 sid cols rows enc decode parse hist content
        (v\<lparr>lv_source := src', lv_follower := fold ingest_record rs ?f\<rparr>)"
      using pre fo' drain ever off' by (simp add: live_ok_def Let_def)
    then show ?thesis using step by simp
  qed
next
  case (missed hist content v read)
  then show ?case
    by (auto simp: live_ok_def ingest_source_def poll_source_def ingest_batch_def Let_def shows_part_def)
next
  case (rendered hist content v failure)
  let ?f = "lv_follower v"
  let ?out = "render_frame (vt_boot_with t0 failure) (vt_replay_to em) (vt_snapshot shot) sid cols rows ?f"
  have step: "snd (render_view em shot t0 sid cols rows failure v) = v\<lparr>lv_follower := snd ?out\<rparr>"
    by (simp add: render_view_def split: prod.splits)
  show ?case
  proof (cases "lf_collected ?f")
    case True
    then have "snd ?out = ?f" by (simp add: render_frame_def)
    with rendered.IH step show ?thesis by simp
  next
    case False
    define read where "read = drain_complete_lines decode parse (take (ts_offset (lv_source v)) content)"
    from rendered.IH False have pre: "prefix content (log_bytes enc hist)" "list_all (codec_ok enc decode parse) hist"
      and fo: "follower_ok (vt_holds em shot t0 sid) (vt_created em shot sid) (vt_view em shot t0 sid) cols rows (fst read) ?f"
      by (simp_all add: live_ok_def Let_def read_def)
    note r = vt_following.render_ok [OF fo, of failure]
    have "prefix (take (ts_offset (lv_source v)) content) (log_bytes enc hist)"
      using pre(1) take_is_prefix prefix_order.trans by blast
    from drain_log_prefix [OF pre(2) this] obtain n where n: "fst read = take n hist" by (auto simp: read_def)
    have "shows_part (vt_view em shot t0 sid cells_only cols rows) hist (snd ?out)"
      using r(1) unfolding n by (rule follower_shows_part)
    with rendered.IH r step show ?thesis by (simp add: live_ok_def Let_def read_def)
  qed
qed

text \<open>C32: The live view of the dashboard follows the log. However the log grows, its bytes reach the
  file, polls read parts of it, the file is missing for a while, and frames are rendered or fail to
  boot, the screen is the one that some first part of the log leaves on a fresh terminal of the
  session's size. When the file holds the whole log and is still there, one poll that reads to its
  end and one render whose boot works show the whole log, as ended exactly when the log holds an
  exit.\<close>

theorem live_view_shows_log:
  assumes "live_reach em shot t0 sid cols rows enc decode parse hist content v"
  shows "shows_part (vt_view em shot t0 sid cells_only cols rows) hist (lv_follower v)
    \<and> (content = log_bytes enc hist \<and> hist \<noteq> [] \<and> \<not> lf_collected (lv_follower v) \<longrightarrow>
        (\<exists>b v2. render_view em shot t0 sid cols rows None
              (snd (ingest_source decode parse (FileSize (length content)) (short_read content (length content)) v))
            = (Inr b, v2)
          \<and> lf_snapshot (lv_follower v2) = Some (vt_view em shot t0 sid cells_only cols rows hist)
          \<and> view_status (lv_follower v2) = (if last_exit hist = None then ViewFollowing else ViewExited)))"
proof (intro conjI impI)
  note ok = live_reach_ok [OF assms]
  then show "shows_part (vt_view em shot t0 sid cells_only cols rows) hist (lv_follower v)"
    by (simp add: live_ok_def)
  assume whole: "content = log_bytes enc hist \<and> hist \<noteq> [] \<and> \<not> lf_collected (lv_follower v)"
  let ?v1 = "snd (ingest_source decode parse (FileSize (length content)) (short_read content (length content)) v)"
  let ?src = "lv_source v"
  have src: "ts_offset ?src \<le> length content"
    "ts_partial ?src = snd (drain_complete_lines decode parse (take (ts_offset ?src) content))"
    using ok whole by (simp_all add: live_ok_def Let_def)
  obtain src' rs where
    poll: "poll_source decode parse (FileSize (length content)) (short_read content (length content)) ?src
        = (Inr \<lparr>ba_records = rs, ba_state = SourceActive\<rparr>, src')"
    and off: "ts_offset src' = ts_offset ?src + min (length content) (length content - ts_offset ?src)"
    by (rule poll_reads_on [OF src])
  have v1: "lv_source ?v1 = src'" "\<not> lf_collected (lv_follower ?v1)"
    using poll whole by (simp_all add: ingest_source_def ingest_batch_def ingest_records_exit)
  have ok1: "live_ok em shot t0 sid cols rows enc decode parse hist content ?v1"
    by (rule live_reach_ok [OF live_reach.polled [OF assms]])
  have "take (ts_offset (lv_source ?v1)) content = content" using off src(1) v1(1) by simp
  moreover have "fst (drain_complete_lines decode parse content) = hist"
    using drain_log_prefix [of enc decode parse hist content] ok whole by (auto simp: live_ok_def)
  ultimately have fo: "follower_ok (vt_holds em shot t0 sid) (vt_created em shot sid) (vt_view em shot t0 sid) cols rows
      hist (lv_follower ?v1)" and exit: "lf_exit (lv_follower ?v1) = last_exit hist"
    using ok1 v1(2) by (simp_all add: live_ok_def Let_def)
  let ?out = "render_frame (vt_boot_with t0 None) (vt_replay_to em) (vt_snapshot shot) sid cols rows (lv_follower ?v1)"
  note r = vt_following.render_ok [OF fo, of None]
  have "\<exists>b. fst ?out = Inr b"
  proof (cases "fst ?out")
    case (Inl e)
    with r(4) show ?thesis by (auto simp: vt_boot_with_def vt_created_def vt_boot_def new_vt_backend_def)
  qed simp
  then obtain b where b: "fst ?out = Inr b" by blast
  have "lf_snapshot (snd ?out) = Some (vt_view em shot t0 sid cells_only cols rows hist)"
    using r(5) [OF v1(2) _ b] whole by simp
  moreover have "view_status (snd ?out) = (if last_exit hist = None then ViewFollowing else ViewExited)"
    using calculation r(2,3) v1(2) exit by (auto simp: view_status_def)
  ultimately show "\<exists>b v2. render_view em shot t0 sid cols rows None ?v1 = (Inr b, v2)
      \<and> lf_snapshot (lv_follower v2) = Some (vt_view em shot t0 sid cells_only cols rows hist)
      \<and> view_status (lv_follower v2) = (if last_exit hist = None then ViewFollowing else ViewExited)"
    using b by (intro exI [of _ b] exI [of _ "?v1\<lparr>lv_follower := snd ?out\<rparr>"])
      (simp add: render_view_def case_prod_beta)
qed

definition example_record :: event_record where
  "example_record = \<lparr>ev_seq = 0, ev_ts = [], ev_payload = Output (js ''a'')\<rparr>"

definition example_view :: "(int \<times> int \<times> jstring list) vt_backend live_view" where
  "example_view = \<lparr>lv_source = new_tail_source, lv_follower = new_follower (new_vt_backend (js ''s''))\<rparr>"

lemma example_live:
  "live_reach tape tape_shot (80, 24, []) (js ''s'') 80 24 (\<lambda>_. [97, 10]) (\<lambda>s. s) (\<lambda>_. Parsed example_record)
     [example_record] [97, 10] example_view"
proof -
  let ?reach = "live_reach tape tape_shot (80, 24, []) (js ''s'') 80 24 (\<lambda>_. [97, 10]) (\<lambda>s. s) (\<lambda>_. Parsed example_record)"
  have "vt_created tape tape_shot (js ''s'') (new_vt_backend (js ''s'') :: (int \<times> int \<times> jstring list) vt_backend)"
    by (simp add: vt_created_def tape_ok tape_shot_ok)
  then have "?reach [] [] example_view" unfolding example_view_def by (rule live_reach.start) simp_all
  then have "?reach ([] @ [example_record]) [] example_view"
  proof (rule live_reach.logged)
    show "log_fine ([] @ [example_record])"
      by (simp add: log_fine_def contiguous_def resizes_positive_def example_record_def)
    show "list_all (codec_ok (\<lambda>_. [97, 10]) (\<lambda>s. s) (\<lambda>_. Parsed example_record)) [example_record]"
      by (simp add: codec_ok_def trim_def is_js_space_def)
  qed
  then have "?reach [example_record] [] example_view" by simp
  from live_reach.written [OF this, of "[97, 10]"] show ?thesis by (simp add: log_bytes_def)
qed

theorem live_view_shows_log_witness:
  "\<exists>b v2. render_view tape tape_shot (80, 24, []) (js ''s'') 80 24 None
       (snd (ingest_source (\<lambda>s. s) (\<lambda>_. Parsed example_record) (FileSize 2) (short_read [97, 10] 2) example_view)) = (Inr b, v2)
     \<and> view_status (lv_follower v2) = ViewFollowing"
  using live_view_shows_log [OF example_live]
  by (simp add: log_bytes_def example_view_def new_follower_def last_exit_def example_record_def numeral_2_eq_2) blast

end
