(* ===== verification/DashboardView.thy ===== *)
theory DashboardView
  imports Snapshots
begin

text \<open>
  What the dashboard paints: the projection of a snapshot into its pane, one to one with a pan offset
  or scaled down to shades, and the layout of its panes.
\<close>

section \<open>The grid of a snapshot\<close>

datatype live_view_mode = OneToOne | Overview

record projected_cell =
  pj_char :: jstring
  pj_fg :: "jstring option"
  pj_bg :: "jstring option"
  pj_bold :: "bool option"
  pj_italic :: "bool option"
  pj_underline :: "bool option"
  pj_strikethrough :: "bool option"
  pj_cursor :: bool

record projected_view =
  pv_mode :: live_view_mode
  pv_cols :: int
  pv_rows :: int
  pv_cells :: "projected_cell list list"
  pv_pan_row :: int
  pv_pan_col :: int
  pv_top :: bool
  pv_bottom :: bool
  pv_left :: bool
  pv_right :: bool

definition plain_cell :: "jstring \<Rightarrow> projected_cell" where
  "plain_cell c = \<lparr>pj_char = c, pj_fg = None, pj_bg = None, pj_bold = None, pj_italic = None,
                   pj_underline = None, pj_strikethrough = None, pj_cursor = False\<rparr>"

definition to_projected_cell :: "snapshot_cell \<Rightarrow> projected_cell" where
  "to_projected_cell c =
     \<lparr>pj_char = sc_char c, pj_fg = sc_fg c, pj_bg = sc_bg c, pj_bold = sc_bold c, pj_italic = sc_italic c,
      pj_underline = sc_underline c, pj_strikethrough = sc_strikethrough c, pj_cursor = False\<rparr>"

fun code_points :: "jstring \<Rightarrow> jstring list" where
  \<comment> \<open>\<open>Array.from\<close> of a string\<close>
  "code_points [] = []"
| "code_points [c] = [[c]]"
| "code_points (c # d # s) =
     (if is_high_surrogate c \<and> is_low_surrogate d then [c, d] # code_points s else [c] # code_points (d # s))"

definition nth_cell :: "'a list \<Rightarrow> int \<Rightarrow> 'a option" where
  "nth_cell xs i = (if 0 \<le> i \<and> nat i < length xs then Some (xs ! nat i) else None)"

definition cell_at :: "semantic_snapshot \<Rightarrow> int \<Rightarrow> int \<Rightarrow> projected_cell" where
  \<comment> \<open>The later of two lines with the same number wins.\<close>
  "cell_at s row col =
     (let cellRows = map_of (rev (map (\<lambda>l. (rl_number l, map to_projected_cell (rl_cells l)))
                               (case ss_cells s of None \<Rightarrow> [] | Some ls \<Rightarrow> ls)));
          textRows = map_of (rev (map (\<lambda>l. (vl_row l, vl_text l)) (ss_visible s)))
      in case Option.bind (cellRows row) (\<lambda>cells. nth_cell cells col) of
           Some styled \<Rightarrow> if pj_char styled = [] then styled\<lparr>pj_char := [32]\<rparr> else styled
         | None \<Rightarrow>
             let char = (case nth_cell (code_points (case textRows row of None \<Rightarrow> [] | Some t \<Rightarrow> t)) col of
                           Some c \<Rightarrow> c | None \<Rightarrow> [32])
             in plain_cell (if char = [] then [32] else char))"

definition clamp :: "int \<Rightarrow> int \<Rightarrow> int \<Rightarrow> int" where
  "clamp x lo hi = max lo (min hi x)"

definition upto_int :: "int \<Rightarrow> int list" where
  \<comment> \<open>the values of a loop from 0 while below n\<close>
  "upto_int n = map int [0..<nat n]"

definition project_one_to_one ::
  "semantic_snapshot \<Rightarrow> int \<Rightarrow> int \<Rightarrow> (int \<times> int) option \<Rightarrow> projected_view" where
  "project_one_to_one s paneCols paneRows pan =
     (let panRow = clamp (case pan of None \<Rightarrow> 0 | Some (r, c) \<Rightarrow> r) 0 (max 0 (ss_rows s - paneRows));
          panCol = clamp (case pan of None \<Rightarrow> 0 | Some (r, c) \<Rightarrow> c) 0 (max 0 (ss_cols s - paneCols));
          visibleRows = min paneRows (ss_rows s - panRow);
          visibleCols = min paneCols (ss_cols s - panCol);
          paint = (\<lambda>row col.
                     let sourceRow = panRow + row; sourceCol = panCol + col; cell = cell_at s sourceRow sourceCol
                     in if sourceRow = ss_cursor_row s \<and> sourceCol = ss_cursor_col s
                        then cell\<lparr>pj_cursor := True\<rparr> else cell)
      in \<lparr>pv_mode = OneToOne, pv_cols = visibleCols, pv_rows = visibleRows,
          pv_cells = map (\<lambda>row. map (paint row) (upto_int visibleCols)) (upto_int visibleRows),
          pv_pan_row = panRow, pv_pan_col = panCol,
          pv_top = 0 < panRow, pv_bottom = panRow + visibleRows < ss_rows s,
          pv_left = 0 < panCol, pv_right = panCol + visibleCols < ss_cols s\<rparr>)"

definition shade_ramp :: "jstring list" where
  "shade_ramp = [[9617], [9618], [9619], [9608]]"

definition ceil_div :: "int \<Rightarrow> int \<Rightarrow> int" where
  \<comment> \<open>\<open>Math.ceil(a / b)\<close>\<close>
  "ceil_div a b = - ((- a) div b)"

definition shade_for_density :: "int \<Rightarrow> int \<Rightarrow> jstring" where
  \<comment> \<open>of \<open>filled / total\<close>, the second argument\<close>
  "shade_for_density filled whole =
     (if filled \<le> 0 then [32]
      else shade_ramp ! nat (min (int (length shade_ramp) - 1) (ceil_div (filled * int (length shade_ramp)) whole - 1)))"

definition is_filled :: "projected_cell \<Rightarrow> bool" where
  "is_filled c \<longleftrightarrow> pj_char c \<noteq> [32] \<and> pj_char c \<noteq> []"

definition block_cells :: "semantic_snapshot \<Rightarrow> int \<Rightarrow> int \<Rightarrow> int \<Rightarrow> int \<Rightarrow> projected_cell list" where
  \<comment> \<open>The source cells of a block in the order of the loops, which end at the edges of the grid.\<close>
  "block_cells s scaleX scaleY row col =
     concat (map (\<lambda>dy. map (\<lambda>dx. cell_at s (row * scaleY + dy) (col * scaleX + dx))
                (takeWhile (\<lambda>dx. col * scaleX + dx < ss_cols s) (upto_int scaleX)))
       (takeWhile (\<lambda>dy. row * scaleY + dy < ss_rows s) (upto_int scaleY)))"

definition project_overview :: "semantic_snapshot \<Rightarrow> int \<Rightarrow> int \<Rightarrow> projected_view" where
  "project_overview s paneCols paneRows =
     (let scaleX = max 1 (ceil_div (ss_cols s) paneCols);
          scaleY = max 1 (ceil_div (ss_rows s) paneRows);
          outCols = ceil_div (ss_cols s) scaleX;
          outRows = ceil_div (ss_rows s) scaleY;
          paint = (\<lambda>row col.
                     let block = block_cells s scaleX scaleY row col; filled = filter is_filled block
                     in (plain_cell (if block = [] then [32]
                           else shade_for_density (int (length filled)) (int (length block))))
                        \<lparr>pj_fg := Option.bind (find (\<lambda>c. pj_fg c \<noteq> None) filled) pj_fg\<rparr>)
      in \<lparr>pv_mode = Overview, pv_cols = outCols, pv_rows = outRows,
          pv_cells = map (\<lambda>row. map (paint row) (upto_int outCols)) (upto_int outRows),
          pv_pan_row = 0, pv_pan_col = 0, pv_top = False, pv_bottom = False, pv_left = False, pv_right = False\<rparr>)"

definition project_live_view ::
  "semantic_snapshot \<Rightarrow> int \<Rightarrow> int \<Rightarrow> live_view_mode \<Rightarrow> (int \<times> int) option \<Rightarrow> projected_view" where
  "project_live_view s paneCols paneRows mode pan =
     (case mode of Overview \<Rightarrow> project_overview s paneCols paneRows
      | OneToOne \<Rightarrow> project_one_to_one s paneCols paneRows pan)"

section \<open>The layout of the panes\<close>

definition min_list_width :: int where "min_list_width = 28"
definition max_list_width :: int where "max_list_width = 40"
definition pane_border :: int where "pane_border = 2"
definition pane_right_slack :: int where "pane_right_slack = 2"
definition pane_list_gap :: int where "pane_list_gap = 1"
definition min_pane_cols :: int where "min_pane_cols = 10"
definition min_pane_rows :: int where "min_pane_rows = 4"
definition pane_vertical_chrome :: int where "pane_vertical_chrome = 5"
definition row_chrome :: int where "row_chrome = 5"

definition list_width_for :: "int \<Rightarrow> int" where
  \<comment> \<open>\<open>Math.round(termCols * 0.3)\<close>: the product of the doubles rounds to the exact half where there is one.\<close>
  "list_width_for termCols = max min_list_width (min max_list_width ((termCols * 3 + 5) div 10))"

definition pane_layout :: "int \<Rightarrow> int \<Rightarrow> bool \<Rightarrow> int \<times> int \<times> int" where
  \<comment> \<open>the width of the list, and the columns and rows of the pane\<close>
  "pane_layout termCols termRows maximized =
     (let listWidth = list_width_for termCols;
          reserved = (if maximized then pane_border + pane_right_slack
                      else listWidth + pane_list_gap + pane_border + pane_right_slack)
      in (listWidth, max min_pane_cols (termCols - reserved), max min_pane_rows (termRows - pane_vertical_chrome)))"

definition short_id :: "jstring \<Rightarrow> jstring" where
  "short_id sessionId =
     (if length sessionId > 10 then 8230 # drop (length sessionId - 9) sessionId else sessionId)"

definition format_session_id :: "jstring \<Rightarrow> int \<Rightarrow> jstring" where
  "format_session_id sessionId listWidth =
     (if listWidth - row_chrome \<ge> int (length sessionId) then sessionId else short_id sessionId)"

section \<open>The projection is faithful\<close>

lemma upto_int_nth [simp]: "i < nat n \<Longrightarrow> upto_int n ! i = int i" "length (upto_int n) = nat n"
  by (simp_all add: upto_int_def)

lemma set_upto_int: "x \<in> set (upto_int n) \<longleftrightarrow> 0 \<le> x \<and> x < n"
proof
  assume "0 \<le> x \<and> x < n"
  then have "x = int (nat x)" "nat x < nat n" by auto
  then show "x \<in> set (upto_int n)" unfolding upto_int_def by (metis atLeastLessThan_iff image_eqI le0 set_map set_upt)
qed (auto simp: upto_int_def)

lemma ceil_div_le_iff:
  assumes "0 < b"
  shows "ceil_div a b \<le> n \<longleftrightarrow> a \<le> n * b"
proof -
  let ?q = "(- a) div b"
  have a: "- a = ?q * b + (- a) mod b" "0 \<le> (- a) mod b" "(- a) mod b < b"
    using assms by simp_all
  show ?thesis
  proof
    assume "ceil_div a b \<le> n"
    then have "- n * b \<le> ?q * b" using assms by (intro mult_right_mono) (auto simp: ceil_div_def)
    then show "a \<le> n * b" using a by linarith
  next
    assume n: "a \<le> n * b"
    show "ceil_div a b \<le> n"
    proof (rule ccontr)
      assume "\<not> ceil_div a b \<le> n"
      then have "(?q + 1) * b \<le> - n * b" using assms by (intro mult_right_mono) (auto simp: ceil_div_def)
      then have "?q * b + b \<le> - (n * b)" by (simp add: distrib_right)
      then show False using a n by linarith
    qed
  qed
qed

lemma ceil_div_pos: "0 < a \<Longrightarrow> 0 < b \<Longrightarrow> 0 < ceil_div a b"
  using ceil_div_le_iff [of b a 0] by (simp add: not_le flip: not_less)

lemma takeWhile_upto_int: "takeWhile (\<lambda>d. k + d < n) (upto_int m) = upto_int (min m (n - k))"
proof -
  have "takeWhile (\<lambda>d. k + d < n) (upto_int m) = take (nat (n - k)) (upto_int m)"
    by (rule takeWhile_eq_take_P_nth) (auto simp: upto_int_def)
  also have "\<dots> = upto_int (min m (n - k))"
    by (cases "m \<le> n - k") (auto simp: upto_int_def take_map min_def)
  finally show ?thesis .
qed

lemma div_eq_iff_block: "0 < (b :: int) \<Longrightarrow> x div b = i \<longleftrightarrow> i * b \<le> x \<and> x < i * b + b"
proof -
  assume b: "0 < b"
  have x: "x = x div b * b + x mod b" "0 \<le> x mod b" "x mod b < b" using b by simp_all
  show ?thesis
  proof
    assume "x div b = i"
    with x show "i * b \<le> x \<and> x < i * b + b" by auto
  next
    assume "i * b \<le> x \<and> x < i * b + b"
    then show "x div b = i" by (intro int_div_pos_eq [of _ _ _ "x - i * b"]) (auto simp: algebra_simps)
  qed
qed

lemma set_block_cells:
  assumes "0 < scaleX" and "0 < scaleY" and "0 \<le> i" and "0 \<le> j"
  shows "set (block_cells s scaleX scaleY i j)
    = {cell_at s r c | r c. r div scaleY = i \<and> c div scaleX = j \<and> 0 \<le> r \<and> r < ss_rows s \<and> 0 \<le> c \<and> c < ss_cols s}"
proof -
  have "0 \<le> i * scaleY" "0 \<le> j * scaleX" using assms by simp_all
  then show ?thesis
    unfolding block_cells_def takeWhile_upto_int div_eq_iff_block [OF assms(1)] div_eq_iff_block [OF assms(2)]
  proof (safe, goal_cases)
    case (1 x)
    then obtain dy dx where "x = cell_at s (i * scaleY + dy) (j * scaleX + dx)" "0 \<le> dy" "dy < min scaleY (ss_rows s - i * scaleY)"
      "0 \<le> dx" "dx < min scaleX (ss_cols s - j * scaleX)" by (auto simp: set_upto_int)
    then show ?case using 1(1,2) by (intro exI [of _ "i * scaleY + dy"] exI [of _ "j * scaleX + dx"]) auto
  next
    case (2 x r c)
    then have "r - i * scaleY \<in> set (upto_int (min scaleY (ss_rows s - i * scaleY)))"
      "c - j * scaleX \<in> set (upto_int (min scaleX (ss_cols s - j * scaleX)))" by (auto simp: set_upto_int)
    then show ?case by force
  qed
qed

lemma shade_blank_iff: "0 \<le> filled \<Longrightarrow> filled \<le> whole \<Longrightarrow> shade_for_density filled whole = [32] \<longleftrightarrow> filled = 0"
proof -
  assume f: "0 \<le> filled" "filled \<le> whole"
  have "shade_ramp ! nat (min 3 k) \<noteq> [32]" for k
  proof -
    have "nat (min 3 k) \<in> {0, 1, 2, 3}" by auto
    then show ?thesis by (auto simp: shade_ramp_def)
  qed
  then show ?thesis using f by (auto simp: shade_for_density_def shade_ramp_def)
qed

lemma cell_at_cursor: "\<not> pj_cursor (cell_at s r c)"
  by (auto simp: cell_at_def plain_cell_def to_projected_cell_def nth_cell_def Let_def bind_eq_Some_conv
      dest!: map_of_SomeD split: option.splits if_splits)

lemma one_to_one_exact:
  assumes "0 < paneCols" and "0 < paneRows" and "0 < ss_cols s" and "0 < ss_rows s"
  shows "(let v = project_live_view s paneCols paneRows OneToOne pan; r0 = pv_pan_row v; c0 = pv_pan_col v
          in pv_rows v = min paneRows (ss_rows s) \<and> pv_cols v = min paneCols (ss_cols s)
             \<and> 0 \<le> r0 \<and> r0 + pv_rows v \<le> ss_rows s \<and> 0 \<le> c0 \<and> c0 + pv_cols v \<le> ss_cols s
             \<and> (\<forall>i j. 0 \<le> i \<and> i < pv_rows v \<and> 0 \<le> j \<and> j < pv_cols v \<longrightarrow>
                  pv_cells v ! nat i ! nat j
                    = (cell_at s (r0 + i) (c0 + j))
                        \<lparr>pj_cursor := (r0 + i = ss_cursor_row s \<and> c0 + j = ss_cursor_col s)\<rparr>)
             \<and> pv_top v = (\<exists>r \<ge> 0. r < r0) \<and> pv_bottom v = (\<exists>r < ss_rows s. r0 + pv_rows v \<le> r)
             \<and> pv_left v = (\<exists>c \<ge> 0. c < c0) \<and> pv_right v = (\<exists>c < ss_cols s. c0 + pv_cols v \<le> c))"
proof -
  have cell: "(cell_at s r c)\<lparr>pj_cursor := False\<rparr> = cell_at s r c" for r c
    using cell_at_cursor [of s r c] by (metis (full_types) projected_cell.surjective projected_cell.update_convs(8))
  have mark: "(if b then (cell_at s r c)\<lparr>pj_cursor := True\<rparr> else cell_at s r c) = (cell_at s r c)\<lparr>pj_cursor := b\<rparr>" for b r c
    by (simp add: cell)
  have low: "(\<exists>r \<ge> 0. r < (x :: int)) \<longleftrightarrow> 0 < x" for x by (metis le_less_trans order_refl)
  have high: "(\<exists>r < y. (x :: int) \<le> r) \<longleftrightarrow> x < y" for x y by (metis le_less_trans order_refl)
  define r0 where "r0 = clamp (case pan of None \<Rightarrow> 0 | Some (r, c) \<Rightarrow> r) 0 (max 0 (ss_rows s - paneRows))"
  define c0 where "c0 = clamp (case pan of None \<Rightarrow> 0 | Some (r, c) \<Rightarrow> c) 0 (max 0 (ss_cols s - paneCols))"
  have bound: "0 \<le> clamp x 0 (max 0 (n - p)) \<and> min p (n - clamp x 0 (max 0 (n - p))) = min p n
      \<and> clamp x 0 (max 0 (n - p)) + min p n \<le> n" if "0 < p" "0 < n" for x n p :: int
    using that by (simp add: clamp_def) (auto simp: min_def max_def)
  note r = bound [OF assms(2,4), of "case pan of None \<Rightarrow> 0 | Some (r, c) \<Rightarrow> r", folded r0_def]
  note c = bound [OF assms(1,3), of "case pan of None \<Rightarrow> 0 | Some (r, c) \<Rightarrow> c", folded c0_def]
  have view: "project_live_view s paneCols paneRows OneToOne pan =
      \<lparr>pv_mode = OneToOne, pv_cols = min paneCols (ss_cols s), pv_rows = min paneRows (ss_rows s),
       pv_cells = map (\<lambda>row. map (\<lambda>col.
           (cell_at s (r0 + row) (c0 + col))\<lparr>pj_cursor := (r0 + row = ss_cursor_row s \<and> c0 + col = ss_cursor_col s)\<rparr>)
         (upto_int (min paneCols (ss_cols s)))) (upto_int (min paneRows (ss_rows s))),
       pv_pan_row = r0, pv_pan_col = c0,
       pv_top = 0 < r0, pv_bottom = r0 + min paneRows (ss_rows s) < ss_rows s,
       pv_left = 0 < c0, pv_right = c0 + min paneCols (ss_cols s) < ss_cols s\<rparr>"
    using r c unfolding project_live_view_def project_one_to_one_def live_view_mode.simps Let_def
      r0_def [symmetric] c0_def [symmetric] by (simp add: mark)
  have painted: "map (\<lambda>row. map (f row) (upto_int m)) (upto_int n) ! nat i ! nat j = f i j"
    if "0 \<le> i" "i < n" "0 \<le> j" "j < m" for f :: "int \<Rightarrow> int \<Rightarrow> projected_cell" and n m i j
  proof -
    have "nat i < nat n" "nat j < nat m" using that by auto
    with that(1,3) show ?thesis by simp
  qed
  show ?thesis
    unfolding Let_def view projected_view.simps low high using r c by (simp add: painted)
qed

lemma overview_exact:
  assumes "0 < paneCols" and "0 < paneRows" and "0 < ss_cols s" and "0 < ss_rows s"
  shows "(let v = project_live_view s paneCols paneRows Overview pan;
           scaleX = max 1 (ceil_div (ss_cols s) paneCols); scaleY = max 1 (ceil_div (ss_rows s) paneRows)
       in pv_rows v \<le> paneRows \<and> pv_cols v \<le> paneCols
          \<and> (\<forall>r c. 0 \<le> r \<and> r < ss_rows s \<and> 0 \<le> c \<and> c < ss_cols s \<longrightarrow>
               r div scaleY < pv_rows v \<and> c div scaleX < pv_cols v)
          \<and> (\<forall>i j. 0 \<le> i \<and> i < pv_rows v \<and> 0 \<le> j \<and> j < pv_cols v \<longrightarrow>
               (pj_char (pv_cells v ! nat i ! nat j) = [32] \<longleftrightarrow>
                (\<forall>r c. 0 \<le> r \<and> r < ss_rows s \<and> 0 \<le> c \<and> c < ss_cols s \<and> r div scaleY = i \<and> c div scaleX = j \<longrightarrow>
                   \<not> is_filled (cell_at s r c)))))"
proof -
  define sx where "sx = max 1 (ceil_div (ss_cols s) paneCols)"
  define sy where "sy = max 1 (ceil_div (ss_rows s) paneRows)"
  have pos: "0 < sx" "0 < sy" and le: "ceil_div (ss_cols s) paneCols \<le> sx" "ceil_div (ss_rows s) paneRows \<le> sy"
    by (simp_all add: sx_def sy_def)
  have fits: "ceil_div (ss_rows s) sy \<le> paneRows" "ceil_div (ss_cols s) sx \<le> paneCols"
    using le assms pos by (simp_all only: ceil_div_le_iff mult.commute)
  have inside: "r div d < ceil_div n d" if "r < n" "0 < d" for r n d :: int
  proof (rule ccontr)
    assume "\<not> r div d < ceil_div n d"
    then have "n \<le> r div d * d" using ceil_div_le_iff [OF that(2), of n "r div d"] by simp
    moreover have "r div d * d \<le> r" using div_mult_mod_eq [of r d] that(2) by (metis le_add_same_cancel1 pos_mod_sign)
    ultimately show False using that(1) by linarith
  qed
  have blank: "shade_for_density (int (length (filter is_filled block))) (int (length block)) = [32]
      \<longleftrightarrow> (\<forall>c \<in> set block. \<not> is_filled c)" for block
    using shade_blank_iff [of "int (length (filter is_filled block))" "int (length block)"]
    by (auto simp: filter_empty_conv)
  have paint: "pj_char (pv_cells (project_overview s paneCols paneRows) ! nat i ! nat j) = [32] \<longleftrightarrow>
      (\<forall>r c. 0 \<le> r \<and> r < ss_rows s \<and> 0 \<le> c \<and> c < ss_cols s \<and> r div sy = i \<and> c div sx = j \<longrightarrow>
         \<not> is_filled (cell_at s r c))"
    if "0 \<le> i" "i < ceil_div (ss_rows s) sy" "0 \<le> j" "j < ceil_div (ss_cols s) sx" for i j
  proof -
    have "nat i < nat (ceil_div (ss_rows s) sy)" "nat j < nat (ceil_div (ss_cols s) sx)" using that by auto
    then have "pj_char (pv_cells (project_overview s paneCols paneRows) ! nat i ! nat j) = [32]
        \<longleftrightarrow> (\<forall>c \<in> set (block_cells s sx sy i j). \<not> is_filled c)"
      using that(1,3) by (simp add: project_overview_def Let_def blank plain_cell_def flip: sx_def sy_def)
    then show ?thesis unfolding set_block_cells [OF pos that(1,3)] by blast
  qed
  have dims: "pv_rows (project_overview s paneCols paneRows) = ceil_div (ss_rows s) sy"
    "pv_cols (project_overview s paneCols paneRows) = ceil_div (ss_cols s) sx"
    by (simp_all add: project_overview_def Let_def sx_def sy_def)
  show ?thesis
    unfolding Let_def project_live_view_def live_view_mode.simps dims sx_def [symmetric] sy_def [symmetric]
    using fits paint inside [OF _ pos(1)] inside [OF _ pos(2)] by blast
qed


lemma cover_unique:
  assumes "cells_fit cs" and "c \<in> set cs" and "d \<in> set cs" and "nc_row c = nc_row d"
    and "nc_col c \<le> k" "k < cell_end c" "nc_col d \<le> k" "k < cell_end d"
  shows "c = d"
proof -
  obtain i j where ij: "i < length cs" "cs ! i = c" "j < length cs" "cs ! j = d"
    using assms(2,3) by (auto simp: in_set_conv_nth)
  have fit: "sorted_wrt (\<lambda>c d. nc_row c = nc_row d \<longrightarrow> apart c d) cs" using assms(1) by (simp add: cells_fit_def)
  consider "i = j" | "i < j" | "j < i" by linarith
  then show ?thesis
  proof cases
    case 2
    with sorted_wrt_nth_less [OF fit, of i j] ij assms(4-8) show ?thesis by (auto simp: apart_def)
  next
    case 3
    with sorted_wrt_nth_less [OF fit, of j i] ij assms(4-8) show ?thesis by (auto simp: apart_def)
  qed (use ij in simp)
qed

lemma native_cell_at:
  assumes fit: "cells_fit cs" and sn: "ns_cells sn = Some cs" and c: "c \<in> set cs" and k: "nc_col c \<le> k" "k < cell_end c"
  shows "cell_at (native_view sn sid q) (nc_row c) k
    = (to_projected_cell (to_styled_cell c))\<lparr>pj_char := (if k = nc_col c \<and> nc_text c \<noteq> [] then nc_text c else [32])\<rparr>"
proof -
  obtain ls where ls: "map_native_cells (Some cs) = Some ls" "map rl_number ls = sorted_list_of_set (nc_row ` set cs)"
    and row: "\<And>l. l \<in> set ls \<Longrightarrow>
          (\<forall>k < length (rl_cells l). shown {c \<in> set cs. nc_row c = rl_number l} (int k) (rl_cells l ! k))
          \<and> int (length (rl_cells l)) = Max (cell_end ` {c \<in> set cs. nc_row c = rl_number l})"
    by (rule map_native_cells_exact [OF fit]) blast
  have "nc_row c \<in> set (map rl_number ls)" using c by (simp add: ls(2))
  then obtain l where l: "l \<in> set ls" "rl_number l = nc_row c" by auto
  let ?rows = "map (\<lambda>l. (rl_number l, map to_projected_cell (rl_cells l))) ls"
  have "distinct (map fst ?rows)" by (simp add: comp_def ls(2))
  then have line: "map_of (rev ?rows) (nc_row c) = Some (map to_projected_cell (rl_cells l))"
    using l by (intro map_of_is_SomeI) (force simp: rev_map [symmetric])+
  have "cell_end c \<le> Max (cell_end ` {d \<in> set cs. nc_row d = nc_row c})" using c by (intro Max_ge) auto
  then have "k < int (length (rl_cells l))" using row [OF l(1)] l(2) k(2) by simp
  moreover have k0: "0 \<le> k" "int (nat k) = k" using k(1) c fit by (auto simp: cells_fit_def)
  ultimately have len: "nat k < length (rl_cells l)" by linarith
  have "shown {d \<in> set cs. nc_row d = nc_row c} k (rl_cells l ! nat k)"
    using row [OF l(1)] len k0(2) l(2) by metis
  moreover have "d = c" if "d \<in> set cs" "nc_row d = nc_row c" "nc_col d \<le> k" "k < cell_end d" for d
    using cover_unique [OF fit that(1) c that(2)] that k by blast
  moreover have "0 < nc_width d" if "d \<in> set cs" for d using fit that by (simp add: cells_fit_def)
  ultimately have "rl_cells l ! nat k = (if k = nc_col c then to_styled_cell c else spacer_cell c)"
    using c k by (fastforce simp: shown_def cell_end_def)
  then show ?thesis
    using line len k0 by (auto simp: cell_at_def native_view_def sn ls(1) nth_cell_def to_projected_cell_def to_styled_cell_def
        spacer_cell_def Let_def)
qed


definition wide_cell :: native_cell where
  "wide_cell = \<lparr>nc_row = 0, nc_col = 3, nc_text = [28450], nc_width = 2, nc_bold = Some True, nc_italic = None,
                nc_underline = None, nc_fg = Some (js ''#ff0000''), nc_bg = None\<rparr>"

definition wide_shot :: "snapshot_options \<Rightarrow> int \<times> int \<times> jstring list \<Rightarrow> native_screen" where
  "wide_shot options t =
     (case t of (cols, rows, ds) \<Rightarrow>
        \<lparr>sz_cols = cols, sz_rows = rows, sz_cursor_row = 0, sz_cursor_col = 0, sz_is_alt_screen = False,
         sz_visible = [], sz_scrollback = None,
         ns_cells = (if so_cells options then Some (if 0 < rows then [wide_cell] else []) else None)\<rparr>)"

lemma wide_shot_ok: "shot_ok tape wide_shot"
  by (auto simp: shot_ok_def tape_def wide_shot_def wide_cell_def screen_ok_def cells_fit_def split: prod.splits)

definition example_shown :: "(int \<times> int \<times> jstring list) vt_backend" where
  "example_shown = \<lparr>vb_session = js ''s'', vb_booted = True, vb_disposed = False, vb_terminal = Some (80, 24, []),
     vb_initial_cols = Some 80, vb_initial_rows = Some 24, vb_cols = 80, vb_rows = 24, vb_last_applied = 3,
     vb_latest = Some example_replay\<rparr>"

lemma example_shows: "vt_shows tape (80, 24, []) example_shown"
  using tape_ok by (simp add: vt_shows_def example_shown_def on_grid_def grid_of_def tape_def)

definition wide_screen :: semantic_snapshot where
  "wide_screen = native_view (wide_shot \<lparr>so_scrollback = False, so_cells = True\<rparr> (80, 24, [])) (js ''s'') 3"



end
