(* ===== verification/GridFrames.thy ===== *)
theory GridFrames
  imports Following
begin

text \<open>
  The frames of an animated or still export: the boundaries where the screen may change, the replay
  from boundary to boundary, and the frames with the time that each is held.

  \<open>parse_date\<close> stands for \<open>Date.parse\<close>; it gives milliseconds, or nothing for a text that is no date.
\<close>

section \<open>Boundaries\<close>

datatype grid_frame_mode = FinalFrame | Timeline

record frame_boundary =
  fb_seq :: int
  fb_ts :: int

record boundary_scan =
  bs_boundaries :: "frame_boundary list"
  bs_first :: "nat option"
  bs_outputs :: nat
  bs_resizes :: nat

definition parse_timestamp :: "(jstring \<Rightarrow> int option) \<Rightarrow> jstring \<Rightarrow> jstring \<Rightarrow> int res" where
  "parse_timestamp parse_date value label =
     (case parse_date value of
        Some ms \<Rightarrow> Inr ms
      | None \<Rightarrow> Inl (Assertion (label @ js '' must be a valid ISO timestamp'')))"

definition event_label :: "nat \<Rightarrow> jstring" where
  "event_label q = js ''event '' @ nat_digits q @ js '' timestamp''"

definition timestamps_out_of_order_error :: "nat \<Rightarrow> js_error" where
  "timestamps_out_of_order_error q =
     Cli EXPORT_ERROR (js ''Animated SVG export needs event timestamps that do not go backward, but the clock stepped back at event ''
       @ nat_digits q @ js ''. Use a still SVG export (drop --animate) instead.'')"

definition add_boundary :: "frame_boundary list \<Rightarrow> int \<Rightarrow> int \<Rightarrow> frame_boundary list" where
  "add_boundary bs q ts =
     (if bs \<noteq> [] \<and> ts = fb_ts (last bs) then butlast bs @ [(last bs)\<lparr>fb_seq := q\<rparr>]
      else bs @ [\<lparr>fb_seq = q, fb_ts = ts\<rparr>])"

fun collect_from ::
  "(jstring \<Rightarrow> int option) \<Rightarrow> grid_frame_mode \<Rightarrow> int \<Rightarrow> nat \<Rightarrow> int option \<Rightarrow> boundary_scan \<Rightarrow> event_record list
     \<Rightarrow> boundary_scan res" where
  "collect_from parse_date mode target i previousTs scan [] = Inr scan"
| "collect_from parse_date mode target i previousTs scan (e # es) =
     (if int (ev_seq e) > target then Inr scan
      else bind_res (parse_timestamp parse_date (ev_ts e) (event_label (ev_seq e))) (\<lambda>ts.
        if mode = Timeline \<and> (case previousTs of None \<Rightarrow> False | Some p \<Rightarrow> ts < p)
        then Inl (timestamps_out_of_order_error (ev_seq e))
        else collect_from parse_date mode target (i + 1) (Some ts)
               (if visual e
                then scan\<lparr>bs_boundaries := add_boundary (bs_boundaries scan) (int (ev_seq e)) ts,
                          bs_first := (case bs_first scan of None \<Rightarrow> Some i | Some j \<Rightarrow> Some j),
                          bs_outputs := bs_outputs scan + (if output_event e then 1 else 0),
                          bs_resizes := bs_resizes scan + (if output_event e then 0 else 1)\<rparr>
                else scan) es))"

definition collect_frame_boundaries ::
  "(jstring \<Rightarrow> int option) \<Rightarrow> replay_input \<Rightarrow> grid_frame_mode \<Rightarrow> boundary_scan res" where
  "collect_frame_boundaries parse_date input mode =
     collect_from parse_date mode (ri_target input) 0 None
       \<lparr>bs_boundaries = [], bs_first = None, bs_outputs = 0, bs_resizes = 0\<rparr> (ri_events input)"

definition capture_boundaries ::
  "replay_input \<Rightarrow> grid_frame_mode \<Rightarrow> boundary_scan \<Rightarrow> int \<Rightarrow> int \<Rightarrow> frame_boundary list" where
  \<comment> \<open>with the times of the first and the last event\<close>
  "capture_boundaries input mode scan timelineStart timelineEnd =
     (if mode = Timeline \<and> bs_boundaries scan \<noteq> []
      then (case bs_first scan of
              Some (Suc i) \<Rightarrow>
                (if fb_ts (hd (bs_boundaries scan)) > timelineStart
                 then \<lparr>fb_seq = int (ev_seq (ri_events input ! i)), fb_ts = timelineStart\<rparr> # bs_boundaries scan
                 else bs_boundaries scan)
            | _ \<Rightarrow> bs_boundaries scan)
      else [\<lparr>fb_seq = ri_target input, fb_ts = (if mode = Timeline then timelineStart else timelineEnd)\<rparr>])"

section \<open>Frames\<close>

record grid_frame =
  gf_captured :: int
  gf_cols :: int
  gf_rows :: int
  gf_cursor_row :: int
  gf_cursor_col :: int
  gf_lines :: "snapshot_cell list list"
  gf_hold :: int

record grid_frame_capture =
  gc_frames :: "grid_frame list"
  gc_captured :: int
  gc_cols :: int
  gc_rows :: int
  gc_backend :: jstring
  gc_outputs :: nat
  gc_resizes :: nat
  gc_duration :: int

definition default_final_frame_hold_ms :: int where
  "default_final_frame_hold_ms = 1000"

definition max_animated_grid_cells :: int where
  "max_animated_grid_cells = 20000000"

definition heap_bytes_per_retained_cell :: int where
  "heap_bytes_per_retained_cell = 400"

definition default_max_grid_cells :: "int \<Rightarrow> int res" where
  "default_max_grid_cells heapSizeLimit =
     check (0 < heapSizeLimit) ''heap size limit must be positive''
       (Inr (max 1 (min max_animated_grid_cells (heapSizeLimit div heap_bytes_per_retained_cell))))"

fun place_lines :: "int \<Rightarrow> snapshot_cell list list \<Rightarrow> rich_line list \<Rightarrow> snapshot_cell list list res" where
  "place_lines rows placed [] = Inr placed"
| "place_lines rows placed (l # ls) =
     check (rl_number l < rows) ''snapshot cell line must be within rows''
       (place_lines rows (placed[nat (rl_number l) := rl_cells l]) ls)"

definition to_grid_frame :: "semantic_snapshot \<Rightarrow> int \<Rightarrow> grid_frame res" where
  "to_grid_frame s hold =
     (case ss_cells s of
        None \<Rightarrow> Inl (Assertion (js ''grid frame snapshot must include styled cells''))
      | Some ls \<Rightarrow>
          bind_res (place_lines (ss_rows s) (replicate (nat (ss_rows s)) []) ls) (\<lambda>placed.
            Inr \<lparr>gf_captured = ss_captured s, gf_cols = ss_cols s, gf_rows = ss_rows s,
                 gf_cursor_row = ss_cursor_row s, gf_cursor_col = ss_cursor_col s, gf_lines = placed, gf_hold = hold\<rparr>))"

record cell_key =
  ck_char :: jstring
  ck_fg :: "jstring option"
  ck_bg :: "jstring option"
  ck_bold :: bool
  ck_italic :: bool
  ck_underline :: bool
  ck_width :: int

type_synonym frame_key = "int \<times> int \<times> int \<times> int \<times> cell_key list list"

definition cell_content :: "snapshot_cell \<Rightarrow> cell_key" where
  "cell_content c =
     \<lparr>ck_char = sc_char c, ck_fg = sc_fg c, ck_bg = sc_bg c, ck_bold = (sc_bold c = Some True),
      ck_italic = (sc_italic c = Some True), ck_underline = (sc_underline c = Some True),
      ck_width = (case sc_width c of None \<Rightarrow> 1 | Some w \<Rightarrow> w)\<rparr>"

definition frame_content_key :: "grid_frame \<Rightarrow> frame_key" where
  \<comment> \<open>The JSON text of these values determines them.\<close>
  "frame_content_key f =
     (gf_cols f, gf_rows f, gf_cursor_row f, gf_cursor_col f, map (map cell_content) (gf_lines f))"

section \<open>The capture\<close>

definition too_many_frames_error :: js_error where
  "too_many_frames_error = Cli EXPORT_ERROR (js ''Recording has too many distinct frames for animated SVG export. Use a still SVG export (drop --animate) or a WebM export instead.'')"

definition native_required_error :: js_error where
  "native_required_error = Cli EXPORT_ERROR (js ''SVG export requires the libghostty-vt renderer. Install the optional @coder/libghostty-vt-node package and retry.'')"

definition grid_cells :: snapshot_options where
  "grid_cells = \<lparr>so_scrollback = False, so_cells = True\<rparr>"

record 's capture_state =
  cs_backend :: 's
  cs_left :: "event_record list"       \<comment> \<open>the events from the cursor on\<close>
  cs_frames :: "grid_frame list"
  cs_retained :: int
  cs_key :: "frame_key option"

definition slice_through :: "int \<Rightarrow> 's capture_state \<Rightarrow> event_record list" where
  "slice_through q st = takeWhile (\<lambda>e. int (ev_seq e) \<le> q) (cs_left st)"

definition replay_slice ::
  "'s replayer \<Rightarrow> replay_input \<Rightarrow> int \<Rightarrow> 's capture_state \<Rightarrow> unit res \<times> 's capture_state" where
  "replay_slice replay input q st =
     (case replay (input\<lparr>ri_events := slice_through q st, ri_target := q\<rparr>) (cs_backend st) of
        (r, b) \<Rightarrow> (map_sum id (\<lambda>_. ()) r,
                   st\<lparr>cs_backend := b, cs_left := dropWhile (\<lambda>e. int (ev_seq e) \<le> q) (cs_left st)\<rparr>))"

definition add_frame :: "int \<Rightarrow> grid_frame \<Rightarrow> 's capture_state \<Rightarrow> 's capture_state res" where
  "add_frame maxGridCells f st =
     (let key = frame_content_key f
      in if cs_key st = Some key
         then check (cs_frames st \<noteq> []) ''previous frame must exist''
                (let previous = last (cs_frames st)
                 in Inr (st\<lparr>cs_frames := butlast (cs_frames st) @ [previous\<lparr>gf_hold := gf_hold previous + gf_hold f\<rparr>]\<rparr>))
         else let retained = cs_retained st + gf_cols f * gf_rows f
              in if retained > maxGridCells then Inl too_many_frames_error
                 else Inr (st\<lparr>cs_frames := cs_frames st @ [f], cs_retained := retained, cs_key := Some key\<rparr>))"

fun capture_frames ::
  "'s replayer \<Rightarrow> (snapshot_options \<Rightarrow> 's \<Rightarrow> semantic_snapshot res \<times> 's) \<Rightarrow> replay_input \<Rightarrow> int \<Rightarrow> int \<Rightarrow> int
     \<Rightarrow> frame_boundary list \<Rightarrow> 's capture_state \<Rightarrow> 's capture_state res" where
  "capture_frames replay snapshot input timelineEnd finalHold maxGridCells [] st = Inr st"
| "capture_frames replay snapshot input timelineEnd finalHold maxGridCells (b # bs) st =
     (let hold = (case bs of [] \<Rightarrow> timelineEnd - fb_ts b + finalHold | n # _ \<Rightarrow> fb_ts n - fb_ts b)
      in check (0 < hold) ''frame hold duration must be positive''
        (case replay_slice replay input (fb_seq b) st of
           (Inl e, _) \<Rightarrow> Inl e
         | (Inr _, st1) \<Rightarrow>
             (case snapshot grid_cells (cs_backend st1) of
                (Inl e, _) \<Rightarrow> Inl e
              | (Inr s, b2) \<Rightarrow>
                  bind_res (to_grid_frame s hold) (\<lambda>f.
                  bind_res (add_frame maxGridCells f (st1\<lparr>cs_backend := b2\<rparr>)) (\<lambda>st2.
                    capture_frames replay snapshot input timelineEnd finalHold maxGridCells bs st2)))))"

definition blank_capture :: "replay_input \<Rightarrow> int \<Rightarrow> grid_frame_capture" where
  "blank_capture input finalHold =
     \<lparr>gc_frames = [\<lparr>gf_captured = -1, gf_cols = ri_cols input, gf_rows = ri_rows input, gf_cursor_row = 0,
                    gf_cursor_col = 0, gf_lines = [], gf_hold = finalHold\<rparr>],
      gc_captured = -1, gc_cols = ri_cols input, gc_rows = ri_rows input, gc_backend = js ''none'',
      gc_outputs = 0, gc_resizes = 0, gc_duration = finalHold\<rparr>"

definition finish_capture ::
  "'s replayer \<Rightarrow> jstring \<Rightarrow> replay_input \<Rightarrow> boundary_scan \<Rightarrow> frame_boundary list \<Rightarrow> 's capture_state
     \<Rightarrow> grid_frame_capture res" where
  "finish_capture replay backendName input scan bs st =
     (case (if ri_target input > fb_seq (last bs) then fst (replay_slice replay input (ri_target input) st) else Inr ()) of
        Inl e \<Rightarrow> Inl e
      | Inr _ \<Rightarrow>
          check (cs_frames st \<noteq> []) ''grid capture must produce >=1 frame''
          (let maxCols = fold (\<lambda>f m. max m (gf_cols f)) (cs_frames st) 0;
               maxRows = fold (\<lambda>f m. max m (gf_rows f)) (cs_frames st) 0
           in check (0 < maxCols \<and> 0 < maxRows) ''capture dimensions must be positive''
             (Inr \<lparr>gc_frames = cs_frames st, gc_captured = ri_target input, gc_cols = maxCols, gc_rows = maxRows,
                   gc_backend = backendName, gc_outputs = bs_outputs scan, gc_resizes = bs_resizes scan,
                   gc_duration = sum_list (map gf_hold (cs_frames st))\<rparr>)))"

definition capture_grid_frames ::
  "(jstring \<Rightarrow> int option) \<Rightarrow> (jstring \<Rightarrow> bool) \<Rightarrow> ('s \<Rightarrow> unit res \<times> 's) \<Rightarrow> 's replayer
     \<Rightarrow> (snapshot_options \<Rightarrow> 's \<Rightarrow> semantic_snapshot res \<times> 's) \<Rightarrow> jstring \<Rightarrow> jstring \<Rightarrow> session \<Rightarrow> event_record list
     \<Rightarrow> grid_frame_mode \<Rightarrow> int option \<Rightarrow> int \<Rightarrow> 's \<Rightarrow> grid_frame_capture res" where
  \<comment> \<open>The cell limit is what the caller gives or \<open>default_max_grid_cells\<close> of the heap.\<close>
  "capture_grid_frames parse_date iso_date boot replay snapshot backendName sessionId manifest events mode
     finalHoldOption maxGridCells backend0 =
     (let finalHold = (case finalHoldOption of None \<Rightarrow> default_final_frame_hold_ms | Some h \<Rightarrow> h)
      in check (sessionId \<noteq> []) ''sessionId is required''
        (check (0 < finalHold) ''finalFrameHoldMs must be a positive integer''
        (check (0 < maxGridCells) ''maxGridCells must be a positive integer''
        (bind_res (build_replay_input iso_date sessionId manifest events None False) (\<lambda>input.
          if ri_target input < 0 then Inr (blank_capture input finalHold)
          else
            bind_res (collect_frame_boundaries parse_date input mode) (\<lambda>scan.
            bind_res (parse_timestamp parse_date (ev_ts (hd (ri_events input))) (js ''events[0].ts'')) (\<lambda>timelineStart.
            bind_res (parse_timestamp parse_date (ev_ts (last (ri_events input))) (js ''events[last].ts'')) (\<lambda>timelineEnd.
              let bs = capture_boundaries input mode scan timelineStart timelineEnd
              in case boot backend0 of
                   (Inl e, _) \<Rightarrow> Inl native_required_error
                 | (Inr _, b1) \<Rightarrow>
                     bind_res (capture_frames replay snapshot input timelineEnd finalHold maxGridCells bs
                                 \<lparr>cs_backend = b1, cs_left = ri_events input, cs_frames = [], cs_retained = 0, cs_key = None\<rparr>)
                       (finish_capture replay backendName input scan bs)))))))))"

section \<open>What is shown at a moment\<close>

fun show_at :: "('k \<times> int) list \<Rightarrow> int \<Rightarrow> 'k option" where
  "show_at [] \<tau> = None"
| "show_at ((k, h) # xs) \<tau> = (if \<tau> < h then Some k else show_at xs (\<tau> - h))"

definition timeline_of :: "grid_frame list \<Rightarrow> (frame_key \<times> int) list" where
  "timeline_of fs = map (\<lambda>f. (frame_content_key f, gf_hold f)) fs"

lemma show_at_merge: "0 < h \<Longrightarrow> 0 < h' \<Longrightarrow> show_at (xs @ [(k, h + h')] @ ys) \<tau> = show_at (xs @ [(k, h), (k, h')] @ ys) \<tau>"
proof (induction xs arbitrary: \<tau>)
  case Nil
  then show ?case by (simp add: algebra_simps)
next
  case (Cons x xs)
  then show ?case by (cases x) simp
qed

fun raw_frames :: "(frame_boundary \<Rightarrow> 'k) \<Rightarrow> int \<Rightarrow> frame_boundary list \<Rightarrow> ('k \<times> int) list" where
  "raw_frames key finish [] = []"
| "raw_frames key finish (b # bs) =
     (key b, (case bs of [] \<Rightarrow> finish | n # _ \<Rightarrow> fb_ts n) - fb_ts b) # raw_frames key finish bs"

definition rising :: "frame_boundary list \<Rightarrow> bool" where
  "rising bs \<longleftrightarrow> sorted_wrt (\<lambda>a b. fb_ts a < fb_ts b \<and> fb_seq a < fb_seq b) bs"

lemma show_raw:
  assumes "rising bs" and "bs \<noteq> []" and "fb_ts (hd bs) \<le> \<tau>" and "\<tau> < finish"
  shows "\<exists>b \<in> set bs. show_at (raw_frames key finish bs) (\<tau> - fb_ts (hd bs)) = Some (key b)
    \<and> fb_ts b \<le> \<tau> \<and> (\<forall>b' \<in> set bs. fb_ts b' \<le> \<tau> \<longrightarrow> fb_ts b' \<le> fb_ts b)"
  using assms
proof (induction bs)
  case Nil
  then show ?case by simp
next
  case (Cons b bs)
  show ?case
  proof (cases bs)
    case Nil
    with Cons.prems show ?thesis by auto
  next
    case (Cons n ns)
    have n: "fb_ts b < fb_ts n" "rising bs" "\<forall>b' \<in> set bs. fb_ts n \<le> fb_ts b'" "bs \<noteq> []" "hd bs = n"
      using Cons.prems(1) Cons by (auto simp: rising_def)
    have raw: "raw_frames key finish (b # bs) = (key b, fb_ts n - fb_ts b) # raw_frames key finish bs"
      using Cons by simp
    show ?thesis
    proof (cases "\<tau> < fb_ts n")
      case True
      with Cons.prems n(3) show ?thesis unfolding raw by (intro bexI [of _ b]) auto
    next
      case False
      with Cons.IH [OF n(2,4)] n(5) Cons.prems(4) obtain b' where
        b': "b' \<in> set bs" "show_at (raw_frames key finish bs) (\<tau> - fb_ts n) = Some (key b')"
        "fb_ts b' \<le> \<tau>" "\<forall>c \<in> set bs. fb_ts c \<le> \<tau> \<longrightarrow> fb_ts c \<le> fb_ts b'" by auto
      with False n(1,3) show ?thesis unfolding raw by (intro bexI [of _ b']) auto
    qed
  qed
qed

lemma raw_total: "bs \<noteq> [] \<Longrightarrow> sum_list (map snd (raw_frames key finish bs)) = finish - fb_ts (hd bs)"
proof (induction bs)
  case (Cons b bs)
  then show ?case by (cases bs) simp_all
qed simp

section \<open>The boundaries of a log\<close>

definition scan_ok :: "(event_record \<Rightarrow> int) \<Rightarrow> event_record list \<Rightarrow> boundary_scan \<Rightarrow> bool" where
  "scan_ok t seen scan \<longleftrightarrow>
     rising (bs_boundaries scan)
     \<and> (\<forall>b \<in> set (bs_boundaries scan). \<exists>e \<in> set seen. visual e \<and> fb_seq b = int (ev_seq e) \<and> fb_ts b = t e)
     \<and> (\<forall>e \<in> set seen. visual e \<longrightarrow> (\<exists>b \<in> set (bs_boundaries scan). fb_ts b = t e \<and> int (ev_seq e) \<le> fb_seq b))
     \<and> (case bs_first scan of
          None \<Rightarrow> bs_boundaries scan = [] \<and> (\<forall>e \<in> set seen. \<not> visual e)
        | Some j \<Rightarrow> j < length seen \<and> visual (seen ! j) \<and> (\<forall>e \<in> set (take j seen). \<not> visual e)
            \<and> bs_boundaries scan \<noteq> [] \<and> fb_ts (hd (bs_boundaries scan)) = t (seen ! j))"

lemma add_boundary_ok:
  assumes "scan_ok t seen scan" and "ordered (seen @ [e])" and "\<forall>d \<in> set seen. t d \<le> t e" and "visual e"
    and "bs_boundaries scan' = add_boundary (bs_boundaries scan) (int (ev_seq e)) (t e)"
    and "bs_first scan' = (case bs_first scan of None \<Rightarrow> Some (length seen) | Some j \<Rightarrow> Some j)"
  shows "scan_ok t (seen @ [e]) scan'"
proof -
  define bs where "bs = bs_boundaries scan"
  have below: "fb_ts b \<le> t e \<and> fb_seq b < int (ev_seq e)" if "b \<in> set bs" for b
    using assms(1-3) that by (fastforce simp: scan_ok_def bs_def ordered_def sorted_wrt_append)
  have rise: "rising bs" using assms(1) by (simp add: scan_ok_def bs_def)
  let ?new = "add_boundary bs (int (ev_seq e)) (t e)"
  have new: "rising ?new \<and> ?new \<noteq> []
      \<and> (\<forall>b \<in> set ?new. b \<in> set bs \<or> fb_seq b = int (ev_seq e) \<and> fb_ts b = t e)
      \<and> (\<exists>b \<in> set ?new. fb_seq b = int (ev_seq e) \<and> fb_ts b = t e)
      \<and> (\<forall>b \<in> set bs. \<exists>c \<in> set ?new. fb_ts c = fb_ts b \<and> fb_seq b \<le> fb_seq c)
      \<and> fb_ts (hd ?new) = (if bs = [] then t e else fb_ts (hd bs))"
  proof (cases "bs \<noteq> [] \<and> t e = fb_ts (last bs)")
    case True
    then obtain xs x where bs: "bs = xs @ [x]" by (metis append_butlast_last_id)
    with True have "?new = xs @ [x\<lparr>fb_seq := int (ev_seq e)\<rparr>]" by (simp add: add_boundary_def)
    moreover have "rising (xs @ [x\<lparr>fb_seq := int (ev_seq e)\<rparr>])"
      using rise below by (auto simp: rising_def bs sorted_wrt_append)
    ultimately show ?thesis using True below [of x] bs by (auto simp: hd_append)
  next
    case False
    then have new: "?new = bs @ [\<lparr>fb_seq = int (ev_seq e), fb_ts = t e\<rparr>]" by (auto simp: add_boundary_def)
    have "fb_ts b < t e" if b: "b \<in> set bs" for b
    proof -
      obtain xs x where bs: "bs = xs @ [x]" using b by (cases bs rule: rev_cases) auto
      then have "fb_ts b \<le> fb_ts x" using rise b by (auto simp: rising_def sorted_wrt_append)
      moreover have "fb_ts x \<noteq> t e" "fb_ts x \<le> t e" using False bs below [of x] by auto
      ultimately show ?thesis by simp
    qed
    with rise below show ?thesis unfolding new by (auto simp: rising_def sorted_wrt_append hd_append)
  qed
  have a: "\<forall>b \<in> set ?new. \<exists>d \<in> set (seen @ [e]). visual d \<and> fb_seq b = int (ev_seq d) \<and> fb_ts b = t d"
    using new assms(1,4) by (fastforce simp: scan_ok_def bs_def)
  have b: "\<forall>d \<in> set (seen @ [e]). visual d \<longrightarrow> (\<exists>b \<in> set ?new. fb_ts b = t d \<and> int (ev_seq d) \<le> fb_seq b)"
  proof (intro ballI impI)
    fix d assume "d \<in> set (seen @ [e])" "visual d"
    then consider "d = e" | c where "c \<in> set bs" "fb_ts c = t d" "int (ev_seq d) \<le> fb_seq c"
      using assms(1) by (auto simp: scan_ok_def bs_def)
    then show "\<exists>b \<in> set ?new. fb_ts b = t d \<and> int (ev_seq d) \<le> fb_seq b"
      using new by cases (fastforce intro: order.trans)+
  qed
  have first: "case bs_first scan' of
          None \<Rightarrow> ?new = [] \<and> (\<forall>d \<in> set (seen @ [e]). \<not> visual d)
        | Some j \<Rightarrow> j < length (seen @ [e]) \<and> visual ((seen @ [e]) ! j) \<and> (\<forall>d \<in> set (take j (seen @ [e])). \<not> visual d)
            \<and> ?new \<noteq> [] \<and> fb_ts (hd ?new) = t ((seen @ [e]) ! j)"
    using new assms(1,4,6) by (auto simp: scan_ok_def bs_def nth_append split: option.splits)
  have boundaries: "bs_boundaries scan' = ?new" using assms(5) by (simp add: bs_def)
  show ?thesis unfolding scan_ok_def boundaries by (intro conjI a b first) (use new in simp)
qed

lemma collect_from_ok:
  assumes "scan_ok t seen scan" and "ordered (seen @ es)" and "sorted_wrt (\<le>) (map t (seen @ es))"
    and "\<forall>e \<in> set es. int (ev_seq e) \<le> target \<and> parse_date (ev_ts e) = Some (t e)"
    and "i = length seen" and "previous = (if seen = [] then None else Some (t (last seen)))"
  shows "\<exists>scan'. collect_from parse_date mode target i previous scan es = Inr scan' \<and> scan_ok t (seen @ es) scan'"
  using assms
proof (induction es arbitrary: seen scan i previous)
  case Nil
  then show ?case by simp
next
  case (Cons e es)
  have ord: "ordered (seen @ [e])" using Cons.prems(2) by (simp add: ordered_def sorted_wrt_append)
  have le: "\<forall>d \<in> set seen. t d \<le> t e" using Cons.prems(3) by (auto simp: sorted_wrt_append)
  then have prev: "\<not> (case previous of None \<Rightarrow> False | Some p \<Rightarrow> t e < p)" using Cons.prems(6) last_in_set [of seen] by (cases "seen = []") (auto simp: not_less)
  let ?scan = "if visual e
      then scan\<lparr>bs_boundaries := add_boundary (bs_boundaries scan) (int (ev_seq e)) (t e),
                bs_first := (case bs_first scan of None \<Rightarrow> Some i | Some j \<Rightarrow> Some j),
                bs_outputs := bs_outputs scan + (if output_event e then 1 else 0),
                bs_resizes := bs_resizes scan + (if output_event e then 0 else 1)\<rparr>
      else scan"
  have "scan_ok t (seen @ [e]) ?scan"
  proof (cases "visual e")
    case True
    then show ?thesis using Cons.prems(5) by (intro add_boundary_ok [OF Cons.prems(1) ord le]) (simp_all split: option.splits)
  next
    case False
    with Cons.prems(1) show ?thesis by (auto simp: scan_ok_def nth_append split: option.splits)
  qed
  moreover have "collect_from parse_date mode target i previous scan (e # es)
      = collect_from parse_date mode target (i + 1) (Some (t e)) ?scan es"
    using Cons.prems(4) prev by (simp add: parse_timestamp_def)
  ultimately show ?case
    using Cons.IH [of "seen @ [e]" ?scan "i + 1" "Some (t e)"] Cons.prems(2-5) by simp
qed

text \<open>A boundary stands for every moment until the next one: the visual events up to its sequence
  number are those up to any such moment.\<close>

definition boundaries_for :: "(event_record \<Rightarrow> int) \<Rightarrow> event_record list \<Rightarrow> frame_boundary list \<Rightarrow> bool" where
  "boundaries_for t es bs \<longleftrightarrow>
     bs \<noteq> [] \<and> rising bs \<and> fb_ts (hd bs) = t (hd es) \<and> (\<forall>b \<in> set bs. fb_ts b \<le> t (last es))
     \<and> (\<forall>b \<in> set bs. \<exists>e \<in> set es. fb_seq b = int (ev_seq e))
     \<and> (\<forall>\<tau>. \<forall>b \<in> set bs. t (hd es) \<le> \<tau> \<and> fb_ts b \<le> \<tau> \<and> (\<forall>c \<in> set bs. fb_ts c \<le> \<tau> \<longrightarrow> fb_ts c \<le> fb_ts b) \<longrightarrow>
          (\<forall>e \<in> set es. visual e \<longrightarrow> (int (ev_seq e) \<le> fb_seq b \<longleftrightarrow> t e \<le> \<tau>)))"

lemma ordered_times:
  assumes "ordered es" and "sorted_wrt (\<le>) (map t es)" and "d \<in> set es" and "e \<in> set es" and "ev_seq d \<le> ev_seq e"
  shows "t d \<le> (t e :: int)"
proof -
  obtain i j where ij: "i < length es" "d = es ! i" "j < length es" "e = es ! j"
    using assms(3,4) by (auto simp: in_set_conv_nth)
  have "\<not> j < i"
    using sorted_wrt_nth_less [OF assms(1) [unfolded ordered_def], of j i] ij assms(5) by auto
  then consider "i = j" | "i < j" by linarith
  then show ?thesis
    using sorted_wrt_nth_less [OF assms(2), of i j] ij by cases auto
qed

lemma rising_seq:
  assumes "rising bs" and "b \<in> set bs" and "c \<in> set bs" and "fb_ts b \<le> fb_ts c"
  shows "fb_seq b \<le> fb_seq c"
proof -
  obtain i j where ij: "i < length bs" "b = bs ! i" "j < length bs" "c = bs ! j"
    using assms(2,3) by (auto simp: in_set_conv_nth)
  have "\<not> j < i"
    using sorted_wrt_nth_less [OF assms(1) [unfolded rising_def], of j i] ij assms(4) by auto
  then consider "i = j" | "i < j" by linarith
  then show ?thesis
    using sorted_wrt_nth_less [OF assms(1) [unfolded rising_def], of i j] ij by cases auto
qed

lemma rising_hd: "rising bs \<Longrightarrow> b \<in> set bs \<Longrightarrow> fb_ts (hd bs) \<le> fb_ts b"
  by (cases bs) (auto simp: rising_def)

lemma boundaries_for_scan:
  assumes ok: "scan_ok t es scan" and ord: "ordered es" and times: "sorted_wrt (\<le>) (map t es)"
    and b: "b \<in> set (bs_boundaries scan)" "fb_ts b \<le> \<tau>"
    and latest: "\<forall>c \<in> set (bs_boundaries scan). fb_ts c \<le> \<tau> \<longrightarrow> fb_ts c \<le> fb_ts b"
    and e: "e \<in> set es" "visual e"
  shows "int (ev_seq e) \<le> fb_seq b \<longleftrightarrow> t e \<le> \<tau>"
proof
  assume le: "int (ev_seq e) \<le> fb_seq b"
  obtain d where d: "d \<in> set es" "fb_seq b = int (ev_seq d)" "fb_ts b = t d"
    using ok b(1) by (auto simp: scan_ok_def)
  with le ordered_times [OF ord times e(1) d(1)] b(2) show "t e \<le> \<tau>" by simp
next
  assume "t e \<le> \<tau>"
  moreover obtain c where c: "c \<in> set (bs_boundaries scan)" "fb_ts c = t e" "int (ev_seq e) \<le> fb_seq c"
    using ok e by (auto simp: scan_ok_def)
  ultimately have "fb_ts c \<le> fb_ts b" using latest by auto
  with rising_seq [of "bs_boundaries scan" c b] ok c b(1) show "int (ev_seq e) \<le> fb_seq b"
    by (auto simp: scan_ok_def)
qed

lemma capture_boundaries_for:
  assumes ok: "scan_ok t es scan" and ord: "ordered es" and times: "sorted_wrt (\<le>) (map t es)" and es: "es \<noteq> []"
    and input: "ri_events input = es" "ri_target input = last_seq es"
  shows "boundaries_for t es (capture_boundaries input Timeline scan (t (hd es)) (t (last es)))"
proof -
  let ?bs = "bs_boundaries scan"
  have visuals: "e \<in> set es \<Longrightarrow> \<exists>b \<in> set ?bs. fb_ts b = t e" if "visual e" for e
    using ok that by (auto simp: scan_ok_def)
  have rise: "rising ?bs" using ok by (simp add: scan_ok_def)
  have le_last: "t e \<le> t (last es)" if "e \<in> set es" for e
    using ordered_times [OF ord times that, of "last es"] ordered_last [OF ord that] es
    by (simp add: last_seq_def)
  have ge_first: "t (hd es) \<le> t e" if "e \<in> set es" for e
    using times that by (cases es) auto
  have bounds: "\<forall>b \<in> set ?bs. \<exists>e \<in> set es. fb_seq b = int (ev_seq e) \<and> fb_ts b = t e"
    using ok by (fastforce simp: scan_ok_def)
  show ?thesis
  proof (cases "?bs = []")
    case True
    then have "\<forall>e \<in> set es. \<not> visual e" using visuals by fastforce
    moreover have "capture_boundaries input Timeline scan (t (hd es)) (t (last es))
        = [\<lparr>fb_seq = int (ev_seq (last es)), fb_ts = t (hd es)\<rparr>]"
      using True input es by (simp add: capture_boundaries_def last_seq_def)
    ultimately show ?thesis using es le_last [of "hd es"] by (auto simp: boundaries_for_def rising_def)
  next
    case False
    obtain j where j: "bs_first scan = Some j" "j < length es" "\<forall>e \<in> set (take j es). \<not> visual e" "fb_ts (hd ?bs) = t (es ! j)"
      using ok False by (auto simp: scan_ok_def split: option.splits)
    show ?thesis
    proof (cases "fb_ts (hd ?bs) > t (hd es)")
      case later: True
      with j(4) es obtain i where i: "j = Suc i" by (cases j) (auto simp: hd_conv_nth)
      let ?b0 = "\<lparr>fb_seq = int (ev_seq (es ! i)), fb_ts = t (hd es)\<rparr>"
      have bs: "capture_boundaries input Timeline scan (t (hd es)) (t (last es)) = ?b0 # ?bs"
        using False j(1) i later input by (simp add: capture_boundaries_def)
      have after: "ev_seq (es ! i) < ev_seq e" if e: "e \<in> set es" "visual e" for e
      proof -
        obtain k where k: "k < length es" "e = es ! k" using e(1) by (auto simp: in_set_conv_nth)
        then have "\<not> k < j" using j(2,3) e(2) by (metis in_set_conv_nth length_take min.absorb4 nth_take)
        then show ?thesis
          using sorted_wrt_nth_less [OF ord [unfolded ordered_def], of i k] k i by simp
      qed
      have seqs: "int (ev_seq (es ! i)) < fb_seq b" if "b \<in> set ?bs" for b
        using ok that after by (fastforce simp: scan_ok_def)
      have ts: "t (hd es) < fb_ts b" if "b \<in> set ?bs" for b
        using later rising_hd [OF rise that] by simp
      have "rising (?b0 # ?bs)" using rise seqs ts by (auto simp: rising_def)
      moreover have "int (ev_seq e) \<le> fb_seq b \<longleftrightarrow> t e \<le> \<tau>"
        if h: "b \<in> set (?b0 # ?bs)" "t (hd es) \<le> \<tau>" "fb_ts b \<le> \<tau>"
          "\<forall>c \<in> set (?b0 # ?bs). fb_ts c \<le> \<tau> \<longrightarrow> fb_ts c \<le> fb_ts b" "e \<in> set es" "visual e" for \<tau> b e
      proof (cases "b = ?b0")
        case True
        then have "\<not> fb_ts c \<le> \<tau>" if "c \<in> set ?bs" for c using ts [OF that] h(4) that by fastforce
        with visuals [OF h(6,5)] True after [OF h(5,6)] show ?thesis by fastforce
      next
        case False
        with h boundaries_for_scan [OF ok ord times, of b \<tau> e] show ?thesis by simp
      qed
      moreover have "es ! i \<in> set es" using i j(2) by simp
      ultimately show ?thesis
        unfolding bs boundaries_for_def
      proof (intro conjI allI ballI impI)
        fix b
        assume "b \<in> set (?b0 # ?bs)"
        with bounds le_last ge_first [of "last es"] es \<open>es ! i \<in> set es\<close>
        show "fb_ts b \<le> t (last es)" "\<exists>e \<in> set es. fb_seq b = int (ev_seq e)" by auto
      qed simp_all
    next
      case first: False
      have bs: "capture_boundaries input Timeline scan (t (hd es)) (t (last es)) = ?bs"
        using False j(1) first by (simp add: capture_boundaries_def split: nat.splits)
      have "fb_ts (hd ?bs) = t (hd es)" using first j ge_first [of "es ! j"] by simp
      then show ?thesis
        unfolding bs boundaries_for_def
      proof (intro conjI allI ballI impI)
        fix \<tau> b e
        assume "b \<in> set ?bs" "e \<in> set es" "visual e"
          and "t (hd es) \<le> \<tau> \<and> fb_ts b \<le> \<tau> \<and> (\<forall>c \<in> set ?bs. fb_ts c \<le> \<tau> \<longrightarrow> fb_ts c \<le> fb_ts b)"
        with boundaries_for_scan [OF ok ord times, of b \<tau> e]
        show "(int (ev_seq e) \<le> fb_seq b) = (t e \<le> \<tau>)" by blast
      qed (use False rise bounds le_last in auto)
    qed
  qed
qed

section \<open>The captured frames\<close>

definition screen_key :: "semantic_snapshot \<Rightarrow> frame_key option" where
  "screen_key s = (case to_grid_frame s 0 of Inl _ \<Rightarrow> None | Inr f \<Rightarrow> Some (frame_content_key f))"

lemma screen_key_captured [simp]: "screen_key (s\<lparr>ss_captured := q\<rparr>) = screen_key s"
  by (auto simp: screen_key_def to_grid_frame_def frame_content_key_def bind_res_def split: option.splits sum.splits)

lemma frame_content_key_hold [simp]: "frame_content_key (f\<lparr>gf_hold := h\<rparr>) = frame_content_key f"
  by (simp add: frame_content_key_def)

lemma place_lines_ok: "\<forall>l \<in> set ls. rl_number l < rows \<Longrightarrow> \<exists>p. place_lines rows placed ls = Inr p"
  by (induction ls arbitrary: placed) auto

lemma to_grid_frame_ok:
  assumes "ss_cells s = Some ls" and "\<forall>l \<in> set ls. rl_number l < ss_rows s"
  obtains f where "to_grid_frame s hold = Inr f" and "screen_key s = Some (frame_content_key f)"
    and "gf_hold f = hold" and "gf_cols f = ss_cols s" and "gf_rows f = ss_rows s"
proof -
  obtain p where "place_lines (ss_rows s) (replicate (nat (ss_rows s)) []) ls = Inr p"
    using place_lines_ok [OF assms(2)] by blast
  with assms(1) show ?thesis
    by (intro that) (auto simp: to_grid_frame_def screen_key_def frame_content_key_def)
qed

definition frames_ok :: "int \<Rightarrow> 's capture_state \<Rightarrow> bool" where
  "frames_ok maxGridCells st \<longleftrightarrow>
     (\<forall>f \<in> set (cs_frames st). 0 < gf_hold f \<and> 0 < gf_cols f \<and> 0 < gf_rows f)
     \<and> cs_retained st = sum_list (map (\<lambda>f. gf_cols f * gf_rows f) (cs_frames st)) \<and> cs_retained st \<le> maxGridCells
     \<and> cs_key st = (if cs_frames st = [] then None else Some (frame_content_key (last (cs_frames st))))
     \<and> successively (\<noteq>) (map frame_content_key (cs_frames st))"

lemma add_frame_ok:
  assumes ok: "frames_ok maxGridCells st" and f: "0 < gf_hold f" "0 < gf_cols f" "0 < gf_rows f"
  shows "add_frame maxGridCells f st = Inl too_many_frames_error
    \<or> (\<exists>st'. add_frame maxGridCells f st = Inr st' \<and> frames_ok maxGridCells st' \<and> cs_frames st' \<noteq> []
        \<and> cs_backend st' = cs_backend st \<and> cs_left st' = cs_left st
        \<and> sum_list (map gf_hold (cs_frames st')) = sum_list (map gf_hold (cs_frames st)) + gf_hold f
        \<and> (\<forall>ys \<tau>. show_at (timeline_of (cs_frames st') @ ys) \<tau>
             = show_at (timeline_of (cs_frames st) @ (frame_content_key f, gf_hold f) # ys) \<tau>))"
proof (cases "cs_key st = Some (frame_content_key f)")
  case True
  then have "cs_frames st \<noteq> []" using ok by (auto simp: frames_ok_def)
  then obtain fs g where fs: "cs_frames st = fs @ [g]" by (metis append_butlast_last_id)
  have g: "frame_content_key g = frame_content_key f" "0 < gf_hold g" using ok True fs by (auto simp: frames_ok_def)
  let ?st = "st\<lparr>cs_frames := fs @ [g\<lparr>gf_hold := gf_hold g + gf_hold f\<rparr>]\<rparr>"
  have "add_frame maxGridCells f st = Inr ?st" using True fs by (simp add: add_frame_def)
  moreover have "frames_ok maxGridCells ?st" using ok f fs by (simp add: frames_ok_def)
  moreover have "show_at (timeline_of (cs_frames ?st) @ ys) \<tau>
      = show_at (timeline_of (cs_frames st) @ (frame_content_key f, gf_hold f) # ys) \<tau>" for ys \<tau>
    using show_at_merge [OF g(2) f(1), of "timeline_of fs" "frame_content_key f" ys \<tau>] g(1) fs
    by (simp add: timeline_of_def)
  ultimately show ?thesis using fs by (intro disjI2 exI [of _ ?st]) simp
next
  case False
  show ?thesis
  proof (cases "cs_retained st + gf_cols f * gf_rows f > maxGridCells")
    case True
    with False show ?thesis by (simp add: add_frame_def)
  next
    case small: False
    let ?st = "st\<lparr>cs_frames := cs_frames st @ [f], cs_retained := cs_retained st + gf_cols f * gf_rows f,
      cs_key := Some (frame_content_key f)\<rparr>"
    have "add_frame maxGridCells f st = Inr ?st" using False small by (simp add: add_frame_def Let_def)
    moreover have "frames_ok maxGridCells ?st"
      using ok f small False by (auto simp: frames_ok_def successively_append_iff last_map)
    ultimately show ?thesis by (intro disjI2 exI [of _ ?st]) (simp add: timeline_of_def)
  qed
qed

lemma takeWhile_filter: "sorted_wrt (\<lambda>a b. P b \<longrightarrow> P a) es \<Longrightarrow> takeWhile P es = filter P es"
  by (induction es) (auto simp: filter_empty_conv)

lemma takeWhile_through:
  assumes "ordered (hist @ rest)" and "e \<in> set rest" and "int (ev_seq e) = q"
  defines "slice \<equiv> takeWhile (\<lambda>d. int (ev_seq d) \<le> q) rest"
  shows "takeWhile (\<lambda>d. int (ev_seq d) \<le> q) (hist @ rest) = hist @ slice" and "slice \<noteq> []"
    and "last_seq (hist @ slice) = q"
proof -
  have ord: "\<forall>d \<in> set hist. int (ev_seq d) \<le> q" "ordered rest"
    using assms(1-3) by (fastforce simp: ordered_def sorted_wrt_append)+
  then show "takeWhile (\<lambda>d. int (ev_seq d) \<le> q) (hist @ rest) = hist @ slice"
    by (simp add: slice_def takeWhile_append)
  have sorted: "sorted_wrt (\<lambda>a b. int (ev_seq b) \<le> q \<longrightarrow> int (ev_seq a) \<le> q) rest"
    using ord(2) by (auto simp: ordered_def sorted_wrt_map elim!: sorted_wrt_mono_rel [rotated])
  then have e: "e \<in> set slice" using assms(2,3) by (simp add: slice_def takeWhile_filter)
  then show "slice \<noteq> []" by auto
  have "ordered slice" using ord(2) sorted by (simp add: slice_def takeWhile_filter ordered_def sorted_wrt_map sorted_wrt_filter)
  then have "q \<le> last_seq slice" using ordered_last [OF _ e] assms(3) by simp
  moreover have "int (ev_seq (last slice)) \<le> q"
    using last_in_set [OF \<open>slice \<noteq> []\<close>] sorted by (simp add: slice_def takeWhile_filter)
  ultimately show "last_seq (hist @ slice) = q" using \<open>slice \<noteq> []\<close> by (simp add: last_seq_def)
qed

lemma build_replay_input_log:
  assumes "build_replay_input iso_date sid m events None trusted = Inr input" and "\<not> trusted"
  shows "input = \<lparr>ri_session = sid, ri_cols = initial_cols m, ri_rows = initial_rows m, ri_events = events,
                  ri_target = last_seq events\<rparr>"
    and "sid \<noteq> []" and "0 < initial_cols m" and "0 < initial_rows m" and "log_fine events"
proof -
  have records: "check_records iso_date i rs = Inr u \<Longrightarrow> resizes_positive rs" for i rs u
  proof (induction rs arbitrary: i)
    case (Cons r rs)
    then show ?case
      by (cases "ev_payload r") (auto simp: check_str_def event_record_schema_def split: if_splits)
  qed (simp add: resizes_positive_def)
  from assms have "check_records iso_date 0 events = Inr () \<and> assert_contiguous_sequence events = Inr ()"
    by (auto simp: build_replay_input_def check_def validate_event_records_def bind_res_def split: if_splits sum.splits)
  then show "log_fine events" using records [of 0 events] by (simp add: log_fine_def assert_contiguous_iff)
  show "input = \<lparr>ri_session = sid, ri_cols = initial_cols m, ri_rows = initial_rows m, ri_events = events,
                  ri_target = last_seq events\<rparr>" "sid \<noteq> []" "0 < initial_cols m" "0 < initial_rows m"
    using assms by (auto simp: build_replay_input_def check_def validate_event_records_def bind_res_def Let_def
        split: if_splits sum.splits)
qed

definition capture_ok ::
  "(event_record list \<Rightarrow> 's \<Rightarrow> bool) \<Rightarrow> event_record list \<Rightarrow> int \<Rightarrow> event_record list \<Rightarrow> 's capture_state \<Rightarrow> bool" where
  "capture_ok holds es maxGridCells hist st \<longleftrightarrow>
     es = hist @ cs_left st \<and> holds hist (cs_backend st) \<and> frames_ok maxGridCells st"

definition boundary_key ::
  "(event_record list \<Rightarrow> semantic_snapshot) \<Rightarrow> event_record list \<Rightarrow> frame_boundary \<Rightarrow> frame_key" where
  "boundary_key view es b = the (screen_key (view (takeWhile (\<lambda>e. int (ev_seq e) \<le> fb_seq b) es)))"

context following_backend
begin

lemma idle_key:
  "\<forall>e \<in> set rest. \<not> visual e \<Longrightarrow> screen_key (view options cols rows (hist @ rest)) = screen_key (view options cols rows hist)"
proof (induction rest rule: rev_induct)
  case (snoc e rest)
  then have "view options cols rows (hist @ rest @ [e]) = (view options cols rows (hist @ rest))\<lparr>ss_captured := int (ev_seq e)\<rparr>"
    using view_idle [of e options cols rows "hist @ rest"] by simp
  with snoc show ?case by simp
qed simp

lemma same_key:
  assumes "prefix p es" and "prefix q es" and "distinct es"
    and "\<forall>e \<in> set es. visual e \<longrightarrow> (e \<in> set p \<longleftrightarrow> e \<in> set q)"
  shows "screen_key (view options cols rows p) = screen_key (view options cols rows q)"
proof -
  have grow: "screen_key (view options cols rows (a @ rest)) = screen_key (view options cols rows a)"
    if "prefix (a @ rest) es" "\<forall>e \<in> set es. visual e \<longrightarrow> (e \<in> set (a @ rest) \<longleftrightarrow> e \<in> set a)" for a rest
  proof (rule idle_key)
    show "\<forall>e \<in> set rest. \<not> visual e" using that assms(3) by (fastforce simp: prefix_def)
  qed
  from assms(1,2) consider "prefix p q" | "prefix q p" by (meson prefix_same_cases)
  then show ?thesis
  proof cases
    case 1
    then obtain rest where q: "q = p @ rest" by (auto simp: prefix_def)
    show ?thesis unfolding q by (rule grow [symmetric]) (use assms(2,4) q in auto)
  next
    case 2
    then obtain rest where p: "p = q @ rest" by (auto simp: prefix_def)
    show ?thesis unfolding p by (rule grow) (use assms(1,4) p in auto)
  qed
qed

lemma moment_key:
  assumes "ordered es" and "sorted_wrt (\<le>) (map t es)" and "boundaries_for t es bs"
    and "b \<in> set bs" and "t (hd es) \<le> \<tau>" and "fb_ts b \<le> \<tau>" and "\<forall>c \<in> set bs. fb_ts c \<le> \<tau> \<longrightarrow> fb_ts c \<le> fb_ts b"
  shows "screen_key (view options cols rows (takeWhile (\<lambda>e. int (ev_seq e) \<le> fb_seq b) es))
    = screen_key (view options cols rows (takeWhile (\<lambda>e. t e \<le> \<tau>) es))"
proof (rule same_key)
  have seqs: "sorted_wrt (\<lambda>d e. int (ev_seq e) \<le> fb_seq b \<longrightarrow> int (ev_seq d) \<le> fb_seq b) es"
    using assms(1) by (auto simp: ordered_def sorted_wrt_map elim!: sorted_wrt_mono_rel [rotated])
  have times: "sorted_wrt (\<lambda>d e. t e \<le> \<tau> \<longrightarrow> t d \<le> \<tau>) es"
    using assms(2) by (auto simp: sorted_wrt_map elim!: sorted_wrt_mono_rel [rotated])
  have "int (ev_seq e) \<le> fb_seq b \<longleftrightarrow> t e \<le> \<tau>" if "e \<in> set es" "visual e" for e
    using assms(3-7) that by (simp add: boundaries_for_def)
  then show "\<forall>e \<in> set es. visual e \<longrightarrow>
      (e \<in> set (takeWhile (\<lambda>e. int (ev_seq e) \<le> fb_seq b) es)) = (e \<in> set (takeWhile (\<lambda>e. t e \<le> \<tau>) es))"
    by (simp add: takeWhile_filter [OF seqs] takeWhile_filter [OF times])
  show "distinct es" using assms(1) by (auto simp: ordered_def strict_sorted_iff distinct_map)
qed (auto simp: takeWhile_is_prefix)

lemma slice_step:
  assumes ok: "capture_ok (holds cols rows) es maxGridCells hist st" and fine: "log_fine es"
    and input: "input = \<lparr>ri_session = sid, ri_cols = cols, ri_rows = rows, ri_events = es, ri_target = target\<rparr>"
    and e: "e \<in> set (cs_left st)" "int (ev_seq e) = q"
  obtains st1 where "replay_slice replay input q st = (Inr (), st1)"
    and "capture_ok (holds cols rows) es maxGridCells (takeWhile (\<lambda>e. int (ev_seq e) \<le> q) es) st1"
    and "takeWhile (\<lambda>e. int (ev_seq e) \<le> q) es \<noteq> []" and "last_seq (takeWhile (\<lambda>e. int (ev_seq e) \<le> q) es) = q"
    and "cs_left st1 = dropWhile (\<lambda>e. int (ev_seq e) \<le> q) (cs_left st)" and "cs_frames st1 = cs_frames st"
proof -
  define slice where "slice = slice_through q st"
  have es: "es = hist @ cs_left st" and holds: "holds cols rows hist (cs_backend st)" and frames: "frames_ok maxGridCells st"
    using ok by (simp_all add: capture_ok_def)
  have ord: "ordered (hist @ cs_left st)" using fine es by (simp add: log_fine_def contiguous_ordered)
  note through = takeWhile_through [OF ord e, folded es slice_through_def, folded slice_def]
  have rest: "es = (hist @ slice) @ dropWhile (\<lambda>e. int (ev_seq e) \<le> q) (cs_left st)"
    by (simp add: es slice_def slice_through_def)
  have "log_fine (hist @ slice)"
    using fine contiguous_take [of es "length (hist @ slice)"] rest
    by (simp add: log_fine_def resizes_positive_def del: append_assoc)
  from replay_holds [OF holds this through(2)] through(3) obtain r b where
    run: "replay (input\<lparr>ri_events := slice, ri_target := q\<rparr>) (cs_backend st) = (Inr r, b)"
    and b: "holds cols rows (hist @ slice) b" by (auto simp: input)
  let ?st = "st\<lparr>cs_backend := b, cs_left := dropWhile (\<lambda>e. int (ev_seq e) \<le> q) (cs_left st)\<rparr>"
  have "frames_ok maxGridCells ?st" using frames by (simp add: frames_ok_def)
  then have "capture_ok (holds cols rows) es maxGridCells (hist @ slice) ?st"
    using b rest by (simp add: capture_ok_def)
  moreover have "replay_slice replay input q st = (Inr (), ?st)"
    using run by (simp add: replay_slice_def slice_def)
  ultimately show ?thesis using that [of ?st] through by simp
qed

lemma capture_frames_ok:
  assumes "capture_ok (holds cols rows) es maxGridCells hist st" and "log_fine es"
    and "input = \<lparr>ri_session = sid, ri_cols = cols, ri_rows = rows, ri_events = es, ri_target = target\<rparr>"
    and "rising bs" and "\<forall>b \<in> set bs. fb_ts b \<le> timelineEnd \<and> (\<exists>e \<in> set (cs_left st). fb_seq b = int (ev_seq e))"
    and "0 < finalHold"
  shows "capture_frames replay snapshot input timelineEnd finalHold maxGridCells bs st = Inl too_many_frames_error
    \<or> (\<exists>hist' st'. capture_frames replay snapshot input timelineEnd finalHold maxGridCells bs st = Inr st'
        \<and> capture_ok (holds cols rows) es maxGridCells hist' st'
        \<and> (bs \<noteq> [] \<longrightarrow> cs_frames st' \<noteq> [] \<and> last_seq hist' = fb_seq (last bs))
        \<and> (\<forall>c \<in> set bs. screen_key (view grid_cells cols rows (takeWhile (\<lambda>e. int (ev_seq e) \<le> fb_seq c) es))
            = Some (boundary_key (view grid_cells cols rows) es c))
        \<and> sum_list (map gf_hold (cs_frames st')) = sum_list (map gf_hold (cs_frames st))
            + sum_list (map snd (raw_frames (boundary_key (view grid_cells cols rows) es) (timelineEnd + finalHold) bs))
        \<and> (\<forall>\<tau>. show_at (timeline_of (cs_frames st')) \<tau> = show_at (timeline_of (cs_frames st)
            @ raw_frames (boundary_key (view grid_cells cols rows) es) (timelineEnd + finalHold) bs) \<tau>))"
  using assms
proof (induction bs arbitrary: st hist)
  case Nil
  then show ?case by auto
next
  case (Cons b bs)
  let ?key = "boundary_key (view grid_cells cols rows) es"
  let ?hist = "takeWhile (\<lambda>e. int (ev_seq e) \<le> fb_seq b) es"
  define hold where "hold = (case bs of [] \<Rightarrow> timelineEnd + finalHold | n # _ \<Rightarrow> fb_ts n) - fb_ts b"
  have hold': "(case bs of [] \<Rightarrow> timelineEnd - fb_ts b + finalHold | n # _ \<Rightarrow> fb_ts n - fb_ts b) = hold"
    by (simp add: hold_def split: list.splits)
  have "0 < hold" using Cons.prems(4-6) by (auto simp: hold_def rising_def split: list.splits)
  obtain e where e: "e \<in> set (cs_left st)" "int (ev_seq e) = fb_seq b" using Cons.prems(5) by auto
  obtain st1 where st1: "replay_slice replay input (fb_seq b) st = (Inr (), st1)"
    "capture_ok (holds cols rows) es maxGridCells ?hist st1" "?hist \<noteq> []" "last_seq ?hist = fb_seq b"
    "cs_left st1 = dropWhile (\<lambda>e. int (ev_seq e) \<le> fb_seq b) (cs_left st)" "cs_frames st1 = cs_frames st"
    by (rule slice_step [OF Cons.prems(1-3) e])
  have holds: "holds cols rows ?hist (cs_backend st1)" using st1(2) by (simp add: capture_ok_def)
  obtain b2 where b2: "snapshot grid_cells (cs_backend st1) = (Inr (view grid_cells cols rows ?hist), b2)"
    "holds cols rows ?hist b2" using snapshot_holds [OF holds st1(3), of grid_cells] by blast
  have "so_cells grid_cells" by (simp add: grid_cells_def)
  from view_cells [OF holds st1(3) this] obtain ls where
    pos: "0 < ss_cols (view grid_cells cols rows ?hist)" "0 < ss_rows (view grid_cells cols rows ?hist)"
    and ls: "ss_cells (view grid_cells cols rows ?hist) = Some ls"
      "\<forall>l \<in> set ls. rl_number l < ss_rows (view grid_cells cols rows ?hist)" by auto
  obtain f where f: "to_grid_frame (view grid_cells cols rows ?hist) hold = Inr f"
    "screen_key (view grid_cells cols rows ?hist) = Some (frame_content_key f)" "gf_hold f = hold"
    "0 < gf_cols f" "0 < gf_rows f" by (rule to_grid_frame_ok [OF ls, of hold]) (use pos in simp)
  have key: "?key b = frame_content_key f" using f(2) by (simp add: boundary_key_def)
  let ?st1 = "st1\<lparr>cs_backend := b2\<rparr>"
  have ok: "frames_ok maxGridCells ?st1" using st1(2) by (simp add: capture_ok_def frames_ok_def)
  have run: "capture_frames replay snapshot input timelineEnd finalHold maxGridCells (b # bs) st
      = bind_res (add_frame maxGridCells f ?st1)
          (capture_frames replay snapshot input timelineEnd finalHold maxGridCells bs)"
    using hold' \<open>0 < hold\<close> st1(1) b2(1) f(1) by (simp add: Let_def)
  have "0 < gf_hold f" using f(3) \<open>0 < hold\<close> by simp
  from add_frame_ok [OF ok this f(4,5)] show ?case
  proof (elim disjE exE conjE)
    assume "add_frame maxGridCells f ?st1 = Inl too_many_frames_error"
    with run show ?thesis by simp
  next
    fix st2
    assume st2: "add_frame maxGridCells f ?st1 = Inr st2" "frames_ok maxGridCells st2" "cs_frames st2 \<noteq> []"
      "cs_backend st2 = cs_backend ?st1" "cs_left st2 = cs_left ?st1"
      "sum_list (map gf_hold (cs_frames st2)) = sum_list (map gf_hold (cs_frames ?st1)) + gf_hold f"
      "\<forall>ys \<tau>. show_at (timeline_of (cs_frames st2) @ ys) \<tau>
         = show_at (timeline_of (cs_frames ?st1) @ (frame_content_key f, gf_hold f) # ys) \<tau>"
    have ok2: "capture_ok (holds cols rows) es maxGridCells ?hist st2"
      using st1(2) b2(2) st2(2,4,5) by (simp add: capture_ok_def)
    have later: "\<forall>c \<in> set bs. fb_seq b < fb_seq c" "rising bs" using Cons.prems(4) by (simp_all add: rising_def)
    have "\<forall>c \<in> set bs. fb_ts c \<le> timelineEnd \<and> (\<exists>e \<in> set (cs_left st2). fb_seq c = int (ev_seq e))"
    proof
      fix c assume c: "c \<in> set bs"
      with Cons.prems(5) obtain d where d: "d \<in> set (cs_left st)" "fb_seq c = int (ev_seq d)" "fb_ts c \<le> timelineEnd"
        by auto
      have "d \<in> set (takeWhile (\<lambda>e. int (ev_seq e) \<le> fb_seq b) (cs_left st)) \<or> d \<in> set (cs_left st2)"
        using d(1) st2(5) st1(5) by (metis Un_iff select_convs(2) set_append takeWhile_dropWhile_id surjective update_convs(1))
      moreover have "\<not> int (ev_seq d) \<le> fb_seq b" using later(1) c d(2) by force
      ultimately show "fb_ts c \<le> timelineEnd \<and> (\<exists>e \<in> set (cs_left st2). fb_seq c = int (ev_seq e))"
        using d by (auto dest: set_takeWhileD)
    qed
    from Cons.IH [OF ok2 Cons.prems(2,3) later(2) this Cons.prems(6)]
    show ?thesis
    proof (elim disjE exE conjE)
      assume "capture_frames replay snapshot input timelineEnd finalHold maxGridCells bs st2 = Inl too_many_frames_error"
      with run st2(1) show ?thesis by simp
    next
      fix hist' st'
      assume "capture_frames replay snapshot input timelineEnd finalHold maxGridCells bs st2 = Inr st'"
        "capture_ok (holds cols rows) es maxGridCells hist' st'"
        "bs \<noteq> [] \<longrightarrow> cs_frames st' \<noteq> [] \<and> last_seq hist' = fb_seq (last bs)"
        "\<forall>c \<in> set bs. screen_key (view grid_cells cols rows (takeWhile (\<lambda>e. int (ev_seq e) \<le> fb_seq c) es))
            = Some (?key c)"
        "sum_list (map gf_hold (cs_frames st')) = sum_list (map gf_hold (cs_frames st2))
            + sum_list (map snd (raw_frames ?key (timelineEnd + finalHold) bs))"
        "\<forall>\<tau>. show_at (timeline_of (cs_frames st')) \<tau> = show_at (timeline_of (cs_frames st2)
            @ raw_frames ?key (timelineEnd + finalHold) bs) \<tau>"
      note ih = this
      show ?thesis
      proof (cases "bs = []")
        case True
        have "sum_list (map gf_hold (cs_frames st2)) = sum_list (map gf_hold (cs_frames st)) + hold" "?hist = ?hist"
          using st2(6) st1(6) f(3) by simp_all
        with run st2(1,3) spec [OF st2(7), of "[]"] ok2 st1(4,6) True f(2,3) key show ?thesis
          by (intro disjI2 exI [of _ ?hist] exI [of _ st2]) (simp add: hold_def)
      next
        case False
        with run st2(1,3,6,7) ih st1(6) f(2,3) key show ?thesis
          by (intro disjI2 exI [of _ hist'] exI [of _ st']) (simp add: hold_def)
      qed
    qed
  qed
qed

lemma finish_capture_ok:
  assumes ok: "capture_ok (holds cols rows) es maxGridCells hist st" and fine: "log_fine es"
    and input: "input = \<lparr>ri_session = sid, ri_cols = cols, ri_rows = rows, ri_events = es, ri_target = last_seq es\<rparr>"
    and frames: "cs_frames st \<noteq> []" and seq: "last_seq hist = fb_seq (last bs)"
  obtains cap where "finish_capture replay name input scan bs st = Inr cap" and "gc_frames cap = cs_frames st"
    and "gc_captured cap = last_seq es" and "gc_duration cap = sum_list (map gf_hold (cs_frames st))"
    and "\<forall>f \<in> set (gc_frames cap). gf_cols f \<le> gc_cols cap \<and> gf_rows f \<le> gc_rows cap"
proof -
  have run: "fst (replay_slice replay input (last_seq es) st) = Inr ()" if later: "last_seq es > last_seq hist"
  proof -
    have es: "es = hist @ cs_left st" using ok by (simp add: capture_ok_def)
    then have left: "cs_left st \<noteq> []" using later by auto
    then have "int (ev_seq (last (cs_left st))) = last_seq es" by (subst es) (simp add: last_seq_def)
    with slice_step [OF ok fine input last_in_set [OF left]] show ?thesis by (metis fst_conv)
  qed
  have big: "a \<le> fold (\<lambda>f m. max m (g f)) fs a \<and> (\<forall>f \<in> set fs. g f \<le> fold (\<lambda>f m. max m (g f)) fs a)"
    for g :: "grid_frame \<Rightarrow> int" and fs a
  proof (induction fs arbitrary: a)
    case (Cons f fs)
    from Cons.IH [of "max a (g f)"] show ?case by auto
  qed simp
  let ?cols = "fold (\<lambda>f m. max m (gf_cols f)) (cs_frames st) 0" and ?rows = "fold (\<lambda>f m. max m (gf_rows f)) (cs_frames st) 0"
  have "0 < gf_cols (last (cs_frames st)) \<and> 0 < gf_rows (last (cs_frames st))"
    using ok frames by (simp add: capture_ok_def frames_ok_def)
  then have "0 < ?cols \<and> 0 < ?rows"
    using big [of 0 gf_cols "cs_frames st"] big [of 0 gf_rows "cs_frames st"] last_in_set [OF frames] by fastforce
  then have "finish_capture replay name input scan bs st = Inr
      \<lparr>gc_frames = cs_frames st, gc_captured = last_seq es, gc_cols = ?cols, gc_rows = ?rows, gc_backend = name,
       gc_outputs = bs_outputs scan, gc_resizes = bs_resizes scan, gc_duration = sum_list (map gf_hold (cs_frames st))\<rparr>"
    using run frames seq by (simp add: finish_capture_def input Let_def cong: sum.case_cong)
  then show ?thesis
    by (rule that) (use big [of 0 gf_cols "cs_frames st"] big [of 0 gf_rows "cs_frames st"] in simp_all)
qed

lemma captured_moments:
  fixes name :: jstring
  assumes start: "created s" "boot outcome s = (Inr u, s1)"
    and build: "build_replay_input iso_date sid m events None False = Inr input" and events: "events \<noteq> []"
    and dates: "\<forall>e \<in> set events. parse_date (ev_ts e) = Some (t e)" and times: "sorted_wrt (\<le>) (map t events)"
    and pos: "0 < finalHold" "0 < maxGridCells"
  defines "capture \<equiv> capture_grid_frames parse_date iso_date (boot outcome) replay snapshot name sid m events Timeline
      (Some finalHold) maxGridCells s"
    and "finish \<equiv> t (last events) + finalHold"
  shows "capture = Inl too_many_frames_error
    \<or> (\<exists>cap. capture = Inr cap
        \<and> gc_captured cap = last_seq events \<and> gc_duration cap = finish - t (hd events)
        \<and> sum_list (map (\<lambda>f. gf_cols f * gf_rows f) (gc_frames cap)) \<le> maxGridCells
        \<and> successively (\<noteq>) (map frame_content_key (gc_frames cap))
        \<and> (\<forall>f \<in> set (gc_frames cap). 0 < gf_hold f \<and> gf_cols f \<le> gc_cols cap \<and> gf_rows f \<le> gc_rows cap)
        \<and> (\<forall>\<tau>. t (hd events) \<le> \<tau> \<and> \<tau> < finish \<longrightarrow>
             show_at (timeline_of (gc_frames cap)) (\<tau> - t (hd events))
               = screen_key (view grid_cells (initial_cols m) (initial_rows m) (takeWhile (\<lambda>e. t e \<le> \<tau>) events))))"
proof -
  note input = build_replay_input_log [OF build, simplified]
  have ord: "ordered events" using input(5) by (simp add: log_fine_def contiguous_ordered)
  let ?cols = "initial_cols m" and ?rows = "initial_rows m"
  let ?view = "view grid_cells ?cols ?rows"
  have empty: "scan_ok t [] \<lparr>bs_boundaries = [], bs_first = None, bs_outputs = 0, bs_resizes = 0\<rparr>"
    by (simp add: scan_ok_def rising_def)
  have "\<forall>e \<in> set events. int (ev_seq e) \<le> last_seq events \<and> parse_date (ev_ts e) = Some (t e)"
    using dates ordered_last [OF ord] by blast
  then obtain scan where scan: "collect_frame_boundaries parse_date input Timeline = Inr scan" "scan_ok t events scan"
    using collect_from_ok [OF empty, of events "last_seq events" parse_date 0 None Timeline] ord times
    by (auto simp: collect_frame_boundaries_def input(1))
  define bs where "bs = capture_boundaries input Timeline scan (t (hd events)) (t (last events))"
  have bs: "boundaries_for t events bs" unfolding bs_def
    by (rule capture_boundaries_for [OF scan(2) ord times events]) (simp_all add: input(1))
  let ?st = "\<lparr>cs_backend = s1, cs_left = events, cs_frames = [], cs_retained = 0, cs_key = None\<rparr>"
  have ok: "capture_ok (holds ?cols ?rows) events maxGridCells [] ?st"
    using boot_holds [OF start(1) input(3,4) start(2)] pos by (simp add: capture_ok_def frames_ok_def)
  have run: "capture = bind_res (capture_frames replay snapshot input (t (last events)) finalHold maxGridCells bs ?st)
      (finish_capture replay name input scan bs)"
    unfolding capture_def capture_grid_frames_def
    using build events pos input(1,2) scan(1) dates start(2) last_seq_ge [of events]
    by (simp add: parse_timestamp_def bs_def Let_def last_seq_def)
  have "rising bs" and in_log: "\<forall>b \<in> set bs. fb_ts b \<le> t (last events) \<and> (\<exists>e \<in> set (cs_left ?st). fb_seq b = int (ev_seq e))"
    using bs by (simp_all add: boundaries_for_def)
  from capture_frames_ok [OF ok input(5,1) this pos(1)] show ?thesis
  proof (elim disjE exE conjE)
    assume "capture_frames replay snapshot input (t (last events)) finalHold maxGridCells bs ?st = Inl too_many_frames_error"
    with run show ?thesis by simp
  next
    fix hist st
    assume "capture_frames replay snapshot input (t (last events)) finalHold maxGridCells bs ?st = Inr st"
      and "capture_ok (holds ?cols ?rows) events maxGridCells hist st"
      and "bs \<noteq> [] \<longrightarrow> cs_frames st \<noteq> [] \<and> last_seq hist = fb_seq (last bs)"
      and "\<forall>c \<in> set bs. screen_key (?view (takeWhile (\<lambda>e. int (ev_seq e) \<le> fb_seq c) events))
          = Some (boundary_key ?view events c)"
      and "sum_list (map gf_hold (cs_frames st)) = sum_list (map gf_hold (cs_frames ?st))
          + sum_list (map snd (raw_frames (boundary_key ?view events) (t (last events) + finalHold) bs))"
      and "\<forall>\<tau>. show_at (timeline_of (cs_frames st)) \<tau> = show_at (timeline_of (cs_frames ?st)
          @ raw_frames (boundary_key ?view events) (t (last events) + finalHold) bs) \<tau>"
    note st = this
    have "bs \<noteq> []" using bs by (simp add: boundaries_for_def)
    with st(3) obtain cap where cap: "finish_capture replay name input scan bs st = Inr cap" "gc_frames cap = cs_frames st"
      "gc_captured cap = last_seq events" "gc_duration cap = sum_list (map gf_hold (cs_frames st))"
      "\<forall>f \<in> set (gc_frames cap). gf_cols f \<le> gc_cols cap \<and> gf_rows f \<le> gc_rows cap"
      by (metis finish_capture_ok [OF st(2) input(5,1)])
    have "show_at (timeline_of (gc_frames cap)) (\<tau> - t (hd events)) = screen_key (?view (takeWhile (\<lambda>e. t e \<le> \<tau>) events))"
      if \<tau>: "t (hd events) \<le> \<tau>" "\<tau> < finish" for \<tau>
    proof -
      have first: "rising bs" "fb_ts (hd bs) = t (hd events)" using bs by (simp_all add: boundaries_for_def)
      obtain b where b: "b \<in> set bs" "fb_ts b \<le> \<tau>" "\<forall>c \<in> set bs. fb_ts c \<le> \<tau> \<longrightarrow> fb_ts c \<le> fb_ts b"
        "show_at (raw_frames (boundary_key ?view events) finish bs) (\<tau> - t (hd events)) = Some (boundary_key ?view events b)"
        using show_raw [OF first(1) \<open>bs \<noteq> []\<close>, of \<tau> finish "boundary_key ?view events"] \<tau> first(2) by auto
      have "screen_key (?view (takeWhile (\<lambda>e. int (ev_seq e) \<le> fb_seq b) events)) = Some (boundary_key ?view events b)"
        using st(4) b(1) by blast
      with moment_key [OF ord times bs b(1) \<tau>(1) b(2,3), of grid_cells ?cols ?rows] b(4) st(6) cap(2)
      show ?thesis by (simp add: timeline_of_def finish_def)
    qed
    moreover have "gc_duration cap = finish - t (hd events)"
      using st(5) cap(4) raw_total [OF \<open>bs \<noteq> []\<close>] bs by (simp add: finish_def boundaries_for_def)
    ultimately show ?thesis
      using run st(1,2) cap by (intro disjI2 exI [of _ cap]) (auto simp: capture_ok_def frames_ok_def)
  qed
qed

end


definition example_recording :: "event_record list" where
  \<comment> \<open>A prompt, a pause with input that the screen does not show yet, and the command's output.\<close>
  "example_recording =
     [\<lparr>ev_seq = 0, ev_ts = js ''0'', ev_payload = Output (js ''$'')\<rparr>,
      \<lparr>ev_seq = 1, ev_ts = js ''5'', ev_payload = InputText (js ''x'')\<rparr>,
      \<lparr>ev_seq = 2, ev_ts = js ''9'', ev_payload = Output (js ''y'')\<rparr>]"

definition example_date :: "jstring \<Rightarrow> int option" where
  "example_date text = (case text of [c] \<Rightarrow> Some (int c - 48) | _ \<Rightarrow> None)"


end
