(* ===== verification/ProcFs.thy ===== *)
theory ProcFs
  imports Prelude
begin

text \<open>
  The calls of the operating system that show the processes of a session, and the text of
  \<open>/proc\<close> that they read. An operating system is a record of functions that answer a call from the
  trace of all calls before it, so every theorem holds for whatever the other processes do between
  two calls. A failed call answers with its \<open>errno\<close> code.
\<close>

section \<open>System calls\<close>

datatype proc_file =
    StatFile int                  \<comment> \<open>\<open>/proc/PID/stat\<close>\<close>
  | ThreadStat int jstring        \<comment> \<open>\<open>/proc/PID/task/TID/stat\<close>\<close>
  | AutogroupFile int             \<comment> \<open>\<open>/proc/PID/autogroup\<close>\<close>
  | OwnAutogroup                  \<comment> \<open>\<open>/proc/self/autogroup\<close>\<close>
  | BootIdFile                    \<comment> \<open>\<open>/proc/sys/kernel/random/boot_id\<close>\<close>
  | MountInfo                     \<comment> \<open>\<open>/proc/self/mountinfo\<close>\<close>
  | MachineIdFile bool            \<comment> \<open>\<open>/etc/machine-id\<close>, or the file of D-Bus\<close>

datatype proc_dir = ProcDir | TaskDir int

datatype proc_link = OwnPid | OwnPidNamespace | OwnTimeNamespace | PidNamespace int | TimeNamespace int

datatype sys_signal = Probe | SigKill | SigStop | SigCont

datatype sys_event =
    FileRead proc_file "jstring + jstring"
  | DirRead proc_dir "jstring + jstring list"
  | LinkRead proc_link "jstring + jstring"
  | Signalled int sys_signal "jstring option"     \<comment> \<open>the target, and the code of a failure\<close>
  | DirSeen bool                                  \<comment> \<open>whether the session directory exists\<close>
  | ClockRead int
  | Waited

type_synonym sys_trace = "sys_event list"

datatype platform = Linux | Windows | OtherPlatform

record os =
  os_file :: "sys_trace \<Rightarrow> proc_file \<Rightarrow> jstring + jstring"
  os_dir :: "sys_trace \<Rightarrow> proc_dir \<Rightarrow> jstring + jstring list"
  os_link :: "sys_trace \<Rightarrow> proc_link \<Rightarrow> jstring + jstring"
  os_kill :: "sys_trace \<Rightarrow> int \<Rightarrow> sys_signal \<Rightarrow> jstring option"
  os_exists :: "sys_trace \<Rightarrow> bool"
  os_now :: "sys_trace \<Rightarrow> int"
  os_platform :: platform
  os_pid :: int

datatype sys_error =
    Errno jstring             \<comment> \<open>an error of a call, with its code\<close>
  | StorageRead jstring       \<comment> \<open>a \<open>STORAGE_READ_ERROR\<close> with the code of its cause\<close>
  | Thrown js_error

type_synonym 'a io = "sys_trace \<Rightarrow> (sys_error + 'a) \<times> sys_trace"

definition return_io :: "'a \<Rightarrow> 'a io" where
  "return_io x tr = (Inr x, tr)"

definition throw_io :: "sys_error \<Rightarrow> 'a io" where
  "throw_io e tr = (Inl e, tr)"

definition bind_io :: "'a io \<Rightarrow> ('a \<Rightarrow> 'b io) \<Rightarrow> 'b io" where
  "bind_io m f tr = (case m tr of (Inl e, tr1) \<Rightarrow> (Inl e, tr1) | (Inr x, tr1) \<Rightarrow> f x tr1)"

definition catch_io :: "'a io \<Rightarrow> (sys_error \<Rightarrow> 'a io) \<Rightarrow> 'a io" where
  "catch_io m h tr = (case m tr of (Inl e, tr1) \<Rightarrow> h e tr1 | (Inr x, tr1) \<Rightarrow> (Inr x, tr1))"

lemma bind_io_cong [fundef_cong]:
  "m = m' \<Longrightarrow> (\<And>x. f x = g x) \<Longrightarrow> bind_io m f = bind_io m' g"
  by (rule arg_cong2 [where f = bind_io]) auto

definition lift_res :: "'a res \<Rightarrow> 'a io" where
  "lift_res r = (case r of Inl e \<Rightarrow> throw_io (Thrown e) | Inr x \<Rightarrow> return_io x)"

definition of_answer :: "jstring + 'a \<Rightarrow> sys_error + 'a" where
  "of_answer a = map_sum Errno id a"

definition read_file :: "os \<Rightarrow> proc_file \<Rightarrow> jstring io" where
  "read_file os f tr = (let a = os_file os tr f in (of_answer a, tr @ [FileRead f a]))"

definition read_dir :: "os \<Rightarrow> proc_dir \<Rightarrow> jstring list io" where
  "read_dir os d tr = (let a = os_dir os tr d in (of_answer a, tr @ [DirRead d a]))"

definition read_link :: "os \<Rightarrow> proc_link \<Rightarrow> jstring io" where
  "read_link os l tr = (let a = os_link os tr l in (of_answer a, tr @ [LinkRead l a]))"

definition process_kill :: "os \<Rightarrow> int \<Rightarrow> sys_signal \<Rightarrow> unit io" where
  "process_kill os target sig tr =
     (let a = os_kill os tr target sig
      in (case a of None \<Rightarrow> Inr () | Some code \<Rightarrow> Inl (Errno code), tr @ [Signalled target sig a]))"

definition exists_dir :: "os \<Rightarrow> bool io" where
  "exists_dir os tr = (let b = os_exists os tr in (Inr b, tr @ [DirSeen b]))"

definition read_clock :: "os \<Rightarrow> int io" where
  "read_clock os tr = (let t = os_now os tr in (Inr t, tr @ [ClockRead t]))"

definition settle :: "unit io" where
  "settle tr = (Inr (), tr @ [Waited])"

definition has_error_code :: "sys_error \<Rightarrow> string \<Rightarrow> bool" where
  "has_error_code e code = (e = Errno (js code))"

section \<open>The text of \<open>/proc\<close>\<close>

record proc_stat =
  ps_pid :: int
  ps_state :: jstring
  ps_ppid :: int
  ps_pgid :: int
  ps_sid :: int
  ps_start_ticks :: jstring

definition digits_value :: "jstring \<Rightarrow> int" where
  "digits_value s = fold (\<lambda>c n. 10 * n + (int c - 48)) s 0"

definition js_integer :: "jstring \<Rightarrow> int option" where
  \<comment> \<open>\<open>Number(s)\<close> where it is an integer: the decimal texts, which is all that the kernel prints\<close>
  "js_integer s =
     (case trim s of
        [] \<Rightarrow> Some 0
      | c # ds \<Rightarrow>
          if c = 45 \<and> ds \<noteq> [] \<and> list_all is_digit ds then Some (- digits_value ds)
          else if list_all is_digit (c # ds) then Some (digits_value (c # ds))
          else None)"

fun index_of_sub :: "jstring \<Rightarrow> jstring \<Rightarrow> nat option" where
  \<comment> \<open>\<open>s.indexOf(p)\<close> for a text that is not empty\<close>
  "index_of_sub p [] = None"
| "index_of_sub p (c # s) = (if starts_with (c # s) p then Some 0 else map_option Suc (index_of_sub p s))"

fun last_index_of :: "code_unit \<Rightarrow> jstring \<Rightarrow> nat option" where
  "last_index_of x [] = None"
| "last_index_of x (c # s) =
     (case last_index_of x s of
        Some i \<Rightarrow> Some (Suc i)
      | None \<Rightarrow> if c = x then Some 0 else None)"

definition list_at :: "'a list \<Rightarrow> nat \<Rightarrow> 'a option" where
  "list_at xs i = (if i < length xs then Some (xs ! i) else None)"

definition all_digits :: "jstring \<Rightarrow> bool" where
  \<comment> \<open>\<open>/^\d+$/\<close>\<close>
  "all_digits s \<longleftrightarrow> s \<noteq> [] \<and> list_all is_digit s"

definition parse_proc_stat :: "jstring \<Rightarrow> proc_stat res" where
  "parse_proc_stat t =
     (case (index_of_sub (js '' ('') t, last_index_of 41 t) of
        (Some opening, Some closing) \<Rightarrow>
          check (0 < opening \<and> opening < closing) ''proc stat must hold the command name in parentheses''
            (let fields = split_on 32 (drop (closing + 2) t);
                 number = (\<lambda>i. Option.bind (list_at fields i) js_integer);
                 state = (case list_at fields 0 of None \<Rightarrow> [] | Some s \<Rightarrow> s);
                 ticks = (case list_at fields 19 of None \<Rightarrow> [] | Some s \<Rightarrow> s)
             in case (js_integer (take opening t), number 1, number 2, number 3) of
                  (Some pid, Some ppid, Some pgid, Some sid) \<Rightarrow>
                    check (length state = 1 \<and> all_digits ticks) ''proc stat fields must parse''
                      (Inr \<lparr>ps_pid = pid, ps_state = state, ps_ppid = ppid, ps_pgid = pgid, ps_sid = sid,
                            ps_start_ticks = ticks\<rparr>)
                | _ \<Rightarrow> Inl (Assertion (js ''proc stat fields must parse'')))
      | _ \<Rightarrow> Inl (Assertion (js ''proc stat must hold the command name in parentheses'')))"

definition parse_autogroup :: "jstring \<Rightarrow> int option" where
  \<comment> \<open>\<open>/^\/autogroup-(\d+) nice -?\d+\n?$/\<close>\<close>
  "parse_autogroup t =
     (if starts_with t (js ''/autogroup-'')
      then let rest = drop (length (js ''/autogroup-'')) t;
               ds = takeWhile is_digit rest;
               tail = dropWhile is_digit rest
           in if ds \<noteq> [] \<and> starts_with tail (js '' nice '')
              then let nice = drop (length (js '' nice '')) tail;
                       unsigned = (case nice of c # r \<Rightarrow> if c = 45 then r else nice | [] \<Rightarrow> []);
                       body = (if unsigned \<noteq> [] \<and> last unsigned = 10 then butlast unsigned else unsigned)
                   in if all_digits body then Some (digits_value ds) else None
              else None
      else None)"

section \<open>Reads\<close>

definition read_proc_file_if_exists :: "os \<Rightarrow> proc_file \<Rightarrow> jstring option io" where
  "read_proc_file_if_exists os f =
     catch_io (bind_io (read_file os f) (\<lambda>t. return_io (Some t)))
       (\<lambda>e. if has_error_code e ''ENOENT'' \<or> has_error_code e ''ESRCH'' then return_io None else throw_io e)"

definition is_dead_state :: "jstring \<Rightarrow> bool" where
  "is_dead_state s \<longleftrightarrow> s = js ''Z'' \<or> s = js ''X''"

fun first_live_thread :: "os \<Rightarrow> int \<Rightarrow> jstring list \<Rightarrow> jstring option io" where
  "first_live_thread os pid [] = return_io None"
| "first_live_thread os pid (tid # tids) =
     bind_io (read_proc_file_if_exists os (ThreadStat pid tid)) (\<lambda>t.
     bind_io (case t of None \<Rightarrow> return_io (js ''X'')
              | Some s \<Rightarrow> bind_io (lift_res (parse_proc_stat s)) (\<lambda>st. return_io (ps_state st))) (\<lambda>state.
     if \<not> is_dead_state state then return_io (Some state) else first_live_thread os pid tids))"

definition read_live_thread_state :: "os \<Rightarrow> int \<Rightarrow> jstring option io" where
  "read_live_thread_state os pid =
     bind_io (catch_io (bind_io (read_dir os (TaskDir pid)) (\<lambda>tids. return_io (Some tids)))
                (\<lambda>e. if has_error_code e ''ENOENT'' \<or> has_error_code e ''ESRCH'' then return_io None else throw_io e))
       (\<lambda>tids. case tids of None \<Rightarrow> return_io None | Some ts \<Rightarrow> first_live_thread os pid ts)"

definition read_proc_stat :: "os \<Rightarrow> int \<Rightarrow> proc_stat option io" where
  "read_proc_stat os pid =
     bind_io (read_proc_file_if_exists os (StatFile pid)) (\<lambda>t.
       case t of
         None \<Rightarrow> return_io None
       | Some s \<Rightarrow>
           bind_io (lift_res (parse_proc_stat s)) (\<lambda>st.
           bind_io (if ps_state st = js ''Z'' then read_live_thread_state os pid else return_io None) (\<lambda>thread.
             return_io (Some (case thread of None \<Rightarrow> st | Some state \<Rightarrow> st\<lparr>ps_state := state\<rparr>)))))"

definition is_refused_read :: "sys_error \<Rightarrow> bool" where
  "is_refused_read e \<longleftrightarrow> has_error_code e ''EPERM'' \<or> has_error_code e ''EACCES''"

definition read_shown_proc_stat :: "os \<Rightarrow> int \<Rightarrow> proc_stat option io" where
  "read_shown_proc_stat os pid =
     catch_io (read_proc_stat os pid) (\<lambda>e. if is_refused_read e then return_io None else throw_io e)"

definition read_autogroup :: "os \<Rightarrow> int option \<Rightarrow> int option io" where
  \<comment> \<open>nothing for the process itself\<close>
  "read_autogroup os pid =
     catch_io (bind_io (read_file os (case pid of None \<Rightarrow> OwnAutogroup | Some p \<Rightarrow> AutogroupFile p))
                 (\<lambda>t. return_io (parse_autogroup t)))
       (\<lambda>_. return_io None)"

definition read_boot_id :: "os \<Rightarrow> jstring option io" where
  "read_boot_id os =
     catch_io (bind_io (read_proc_file_if_exists os BootIdFile) (\<lambda>t.
                 return_io (case map_option trim t of None \<Rightarrow> None | Some b \<Rightarrow> if b = [] then None else Some b)))
       (\<lambda>e. if is_refused_read e then return_io None else throw_io e)"

end
