(* ===== verification/ProgramGroup.thy ===== *)
theory ProgramGroup
  imports ProcFs
begin

text \<open>
  The process group of a session's program: the record that names it, the judgement of a scan of
  \<open>/proc\<close>, whether the group is alive, the check of gc, and the kill of destroy.
\<close>

section \<open>The record of a program\<close>

record program_record =
  pr_pid :: int
  pr_token :: "(jstring \<times> int) option"     \<comment> \<open>the boot id and the autogroup\<close>

datatype program_group = Program program_record | ChildPid int | Unshared

definition program_record_schema :: "program_record \<Rightarrow> bool" where
  "program_record_schema r \<longleftrightarrow>
     1 < pr_pid r \<and> (case pr_token r of None \<Rightarrow> True | Some (boot, grp) \<Rightarrow> boot \<noteq> [] \<and> 0 < grp)"

record process_row =
  row_pid :: int
  row_pgid :: int
  row_sid :: int
  row_state :: jstring
  row_autogroup :: "int option"

definition stop_attempts :: nat where "stop_attempts = 5"
definition gc_judgements :: nat where "gc_judgements = 10"
definition frozen_judgements :: nat where "frozen_judgements = 2"
definition capture_budget_ms :: int where "capture_budget_ms = 250"

definition program_without_token :: "int \<Rightarrow> program_record" where
  "program_without_token pid = \<lparr>pr_pid = pid, pr_token = None\<rparr>"

definition capture_attempt :: "os \<Rightarrow> int \<Rightarrow> int \<Rightarrow> (int option) option io" where
  \<comment> \<open>One turn of the loop: nothing to try again, else the result.\<close>
  "capture_attempt os pid ownAutogroup =
     bind_io (read_shown_proc_stat os pid) (\<lambda>before.
     bind_io (read_autogroup os (Some pid)) (\<lambda>autogroup.
     bind_io (read_shown_proc_stat os pid) (\<lambda>after.
       return_io (case (before, after) of
          (Some b, Some a) \<Rightarrow>
            if ps_start_ticks b \<noteq> ps_start_ticks a \<or> ps_ppid a \<noteq> os_pid os then Some None
            else if ps_sid a = pid \<and> autogroup \<noteq> Some ownAutogroup then Some autogroup
            else None
        | _ \<Rightarrow> Some None))))"

partial_function (option) capture_loop ::
  "os \<Rightarrow> int \<Rightarrow> int \<Rightarrow> int \<Rightarrow> sys_trace \<Rightarrow> ((sys_error + int option) \<times> sys_trace) option" where
  "capture_loop os pid ownAutogroup deadline tr =
     (case read_clock os tr of
        (Inl e, tr1) \<Rightarrow> Some (Inl e, tr1)
      | (Inr now, tr1) \<Rightarrow>
          if now < deadline
          then case capture_attempt os pid ownAutogroup tr1 of
                 (Inl e, tr2) \<Rightarrow> Some (Inl e, tr2)
               | (Inr (Some r), tr2) \<Rightarrow> Some (Inr r, tr2)
               | (Inr None, tr2) \<Rightarrow> capture_loop os pid ownAutogroup deadline tr2
          else Some (Inr None, tr1))"

definition capture_token ::
  "os \<Rightarrow> int \<Rightarrow> sys_trace \<Rightarrow> ((sys_error + (jstring \<times> int) option) \<times> sys_trace) option" where
  "capture_token os pid tr =
     (if os_platform os \<noteq> Linux then Some (Inr None, tr)
      else case bind_io (read_autogroup os None) (\<lambda>own. bind_io (read_boot_id os) (\<lambda>boot. return_io (own, boot))) tr of
        (Inl e, tr1) \<Rightarrow> Some (Inl e, tr1)
      | (Inr (Some own, Some boot), tr1) \<Rightarrow>
          (case read_clock os tr1 of
             (Inl e, tr2) \<Rightarrow> Some (Inl e, tr2)
           | (Inr now, tr2) \<Rightarrow>
               map_option (\<lambda>(r, tr3). (map_sum id (map_option (\<lambda>g. (boot, g))) r, tr3))
                 (capture_loop os pid own (now + capture_budget_ms) tr2))
      | (Inr _, tr1) \<Rightarrow> Some (Inr None, tr1))"

definition capture_program ::
  "os \<Rightarrow> int \<Rightarrow> sys_trace \<Rightarrow> ((sys_error + program_record) \<times> sys_trace) option" where
  "capture_program os pid tr =
     map_option (\<lambda>(r, tr1). (map_sum id (\<lambda>token. \<lparr>pr_pid = pid, pr_token = token\<rparr>) r, tr1)) (capture_token os pid tr)"

datatype record_read = Missing | Invalid | Valid program_record

definition is_unreadable_group_error :: "sys_error \<Rightarrow> bool" where
  "is_unreadable_group_error e =
     (case e of
        Thrown _ \<Rightarrow> False
      | Errno code \<Rightarrow> code \<in> set (map js [''EACCES'', ''EPERM'', ''EIO'', ''EISDIR'', ''ENOTDIR'', ''ELOOP'', ''ENAMETOOLONG''])
      | StorageRead code \<Rightarrow>
          code \<in> set (map js [''EACCES'', ''EPERM'', ''EIO'', ''EISDIR'', ''ENOTDIR'', ''ELOOP'', ''ENAMETOOLONG'']))"

definition group_of_read :: "record_read \<Rightarrow> int option \<Rightarrow> bool io \<Rightarrow> bool io \<Rightarrow> program_group option io" where
  \<comment> \<open>from \<open>program.json\<close>, with \<open>sharesHostPids\<close> for a record without and with \<open>sharedWithoutRecord\<close>\<close>
  "group_of_read rd childPid shares_strict shares_loose =
     (case rd of
        Valid r \<Rightarrow>
          if pr_token r \<noteq> None
          then bind_io shares_strict (\<lambda>shared. return_io (Some (if shared then Program r else Unshared)))
          else (case childPid of
                  None \<Rightarrow> return_io None
                | Some p \<Rightarrow> bind_io shares_loose (\<lambda>shared. return_io (if shared then Some (ChildPid p) else None)))
      | Missing \<Rightarrow>
          (case childPid of
             None \<Rightarrow> return_io None
           | Some p \<Rightarrow> bind_io shares_loose (\<lambda>shared. return_io (if shared then Some (ChildPid p) else None)))
      | Invalid \<Rightarrow> return_io None)"

section \<open>Judgements\<close>

datatype group_judgement = Owned int | Unknown bool | Gone | Unproven

definition is_member :: "int \<Rightarrow> process_row \<Rightarrow> bool" where
  "is_member pid row \<longleftrightarrow> row_pgid row = pid \<and> \<not> is_dead_state (row_state row)"

definition is_stopped :: "process_row \<Rightarrow> bool" where
  "is_stopped row \<longleftrightarrow> row_state row = js ''T'' \<or> row_state row = js ''t''"

definition judge_program_group ::
  "int \<Rightarrow> jstring \<Rightarrow> int \<Rightarrow> jstring option \<Rightarrow> process_row list \<Rightarrow> group_judgement" where
  \<comment> \<open>for the record of a pid with its boot id and autogroup\<close>
  "judge_program_group pid boot autogroup bootId rows =
     (let members = filter (is_member pid) rows
      in if members = [] then Gone
         else case bootId of
                None \<Rightarrow> Unknown False
              | Some b \<Rightarrow>
                  if b \<noteq> boot then Unproven
                  else case find (\<lambda>row. row_sid row = pid \<and> row_autogroup row = Some autogroup) members of
                         Some row \<Rightarrow> Owned (row_pid row)
                       | None \<Rightarrow>
                           let unread = filter (\<lambda>row. row_sid row = pid \<and> row_autogroup row = None) members
                           in if unread \<noteq> [] then Unknown (list_ex (\<lambda>row. \<not> is_stopped row) unread) else Unproven)"

definition to_process_row :: "os \<Rightarrow> proc_stat \<Rightarrow> process_row io" where
  "to_process_row os st =
     bind_io (read_autogroup os (Some (ps_pid st))) (\<lambda>autogroup.
       return_io \<lparr>row_pid = ps_pid st, row_pgid = ps_pgid st, row_sid = ps_sid st, row_state = ps_state st,
                  row_autogroup = autogroup\<rparr>)"

definition read_process_row :: "os \<Rightarrow> int \<Rightarrow> process_row option io" where
  "read_process_row os pid =
     bind_io (read_shown_proc_stat os pid) (\<lambda>st. case st of
       None \<Rightarrow> return_io None
     | Some s \<Rightarrow> bind_io (to_process_row os s) (\<lambda>row. return_io (Some row)))"

fun scan_members :: "os \<Rightarrow> int \<Rightarrow> jstring list \<Rightarrow> process_row list io" where
  "scan_members os pgid [] = return_io []"
| "scan_members os pgid (entry # entries) =
     (if \<not> all_digits entry then scan_members os pgid entries
      else bind_io (read_shown_proc_stat os (digits_value entry)) (\<lambda>st. case st of
             None \<Rightarrow> scan_members os pgid entries
           | Some s \<Rightarrow>
               if ps_pgid s = pgid
               then bind_io (to_process_row os s) (\<lambda>row.
                    bind_io (scan_members os pgid entries) (\<lambda>rows. return_io (row # rows)))
               else scan_members os pgid entries))"

definition read_group_members :: "os \<Rightarrow> int \<Rightarrow> process_row list io" where
  "read_group_members os pgid =
     bind_io (catch_io (read_dir os ProcDir)
                (\<lambda>e. if has_error_code e ''ENOENT'' then return_io [] else throw_io e))
       (scan_members os pgid)"

definition shows_stopped_member :: "os \<Rightarrow> int \<Rightarrow> bool io" where
  "shows_stopped_member os pgid = bind_io (read_group_members os pgid) (\<lambda>rows. return_io (list_ex is_stopped rows))"

definition judge_live_group :: "os \<Rightarrow> int \<Rightarrow> jstring \<Rightarrow> int \<Rightarrow> group_judgement io" where
  "judge_live_group os pid boot autogroup =
     bind_io (read_boot_id os) (\<lambda>bootId.
     bind_io (read_group_members os pid) (\<lambda>rows.
       let judgement = judge_program_group pid boot autogroup bootId rows
       in if judgement = Gone
          then bind_io (read_group_members os pid)
                 (\<lambda>again. return_io (judge_program_group pid boot autogroup bootId again))
          else return_io judgement))"

section \<open>Signals and probes\<close>

definition process_group_target :: "os \<Rightarrow> int \<Rightarrow> int res" where
  "process_group_target os pgid =
     check (1 < pgid) ''process group id must be an integer above 1''
       (Inr (if os_platform os = Windows then pgid else - pgid))"

definition signal_target :: "os \<Rightarrow> int \<Rightarrow> sys_signal \<Rightarrow> unit io" where
  "signal_target os pgid sig = bind_io (lift_res (process_group_target os pgid)) (\<lambda>target. process_kill os target sig)"

definition hides_option :: "jstring \<Rightarrow> bool" where
  \<comment> \<open>\<open>/(^|,)hidepid=(2|4|invisible|ptraceable)(,|$)/\<close>\<close>
  "hides_option opts \<longleftrightarrow>
     list_ex (\<lambda>w. w \<in> set (map js [''hidepid=2'', ''hidepid=4'', ''hidepid=invisible'', ''hidepid=ptraceable'']))
       (split_on 44 opts)"

fun index_in :: "'a \<Rightarrow> 'a list \<Rightarrow> int" where
  \<comment> \<open>\<open>xs.indexOf(x)\<close>\<close>
  "index_in x [] = -1"
| "index_in x (y # ys) = (if y = x then 0 else let i = index_in x ys in if i = -1 then -1 else i + 1)"

definition hides_after :: "bool \<Rightarrow> jstring \<Rightarrow> bool" where
  "hides_after hides line =
     (let fields = split_on 32 line; separator = index_in (js ''-'') fields
      in if list_at fields 4 = Some (js ''/proc'') \<and> list_at fields (nat (separator + 1)) = Some (js ''proc'')
         then hides_option (case list_at fields (nat (separator + 3)) of None \<Rightarrow> [] | Some o' \<Rightarrow> o')
         else hides)"

definition proc_hides_other_users :: "os \<Rightarrow> bool io" where
  "proc_hides_other_users os =
     catch_io (bind_io (read_file os MountInfo) (\<lambda>t. return_io (foldl hides_after False (split_on 10 t))))
       (\<lambda>_. return_io True)"

fun scan_group_from :: "os \<Rightarrow> int \<Rightarrow> bool \<Rightarrow> jstring list \<Rightarrow> bool option io" where
  "scan_group_from os pgid seen [] = return_io (if seen then Some False else None)"
| "scan_group_from os pgid seen (entry # entries) =
     (if \<not> all_digits entry then scan_group_from os pgid seen entries
      else bind_io (catch_io (bind_io (read_proc_stat os (digits_value entry)) (\<lambda>st. return_io (Some st)))
                      (\<lambda>e. if is_refused_read e then return_io None else throw_io e)) (\<lambda>r. case r of
             None \<Rightarrow> return_io (Some True)
           | Some None \<Rightarrow> scan_group_from os pgid seen entries
           | Some (Some s) \<Rightarrow>
               if ps_pgid s \<noteq> pgid then scan_group_from os pgid seen entries
               else if \<not> is_dead_state (ps_state s) then return_io (Some True)
               else scan_group_from os pgid True entries))"

definition scan_group :: "os \<Rightarrow> int \<Rightarrow> bool option io" where
  "scan_group os pgid = bind_io (read_dir os ProcDir) (scan_group_from os pgid False)"

definition group_has_live_process :: "os \<Rightarrow> int \<Rightarrow> bool option io" where
  "group_has_live_process os pgid =
     bind_io (if os_platform os \<noteq> Linux then return_io True else proc_hides_other_users os) (\<lambda>blind.
       if blind then return_io (Some True)
       else bind_io (scan_group os pgid) (\<lambda>first.
              if first = Some True then return_io (Some True)
              else bind_io (scan_group os pgid) (\<lambda>again.
                     if again = Some True then return_io (Some True)
                     else return_io (if first = Some False \<and> again = Some False then Some False else None))))"

definition probe_finds_group :: "os \<Rightarrow> int \<Rightarrow> bool io" where
  "probe_finds_group os pgid =
     catch_io (bind_io (signal_target os pgid Probe) (\<lambda>_. return_io True))
       (\<lambda>e. if has_error_code e ''ESRCH'' then return_io False
            else if has_error_code e ''EPERM'' then return_io True else throw_io e)"

datatype probe_result = ProbeRefused | ProbeMissing | ProbeFound

definition is_process_group_alive :: "os \<Rightarrow> int \<Rightarrow> bool io" where
  "is_process_group_alive os pgid =
     bind_io (catch_io (bind_io (signal_target os pgid Probe) (\<lambda>_. return_io ProbeFound))
                (\<lambda>e. if has_error_code e ''EPERM'' then return_io ProbeRefused
                     else if has_error_code e ''ESRCH'' then return_io ProbeMissing else throw_io e)) (\<lambda>r. case r of
       ProbeMissing \<Rightarrow> return_io False
     | ProbeRefused \<Rightarrow>
         bind_io (group_has_live_process os pgid) (\<lambda>live. return_io (case live of None \<Rightarrow> True | Some b \<Rightarrow> b))
     | ProbeFound \<Rightarrow>
         bind_io (group_has_live_process os pgid) (\<lambda>live. case live of
           None \<Rightarrow> probe_finds_group os pgid | Some b \<Rightarrow> return_io b))"

definition kill_process_group_best_effort :: "os \<Rightarrow> int \<Rightarrow> unit io" where
  "kill_process_group_best_effort os pgid =
     catch_io (signal_target os pgid SigKill)
       (\<lambda>e. if has_error_code e ''ESRCH'' \<or> has_error_code e ''EPERM'' then return_io () else throw_io e)"

definition signal_process_group :: "os \<Rightarrow> int \<Rightarrow> sys_signal \<Rightarrow> bool io" where
  "signal_process_group os pgid sig =
     catch_io (bind_io (signal_target os pgid sig) (\<lambda>_. return_io True))
       (\<lambda>e. if has_error_code e ''ESRCH'' \<or> has_error_code e ''EPERM'' then return_io False else throw_io e)"

definition proc_shows_own_pid_space :: "os \<Rightarrow> bool io" where
  "proc_shows_own_pid_space os =
     catch_io (bind_io (read_link os OwnPid) (\<lambda>t. return_io (t = int_digits (os_pid os)))) (\<lambda>_. return_io False)"

section \<open>Alive, gc and destroy\<close>

definition is_program_group_alive :: "os \<Rightarrow> program_group option \<Rightarrow> bool io" where
  "is_program_group_alive os grp =
     (case grp of
        None \<Rightarrow> return_io False
      | Some (ChildPid p) \<Rightarrow> bind_io (exists_dir os) (\<lambda>there. if there then is_process_group_alive os p else return_io False)
      | Some Unshared \<Rightarrow> return_io True
      | Some (Program r) \<Rightarrow>
          (case pr_token r of
             None \<Rightarrow> is_process_group_alive os (pr_pid r)
           | Some (boot, autogroup) \<Rightarrow>
               bind_io (judge_live_group os (pr_pid r) boot autogroup) (\<lambda>j. case j of
                 Owned _ \<Rightarrow> return_io True
               | Unknown _ \<Rightarrow> return_io True
               | Gone \<Rightarrow> is_process_group_alive os (pr_pid r)
               | Unproven \<Rightarrow> return_io False)))"

definition force_skips_group :: "os \<Rightarrow> program_group option io \<Rightarrow> bool io" where
  "force_skips_group os read_group =
     catch_io (bind_io read_group (\<lambda>g. bind_io (is_program_group_alive os g) (\<lambda>_. return_io False)))
       (\<lambda>e. return_io (is_unreadable_group_error e))"

definition verdict_for_gc :: "group_judgement \<Rightarrow> bool option" where
  "verdict_for_gc j = (case j of Owned _ \<Rightarrow> Some True | Unproven \<Rightarrow> Some False | _ \<Rightarrow> None)"

definition judge_after_stop :: "os \<Rightarrow> int \<Rightarrow> jstring \<Rightarrow> int \<Rightarrow> group_judgement io" where
  \<comment> \<open>The \<open>finally\<close> sends the SIGCONT also when a scan throws, and an error of it replaces the one of the scan.\<close>
  "judge_after_stop os pid boot autogroup tr =
     (case bind_io settle (\<lambda>_. judge_live_group os pid boot autogroup) tr of
        (r, tr1) \<Rightarrow>
          (case signal_process_group os pid SigCont tr1 of
             (Inl e, tr2) \<Rightarrow> (Inl e, tr2)
           | (Inr _, tr2) \<Rightarrow> (r, tr2)))"

fun judge_frozen_group :: "os \<Rightarrow> int \<Rightarrow> jstring \<Rightarrow> int \<Rightarrow> nat \<Rightarrow> bool option io" where
  "judge_frozen_group os pid boot autogroup 0 = return_io None"
| "judge_frozen_group os pid boot autogroup (Suc n) =
     bind_io (proc_shows_own_pid_space os) (\<lambda>own.
       if \<not> own then return_io (Some False)
       else bind_io (signal_process_group os pid SigStop) (\<lambda>reached.
              if \<not> reached then return_io (Some False)
              else bind_io (judge_after_stop os pid boot autogroup) (\<lambda>j.
                     if j \<noteq> Gone then return_io (verdict_for_gc j)
                     else judge_frozen_group os pid boot autogroup n)))"

definition judge_group_for_gc :: "os \<Rightarrow> int \<Rightarrow> jstring \<Rightarrow> int \<Rightarrow> bool option io" where
  "judge_group_for_gc os pid boot autogroup =
     bind_io (judge_live_group os pid boot autogroup) (\<lambda>j.
       if j \<noteq> Gone then return_io (verdict_for_gc j)
       else bind_io (probe_finds_group os pid) (\<lambda>found.
              if \<not> found then return_io (Some False)
              else bind_io (group_has_live_process os pid) (\<lambda>live. case live of
                     None \<Rightarrow> return_io (Some True)
                   | Some True \<Rightarrow> return_io None
                   | Some False \<Rightarrow> judge_frozen_group os pid boot autogroup frozen_judgements)))"

fun judge_for_gc :: "os \<Rightarrow> int \<Rightarrow> jstring \<Rightarrow> int \<Rightarrow> nat \<Rightarrow> bool io" where
  "judge_for_gc os pid boot autogroup 0 = return_io False"
| "judge_for_gc os pid boot autogroup (Suc n) =
     bind_io (judge_group_for_gc os pid boot autogroup) (\<lambda>runs. case runs of
       Some b \<Rightarrow> return_io b
     | None \<Rightarrow> judge_for_gc os pid boot autogroup n)"

definition proven_program_group_runs :: "os \<Rightarrow> program_group option \<Rightarrow> bool io" where
  "proven_program_group_runs os grp =
     (case grp of
        Some (Program r) \<Rightarrow>
          (case pr_token r of
             None \<Rightarrow> return_io False
           | Some (boot, autogroup) \<Rightarrow> judge_for_gc os (pr_pid r) boot autogroup gc_judgements)
      | _ \<Rightarrow> return_io False)"

definition witness_holds :: "os \<Rightarrow> int \<Rightarrow> jstring \<Rightarrow> int \<Rightarrow> int \<Rightarrow> bool io" where
  "witness_holds os pid boot autogroup w =
     bind_io (read_process_row os w) (\<lambda>row. return_io (case row of
       None \<Rightarrow> False
     | Some r \<Rightarrow> (case judge_program_group pid boot autogroup (Some boot) [r] of Owned _ \<Rightarrow> True | _ \<Rightarrow> False)))"

datatype stop_outcome = StopDone | Killed | Freeze

definition stop_attempt :: "os \<Rightarrow> int \<Rightarrow> jstring \<Rightarrow> int \<Rightarrow> bool \<Rightarrow> stop_outcome io" where
  \<comment> \<open>One turn of the loop up to its SIGSTOP.\<close>
  "stop_attempt os pid boot autogroup frozen =
     bind_io (judge_live_group os pid boot autogroup) (\<lambda>j.
       if j = Unproven \<or> j = Unknown False then return_io StopDone
       else bind_io (case j of Owned w \<Rightarrow> witness_holds os pid boot autogroup w | _ \<Rightarrow> return_io False) (\<lambda>holds.
         if holds then bind_io (kill_process_group_best_effort os pid) (\<lambda>_. return_io Killed)
         else bind_io (proc_shows_own_pid_space os) (\<lambda>own.
           if \<not> own then return_io StopDone
           else bind_io (if frozen then return_io False else shows_stopped_member os pid) (\<lambda>stopped.
             return_io (if stopped then StopDone else Freeze)))))"

fun stop_loop ::
  "os \<Rightarrow> int \<Rightarrow> jstring \<Rightarrow> int \<Rightarrow> nat \<Rightarrow> bool \<Rightarrow> sys_trace \<Rightarrow> (sys_error + bool) \<times> bool \<times> sys_trace" where
  \<comment> \<open>whether it killed or the error, and whether the group is frozen\<close>
  "stop_loop os pid boot autogroup 0 frozen tr = (Inr False, frozen, tr)"
| "stop_loop os pid boot autogroup (Suc n) frozen tr =
     (case stop_attempt os pid boot autogroup frozen tr of
        (Inl e, tr1) \<Rightarrow> (Inl e, frozen, tr1)
      | (Inr StopDone, tr1) \<Rightarrow> (Inr False, frozen, tr1)
      | (Inr Killed, tr1) \<Rightarrow> (Inr True, frozen, tr1)
      | (Inr Freeze, tr1) \<Rightarrow>
          (case signal_process_group os pid SigStop tr1 of
             (Inl e, tr2) \<Rightarrow> (Inl e, frozen, tr2)
           | (Inr reached, tr2) \<Rightarrow>
               if \<not> (reached \<or> frozen) then (Inr False, False, tr2)
               else stop_loop os pid boot autogroup n True (snd (settle tr2))))"

definition stop_proven_group :: "os \<Rightarrow> int \<Rightarrow> jstring \<Rightarrow> int \<Rightarrow> unit io" where
  "stop_proven_group os pid boot autogroup tr =
     (case stop_loop os pid boot autogroup stop_attempts False tr of
        (r, frozen, tr1) \<Rightarrow>
          if frozen \<and> r \<noteq> Inr True
          then (case signal_process_group os pid SigCont tr1 of
                  (Inl e, tr2) \<Rightarrow> (Inl e, tr2)
                | (Inr _, tr2) \<Rightarrow> (map_sum id (\<lambda>_. ()) r, tr2))
          else (map_sum id (\<lambda>_. ()) r, tr1))"

definition stop_program_group :: "os \<Rightarrow> program_group option \<Rightarrow> unit io" where
  "stop_program_group os grp =
     (case grp of
        None \<Rightarrow> return_io ()
      | Some (ChildPid p) \<Rightarrow>
          bind_io (exists_dir os) (\<lambda>there. if there then kill_process_group_best_effort os p else return_io ())
      | Some Unshared \<Rightarrow> return_io ()
      | Some (Program r) \<Rightarrow>
          (case pr_token r of
             None \<Rightarrow> kill_process_group_best_effort os (pr_pid r)
           | Some (boot, autogroup) \<Rightarrow> stop_proven_group os (pr_pid r) boot autogroup))"

section \<open>What a run of calls adds to the trace\<close>

definition quiet :: "sys_event \<Rightarrow> bool" where
  "quiet e = (case e of Signalled _ sig _ \<Rightarrow> sig = Probe | _ \<Rightarrow> True)"

definition reads_only :: "'a io \<Rightarrow> bool" where
  "reads_only m \<longleftrightarrow> (\<forall>tr. \<exists>new. snd (m tr) = tr @ new \<and> list_all quiet new)"

named_theorems reading \<open>operations that send no signal but probes\<close>

lemma reads_only_return [reading]: "reads_only (return_io x)"
  by (simp add: reads_only_def return_io_def)

lemma reads_only_throw [reading]: "reads_only (throw_io e)"
  by (simp add: reads_only_def throw_io_def)

lemma reads_only_append:
  assumes "reads_only m" and "m tr = (r, tr1)"
  obtains new where "tr1 = tr @ new" and "list_all quiet new"
  using assms unfolding reads_only_def by (metis snd_conv)

lemma reads_only_bind [reading]:
  assumes "reads_only m" and "\<And>x. reads_only (f x)"
  shows "reads_only (bind_io m f)"
  unfolding reads_only_def
proof
  fix tr
  obtain r tr1 where m: "m tr = (r, tr1)" by fastforce
  obtain new where new: "tr1 = tr @ new" "list_all quiet new" by (rule reads_only_append [OF assms(1) m])
  show "\<exists>new. snd (bind_io m f tr) = tr @ new \<and> list_all quiet new"
  proof (cases r)
    case (Inl e)
    with m new show ?thesis by (simp add: bind_io_def)
  next
    case (Inr x)
    from assms(2) [of x] obtain more where "snd (f x tr1) = tr1 @ more" "list_all quiet more"
      by (auto simp: reads_only_def)
    with m new Inr show ?thesis by (simp add: bind_io_def)
  qed
qed

lemma reads_only_catch [reading]:
  assumes "reads_only m" and "\<And>e. reads_only (h e)"
  shows "reads_only (catch_io m h)"
  unfolding reads_only_def
proof
  fix tr
  obtain r tr1 where m: "m tr = (r, tr1)" by fastforce
  obtain new where new: "tr1 = tr @ new" "list_all quiet new" by (rule reads_only_append [OF assms(1) m])
  show "\<exists>new. snd (catch_io m h tr) = tr @ new \<and> list_all quiet new"
  proof (cases r)
    case (Inr x)
    with m new show ?thesis by (simp add: catch_io_def)
  next
    case (Inl e)
    from assms(2) [of e] obtain more where "snd (h e tr1) = tr1 @ more" "list_all quiet more"
      by (auto simp: reads_only_def)
    with m new Inl show ?thesis by (simp add: catch_io_def)
  qed
qed

lemma reads_only_if [reading]: "reads_only m \<Longrightarrow> reads_only k \<Longrightarrow> reads_only (if b then m else k)"
  by simp

lemma reads_only_option [reading]:
  "reads_only m \<Longrightarrow> (\<And>x. reads_only (f x)) \<Longrightarrow> reads_only (case v of None \<Rightarrow> m | Some x \<Rightarrow> f x)"
  by (cases v) simp_all

lemma reads_only_calls [reading]:
  "reads_only (read_file os f)" "reads_only (read_dir os d)" "reads_only (read_link os l)" "reads_only settle"
  "reads_only (lift_res v)" "reads_only (signal_target os pgid Probe)" "reads_only (exists_dir os)"
  by (auto simp: reads_only_def read_file_def read_dir_def read_link_def settle_def lift_res_def signal_target_def
      process_kill_def exists_dir_def bind_io_def return_io_def throw_io_def Let_def quiet_def split: sum.splits)

lemma reads_only_stat [reading]:
  "reads_only (read_proc_file_if_exists os f)" "reads_only (first_live_thread os p ts)"
  "reads_only (read_live_thread_state os p)" "reads_only (read_proc_stat os p)" "reads_only (read_shown_proc_stat os p)"
  "reads_only (read_autogroup os q)" "reads_only (read_boot_id os)"
proof -
  show exists: "reads_only (read_proc_file_if_exists os f)" for f
    unfolding read_proc_file_if_exists_def by (intro reading)
  show threads: "reads_only (first_live_thread os p ts)" for p ts
    by (induction ts) (auto intro!: reading exists)
  show state: "reads_only (read_live_thread_state os p)" for p
    unfolding read_live_thread_state_def by (intro reading threads)
  show st: "reads_only (read_proc_stat os p)" for p
    unfolding read_proc_stat_def by (intro reading exists state)
  show "reads_only (read_shown_proc_stat os p)" unfolding read_shown_proc_stat_def by (intro reading st)
  show "reads_only (read_autogroup os q)" unfolding read_autogroup_def by (intro reading)
  show "reads_only (read_boot_id os)" unfolding read_boot_id_def by (intro reading exists)
qed

lemma reads_only_judge [reading]:
  "reads_only (to_process_row os st)" "reads_only (read_process_row os p)" "reads_only (scan_members os pgid es)"
  "reads_only (read_group_members os pgid)" "reads_only (shows_stopped_member os pgid)"
  "reads_only (judge_live_group os pid boot autogroup)" "reads_only (witness_holds os pid boot autogroup w)"
  "reads_only (proc_shows_own_pid_space os)"
proof -
  show row: "reads_only (to_process_row os st)" for st unfolding to_process_row_def by (intro reading)
  show one: "reads_only (read_process_row os p)" unfolding read_process_row_def by (intro reading row)
  show scan: "reads_only (scan_members os pgid es)" for pgid es
    by (induction es) (auto intro!: reading row split: option.splits)
  show members: "reads_only (read_group_members os pgid)" for pgid unfolding read_group_members_def by (intro reading scan)
  show "reads_only (shows_stopped_member os pgid)" unfolding shows_stopped_member_def by (intro reading members)
  show "reads_only (judge_live_group os pid boot autogroup)"
    unfolding judge_live_group_def Let_def by (intro reading members)
  show "reads_only (witness_holds os pid boot autogroup w)"
    unfolding witness_holds_def read_process_row_def by (intro reading row)
  show "reads_only (proc_shows_own_pid_space os)" unfolding proc_shows_own_pid_space_def by (intro reading)
qed

section \<open>Evidence of a read\<close>

lemma bind_io_Inr: "bind_io m f tr = (Inr y, tr') \<longleftrightarrow> (\<exists>x tr1. m tr = (Inr x, tr1) \<and> f x tr1 = (Inr y, tr'))"
  by (auto simp: bind_io_def split: prod.splits sum.splits)

lemma catch_io_Inr:
  "catch_io m h tr = (Inr y, tr') \<longleftrightarrow>
     m tr = (Inr y, tr') \<or> (\<exists>e tr1. m tr = (Inl e, tr1) \<and> h e tr1 = (Inr y, tr'))"
  by (auto simp: catch_io_def split: prod.splits sum.splits)

lemma return_io_eq [simp]: "return_io x tr = (r, tr') \<longleftrightarrow> r = Inr x \<and> tr' = tr"
  by (auto simp: return_io_def)

lemma throw_io_eq [simp]: "throw_io e tr = (r, tr') \<longleftrightarrow> r = Inl e \<and> tr' = tr"
  by (auto simp: throw_io_def)

lemma read_file_Inr:
  "read_file os f tr = (Inr t, tr') \<longleftrightarrow> os_file os tr f = Inr t \<and> tr' = tr @ [FileRead f (Inr t)]"
  by (cases "os_file os tr f") (auto simp: read_file_def of_answer_def Let_def)

lemma if_exists_Some:
  "read_proc_file_if_exists os f tr = (Inr (Some t), tr') \<longleftrightarrow> os_file os tr f = Inr t \<and> tr' = tr @ [FileRead f (Inr t)]"
  by (auto simp: read_proc_file_if_exists_def catch_io_Inr bind_io_Inr read_file_Inr)

lemma read_autogroup_Some:
  assumes "read_autogroup os (Some p) tr = (Inr (Some g), tr')"
  obtains t where "os_file os tr (AutogroupFile p) = Inr t" and "parse_autogroup t = Some g"
    and "tr' = tr @ [FileRead (AutogroupFile p) (Inr t)]"
  using assms by (auto simp: read_autogroup_def catch_io_Inr bind_io_Inr read_file_Inr)

lemma read_boot_id_Some:
  assumes "read_boot_id os tr = (Inr (Some b), tr')"
  obtains t where "trim t = b" and "tr' = tr @ [FileRead BootIdFile (Inr t)]" and "os_file os tr BootIdFile = Inr t"
proof -
  obtain x tr1 where x: "read_proc_file_if_exists os BootIdFile tr = (Inr x, tr1)" "tr1 = tr'"
    "Some b = (case map_option trim x of None \<Rightarrow> None | Some b \<Rightarrow> if b = [] then None else Some b)"
    using assms by (auto simp: read_boot_id_def catch_io_Inr bind_io_Inr split: if_splits)
  then obtain t where "x = Some t" "trim t = b" by (cases x) (auto split: if_splits)
  with x that show ?thesis by (auto simp: if_exists_Some)
qed

lemma read_shown_proc_stat_Some:
  assumes "read_shown_proc_stat os p tr = (Inr (Some st), tr')"
  obtains t st0 more where "os_file os tr (StatFile p) = Inr t" and "parse_proc_stat t = Inr st0"
    and "st = st0\<lparr>ps_state := ps_state st\<rparr>" and "tr' = (tr @ [FileRead (StatFile p) (Inr t)]) @ more"
proof -
  have "read_proc_stat os p tr = (Inr (Some st), tr')"
    using assms by (auto simp: read_shown_proc_stat_def catch_io_Inr split: if_splits)
  then obtain t tr1 st0 tr2 thread where t: "read_proc_file_if_exists os (StatFile p) tr = (Inr (Some t), tr1)"
    and st0: "lift_res (parse_proc_stat t) tr1 = (Inr st0, tr2)"
    and thread: "(if ps_state st0 = js ''Z'' then read_live_thread_state os p else return_io None) tr2 = (Inr thread, tr')"
      "st = (case thread of None \<Rightarrow> st0 | Some state \<Rightarrow> st0\<lparr>ps_state := state\<rparr>)"
    by (auto simp: read_proc_stat_def bind_io_Inr split: option.splits)
  have st0': "parse_proc_stat t = Inr st0" "tr2 = tr1"
    using st0 by (auto simp: lift_res_def split: sum.splits)
  have ro: "reads_only (if ps_state st0 = js ''Z'' then read_live_thread_state os p else return_io None)" by (intro reading)
  obtain more where "tr' = tr2 @ more" by (rule reads_only_append [OF ro thread(1)])
  with t st0' thread(2) that [of t st0 more] show ?thesis by (auto simp: if_exists_Some split: option.splits)
qed

text \<open>What \<open>witness_holds\<close> has read when it agrees: the stat of the witness, and last its autogroup.\<close>

lemma witness_holds_True:
  assumes "witness_holds os pid boot autogroup w tr = (Inr True, tr')"
  obtains t st mid g where "os_file os tr (StatFile w) = Inr t" and "parse_proc_stat t = Inr st"
    and "ps_pgid st = pid" and "ps_sid st = pid"
    and "os_file os (tr @ FileRead (StatFile w) (Inr t) # mid) (AutogroupFile (ps_pid st)) = Inr g"
    and "parse_autogroup g = Some autogroup" and "list_all quiet mid"
    and "tr' = tr @ FileRead (StatFile w) (Inr t) # mid @ [FileRead (AutogroupFile (ps_pid st)) (Inr g)]"
proof -
  obtain st tr1 g' row where st: "read_shown_proc_stat os w tr = (Inr (Some st), tr1)"
    and g': "read_autogroup os (Some (ps_pid st)) tr1 = (Inr g', tr')"
    and row: "row = \<lparr>row_pid = ps_pid st, row_pgid = ps_pgid st, row_sid = ps_sid st, row_state = ps_state st, row_autogroup = g'\<rparr>"
    and j: "\<exists>v. judge_program_group pid boot autogroup (Some boot) [row] = Owned v"
    using assms by (auto simp: witness_holds_def read_process_row_def to_process_row_def bind_io_Inr split: option.splits
        group_judgement.splits)
  have own: "ps_pgid st = pid" "ps_sid st = pid" "g' = Some autogroup"
    using j unfolding row by (auto simp: judge_program_group_def is_member_def Let_def split: if_splits)
  obtain t st0 more where t: "os_file os tr (StatFile w) = Inr t" "parse_proc_stat t = Inr st0"
    "st = st0\<lparr>ps_state := ps_state st\<rparr>" "tr1 = (tr @ [FileRead (StatFile w) (Inr t)]) @ more"
    by (rule read_shown_proc_stat_Some [OF st])
  have same: "ps_pid st0 = ps_pid st" "ps_pgid st0 = ps_pgid st" "ps_sid st0 = ps_sid st"
    by (subst t(3), simp)+
  obtain g where g: "os_file os tr1 (AutogroupFile (ps_pid st)) = Inr g" "parse_autogroup g = Some autogroup"
    "tr' = tr1 @ [FileRead (AutogroupFile (ps_pid st)) (Inr g)]"
    using g' own(3) by (auto elim: read_autogroup_Some)
  obtain new where "tr1 = tr @ new" "list_all quiet new"
    by (rule reads_only_append [OF reads_only_stat(5) st])
  then have "list_all quiet more" using t(4) by auto
  with t g own same that show ?thesis by (auto simp: quiet_def)
qed

lemma judge_live_group_Owned:
  assumes "judge_live_group os pid boot autogroup tr = (Inr (Owned w), tr')"
  obtains t new where "trim t = boot" and "tr' = tr @ FileRead BootIdFile (Inr t) # new" and "list_all quiet new"
proof -
  obtain b tr1 rows tr2 where b: "read_boot_id os tr = (Inr b, tr1)"
    and rows: "read_group_members os pid tr1 = (Inr rows, tr2)"
    and j: "(if judge_program_group pid boot autogroup b rows = Gone
       then bind_io (read_group_members os pid) (\<lambda>again. return_io (judge_program_group pid boot autogroup b again))
       else return_io (judge_program_group pid boot autogroup b rows)) tr2 = (Inr (Owned w), tr')"
    using assms by (auto simp: judge_live_group_def bind_io_Inr Let_def)
  have "\<exists>xs. judge_program_group pid boot autogroup b xs = Owned w"
    using j by (auto simp: bind_io_Inr split: if_splits)
  then have "b = Some boot"
    by (auto simp: judge_program_group_def Let_def split: if_splits option.splits)
  with b obtain t where t: "trim t = boot" "tr1 = tr @ [FileRead BootIdFile (Inr t)]" by (auto elim: read_boot_id_Some)
  have ro: "reads_only (if judge_program_group pid boot autogroup b rows = Gone
       then bind_io (read_group_members os pid) (\<lambda>again. return_io (judge_program_group pid boot autogroup b again))
       else return_io (judge_program_group pid boot autogroup b rows))" by (intro reading)
  obtain n2 where n2: "tr' = tr2 @ n2" "list_all quiet n2" by (rule reads_only_append [OF ro j])
  obtain n1 where "tr2 = tr1 @ n1" "list_all quiet n1" by (rule reads_only_append [OF reads_only_judge(4) rows])
  with t n2 that [of t "n1 @ n2"] show ?thesis by simp
qed

section \<open>The trace of a kill\<close>

definition group_target :: "os \<Rightarrow> int \<Rightarrow> int" where
  "group_target os pid = (if os_platform os = Windows then pid else - pid)"

definition proven_kill :: "os \<Rightarrow> int \<Rightarrow> jstring \<Rightarrow> int \<Rightarrow> sys_trace \<Rightarrow> sys_trace \<Rightarrow> bool" where
  \<comment> \<open>The last two calls read the autogroup of a member of the program's session and kill its group.\<close>
  "proven_kill os pid boot autogroup tr new \<longleftrightarrow>
     (\<exists>pre w t st g a b. new = pre @ [FileRead (AutogroupFile (ps_pid st)) (Inr g), Signalled (group_target os pid) SigKill a]
        \<and> parse_autogroup g = Some autogroup
        \<and> os_file os (tr @ pre) (AutogroupFile (ps_pid st)) = Inr g
        \<and> FileRead (StatFile w) (Inr t) \<in> set pre \<and> parse_proc_stat t = Inr st \<and> ps_pgid st = pid \<and> ps_sid st = pid
        \<and> FileRead BootIdFile (Inr b) \<in> set pre \<and> trim b = boot)"

definition signals :: "sys_signal \<Rightarrow> sys_event \<Rightarrow> bool" where
  "signals sig e = (case e of Signalled _ s _ \<Rightarrow> s = sig | _ \<Rightarrow> False)"

lemma signals_quiet: "list_all quiet new \<Longrightarrow> sig \<noteq> Probe \<Longrightarrow> e \<in> set new \<Longrightarrow> \<not> signals sig e"
  by (auto simp: list_all_iff quiet_def signals_def split: sys_event.splits)

lemma signal_target_eq:
  "1 < pid \<Longrightarrow> signal_target os pid sig tr
     = (case os_kill os tr (group_target os pid) sig of None \<Rightarrow> Inr () | Some c \<Rightarrow> Inl (Errno c),
        tr @ [Signalled (group_target os pid) sig (os_kill os tr (group_target os pid) sig)])"
  by (simp add: signal_target_def process_group_target_def lift_res_def bind_io_def return_io_def process_kill_def
      group_target_def Let_def)

lemma signal_process_group_eq:
  assumes "1 < pid"
  obtains r a where "signal_process_group os pid sig tr = (r, tr @ [Signalled (group_target os pid) sig a])"
    and "r = Inr True \<longleftrightarrow> a = None"
proof -
  let ?a = "os_kill os tr (group_target os pid) sig"
  have "snd (signal_process_group os pid sig tr) = tr @ [Signalled (group_target os pid) sig ?a]
      \<and> (fst (signal_process_group os pid sig tr) = Inr True \<longleftrightarrow> ?a = None)"
    using assms by (cases ?a)
      (simp_all add: signal_process_group_def signal_target_eq catch_io_def bind_io_def return_io_def throw_io_def)
  then show ?thesis by (intro that [of "fst (signal_process_group os pid sig tr)" ?a]) (simp_all add: prod_eq_iff)
qed

lemma kill_process_group_eq:
  assumes "1 < pid"
  obtains r a where "kill_process_group_best_effort os pid tr = (r, tr @ [Signalled (group_target os pid) SigKill a])"
proof -
  let ?a = "os_kill os tr (group_target os pid) SigKill"
  have "snd (kill_process_group_best_effort os pid tr) = tr @ [Signalled (group_target os pid) SigKill ?a]"
    using assms by (cases ?a)
      (simp_all add: kill_process_group_best_effort_def signal_target_eq catch_io_def return_io_def throw_io_def)
  then show ?thesis by (intro that [of "fst (kill_process_group_best_effort os pid tr)" ?a]) (simp add: prod_eq_iff)
qed

lemma stop_attempt_trace:
  assumes pid: "1 < pid" and run: "stop_attempt os pid boot autogroup frozen tr = (r, tr')"
  obtains new where "tr' = tr @ new"
    and "list_all quiet new \<and> r \<noteq> Inr Killed
         \<or> proven_kill os pid boot autogroup tr new \<and> list_all quiet (butlast new) \<and> (r = Inr Killed \<or> (\<exists>e. r = Inl e))"
proof -
  obtain rj tr1 where j: "judge_live_group os pid boot autogroup tr = (rj, tr1)" by fastforce
  obtain n1 where n1: "tr1 = tr @ n1" "list_all quiet n1" by (rule reads_only_append [OF reads_only_judge(6) j])
  let ?rest = "bind_io (proc_shows_own_pid_space os) (\<lambda>own.
      if \<not> own then return_io StopDone
      else bind_io (if frozen then return_io False else shows_stopped_member os pid) (\<lambda>stopped.
        return_io (if stopped then StopDone else Freeze)))"
  have ro: "reads_only ?rest" by (intro reading)
  have no_kill: "fst (?rest t) \<noteq> Inr Killed" for t
    by (auto simp: bind_io_def return_io_def split: prod.splits sum.splits if_splits)
  consider e where "rj = Inl e" | "rj = Inr Unproven \<or> rj = Inr (Unknown False)"
    | w where "rj = Inr (Owned w)" | k where "rj = Inr k" "k = Gone \<or> k = Unknown True"
    by (metis (full_types) group_judgement.exhaust sum.exhaust)
  then show ?thesis
  proof cases
    case 1
    with run j n1 show ?thesis by (intro that [of n1]) (auto simp: stop_attempt_def bind_io_def)
  next
    case 2
    with run j n1 show ?thesis by (intro that [of n1]) (auto simp: stop_attempt_def bind_io_def)
  next
    case (4 k)
    then have "stop_attempt os pid boot autogroup frozen tr = ?rest tr1"
      using j by (auto simp: stop_attempt_def bind_io_def return_io_def)
    with run have rest: "?rest tr1 = (r, tr')" by simp
    obtain n2 where "tr' = tr1 @ n2" "list_all quiet n2" by (rule reads_only_append [OF ro rest])
    with n1 no_kill [of tr1] rest show ?thesis by (intro that [of "n1 @ n2"]) auto
  next
    case (3 w)
    obtain rw tr2 where h: "witness_holds os pid boot autogroup w tr1 = (rw, tr2)" by fastforce
    obtain n2 where n2: "tr2 = tr1 @ n2" "list_all quiet n2" by (rule reads_only_append [OF reads_only_judge(7) h])
    have step: "stop_attempt os pid boot autogroup frozen tr
        = bind_io (\<lambda>_. (rw, tr2)) (\<lambda>holds. if holds then bind_io (kill_process_group_best_effort os pid) (\<lambda>_. return_io Killed)
            else ?rest) tr"
      using j 3 h by (simp add: stop_attempt_def bind_io_def)
    consider e where "rw = Inl e" | "rw = Inr False" | "rw = Inr True" by (cases rw) auto
    then show ?thesis
    proof cases
      case 1
      with run step n1 n2 show ?thesis by (intro that [of "n1 @ n2"]) (auto simp: bind_io_def)
    next
      case 2
      with run step have rest: "?rest tr2 = (r, tr')" by (simp add: bind_io_def)
      obtain n3 where "tr' = tr2 @ n3" "list_all quiet n3" by (rule reads_only_append [OF ro rest])
      with n1 n2 no_kill [of tr2] rest show ?thesis by (intro that [of "n1 @ n2 @ n3"]) auto
    next
      case 3
      obtain t st mid g where ev: "parse_proc_stat t = Inr st" "ps_pgid st = pid" "ps_sid st = pid"
        "os_file os (tr1 @ FileRead (StatFile w) (Inr t) # mid) (AutogroupFile (ps_pid st)) = Inr g"
        "parse_autogroup g = Some autogroup" "list_all quiet mid"
        "tr2 = tr1 @ FileRead (StatFile w) (Inr t) # mid @ [FileRead (AutogroupFile (ps_pid st)) (Inr g)]"
        by (rule witness_holds_True [OF h [unfolded 3]])
      obtain b n0 where b: "trim b = boot" "tr1 = tr @ FileRead BootIdFile (Inr b) # n0"
        by (rule judge_live_group_Owned [OF j [unfolded \<open>rj = Inr (Owned w)\<close>]])
      obtain rk a where k: "kill_process_group_best_effort os pid tr2 = (rk, tr2 @ [Signalled (group_target os pid) SigKill a])"
        by (rule kill_process_group_eq [OF pid])
      let ?pre = "n1 @ FileRead (StatFile w) (Inr t) # mid"
      let ?new = "?pre @ [FileRead (AutogroupFile (ps_pid st)) (Inr g), Signalled (group_target os pid) SigKill a]"
      have "tr' = tr @ ?new" "r = Inr Killed \<or> (\<exists>e. r = Inl e)"
        using run step 3 k ev(7) n1(1) by (auto simp: bind_io_def return_io_def split: sum.splits)
      moreover have "FileRead BootIdFile (Inr b) \<in> set ?pre" using b(2) n1(1) by auto
      then have "proven_kill os pid boot autogroup tr ?new"
        unfolding proven_kill_def using ev b(1) n1(1)
        by (intro exI [of _ ?pre] exI [of _ w] exI [of _ t] exI [of _ st] exI [of _ g] exI [of _ a] exI [of _ b]) simp
      moreover have "list_all quiet (butlast ?new)" using n1(2) ev(6) by (simp add: butlast_append quiet_def)
      ultimately show ?thesis by (intro that [of ?new]) auto
    qed
  qed
qed

lemma proven_kill_later:
  assumes "proven_kill os pid boot autogroup (tr @ before) new"
  shows "proven_kill os pid boot autogroup tr (before @ new)"
proof -
  obtain pre w t st g a b where "new = pre @ [FileRead (AutogroupFile (ps_pid st)) (Inr g), Signalled (group_target os pid) SigKill a]"
    "parse_autogroup g = Some autogroup" "os_file os ((tr @ before) @ pre) (AutogroupFile (ps_pid st)) = Inr g"
    "FileRead (StatFile w) (Inr t) \<in> set pre" "parse_proc_stat t = Inr st" "ps_pgid st = pid" "ps_sid st = pid"
    "FileRead BootIdFile (Inr b) \<in> set pre" "trim b = boot"
    using assms unfolding proven_kill_def by blast
  then show ?thesis unfolding proven_kill_def
    by (intro exI [of _ "before @ pre"] exI [of _ w] exI [of _ t] exI [of _ st] exI [of _ g] exI [of _ a] exI [of _ b]) simp
qed

definition stop_trace :: "os \<Rightarrow> int \<Rightarrow> jstring \<Rightarrow> int \<Rightarrow> nat \<Rightarrow> bool \<Rightarrow> sys_trace \<Rightarrow> bool \<Rightarrow> sys_trace \<Rightarrow> bool \<Rightarrow> bool" where
  \<comment> \<open>with whether the group was frozen before and is frozen after, and whether the loop reports a kill\<close>
  "stop_trace os pid boot autogroup n frozen tr fz new killed \<longleftrightarrow>
     (\<forall>e \<in> set new. quiet e \<or> (\<exists>s a. e = Signalled (group_target os pid) s a))
     \<and> length (filter (signals SigStop) new) \<le> n
     \<and> (fz \<longleftrightarrow> frozen \<or> (\<exists>t. Signalled t SigStop None \<in> set new))
     \<and> (\<forall>e \<in> set (butlast new). \<not> signals SigKill e)
     \<and> (killed \<or> (\<exists>e \<in> set new. signals SigKill e) \<longrightarrow> proven_kill os pid boot autogroup tr new)"

lemma stop_trace_quiet:
  assumes "list_all quiet new"
  shows "stop_trace os pid boot autogroup n frozen tr frozen new False"
proof -
  have "\<not> signals s e" if "e \<in> set new" "s \<noteq> Probe" for s e using signals_quiet [OF assms that(2,1)] .
  moreover have "Signalled t SigStop None \<notin> set new" for t
    using assms by (auto simp: list_all_iff quiet_def)
  ultimately show ?thesis
    using assms by (auto simp: stop_trace_def list_all_iff filter_empty_conv dest: in_set_butlastD)
qed

lemma proven_kill_last: "proven_kill os pid boot autogroup tr new \<Longrightarrow> new \<noteq> [] \<and> (\<exists>a. last new = Signalled (group_target os pid) SigKill a)"
  by (auto simp: proven_kill_def)

lemma stop_trace_kill:
  assumes "proven_kill os pid boot autogroup tr new" and "list_all quiet (butlast new)"
  shows "stop_trace os pid boot autogroup n frozen tr frozen new killed"
proof -
  obtain a where new: "new = butlast new @ [Signalled (group_target os pid) SigKill a]"
    using proven_kill_last [OF assms(1)] append_butlast_last_id by metis
  have "\<not> signals s e" if "e \<in> set (butlast new)" "s \<noteq> Probe" for s e using signals_quiet [OF assms(2) that(2,1)] .
  moreover have "filter (signals SigStop) new = []"
    by (subst new) (use calculation in \<open>auto simp: filter_empty_conv signals_def\<close>)
  moreover have "Signalled t SigStop None \<notin> set new" for t
    by (subst new) (use assms(2) in \<open>auto simp: list_all_iff quiet_def\<close>)
  moreover have "\<forall>e \<in> set new. quiet e \<or> (\<exists>s a. e = Signalled (group_target os pid) s a)"
    by (subst new) (use assms(2) in \<open>auto simp: list_all_iff\<close>)
  ultimately show ?thesis using assms(1) by (auto simp: stop_trace_def)
qed

lemma stop_loop_trace:
  assumes pid: "1 < pid"
  shows "stop_loop os pid boot autogroup n frozen tr = (r, fz, tr') \<Longrightarrow>
    \<exists>new. tr' = tr @ new \<and> stop_trace os pid boot autogroup n frozen tr fz new (r = Inr True)"
proof (induction n arbitrary: frozen tr)
  case 0
  then show ?case using stop_trace_quiet [of "[]"] by auto
next
  case (Suc n)
  obtain ra tr1 where a: "stop_attempt os pid boot autogroup frozen tr = (ra, tr1)" by fastforce
  obtain n1 where n1: "tr1 = tr @ n1" and
    cases: "list_all quiet n1 \<and> ra \<noteq> Inr Killed
      \<or> proven_kill os pid boot autogroup tr n1 \<and> list_all quiet (butlast n1) \<and> (ra = Inr Killed \<or> (\<exists>e. ra = Inl e))"
    by (rule stop_attempt_trace [OF pid a])
  consider "ra = Inr Freeze" "list_all quiet n1" | "tr' = tr1" "fz = frozen" "r \<noteq> Inr True \<or> ra = Inr Killed"
    using Suc.prems a cases by (cases ra) (auto split: stop_outcome.splits)
  then show ?case
  proof cases
    case 2
    then show ?thesis
      using cases n1 stop_trace_quiet [of n1] stop_trace_kill [of os pid boot autogroup tr n1] by auto
  next
    case 1
    obtain rs x where s: "signal_process_group os pid SigStop tr1 = (rs, tr1 @ [Signalled (group_target os pid) SigStop x])"
      "rs = Inr True \<longleftrightarrow> x = None" by (rule signal_process_group_eq [OF pid])
    let ?tr2 = "tr1 @ [Signalled (group_target os pid) SigStop x]"
    have quiet1: "\<not> signals sig e" if "e \<in> set n1" "sig \<noteq> Probe" for sig e using signals_quiet [OF 1(2) that(2,1)] .
    then have none: "filter (signals SigStop) n1 = []" by (simp add: filter_empty_conv)
    have not_in: "Signalled t SigStop y \<notin> set n1" for t y using quiet1 [of "Signalled t SigStop y" SigStop] by (auto simp: signals_def)
    show ?thesis
    proof (cases "\<exists>b. rs = Inr b \<and> (b \<or> frozen)")
      case True
      with Suc.prems a 1(1) s have "stop_loop os pid boot autogroup n True (?tr2 @ [Waited]) = (r, fz, tr')"
        by (auto simp: settle_def split: if_splits)
      from Suc.IH [OF this] obtain n2 where n2: "tr' = (?tr2 @ [Waited]) @ n2"
        "stop_trace os pid boot autogroup n True (?tr2 @ [Waited]) fz n2 (r = Inr True)" by blast
      let ?new = "(n1 @ [Signalled (group_target os pid) SigStop x, Waited]) @ n2"
      have "fz" using n2(2) by (simp add: stop_trace_def)
      moreover have "frozen \<or> x = None" using True s(2) by auto
      moreover have "proven_kill os pid boot autogroup tr ?new" if "proven_kill os pid boot autogroup (?tr2 @ [Waited]) n2"
        by (rule proven_kill_later) (use that n1 in simp)
      moreover have "\<forall>e \<in> set (butlast ?new). \<not> signals SigKill e"
        using n2(2) quiet1 by (cases "n2 = []") (auto simp: stop_trace_def butlast_append signals_def)
      ultimately have "stop_trace os pid boot autogroup (Suc n) frozen tr fz ?new (r = Inr True)"
        using n2(2) 1(2) none quiet1 unfolding stop_trace_def
        by (auto simp: signals_def list_all_iff quiet_def)
      with n2(1) n1 show ?thesis by auto
    next
      case False
      let ?new = "n1 @ [Signalled (group_target os pid) SigStop x]"
      have "tr' = tr @ ?new" "r \<noteq> Inr True" "fz = frozen" "x \<noteq> None"
        using Suc.prems a 1(1) s n1 False by (cases rs; auto)+
      moreover have "stop_trace os pid boot autogroup (Suc n) frozen tr frozen ?new False"
        using 1(2) none quiet1 not_in \<open>x \<noteq> None\<close> unfolding stop_trace_def
        by (auto simp: signals_def list_all_iff)
      ultimately show ?thesis by auto
    qed
  qed
qed

definition stop_end :: "os \<Rightarrow> int \<Rightarrow> bool \<Rightarrow> bool \<Rightarrow> sys_trace \<Rightarrow> bool" where
  \<comment> \<open>What follows the attempts: a group that was stopped and not killed is continued.\<close>
  "stop_end os pid frozen killed after \<longleftrightarrow>
     after = [] \<and> (frozen \<longrightarrow> killed) \<or> frozen \<and> (\<exists>a. after = [Signalled (group_target os pid) SigCont a])"

lemma stop_program_group_trace:
  assumes "program_record_schema r" and "pr_token r = Some (boot, autogroup)"
    and "stop_program_group os (Some (Program r)) tr = (out, tr')"
  obtains kill after fz killed where "tr' = tr @ kill @ after"
    and "stop_trace os (pr_pid r) boot autogroup stop_attempts False tr fz kill killed"
    and "stop_end os (pr_pid r) fz killed after"
proof -
  have pid: "1 < pr_pid r" using assms(1) by (simp add: program_record_schema_def)
  let ?pid = "pr_pid r"
  obtain rl fz tr1 where loop: "stop_loop os ?pid boot autogroup stop_attempts False tr = (rl, fz, tr1)"
    by (metis prod_cases3)
  obtain kill where kill: "tr1 = tr @ kill"
    and trace: "stop_trace os ?pid boot autogroup stop_attempts False tr fz kill (rl = Inr True)"
    using stop_loop_trace [OF pid loop] by blast
  have run: "stop_proven_group os ?pid boot autogroup tr = (out, tr')"
    using assms(2,3) by (simp add: stop_program_group_def)
  show thesis
  proof (cases "fz \<and> rl \<noteq> Inr True")
    case True
    obtain rc a where "signal_process_group os ?pid SigCont tr1 = (rc, tr1 @ [Signalled (group_target os ?pid) SigCont a])"
      by (rule signal_process_group_eq [OF pid])
    with run loop True have "tr' = tr @ kill @ [Signalled (group_target os ?pid) SigCont a]"
      by (auto simp: stop_proven_group_def kill split: sum.splits)
    from this trace show thesis by (rule that) (use True in \<open>simp add: stop_end_def\<close>)
  next
    case False
    with run loop have "tr' = tr @ kill @ []" by (auto simp: stop_proven_group_def kill)
    from this trace show thesis by (rule that) (use False in \<open>auto simp: stop_end_def\<close>)
  qed
qed

lemma stop_trace_one_kill:
  assumes "stop_trace os pid boot autogroup n False tr fz kill killed"
  shows "length (filter (signals SigKill) kill) \<le> 1"
proof (cases kill rule: rev_cases)
  case (snoc xs x)
  then have "filter (signals SigKill) xs = []" using assms by (simp add: stop_trace_def filter_empty_conv)
  with snoc show ?thesis by simp
qed simp

lemma stop_end_conts:
  assumes "stop_end os pid fz killed after"
  shows "list_all (signals SigCont) after" and "\<not> signals SigKill e \<or> e \<notin> set after" and "filter (signals SigKill) after = []"
    and "filter (signals SigStop) after = []"
  using assms by (auto simp: stop_end_def signals_def)

lemma stop_end_kill:
  assumes "stop_trace os pid boot autogroup n False tr fz kill killed" and "stop_end os pid fz killed after"
    and "Signalled t SigKill a \<in> set (kill @ after)"
  shows "proven_kill os pid boot autogroup tr kill"
proof -
  have "\<exists>e \<in> set kill. signals SigKill e"
    using assms(2,3) by (force simp: stop_end_def signals_def)
  then show ?thesis using assms(1) by (simp add: stop_trace_def)
qed


section \<open>The freezes of gc\<close>

fun resumed :: "int \<Rightarrow> bool \<Rightarrow> sys_trace \<Rightarrow> bool" where
  \<comment> \<open>No process but the group of the target is signalled or killed, a stop comes only while the group runs,
     and a group that a SIGSTOP reached gets a SIGCONT before the end.\<close>
  "resumed target stopped [] \<longleftrightarrow> \<not> stopped"
| "resumed target stopped (e # es) \<longleftrightarrow>
     (case e of
        Signalled t sig a \<Rightarrow>
          (case sig of
             Probe \<Rightarrow> resumed target stopped es
           | SigKill \<Rightarrow> False
           | SigStop \<Rightarrow> t = target \<and> \<not> stopped \<and> resumed target (a = None) es
           | SigCont \<Rightarrow> t = target \<and> stopped \<and> resumed target False es)
      | _ \<Rightarrow> resumed target stopped es)"

definition resumes :: "os \<Rightarrow> int \<Rightarrow> nat \<Rightarrow> 'a io \<Rightarrow> bool" where
  "resumes os pid n m \<longleftrightarrow>
     (\<forall>tr. \<exists>new. snd (m tr) = tr @ new \<and> resumed (group_target os pid) False new \<and> length (filter (signals SigStop) new) \<le> n)"

lemma resumed_quiet: "list_all quiet new \<Longrightarrow> resumed t b (new @ es) \<longleftrightarrow> resumed t b es"
  by (induction new) (auto simp: quiet_def split: sys_event.splits sys_signal.splits)

lemma resumed_append: "resumed t b xs \<Longrightarrow> resumed t False ys \<Longrightarrow> resumed t b (xs @ ys)"
  by (induction t b xs rule: resumed.induct) (auto split: sys_event.splits sys_signal.splits)

lemma quiet_no_stop: "list_all quiet new \<Longrightarrow> filter (signals SigStop) new = []"
  by (auto simp: list_all_iff quiet_def signals_def filter_empty_conv split: sys_event.splits)

lemma resumes_reads: "reads_only m \<Longrightarrow> resumes os pid n m"
  using resumed_quiet [where es = "[]"] quiet_no_stop unfolding reads_only_def resumes_def
  by (metis append_Nil2 list.size(3) resumed.simps(1) zero_le)

lemma resumes_bind:
  assumes "resumes os pid n m" and "\<And>x. resumes os pid k (f x)"
  shows "resumes os pid (n + k) (bind_io m f)"
  unfolding resumes_def
proof
  fix tr
  obtain r tr1 where m: "m tr = (r, tr1)" by fastforce
  obtain new where new: "tr1 = tr @ new" "resumed (group_target os pid) False new" "length (filter (signals SigStop) new) \<le> n"
    using assms(1) m unfolding resumes_def by (metis snd_conv)
  show "\<exists>new. snd (bind_io m f tr) = tr @ new \<and> resumed (group_target os pid) False new
      \<and> length (filter (signals SigStop) new) \<le> n + k"
  proof (cases r)
    case (Inl e)
    with m new show ?thesis by (simp add: bind_io_def)
  next
    case (Inr x)
    obtain more where "snd (f x tr1) = tr1 @ more" "resumed (group_target os pid) False more"
        "length (filter (signals SigStop) more) \<le> k"
      using assms(2) [of x] unfolding resumes_def by blast
    with m new Inr show ?thesis by (intro exI [of _ "new @ more"]) (simp add: bind_io_def resumed_append)
  qed
qed

lemma resumes_probe: "reads_only (probe_finds_group os pid)"
  unfolding probe_finds_group_def by (intro reading)

lemma reads_only_live: "reads_only (group_has_live_process os pid)"
proof -
  have "reads_only (scan_group_from os pgid seen es)" for pgid seen es
    by (induction es arbitrary: seen) (auto intro!: reading split: option.splits)
  then have "reads_only (scan_group os pgid)" for pgid unfolding scan_group_def by (intro reading)
  moreover have "reads_only (proc_hides_other_users os)" unfolding proc_hides_other_users_def by (intro reading)
  ultimately show ?thesis unfolding group_has_live_process_def by (intro reading)
qed

lemma judge_after_stop_trace:
  assumes "1 < pid"
  obtains r new a where "judge_after_stop os pid boot autogroup tr = (r, tr @ new @ [Signalled (group_target os pid) SigCont a])"
    and "list_all quiet new"
proof -
  let ?m = "bind_io settle (\<lambda>_. judge_live_group os pid boot autogroup)"
  obtain r tr1 where m: "?m tr = (r, tr1)" by fastforce
  have ro: "reads_only ?m" by (intro reading)
  obtain new where new: "tr1 = tr @ new" "list_all quiet new" by (rule reads_only_append [OF ro m])
  obtain rc a where c: "signal_process_group os pid SigCont tr1 = (rc, tr1 @ [Signalled (group_target os pid) SigCont a])"
    by (rule signal_process_group_eq [OF assms])
  obtain r' where "judge_after_stop os pid boot autogroup tr = (r', tr @ new @ [Signalled (group_target os pid) SigCont a])"
    using m c new(1) by (cases rc) (auto simp: judge_after_stop_def)
  from this new(2) show thesis by (rule that)
qed

lemma resumes_frozen_turn:
  assumes pid: "1 < pid" and "\<And>j. resumes os pid n (f j)"
  shows "resumes os pid (Suc n) (bind_io (signal_process_group os pid SigStop) (\<lambda>reached.
           if \<not> reached then return_io (Some False) else bind_io (judge_after_stop os pid boot autogroup) f))"
  unfolding resumes_def
proof
  fix tr
  let ?g = "group_target os pid"
  obtain r a where stop: "signal_process_group os pid SigStop tr = (r, tr @ [Signalled ?g SigStop a])" "r = Inr True \<longleftrightarrow> a = None"
    by (rule signal_process_group_eq [OF pid])
  obtain j quiets c where judge: "judge_after_stop os pid boot autogroup (tr @ [Signalled ?g SigStop a])
      = (j, (tr @ [Signalled ?g SigStop a]) @ quiets @ [Signalled ?g SigCont c])" "list_all quiet quiets"
    by (rule judge_after_stop_trace [OF pid])
  let ?run = "bind_io (signal_process_group os pid SigStop) (\<lambda>reached.
           if \<not> reached then return_io (Some False) else bind_io (judge_after_stop os pid boot autogroup) f) tr"
  let ?goal = "\<lambda>new. snd ?run = tr @ new \<and> resumed ?g False new \<and> length (filter (signals SigStop) new) \<le> Suc n"
  let ?cycle = "Signalled ?g SigStop None # quiets @ [Signalled ?g SigCont c]"
  have cycle: "resumed ?g False ?cycle"
    using resumed_quiet [OF judge(2), of ?g True] by simp
  show "\<exists>new. ?goal new"
  proof (cases "r = Inr True")
    case False
    then have "?goal [Signalled ?g SigStop a]"
      using stop by (cases r) (auto simp: bind_io_def return_io_def signals_def)
    then show ?thesis ..
  next
    case reached: True
    show ?thesis
    proof (cases j)
      case (Inl e)
      then have "?goal ?cycle" using reached stop judge(1) cycle quiet_no_stop [OF judge(2)] by (simp add: bind_io_def signals_def)
      then show ?thesis ..
    next
      case (Inr v)
      obtain more where "snd (f v (tr @ ?cycle)) = (tr @ ?cycle) @ more" "resumed ?g False more"
          "length (filter (signals SigStop) more) \<le> n"
        using assms(2) [of v] unfolding resumes_def by blast
      then have "?goal (?cycle @ more)"
        using reached stop judge(1) Inr resumed_append [OF cycle] quiet_no_stop [OF judge(2)]
        by (simp add: bind_io_def signals_def)
      then show ?thesis ..
    qed
  qed
qed

lemma resumes_judge_frozen: "1 < pid \<Longrightarrow> resumes os pid n (judge_frozen_group os pid boot autogroup n)"
proof (induction n)
  case 0
  show ?case by (auto intro: resumes_reads reading)
next
  case (Suc n)
  have turn: "resumes os pid n (if j \<noteq> Gone then return_io (verdict_for_gc j) else judge_frozen_group os pid boot autogroup n)" for j
    using Suc by (auto intro: resumes_reads reading)
  note stop = resumes_frozen_turn [OF Suc.prems turn, of boot autogroup]
  have "resumes os pid (0 + Suc n) (judge_frozen_group os pid boot autogroup (Suc n))"
    unfolding judge_frozen_group.simps
    by (rule resumes_bind, rule resumes_reads, rule reading) (use stop in \<open>auto intro: resumes_reads reading\<close>)
  then show ?case by simp
qed

lemma resumes_judge_for_gc: "1 < pid \<Longrightarrow> resumes os pid (n * frozen_judgements) (judge_for_gc os pid boot autogroup n)"
proof (induction n)
  case 0
  show ?case by (auto intro: resumes_reads reading)
next
  case (Suc n)
  have live: "resumes os pid (0 + frozen_judgements) (bind_io (group_has_live_process os pid) (\<lambda>live. case live of
        None \<Rightarrow> return_io (Some True) | Some True \<Rightarrow> return_io None
      | Some False \<Rightarrow> judge_frozen_group os pid boot autogroup frozen_judgements))"
    by (rule resumes_bind [OF resumes_reads [OF reads_only_live]])
      (auto intro: resumes_reads reading resumes_judge_frozen [OF Suc.prems] split: option.splits bool.splits)
  have found: "resumes os pid (0 + (0 + frozen_judgements)) (bind_io (probe_finds_group os pid) (\<lambda>found.
      if \<not> found then return_io (Some False)
      else bind_io (group_has_live_process os pid) (\<lambda>live. case live of
        None \<Rightarrow> return_io (Some True) | Some True \<Rightarrow> return_io None
      | Some False \<Rightarrow> judge_frozen_group os pid boot autogroup frozen_judgements)))"
    by (rule resumes_bind [OF resumes_reads [OF resumes_probe]]) (use live in \<open>auto intro: resumes_reads reading\<close>)
  have "resumes os pid (0 + (0 + (0 + frozen_judgements))) (judge_group_for_gc os pid boot autogroup)"
    unfolding judge_group_for_gc_def
    by (rule resumes_bind [OF resumes_reads [OF reads_only_judge(6)]]) (use found in \<open>auto intro: resumes_reads reading\<close>)
  then have "resumes os pid (frozen_judgements + n * frozen_judgements) (judge_for_gc os pid boot autogroup (Suc n))"
    unfolding judge_for_gc.simps
    by (intro resumes_bind) (use Suc in \<open>auto intro: resumes_reads reading split: option.splits\<close>)
  then show ?case by simp
qed

text \<open>C37: gc ends no program and leaves none frozen. Whatever /proc and the signals answer and
  whichever call throws, the judgement of a group for gc sends no SIGKILL, signals only the group of
  the record, freezes it at most twenty times, and after every SIGSTOP that reached a process sends a
  SIGCONT before it stops the group again or ends.\<close>

theorem gc_resumes_group:
  assumes "case grp of Some (Program r) \<Rightarrow> program_record_schema r | _ \<Rightarrow> True"
    and "proven_program_group_runs os grp tr = (out, tr')"
  shows "\<exists>new. tr' = tr @ new \<and> length (filter (signals SigStop) new) \<le> 20
    \<and> (case grp of Some (Program r) \<Rightarrow> resumed (group_target os (pr_pid r)) False new | _ \<Rightarrow> new = [])"
proof (cases "\<exists>r boot autogroup. grp = Some (Program r) \<and> pr_token r = Some (boot, autogroup)")
  case True
  then obtain r boot autogroup where r: "grp = Some (Program r)" "pr_token r = Some (boot, autogroup)" by blast
  then have pid: "1 < pr_pid r" using assms(1) by (simp add: program_record_schema_def)
  have run: "snd (judge_for_gc os (pr_pid r) boot autogroup gc_judgements tr) = tr'"
    using assms(2) r by (simp add: proven_program_group_runs_def)
  show ?thesis
    using resumes_judge_for_gc [OF pid, of os gc_judgements boot autogroup, unfolded resumes_def, rule_format, of tr] r(1) run
    by (simp add: gc_judgements_def frozen_judgements_def) blast
next
  case False
  then have "tr' = tr"
    using assms(2) by (auto simp: proven_program_group_runs_def split: option.splits program_group.splits)
  then show ?thesis by (intro exI [of _ "[]"]) (auto split: option.splits program_group.splits)
qed

section \<open>The processes of the kernel\<close>

text \<open>
  What the documentation of the kernel says of process groups, sessions and autogroups, on the
  table of the processes by pid: \<open>fork\<close> copies the three ids to a pid that no process, group or
  session uses, \<open>setsid\<close> of a process that leads no group gives it a session and a group of its pid
  and the next autogroup, and \<open>setpgid\<close> moves a process that leads no session into a group of its
  session or of its own pid.
\<close>

record kproc =
  kp_pgid :: int
  kp_sid :: int
  kp_autogroup :: int

record kernel =
  k_procs :: "int \<Rightarrow> kproc option"
  k_next :: int

inductive kernel_step :: "kernel \<Rightarrow> kernel \<Rightarrow> bool" where
  fork: "k_procs k p = Some x \<Longrightarrow> k_procs k q = None \<Longrightarrow>
    (\<And>v y. k_procs k v = Some y \<Longrightarrow> kp_pgid y \<noteq> q \<and> kp_sid y \<noteq> q) \<Longrightarrow>
    kernel_step k (k\<lparr>k_procs := (k_procs k)(q \<mapsto> x)\<rparr>)"
| setsid: "k_procs k p = Some x \<Longrightarrow> (\<And>v y. k_procs k v = Some y \<Longrightarrow> kp_pgid y \<noteq> p) \<Longrightarrow>
    kernel_step k (k\<lparr>k_procs := (k_procs k)(p \<mapsto> \<lparr>kp_pgid = p, kp_sid = p, kp_autogroup = k_next k\<rparr>), k_next := k_next k + 1\<rparr>)"
| setpgid: "k_procs k p = Some x \<Longrightarrow> kp_sid x \<noteq> p \<Longrightarrow>
    g = p \<or> k_procs k v = Some y \<and> kp_pgid y = g \<and> kp_sid y = kp_sid x \<Longrightarrow>
    kernel_step k (k\<lparr>k_procs := (k_procs k)(p \<mapsto> x\<lparr>kp_pgid := g\<rparr>)\<rparr>)"
| ends: "kernel_step k (k\<lparr>k_procs := (k_procs k)(p := None)\<rparr>)"

definition kproc_ok :: "int \<Rightarrow> int \<Rightarrow> kproc \<Rightarrow> bool" where
  "kproc_ok n p x \<longleftrightarrow> kp_autogroup x < n \<and> (kp_sid x = p \<longrightarrow> kp_pgid x = p)"

definition procs_agree :: "int \<Rightarrow> kproc \<Rightarrow> kproc \<Rightarrow> bool" where
  \<comment> \<open>for the process of that pid and any process\<close>
  "procs_agree p x y \<longleftrightarrow>
     (kp_sid y = p \<longrightarrow> kp_sid x = p) \<and> (kp_pgid x = kp_sid y \<longrightarrow> kp_sid x = kp_sid y)
     \<and> (kp_sid x = kp_sid y \<longrightarrow> kp_autogroup x = kp_autogroup y)"

definition kernel_ok :: "kernel \<Rightarrow> bool" where
  "kernel_ok k \<longleftrightarrow>
     (\<forall>p x. k_procs k p = Some x \<longrightarrow> kproc_ok (k_next k) p x \<and> (\<forall>q y. k_procs k q = Some y \<longrightarrow> procs_agree p x y))"

definition session_of :: "int \<Rightarrow> int \<Rightarrow> kernel \<Rightarrow> bool" where
  \<comment> \<open>An autogroup was given to the session with that id, and to no other.\<close>
  "session_of autogroup sid k \<longleftrightarrow>
     autogroup < k_next k \<and> (\<forall>p x. k_procs k p = Some x \<longrightarrow> kp_autogroup x = autogroup \<longrightarrow> kp_sid x = sid)"

lemma kernel_ok_update:
  assumes "kernel_ok k" and "kproc_ok n p z" and "k_next k \<le> n"
    and "\<And>v y. k_procs k v = Some y \<Longrightarrow> v \<noteq> p \<Longrightarrow> procs_agree p z y \<and> procs_agree v y z" and "procs_agree p z z"
  shows "kernel_ok (k\<lparr>k_procs := (k_procs k)(p \<mapsto> z), k_next := n\<rparr>)"
proof -
  have "kproc_ok n v y" if "k_procs k v = Some y" for v y
    using assms(1,3) that by (fastforce simp: kernel_ok_def kproc_ok_def)
  moreover have "procs_agree v y w" if "k_procs k v = Some y" "k_procs k u = Some w" for v y u w
    using assms(1) that by (simp add: kernel_ok_def)
  ultimately show ?thesis using assms(2,4,5) by (simp add: kernel_ok_def)
qed

lemma kernel_okD:
  assumes "kernel_ok k" and "k_procs k p = Some x"
  shows "kproc_ok (k_next k) p x" and "k_procs k q = Some y \<Longrightarrow> procs_agree p x y"
  using assms by (simp_all add: kernel_ok_def)

lemma kernel_step_ok: "kernel_step k k' \<Longrightarrow> kernel_ok k \<Longrightarrow> kernel_ok k'"
proof (induction rule: kernel_step.induct)
  case (fork k p x q)
  note ok = kernel_okD [OF fork.prems]
  have q: "kp_sid x \<noteq> q" "kp_pgid x \<noteq> q" using fork.hyps(1,3) by auto
  have "kernel_ok (k\<lparr>k_procs := (k_procs k)(q \<mapsto> x), k_next := k_next k\<rparr>)"
  proof (rule kernel_ok_update [OF fork.prems])
    show "kproc_ok (k_next k) q x" using ok(1) [OF fork.hyps(1)] q by (simp add: kproc_ok_def)
    show "procs_agree q x x" using q by (simp add: procs_agree_def)
    fix v y assume y: "k_procs k v = Some y"
    from ok(2) [OF fork.hyps(1) y] ok(2) [OF y fork.hyps(1)] fork.hyps(3) [OF y]
    show "procs_agree q x y \<and> procs_agree v y x" unfolding procs_agree_def by blast
  qed simp
  then show ?case by simp
next
  case (setsid k p x)
  note ok = kernel_okD [OF setsid.prems]
  have free: "kp_sid y \<noteq> p" if y: "k_procs k v = Some y" for v y
  proof
    assume "kp_sid y = p"
    then have "kp_sid x = p" using ok(2) [OF setsid.hyps(1) y] by (simp add: procs_agree_def)
    then show False using ok(1) [OF setsid.hyps(1)] setsid.hyps(2) [OF setsid.hyps(1)] by (simp add: kproc_ok_def)
  qed
  show ?case
  proof (rule kernel_ok_update [OF setsid.prems])
    fix v y assume y: "k_procs k v = Some y" and "v \<noteq> p"
    with free [OF y] setsid.hyps(2) [OF y]
    show "procs_agree p \<lparr>kp_pgid = p, kp_sid = p, kp_autogroup = k_next k\<rparr> y
        \<and> procs_agree v y \<lparr>kp_pgid = p, kp_sid = p, kp_autogroup = k_next k\<rparr>" by (auto simp: procs_agree_def)
  qed (simp_all add: kproc_ok_def procs_agree_def)
next
  case (setpgid k p x g v y)
  note ok = kernel_okD [OF setpgid.prems]
  have sel: "kp_sid (x\<lparr>kp_pgid := g\<rparr>) = kp_sid x" "kp_pgid (x\<lparr>kp_pgid := g\<rparr>) = g"
    "kp_autogroup (x\<lparr>kp_pgid := g\<rparr>) = kp_autogroup x" by simp_all
  have free: "kp_sid z \<noteq> p" if "k_procs k u = Some z" for u z
    using ok(2) [OF setpgid.hyps(1) that] setpgid.hyps(2) by (auto simp: procs_agree_def)
  have own: "g = kp_sid z \<Longrightarrow> kp_sid x = kp_sid z" if z: "k_procs k u = Some z" for u z
  proof -
    assume g: "g = kp_sid z"
    with setpgid.hyps(3) free [OF z] have y: "k_procs k v = Some y" "kp_pgid y = kp_sid z" "kp_sid y = kp_sid x" by auto
    from ok(2) [OF y(1) z] y(2,3) show "kp_sid x = kp_sid z" by (simp add: procs_agree_def)
  qed
  have "kernel_ok (k\<lparr>k_procs := (k_procs k)(p \<mapsto> x\<lparr>kp_pgid := g\<rparr>), k_next := k_next k\<rparr>)"
  proof (rule kernel_ok_update [OF setpgid.prems])
    show "kproc_ok (k_next k) p (x\<lparr>kp_pgid := g\<rparr>)"
      using ok(1) [OF setpgid.hyps(1)] setpgid.hyps(2) by (simp add: kproc_ok_def)
    show "procs_agree p (x\<lparr>kp_pgid := g\<rparr>) (x\<lparr>kp_pgid := g\<rparr>)"
      by (simp add: procs_agree_def)
    fix u z assume z: "k_procs k u = Some z"
    from ok(2) [OF setpgid.hyps(1) z] ok(2) [OF z setpgid.hyps(1)] own [OF z]
    show "procs_agree p (x\<lparr>kp_pgid := g\<rparr>) z \<and> procs_agree u z (x\<lparr>kp_pgid := g\<rparr>)"
      unfolding procs_agree_def sel by blast
  qed simp
  then show ?case by simp
next
  case (ends k p)
  then show ?case by (auto simp: kernel_ok_def)
qed

lemma kernel_step_session: "kernel_step k k' \<Longrightarrow> session_of a sid k \<Longrightarrow> session_of a sid k'"
  by (induction rule: kernel_step.induct) (auto simp: session_of_def)

lemma kernel_steps_ok:
  "kernel_step\<^sup>*\<^sup>* k k' \<Longrightarrow> kernel_ok k \<Longrightarrow> kernel_ok k'"
  "kernel_step\<^sup>*\<^sup>* k k' \<Longrightarrow> session_of a sid k \<Longrightarrow> session_of a sid k'"
  by (induction rule: rtranclp_induct) (auto intro: kernel_step_ok kernel_step_session)

definition shows_kernel :: "os \<Rightarrow> (nat \<Rightarrow> kernel) \<Rightarrow> bool" where
  \<comment> \<open>A read of an autogroup tells the one of a process that has the pid at the time of the read.\<close>
  "shows_kernel os run \<longleftrightarrow>
     (\<forall>i. kernel_step\<^sup>*\<^sup>* (run i) (run (Suc i)))
     \<and> (\<forall>tr p t g. os_file os tr (AutogroupFile p) = Inr t \<longrightarrow> parse_autogroup t = Some g \<longrightarrow>
          (\<exists>x. k_procs (run (length tr)) p = Some x \<and> kp_autogroup x = g))"

lemma run_ok:
  assumes "\<forall>i. kernel_step\<^sup>*\<^sup>* (run i) (run (Suc i))" and "i \<le> j"
  shows "kernel_step\<^sup>*\<^sup>* (run i) (run j)"
  using assms(2) by (induction rule: dec_induct) (use assms(1) in \<open>auto intro: rtranclp_trans\<close>)


definition example_text :: jstring where
  "example_text = js ''100 (a) b) S 1 100 100 0 -1 0 0 0 0 0 0 0 0 0 20 0 1 0 42 0''"

definition example_stat :: proc_stat where
  "example_stat = \<lparr>ps_pid = 100, ps_state = js ''S'', ps_ppid = 1, ps_pgid = 100, ps_sid = 100, ps_start_ticks = js ''42''\<rparr>"

definition example_os :: os where
  "example_os =
     \<lparr>os_file = (\<lambda>_ f. case f of
          StatFile p \<Rightarrow> if p = 100 then Inr example_text else Inl (js ''ENOENT'')
        | AutogroupFile p \<Rightarrow> if p = 100 then Inr (js ''/autogroup-7 nice 0'') else Inl (js ''ENOENT'')
        | BootIdFile \<Rightarrow> Inr (js ''b1 '')
        | _ \<Rightarrow> Inl (js ''ENOENT'')),
      os_dir = (\<lambda>_ _. Inr [js ''100'', js ''self'']), os_link = (\<lambda>_ _. Inr (js ''50'')),
      os_kill = (\<lambda>_ _ _. None), os_exists = (\<lambda>_. True), os_now = (\<lambda>_. 0), os_platform = Linux, os_pid = 50\<rparr>"

definition example_program :: program_record where
  "example_program = \<lparr>pr_pid = 100, pr_token = Some (js ''b1'', 7)\<rparr>"

lemma example_parse: "parse_proc_stat example_text = Inr example_stat"
  by (simp add: parse_proc_stat_def js_eval starts_with_def js_integer_def trim_def is_js_space_def is_digit_def
      digits_value_def list_at_def all_digits_def Let_def example_text_def example_stat_def)

lemma example_autogroup: "parse_autogroup (js ''/autogroup-7 nice 0'') = Some 7"
  by (simp add: parse_autogroup_def js_eval starts_with_def is_digit_def digits_value_def all_digits_def Let_def)

lemma example_boot: "trim (js ''b1 '') = js ''b1''" "js ''b1'' \<noteq> []"
  by (simp_all add: js_eval trim_def is_js_space_def)

lemma example_digits: "all_digits (js ''100'')" "\<not> all_digits (js ''self'')" "digits_value (js ''100'') = 100"
  by (simp_all add: js_eval all_digits_def is_digit_def digits_value_def)

lemma example_alive: "\<not> is_dead_state (js ''S'')" "js ''S'' \<noteq> js ''Z''"
  by (simp_all add: js_eval is_dead_state_def)

lemmas example_io = bind_io_def catch_io_def return_io_def read_file_def read_dir_def of_answer_def lift_res_def Let_def
  example_os_def example_parse example_autogroup example_boot example_digits

lemma example_read:
  "read_shown_proc_stat example_os 100 tr = (Inr (Some example_stat), tr @ [FileRead (StatFile 100) (Inr example_text)])"
  "read_autogroup example_os (Some 100) tr = (Inr (Some 7), tr @ [FileRead (AutogroupFile 100) (Inr (js ''/autogroup-7 nice 0''))])"
  "read_boot_id example_os tr = (Inr (Some (js ''b1'')), tr @ [FileRead BootIdFile (Inr (js ''b1 ''))])"
  using example_alive(2)
  by (simp_all add: read_shown_proc_stat_def read_proc_stat_def read_proc_file_if_exists_def read_autogroup_def
      read_boot_id_def example_io) (simp_all add: example_stat_def)

definition example_row :: process_row where
  "example_row = \<lparr>row_pid = 100, row_pgid = 100, row_sid = 100, row_state = js ''S'', row_autogroup = Some 7\<rparr>"

lemma example_judge: "judge_program_group 100 (js ''b1'') 7 (Some (js ''b1'')) [example_row] = Owned 100"
  using example_alive(1) by (simp add: judge_program_group_def is_member_def example_row_def)

definition example_trace :: sys_trace where
  "example_trace =
     [FileRead BootIdFile (Inr (js ''b1 '')), DirRead ProcDir (Inr [js ''100'', js ''self'']),
      FileRead (StatFile 100) (Inr example_text), FileRead (AutogroupFile 100) (Inr (js ''/autogroup-7 nice 0'')),
      FileRead (StatFile 100) (Inr example_text), FileRead (AutogroupFile 100) (Inr (js ''/autogroup-7 nice 0'')),
      Signalled (-100) SigKill None]"

lemma example_platform: "os_platform example_os = Linux" and example_kill: "os_kill example_os tr t s = None"
  by (simp_all add: example_os_def)

lemma example_to_row: "to_process_row example_os example_stat tr
    = (Inr example_row, tr @ [FileRead (AutogroupFile 100) (Inr (js ''/autogroup-7 nice 0''))])"
  by (simp add: to_process_row_def bind_io_def example_stat_def return_io_def example_row_def example_read(2))

lemma example_judged: "judge_live_group example_os 100 (js ''b1'') 7 [] = (Inr (Owned 100), take 4 example_trace)"
proof -
  have "read_group_members example_os 100 tr = (Inr [example_row], tr @ [DirRead ProcDir (Inr [js ''100'', js ''self'']),
      FileRead (StatFile 100) (Inr example_text), FileRead (AutogroupFile 100) (Inr (js ''/autogroup-7 nice 0''))])" for tr
    by (simp add: read_group_members_def bind_io_def catch_io_def read_dir_def of_answer_def Let_def example_digits
        example_read example_to_row return_io_def example_os_def [THEN arg_cong, of os_dir]) (simp add: example_stat_def)
  then show ?thesis
    by (simp add: judge_live_group_def bind_io_def example_read example_judge return_io_def example_trace_def Let_def)
qed

lemma example_run: "stop_program_group example_os (Some (Program example_program)) [] = (Inr (), example_trace)"
proof -
  have "witness_holds example_os 100 (js ''b1'') 7 100 tr = (Inr True,
      tr @ [FileRead (StatFile 100) (Inr example_text), FileRead (AutogroupFile 100) (Inr (js ''/autogroup-7 nice 0''))])" for tr
    by (simp add: witness_holds_def read_process_row_def bind_io_def example_read example_to_row example_judge return_io_def)
  then have "stop_attempt example_os 100 (js ''b1'') 7 False [] = (Inr Killed, example_trace)" using example_judged example_kill
    by (simp add: stop_attempt_def bind_io_def return_io_def kill_process_group_best_effort_def catch_io_def signal_target_eq
        group_target_def example_trace_def example_platform process_kill_def)
  then have "stop_loop example_os 100 (js ''b1'') 7 stop_attempts False [] = (Inr True, False, example_trace)"
    by (simp add: stop_attempts_def eval_nat_numeral)
  then show ?thesis
    by (simp add: stop_program_group_def example_program_def stop_proven_group_def)
qed

lemma example_record: "program_record_schema example_program" "pr_token example_program = Some (js ''b1'', 7)"
    "pr_pid example_program = 100"
  using example_boot by (simp_all add: program_record_schema_def example_program_def)


theorem gc_resumes_group_witness:
  "proven_program_group_runs example_os (Some (Program example_program)) [] = (Inr True, take 4 example_trace)
   \<and> resumed (-100) False (take 4 example_trace)"
proof -
  have "proven_program_group_runs example_os (Some (Program example_program)) [] = (Inr True, take 4 example_trace)"
    using example_judged
    by (simp add: proven_program_group_runs_def example_record gc_judgements_def eval_nat_numeral judge_group_for_gc_def
        bind_io_def return_io_def verdict_for_gc_def)
  with gc_resumes_group [OF _ this] show ?thesis
    by (simp add: example_record group_target_def example_platform)
qed

definition example_kernel :: kernel where
  "example_kernel = \<lparr>k_procs = [100 \<mapsto> \<lparr>kp_pgid = 100, kp_sid = 100, kp_autogroup = 7\<rparr>], k_next = 8\<rparr>"

lemma example_shows_kernel: "shows_kernel example_os (\<lambda>_. example_kernel)"
proof -
  have "p = 100 \<and> g = 7" if "os_file example_os tr (AutogroupFile p) = Inr t" "parse_autogroup t = Some g" for tr p t g
    using that example_autogroup by (auto simp: example_os_def split: if_splits)
  then show ?thesis by (fastforce simp: shows_kernel_def example_kernel_def)
qed


end
