(* ===== verification/HostRecord.thy ===== *)
theory HostRecord
  imports ProgramGroup
begin

text \<open>
  The record that identifies the process of a host, and the judgement whether that process still
  runs: its pid names the same process only in the same pid namespace of the same machine, with the
  same start time on the same boot.
\<close>

section \<open>The record\<close>

record host_record =
  hr_pid :: int
  hr_boot_id :: jstring
  hr_start_ticks :: jstring
  hr_pid_namespace :: jstring
  hr_time_namespace :: "jstring option option"   \<comment> \<open>absent, or null, or a namespace\<close>
  hr_machine_id :: "jstring option option"

datatype host_verdict = HostAlive | HostDead | HostUnknown

definition nonempty_text :: "jstring option option \<Rightarrow> bool" where
  "nonempty_text v \<longleftrightarrow> v \<noteq> Some (Some [])"

definition host_record_schema :: "host_record \<Rightarrow> bool" where
  "host_record_schema r \<longleftrightarrow>
     0 < hr_pid r \<and> hr_boot_id r \<noteq> [] \<and> all_digits (hr_start_ticks r) \<and> hr_pid_namespace r \<noteq> []
     \<and> nonempty_text (hr_time_namespace r) \<and> nonempty_text (hr_machine_id r)"

section \<open>Reads\<close>

definition read_time_namespace :: "os \<Rightarrow> int \<Rightarrow> jstring option io" where
  "read_time_namespace os pid =
     catch_io (bind_io (read_link os (TimeNamespace pid)) (\<lambda>t. return_io (Some t))) (\<lambda>_. return_io None)"

definition is_machine_id :: "jstring \<Rightarrow> bool" where
  "is_machine_id s \<longleftrightarrow> length s = 32 \<and> list_all (\<lambda>c. is_digit c \<or> 97 \<le> c \<and> c \<le> 102) s"

fun first_machine_id :: "os \<Rightarrow> bool list \<Rightarrow> jstring option io" where
  "first_machine_id os [] = return_io None"
| "first_machine_id os (f # fs) =
     bind_io (catch_io (bind_io (read_file os (MachineIdFile f)) (\<lambda>t. return_io (trim t))) (\<lambda>_. return_io [])) (\<lambda>machineId.
       if is_machine_id machineId then return_io (Some machineId) else first_machine_id os fs)"

definition read_machine_id :: "os \<Rightarrow> jstring option io" where
  "read_machine_id os = first_machine_id os [True, False]"

definition capture_host :: "os \<Rightarrow> int \<Rightarrow> host_record option io" where
  "capture_host os pid =
     (if os_platform os \<noteq> Linux then return_io None
      else catch_io
        (bind_io (read_proc_stat os pid) (\<lambda>st.
         bind_io (read_boot_id os) (\<lambda>bootId.
         bind_io (read_link os (PidNamespace pid)) (\<lambda>pidNamespace.
           case (st, bootId) of
             (Some s, Some b) \<Rightarrow>
               bind_io (read_time_namespace os pid) (\<lambda>timeNamespace.
               bind_io (read_machine_id os) (\<lambda>machineId.
                 return_io (Some \<lparr>hr_pid = pid, hr_boot_id = b, hr_start_ticks = ps_start_ticks s,
                   hr_pid_namespace = pidNamespace, hr_time_namespace = Some timeNamespace, hr_machine_id = Some machineId\<rparr>)))
           | _ \<Rightarrow> return_io None))))
        (\<lambda>_. return_io None))"

definition in_pid_namespace :: "os \<Rightarrow> jstring \<Rightarrow> bool io" where
  "in_pid_namespace os pidNamespace =
     catch_io (bind_io (read_link os OwnPidNamespace) (\<lambda>ns.
                 if ns \<noteq> pidNamespace then return_io False
                 else bind_io (read_link os OwnPid) (\<lambda>t. return_io (t = int_digits (os_pid os)))))
       (\<lambda>_. return_io False)"

definition in_time_namespace :: "os \<Rightarrow> jstring option option \<Rightarrow> bool io" where
  "in_time_namespace os timeNamespace =
     (case timeNamespace of
        None \<Rightarrow> return_io True
      | Some ns \<Rightarrow>
          catch_io (bind_io (read_link os OwnTimeNamespace) (\<lambda>t. return_io (Some t = ns)))
            (\<lambda>e. return_io (has_error_code e ''ENOENT'' \<and> ns = None)))"

definition in_host_pid_space :: "os \<Rightarrow> host_record \<Rightarrow> bool io" where
  "in_host_pid_space os r =
     bind_io (in_pid_namespace os (hr_pid_namespace r)) (\<lambda>same.
       if \<not> same then return_io False
       else case hr_machine_id r of
              None \<Rightarrow> return_io True
            | Some machineId \<Rightarrow> bind_io (read_machine_id os) (\<lambda>own. return_io (own = machineId)))"

definition shares_host_pids :: "os \<Rightarrow> host_record option \<Rightarrow> bool \<Rightarrow> bool io" where
  \<comment> \<open>for the record as \<open>readHostRecord\<close> gives it\<close>
  "shares_host_pids os record sharedWithoutRecord =
     (if os_platform os \<noteq> Linux then return_io True
      else case record of None \<Rightarrow> return_io sharedWithoutRecord | Some r \<Rightarrow> in_host_pid_space os r)"

definition pid_exists :: "os \<Rightarrow> int \<Rightarrow> bool io" where
  "pid_exists os pid =
     catch_io (bind_io (process_kill os pid Probe) (\<lambda>_. return_io True))
       (\<lambda>e. if has_error_code e ''ESRCH'' then return_io False
            else if has_error_code e ''EPERM'' then return_io True else throw_io e)"

section \<open>The judgement\<close>

definition judge_by_record ::
  "os \<Rightarrow> int \<Rightarrow> host_record option \<Rightarrow> proc_stat \<Rightarrow> jstring option \<Rightarrow> host_verdict io" where
  "judge_by_record os pid record st bootId =
     (if is_dead_state (ps_state st) then return_io HostDead
      else case (record, bootId) of
        (Some r, Some b) \<Rightarrow>
          if hr_pid r \<noteq> pid then return_io HostUnknown
          else bind_io (in_time_namespace os (hr_time_namespace r)) (\<lambda>same.
            return_io (if \<not> same then HostUnknown
              else if hr_boot_id r = b \<and> hr_start_ticks r = ps_start_ticks st then HostAlive else HostDead))
      | _ \<Rightarrow> return_io HostUnknown)"

definition read_host_stat :: "os \<Rightarrow> int \<Rightarrow> (proc_stat option \<times> jstring option) option io" where
  "read_host_stat os pid =
     catch_io (bind_io (read_proc_stat os pid) (\<lambda>st.
               bind_io (read_boot_id os) (\<lambda>bootId. return_io (Some (st, bootId)))))
       (\<lambda>_. return_io None)"

definition judge_shown :: "os \<Rightarrow> int \<Rightarrow> host_record option \<Rightarrow> host_verdict io" where
  \<comment> \<open>from the first read of \<open>/proc/PID/stat\<close> on\<close>
  "judge_shown os pid record =
     bind_io (read_host_stat os pid) (\<lambda>r. case r of
         None \<Rightarrow> return_io HostUnknown
       | Some (None, _) \<Rightarrow> bind_io (pid_exists os pid) (\<lambda>still. return_io (if still then HostUnknown else HostDead))
       | Some (Some st, bootId) \<Rightarrow> judge_by_record os pid record st bootId)"

definition judge_in_pid_space :: "os \<Rightarrow> int \<Rightarrow> host_record option \<Rightarrow> host_verdict io" where
  "judge_in_pid_space os pid record =
     bind_io (pid_exists os pid) (\<lambda>there.
       if \<not> there then return_io HostDead
       else if os_platform os \<noteq> Linux then return_io HostUnknown
       else judge_shown os pid record)"

definition judge_host :: "os \<Rightarrow> int \<Rightarrow> host_record option \<Rightarrow> host_verdict io" where
  "judge_host os pid record =
     bind_io (case record of
                None \<Rightarrow> return_io True
              | Some r \<Rightarrow> if os_platform os = Linux then in_host_pid_space os r else return_io True) (\<lambda>shared.
       if shared then judge_in_pid_space os pid record else return_io HostUnknown)"

section \<open>What a verdict tells\<close>

record process_entry =
  pe_process :: nat          \<comment> \<open>which process it is, over all boots\<close>
  pe_ticks :: jstring        \<comment> \<open>its start time\<close>

definition shows_processes :: "os \<Rightarrow> jstring \<Rightarrow> (nat \<Rightarrow> int \<Rightarrow> process_entry option) \<Rightarrow> (process_entry \<Rightarrow> jstring) \<Rightarrow> bool" where
  \<comment> \<open>The calls show the processes at their times, each with its start time as \<open>shown\<close> in the time namespace of the reader.\<close>
  "shows_processes os boot procs shown \<longleftrightarrow>
     (\<forall>tr p t st. os_file os tr (StatFile p) = Inr t \<longrightarrow> parse_proc_stat t = Inr st \<longrightarrow>
        (\<exists>e. procs (length tr) p = Some e \<and> ps_start_ticks st = shown e))
     \<and> (\<forall>tr p c. os_file os tr (StatFile p) = Inl c \<longrightarrow> c \<in> {js ''ENOENT'', js ''ESRCH''} \<longrightarrow> procs (length tr) p = None)
     \<and> (\<forall>tr t. os_file os tr BootIdFile = Inr t \<longrightarrow> trim t = boot)
     \<and> (\<forall>tr p. os_kill os tr p Probe = Some (js ''ESRCH'') \<longrightarrow> procs (length tr) p = None)"

definition process_ended :: "os \<Rightarrow> (nat \<Rightarrow> int \<Rightarrow> process_entry option) \<Rightarrow> int \<Rightarrow> nat \<Rightarrow> nat \<Rightarrow> nat \<Rightarrow> bool" where
  \<comment> \<open>At a time in between, the pid is free or another process's, or \<open>/proc\<close> shows the process as a zombie.\<close>
  "process_ended os procs pid h i j \<longleftrightarrow>
     (\<exists>k. i \<le> k \<and> k < j \<and> (\<forall>e. procs k pid = Some e \<longrightarrow> pe_process e \<noteq> h))
     \<or> (\<exists>tr st tr'. i \<le> length tr \<and> length tr' \<le> j \<and> read_proc_stat os pid tr = (Inr (Some st), tr') \<and> is_dead_state (ps_state st))"

lemma read_proc_stat_Some:
  assumes "read_proc_stat os p tr = (Inr (Some st), tr')"
  obtains t st0 where "os_file os tr (StatFile p) = Inr t" and "parse_proc_stat t = Inr st0"
    and "ps_start_ticks st0 = ps_start_ticks st" and "length tr < length tr'"
proof -
  have "read_shown_proc_stat os p tr = (Inr (Some st), tr')" using assms by (simp add: read_shown_proc_stat_def catch_io_def)
  then obtain t st0 more where t: "os_file os tr (StatFile p) = Inr t" "parse_proc_stat t = Inr st0"
      "st = st0\<lparr>ps_state := ps_state st\<rparr>" "tr' = (tr @ [FileRead (StatFile p) (Inr t)]) @ more"
    by (rule read_shown_proc_stat_Some)
  have "ps_start_ticks st0 = ps_start_ticks st" by (subst t(3), simp)
  with t that show thesis by simp
qed

lemma read_proc_stat_None:
  assumes "read_proc_stat os p tr = (Inr None, tr')"
  shows "\<exists>c. os_file os tr (StatFile p) = Inl c \<and> c \<in> {js ''ENOENT'', js ''ESRCH''}" and "length tr < length tr'"
proof -
  have none: "read_proc_file_if_exists os (StatFile p) tr = (Inr None, tr')"
    using assms by (auto simp: read_proc_stat_def bind_io_Inr split: option.splits)
  obtain c where c: "os_file os tr (StatFile p) = Inl c"
    using none by (cases "os_file os tr (StatFile p)") (simp_all add: read_proc_file_if_exists_def catch_io_def bind_io_def
        read_file_def of_answer_def Let_def return_io_def)
  have "has_error_code (Errno c) ''ENOENT'' \<or> has_error_code (Errno c) ''ESRCH''" "tr' = tr @ [FileRead (StatFile p) (Inl c)]"
    using none c by (simp_all add: read_proc_file_if_exists_def catch_io_def bind_io_def read_file_def of_answer_def Let_def
        return_io_def throw_io_def split: if_splits)
  with c show "\<exists>c. os_file os tr (StatFile p) = Inl c \<and> c \<in> {js ''ENOENT'', js ''ESRCH''}" "length tr < length tr'"
    by (auto simp: has_error_code_def)
qed

lemma pid_exists_False:
  assumes "pid_exists os p tr = (Inr False, tr')"
  shows "os_kill os tr p Probe = Some (js ''ESRCH'')" and "length tr < length tr'"
proof -
  obtain c where c: "os_kill os tr p Probe = Some c"
    using assms by (cases "os_kill os tr p Probe") (simp_all add: pid_exists_def catch_io_def bind_io_def process_kill_def Let_def
        return_io_def)
  have "has_error_code (Errno c) ''ESRCH''" "tr' = tr @ [Signalled p Probe (Some c)]"
    using assms c by (simp_all add: pid_exists_def catch_io_def bind_io_def process_kill_def Let_def return_io_def throw_io_def
        split: if_splits)
  with c show "os_kill os tr p Probe = Some (js ''ESRCH'')" "length tr < length tr'" by (auto simp: has_error_code_def)
qed

lemma reads_only_host [reading]:
  "reads_only (pid_exists os p)" "reads_only (read_machine_id os)" "reads_only (in_pid_namespace os ns)"
  "reads_only (in_time_namespace os tn)" "reads_only (in_host_pid_space os r)"
proof -
  have probe: "reads_only (process_kill os p Probe)" for p
    by (simp add: reads_only_def process_kill_def Let_def quiet_def)
  show "reads_only (pid_exists os p)" unfolding pid_exists_def by (intro reading probe)
  have "reads_only (first_machine_id os fs)" for fs by (induction fs) (auto intro!: reading)
  then show machine: "reads_only (read_machine_id os)" unfolding read_machine_id_def by blast
  show ns: "reads_only (in_pid_namespace os ns)" for ns unfolding in_pid_namespace_def by (intro reading)
  show "reads_only (in_time_namespace os tn)" unfolding in_time_namespace_def by (intro reading)
  show "reads_only (in_host_pid_space os r)" unfolding in_host_pid_space_def by (intro reading ns machine)
qed

lemma reads_only_length: "reads_only m \<Longrightarrow> m tr = (r, tr1) \<Longrightarrow> length tr \<le> length tr1"
  by (metis length_append le_add1 reads_only_append)

text \<open>What a captured record says of the process.\<close>

lemma capture_host_Some:
  assumes "capture_host os pid tr = (Inr (Some r), tr')" and "shows_processes os boot procs pe_ticks"
  shows "hr_pid r = pid" and "hr_boot_id r = boot" and "\<exists>e. procs (length tr) pid = Some e \<and> hr_start_ticks r = pe_ticks e"
proof -
  obtain so tr1 bo tr2 ns tr3 where st: "read_proc_stat os pid tr = (Inr so, tr1)" "read_boot_id os tr1 = (Inr bo, tr2)"
    and rest: "(case (so, bo) of
             (Some s, Some b) \<Rightarrow>
               bind_io (read_time_namespace os pid) (\<lambda>timeNamespace.
               bind_io (read_machine_id os) (\<lambda>machineId.
                 return_io (Some \<lparr>hr_pid = pid, hr_boot_id = b, hr_start_ticks = ps_start_ticks s,
                   hr_pid_namespace = ns, hr_time_namespace = Some timeNamespace, hr_machine_id = Some machineId\<rparr>)))
           | _ \<Rightarrow> return_io None) tr3 = (Inr (Some r), tr')"
    using assms(1) by (auto simp only: capture_host_def catch_io_Inr bind_io_Inr return_io_eq sum.inject option.simps split: if_splits)
  obtain s b where sb: "so = Some s" "bo = Some b" "hr_pid r = pid" "hr_boot_id r = b" "hr_start_ticks r = ps_start_ticks s"
    using rest by (cases so; cases bo) (auto simp: bind_io_Inr)
  show "hr_pid r = pid" by (rule sb(3))
  obtain t where "trim t = b" "os_file os tr1 BootIdFile = Inr t"
    using st(2) sb(2) by (auto elim: read_boot_id_Some)
  with sb(4) assms(2) show "hr_boot_id r = boot" by (auto simp: shows_processes_def)
  obtain t st0 where "os_file os tr (StatFile pid) = Inr t" "parse_proc_stat t = Inr st0" "ps_start_ticks st0 = ps_start_ticks s"
    by (rule read_proc_stat_Some [OF st(1) [unfolded sb(1)]])
  with assms(2) sb(5) show "\<exists>e. procs (length tr) pid = Some e \<and> hr_start_ticks r = pe_ticks e"
    unfolding shows_processes_def by metis
qed

definition verdict_sound ::
  "os \<Rightarrow> (nat \<Rightarrow> int \<Rightarrow> process_entry option) \<Rightarrow> int \<Rightarrow> nat \<Rightarrow> nat \<Rightarrow> nat \<Rightarrow> host_verdict \<Rightarrow> bool" where
  "verdict_sound os procs pid h i j v \<longleftrightarrow>
     (v = HostAlive \<longrightarrow> (\<exists>k e. i \<le> k \<and> k < j \<and> procs k pid = Some e \<and> pe_process e = h))
     \<and> (v = HostDead \<longrightarrow> process_ended os procs pid h i j)"

definition judge_setting ::
  "os \<Rightarrow> jstring \<Rightarrow> (nat \<Rightarrow> int \<Rightarrow> process_entry option) \<Rightarrow> (process_entry \<Rightarrow> jstring) \<Rightarrow> host_record \<Rightarrow> int \<Rightarrow> nat \<Rightarrow> bool" where
  \<comment> \<open>The record names the process \<open>h\<close>, and the reader is shown its start time in the time namespace of the record.\<close>
  "judge_setting os boot procs shown r pid h \<longleftrightarrow>
     shows_processes os boot procs shown \<and> hr_pid r = pid
     \<and> (\<forall>t t'. in_time_namespace os (hr_time_namespace r) t = (Inr True, t') \<longrightarrow> shown = pe_ticks)
     \<and> (\<forall>i e. procs i pid = Some e \<longrightarrow> (pe_process e = h \<longleftrightarrow> boot = hr_boot_id r \<and> pe_ticks e = hr_start_ticks r))"

lemma verdict_sound_later: "verdict_sound os procs pid h i j v \<Longrightarrow> i' \<le> i \<Longrightarrow> verdict_sound os procs pid h i' j v"
  unfolding verdict_sound_def process_ended_def by (blast intro: order_trans)

lemma verdict_sound_free:
  "procs k pid = None \<Longrightarrow> i \<le> k \<Longrightarrow> k < j \<Longrightarrow> verdict_sound os procs pid h i j HostDead"
  unfolding verdict_sound_def process_ended_def by auto

lemma verdict_sound_unknown [simp]: "verdict_sound os procs pid h i j HostUnknown"
  by (simp add: verdict_sound_def)

lemma pid_exists_sound:
  assumes "judge_setting os boot procs shown r pid h" and "pid_exists os pid tr = (Inr False, tr')" and "length tr' \<le> j"
  shows "verdict_sound os procs pid h (length tr) j HostDead"
proof (rule verdict_sound_free)
  show "procs (length tr) pid = None"
    using assms(1) pid_exists_False(1) [OF assms(2)] by (auto simp: judge_setting_def shows_processes_def)
  show "length tr < j" using pid_exists_False(2) [OF assms(2)] assms(3) by simp
qed simp

lemma reads_only_record: "reads_only (judge_by_record os pid record st b)"
  unfolding judge_by_record_def by (auto intro!: reading split: option.splits)

lemma judge_by_record_sound:
  assumes setting: "judge_setting os boot procs shown r pid h"
    and stat: "read_proc_stat os pid tr = (Inr (Some st), tr1)" "read_boot_id os tr1 = (Inr b, tr2)"
    and judged: "judge_by_record os pid (Some r) st b tr2 = (Inr v, tr')"
  shows "verdict_sound os procs pid h (length tr) (length tr') v"
proof -
  obtain t st0 where t: "os_file os tr (StatFile pid) = Inr t" "parse_proc_stat t = Inr st0"
      "ps_start_ticks st0 = ps_start_ticks st" "length tr < length tr1"
    by (rule read_proc_stat_Some [OF stat(1)])
  have le: "length tr1 \<le> length tr2" "length tr2 \<le> length tr'"
    by (rule reads_only_length [OF reads_only_stat(7) stat(2)], rule reads_only_length [OF reads_only_record judged])
  show ?thesis
  proof (cases "is_dead_state (ps_state st)")
    case True
    with stat(1) le have "process_ended os procs pid h (length tr) (length tr')"
      unfolding process_ended_def by (intro disjI2 exI [of _ tr] exI [of _ st] exI [of _ tr1]) auto
    with True judged show ?thesis by (simp add: judge_by_record_def verdict_sound_def)
  next
    case False
    obtain e where e: "procs (length tr) pid = Some e" "ps_start_ticks st = shown e"
      using setting t unfolding judge_setting_def shows_processes_def by metis
    have same: "pe_process e = h \<longleftrightarrow> boot = hr_boot_id r \<and> pe_ticks e = hr_start_ticks r"
      using setting e(1) by (simp add: judge_setting_def)
    have "v = HostUnknown \<or> shown = pe_ticks
        \<and> v = (if hr_boot_id r = boot \<and> hr_start_ticks r = ps_start_ticks st then HostAlive else HostDead)"
    proof (cases b)
      case (Some b')
      then obtain w where "os_file os tr1 BootIdFile = Inr w" "trim w = b'" using stat(2) by (auto elim: read_boot_id_Some)
      then have "b' = boot" using setting by (auto simp: judge_setting_def shows_processes_def)
      with judged Some False setting show ?thesis by (auto simp: judge_by_record_def judge_setting_def bind_io_Inr split: if_splits)
    qed (use judged False in \<open>simp add: judge_by_record_def\<close>)
    moreover have "length tr < length tr'" using le t(4) by simp
    ultimately show ?thesis using same e by (auto simp: verdict_sound_def process_ended_def split: if_splits)
  qed
qed

lemma judge_shown_sound:
  assumes setting: "judge_setting os boot procs shown r pid h" and judged: "judge_shown os pid (Some r) tr = (Inr v, tr')"
  shows "verdict_sound os procs pid h (length tr) (length tr') v"
proof -
  obtain q tr1 where q: "read_host_stat os pid tr = (Inr q, tr1)"
    and rest: "(case q of
         None \<Rightarrow> return_io HostUnknown
       | Some (None, _) \<Rightarrow> bind_io (pid_exists os pid) (\<lambda>still. return_io (if still then HostUnknown else HostDead))
       | Some (Some st, bootId) \<Rightarrow> judge_by_record os pid (Some r) st bootId) tr1 = (Inr v, tr')"
    using judged unfolding judge_shown_def bind_io_Inr by blast
  have ro: "reads_only (read_host_stat os pid)" unfolding read_host_stat_def by (intro reading)
  note le = reads_only_length [OF ro q]
  consider "q = None" | b where "q = Some (None, b)" | st b where "q = Some (Some st, b)" by (metis option.exhaust surj_pair)
  then show ?thesis
  proof cases
    case 1
    with rest show ?thesis by simp
  next
    case 2
    with rest obtain still where "pid_exists os pid tr1 = (Inr still, tr')" "v = (if still then HostUnknown else HostDead)"
      by (auto simp: bind_io_Inr)
    then show ?thesis using pid_exists_sound [OF setting] verdict_sound_later [OF _ le] by (cases still) auto
  next
    case 3
    then obtain trA where "read_proc_stat os pid tr = (Inr (Some st), trA)" "read_boot_id os trA = (Inr b, tr1)"
      using q by (auto simp: read_host_stat_def catch_io_Inr bind_io_Inr)
    then show ?thesis using judge_by_record_sound [OF setting] rest 3 by simp
  qed
qed

lemma judge_in_pid_space_sound:
  assumes setting: "judge_setting os boot procs shown r pid h" and judged: "judge_in_pid_space os pid (Some r) tr = (Inr v, tr')"
  shows "verdict_sound os procs pid h (length tr) (length tr') v"
proof -
  obtain there tr1 where there: "pid_exists os pid tr = (Inr there, tr1)"
    and rest: "(if \<not> there then return_io HostDead
       else if os_platform os \<noteq> Linux then return_io HostUnknown else judge_shown os pid (Some r)) tr1 = (Inr v, tr')"
    using judged unfolding judge_in_pid_space_def bind_io_Inr by blast
  note le = reads_only_length [OF reads_only_host(1) there]
  show ?thesis
  proof (cases there)
    case True
    then have "v = HostUnknown \<or> judge_shown os pid (Some r) tr1 = (Inr v, tr')" using rest by (simp split: if_splits)
    then show ?thesis using verdict_sound_later [OF judge_shown_sound [OF setting] le] by auto
  next
    case False
    then show ?thesis using rest there pid_exists_sound [OF setting] by simp
  qed
qed

text \<open>C38: A verdict on a host is right. Let the host have captured its own record, and let another
  process on that machine and in that pid space judge it later, on the same boot or a later one,
  while processes come and go between its calls. Where the kernel never gives one pid twice in one
  clock tick of one boot, and shows the start times unchanged to a reader in the time namespace of
  the record, then \<open>alive\<close> means that the host ran at a moment of the judgement, and \<open>dead\<close> that at such
  a moment its pid was free or another process's, or its process a zombie.\<close>

theorem judge_host_sound:
  assumes "os_platform os = Linux"
    and capture: "capture_host hos pid htr = (Inr (Some r), htr')" "shows_processes hos boot0 hprocs pe_ticks"
      "hprocs (length htr) pid = Some \<lparr>pe_process = h, pe_ticks = ticks\<rparr>"
    and judge: "judge_host os pid (Some r) tr = (Inr v, tr')" and shows_all: "shows_processes os boot procs shown"
    and time: "\<forall>t t'. in_time_namespace os (hr_time_namespace r) t = (Inr True, t') \<longrightarrow> shown = pe_ticks"
    and identity: "\<forall>i e. procs i pid = Some e \<longrightarrow> (pe_process e = h \<longleftrightarrow> boot = boot0 \<and> pe_ticks e = ticks)"
  shows "(v = HostAlive \<longrightarrow>
            (\<exists>k e. length tr \<le> k \<and> k < length tr' \<and> procs k pid = Some e \<and> pe_process e = h))
       \<and> (v = HostDead \<longrightarrow> process_ended os procs pid h (length tr) (length tr'))"
proof -
  have setting: "judge_setting os boot procs shown r pid h"
    using capture_host_Some [OF capture(1,2)] capture(3) shows_all time identity by (auto simp: judge_setting_def)
  obtain shared tr1 where shared: "in_host_pid_space os r tr = (Inr shared, tr1)"
    and rest: "(if shared then judge_in_pid_space os pid (Some r) else return_io HostUnknown) tr1 = (Inr v, tr')"
    using judge assms(1) unfolding judge_host_def bind_io_Inr by auto
  note le = reads_only_length [OF reads_only_host(5) shared]
  have "verdict_sound os procs pid h (length tr) (length tr') v"
    using rest verdict_sound_later [OF judge_in_pid_space_sound [OF setting] le] by (cases shared) auto
  then show ?thesis by (simp add: verdict_sound_def)
qed

lemma judge_host_elsewhere:
  assumes "os_platform os = Linux" and "\<forall>tr. os_link os tr OwnPidNamespace \<noteq> Inr (hr_pid_namespace r)"
  shows "fst (judge_host os pid (Some r) tr) = Inr HostUnknown"
proof -
  have "fst (in_pid_namespace os (hr_pid_namespace r) tr) = Inr False"
    using assms(2) by (cases "os_link os tr OwnPidNamespace")
      (auto simp: in_pid_namespace_def catch_io_def bind_io_def read_link_def of_answer_def Let_def return_io_def)
  then obtain tr1 where "in_pid_namespace os (hr_pid_namespace r) tr = (Inr False, tr1)" by (metis prod.collapse)
  with assms(1) show ?thesis by (simp add: judge_host_def in_host_pid_space_def bind_io_def return_io_def)
qed

section \<open>Examples\<close>

definition host_example :: host_record where
  "host_example =
     \<lparr>hr_pid = 100, hr_boot_id = js ''b1'', hr_start_ticks = js ''42'', hr_pid_namespace = js ''50'',
      hr_time_namespace = Some (Some (js ''50'')), hr_machine_id = Some None\<rparr>"

definition host_processes :: "nat \<Rightarrow> int \<Rightarrow> process_entry option" where
  "host_processes i p = (if p = 100 then Some \<lparr>pe_process = 0, pe_ticks = js ''42''\<rparr> else None)"

lemma host_example_stat:
  "read_proc_stat example_os 100 tr = (Inr (Some example_stat), tr @ [FileRead (StatFile 100) (Inr example_text)])"
  using example_alive(2)
  by (simp add: read_proc_stat_def read_proc_file_if_exists_def example_io) (simp add: example_stat_def)

lemma host_example_machine:
  "read_machine_id example_os tr = (Inr None, tr @ [FileRead (MachineIdFile True) (Inl (js ''ENOENT'')),
     FileRead (MachineIdFile False) (Inl (js ''ENOENT''))])"
  by (simp add: read_machine_id_def example_io is_machine_id_def)

lemma host_example_link: "read_link example_os l tr = (Inr (js ''50''), tr @ [LinkRead l (Inr (js ''50''))])"
  by (simp add: read_link_def example_io)

lemmas host_example_eval = example_platform host_example_stat example_read(3) host_example_link host_example_machine
  bind_io_def catch_io_def return_io_def

lemma host_example_ticks: "ps_start_ticks example_stat = js ''42''" "ps_state example_stat = js ''S''"
  by (simp_all add: example_stat_def)

lemma host_example_capture: "\<exists>tr. capture_host example_os 100 [] = (Inr (Some host_example), tr)"
  by (simp add: capture_host_def read_time_namespace_def host_example_eval host_example_ticks host_example_def)

lemma host_example_judge: "\<exists>tr. judge_host example_os 100 (Some host_example) [] = (Inr HostAlive, tr)"
proof -
  have own: "os_pid example_os = 50" "int_digits 50 = js ''50''"
    by (simp_all add: example_os_def int_digits_def nat_digits.simps js_eval)
  have there: "pid_exists example_os 100 tr = (Inr True, tr @ [Signalled 100 Probe None])" for tr
    by (simp add: pid_exists_def process_kill_def example_kill bind_io_def catch_io_def return_io_def)
  show ?thesis
    using example_alive(1)
    by (simp add: judge_host_def in_host_pid_space_def in_pid_namespace_def host_example_def judge_in_pid_space_def judge_shown_def
        read_host_stat_def judge_by_record_def in_time_namespace_def host_example_eval own there host_example_ticks)
qed

lemma host_example_shows: "shows_processes example_os (js ''b1'') host_processes pe_ticks"
proof -
  have "p = 100 \<and> t = example_text" if "os_file example_os tr (StatFile p) = Inr t" for tr p t
    using that by (simp add: example_os_def split: if_splits)
  moreover have "p \<noteq> 100" if "os_file example_os tr (StatFile p) = Inl c" for tr p c
    using that by (simp add: example_os_def split: if_splits)
  moreover have "trim t = js ''b1''" if "os_file example_os tr BootIdFile = Inr t" for tr t
    using that example_boot(1) by (simp add: example_os_def)
  ultimately show ?thesis
    using example_parse host_example_ticks(1) example_kill
    unfolding shows_processes_def host_processes_def by fastforce
qed

theorem judge_host_sound_witness:
  "\<exists>tr'. judge_host example_os 100 (Some host_example) [] = (Inr HostAlive, tr')
     \<and> (\<exists>k e. k < length tr' \<and> host_processes k 100 = Some e \<and> pe_process e = 0)"
proof -
  obtain tr' where judged: "judge_host example_os 100 (Some host_example) [] = (Inr HostAlive, tr')"
    using host_example_judge by blast
  obtain htr' where captured: "capture_host example_os 100 [] = (Inr (Some host_example), htr')"
    using host_example_capture by blast
  have first: "host_processes (length ([] :: sys_trace)) 100 = Some \<lparr>pe_process = 0, pe_ticks = js ''42''\<rparr>"
    by (simp add: host_processes_def)
  have identity: "\<forall>i e. host_processes i 100 = Some e \<longrightarrow> (pe_process e = 0 \<longleftrightarrow> js ''b1'' = js ''b1'' \<and> pe_ticks e = js ''42'')"
    by (auto simp: host_processes_def)
  show ?thesis
    using judge_host_sound [OF example_platform captured host_example_shows first judged host_example_shows _ identity] judged
    by auto
qed

end
