(* ===== verification/RpcWire.thy ===== *)
theory RpcWire
  imports EventRecords
begin

text \<open>
  The requests between a command and the host of a session: one JSON line in each direction over a
  socket, with spaces ahead of the response as keep-alives. The server sends_answer one request of a
  connection, the client sends one and reads the answer. Text is in UTF-16 code units; both sides
  decode the bytes of the socket as a UTF-8 stream, so a chunk may end anywhere between two units.
  The results of requests hold no numbers but integers.
\<close>

section \<open>Messages\<close>

definition max_rpc_request_id_chars :: nat where "max_rpc_request_id_chars = 128"
definition max_rpc_response_chars :: nat where "max_rpc_response_chars = 67108864"
definition max_rpc_request_chars :: nat where "max_rpc_request_chars = 1048576"
definition max_rpc_error_details_chars :: nat where "max_rpc_error_details_chars = 65536"
definition max_rpc_error_message_chars :: nat where "max_rpc_error_message_chars = 65536"
definition truncated_message_suffix :: jstring where "truncated_message_suffix = js '' [message truncated]''"
definition unknown_request_id :: jstring where "unknown_request_id = js ''unknown''"

type_synonym json_fields = "(jstring \<times> json) list"

record rpc_request =
  rq_id :: jstring
  rq_method :: jstring
  rq_params :: json_fields

datatype rpc_response =
    RpcSuccess jstring "json option"   \<comment> \<open>id, result or \<open>undefined\<close>\<close>
  | RpcFailure jstring jstring jstring "json_fields option"   \<comment> \<open>id, code, message, details\<close>

fun response_id :: "rpc_response \<Rightarrow> jstring" where
  "response_id (RpcSuccess i _) = i"
| "response_id (RpcFailure i _ _ _) = i"

definition json_of_request :: "rpc_request \<Rightarrow> json" where
  "json_of_request rq =
     JObj [(js ''id'', JStr (rq_id rq)), (js ''method'', JStr (rq_method rq)), (js ''params'', JObj (rq_params rq))]"

fun json_of_response :: "rpc_response \<Rightarrow> json" where
  "json_of_response (RpcSuccess i r) = 
     JObj ([(js ''id'', JStr i), (js ''ok'', JBool True)] @ optional_field ''result'' r)"
| "json_of_response (RpcFailure i c m d) =
     JObj [(js ''id'', JStr i), (js ''ok'', JBool False),
           (js ''error'', JObj ([(js ''code'', JStr c), (js ''message'', JStr m)] @ optional_field ''details'' (map_option JObj d)))]"

definition only_keys :: "string list \<Rightarrow> json_fields \<Rightarrow> bool" where
  \<comment> \<open>\<open>.strict()\<close>\<close>
  "only_keys ks kvs \<longleftrightarrow> fst ` set kvs \<subseteq> set (map js ks)"

definition request_schema :: "json \<Rightarrow> rpc_request option" where
  "request_schema j =
     (case j of
        JObj kvs \<Rightarrow>
          (case (map_of kvs (js ''id''), map_of kvs (js ''method''), map_of kvs (js ''params'')) of
             (Some (JStr i), Some (JStr m), p) \<Rightarrow>
               if only_keys [''id'', ''method'', ''params''] kvs
                  \<and> i \<noteq> [] \<and> length i \<le> max_rpc_request_id_chars \<and> m \<noteq> []
               then (case p of
                       None \<Rightarrow> Some \<lparr>rq_id = i, rq_method = m, rq_params = []\<rparr>
                     | Some (JObj ps) \<Rightarrow> Some \<lparr>rq_id = i, rq_method = m, rq_params = ps\<rparr>
                     | _ \<Rightarrow> None)
               else None
           | _ \<Rightarrow> None)
      | _ \<Rightarrow> None)"

definition error_schema :: "json \<Rightarrow> (jstring \<times> jstring \<times> json_fields option) option" where
  "error_schema j =
     (case j of
        JObj kvs \<Rightarrow>
          (case (map_of kvs (js ''code''), map_of kvs (js ''message'')) of
             (Some (JStr c), Some (JStr m)) \<Rightarrow>
               if only_keys [''code'', ''message'', ''details''] kvs \<and> c \<noteq> [] \<and> m \<noteq> []
               then (case map_of kvs (js ''details'') of
                       None \<Rightarrow> Some (c, m, None)
                     | Some (JObj d) \<Rightarrow> Some (c, m, Some d)
                     | _ \<Rightarrow> None)
               else None
           | _ \<Rightarrow> None)
      | _ \<Rightarrow> None)"

definition response_schema :: "json \<Rightarrow> rpc_response option" where
  "response_schema j =
     (case j of
        JObj kvs \<Rightarrow>
          (case (map_of kvs (js ''id''), map_of kvs (js ''ok'')) of
             (Some (JStr i), Some (JBool True)) \<Rightarrow>
               if i \<noteq> [] \<and> only_keys [''id'', ''ok'', ''result''] kvs
               then Some (RpcSuccess i (map_of kvs (js ''result''))) else None
           | (Some (JStr i), Some (JBool False)) \<Rightarrow>
               if i \<noteq> [] \<and> only_keys [''id'', ''ok'', ''error''] kvs
               then (case map_of kvs (js ''error'') of
                       None \<Rightarrow> None
                     | Some e \<Rightarrow> map_option (\<lambda>(c, m, d). RpcFailure i c m d) (error_schema e))
               else None
           | _ \<Rightarrow> None)
      | _ \<Rightarrow> None)"

definition response_ok :: "rpc_response \<Rightarrow> bool" where
  \<comment> \<open>The schema on a response that the server has built.\<close>
  "response_ok r \<longleftrightarrow> response_schema (json_of_response r) = Some r"

lemma js_keys [simp]:
  "js ''ok'' \<noteq> js ''id''" "js ''result'' \<noteq> js ''id''" "js ''result'' \<noteq> js ''ok''" "js ''error'' \<noteq> js ''id''"
  "js ''error'' \<noteq> js ''ok''" "js ''message'' \<noteq> js ''code''" "js ''details'' \<noteq> js ''code''" "js ''details'' \<noteq> js ''message''"
  "js ''method'' \<noteq> js ''id''" "js ''params'' \<noteq> js ''id''" "js ''params'' \<noteq> js ''method''"
  by (simp_all add: js_eval)

lemma request_schema_roundtrip:
  assumes "rq_id rq \<noteq> []" and "length (rq_id rq) \<le> max_rpc_request_id_chars" and "rq_method rq \<noteq> []"
  shows "request_schema (json_of_request rq) = Some rq"
  using assms js_keys by (simp add: request_schema_def json_of_request_def only_keys_def)

lemma response_ok_iff:
  "response_ok (RpcSuccess i r) \<longleftrightarrow> i \<noteq> []"
  "response_ok (RpcFailure i c m d) \<longleftrightarrow> i \<noteq> [] \<and> c \<noteq> [] \<and> m \<noteq> []"
  using js_keys by (cases r; cases d; auto simp: response_ok_def response_schema_def error_schema_def only_keys_def optional_field_def)+

section \<open>The server\<close>

text \<open>
  What the server uses and cannot see: \<open>JSON.parse\<close> with the message of its error, the table of
  handlers, the issues of a failed request schema, the schemas of the methods, which give the parsed
  value or the message of their issues, and the longest string that the engine can build.
\<close>

record rpc_env =
  e_parse :: "jstring \<Rightarrow> jstring + json"
  e_handles :: "jstring \<Rightarrow> bool"            \<comment> \<open>a handler of the server and a known method\<close>
  e_issues :: "json \<Rightarrow> jstring"
  e_params :: "jstring \<Rightarrow> json_fields \<Rightarrow> jstring + json"
  e_result :: "jstring \<Rightarrow> json option \<Rightarrow> jstring + json"
  e_max_string :: nat

datatype details_text =
    NoDetails                \<comment> \<open>no keys, or \<open>JSON.stringify\<close> throws or gives \<open>undefined\<close>\<close>
  | DetailsText json         \<comment> \<open>the value that its text reads back as\<close>

datatype handler_outcome =
    HandlerReturns "json option"
  | HandlerThrowsCli jstring jstring details_text   \<comment> \<open>a \<open>CliError\<close>: code, message, details\<close>
  | HandlerThrows "jstring option"                  \<comment> \<open>the message of another \<open>Error\<close>, or another value\<close>

definition to_error_message :: "jstring option \<Rightarrow> jstring \<Rightarrow> jstring" where
  "to_error_message m fallback = (case m of Some t \<Rightarrow> if t \<noteq> [] then t else fallback | None \<Rightarrow> fallback)"

definition extract_request_id :: "json \<Rightarrow> jstring" where
  "extract_request_id j =
     (case j of
        JObj kvs \<Rightarrow>
          (case map_of kvs (js ''id'') of
             Some (JStr i) \<Rightarrow> if i \<noteq> [] \<and> length i \<le> max_rpc_request_id_chars then i else unknown_request_id
           | _ \<Rightarrow> unknown_request_id)
      | _ \<Rightarrow> unknown_request_id)"

definition request_id_from_line :: "rpc_env \<Rightarrow> jstring \<Rightarrow> jstring" where
  "request_id_from_line env line =
     (case e_parse env line of Inl _ \<Rightarrow> unknown_request_id | Inr j \<Rightarrow> extract_request_id j)"

definition sendable_message :: "jstring \<Rightarrow> jstring" where
  "sendable_message m =
     (if length m \<le> max_rpc_error_message_chars then m
      else let cut = max_rpc_error_message_chars - length truncated_message_suffix
           in take (if is_high_surrogate (m ! (cut - 1)) then cut - 1 else cut) m @ truncated_message_suffix)"

definition sendable_details :: "details_text \<Rightarrow> json_fields option" where
  "sendable_details d =
     (case d of
        DetailsText (JObj kvs) \<Rightarrow>
          if length (stringify (JObj kvs)) > max_rpc_error_details_chars then None else Some kvs
      | _ \<Rightarrow> None)"

definition build_error_response :: "jstring \<Rightarrow> jstring \<Rightarrow> rpc_response res" where
  "build_error_response i m =
     (let r = RpcFailure i (js ''RPC_ERROR'') (sendable_message m) None
      in check (response_ok r) ''RPC error response must satisfy RpcResponseSchema.'' (Inr r))"

definition build_cli_error_response :: "jstring \<Rightarrow> jstring \<Rightarrow> jstring \<Rightarrow> details_text \<Rightarrow> rpc_response res" where
  "build_cli_error_response i code m d =
     (let r = RpcFailure i code (sendable_message m) (sendable_details d)
      in check (response_ok r) ''RPC CliError response must satisfy RpcResponseSchema.'' (Inr r))"

definition build_success_response :: "jstring \<Rightarrow> json \<Rightarrow> rpc_response res" where
  "build_success_response i result =
     (let r = RpcSuccess i (Some result)
      in check (response_ok r) ''RPC success response must satisfy RpcResponseSchema.'' (Inr r))"

text \<open>The connection: \<open>sc_running\<close> is the request whose handler runs, with its line.\<close>

record server_conn =
  sc_buffer :: jstring
  sc_handled :: bool
  sc_running :: "(jstring \<times> rpc_request) option"
  sc_sent :: jstring
  sc_ended :: bool
  sc_closed :: bool
  sc_unhandled :: bool     \<comment> \<open>an exception that nothing catches, which ends the host\<close>

definition new_conn :: server_conn where
  "new_conn = \<lparr>sc_buffer = [], sc_handled = False, sc_running = None, sc_sent = [], sc_ended = False,
               sc_closed = False, sc_unhandled = False\<rparr>"

definition end_socket :: "server_conn \<Rightarrow> jstring \<Rightarrow> server_conn" where
  "end_socket st text = (if sc_closed st \<or> sc_ended st then st else st\<lparr>sc_sent := sc_sent st @ text, sc_ended := True\<rparr>)"

definition response_line :: "rpc_env \<Rightarrow> rpc_response \<Rightarrow> jstring res" where
  "response_line env r =
     (let text = stringify (json_of_response r) @ [10]
      in if length text > e_max_string env then Inl (Plain (js ''Invalid string length'')) else Inr text)"

definition over_limit_message :: "nat \<Rightarrow> jstring" where
  "over_limit_message n =
     js ''RPC response takes '' @ nat_digits n @ js '' characters, over the '' @ nat_digits max_rpc_response_chars
       @ js ''-character limit.''"

definition send_response :: "rpc_env \<Rightarrow> server_conn \<Rightarrow> rpc_response \<Rightarrow> server_conn res" where
  "send_response env st r =
     bind_res (response_line env r) (\<lambda>text.
       if length text \<le> max_rpc_response_chars then Inr (end_socket st text)
       else check (case r of RpcSuccess _ _ \<Rightarrow> True | _ \<Rightarrow> False) ''Only an RPC success response can exceed the response cap.''
              (bind_res (build_cli_error_response (response_id r) (js ''PROTOCOL_ERROR'') (over_limit_message (length text))
                           (DetailsText (JObj [(js ''responseChars'', JNum (int (length text))),
                                               (js ''maxResponseChars'', JNum (int max_rpc_response_chars))])))
                 (\<lambda>refusal. bind_res (response_line env refusal) (\<lambda>t. Inr (end_socket st t)))))"

definition send_error :: "rpc_env \<Rightarrow> server_conn \<Rightarrow> jstring \<Rightarrow> jstring \<Rightarrow> server_conn res" where
  "send_error env st i m = bind_res (build_error_response i m) (send_response env st)"

definition process_request_line :: "rpc_env \<Rightarrow> server_conn \<Rightarrow> jstring \<Rightarrow> server_conn res" where
  \<comment> \<open>up to the call of the handler\<close>
  "process_request_line env st line =
     (case e_parse env line of
        Inl m \<Rightarrow> send_error env st unknown_request_id (to_error_message (Some m) (js ''Failed to parse RPC request JSON.''))
      | Inr j \<Rightarrow>
          (case request_schema j of
             None \<Rightarrow> send_error env st (extract_request_id j) (e_issues env j)
           | Some rq \<Rightarrow>
               if \<not> e_handles env (rq_method rq)
               then send_error env st (rq_id rq) (js ''Unsupported method: '' @ rq_method rq)
               else (case e_params env (rq_method rq) (rq_params rq) of
                       Inl m \<Rightarrow> send_error env st (rq_id rq) m
                     | Inr _ \<Rightarrow> Inr (st\<lparr>sc_running := Some (line, rq)\<rparr>))))"

definition finish_request :: "rpc_env \<Rightarrow> server_conn \<Rightarrow> rpc_request \<Rightarrow> handler_outcome \<Rightarrow> server_conn res" where
  \<comment> \<open>The rest of the \<open>try\<close> and its \<open>catch\<close>, which also takes what the rest throws.\<close>
  "finish_request env st rq outcome =
     (let failed = (\<lambda>m. send_error env st (rq_id rq)
            (to_error_message m (js ''RPC handler failed for method \"'' @ rq_method rq @ js ''\".'')))
      in if sc_closed st then Inr st
         else case outcome of
           HandlerThrowsCli code m d \<Rightarrow> bind_res (build_cli_error_response (rq_id rq) code m d) (send_response env st)
         | HandlerThrows m \<Rightarrow> failed m
         | HandlerReturns result \<Rightarrow>
             (case (case e_result env (rq_method rq) result of
                      Inl m \<Rightarrow> send_error env st (rq_id rq) m
                    | Inr d \<Rightarrow> bind_res (build_success_response (rq_id rq) d) (send_response env st)) of
                Inl e \<Rightarrow> failed (Some (error_message e))
              | Inr st' \<Rightarrow> Inr st'))"

definition guard_request :: "rpc_env \<Rightarrow> server_conn \<Rightarrow> jstring \<Rightarrow> server_conn res \<Rightarrow> server_conn" where
  \<comment> \<open>the \<open>catch\<close> around \<open>processRequestLine\<close>\<close>
  "guard_request env st line r =
     (case r of
        Inr st' \<Rightarrow> st'
      | Inl _ \<Rightarrow>
          (case send_error env st (request_id_from_line env line) (js ''RPC request handling failed unexpectedly.'') of
             Inr st' \<Rightarrow> st'
           | Inl _ \<Rightarrow> st\<lparr>sc_unhandled := True\<rparr>))"

definition answer_at_once :: "rpc_env \<Rightarrow> server_conn \<Rightarrow> string \<Rightarrow> server_conn" where
  \<comment> \<open>from a socket callback, where nothing catches\<close>
  "answer_at_once env st m =
     (case send_error env st unknown_request_id (js m) of Inr st' \<Rightarrow> st' | Inl _ \<Rightarrow> st\<lparr>sc_unhandled := True\<rparr>)"

datatype server_event =
    SocketData jstring
  | SocketEnd
  | KeepAlive
  | HandlerDone handler_outcome
  | SocketClose

definition socket_data :: "rpc_env \<Rightarrow> server_conn \<Rightarrow> jstring \<Rightarrow> server_conn" where
  "socket_data env st chunk =
     (if sc_handled st then st
      else if length (sc_buffer st) + length chunk > max_rpc_request_chars
      then answer_at_once env (st\<lparr>sc_handled := True\<rparr>) ''RPC request exceeds maximum buffer size.''
      else let buffer = sc_buffer st @ chunk; st1 = st\<lparr>sc_buffer := buffer\<rparr>
           in if 10 \<notin> set buffer then st1
              else let line = takeWhile (\<lambda>c. c \<noteq> 10) buffer; st2 = st1\<lparr>sc_handled := True\<rparr>
                   in guard_request env st2 line (process_request_line env st2 line))"

definition socket_end :: "rpc_env \<Rightarrow> server_conn \<Rightarrow> server_conn" where
  "socket_end env st =
     (if sc_handled st then st
      else answer_at_once env (st\<lparr>sc_handled := True\<rparr>)
             (if sc_buffer st = [] then ''RPC request ended before any data was received.''
              else ''RPC request was not newline-delimited.''))"

fun server_step :: "rpc_env \<Rightarrow> server_conn \<Rightarrow> server_event \<Rightarrow> server_conn" where
  "server_step env st (SocketData chunk) = socket_data env st chunk"
| "server_step env st SocketEnd = socket_end env st"
| "server_step env st KeepAlive =
     (if sc_running st \<noteq> None \<and> \<not> sc_ended st \<and> \<not> sc_closed st then st\<lparr>sc_sent := sc_sent st @ [32]\<rparr> else st)"
| "server_step env st (HandlerDone outcome) =
     (case sc_running st of
        None \<Rightarrow> st
      | Some (line, rq) \<Rightarrow>
          let st1 = st\<lparr>sc_running := None\<rparr> in guard_request env st1 line (finish_request env st1 rq outcome))"
| "server_step env st SocketClose = st\<lparr>sc_closed := True\<rparr>"

definition run_server :: "rpc_env \<Rightarrow> server_event list \<Rightarrow> server_conn" where
  "run_server env evs = foldl (server_step env) new_conn evs"

section \<open>The client\<close>

record client_error =
  ce_code :: jstring
  ce_message :: jstring
  ce_retryable :: bool
  ce_details :: json_fields

datatype client_result = Resolved "json option" | Rejected client_error | Aborted

definition protocol_code_names :: "string list" where
  "protocol_code_names =
     [''SESSION_NOT_FOUND'', ''SESSION_NOT_RUNNING'', ''SESSION_ALREADY_DESTROYED'', ''HOST_UNREACHABLE'',
      ''HOST_TIMEOUT'', ''INVALID_SESSION_ID'', ''INVALID_DIMENSIONS'', ''INVALID_SIGNAL'', ''INVALID_KEYS'',
      ''INVALID_DURATION'', ''INVALID_INPUT'', ''CAPABILITY_UNAVAILABLE'', ''STORAGE_READ_ERROR'',
      ''STORAGE_WRITE_ERROR'', ''MANIFEST_VALIDATION_ERROR'', ''RPC_ERROR'', ''PROTOCOL_ERROR'', ''EXPORT_ERROR'',
      ''REPLAY_ERROR'', ''SKILL_NOT_FOUND'', ''WAIT_TIMEOUT'', ''INTERNAL_ERROR'']"

definition retryable_code :: "jstring \<Rightarrow> bool" where
  "retryable_code c \<longleftrightarrow> c \<in> set (map js [''HOST_UNREACHABLE'', ''HOST_TIMEOUT'', ''RPC_ERROR''])"

definition make_client_error :: "string \<Rightarrow> jstring \<Rightarrow> json_fields \<Rightarrow> client_error" where
  "make_client_error code m d = \<lparr>ce_code = js code, ce_message = m, ce_retryable = retryable_code (js code), ce_details = d\<rparr>"

definition to_response_cli_error :: "jstring \<Rightarrow> jstring \<Rightarrow> json_fields option \<Rightarrow> client_error" where
  "to_response_cli_error code m d =
     \<lparr>ce_code = code, ce_message = m,
      ce_retryable = (code \<in> set (map js protocol_code_names) \<and> retryable_code code),
      ce_details = (case d of None \<Rightarrow> [] | Some kvs \<Rightarrow> kvs)\<rparr>"

text \<open>The call: what the closure of one \<open>sendRpcAt\<close> holds, and the outside that it uses.\<close>

record rpc_call =
  rc_socket_path :: jstring
  rc_method :: jstring
  rc_request_id :: jstring
  rc_timeout_ms :: nat
  rc_parse :: "jstring \<Rightarrow> jstring + json"
  rc_known :: bool                                     \<comment> \<open>the method is in \<open>RpcMethodSchemas\<close>\<close>
  rc_result :: "json option \<Rightarrow> json option option"    \<comment> \<open>its result schema\<close>

record client_conn =
  cc_buffer :: jstring
  cc_handled :: bool
  cc_settled :: "client_result option"

definition new_client :: client_conn where
  "new_client = \<lparr>cc_buffer = [], cc_handled = False, cc_settled = None\<rparr>"

definition settle_client :: "client_conn \<Rightarrow> client_result \<Rightarrow> client_conn" where
  "settle_client st r = (if cc_settled st = None then st\<lparr>cc_settled := Some r\<rparr> else st)"

definition call_fields :: "rpc_call \<Rightarrow> json_fields" where
  "call_fields c = [(js ''method'', JStr (rc_method c)), (js ''socketPath'', JStr (rc_socket_path c))]"

definition call_error :: "rpc_call \<Rightarrow> jstring \<Rightarrow> json_fields \<Rightarrow> client_result" where
  "call_error c m extra = Rejected (make_client_error ''RPC_ERROR'' m (call_fields c @ extra))"

definition for_method :: "string \<Rightarrow> rpc_call \<Rightarrow> jstring" where
  "for_method t c = js t @ js '' for method \"'' @ rc_method c @ js ''\".''"

definition take_response :: "rpc_call \<Rightarrow> rpc_response \<Rightarrow> client_result" where
  "take_response c r =
     (if response_id r \<noteq> rc_request_id c
      then call_error c (for_method ''RPC response id mismatch'' c)
             [(js ''expectedId'', JStr (rc_request_id c)), (js ''actualId'', JStr (response_id r))]
      else case r of
        RpcSuccess _ result \<Rightarrow>
          if rc_known c
          then (case rc_result c result of
                  None \<Rightarrow> call_error c (for_method ''RPC result failed validation'' c) []
                | Some d \<Rightarrow> Resolved d)
          else Resolved result
      | RpcFailure _ code m d \<Rightarrow> Rejected (to_response_cli_error code m d))"

definition take_line :: "rpc_call \<Rightarrow> jstring \<Rightarrow> client_result" where
  "take_line c line =
     (case rc_parse c line of
        Inl m \<Rightarrow> call_error c (to_error_message (Some m) (for_method ''Failed to decode RPC response'' c)) []
      | Inr j \<Rightarrow>
          (case response_schema j of
             None \<Rightarrow> call_error c (js ''RPC response failed schema validation.'') []
           | Some r \<Rightarrow> take_response c r))"

definition client_data :: "rpc_call \<Rightarrow> client_conn \<Rightarrow> jstring \<Rightarrow> client_conn" where
  "client_data c st received =
     (if cc_handled st then st
      else let chunk = (if cc_buffer st = [] then dropWhile (\<lambda>u. u = 32) received else received)
           in if chunk = [] then st
              else if length (cc_buffer st) + length chunk > max_rpc_response_chars
              then settle_client st (Rejected (make_client_error ''PROTOCOL_ERROR''
                     (js ''RPC response is over the '' @ nat_digits max_rpc_response_chars @ js ''-character limit.'')
                     (call_fields c @ [(js ''maxResponseChars'', JNum (int max_rpc_response_chars))])))
              else if 10 \<notin> set chunk then st\<lparr>cc_buffer := cc_buffer st @ chunk\<rparr>
              else settle_client (st\<lparr>cc_handled := True\<rparr>) (take_line c (cc_buffer st @ takeWhile (\<lambda>u. u \<noteq> 10) chunk)))"

datatype socket_failure =
    CliFailure client_error
  | CodedFailure jstring jstring       \<comment> \<open>an \<open>Error\<close> with a string code: code, message\<close>
  | OtherFailure "jstring option"

definition to_transport_cli_error :: "rpc_call \<Rightarrow> socket_failure \<Rightarrow> client_error" where
  "to_transport_cli_error c e =
     (let rpc_error = (\<lambda>m. make_client_error ''RPC_ERROR''
            (to_error_message m (js ''RPC request failed for method \"'' @ rc_method c @ js ''\".''))
            (call_fields c @ [(js ''timeoutMs'', JNum (int (rc_timeout_ms c)))]))
      in case e of
        CliFailure ce \<Rightarrow> ce
      | CodedFailure code m \<Rightarrow>
          if code \<in> set (map js [''ECONNREFUSED'', ''ENOENT'', ''ECONNRESET''])
          then make_client_error ''HOST_UNREACHABLE'' (js ''Failed to reach RPC host at '' @ rc_socket_path c @ js ''.'')
                 (call_fields c @ [(js ''errno'', JStr code)])
          else rpc_error (Some m)
      | OtherFailure m \<Rightarrow> rpc_error m)"

datatype client_event =
    Received jstring
  | RemoteEnd
  | SocketTimeout
  | SocketError socket_failure
  | AbortSignal

fun client_step :: "rpc_call \<Rightarrow> client_conn \<Rightarrow> client_event \<Rightarrow> client_conn" where
  "client_step c st (Received chunk) = client_data c st chunk"
| "client_step c st RemoteEnd =
     (if cc_settled st \<noteq> None \<or> cc_handled st then st
      else settle_client st (call_error c
             (for_method ''RPC connection closed before a complete response was received'' c) []))"
| "client_step c st SocketTimeout =
     settle_client st (Rejected (make_client_error ''HOST_TIMEOUT''
       (js ''RPC request timed out after '' @ nat_digits (rc_timeout_ms c) @ js ''ms.'')
       (call_fields c @ [(js ''timeoutMs'', JNum (int (rc_timeout_ms c)))])))"
| "client_step c st (SocketError e) = settle_client st (Rejected (to_transport_cli_error c e))"
| "client_step c st AbortSignal = settle_client st Aborted"

definition run_client :: "rpc_call \<Rightarrow> client_event list \<Rightarrow> client_conn" where
  "run_client c evs = foldl (client_step c) new_client evs"

text \<open>
  \<open>sendRpc\<close> over the two paths of a socket: the path that an older version used, whether the socket
  root is usable or the error of its check, the call of each path, and whether the old socket is ours.
\<close>

definition is_missing_socket :: "client_result \<Rightarrow> bool" where
  "is_missing_socket r =
     (case r of
        Rejected e \<Rightarrow> ce_code e = js ''HOST_UNREACHABLE'' \<and> map_of (ce_details e) (js ''errno'') = Some (JStr (js ''ENOENT''))
      | _ \<Rightarrow> False)"

definition send_rpc ::
  "rpc_call \<Rightarrow> jstring option \<Rightarrow> client_error + bool \<Rightarrow> bool \<Rightarrow> (jstring \<Rightarrow> client_result) \<Rightarrow> client_result" where
  "send_rpc c oldSocketPath socketRootExists isOwnLegacySocket sendRpcAt =
     (case oldSocketPath of
        None \<Rightarrow> sendRpcAt (rc_socket_path c)
      | Some old \<Rightarrow>
          let missing = Rejected (to_transport_cli_error c (CodedFailure (js ''ENOENT'') (js ''connect ENOENT '' @ rc_socket_path c)));
              rootError = (case socketRootExists of Inl e \<Rightarrow> Rejected e | Inr _ \<Rightarrow> missing);
              tried = (if socketRootExists = Inr True then Some (sendRpcAt (rc_socket_path c)) else None)
          in case tried of
               Some r \<Rightarrow>
                 if is_missing_socket r then (if isOwnLegacySocket then sendRpcAt old else r) else r
             | None \<Rightarrow> if isOwnLegacySocket then sendRpcAt old else rootError)"

section \<open>The size of a response\<close>

definition line_of :: "rpc_response \<Rightarrow> jstring" where
  "line_of r = stringify (json_of_response r) @ [10]"

lemma length_quote_unit: "length (quote_unit c) \<le> 6"
  by (simp add: quote_unit_def unicode_escape_def)

lemma length_quote: "length (quote s) \<le> 6 * length s + 2"
proof -
  have "length (quote_units s) \<le> 6 * length s"
  proof (induction s rule: quote_units.induct)
    case (2 c)
    show ?case using length_quote_unit [of c] by simp
  next
    case (3 c d s)
    then show ?case using length_quote_unit [of c] by auto
  qed simp
  then show ?thesis by (simp add: quote_def)
qed

definition built :: "rpc_response \<Rightarrow> bool" where
  \<comment> \<open>What the builders of responses keep to.\<close>
  "built r \<longleftrightarrow>
     response_ok r \<and> length (response_id r) \<le> max_rpc_request_id_chars
     \<and> (case r of RpcSuccess _ _ \<Rightarrow> True
        | RpcFailure _ _ m d \<Rightarrow> length m \<le> max_rpc_error_message_chars
            \<and> (case d of None \<Rightarrow> True | Some kvs \<Rightarrow> length (stringify (JObj kvs)) \<le> max_rpc_error_details_chars))"

lemma length_failure:
  assumes "built (RpcFailure i c m d)"
  shows "length (line_of (RpcFailure i c m d)) \<le> 461000 + 6 * length c"
proof -
  have bounds: "length i \<le> 128" "length m \<le> 65536"
      "case d of None \<Rightarrow> True | Some kvs \<Rightarrow> length (stringify (JObj kvs)) \<le> 65536"
    using assms by (auto simp: built_def max_rpc_request_id_chars_def max_rpc_error_message_chars_def
        max_rpc_error_details_chars_def cong: option.case_cong)
  have quotes: "length (quote i) \<le> 770" "length (quote m) \<le> 393218" "length (quote c) \<le> 6 * length c + 2"
    using length_quote [of i] length_quote [of m] length_quote [of c] bounds by auto
  have keys: "length (quote (js k)) \<le> 6 * length k + 2" for k using length_quote [of "js k"] by simp
  show ?thesis
    using quotes bounds(3) keys [of "''id''"] keys [of "''ok''"] keys [of "''error''"] keys [of "''code''"]
      keys [of "''message''"] keys [of "''details''"]
    by (cases d) (simp_all add: line_of_def optional_field_def)
qed

lemma length_sendable: "length (sendable_message m) \<le> max_rpc_error_message_chars"
  by (simp add: sendable_message_def Let_def max_rpc_error_message_chars_def truncated_message_suffix_def)

lemma sendable_nonempty: "sendable_message m \<noteq> [] \<longleftrightarrow> m \<noteq> []"
  by (auto simp: sendable_message_def Let_def truncated_message_suffix_def)

lemma built_error:
  "length i \<le> max_rpc_request_id_chars \<Longrightarrow> i \<noteq> [] \<Longrightarrow> c \<noteq> [] \<Longrightarrow> m \<noteq> [] \<Longrightarrow>
   built (RpcFailure i c (sendable_message m) (sendable_details d))"
  using length_sendable [of m]
  by (auto simp: built_def response_ok_iff sendable_nonempty sendable_details_def split: option.splits details_text.splits json.splits)

lemma unknown_id: "unknown_request_id \<noteq> []" "length unknown_request_id \<le> max_rpc_request_id_chars"
  by (simp_all add: unknown_request_id_def max_rpc_request_id_chars_def)

lemma extract_id: "extract_request_id j \<noteq> []" "length (extract_request_id j) \<le> max_rpc_request_id_chars"
  using unknown_id by (auto simp: extract_request_id_def split: json.splits option.splits)

lemma line_id: "request_id_from_line env line \<noteq> []" "length (request_id_from_line env line) \<le> max_rpc_request_id_chars"
  using unknown_id extract_id by (auto simp: request_id_from_line_def split: sum.splits)

lemma schema_id:
  assumes "request_schema j = Some rq"
  shows "extract_request_id j = rq_id rq" and "rq_id rq \<noteq> []" and "length (rq_id rq) \<le> max_rpc_request_id_chars"
  using assms by (auto simp: request_schema_def extract_request_id_def split: json.splits option.splits if_splits)

section \<open>Every path of the server ends in an answer\<close>

definition sends_answer :: "server_conn \<Rightarrow> jstring \<Rightarrow> server_conn res \<Rightarrow> bool" where
  \<comment> \<open>It throws before it writes, or it writes one response of that id within the limit.\<close>
  "sends_answer st i m \<longleftrightarrow>
     (\<forall>st'. m = Inr st' \<longrightarrow> (\<exists>r. st' = end_socket st (line_of r) \<and> response_id r = i \<and> built r
                             \<and> length (line_of r) \<le> max_rpc_response_chars))"

lemma answers_throw: "sends_answer st i (Inl e)"
  by (simp add: sends_answer_def)

lemma response_line_eq:
  "response_line env r = (if length (line_of r) > e_max_string env then Inl (Plain (js ''Invalid string length'')) else Inr (line_of r))"
  by (simp add: response_line_def line_of_def Let_def)

lemma build_cli_error_response_eq:
  "build_cli_error_response i c m d =
     (if i \<noteq> [] \<and> c \<noteq> [] \<and> m \<noteq> [] then Inr (RpcFailure i c (sendable_message m) (sendable_details d))
      else Inl (Assertion (js ''RPC CliError response must satisfy RpcResponseSchema.'')))"
  by (auto simp: build_cli_error_response_def Let_def response_ok_iff sendable_nonempty check_def)

lemma build_error_response_eq:
  "build_error_response i m =
     (if i \<noteq> [] \<and> m \<noteq> [] then Inr (RpcFailure i (js ''RPC_ERROR'') (sendable_message m) None)
      else Inl (Assertion (js ''RPC error response must satisfy RpcResponseSchema.'')))"
  by (auto simp: build_error_response_def Let_def response_ok_iff sendable_nonempty check_def)

lemma failure_fits:
  assumes "built (RpcFailure i c m d)" and "length c \<le> 1000"
  shows "length (line_of (RpcFailure i c m d)) \<le> 1048576"
  using length_failure [OF assms(1)] assms(2) by simp

lemma answers_send_response: "built r \<Longrightarrow> sends_answer st (response_id r) (send_response env st r)"
proof -
  assume r: "built r"
  let ?n = "length (line_of r)"
  have refusal: "sends_answer st (response_id r) (bind_res (build_cli_error_response (response_id r) (js ''PROTOCOL_ERROR'') (over_limit_message n) d)
      (\<lambda>refusal. bind_res (response_line env refusal) (\<lambda>t. Inr (end_socket st t))))" for n d
  proof (cases "response_id r = [] \<or> over_limit_message n = []")
    case False
    let ?f = "RpcFailure (response_id r) (js ''PROTOCOL_ERROR'') (sendable_message (over_limit_message n)) (sendable_details d)"
    have b: "built ?f" by (rule built_error) (use r False in \<open>simp_all add: built_def\<close>)
    have "length (line_of ?f) \<le> max_rpc_response_chars"
      using failure_fits [OF b] by (simp add: max_rpc_response_chars_def)
    with False b show ?thesis
      by (auto simp: build_cli_error_response_eq response_line_eq sends_answer_def intro!: exI [of _ ?f])
  qed (auto simp: build_cli_error_response_eq sends_answer_def)
  show ?thesis
    using r refusal by (auto simp: send_response_def response_line_eq check_def answers_throw) (auto simp: sends_answer_def)
qed

lemma answers_send_error: "length i \<le> max_rpc_request_id_chars \<Longrightarrow> sends_answer st i (send_error env st i m)"
  using answers_send_response [of "RpcFailure i (js ''RPC_ERROR'') (sendable_message m) None" st env]
    built_error [of i "js ''RPC_ERROR''" m NoDetails]
  by (auto simp: send_error_def build_error_response_eq answers_throw sendable_details_def)

lemma answers_send_cli_error:
  "length i \<le> max_rpc_request_id_chars \<Longrightarrow>
   sends_answer st i (bind_res (build_cli_error_response i c m d) (send_response env st))"
  using answers_send_response [of "RpcFailure i c (sendable_message m) (sendable_details d)" st env] built_error [of i c m d]
  by (auto simp: build_cli_error_response_eq answers_throw)

lemma answers_send_success:
  "length i \<le> max_rpc_request_id_chars \<Longrightarrow> i \<noteq> [] \<Longrightarrow>
   sends_answer st i (bind_res (build_success_response i d) (send_response env st))"
  using answers_send_response [of "RpcSuccess i (Some d)" st env]
  by (auto simp: build_success_response_def Let_def response_ok_iff answers_throw built_def)

lemma send_error_answers:
  assumes "1048576 \<le> e_max_string env" and "i \<noteq> []" and "length i \<le> max_rpc_request_id_chars" and "m \<noteq> []"
  shows "send_error env st i m = Inr (end_socket st (line_of (RpcFailure i (js ''RPC_ERROR'') (sendable_message m) None)))"
proof -
  have b: "built (RpcFailure i (js ''RPC_ERROR'') (sendable_message m) None)"
    using built_error [of i "js ''RPC_ERROR''" m NoDetails] assms by (simp add: sendable_details_def)
  from failure_fits [OF this] assms show ?thesis
    by (simp add: send_error_def build_error_response_eq send_response_def response_line_eq max_rpc_response_chars_def)
qed

lemma guard_answers:
  assumes "1048576 \<le> e_max_string env" and "sends_answer st (request_id_from_line env line) m"
  obtains r where "guard_request env st line m = end_socket st (line_of r)" and "response_id r = request_id_from_line env line"
    and "built r" and "length (line_of r) \<le> max_rpc_response_chars"
proof (cases m)
  case (Inr st')
  with assms(2) that show thesis by (auto simp: sends_answer_def guard_request_def)
next
  case (Inl e)
  let ?m = "js ''RPC request handling failed unexpectedly.''"
  let ?i = "request_id_from_line env line"
  let ?r = "RpcFailure ?i (js ''RPC_ERROR'') (sendable_message ?m) None"
  have g: "guard_request env st line m = end_socket st (line_of ?r)"
    using send_error_answers [OF assms(1) line_id [of env line], of ?m st] Inl by (simp add: guard_request_def)
  have b: "built ?r" using built_error [of ?i "js ''RPC_ERROR''" ?m NoDetails] line_id by (simp add: sendable_details_def)
  have "length (line_of ?r) \<le> max_rpc_response_chars" using failure_fits [OF b] by (simp add: max_rpc_response_chars_def)
  with g b show thesis by (intro that [of ?r]) simp_all
qed

lemma process_request_answers:
  "sends_answer st (request_id_from_line env line) (process_request_line env st line)
   \<or> (\<exists>j rq. process_request_line env st line = Inr (st\<lparr>sc_running := Some (line, rq)\<rparr>)
         \<and> e_parse env line = Inr j \<and> request_schema j = Some rq)"
  using answers_send_error [OF unknown_id(2)] answers_send_error [OF extract_id(2)] answers_send_error schema_id
  by (auto simp: process_request_line_def request_id_from_line_def split: sum.splits option.splits)

lemma finish_request_answers:
  assumes "\<not> sc_closed st" and "length (rq_id rq) \<le> max_rpc_request_id_chars" and "rq_id rq \<noteq> []"
  shows "sends_answer st (rq_id rq) (finish_request env st rq outcome)"
  using assms answers_send_error [OF assms(2)] answers_send_cli_error [OF assms(2)] answers_send_success [OF assms(2,3)]
  by (fastforce simp: finish_request_def Let_def sends_answer_def split: handler_outcome.splits sum.splits)


section \<open>One answer per connection\<close>

definition answer_id :: "rpc_env \<Rightarrow> jstring \<Rightarrow> jstring" where
  \<comment> \<open>the id that a client of this text is answered with\<close>
  "answer_id env received =
     (if 10 \<in> set received then request_id_from_line env (takeWhile (\<lambda>c. c \<noteq> 10) received) else unknown_request_id)"

definition conn_ok :: "rpc_env \<Rightarrow> server_conn \<Rightarrow> bool" where
  "conn_ok env st \<longleftrightarrow>
     \<not> sc_unhandled st
     \<and> (\<not> sc_handled st \<longrightarrow> 10 \<notin> set (sc_buffer st) \<and> sc_running st = None \<and> \<not> sc_ended st)
     \<and> (\<forall>line rq. sc_running st = Some (line, rq) \<longrightarrow>
          \<not> sc_ended st \<and> 10 \<in> set (sc_buffer st) \<and> line = takeWhile (\<lambda>c. c \<noteq> 10) (sc_buffer st)
          \<and> (\<exists>j. e_parse env line = Inr j \<and> request_schema j = Some rq))
     \<and> (if sc_ended st
        then \<exists>n r. sc_sent st = replicate n 32 @ line_of r \<and> response_id r = answer_id env (sc_buffer st) \<and> built r
               \<and> length (line_of r) \<le> max_rpc_response_chars
        else (\<exists>n. sc_sent st = replicate n 32) \<and> (sc_handled st \<and> sc_running st = None \<longrightarrow> sc_closed st))"

lemma conn_ok_end:
  assumes "\<not> sc_unhandled st" and "sc_handled st" and "sc_running st = None" and "\<not> sc_ended st" and "sc_sent st = replicate n 32"
    and "response_id r = answer_id env (sc_buffer st)" and "built r" and "length (line_of r) \<le> max_rpc_response_chars"
  shows "conn_ok env (end_socket st (line_of r))"
  using assms by (auto simp: conn_ok_def end_socket_def)

lemma conn_ok_guard:
  assumes "1048576 \<le> e_max_string env" and "sends_answer st (request_id_from_line env line) m"
    and "line = takeWhile (\<lambda>c. c \<noteq> 10) (sc_buffer st)" and "10 \<in> set (sc_buffer st)"
    and "\<not> sc_unhandled st" and "sc_handled st" and "sc_running st = None" and "\<not> sc_ended st" and "sc_sent st = replicate n 32"
  shows "conn_ok env (guard_request env st line m)"
proof -
  obtain r where "guard_request env st line m = end_socket st (line_of r)" "response_id r = request_id_from_line env line"
      "built r" "length (line_of r) \<le> max_rpc_response_chars"
    by (rule guard_answers [OF assms(1,2)])
  with conn_ok_end [OF assms(5-9), of r env] assms(3,4) show ?thesis by (simp add: answer_id_def)
qed

lemma conn_ok_at_once:
  assumes "1048576 \<le> e_max_string env" and "m \<noteq> []" and "10 \<notin> set (sc_buffer st)"
    and "\<not> sc_unhandled st" and "sc_handled st" and "sc_running st = None" and "\<not> sc_ended st" and "sc_sent st = replicate n 32"
  shows "conn_ok env (answer_at_once env st m)"
proof -
  let ?r = "RpcFailure unknown_request_id (js ''RPC_ERROR'') (sendable_message (js m)) None"
  have b: "built ?r"
    using built_error [OF unknown_id(2,1), of "js ''RPC_ERROR''" "js m" NoDetails] assms(2) by (simp add: sendable_details_def)
  have "length (line_of ?r) \<le> max_rpc_response_chars" using failure_fits [OF b] by (simp add: max_rpc_response_chars_def)
  with conn_ok_end [OF assms(4-8), of ?r env] b assms(2,3) send_error_answers [OF assms(1) unknown_id, of "js m" st]
  show ?thesis by (simp add: answer_at_once_def answer_id_def)
qed

lemma conn_ok_step:
  assumes env: "1048576 \<le> e_max_string env" and ok: "conn_ok env st"
  shows "conn_ok env (server_step env st ev)"
proof (cases ev)
  case (SocketData chunk)
  show ?thesis
  proof (cases "sc_handled st")
    case False
    obtain n where n: "sc_sent st = replicate n 32" using ok False by (auto simp: conn_ok_def)
    let ?st = "st\<lparr>sc_buffer := sc_buffer st @ chunk, sc_handled := True\<rparr>"
    let ?line = "takeWhile (\<lambda>c. c \<noteq> 10) (sc_buffer st @ chunk)"
    have line: "conn_ok env (guard_request env ?st ?line (process_request_line env ?st ?line))"
      if nl: "10 \<in> set (sc_buffer st @ chunk)"
      using process_request_answers [of ?st env ?line]
    proof (elim disjE exE conjE)
      assume "sends_answer ?st (request_id_from_line env ?line) (process_request_line env ?st ?line)"
      then show ?thesis by (rule conn_ok_guard [OF env, where n = n]) (use ok False n nl in \<open>simp_all add: conn_ok_def\<close>)
    next
      fix j rq
      assume "process_request_line env ?st ?line = Inr (?st\<lparr>sc_running := Some (?line, rq)\<rparr>)"
        "e_parse env ?line = Inr j" "request_schema j = Some rq"
      then show ?thesis using ok False n nl by (simp add: guard_request_def conn_ok_def)
    qed
    have over: "conn_ok env (answer_at_once env (st\<lparr>sc_handled := True\<rparr>) ''RPC request exceeds maximum buffer size.'')"
      by (rule conn_ok_at_once [OF env, where n = n]) (use ok False n in \<open>simp_all add: conn_ok_def\<close>)
    have more: "conn_ok env (st\<lparr>sc_buffer := sc_buffer st @ chunk\<rparr>)" if "10 \<notin> set (sc_buffer st @ chunk)"
      using that ok False by (simp add: conn_ok_def)
    show ?thesis using SocketData False line over more by (simp add: socket_data_def Let_def)
  qed (simp add: SocketData socket_data_def ok)
next
  case SocketEnd
  show ?thesis
  proof (cases "sc_handled st")
    case False
    obtain n where n: "sc_sent st = replicate n 32" using ok False by (auto simp: conn_ok_def)
    have "conn_ok env (answer_at_once env (st\<lparr>sc_handled := True\<rparr>) m)" if "m \<noteq> []" for m
      by (rule conn_ok_at_once [OF env that, where n = n]) (use ok False n in \<open>simp_all add: conn_ok_def\<close>)
    with SocketEnd False show ?thesis by (simp add: socket_end_def)
  qed (simp add: SocketEnd socket_end_def ok)
next
  case KeepAlive
  have "\<exists>m. replicate n 32 @ [32] = replicate m (32::nat)" for n
    by (rule exI [of _ "Suc n"]) (simp add: replicate_append_same)
  with ok KeepAlive show ?thesis by (auto simp: conn_ok_def)
next
  case (HandlerDone outcome)
  show ?thesis
  proof (cases "sc_running st")
    case (Some lr)
    obtain line rq where lr: "lr = (line, rq)" by fastforce
    obtain j where j: "line = takeWhile (\<lambda>c. c \<noteq> 10) (sc_buffer st)" "10 \<in> set (sc_buffer st)" "\<not> sc_ended st"
        "e_parse env line = Inr j" "request_schema j = Some rq" "sc_handled st" "\<not> sc_unhandled st"
      using ok Some lr by (fastforce simp: conn_ok_def)
    obtain n where n: "sc_sent st = replicate n 32" using ok j(3) by (auto simp: conn_ok_def)
    have i: "request_id_from_line env line = rq_id rq" using j(4) schema_id(1) [OF j(5)] by (simp add: request_id_from_line_def)
    let ?st = "st\<lparr>sc_running := None\<rparr>"
    show ?thesis
    proof (cases "sc_closed st")
      case True
      then show ?thesis using HandlerDone Some lr ok j n by (auto simp: finish_request_def guard_request_def conn_ok_def)
    next
      case False
      then have "sends_answer ?st (request_id_from_line env line) (finish_request env ?st rq outcome)"
        using finish_request_answers [of ?st rq env outcome] schema_id(2,3) [OF j(5)] i by simp
      then have "conn_ok env (guard_request env ?st line (finish_request env ?st rq outcome))"
        by (rule conn_ok_guard [OF env, where n = n]) (use j n in simp_all)
      then show ?thesis using HandlerDone Some lr by (simp add: Let_def)
    qed
  qed (simp add: HandlerDone ok)
next
  case SocketClose
  with ok show ?thesis by (auto simp: conn_ok_def)
qed

lemma conn_ok_run: "1048576 \<le> e_max_string env \<Longrightarrow> conn_ok env (run_server env evs)"
  unfolding run_server_def
proof (induction evs rule: rev_induct)
  case Nil
  show ?case by (simp add: new_conn_def conn_ok_def)
qed (simp add: conn_ok_step)

text \<open>C39: Every request gets one answer. Whatever arrives on a connection, in whatever chunks, and
  whatever the handler returns or throws, no exception escapes the server. What it writes is spaces,
  and then, unless the client hangs up or the handler still runs, the line of one response: it
  satisfies the schema, carries the id of the request, stays within the response cap, and as an
  error within the cap of an older client.\<close>

theorem request_answered_once:
  assumes "1048576 \<le> e_max_string env"
  shows "let st = run_server env evs
    in \<not> sc_unhandled st
       \<and> (\<not> sc_ended st \<longrightarrow> (\<exists>n. sc_sent st = replicate n 32) \<and> (sc_handled st \<longrightarrow> sc_running st \<noteq> None \<or> sc_closed st))
       \<and> (sc_ended st \<longrightarrow> (\<exists>n r. sc_sent st = replicate n 32 @ stringify (json_of_response r) @ [10]
            \<and> 10 \<notin> set (stringify (json_of_response r)) \<and> response_ok r
            \<and> response_id r = answer_id env (sc_buffer st)
            \<and> length (stringify (json_of_response r)) < max_rpc_response_chars
            \<and> (case r of RpcFailure _ c _ _ \<Rightarrow> length c \<le> 1000 \<longrightarrow> length (stringify (json_of_response r)) < 1048576
               | _ \<Rightarrow> True)))"
proof -
  have ok: "conn_ok env (run_server env evs)" by (rule conn_ok_run [OF assms])
  have ended: "\<exists>n r. sc_sent st = replicate n 32 @ stringify (json_of_response r) @ [10]
            \<and> 10 \<notin> set (stringify (json_of_response r)) \<and> response_ok r
            \<and> response_id r = answer_id env (sc_buffer st)
            \<and> length (stringify (json_of_response r)) < max_rpc_response_chars
            \<and> (case r of RpcFailure _ c _ _ \<Rightarrow> length c \<le> 1000 \<longrightarrow> length (stringify (json_of_response r)) < 1048576
               | _ \<Rightarrow> True)" if "sc_ended st" "conn_ok env st" for st
  proof -
    obtain n r where r: "sc_sent st = replicate n 32 @ line_of r" "response_id r = answer_id env (sc_buffer st)" "built r"
        "length (line_of r) \<le> max_rpc_response_chars"
      using \<open>sc_ended st\<close> \<open>conn_ok env st\<close> by (auto simp: conn_ok_def)
    have "case r of RpcFailure _ c _ _ \<Rightarrow> length c \<le> 1000 \<longrightarrow> length (stringify (json_of_response r)) < 1048576 | _ \<Rightarrow> True"
    proof (cases r)
      case (RpcFailure i c m d)
      then show ?thesis using failure_fits [of i c m d] r(3)
        by (simp add: line_of_def Suc_le_eq del: stringify.simps json_of_response.simps)
    qed simp
    with r show ?thesis
      by (intro exI [of _ n] exI [of _ r] conjI) (auto simp: built_def line_of_def stringify_no_newline)
  qed
  with ok show ?thesis unfolding Let_def by (auto simp: conn_ok_def)
qed


section \<open>A call over the wire\<close>

lemma dropWhile_append_if: "dropWhile P (xs @ ys) = (if dropWhile P xs = [] then dropWhile P ys else dropWhile P xs @ ys)"
  by (induction xs) auto

lemma takeWhile_line: "10 \<notin> set line \<Longrightarrow> takeWhile (\<lambda>u. u \<noteq> 10) (line @ 10 # rest) = line"
  by (induction line) auto

lemma line_prefix:
  assumes "y @ rest = line @ [10]" and "10 \<notin> set line"
  shows "10 \<in> set y \<longleftrightarrow> y = line @ [10]" and "length y \<le> Suc (length line)"
proof -
  show "length y \<le> Suc (length line)" using arg_cong [OF assms(1), of length] by simp
  show "10 \<in> set y \<longleftrightarrow> y = line @ [10]"
    using assms by (cases rest rule: rev_cases) auto
qed

lemma server_reads_request:
  assumes "process_request_line env (new_conn\<lparr>sc_buffer := line @ [10], sc_handled := True\<rparr>) line
      = Inr (new_conn\<lparr>sc_buffer := line @ [10], sc_handled := True, sc_running := Some (line, rq)\<rparr>)"
    and "10 \<notin> set line" and "length line < max_rpc_request_chars"
    and "b @ concat chunks = line @ [10]" and "10 \<notin> set b"
  shows "foldl (server_step env) (new_conn\<lparr>sc_buffer := b\<rparr>) (map SocketData chunks)
      = new_conn\<lparr>sc_buffer := line @ [10], sc_handled := True, sc_running := Some (line, rq)\<rparr>"
  using assms(4,5)
proof (induction chunks arbitrary: b)
  case Nil
  then show ?case by auto
next
  case (Cons x chunks)
  have split: "(b @ x) @ concat chunks = line @ [10]" using Cons.prems(1) by simp
  note y = line_prefix [OF split assms(2)]
  have fits: "length b + length x \<le> max_rpc_request_chars" using y(2) assms(3) by simp
  have new: "sc_buffer new_conn = []" "\<not> sc_handled new_conn" by (simp_all add: new_conn_def)
  have handled: "foldl (server_step env) st (map SocketData cs) = st" if "sc_handled st" for st cs
    using that by (induction cs) (simp_all add: socket_data_def)
  show ?case
  proof (cases "10 \<in> set (b @ x)")
    case True
    with y(1) have "b @ x = line @ [10]" by blast
    then show ?thesis
      using fits new True assms(1) takeWhile_line [OF assms(2), of "[]"]
      by (simp add: socket_data_def Let_def guard_request_def handled)
  next
    case False
    then show ?thesis using Cons.IH [OF split] fits new by (simp add: socket_data_def Let_def)
  qed
qed

lemma client_reads_line:
  assumes "10 \<notin> set line" and "length line < max_rpc_response_chars"
    and "(if b = [] then dropWhile (\<lambda>u. u = 32) (concat chunks) else b @ concat chunks) = line @ [10]"
    and "10 \<notin> set b"
  shows "cc_settled (foldl (client_step c) (new_client\<lparr>cc_buffer := b\<rparr>) (map Received chunks)) = Some (take_line c line)"
  using assms(3,4)
proof (induction chunks arbitrary: b)
  case Nil
  then show ?case by (auto split: if_splits)
next
  case (Cons x chunks)
  let ?x = "if b = [] then dropWhile (\<lambda>u. u = 32) x else x"
  have new: "cc_buffer new_client = []" "\<not> cc_handled new_client" "cc_settled new_client = None"
    by (simp_all add: new_client_def)
  have handled: "foldl (client_step c) st (map Received cs) = st" if "cc_handled st" for st cs
    using that by (induction cs) (simp_all add: client_data_def)
  show ?case
  proof (cases "?x = []")
    case True
    then have "client_data c (new_client\<lparr>cc_buffer := b\<rparr>) x = new_client\<lparr>cc_buffer := b\<rparr>"
      using new by (simp add: client_data_def Let_def)
    moreover have "(if b = [] then dropWhile (\<lambda>u. u = 32) (concat chunks) else b @ concat chunks) = line @ [10]"
      using Cons.prems(1) True by (cases "b = []") (auto simp: dropWhile_append_if)
    ultimately show ?thesis using Cons.IH [OF _ Cons.prems(2)] by simp
  next
    case False
    have split: "(b @ ?x) @ concat chunks = line @ [10]"
      using Cons.prems(1) False by (cases "b = []") (auto simp: dropWhile_append_if split: if_splits)
    note y = line_prefix [OF split assms(1)]
    have fits: "length b + length ?x \<le> max_rpc_response_chars" using y(2) assms(2) by (simp del: if_split_asm)
    show ?thesis
    proof (cases "10 \<in> set ?x")
      case True
      then have eq: "b @ ?x = line @ [10]" using y(1) by auto
      have "takeWhile (\<lambda>u. u \<noteq> 10) (b @ ?x) = b @ takeWhile (\<lambda>u. u \<noteq> 10) ?x"
        by (rule takeWhile_append2) (use Cons.prems(2) in auto)
      then have rest: "b @ takeWhile (\<lambda>u. u \<noteq> 10) ?x = line"
        using takeWhile_line [OF assms(1), of "[]"] unfolding eq by simp
      have "client_data c (new_client\<lparr>cc_buffer := b\<rparr>) x
          = settle_client (new_client\<lparr>cc_buffer := b, cc_handled := True\<rparr>) (take_line c line)"
        using fits new True False rest by (simp add: client_data_def Let_def)
      then show ?thesis using new by (simp add: settle_client_def handled)
    next
      case nl: False
      have "client_data c (new_client\<lparr>cc_buffer := b\<rparr>) x = new_client\<lparr>cc_buffer := b @ ?x\<rparr>"
        using fits new nl False by (simp add: client_data_def Let_def)
      then show ?thesis using Cons.IH [of "b @ ?x"] split nl False Cons.prems(2) by simp
    qed
  qed
qed

definition reply :: "rpc_env \<Rightarrow> rpc_request \<Rightarrow> handler_outcome \<Rightarrow> rpc_response" where
  \<comment> \<open>what the server sends_answer when the handler of a request ends\<close>
  "reply env rq outcome =
     (let i = rq_id rq; failure = (\<lambda>m. RpcFailure i (js ''RPC_ERROR'') (sendable_message m) None)
      in case outcome of
        HandlerThrowsCli code m d \<Rightarrow> RpcFailure i code (sendable_message m) (sendable_details d)
      | HandlerThrows m \<Rightarrow>
          failure (to_error_message m (js ''RPC handler failed for method \"'' @ rq_method rq @ js ''\".''))
      | HandlerReturns result \<Rightarrow>
          (case e_result env (rq_method rq) result of
             Inl m \<Rightarrow> failure m
           | Inr d \<Rightarrow>
               let n = length (line_of (RpcSuccess i (Some d)))
               in if n > e_max_string env then failure (js ''Invalid string length'')
                  else if n > max_rpc_response_chars
                  then RpcFailure i (js ''PROTOCOL_ERROR'') (sendable_message (over_limit_message n))
                         (sendable_details (DetailsText (JObj [(js ''responseChars'', JNum (int n)),
                            (js ''maxResponseChars'', JNum (int max_rpc_response_chars))])))
                  else RpcSuccess i (Some d)))"

definition handler_outcome_ok :: "rpc_env \<Rightarrow> rpc_request \<Rightarrow> handler_outcome \<Rightarrow> bool" where
  \<comment> \<open>an error has a code of at most 1000 units and a message\<close>
  "handler_outcome_ok env rq outcome \<longleftrightarrow>
     (case outcome of
        HandlerThrowsCli code m _ \<Rightarrow> code \<noteq> [] \<and> length code \<le> 1000 \<and> m \<noteq> []
      | HandlerReturns result \<Rightarrow> (case e_result env (rq_method rq) result of Inl m \<Rightarrow> m \<noteq> [] | Inr _ \<Rightarrow> True)
      | HandlerThrows _ \<Rightarrow> True)"

lemma send_failure:
  assumes "built (RpcFailure i c m d)" and "length c \<le> 1000" and "1048576 \<le> e_max_string env"
  shows "send_response env st (RpcFailure i c m d) = Inr (end_socket st (line_of (RpcFailure i c m d)))"
  using failure_fits [OF assms(1,2)] assms(3) by (simp add: send_response_def response_line_eq max_rpc_response_chars_def)

lemma finish_request_reply:
  assumes env: "1048576 \<le> e_max_string env" and "\<not> sc_closed st" and i: "rq_id rq \<noteq> []" "length (rq_id rq) \<le> max_rpc_request_id_chars"
    and ok: "handler_outcome_ok env rq outcome"
  shows "finish_request env st rq outcome = Inr (end_socket st (line_of (reply env rq outcome)))"
proof -
  have err: "send_error env st (rq_id rq) m = Inr (end_socket st (line_of (RpcFailure (rq_id rq) (js ''RPC_ERROR'') (sendable_message m) None)))"
    if "m \<noteq> []" for m
    by (rule send_error_answers [OF env i that])
  show ?thesis
  proof (cases outcome)
    case (HandlerThrowsCli code m d)
    have "built (RpcFailure (rq_id rq) code (sendable_message m) (sendable_details d))"
      using built_error [OF i(2,1)] ok HandlerThrowsCli by (simp add: handler_outcome_ok_def)
    from send_failure [OF this _ env, of st] ok HandlerThrowsCli assms(2) i show ?thesis
      by (simp add: finish_request_def Let_def handler_outcome_ok_def build_cli_error_response_eq reply_def)
  next
    case (HandlerThrows m)
    have "to_error_message m (js t @ u) \<noteq> []" if "t \<noteq> []" for t u
      using that by (auto simp: to_error_message_def split: option.splits)
    with HandlerThrows err assms(2) show ?thesis by (simp add: finish_request_def Let_def reply_def)
  next
    case (HandlerReturns result)
    show ?thesis
    proof (cases "e_result env (rq_method rq) result")
      case (Inl m)
      with HandlerReturns err ok assms(2) show ?thesis by (simp add: finish_request_def Let_def reply_def handler_outcome_ok_def)
    next
      case (Inr d)
      let ?r = "RpcSuccess (rq_id rq) (Some d)"
      have build: "build_success_response (rq_id rq) d = Inr ?r"
        using i by (simp add: build_success_response_def Let_def response_ok_iff)
      consider "length (line_of ?r) > e_max_string env"
        | "length (line_of ?r) \<le> e_max_string env" "length (line_of ?r) > max_rpc_response_chars"
        | "length (line_of ?r) \<le> e_max_string env" "length (line_of ?r) \<le> max_rpc_response_chars" by linarith
      then show ?thesis
      proof cases
        case 1
        then show ?thesis using HandlerReturns Inr build err [of "js ''Invalid string length''"] assms(2)
          by (simp add: finish_request_def Let_def reply_def send_response_def response_line_eq error_message_def to_error_message_def)
      next
        case 2
        let ?n = "length (line_of ?r)"
        let ?d = "DetailsText (JObj [(js ''responseChars'', JNum (int ?n)), (js ''maxResponseChars'', JNum (int max_rpc_response_chars))])"
        let ?f = "RpcFailure (rq_id rq) (js ''PROTOCOL_ERROR'') (sendable_message (over_limit_message ?n)) (sendable_details ?d)"
        have over: "over_limit_message ?n \<noteq> []" by (simp add: over_limit_message_def)
        have "built ?f" using built_error [OF i(2,1), of "js ''PROTOCOL_ERROR''"] over by simp
        then have "length (line_of ?f) \<le> e_max_string env" using failure_fits env by fastforce
        with 2 HandlerReturns Inr build over assms(2) i(1) show ?thesis
          by (simp add: finish_request_def Let_def reply_def send_response_def response_line_eq [of env] build_cli_error_response_eq
              del: stringify.simps)
      next
        case 3
        then show ?thesis using HandlerReturns Inr build assms(2)
          by (simp add: finish_request_def Let_def reply_def send_response_def response_line_eq)
      qed
    qed
  qed
qed

lemma reply_built:
  assumes "rq_id rq \<noteq> []" and "length (rq_id rq) \<le> max_rpc_request_id_chars" and "handler_outcome_ok env rq outcome"
  shows "built (reply env rq outcome)" and "length (line_of (reply env rq outcome)) \<le> max_rpc_response_chars"
    and "response_id (reply env rq outcome) = rq_id rq"
proof -
  have err: "built (RpcFailure (rq_id rq) c (sendable_message m) None)" if "c \<noteq> []" "m \<noteq> []" for c m
    using built_error [OF assms(2,1) that, of NoDetails] by (simp add: sendable_details_def)
  have cli: "built (RpcFailure (rq_id rq) c (sendable_message m) (sendable_details d))" if "c \<noteq> []" "m \<noteq> []" for c m d
    using built_error [OF assms(2,1) that] .
  have fits: "length (line_of (RpcFailure i c m d)) \<le> max_rpc_response_chars" if "built (RpcFailure i c m d)" "length c \<le> 1000" for i c m d
    using failure_fits [OF that] by (simp add: max_rpc_response_chars_def)
  have msg: "to_error_message m (js t @ u) \<noteq> []" if "t \<noteq> []" for m t u
    using that by (auto simp: to_error_message_def split: option.splits)
  have over: "over_limit_message n \<noteq> []" for n by (simp add: over_limit_message_def)
  have success: "built (RpcSuccess (rq_id rq) d)" for d using assms(1,2) by (simp add: built_def response_ok_iff)
  show "built (reply env rq outcome)" "length (line_of (reply env rq outcome)) \<le> max_rpc_response_chars"
    "response_id (reply env rq outcome) = rq_id rq"
    using assms(3) err cli msg over success fits
    by (auto simp: reply_def Let_def handler_outcome_ok_def split: handler_outcome.splits sum.splits)
qed

definition direct_call :: "rpc_env \<Rightarrow> rpc_call \<Rightarrow> rpc_request \<Rightarrow> handler_outcome \<Rightarrow> client_result" where
  \<comment> \<open>the call of a handler without a wire, up to the limits and the schemas\<close>
  "direct_call env c rq outcome =
     (let rejected = (\<lambda>code m d. Rejected (to_response_cli_error code (sendable_message m) (sendable_details d)));
          rpc_error = (\<lambda>m. rejected (js ''RPC_ERROR'') m NoDetails)
      in case outcome of
        HandlerThrowsCli code m d \<Rightarrow> rejected code m d
      | HandlerThrows m \<Rightarrow> rpc_error (to_error_message m (js ''RPC handler failed for method \"'' @ rq_method rq @ js ''\".''))
      | HandlerReturns result \<Rightarrow>
          (case e_result env (rq_method rq) result of
             Inl m \<Rightarrow> rpc_error m
           | Inr d \<Rightarrow>
               let n = length (line_of (RpcSuccess (rq_id rq) (Some d)))
               in if n > e_max_string env then rpc_error (js ''Invalid string length'')
                  else if n > max_rpc_response_chars
                  then rejected (js ''PROTOCOL_ERROR'') (over_limit_message n)
                         (DetailsText (JObj [(js ''responseChars'', JNum (int n)),
                            (js ''maxResponseChars'', JNum (int max_rpc_response_chars))]))
                  else (case rc_result c (Some d) of
                          Some d' \<Rightarrow> Resolved d'
                        | None \<Rightarrow> call_error c (for_method ''RPC result failed validation'' c) [])))"

lemma take_reply:
  assumes "rc_request_id c = rq_id rq" and "rc_known c"
  shows "take_response c (reply env rq outcome) = direct_call env c rq outcome"
  using assms by (auto simp: take_response_def reply_def direct_call_def Let_def sendable_details_def
      split: handler_outcome.splits sum.splits)

lemma server_runs_call:
  assumes "e_parse env (stringify (json_of_request rq)) = Inr (json_of_request rq)"
    and rq: "rq_id rq \<noteq> []" "length (rq_id rq) \<le> max_rpc_request_id_chars" "rq_method rq \<noteq> []"
    and "e_handles env (rq_method rq)" and "e_params env (rq_method rq) (rq_params rq) = Inr p"
    and "length (stringify (json_of_request rq)) < max_rpc_request_chars"
    and "concat chunks = stringify (json_of_request rq) @ [10]"
    and env: "1048576 \<le> e_max_string env" and ok: "handler_outcome_ok env rq outcome"
  shows "sc_sent (run_server env (map SocketData chunks @ replicate n KeepAlive @ [HandlerDone outcome]))
    = replicate n 32 @ line_of (reply env rq outcome)"
proof -
  let ?line = "stringify (json_of_request rq)"
  let ?st = "new_conn\<lparr>sc_buffer := ?line @ [10], sc_handled := True, sc_running := Some (?line, rq)\<rparr>"
  have "process_request_line env (new_conn\<lparr>sc_buffer := ?line @ [10], sc_handled := True\<rparr>) ?line = Inr ?st"
    using assms(1,5,6) request_schema_roundtrip [OF rq] by (simp add: process_request_line_def)
  from server_reads_request [OF this stringify_no_newline assms(7), of "[]" chunks] assms(8)
  have read: "foldl (server_step env) new_conn (map SocketData chunks) = ?st" by (simp add: new_conn_def)
  have idle: "\<not> sc_ended new_conn" "\<not> sc_closed new_conn" "sc_sent new_conn = []" by (simp_all add: new_conn_def)
  have alive: "foldl (server_step env) (?st\<lparr>sc_sent := replicate k 32\<rparr>) (replicate n KeepAlive) = ?st\<lparr>sc_sent := replicate (k + n) 32\<rparr>" for k
  proof (induction n arbitrary: k)
    case (Suc n)
    from Suc [of "Suc k"] idle show ?case by (simp add: replicate_append_same)
  qed simp
  let ?st1 = "?st\<lparr>sc_sent := replicate n 32\<rparr>"
  have run: "foldl (server_step env) new_conn (map SocketData chunks @ replicate n KeepAlive) = ?st1"
  proof -
    have "?st\<lparr>sc_sent := []\<rparr> = ?st" by (simp add: new_conn_def)
    with alive [of 0] read show ?thesis by simp
  qed
  have "finish_request env (?st1\<lparr>sc_running := None\<rparr>) rq outcome
      = Inr (end_socket (?st1\<lparr>sc_running := None\<rparr>) (line_of (reply env rq outcome)))"
    by (rule finish_request_reply [OF env _ rq(1,2) ok]) (simp add: idle)
  with run show ?thesis using idle by (simp add: run_server_def guard_request_def end_socket_def)
qed

text \<open>C2: A call over the wire is a call. Let the request reach the host in any chunks, let its handler
  report progress any number of times and then return or throw, and let what the host writes reach
  the client in any chunks. Then the client settles with the result of the handler, read by both
  schemas, or with its error: the code, the message and the details, a message over 65,536 units cut,
  details over 65,536 units dropped, and a result over the cap refused with PROTOCOL_ERROR.\<close>

theorem call_delivers_outcome:
  assumes "e_parse env (stringify (json_of_request rq)) = Inr (json_of_request rq)"
    and "rc_parse c (stringify (json_of_response (reply env rq outcome))) = Inr (json_of_response (reply env rq outcome))"
    and rq: "rq_id rq \<noteq> []" "length (rq_id rq) \<le> max_rpc_request_id_chars" "rq_method rq \<noteq> []"
    and c: "rc_request_id c = rq_id rq" "rc_known c"
    and handled: "e_handles env (rq_method rq)" "e_params env (rq_method rq) (rq_params rq) = Inr p"
    and size: "length (stringify (json_of_request rq)) < max_rpc_request_chars" "1048576 \<le> e_max_string env"
    and ok: "handler_outcome_ok env rq outcome"
    and sent: "concat chunks = stringify (json_of_request rq) @ [10]"
    and received: "concat pieces
      = sc_sent (run_server env (map SocketData chunks @ replicate n KeepAlive @ [HandlerDone outcome]))"
  shows "cc_settled (run_client c (map Received pieces)) = Some (direct_call env c rq outcome)"
proof -
  let ?r = "reply env rq outcome"
  note fits = reply_built [OF rq(1,2) ok]
  have stream: "concat pieces = replicate n 32 @ stringify (json_of_response ?r) @ [10]"
    using server_runs_call [OF assms(1) rq handled size(1) sent size(2) ok] received by (simp add: line_of_def)
  have "dropWhile (\<lambda>u. u = 32) (replicate n 32 @ t) = dropWhile (\<lambda>u. u = 32) t" for t :: jstring
    by (induction n) auto
  moreover have "dropWhile (\<lambda>u. u = 32) (stringify (json_of_response ?r) @ [10]) = stringify (json_of_response ?r) @ [10]"
    by (cases ?r) simp_all
  ultimately have "dropWhile (\<lambda>u. u = 32) (concat pieces) = stringify (json_of_response ?r) @ [10]" using stream by simp
  then have "cc_settled (foldl (client_step c) (new_client\<lparr>cc_buffer := []\<rparr>) (map Received pieces))
      = Some (take_line c (stringify (json_of_response ?r)))"
    by (intro client_reads_line) (use fits(2) in \<open>simp_all add: stringify_no_newline line_of_def\<close>)
  moreover have "take_line c (stringify (json_of_response ?r)) = take_response c ?r"
    using assms(2) fits(1) by (simp add: take_line_def built_def response_ok_def)
  ultimately show ?thesis using take_reply [OF c] by (simp add: run_client_def new_client_def)
qed

section \<open>A request over the cap\<close>

text \<open>
  The server sends_answer a request over its buffer before it knows the id, so with the id \<open>unknown\<close>. The
  client compares the ids first: it reports a mismatch, which counts as worth a retry, and not the
  message of the server.
\<close>

lemma oversize_request_reported_as_mismatch:
  assumes "max_rpc_request_chars < length chunk" and "1048576 \<le> e_max_string env" and "rc_request_id c \<noteq> unknown_request_id"
    and r: "r = RpcFailure unknown_request_id (js ''RPC_ERROR'') (js ''RPC request exceeds maximum buffer size.'') None"
    and "rc_parse c (stringify (json_of_response r)) = Inr (json_of_response r)"
  shows "cc_settled (run_client c [Received (sc_sent (run_server env [SocketData chunk]))])
      = Some (Rejected \<lparr>ce_code = js ''RPC_ERROR'', ce_message = for_method ''RPC response id mismatch'' c, ce_retryable = True,
          ce_details = call_fields c @ [(js ''expectedId'', JStr (rc_request_id c)), (js ''actualId'', JStr unknown_request_id)]\<rparr>)"
proof -
  have m: "sendable_message (js ''RPC request exceeds maximum buffer size.'') = js ''RPC request exceeds maximum buffer size.''"
    by (simp add: sendable_message_def max_rpc_error_message_chars_def)
  have b: "built r"
    using built_error [OF unknown_id(2,1), of "js ''RPC_ERROR''" "js ''RPC request exceeds maximum buffer size.''" NoDetails] m
    unfolding r by (simp add: sendable_details_def)
  have sent: "sc_sent (run_server env [SocketData chunk]) = line_of r"
    using send_error_answers [OF assms(2) unknown_id, of "js ''RPC request exceeds maximum buffer size.''"] assms(1) m r
    by (simp add: run_server_def socket_data_def new_conn_def answer_at_once_def end_socket_def)
  have "dropWhile (\<lambda>u. u = 32) (stringify (json_of_response r) @ [10]) = stringify (json_of_response r) @ [10]"
    by (cases r) simp_all
  moreover have "length (line_of r) \<le> 1048576" using failure_fits b unfolding r by simp
  ultimately have "cc_settled (foldl (client_step c) (new_client\<lparr>cc_buffer := []\<rparr>) (map Received [line_of r]))
      = Some (take_line c (stringify (json_of_response r)))"
    by (intro client_reads_line) (simp_all add: stringify_no_newline line_of_def max_rpc_response_chars_def)
  moreover have "take_line c (stringify (json_of_response r)) = take_response c r"
    using assms(5) b by (simp add: take_line_def built_def response_ok_def)
  moreover have "retryable_code (js ''RPC_ERROR'')" by (simp add: retryable_code_def)
  ultimately show ?thesis using assms(3) sent r
    by (simp add: run_client_def new_client_def take_response_def call_error_def make_client_error_def)
qed

section \<open>Examples\<close>

definition rpc_example_request :: rpc_request where
  "rpc_example_request = \<lparr>rq_id = js ''r1'', rq_method = js ''mark'', rq_params = [(js ''label'', JStr (js ''a''))]\<rparr>"

definition rpc_example_result :: json where "rpc_example_result = JObj [(js ''marked'', JBool True)]"

definition rpc_example_env :: rpc_env where
  "rpc_example_env =
     \<lparr>e_parse = (\<lambda>s. if s = stringify (json_of_request rpc_example_request) then Inr (json_of_request rpc_example_request)
                       else Inl (js ''Unexpected token'')),
      e_handles = (\<lambda>m. m = js ''mark''), e_issues = (\<lambda>_. js ''[]''), e_params = (\<lambda>_ ps. Inr (JObj ps)),
      e_result = (\<lambda>_ r. case r of Some d \<Rightarrow> Inr d | None \<Rightarrow> Inl (js ''[]'')), e_max_string = 536870888\<rparr>"

definition rpc_example_call :: rpc_call where
  "rpc_example_call =
     \<lparr>rc_socket_path = js ''/tmp/s'', rc_method = js ''mark'', rc_request_id = js ''r1'', rc_timeout_ms = 5000,
      rc_parse = (\<lambda>s. if s = stringify (json_of_response (RpcSuccess (js ''r1'') (Some rpc_example_result)))
                        then Inr (json_of_response (RpcSuccess (js ''r1'') (Some rpc_example_result))) else Inl []),
      rc_known = True, rc_result = Some\<rparr>"

lemma length_quote_js: "length (quote (js k)) \<le> 6 * length k + 2"
  using length_quote [of "js k"] by simp

lemma rpc_example_sizes:
  "length (stringify (json_of_request rpc_example_request)) < max_rpc_request_chars"
  "length (line_of (RpcSuccess (js ''r1'') (Some rpc_example_result))) \<le> 1000"
  using length_quote_js [of "''id''"] length_quote_js [of "''r1''"] length_quote_js [of "''method''"]
    length_quote_js [of "''mark''"] length_quote_js [of "''params''"] length_quote_js [of "''label''"]
    length_quote_js [of "''a''"] length_quote_js [of "''ok''"] length_quote_js [of "''result''"] length_quote_js [of "''marked''"]
  by (simp_all add: json_of_request_def rpc_example_request_def max_rpc_request_chars_def line_of_def optional_field_def rpc_example_result_def)

theorem request_answered_once_witness:
  "let st = run_server rpc_example_env [SocketData (js ''x''), SocketEnd]
   in \<not> sc_unhandled st
      \<and> (\<exists>n r. sc_sent st = replicate n 32 @ stringify (json_of_response r) @ [10] \<and> response_id r = unknown_request_id)"
proof -
  have env: "1048576 \<le> e_max_string rpc_example_env" by (simp add: rpc_example_env_def)
  let ?st = "run_server rpc_example_env [SocketData (js ''x''), SocketEnd]"
  have nl: "10 \<notin> set (js ''x'')" by (simp add: js_eval)
  have "sc_ended ?st" "sc_buffer ?st = js ''x''"
    using send_error_answers [OF env unknown_id] nl
    by (simp_all add: run_server_def new_conn_def socket_data_def socket_end_def Let_def max_rpc_request_chars_def
        answer_at_once_def end_socket_def)
  with request_answered_once [OF env, of "[SocketData (js ''x''), SocketEnd]"] nl show ?thesis
    by (fastforce simp: Let_def answer_id_def)
qed

theorem call_delivers_outcome_witness:
  "let line = stringify (json_of_request rpc_example_request);
       sent = sc_sent (run_server rpc_example_env (map SocketData [take 5 line, drop 5 line @ [10]]
                @ replicate 2 KeepAlive @ [HandlerDone (HandlerReturns (Some rpc_example_result))]))
   in cc_settled (run_client rpc_example_call (map Received [take 4 sent, drop 4 sent])) = Some (Resolved (Some rpc_example_result))"
proof -
  let ?o = "HandlerReturns (Some rpc_example_result)"
  have small: "\<not> 536870888 < length (line_of (RpcSuccess (js ''r1'') (Some rpc_example_result)))"
      "\<not> max_rpc_response_chars < length (line_of (RpcSuccess (js ''r1'') (Some rpc_example_result)))"
    using rpc_example_sizes(2) by (simp_all add: max_rpc_response_chars_def)
  have reply: "reply rpc_example_env rpc_example_request ?o = RpcSuccess (js ''r1'') (Some rpc_example_result)"
    using small by (simp add: reply_def rpc_example_env_def rpc_example_request_def Let_def)
  have direct: "direct_call rpc_example_env rpc_example_call rpc_example_request ?o = Resolved (Some rpc_example_result)"
    using small by (simp add: direct_call_def rpc_example_env_def rpc_example_request_def rpc_example_call_def Let_def)
  have parse: "rc_parse rpc_example_call (stringify (json_of_response (reply rpc_example_env rpc_example_request ?o)))
      = Inr (json_of_response (reply rpc_example_env rpc_example_request ?o))"
    unfolding reply by (simp add: rpc_example_call_def)
  show ?thesis
    unfolding Let_def direct [symmetric]
    by (rule call_delivers_outcome [where n = 2 and chunks = "[take 5 (stringify (json_of_request rpc_example_request)),
          drop 5 (stringify (json_of_request rpc_example_request)) @ [10]]", OF _ parse])
      (use rpc_example_sizes(1) in \<open>simp_all add: rpc_example_env_def rpc_example_request_def rpc_example_call_def handler_outcome_ok_def max_rpc_request_id_chars_def\<close>)
qed


end
