(* ===== verification/ArtifactLock.thy ===== *)
theory ArtifactLock
  imports HostRecord
begin

text \<open>
  The lock of an artifact manifest. Processes of several sessions update one manifest under a lock
  file, which a writer takes with an exclusive link, and which another writer breaks when its owner
  is gone. A step of a writer is one call of the file system, so the calls of all writers interleave
  freely, and a writer can crash before any of them. The folder allows hard links, and a regular file
  that is there can be read; a file without the record of a writer has foreign contents. The sleeps
  between attempts are the steps of other writers. The update itself is the read of the manifest and
  its write, which replaces the file as a whole.
\<close>

section \<open>Files and writers\<close>

type_synonym writer = nat    \<comment> \<open>one acquisition, with its own token and its own file names\<close>

datatype lock_path =
    LockFile                     \<comment> \<open>\<open>manifest.json.lock\<close>\<close>
  | BreakFile                    \<comment> \<open>\<open>.break\<close>\<close>
  | TempFile writer              \<comment> \<open>\<open>.tmp-ID\<close>\<close>
  | Announcement writer          \<comment> \<open>\<open>.breakers/ID\<close>\<close>

datatype lock_contents = RecordOf writer | Foreign "jstring option"   \<comment> \<open>unreadable or not a regular file: nothing\<close>

type_synonym lock_files = "(lock_path \<times> lock_contents \<times> int) list"   \<comment> \<open>with the modification time\<close>

definition lock_file :: "lock_files \<Rightarrow> lock_path \<Rightarrow> (lock_contents \<times> int) option" where
  "lock_file fs p = map_of fs p"

definition remove_file :: "lock_path \<Rightarrow> lock_files \<Rightarrow> lock_files" where
  "remove_file p fs = filter (\<lambda>(q, _). q \<noteq> p) fs"

definition put_file :: "lock_path \<Rightarrow> lock_contents \<times> int \<Rightarrow> lock_files \<Rightarrow> lock_files" where
  "put_file p f fs = (p, f) # remove_file p fs"

definition list_breakers :: "lock_files \<Rightarrow> writer list" where
  \<comment> \<open>\<open>readdir\<close> of the folder of announcements\<close>
  "list_breakers fs = concat (map (\<lambda>(p, _). case p of Announcement w \<Rightarrow> [w] | _ \<Rightarrow> []) fs)"

definition list_beside_lock :: "lock_files \<Rightarrow> lock_path list" where
  \<comment> \<open>\<open>readdir\<close> of the artifacts: the break file and the files of waiting writers\<close>
  "list_beside_lock fs = filter (\<lambda>p. case p of BreakFile \<Rightarrow> True | TempFile _ \<Rightarrow> True | _ \<Rightarrow> False) (map fst fs)"

datatype break_outcome = Retry | HeldByOther | Met | BreakError

datatype judge_at =
    JudgeLock
  | JudgeBreaker lock_contents "writer list"     \<comment> \<open>the judged lock, the announcements still to look at\<close>
  | JudgeBreak lock_contents
  | JudgeOld "lock_path list"

datatype remove_for =
    ForScan lock_contents "writer list"
  | ForBreak                                     \<comment> \<open>the break file of a breaker that is gone\<close>
  | ForLock lock_contents
  | ForOwnBreak break_outcome
  | ForOld "lock_path list"
  | ForRelease nat

datatype 'm lock_pc =
    WriteTemp
  | Refresh
  | Rewrite
  | LinkLock
  | Reading lock_path judge_at
  | Statting lock_path lock_contents judge_at
  | MakeFolder lock_contents
  | Announce lock_contents
  | ListFolder lock_contents
  | LinkBreak lock_contents
  | Comparing lock_path lock_contents remove_for
  | CompareStat lock_path bool remove_for
  | Removing lock_path remove_for
  | LeaveBreakers break_outcome
  | RemoveFolder break_outcome
  | ReadHolder
  | ListOld
  | ListOldBreakers "lock_path list"
  | RemoveOldFolder
  | CleanTemp bool                               \<comment> \<open>whether the writer has the lock\<close>
  | ReadManifest
  | WriteManifest 'm
  | Finished
  | Failed

record 'm writer_state =
  ws_pc :: "'m lock_pc"
  ws_found_taken :: bool
  ws_deadline :: int
  ws_crashed :: bool

record 'm lock_world =
  lw_files :: lock_files
  lw_folder :: bool                                   \<comment> \<open>whether the folder of announcements exists\<close>
  lw_writers :: "writer \<Rightarrow> 'm writer_state"
  lw_unreleased :: "nat \<Rightarrow> lock_contents option"    \<comment> \<open>of each process\<close>
  lw_manifest :: 'm
  lw_writes :: "writer list"                          \<comment> \<open>who has written the manifest, in order\<close>

record 'm lock_env =
  le_process :: "writer \<Rightarrow> nat"
  le_owner :: "writer \<Rightarrow> int \<times> host_record option"   \<comment> \<open>the pid and the process in its record\<close>
  le_linux :: bool
  le_wait_ms :: int
  le_stale_ms :: int
  le_update :: "writer \<Rightarrow> 'm \<Rightarrow> 'm"

text \<open>What a step takes from outside: the clock, the verdict on a process, and whether its call fails.\<close>

record lock_input =
  li_now :: int
  li_judge :: "int \<Rightarrow> host_record option \<Rightarrow> host_verdict"
  li_fails :: bool

section \<open>Judgements\<close>

definition is_older_than :: "lock_input \<Rightarrow> int \<Rightarrow> int \<Rightarrow> bool" where
  "is_older_than inp modifiedAtMs limitMs \<longleftrightarrow> \<bar>li_now inp - modifiedAtMs\<bar> > limitMs"

definition is_owner_gone :: "'m lock_env \<Rightarrow> lock_input \<Rightarrow> lock_contents \<times> int \<Rightarrow> bool" where
  "is_owner_gone env inp st =
     (let verdict = (case fst st of
          Foreign _ \<Rightarrow> HostUnknown
        | RecordOf w \<Rightarrow>
            if snd (le_owner env w) = None \<and> le_linux env then HostUnknown
            else li_judge inp (fst (le_owner env w)) (snd (le_owner env w)))
      in if verdict = HostUnknown then is_older_than inp (snd st) (le_stale_ms env) else verdict = HostDead)"

definition is_stale_break_file :: "'m lock_env \<Rightarrow> lock_input \<Rightarrow> lock_contents \<times> int \<Rightarrow> bool" where
  "is_stale_break_file env inp st \<longleftrightarrow> is_owner_gone env inp st \<or> is_older_than inp (snd st) (le_stale_ms env)"

definition is_stale_lock :: "'m lock_env \<Rightarrow> lock_input \<Rightarrow> 'm lock_world \<Rightarrow> writer \<Rightarrow> lock_contents \<times> int \<Rightarrow> bool" where
  "is_stale_lock env inp world w st \<longleftrightarrow>
     lw_unreleased world (le_process env w) = Some (fst st) \<or> is_owner_gone env inp st"

section \<open>The steps of a writer\<close>

definition pc_of :: "'m lock_world \<Rightarrow> writer \<Rightarrow> 'm lock_pc" where
  "pc_of world w = ws_pc (lw_writers world w)"

definition goto :: "writer \<Rightarrow> 'm lock_pc \<Rightarrow> 'm lock_world \<Rightarrow> 'm lock_world" where
  "goto w pc world = world\<lparr>lw_writers := (lw_writers world)(w := (lw_writers world w)\<lparr>ws_pc := pc\<rparr>)\<rparr>"

definition with_file :: "lock_path \<Rightarrow> lock_contents \<times> int \<Rightarrow> 'm lock_world \<Rightarrow> 'm lock_world" where
  "with_file p f world = world\<lparr>lw_files := put_file p f (lw_files world)\<rparr>"

definition without_file :: "lock_path \<Rightarrow> 'm lock_world \<Rightarrow> 'm lock_world" where
  "without_file p world = world\<lparr>lw_files := remove_file p (lw_files world)\<rparr>"

definition remove_folder :: "'m lock_world \<Rightarrow> 'm lock_world" where
  \<comment> \<open>\<open>rmdir\<close> removes an empty folder only\<close>
  "remove_folder world = world\<lparr>lw_folder := lw_folder world \<and> list_breakers (lw_files world) \<noteq> []\<rparr>"

definition release :: "writer \<Rightarrow> nat \<Rightarrow> 'm lock_pc" where
  "release w attempt = Comparing LockFile (RecordOf w) (ForRelease attempt)"

fun scan_next :: "lock_contents \<Rightarrow> writer list \<Rightarrow> 'm lock_pc" where
  "scan_next c [] = LinkBreak c"
| "scan_next c (v # vs) = Reading (Announcement v) (JudgeBreaker c vs)"

fun old_next :: "lock_path list \<Rightarrow> 'm lock_pc" where
  "old_next [] = RemoveOldFolder"
| "old_next (p # ps) = Reading p (JudgeOld ps)"

fun judged_missing :: "judge_at \<Rightarrow> 'm lock_pc" where
  "judged_missing JudgeLock = Refresh"
| "judged_missing (JudgeBreaker c todo) = scan_next c todo"
| "judged_missing (JudgeBreak c) = LeaveBreakers HeldByOther"
| "judged_missing (JudgeOld todo) = old_next todo"

fun judge_fails :: "judge_at \<Rightarrow> 'm lock_pc" where
  "judge_fails JudgeLock = CleanTemp False"
| "judge_fails (JudgeBreaker c todo) = LeaveBreakers BreakError"
| "judge_fails (JudgeBreak c) = LeaveBreakers BreakError"
| "judge_fails (JudgeOld todo) = old_next todo"

definition judged ::
  "'m lock_env \<Rightarrow> lock_input \<Rightarrow> 'm lock_world \<Rightarrow> writer \<Rightarrow> lock_path \<Rightarrow> lock_contents \<times> int \<Rightarrow> judge_at \<Rightarrow> 'm lock_pc" where
  "judged env inp world w p st at =
     (case at of
        JudgeLock \<Rightarrow> if is_stale_lock env inp world w st then MakeFolder (fst st) else Refresh
      | JudgeBreaker c todo \<Rightarrow>
          if is_stale_break_file env inp st then Comparing p (fst st) (ForScan c todo) else LeaveBreakers Met
      | JudgeBreak c \<Rightarrow>
          if is_stale_break_file env inp st then Comparing p (fst st) ForBreak else LeaveBreakers HeldByOther
      | JudgeOld todo \<Rightarrow>
          if (case p of TempFile _ \<Rightarrow> is_owner_gone env inp st | _ \<Rightarrow> is_stale_break_file env inp st)
          then Comparing p (fst st) (ForOld todo) else old_next todo)"

fun removed :: "writer \<Rightarrow> remove_for \<Rightarrow> 'm lock_pc" where
  \<comment> \<open>after \<open>removeIfUnchanged\<close>\<close>
  "removed w (ForScan c todo) = scan_next c todo"
| "removed w ForBreak = LeaveBreakers HeldByOther"
| "removed w (ForLock c) = Comparing BreakFile (RecordOf w) (ForOwnBreak Retry)"
| "removed w (ForOwnBreak out) = LeaveBreakers out"
| "removed w (ForOld todo) = old_next todo"
| "removed w (ForRelease n) = Finished"

definition after_removal :: "'m lock_env \<Rightarrow> writer \<Rightarrow> remove_for \<Rightarrow> 'm lock_world \<Rightarrow> 'm lock_world" where
  "after_removal env w k world =
     goto w (removed w k)
       (case k of
          ForLock c \<Rightarrow>
            if lw_unreleased world (le_process env w) = Some c
            then world\<lparr>lw_unreleased := (lw_unreleased world)(le_process env w := None)\<rparr> else world
        | _ \<Rightarrow> world)"

definition removal_fails :: "'m lock_env \<Rightarrow> writer \<Rightarrow> remove_for \<Rightarrow> 'm lock_world \<Rightarrow> 'm lock_world" where
  "removal_fails env w k world =
     (case k of
        ForScan c todo \<Rightarrow> goto w (LeaveBreakers BreakError) world
      | ForBreak \<Rightarrow> goto w (LeaveBreakers BreakError) world
      | ForLock c \<Rightarrow> goto w (Comparing BreakFile (RecordOf w) (ForOwnBreak BreakError)) world
      | ForOwnBreak out \<Rightarrow> goto w (LeaveBreakers BreakError) world
      | ForOld todo \<Rightarrow> goto w (old_next todo) world
      | ForRelease n \<Rightarrow>
          if n \<ge> 3
          then goto w Finished (world\<lparr>lw_unreleased := (lw_unreleased world)(le_process env w := Some (RecordOf w))\<rparr>)
          else goto w (release w (n + 1)) world)"

definition link_lock :: "'m lock_env \<Rightarrow> writer \<Rightarrow> lock_input \<Rightarrow> 'm lock_world \<Rightarrow> 'm lock_world" where
  "link_lock env w inp world =
     (case lock_file (lw_files world) (TempFile w) of
        None \<Rightarrow> goto w (CleanTemp False) world
      | Some f \<Rightarrow>
          if li_fails inp then goto w (CleanTemp False) world
          else if lock_file (lw_files world) LockFile = None
          then goto w (if ws_found_taken (lw_writers world w) then ListOld else CleanTemp True) (with_file LockFile f world)
          else goto w (if li_now inp \<ge> ws_deadline (lw_writers world w) then ReadHolder else Reading LockFile JudgeLock)
                 (world\<lparr>lw_writers := (lw_writers world)(w := (lw_writers world w)\<lparr>ws_found_taken := True\<rparr>)\<rparr>))"

definition announce :: "writer \<Rightarrow> lock_input \<Rightarrow> lock_contents \<Rightarrow> 'm lock_world \<Rightarrow> 'm lock_world" where
  "announce w inp c world =
     (case lock_file (lw_files world) (TempFile w) of
        Some f \<Rightarrow>
          if \<not> lw_folder world then goto w Refresh world
          else if li_fails inp then goto w (CleanTemp False) world
          else goto w (ListFolder c)
                 (if lock_file (lw_files world) (Announcement w) = None then with_file (Announcement w) f world else world)
      | None \<Rightarrow> goto w Refresh world)"

definition link_break :: "writer \<Rightarrow> lock_input \<Rightarrow> lock_contents \<Rightarrow> 'm lock_world \<Rightarrow> 'm lock_world" where
  "link_break w inp c world =
     (case lock_file (lw_files world) (TempFile w) of
        None \<Rightarrow> goto w (LeaveBreakers BreakError) world
      | Some f \<Rightarrow>
          if li_fails inp then goto w (LeaveBreakers BreakError) world
          else if lock_file (lw_files world) BreakFile = None
          then goto w (Comparing LockFile c (ForLock c)) (with_file BreakFile f world)
          else goto w (Reading BreakFile (JudgeBreak c)) world)"

definition lock_step :: "'m lock_env \<Rightarrow> writer \<Rightarrow> lock_input \<Rightarrow> 'm lock_world \<Rightarrow> 'm lock_world" where
  "lock_step env w inp world =
     (let fs = lw_files world; fails = li_fails inp
      in case pc_of world w of
        WriteTemp \<Rightarrow>
          if fails then goto w (CleanTemp False) world
          else goto w Refresh (with_file (TempFile w) (RecordOf w, li_now inp)
                 (world\<lparr>lw_writers := (lw_writers world)(w := (lw_writers world w)\<lparr>ws_deadline := li_now inp + le_wait_ms env\<rparr>)\<rparr>))
      | Refresh \<Rightarrow>
          if fails then goto w (CleanTemp False) world
          else (case lock_file fs (TempFile w) of
                  None \<Rightarrow> goto w Rewrite world
                | Some (c, m) \<Rightarrow> goto w LinkLock (with_file (TempFile w) (c, li_now inp) world))
      | Rewrite \<Rightarrow>
          if fails \<or> lock_file fs (TempFile w) \<noteq> None then goto w (CleanTemp False) world
          else goto w LinkLock (with_file (TempFile w) (RecordOf w, li_now inp) world)
      | LinkLock \<Rightarrow> link_lock env w inp world
      | Reading p at \<Rightarrow>
          (case lock_file fs p of
             None \<Rightarrow> goto w (judged_missing at) world
           | Some (c, m) \<Rightarrow> goto w (Statting p c at) world)
      | Statting p c at \<Rightarrow>
          if fails then goto w (judge_fails at) world
          else (case lock_file fs p of
                  None \<Rightarrow> goto w (judged_missing at) world
                | Some (c', m) \<Rightarrow> goto w (judged env inp world w p (c, m) at) world)
      | MakeFolder c \<Rightarrow>
          if fails then goto w (CleanTemp False) world else goto w (Announce c) (world\<lparr>lw_folder := True\<rparr>)
      | Announce c \<Rightarrow> announce w inp c world
      | ListFolder c \<Rightarrow>
          if fails \<or> \<not> lw_folder world then goto w (LeaveBreakers BreakError) world
          else goto w (scan_next c (filter (\<lambda>v. v \<noteq> w) (list_breakers fs))) world
      | LinkBreak c \<Rightarrow> link_break w inp c world
      | Comparing p c k \<Rightarrow>
          (case lock_file fs p of
             None \<Rightarrow> after_removal env w k world
           | Some (c', m) \<Rightarrow> goto w (CompareStat p (c' = c) k) world)
      | CompareStat p same k \<Rightarrow>
          if fails then removal_fails env w k world
          else if same \<and> lock_file fs p \<noteq> None then goto w (Removing p k) world
          else after_removal env w k world
      | Removing p k \<Rightarrow>
          if fails then removal_fails env w k world else after_removal env w k (without_file p world)
      | LeaveBreakers out \<Rightarrow>
          if fails then goto w (CleanTemp False) world else goto w (RemoveFolder out) (without_file (Announcement w) world)
      | RemoveFolder out \<Rightarrow>
          goto w (if out = BreakError then CleanTemp False else Refresh) (if fails then world else remove_folder world)
      | ReadHolder \<Rightarrow> goto w (CleanTemp False) world
      | ListOld \<Rightarrow>
          goto w (ListOldBreakers (if fails then [] else filter (\<lambda>p. p \<noteq> TempFile w) (list_beside_lock fs))) world
      | ListOldBreakers ps \<Rightarrow> goto w (old_next (ps @ (if fails then [] else map Announcement (list_breakers fs)))) world
      | RemoveOldFolder \<Rightarrow> goto w (CleanTemp True) (if fails then world else remove_folder world)
      | CleanTemp locked \<Rightarrow>
          goto w (if locked then ReadManifest else Failed) (if fails then world else without_file (TempFile w) world)
      | ReadManifest \<Rightarrow> goto w (if fails then release w 1 else WriteManifest (lw_manifest world)) world
      | WriteManifest m \<Rightarrow>
          goto w (release w 1)
            (if fails then world
             else world\<lparr>lw_manifest := le_update env w m, lw_writes := lw_writes world @ [w]\<rparr>)
      | Finished \<Rightarrow> world
      | Failed \<Rightarrow> world)"

section \<open>The stage of a writer\<close>

datatype lock_stage = Waits | Scans | Acts | Leaves | Holds | Fails | Ends

fun judge_stage :: "judge_at \<Rightarrow> lock_stage" where
  "judge_stage JudgeLock = Waits"
| "judge_stage (JudgeBreaker _ _) = Scans"
| "judge_stage (JudgeBreak _) = Acts"
| "judge_stage (JudgeOld _) = Holds"

fun remove_stage :: "remove_for \<Rightarrow> lock_stage" where
  "remove_stage (ForScan _ _) = Scans"
| "remove_stage ForBreak = Acts"
| "remove_stage (ForLock _) = Acts"
| "remove_stage (ForOwnBreak _) = Acts"
| "remove_stage (ForOld _) = Holds"
| "remove_stage (ForRelease _) = Holds"

fun pc_stage :: "'m lock_pc \<Rightarrow> lock_stage" where
  "pc_stage (Reading _ k) = judge_stage k"
| "pc_stage (Statting _ _ k) = judge_stage k"
| "pc_stage (Comparing _ _ k) = remove_stage k"
| "pc_stage (CompareStat _ _ k) = remove_stage k"
| "pc_stage (Removing _ k) = remove_stage k"
| "pc_stage (ListFolder _) = Scans"
| "pc_stage (LinkBreak _) = Acts"
| "pc_stage (LeaveBreakers _) = Leaves"
| "pc_stage ListOld = Holds"
| "pc_stage (ListOldBreakers _) = Holds"
| "pc_stage RemoveOldFolder = Holds"
| "pc_stage (CleanTemp locked) = (if locked then Holds else Fails)"
| "pc_stage ReadManifest = Holds"
| "pc_stage (WriteManifest _) = Holds"
| "pc_stage Finished = Ends"
| "pc_stage Failed = Fails"
| "pc_stage _ = Waits"

definition live :: "'m lock_world \<Rightarrow> writer \<Rightarrow> bool" where
  "live world w \<longleftrightarrow> \<not> ws_crashed (lw_writers world w)"

definition stage :: "'m lock_world \<Rightarrow> writer \<Rightarrow> lock_stage" where
  "stage world w = pc_stage (pc_of world w)"

definition holds_lock :: "'m lock_world \<Rightarrow> writer \<Rightarrow> bool" where
  "holds_lock world w \<longleftrightarrow> live world w \<and> stage world w = Holds"

definition announced :: "'m lock_world \<Rightarrow> writer \<Rightarrow> bool" where
  "announced world w \<longleftrightarrow> live world w \<and> stage world w \<in> {Scans, Acts, Leaves}"

text \<open>
  The assumption on judgements: a writer is not called gone while it holds the lock or is announced
  as a breaker. \<open>judgeHost\<close> calls no running process dead, and an owner that it cannot judge, or a
  breaker, is not stopped for longer than \<open>unknownOwnerStaleMs\<close>.
\<close>

definition judged_right :: "'m lock_env \<Rightarrow> lock_input \<Rightarrow> writer \<Rightarrow> 'm lock_world \<Rightarrow> bool" where
  "judged_right env inp w world \<longleftrightarrow>
     (case pc_of world w of
        Statting p (RecordOf v) at \<Rightarrow>
          (case lock_file (lw_files world) p of
             Some (c, m) \<Rightarrow>
               (c = RecordOf v \<longrightarrow> p = LockFile \<longrightarrow> holds_lock world v \<longrightarrow> \<not> is_owner_gone env inp (c, m))
               \<and> (c = RecordOf v \<longrightarrow> p = Announcement v \<longrightarrow> announced world v \<longrightarrow> \<not> is_stale_break_file env inp (c, m))
           | None \<Rightarrow> True)
      | _ \<Rightarrow> True)"

definition lock_init :: "'m \<Rightarrow> 'm lock_world \<Rightarrow> bool" where
  \<comment> \<open>Files of earlier writers can be there: those count as crashed.\<close>
  "lock_init m0 world \<longleftrightarrow>
     (\<forall>w. pc_of world w = WriteTemp)
     \<and> (\<forall>p w m. lock_file (lw_files world) p = Some (RecordOf w, m) \<longrightarrow> \<not> live world w)
     \<and> (\<forall>w f. lock_file (lw_files world) (TempFile w) = Some f \<longrightarrow> fst f = RecordOf w)
     \<and> (\<forall>w f. lock_file (lw_files world) (Announcement w) = Some f \<longrightarrow> fst f = RecordOf w)
     \<and> lw_unreleased world = (\<lambda>_. None) \<and> lw_manifest world = m0 \<and> lw_writes world = []"

definition crash :: "writer \<Rightarrow> 'm lock_world \<Rightarrow> 'm lock_world" where
  "crash w world = world\<lparr>lw_writers := (lw_writers world)(w := (lw_writers world w)\<lparr>ws_crashed := True\<rparr>)\<rparr>"

inductive lock_reach :: "'m lock_env \<Rightarrow> 'm \<Rightarrow> 'm lock_world \<Rightarrow> bool" for env m0 where
  start: "lock_init m0 world \<Longrightarrow> lock_reach env m0 world"
| step: "lock_reach env m0 world \<Longrightarrow> live world w \<Longrightarrow> judged_right env inp w world \<Longrightarrow>
    lock_reach env m0 (lock_step env w inp world)"
| crashes: "lock_reach env m0 world \<Longrightarrow> lock_reach env m0 (crash w world)"

end
