(* ===== verification/ArtifactLockSafety.thy ===== *)
theory ArtifactLockSafety
  imports ArtifactLock
begin

text \<open>
  What the lock of an artifact manifest promises. The invariant \<open>lock_ok\<close> says of every writer what it
  relies on at its point of the code: a holder has its record in the lock file, a breaker that acts has
  seen no other announcement, and the contents that a breaker removes are those of a writer that
  cannot hold the lock any more. Every step and every crash keeps it.
\<close>

section \<open>The invariant\<close>

definition retired :: "'m lock_world \<Rightarrow> lock_contents \<Rightarrow> bool" where
  \<comment> \<open>Who wrote these contents never holds the lock from now on.\<close>
  "retired world c \<longleftrightarrow> (\<forall>u. c = RecordOf u \<longrightarrow> live world u \<longrightarrow> stage world u = Ends)"

definition withdrawn :: "'m lock_world \<Rightarrow> writer \<Rightarrow> bool" where
  \<comment> \<open>The writer never announces itself from now on.\<close>
  "withdrawn world v \<longleftrightarrow> (live world v \<longrightarrow> stage world v = Fails)"

fun judge_ok :: "'m lock_world \<Rightarrow> writer \<Rightarrow> lock_path \<Rightarrow> judge_at \<Rightarrow> bool" where
  "judge_ok world w p JudgeLock \<longleftrightarrow> p = LockFile"
| "judge_ok world w p (JudgeBreaker c todo) \<longleftrightarrow> (\<exists>v. p = Announcement v \<and> v \<noteq> w) \<and> w \<notin> set todo \<and> retired world c"
| "judge_ok world w p (JudgeBreak c) \<longleftrightarrow> p = BreakFile \<and> retired world c"
| "judge_ok world w p (JudgeOld todo) \<longleftrightarrow> p \<noteq> LockFile \<and> LockFile \<notin> set todo"

fun remove_ok :: "'m lock_world \<Rightarrow> writer \<Rightarrow> lock_path \<Rightarrow> remove_for \<Rightarrow> bool" where
  "remove_ok world w p (ForScan c todo) \<longleftrightarrow> (\<exists>v. p = Announcement v \<and> v \<noteq> w \<and> withdrawn world v) \<and> w \<notin> set todo \<and> retired world c"
| "remove_ok world w p ForBreak \<longleftrightarrow> p = BreakFile"
| "remove_ok world w p (ForLock c) \<longleftrightarrow> p = LockFile \<and> retired world c"
| "remove_ok world w p (ForOwnBreak _) \<longleftrightarrow> p = BreakFile"
| "remove_ok world w p (ForOld todo) \<longleftrightarrow> p \<noteq> LockFile \<and> LockFile \<notin> set todo \<and> (\<forall>v. p = Announcement v \<longrightarrow> withdrawn world v)"
| "remove_ok world w p (ForRelease _) \<longleftrightarrow> p = LockFile"

fun pc_ok :: "'m lock_world \<Rightarrow> writer \<Rightarrow> 'm lock_pc \<Rightarrow> bool" where
  "pc_ok world w (Reading p k) \<longleftrightarrow> judge_ok world w p k"
| "pc_ok world w (Statting p c k) \<longleftrightarrow> judge_ok world w p k
     \<and> (p = LockFile \<longrightarrow> (\<forall>u. c = RecordOf u \<longrightarrow> live world u \<longrightarrow> stage world u \<in> {Holds, Ends}))
     \<and> (\<forall>v. p = Announcement v \<longrightarrow> c = RecordOf v)"
| "pc_ok world w (MakeFolder c) \<longleftrightarrow> retired world c"
| "pc_ok world w (Announce c) \<longleftrightarrow> retired world c"
| "pc_ok world w (ListFolder c) \<longleftrightarrow> retired world c"
| "pc_ok world w (LinkBreak c) \<longleftrightarrow> retired world c"
| "pc_ok world w (Comparing p c k) \<longleftrightarrow> remove_ok world w p k \<and> (\<forall>c'. k = ForLock c' \<longrightarrow> c = c')"
| "pc_ok world w (CompareStat p same k) \<longleftrightarrow> remove_ok world w p k
     \<and> (\<forall>c. k = ForLock c \<longrightarrow> same \<longrightarrow> map_option fst (lock_file (lw_files world) LockFile) = Some c)"
| "pc_ok world w (Removing p k) \<longleftrightarrow> remove_ok world w p k
     \<and> (\<forall>c. k = ForLock c \<longrightarrow> map_option fst (lock_file (lw_files world) LockFile) = Some c)"
| "pc_ok world w (ListOldBreakers ps) \<longleftrightarrow> LockFile \<notin> set ps"
| "pc_ok world w pc \<longleftrightarrow> True"

fun unscanned :: "'m lock_pc \<Rightarrow> writer set" where
  "unscanned (Reading p (JudgeBreaker c todo)) = {v. p = Announcement v} \<union> set todo"
| "unscanned (Statting p d (JudgeBreaker c todo)) = {v. p = Announcement v} \<union> set todo"
| "unscanned (Comparing p d (ForScan c todo)) = set todo"
| "unscanned (CompareStat p same (ForScan c todo)) = set todo"
| "unscanned (Removing p (ForScan c todo)) = set todo"
| "unscanned pc = UNIV"

definition passed :: "'m lock_pc \<Rightarrow> writer \<Rightarrow> bool" where
  \<comment> \<open>The breaker acts, or its scan has gone by that writer.\<close>
  "passed pc v \<longleftrightarrow> pc_stage pc = Acts \<or> pc_stage pc = Scans \<and> v \<notin> unscanned pc"

definition lock_ok :: "'m lock_world \<Rightarrow> bool" where
  "lock_ok world \<longleftrightarrow>
     (\<forall>w. live world w \<longrightarrow> pc_ok world w (pc_of world w))
     \<and> (\<forall>w. holds_lock world w \<longrightarrow> map_option fst (lock_file (lw_files world) LockFile) = Some (RecordOf w))
     \<and> (\<forall>w. announced world w \<longrightarrow> lock_file (lw_files world) (Announcement w) \<noteq> None \<and> lw_folder world)
     \<and> (\<forall>w m. lock_file (lw_files world) LockFile = Some (RecordOf w, m) \<longrightarrow> live world w \<longrightarrow> stage world w \<in> {Holds, Ends})
     \<and> (\<forall>w f. lock_file (lw_files world) (TempFile w) = Some f \<longrightarrow> fst f = RecordOf w)
     \<and> (\<forall>w f. lock_file (lw_files world) (Announcement w) = Some f \<longrightarrow> fst f = RecordOf w \<and> (announced world w \<or> withdrawn world w))
     \<and> (\<forall>p c. lw_unreleased world p = Some c \<longrightarrow> retired world c)
     \<and> (\<forall>a b. a \<noteq> b \<longrightarrow> announced world a \<longrightarrow> announced world b \<longrightarrow>
          \<not> (passed (pc_of world a) b \<and> passed (pc_of world b) a))"

lemma lock_file_remove [simp]: "lock_file (remove_file p fs) q = (if q = p then None else lock_file fs q)"
  by (induction fs) (auto simp: lock_file_def remove_file_def)

lemma lock_file_put [simp]: "lock_file (put_file p f fs) q = (if q = p then Some f else lock_file fs q)"
  using lock_file_remove [of p fs q] by (auto simp: lock_file_def put_file_def)

lemma list_breakers_iff: "v \<in> set (list_breakers fs) \<longleftrightarrow> lock_file fs (Announcement v) \<noteq> None"
  by (induction fs) (auto simp: lock_file_def list_breakers_def split: lock_path.splits)

lemma list_beside_lock_not: "LockFile \<notin> set (list_beside_lock fs)"
  by (auto simp: list_beside_lock_def)

definition removes_lock :: "'m lock_pc \<Rightarrow> bool" where
  \<comment> \<open>between the comparison of the lock with the judged contents and its removal\<close>
  "removes_lock pc \<longleftrightarrow> (\<exists>p c. pc = CompareStat p True (ForLock c) \<or> pc = Removing p (ForLock c))"

definition keeps :: "'m lock_world \<Rightarrow> 'm lock_world \<Rightarrow> bool" where
  \<comment> \<open>What has ended stays so.\<close>
  "keeps world world' \<longleftrightarrow>
     (\<forall>u. (live world' u \<longrightarrow> live world u)
        \<and> (stage world u = Ends \<longrightarrow> stage world' u = Ends) \<and> (stage world u = Fails \<longrightarrow> stage world' u = Fails)
        \<and> (stage world u = Holds \<longrightarrow> stage world' u \<in> {Holds, Ends}))"

lemma keeps_mono:
  assumes "keeps world world'"
  shows "retired world c \<Longrightarrow> retired world' c" and "withdrawn world v \<Longrightarrow> withdrawn world' v"
    and "(live world u \<longrightarrow> stage world u \<in> {Holds, Ends}) \<Longrightarrow> live world' u \<Longrightarrow> stage world' u \<in> {Holds, Ends}"
  using assms unfolding keeps_def retired_def withdrawn_def by auto

lemma pc_ok_mono:
  assumes keeps: "keeps world world'" and ok: "pc_ok world u pc"
    and lock: "removes_lock pc \<longrightarrow> map_option fst (lock_file (lw_files world') LockFile) = map_option fst (lock_file (lw_files world) LockFile)"
  shows "pc_ok world' u pc"
proof -
  have j: "judge_ok world' u p k" if "judge_ok world u p k" for p k
    using that keeps_mono(1) [OF keeps] by (cases k) auto
  have r: "remove_ok world' u p k" if "remove_ok world u p k" for p k
    using that keeps_mono(1,2) [OF keeps] by (cases k) auto
  show ?thesis
    using ok lock j r keeps_mono [OF keeps] by (cases pc) (auto simp: removes_lock_def)
qed

lemma lock_okD:
  assumes "lock_ok world"
  shows "live world w \<Longrightarrow> pc_ok world w (pc_of world w)"
    and "holds_lock world w \<Longrightarrow> map_option fst (lock_file (lw_files world) LockFile) = Some (RecordOf w)"
    and "announced world w \<Longrightarrow> lock_file (lw_files world) (Announcement w) \<noteq> None"
    and "announced world w \<Longrightarrow> lw_folder world"
    and "lock_file (lw_files world) LockFile = Some (RecordOf w, m) \<Longrightarrow> live world w \<Longrightarrow> stage world w \<in> {Holds, Ends}"
    and "lock_file (lw_files world) (TempFile w) = Some f \<Longrightarrow> fst f = RecordOf w"
    and "lock_file (lw_files world) (Announcement w) = Some f \<Longrightarrow> fst f = RecordOf w"
    and "lock_file (lw_files world) (Announcement w) = Some f \<Longrightarrow> announced world w \<or> withdrawn world w"
    and "lw_unreleased world p = Some c \<Longrightarrow> retired world c"
    and "w \<noteq> v \<Longrightarrow> announced world w \<Longrightarrow> announced world v \<Longrightarrow> \<not> (passed (pc_of world w) v \<and> passed (pc_of world v) w)"
  using assms unfolding lock_ok_def by blast+

lemma one_holder:
  assumes "lock_ok world" and "holds_lock world v" and "holds_lock world w"
  shows "v = w"
  using lock_okD(2) [OF assms(1,2)] lock_okD(2) [OF assms(1,3)] by simp

lemma one_actor:
  assumes "lock_ok world" and "live world v" "stage world v = Acts" and "live world w" "stage world w = Acts"
  shows "v = w"
  using lock_okD(10) [OF assms(1), of v w] assms(2-) by (auto simp: announced_def passed_def stage_def)

lemma lock_ok_update:
  assumes ok: "lock_ok world"
    and others: "\<forall>u. u \<noteq> w \<longrightarrow> lw_writers world' u = lw_writers world u"
    and keeps: "keeps world world'"
    and pc: "live world' w \<longrightarrow> pc_ok world' w (pc_of world' w)"
    and lock: "\<forall>u. u \<noteq> w \<longrightarrow> live world u \<longrightarrow> stage world u = Holds \<or> removes_lock (pc_of world u) \<longrightarrow>
        map_option fst (lock_file (lw_files world') LockFile) = map_option fst (lock_file (lw_files world) LockFile)"
    and own: "holds_lock world' w \<longrightarrow> map_option fst (lock_file (lw_files world') LockFile) = Some (RecordOf w)"
    and there: "\<forall>u. announced world' u \<longrightarrow> lock_file (lw_files world') (Announcement u) \<noteq> None \<and> lw_folder world'"
    and linked: "\<forall>u m. lock_file (lw_files world') LockFile = Some (RecordOf u, m) \<longrightarrow> live world' u \<longrightarrow> stage world' u \<in> {Holds, Ends}"
    and temp: "\<forall>u f. lock_file (lw_files world') (TempFile u) = Some f \<longrightarrow> fst f = RecordOf u"
    and ann: "\<forall>u f. lock_file (lw_files world') (Announcement u) = Some f \<longrightarrow> fst f = RecordOf u \<and> (announced world' u \<or> withdrawn world' u)"
    and unreleased: "\<forall>p c. lw_unreleased world' p = Some c \<longrightarrow> retired world' c"
    and excl: "\<forall>u. u \<noteq> w \<longrightarrow> announced world u \<longrightarrow> announced world' w \<longrightarrow> passed (pc_of world' w) u \<longrightarrow> \<not> passed (pc_of world u) w"
  shows "lock_ok world'"
proof -
  have same: "pc_of world' u = pc_of world u" "live world' u = live world u" "stage world' u = stage world u" if "u \<noteq> w" for u
    using others that by (simp_all add: pc_of_def live_def stage_def)
  have pcs: "pc_ok world' u (pc_of world' u)" if "live world' u" for u
  proof (cases "u = w")
    case False
    then show ?thesis
      using pc_ok_mono [OF keeps lock_okD(1) [OF ok, of u]] lock same [OF False] that by auto
  qed (use pc that in blast)
  have holders: "map_option fst (lock_file (lw_files world') LockFile) = Some (RecordOf u)" if "holds_lock world' u" for u
  proof (cases "u = w")
    case False
    then show ?thesis using lock lock_okD(2) [OF ok, of u] same [OF False] that by (auto simp: holds_lock_def)
  qed (use own that in blast)
  have exclusive: "\<not> (passed (pc_of world' a) b \<and> passed (pc_of world' b) a)" if "a \<noteq> b" "announced world' a" "announced world' b" for a b
  proof -
    have old: "announced world u" if "announced world' u" "u \<noteq> w" for u
      using that same [of u] by (simp add: announced_def)
    consider "a \<noteq> w" "b \<noteq> w" | "a = w" | "b = w" by blast
    then show ?thesis
      using lock_okD(10) [OF ok] that old excl same by cases metis+
  qed
  show ?thesis
    unfolding lock_ok_def using pcs holders exclusive there linked temp ann unreleased by blast
qed

lemma goto_simps [simp]:
  "pc_of (goto w pc world) u = (if u = w then pc else pc_of world u)" "live (goto w pc world) u = live world u"
  "stage (goto w pc world) u = (if u = w then pc_stage pc else stage world u)"
  "lw_files (goto w pc world) = lw_files world" "lw_folder (goto w pc world) = lw_folder world"
  "lw_unreleased (goto w pc world) = lw_unreleased world" "lw_manifest (goto w pc world) = lw_manifest world"
  "lw_writes (goto w pc world) = lw_writes world"
  by (simp_all add: goto_def pc_of_def live_def stage_def)

definition moves :: "lock_stage \<Rightarrow> lock_stage \<Rightarrow> bool" where
  \<comment> \<open>stages that follow each other without a change of the files\<close>
  "moves s s' \<longleftrightarrow>
     (s = Ends \<longrightarrow> s' = Ends) \<and> (s = Fails \<longrightarrow> s' = Fails) \<and> (s = Holds \<longrightarrow> s' \<in> {Holds, Ends}) \<and> (s' = Holds \<longrightarrow> s = Holds)
     \<and> (s' \<in> {Scans, Acts, Leaves} \<longrightarrow> s \<in> {Scans, Acts, Leaves}) \<and> (s \<in> {Scans, Acts, Leaves} \<longrightarrow> s' \<in> {Scans, Acts, Leaves, Fails})"

lemma movesD:
  assumes "moves s s'"
  shows "s = Ends \<Longrightarrow> s' = Ends" and "s = Fails \<Longrightarrow> s' = Fails" and "s = Holds \<Longrightarrow> s' \<in> {Holds, Ends}" and "s' = Holds \<Longrightarrow> s = Holds"
    and "s' \<in> {Scans, Acts, Leaves} \<Longrightarrow> s \<in> {Scans, Acts, Leaves}"
    and "s \<in> {Scans, Acts, Leaves} \<Longrightarrow> s' \<in> {Scans, Acts, Leaves} \<or> s' = Fails"
    and "s \<in> {Holds, Ends} \<Longrightarrow> s' \<in> {Holds, Ends}"
  using assms by (cases s; cases s'; simp add: moves_def)+

lemma keeps_goto: "moves (stage world w) (pc_stage pc) \<Longrightarrow> keeps world (goto w pc world)"
  unfolding keeps_def goto_simps using movesD [of "stage world w" "pc_stage pc"] by auto

lemma announced_goto [simp]:
  "announced (goto w pc world) u \<longleftrightarrow> (if u = w then live world w \<and> pc_stage pc \<in> {Scans, Acts, Leaves} else announced world u)"
  "withdrawn (goto w pc world) u \<longleftrightarrow> (if u = w then live world w \<longrightarrow> pc_stage pc = Fails else withdrawn world u)"
  "holds_lock (goto w pc world) u \<longleftrightarrow> (if u = w then live world w \<and> pc_stage pc = Holds else holds_lock world u)"
  by (simp_all add: announced_def withdrawn_def holds_lock_def)

lemma lock_ok_goto:
  assumes ok: "lock_ok world" and w: "live world w" and pc: "pc_ok world w pc" and moves: "moves (stage world w) (pc_stage pc)"
    and passes: "\<And>u. u \<noteq> w \<Longrightarrow> announced world u \<Longrightarrow> passed pc u \<Longrightarrow> passed (pc_of world w) u"
  shows "lock_ok (goto w pc world)"
proof (rule lock_ok_update [OF ok, of w])
  let ?w = "goto w pc world"
  have keeps: "keeps world ?w" by (rule keeps_goto [OF moves])
  show "keeps world ?w" by (rule keeps)
  show "\<forall>u. u \<noteq> w \<longrightarrow> lw_writers ?w u = lw_writers world u" by (simp add: goto_def)
  show "live ?w w \<longrightarrow> pc_ok ?w w (pc_of ?w w)" using pc_ok_mono [OF keeps pc] by simp
  have before: "announced world u" if "announced ?w u" for u
    using that movesD(5) [OF moves] w by (cases "u = w") (auto simp: announced_def)
  show "\<forall>u. announced ?w u \<longrightarrow> lock_file (lw_files ?w) (Announcement u) \<noteq> None \<and> lw_folder ?w"
    unfolding goto_simps using before lock_okD(3,4) [OF ok] by blast
  show "holds_lock ?w w \<longrightarrow> map_option fst (lock_file (lw_files ?w) LockFile) = Some (RecordOf w)"
    using lock_okD(2) [OF ok, of w] movesD(4) [OF moves] w by (simp add: holds_lock_def)
  show "\<forall>u m. lock_file (lw_files ?w) LockFile = Some (RecordOf u, m) \<longrightarrow> live ?w u \<longrightarrow> stage ?w u \<in> {Holds, Ends}"
  proof (intro allI impI)
    fix u m assume "lock_file (lw_files ?w) LockFile = Some (RecordOf u, m)" "live ?w u"
    then have "stage world u \<in> {Holds, Ends}" using lock_okD(5) [OF ok, of u m] by simp
    then show "stage ?w u \<in> {Holds, Ends}" using movesD(7) [OF moves] by (cases "u = w") simp_all
  qed
  show "\<forall>u f. lock_file (lw_files ?w) (TempFile u) = Some f \<longrightarrow> fst f = RecordOf u" using lock_okD(6) [OF ok] by simp
  have after: "announced ?w u \<or> withdrawn ?w u" if "announced world u \<or> withdrawn world u" for u
    using that movesD(2,6) [OF moves] w by (cases "u = w") (auto simp: announced_def withdrawn_def)
  show "\<forall>u f. lock_file (lw_files ?w) (Announcement u) = Some f \<longrightarrow> fst f = RecordOf u \<and> (announced ?w u \<or> withdrawn ?w u)"
    unfolding goto_simps using lock_okD(7,8) [OF ok] after by blast
  show "\<forall>p c. lw_unreleased ?w p = Some c \<longrightarrow> retired ?w c" using lock_okD(9) [OF ok] keeps_mono(1) [OF keeps] by simp
  show "\<forall>u. u \<noteq> w \<longrightarrow> announced world u \<longrightarrow> announced ?w w \<longrightarrow> passed (pc_of ?w w) u \<longrightarrow> \<not> passed (pc_of world u) w"
  proof (intro allI impI)
    fix u assume u: "u \<noteq> w" "announced world u" "announced ?w w" "passed (pc_of ?w w) u"
    then have "passed (pc_of world w) u" using passes by simp
    then show "\<not> passed (pc_of world u) w" using lock_okD(10) [OF ok, of w u] u(1,2) before [OF u(3)] by simp
  qed
qed simp_all

lemma lock_ok_files:
  assumes ok: "lock_ok world" and writers: "\<forall>u. pc_of world' u = pc_of world u \<and> live world' u = live world u"
    and lock: "map_option fst (lock_file (lw_files world') LockFile) = map_option fst (lock_file (lw_files world) LockFile)"
    and temp: "\<forall>u f. lock_file (lw_files world') (TempFile u) = Some f \<longrightarrow> fst f = RecordOf u"
    and ann: "\<forall>u. map_option fst (lock_file (lw_files world') (Announcement u)) = map_option fst (lock_file (lw_files world) (Announcement u))
       \<or> lock_file (lw_files world') (Announcement u) = None \<and> \<not> announced world u"
    and folder: "\<forall>u. announced world u \<longrightarrow> lw_folder world'"
    and unreleased: "\<forall>p c. lw_unreleased world' p = Some c \<longrightarrow> retired world c"
  shows "lock_ok world'"
proof -
  have same: "stage world' u = stage world u" "announced world' u = announced world u" "holds_lock world' u = holds_lock world u"
      "withdrawn world' u = withdrawn world u" for u
    using writers by (simp_all add: stage_def announced_def holds_lock_def withdrawn_def)
  have keeps: "keeps world world'" using writers same by (auto simp: keeps_def)
  have there: "lock_file (lw_files world') (Announcement u) \<noteq> None" if "announced world u" for u
    using ann that lock_okD(3) [OF ok that] by (metis map_option_is_None)
  have mine: "fst f = RecordOf u \<and> (announced world u \<or> withdrawn world u)" if "lock_file (lw_files world') (Announcement u) = Some f" for u f
  proof -
    have "map_option fst (lock_file (lw_files world) (Announcement u)) = Some (fst f)" using ann that by (metis option.simps(3,9))
    then show ?thesis using lock_okD(7,8) [OF ok] by fastforce
  qed
  have linked: "stage world u \<in> {Holds, Ends}" if "lock_file (lw_files world') LockFile = Some (RecordOf u, m)" "live world u" for u m
  proof -
    have "map_option fst (lock_file (lw_files world) LockFile) = Some (RecordOf u)" using lock that(1) by (metis fst_conv option.simps(9))
    then show ?thesis using lock_okD(5) [OF ok _ that(2)] by fastforce
  qed
  have pcs: "pc_ok world' u (pc_of world' u)" if "live world' u" for u
    using pc_ok_mono [OF keeps lock_okD(1) [OF ok, of u]] lock writers that by simp
  have exclusive: "\<not> (passed (pc_of world' a) b \<and> passed (pc_of world' b) a)"
    if "a \<noteq> b" "announced world' a" "announced world' b" for a b
    using lock_okD(10) [OF ok, of a b] that writers same by simp
  have holders: "map_option fst (lock_file (lw_files world') LockFile) = Some (RecordOf u)" if "holds_lock world' u" for u
    using lock lock_okD(2) [OF ok, of u] that same by simp
  have ends: "retired world' c" if "lw_unreleased world' p = Some c" for p c
    using keeps_mono(1) [OF keeps] unreleased that by blast
  show ?thesis
    unfolding lock_ok_def
  proof (intro conjI)
    show "\<forall>w. announced world' w \<longrightarrow> lock_file (lw_files world') (Announcement w) \<noteq> None \<and> lw_folder world'"
      using there folder same by simp
    show "\<forall>w m. lock_file (lw_files world') LockFile = Some (RecordOf w, m) \<longrightarrow> live world' w \<longrightarrow> stage world' w \<in> {Holds, Ends}"
      using linked same writers by simp
    show "\<forall>w f. lock_file (lw_files world') (Announcement w) = Some f \<longrightarrow> fst f = RecordOf w \<and> (announced world' w \<or> withdrawn world' w)"
      using mine same by simp
  qed (use pcs holders temp ends exclusive in blast)+
qed


lemma writers_simps [simp]:
  "pc_of (with_file p f world) = pc_of world" "pc_of (without_file p world) = pc_of world" "pc_of (remove_folder world) = pc_of world"
  "live (with_file p f world) = live world" "live (without_file p world) = live world" "live (remove_folder world) = live world"
  "lw_writers (remove_folder world) = lw_writers world" "lw_writers (with_file p f world) = lw_writers world" "lw_writers (without_file p world) = lw_writers world"
  "lw_files (with_file p f world) = put_file p f (lw_files world)" "lw_files (without_file p world) = remove_file p (lw_files world)"
  "lw_files (remove_folder world) = lw_files world"
  "lw_folder (with_file p f world) = lw_folder world" "lw_folder (without_file p world) = lw_folder world"
  "lw_unreleased (with_file p f world) = lw_unreleased world" "lw_unreleased (without_file p world) = lw_unreleased world"
  "lw_unreleased (remove_folder world) = lw_unreleased world"
  by (simp_all add: fun_eq_iff pc_of_def live_def with_file_def without_file_def remove_folder_def)

lemma stage_simps [simp]:
  "stage (with_file p f world) = stage world" "stage (without_file p world) = stage world" "stage (remove_folder world) = stage world"
  by (simp_all add: fun_eq_iff stage_def)

lemma announced_simps [simp]:
  "announced (with_file p f world) = announced world" "announced (without_file p world) = announced world"
  "announced (remove_folder world) = announced world"
  "retired (with_file p f world) = retired world" "retired (without_file p world) = retired world"
  "retired (remove_folder world) = retired world"
  "withdrawn (with_file p f world) = withdrawn world" "withdrawn (without_file p world) = withdrawn world"
  "withdrawn (remove_folder world) = withdrawn world"
  "holds_lock (with_file p f world) = holds_lock world" "holds_lock (without_file p world) = holds_lock world"
  by (simp_all add: fun_eq_iff announced_def retired_def withdrawn_def holds_lock_def)

lemma lock_ok_put:
  assumes ok: "lock_ok world" and p: "p = BreakFile \<or> p = TempFile w \<and> fst f = RecordOf w"
  shows "lock_ok (with_file p f world)"
  by (rule lock_ok_files [OF ok]) (use p lock_okD(4,6,9) [OF ok] in \<open>auto split: if_splits\<close>)

lemma lock_ok_remove:
  assumes ok: "lock_ok world" and p: "p \<noteq> LockFile" "\<And>v. p = Announcement v \<Longrightarrow> \<not> announced world v"
  shows "lock_ok (without_file p world)"
  by (rule lock_ok_files [OF ok]) (use p lock_okD(4,6,9) [OF ok] in \<open>auto split: if_splits\<close>)

lemma lock_ok_folder:
  assumes ok: "lock_ok world"
  shows "lock_ok (world\<lparr>lw_folder := True\<rparr>)" and "lock_ok (remove_folder world)"
proof -
  show "lock_ok (world\<lparr>lw_folder := True\<rparr>)"
    by (rule lock_ok_files [OF ok]) (use lock_okD [OF ok] in \<open>simp_all add: pc_of_def live_def\<close>)
  have "list_breakers (lw_files world) \<noteq> []" if "announced world u" for u
    using lock_okD(3) [OF ok that] list_breakers_iff [of u "lw_files world"] by (metis empty_iff list.set(1))
  then show "lock_ok (remove_folder world)"
    by (intro lock_ok_files [OF ok]) (use lock_okD [OF ok] in \<open>simp_all add: remove_folder_def pc_of_def live_def\<close>)
qed

lemma lock_ok_unreleased:
  assumes ok: "lock_ok world" and c: "x = None \<or> (\<exists>c. x = Some c \<and> retired world c)"
  shows "lock_ok (world\<lparr>lw_unreleased := (lw_unreleased world)(p := x)\<rparr>)"
  by (rule lock_ok_files [OF ok]) (use c lock_okD [OF ok] in \<open>auto simp: pc_of_def live_def split: if_splits\<close>)

lemma lock_ok_writer:
  assumes ok: "lock_ok world" and x: "ws_pc x = pc_of world w" "ws_crashed x = ws_crashed (lw_writers world w)"
  shows "lock_ok (world\<lparr>lw_writers := (lw_writers world)(w := x)\<rparr>)"
  by (rule lock_ok_files [OF ok]) (use x lock_okD [OF ok] in \<open>auto simp: pc_of_def live_def\<close>)


section \<open>Every step keeps the invariant\<close>

lemma not_passed [simp]: "pc_stage pc \<notin> {Scans, Acts} \<Longrightarrow> \<not> passed pc u"
  by (simp add: passed_def)

lemma passed_simps [simp]:
  "passed (Reading p (JudgeBreaker c todo)) u \<longleftrightarrow> p \<noteq> Announcement u \<and> u \<notin> set todo"
  "passed (Statting p d (JudgeBreaker c todo)) u \<longleftrightarrow> p \<noteq> Announcement u \<and> u \<notin> set todo"
  "passed (Comparing p d (ForScan c todo)) u \<longleftrightarrow> u \<notin> set todo" "passed (CompareStat p same (ForScan c todo)) u \<longleftrightarrow> u \<notin> set todo"
  "passed (Removing p (ForScan c todo)) u \<longleftrightarrow> u \<notin> set todo" "pc_stage pc = Acts \<Longrightarrow> passed pc u"
  by (auto simp: passed_def)

lemma scan_next_simps [simp]:
  "passed (scan_next c todo) u \<longleftrightarrow> u \<notin> set todo" "pc_stage (scan_next c todo) = (if todo = [] then Acts else Scans)"
  "pc_ok world w (scan_next c todo) \<longleftrightarrow> retired world c \<and> w \<notin> set todo"
  by (cases todo; auto simp: passed_def)+

lemma old_next_simps [simp]:
  "pc_stage (old_next todo) = Holds" "pc_ok world w (old_next todo) \<longleftrightarrow> LockFile \<notin> set todo"
  by (cases todo; auto)+

lemma moves_simps [simp]:
  "moves Waits s \<longleftrightarrow> s \<in> {Waits, Fails, Ends}" "moves Holds s \<longleftrightarrow> s \<in> {Holds, Ends}" "moves Fails s \<longleftrightarrow> s = Fails"
  "moves Ends s \<longleftrightarrow> s = Ends" "s \<in> {Scans, Acts, Leaves} \<Longrightarrow> moves s s' \<longleftrightarrow> s' \<in> {Scans, Acts, Leaves, Fails}"
  by (cases s; cases s'; simp add: moves_def)+

lemma lock_ok_waits:
  assumes ok: "lock_ok world" and w: "live world w" and pc: "stage world w \<in> {Waits, Holds, Fails, Ends}"
    and next_pc: "moves (stage world w) (pc_stage pc')" "pc_ok world w pc'"
  shows "lock_ok (goto w pc' world)"
  by (rule lock_ok_goto [OF ok w]) (use pc next_pc in auto)

lemma step_before_link:
  assumes ok: "lock_ok world" and w: "live world w" and pc: "pc_of world w \<in> {WriteTemp, Refresh, Rewrite, ReadHolder}"
  shows "lock_ok (lock_step env w inp world)"
proof -
  have st: "stage world w = Waits" using pc by (auto simp: stage_def)
  have put: "lock_ok (with_file (TempFile w) (RecordOf w, li_now inp) world)" by (rule lock_ok_put [OF ok]) simp
  let ?late = "world\<lparr>lw_writers := (lw_writers world)(w := (lw_writers world w)\<lparr>ws_deadline := li_now inp + le_wait_ms env\<rparr>)\<rparr>"
  have late: "lock_ok ?late" by (rule lock_ok_writer [OF ok]) (simp_all add: pc_of_def)
  have put_late: "lock_ok (with_file (TempFile w) (RecordOf w, li_now inp) ?late)" by (rule lock_ok_put [OF late]) simp
  have same: "live ?late w" "stage ?late w = Waits" using w st by (simp_all add: live_def stage_def pc_of_def)
  have temp: "c = RecordOf w" if "lock_file (lw_files world) (TempFile w) = Some (c, m)" for c m
    using lock_okD(6) [OF ok that] by simp
  show ?thesis
    using pc temp
    by (auto simp: lock_step_def Let_def st w same split: option.split intro!: lock_ok_waits ok put put_late)
qed


lemma judge_stage_cases: "judge_stage at \<in> {Waits, Scans, Acts, Holds}"
  by (cases at) simp_all

lemma step_reading:
  assumes ok: "lock_ok world" and w: "live world w" and pc: "pc_of world w = Reading p at"
  shows "lock_ok (lock_step env w inp world)"
proof -
  have st: "stage world w = judge_stage at" and j: "judge_ok world w p at"
    using pc lock_okD(1) [OF ok w] by (simp_all add: stage_def)
  show ?thesis
  proof (cases "lock_file (lw_files world) p")
    case None
    then have absent: "p = Announcement u \<Longrightarrow> \<not> announced world u" for u using lock_okD(3) [OF ok, of u] by blast
    have "lock_ok (goto w (judged_missing at) world)"
      by (rule lock_ok_goto [OF ok w]; cases at) (use j st pc absent in \<open>auto split: if_splits\<close>)
    then show ?thesis using None pc by (simp add: lock_step_def Let_def)
  next
    case (Some f)
    obtain c m where f: "f = (c, m)" by (cases f)
    have right: "stage world u \<in> {Holds, Ends}" if "p = LockFile" "c = RecordOf u" "live world u" for u
      using lock_okD(5) [OF ok _ that(3), of m] Some f that by simp
    have mine: "c = RecordOf v" if "p = Announcement v" for v using lock_okD(7) [OF ok, of v f] Some f that by simp
    have "lock_ok (goto w (Statting p c at) world)"
      by (rule lock_ok_goto [OF ok w]; cases at) (use right mine j st pc in \<open>auto\<close>)
    then show ?thesis using Some f pc by (simp add: lock_step_def Let_def)
  qed
qed

lemma judged_lock_retired:
  assumes ok: "lock_ok world" and pc: "pc_of world w = Statting LockFile c JudgeLock" and w: "live world w"
    and f: "lock_file (lw_files world) LockFile = Some (c', m)" and right: "judged_right env inp w world"
    and stale: "is_stale_lock env inp world w (c, m)"
  shows "retired world c"
proof (cases "lw_unreleased world (le_process env w) = Some c")
  case True
  then show ?thesis using lock_okD(9) [OF ok] by blast
next
  case False
  then have gone: "is_owner_gone env inp (c, m)" using stale by (simp add: is_stale_lock_def)
  have "stage world u = Ends" if u: "c = RecordOf u" "live world u" for u
  proof (rule ccontr)
    assume "stage world u \<noteq> Ends"
    then have "holds_lock world u" using lock_okD(1) [OF ok w] pc u by (auto simp: holds_lock_def)
    moreover from this have "c' = c" using lock_okD(2) [OF ok] f u by fastforce
    ultimately show False using right pc f u gone by (simp add: judged_right_def)
  qed
  then show ?thesis by (simp add: retired_def)
qed

lemma judged_breaker_withdrawn:
  assumes ok: "lock_ok world" and pc: "pc_of world w = Statting (Announcement v) c at" and w: "live world w"
    and f: "lock_file (lw_files world) (Announcement v) = Some (c', m)" and right: "judged_right env inp w world"
    and stale: "is_stale_break_file env inp (c, m)"
  shows "\<not> announced world v" and "withdrawn world v"
proof -
  have "c = RecordOf v" "c' = RecordOf v" using lock_okD(1) [OF ok w] lock_okD(7) [OF ok f] pc by auto
  then show "\<not> announced world v" using right pc f stale by (auto simp: judged_right_def)
  then show "withdrawn world v" using lock_okD(8) [OF ok f] by blast
qed

lemma step_statting:
  assumes ok: "lock_ok world" and w: "live world w" and pc: "pc_of world w = Statting p c at"
    and right: "judged_right env inp w world"
  shows "lock_ok (lock_step env w inp world)"
proof -
  have st: "stage world w = judge_stage at" and j: "judge_ok world w p at"
    using pc lock_okD(1) [OF ok w] by (simp_all add: stage_def)
  have failing: "lock_ok (goto w (judge_fails at) world)"
    by (rule lock_ok_goto [OF ok w]; cases at) (use j st pc in \<open>auto\<close>)
  show ?thesis
  proof (cases "lock_file (lw_files world) p")
    case None
    then have absent: "p = Announcement u \<Longrightarrow> \<not> announced world u" for u using lock_okD(3) [OF ok, of u] by blast
    have "lock_ok (goto w (judged_missing at) world)"
      by (rule lock_ok_goto [OF ok w]; cases at) (use j st pc absent in \<open>auto split: if_splits\<close>)
    then show ?thesis using None pc failing by (simp add: lock_step_def Let_def)
  next
    case (Some f)
    obtain c' m where f: "f = (c', m)" by (cases f)
    have lock: "retired world c" if "p = LockFile" "at = JudgeLock" "is_stale_lock env inp world w (c, m)"
      using judged_lock_retired [OF ok _ w _ right that(3)] pc Some f that by simp
    have breaker: "\<not> announced world v \<and> withdrawn world v" if "p = Announcement v" "is_stale_break_file env inp (c, m)" for v
      using judged_breaker_withdrawn [OF ok _ w _ right that(2)] pc Some f that by blast
    have "lock_ok (goto w (judged env inp world w p (c, m) at) world)"
      by (rule lock_ok_goto [OF ok w]; cases at)
        (use lock breaker j st pc in \<open>auto simp: judged_def split: if_splits lock_path.splits\<close>)
    then show ?thesis using Some f pc failing by (simp add: lock_step_def Let_def)
  qed
qed


lemma step_folder:
  assumes ok: "lock_ok world" and w: "live world w" and pc: "pc_of world w = MakeFolder c \<or> pc_of world w = RemoveFolder out"
  shows "lock_ok (lock_step env w inp world)"
proof -
  have st: "stage world w = Waits" using pc by (auto simp: stage_def)
  have c: "retired world c" if "pc_of world w = MakeFolder c" using lock_okD(1) [OF ok w] that by simp
  have made: "live (world\<lparr>lw_folder := True\<rparr>) w" "stage (world\<lparr>lw_folder := True\<rparr>) w = Waits"
      "retired (world\<lparr>lw_folder := True\<rparr>) c = retired world c"
    using w st by (simp_all add: live_def stage_def pc_of_def retired_def)
  show ?thesis
    using pc
    by (auto simp: lock_step_def Let_def st w made c intro!: lock_ok_waits ok lock_ok_folder)
qed

lemma step_list_folder:
  assumes ok: "lock_ok world" and w: "live world w" and pc: "pc_of world w = ListFolder c"
  shows "lock_ok (lock_step env w inp world)"
proof -
  have st: "stage world w = Scans" and c: "retired world c" using pc lock_okD(1) [OF ok w] by (simp_all add: stage_def)
  have listed: "u \<in> set (list_breakers (lw_files world))" if "announced world u" for u
    using lock_okD(3) [OF ok that] by (simp only: list_breakers_iff not_False_eq_True)
  have "lock_ok (goto w (LeaveBreakers BreakError) world)"
    by (rule lock_ok_goto [OF ok w]) (use st in auto)
  moreover have "lock_ok (goto w (scan_next c (filter (\<lambda>v. v \<noteq> w) (list_breakers (lw_files world)))) world)"
    by (rule lock_ok_goto [OF ok w]) (use st c listed in auto)
  ultimately show ?thesis using pc by (simp add: lock_step_def Let_def)
qed

lemma step_link_break:
  assumes ok: "lock_ok world" and w: "live world w" and pc: "pc_of world w = LinkBreak c"
  shows "lock_ok (lock_step env w inp world)"
proof -
  have st: "stage world w = Acts" and c: "retired world c" using pc lock_okD(1) [OF ok w] by (simp_all add: stage_def)
  have put: "lock_ok (with_file BreakFile f world)" for f by (rule lock_ok_put [OF ok]) simp
  show ?thesis
    using pc st c w
    by (auto simp: lock_step_def link_break_def Let_def split: option.split intro!: lock_ok_goto ok put)
qed

lemma step_holding:
  assumes ok: "lock_ok world" and w: "live world w"
    and pc: "(\<exists>ps. pc_of world w = ListOldBreakers ps) \<or> pc_of world w \<in> {ListOld, RemoveOldFolder, CleanTemp locked, ReadManifest}"
  shows "lock_ok (lock_step env w inp world)"
proof -
  have clean: "lock_ok (without_file (TempFile w) world)" by (rule lock_ok_remove [OF ok]) auto
  have ps: "LockFile \<notin> set ps" if "pc_of world w = ListOldBreakers ps" for ps using lock_okD(1) [OF ok w] that by simp
  have st: "stage world w = (if pc_of world w = CleanTemp False then Fails else Holds)" using pc by (auto simp: stage_def)
  show ?thesis
    using pc w ps
    by (auto simp: lock_step_def Let_def release_def st list_beside_lock_not intro!: lock_ok_waits ok clean lock_ok_folder)
qed


lemma removes_lockD:
  assumes ok: "lock_ok world" and u: "live world u" "removes_lock (pc_of world u)"
  shows "\<exists>c. map_option fst (lock_file (lw_files world) LockFile) = Some c \<and> retired world c" and "stage world u = Acts"
  using lock_okD(1) [OF ok u(1)] u(2) by (auto simp: removes_lock_def stage_def)

lemma lock_ok_unlink:
  assumes ok: "lock_ok world" and free: "\<And>u. live world u \<Longrightarrow> stage world u \<noteq> Holds \<and> \<not> removes_lock (pc_of world u)"
  shows "lock_ok (without_file LockFile world)"
proof (rule lock_ok_update [OF ok, of undefined])
  have keeps: "keeps world (without_file LockFile world)" by (simp add: keeps_def)
  then show "keeps world (without_file LockFile world)" .
  show "live (without_file LockFile world) undefined \<longrightarrow>
      pc_ok (without_file LockFile world) undefined (pc_of (without_file LockFile world) undefined)"
    using pc_ok_mono [OF keeps lock_okD(1) [OF ok, of undefined]] free by simp
qed (use free lock_okD(3,4,6-10) [OF ok] in \<open>auto simp: holds_lock_def\<close>)

lemma after_removal_without: "after_removal env w k (without_file p world) = without_file p (after_removal env w k world)"
  by (simp add: after_removal_def without_file_def goto_def split: remove_for.split)

lemma remove_ok_without [simp]: "remove_ok (without_file q world) w p k = remove_ok world w p k"
  by (cases k) simp_all

definition removal_at :: "lock_path \<Rightarrow> remove_for \<Rightarrow> 'm lock_pc \<Rightarrow> bool" where
  "removal_at p k pc \<longleftrightarrow> (\<exists>d. pc = Comparing p d k) \<or> (\<exists>same. pc = CompareStat p same k) \<or> pc = Removing p k"

lemma removal_atD:
  assumes "removal_at p k pc"
  shows "pc_stage pc = remove_stage k" and "pc_ok world w pc \<Longrightarrow> remove_ok world w p k"
    and "k = ForScan c todo \<Longrightarrow> passed pc u \<longleftrightarrow> u \<notin> set todo"
  using assms by (auto simp: removal_at_def)

lemma lock_ok_after_removal:
  assumes ok: "lock_ok world" and w: "live world w" and pc: "removal_at p k (pc_of world w)" and k: "remove_ok world w p k"
  shows "lock_ok (after_removal env w k world)"
proof -
  have st: "stage world w = remove_stage k" using removal_atD(1) [OF pc] by (simp add: stage_def)
  have acts: "passed (pc_of world w) u" if "remove_stage k = Acts" for u using removal_atD(1) [OF pc] that by simp
  have moved: "lock_ok (goto w (removed w k) world)"
    by (rule lock_ok_goto [OF ok w]; cases k) (use k st acts removal_atD(3) [OF pc] in auto)
  have "goto w pc' (world\<lparr>lw_unreleased := un\<rparr>) = (goto w pc' world)\<lparr>lw_unreleased := un\<rparr>" for pc' un
    by (simp add: goto_def)
  then show ?thesis
    using moved lock_ok_unreleased [OF moved, of None "le_process env w"] by (cases k) (simp_all add: after_removal_def)
qed

lemma lock_ok_removal_fails:
  assumes ok: "lock_ok world" and w: "live world w" and pc: "removal_at p k (pc_of world w)" and k: "remove_ok world w p k"
  shows "lock_ok (removal_fails env w k world)"
proof -
  have st: "stage world w = remove_stage k" using removal_atD(1) [OF pc] by (simp add: stage_def)
  have acts: "passed (pc_of world w) u" if "remove_stage k = Acts" for u using removal_atD(1) [OF pc] that by simp
  have leave: "lock_ok (goto w (LeaveBreakers BreakError) world)" if "remove_stage k \<in> {Scans, Acts}"
    by (rule lock_ok_goto [OF ok w]) (use st that in auto)
  have own: "lock_ok (goto w (Comparing BreakFile (RecordOf w) (ForOwnBreak BreakError)) world)" if "remove_stage k = Acts"
    by (rule lock_ok_goto [OF ok w]) (use st that acts in auto)
  have over: "lock_ok (goto w Finished world)" and retry: "lock_ok (goto w (release w n) world)" if "remove_stage k = Holds" for n
    by (rule lock_ok_waits [OF ok w]; use st that in \<open>simp add: release_def\<close>)+
  have old: "lock_ok (goto w (old_next todo) world)" if "k = ForOld todo" for todo
    by (rule lock_ok_waits [OF ok w]) (use st k that in auto)
  have unreleased: "lock_ok ((goto w Finished world)\<lparr>lw_unreleased := (lw_unreleased world)(q := Some (RecordOf w))\<rparr>)"
    if "remove_stage k = Holds" for q
    using lock_ok_unreleased [OF over [OF that], of "Some (RecordOf w)" q] by (simp add: retired_def)
  have swap: "goto w Finished (world\<lparr>lw_unreleased := un\<rparr>) = (goto w Finished world)\<lparr>lw_unreleased := un\<rparr>" for un
    by (simp add: goto_def)
  show ?thesis
    using leave own over retry old unreleased by (cases k) (simp_all add: removal_fails_def swap)
qed


lemma step_comparing:
  assumes ok: "lock_ok world" and w: "live world w" and pc: "pc_of world w = Comparing p d k"
  shows "lock_ok (lock_step env w inp world)"
proof -
  have at: "removal_at p k (pc_of world w)" using pc by (simp add: removal_at_def)
  have st: "stage world w = remove_stage k" using pc by (simp add: stage_def)
  have k: "remove_ok world w p k" "k = ForLock c \<Longrightarrow> d = c" for c using lock_okD(1) [OF ok w] pc by simp_all
  have acts: "passed (pc_of world w) u" if "remove_stage k = Acts" for u using st that by (simp add: stage_def)
  have "lock_ok (goto w (CompareStat p (c' = d) k) world)" if "lock_file (lw_files world) p = Some (c', m)" for c' m
    by (rule lock_ok_goto [OF ok w]; cases k) (use st k acts that pc in auto)
  then show ?thesis
    using pc lock_ok_after_removal [OF ok w at k(1)] by (simp add: lock_step_def Let_def split: option.split)
qed

lemma step_compare_stat:
  assumes ok: "lock_ok world" and w: "live world w" and pc: "pc_of world w = CompareStat p same k"
  shows "lock_ok (lock_step env w inp world)"
proof -
  have at: "removal_at p k (pc_of world w)" using pc by (simp add: removal_at_def)
  have st: "stage world w = remove_stage k" using pc by (simp add: stage_def)
  have k: "remove_ok world w p k" using lock_okD(1) [OF ok w] pc by simp
  have lock: "k = ForLock c \<Longrightarrow> same \<Longrightarrow> map_option fst (lock_file (lw_files world) LockFile) = Some c" for c
    using lock_okD(1) [OF ok w] pc by simp
  have acts: "passed (pc_of world w) u" if "remove_stage k = Acts" for u using st that by (simp add: stage_def)
  have "lock_ok (goto w (Removing p k) world)" if "same"
    by (rule lock_ok_goto [OF ok w]; cases k) (use st k lock acts that pc in auto)
  then show ?thesis
    using pc lock_ok_after_removal [OF ok w at k(1)] lock_ok_removal_fails [OF ok w at k(1)] by (simp add: lock_step_def Let_def)
qed

lemma lone_actor:
  assumes ok: "lock_ok world" and w: "live world w" "pc_of world w = Removing LockFile k" and u: "u \<noteq> w" "live world u"
  shows "stage world u \<noteq> Holds \<and> \<not> removes_lock (pc_of world u)"
proof -
  consider c where "k = ForLock c" "retired world c" "map_option fst (lock_file (lw_files world) LockFile) = Some c" "stage world w = Acts"
    | n where "k = ForRelease n" "holds_lock world w" "map_option fst (lock_file (lw_files world) LockFile) = Some (RecordOf w)"
    using lock_okD(1) [OF ok w(1)] lock_okD(2) [OF ok, of w] w by (cases k) (auto simp: stage_def holds_lock_def)
  then show ?thesis
  proof cases
    case 1
    have "stage world u \<noteq> Holds" using 1 lock_okD(2) [OF ok, of u] u by (auto simp: holds_lock_def retired_def)
    moreover have "\<not> removes_lock (pc_of world u)"
      using removes_lockD(2) [OF ok u(2)] one_actor [OF ok w(1) 1(4) u(2)] u(1) by blast
    ultimately show ?thesis ..
  next
    case 2
    have "stage world u \<noteq> Holds" using 2 one_holder [OF ok, of u w] u by (auto simp: holds_lock_def)
    moreover have "\<not> removes_lock (pc_of world u)"
      using removes_lockD(1) [OF ok u(2)] 2 w(1) by (auto simp: retired_def holds_lock_def)
    ultimately show ?thesis ..
  qed
qed

lemma step_removing:
  assumes ok: "lock_ok world" and w: "live world w" and pc: "pc_of world w = Removing p k"
  shows "lock_ok (lock_step env w inp world)"
proof -
  have at: "removal_at p k (pc_of world w)" using pc by (simp add: removal_at_def)
  have k: "remove_ok world w p k" using lock_okD(1) [OF ok w] pc by simp
  have after: "lock_ok (after_removal env w k world)" by (rule lock_ok_after_removal [OF ok w at k])
  have "lock_ok (after_removal env w k (without_file p world))"
  proof (cases "p = LockFile")
    case True
    have pcs: "pc_of (after_removal env w k world) u = (if u = w then removed w k else pc_of world u)"
      "live (after_removal env w k world) u = live world u" for u
      by (auto simp: after_removal_def goto_def pc_of_def live_def split: remove_for.splits)
    have "stage world u \<noteq> Holds \<and> \<not> removes_lock (pc_of world u)" if "u \<noteq> w" "live world u" for u
      using lone_actor [OF ok w _ that] pc True by blast
    moreover have "pc_stage (removed w k) \<noteq> Holds \<and> \<not> removes_lock (removed w k :: 'a lock_pc)"
      using k True by (cases k) (auto simp: removes_lock_def)
    ultimately show ?thesis
      unfolding after_removal_without True using pcs by (intro lock_ok_unlink [OF after]) (auto simp: stage_def)
  next
    case False
    have "\<not> announced world v" if "p = Announcement v" for v
      using k that pc w by (cases k) (auto simp: withdrawn_def announced_def)
    then have "lock_ok (without_file p world)" using lock_ok_remove [OF ok False] by blast
    then show ?thesis using lock_ok_after_removal [of "without_file p world" w p k env] at k w by simp
  qed
  then show ?thesis using pc lock_ok_removal_fails [OF ok w at k] by (simp add: lock_step_def Let_def)
qed


lemma lock_ok_taken:
  assumes ok: "lock_ok world" and w: "live world w" and pc: "pc_of world w = LinkLock" and free: "lock_file (lw_files world) LockFile = None"
    and f: "fst f = RecordOf w" and pc': "pc' \<in> {ListOld, CleanTemp True}"
  shows "lock_ok (goto w pc' (with_file LockFile f world))"
proof (rule lock_ok_update [OF ok, of w])
  let ?w = "goto w pc' (with_file LockFile f world)"
  have holds: "pc_stage pc' = Holds" and pcs: "pc_ok ?w w pc'" and st: "stage world w = Waits" using pc' pc by (auto simp: stage_def)
  have free': "\<not> removes_lock (pc_of world u)" "\<not> (live world u \<and> stage world u = Holds)" if "live world u" for u
    using removes_lockD(1) [OF ok that] lock_okD(2) [OF ok, of u] free that by (auto simp: holds_lock_def)
  show "keeps world ?w" using holds st by (auto simp: keeps_def)
  then have ends: "retired ?w c" if "retired world c" for c using keeps_mono(1) that by blast
  show "\<forall>u. u \<noteq> w \<longrightarrow> lw_writers ?w u = lw_writers world u" by (simp add: goto_def)
  show "live ?w w \<longrightarrow> pc_ok ?w w (pc_of ?w w)" using pcs by simp
  show "\<forall>u. u \<noteq> w \<longrightarrow> live world u \<longrightarrow> stage world u = Holds \<or> removes_lock (pc_of world u) \<longrightarrow>
      map_option fst (lock_file (lw_files ?w) LockFile) = map_option fst (lock_file (lw_files world) LockFile)"
    using free' by blast
  show "\<forall>u m. lock_file (lw_files ?w) LockFile = Some (RecordOf u, m) \<longrightarrow> live ?w u \<longrightarrow> stage ?w u \<in> {Holds, Ends}"
    using f holds by auto
  show "\<forall>u f. lock_file (lw_files ?w) (Announcement u) = Some f \<longrightarrow> fst f = RecordOf u \<and> (announced ?w u \<or> withdrawn ?w u)"
  proof (intro allI impI)
    fix u g assume g: "lock_file (lw_files ?w) (Announcement u) = Some g"
    then have "lock_file (lw_files world) (Announcement u) = Some g" by simp
    then have "fst g = RecordOf u" "announced world u \<or> withdrawn world u" using lock_okD(7,8) [OF ok] by blast+
    then show "fst g = RecordOf u \<and> (announced ?w u \<or> withdrawn ?w u)"
      using st w by (cases "u = w") (auto simp: announced_def withdrawn_def)
  qed
  show "\<forall>p c. lw_unreleased ?w p = Some c \<longrightarrow> retired ?w c" using lock_okD(9) [OF ok] ends by simp
qed (use f pc' pc w lock_okD(3,4,6) [OF ok] in auto)

lemma step_link_lock:
  assumes ok: "lock_ok world" and w: "live world w" and pc: "pc_of world w = LinkLock"
  shows "lock_ok (lock_step env w inp world)"
proof -
  have st: "stage world w = Waits" using pc by (simp add: stage_def)
  have fails: "lock_ok (goto w (CleanTemp False) world)" by (rule lock_ok_waits [OF ok w]) (simp_all add: st)
  let ?found = "world\<lparr>lw_writers := (lw_writers world)(w := (lw_writers world w)\<lparr>ws_found_taken := True\<rparr>)\<rparr>"
  have found: "lock_ok ?found" by (rule lock_ok_writer [OF ok]) (simp_all add: pc_of_def)
  have same: "live ?found w" "stage ?found w = Waits" using w st by (simp_all add: live_def stage_def pc_of_def)
  have waits: "lock_ok (goto w pc' ?found)" if "pc' \<in> {ReadHolder, Reading LockFile JudgeLock}" for pc'
    by (rule lock_ok_waits [OF found same(1)]) (use that in \<open>auto simp: same\<close>)
  have taken: "lock_ok (goto w pc' (with_file LockFile f world))"
    if "lock_file (lw_files world) LockFile = None" "lock_file (lw_files world) (TempFile w) = Some f" "pc' \<in> {ListOld, CleanTemp True}" for pc' f
    by (rule lock_ok_taken [OF ok w pc that(1) lock_okD(6) [OF ok that(2)] that(3)])
  show ?thesis
    using fails waits taken by (simp add: lock_step_def link_lock_def Let_def pc split: option.split)
qed

lemma lock_ok_announced:
  assumes ok: "lock_ok world" and w: "live world w" and pc: "pc_of world w = Announce c" and folder: "lw_folder world"
    and f: "fst f = RecordOf w"
    and world': "world' = goto w (ListFolder c) (if lock_file (lw_files world) (Announcement w) = None then with_file (Announcement w) f world else world)"
  shows "lock_ok world'"
proof (rule lock_ok_update [OF ok, of w])
  have st: "stage world w = Waits" and c: "retired world c" using pc lock_okD(1) [OF ok w] by (simp_all add: stage_def)
  have pcs: "pc_of world' u = (if u = w then ListFolder c else pc_of world u)" "live world' u = live world u"
    "stage world' u = (if u = w then Scans else stage world u)" for u
    unfolding world' by simp_all
  have fs: "lock_file (lw_files world') p = (if p = Announcement w \<and> lock_file (lw_files world) p = None then Some f else lock_file (lw_files world) p)"
    and rest: "lw_folder world' = lw_folder world" "lw_unreleased world' = lw_unreleased world" for p
    unfolding world' by auto
  show keeps: "keeps world world'" using st by (auto simp: keeps_def pcs)
  show "\<forall>u. u \<noteq> w \<longrightarrow> lw_writers world' u = lw_writers world u" unfolding world' by (simp add: goto_def)
  show "live world' w \<longrightarrow> pc_ok world' w (pc_of world' w)" using keeps_mono(1) [OF keeps c] by (simp add: pcs)
  show "\<forall>u m. lock_file (lw_files world') LockFile = Some (RecordOf u, m) \<longrightarrow> live world' u \<longrightarrow> stage world' u \<in> {Holds, Ends}"
    using lock_okD(5) [OF ok] st by (auto simp: fs pcs)
  have ann: "fst g = RecordOf u \<and> (announced world' u \<or> withdrawn world' u)" if "lock_file (lw_files world') (Announcement u) = Some g" for u g
  proof (cases "u = w")
    case True
    then show ?thesis using that f lock_okD(7) [OF ok, of w g] w by (auto simp: fs announced_def pcs split: if_splits)
  next
    case False
    then show ?thesis
      using that lock_okD(7,8) [OF ok, of u g] by (simp add: fs announced_def withdrawn_def pcs)
  qed
  then show "\<forall>u f. lock_file (lw_files world') (Announcement u) = Some f \<longrightarrow> fst f = RecordOf u \<and> (announced world' u \<or> withdrawn world' u)"
    by blast
  show "\<forall>p c. lw_unreleased world' p = Some c \<longrightarrow> retired world' c" using lock_okD(9) [OF ok] keeps_mono(1) [OF keeps] by (simp add: rest)
  show "\<forall>u. announced world' u \<longrightarrow> lock_file (lw_files world') (Announcement u) \<noteq> None \<and> lw_folder world'"
    using lock_okD(3) [OF ok] folder by (auto simp: announced_def pcs fs rest split: if_splits)
  show "\<forall>u f. lock_file (lw_files world') (TempFile u) = Some f \<longrightarrow> fst f = RecordOf u" using lock_okD(6) [OF ok] by (simp add: fs)
  show "\<forall>u. u \<noteq> w \<longrightarrow> announced world u \<longrightarrow> announced world' w \<longrightarrow> passed (pc_of world' w) u \<longrightarrow> \<not> passed (pc_of world u) w"
    by (simp add: pcs passed_def)
  show "holds_lock world' w \<longrightarrow> map_option fst (lock_file (lw_files world') LockFile) = Some (RecordOf w)"
    by (simp add: holds_lock_def pcs)
  show "\<forall>u. u \<noteq> w \<longrightarrow> live world u \<longrightarrow> stage world u = Holds \<or> removes_lock (pc_of world u) \<longrightarrow>
      map_option fst (lock_file (lw_files world') LockFile) = map_option fst (lock_file (lw_files world) LockFile)"
    by (simp add: fs)
qed


lemma step_announce:
  assumes ok: "lock_ok world" and w: "live world w" and pc: "pc_of world w = Announce c"
  shows "lock_ok (lock_step env w inp world)"
proof -
  have st: "stage world w = Waits" using pc by (simp add: stage_def)
  have stay: "lock_ok (goto w pc' world)" if "pc' \<in> {Refresh, CleanTemp False}" for pc'
    by (rule lock_ok_waits [OF ok w]) (use that st in auto)
  have "lock_ok (announce w inp c world)"
  proof (cases "lock_file (lw_files world) (TempFile w)")
    case None
    then show ?thesis using stay by (simp add: announce_def)
  next
    case (Some f)
    then show ?thesis
      using stay lock_ok_announced [OF ok w pc _ lock_okD(6) [OF ok Some] refl] by (simp add: announce_def)
  qed
  then show ?thesis by (simp add: lock_step_def Let_def pc)
qed

lemma step_leave:
  assumes ok: "lock_ok world" and w: "live world w" and pc: "pc_of world w = LeaveBreakers out"
  shows "lock_ok (lock_step env w inp world)"
proof -
  have st: "stage world w = Leaves" using pc by (simp add: stage_def)
  have "lock_ok (goto w (CleanTemp False) world)" by (rule lock_ok_goto [OF ok w]) (simp_all add: st)
  moreover have "lock_ok (goto w (RemoveFolder out) (without_file (Announcement w) world))" (is "lock_ok ?w")
  proof (rule lock_ok_update [OF ok, of w])
    have pcs: "pc_of ?w u = (if u = w then RemoveFolder out else pc_of world u)" "live ?w u = live world u"
      "stage ?w u = (if u = w then Waits else stage world u)" for u
      by simp_all
    show keeps: "keeps world ?w" using st by (auto simp: keeps_def)
    show "\<forall>u. u \<noteq> w \<longrightarrow> lw_writers ?w u = lw_writers world u" by (simp add: goto_def)
    show "\<forall>u m. lock_file (lw_files ?w) LockFile = Some (RecordOf u, m) \<longrightarrow> live ?w u \<longrightarrow> stage ?w u \<in> {Holds, Ends}"
      using lock_okD(5) [OF ok] st by (auto simp: pcs)
    have "fst g = RecordOf u \<and> (announced ?w u \<or> withdrawn ?w u)" if "lock_file (lw_files ?w) (Announcement u) = Some g" for u g
    proof -
      have u: "u \<noteq> w" "lock_file (lw_files world) (Announcement u) = Some g" using that by (auto split: if_splits)
      then show ?thesis using lock_okD(7,8) [OF ok u(2)] by simp
    qed
    then show "\<forall>u f. lock_file (lw_files ?w) (Announcement u) = Some f \<longrightarrow> fst f = RecordOf u \<and> (announced ?w u \<or> withdrawn ?w u)"
      by blast
    show "\<forall>p c. lw_unreleased ?w p = Some c \<longrightarrow> retired ?w c" using lock_okD(9) [OF ok] keeps_mono(1) [OF keeps] by simp
  qed (use lock_okD(3,4,6) [OF ok] in auto)
  ultimately show ?thesis using pc by (simp add: lock_step_def Let_def)
qed

lemma step_write:
  assumes ok: "lock_ok world" and w: "live world w" and pc: "pc_of world w = WriteManifest m"
  shows "lock_ok (lock_step env w inp world)"
proof -
  have st: "stage world w = Holds" using pc by (simp add: stage_def)
  have written: "lock_ok (world\<lparr>lw_manifest := m', lw_writes := ws\<rparr>)" for m' ws
    by (rule lock_ok_files [OF ok]) (use lock_okD(4,6,9) [OF ok] in \<open>simp_all add: pc_of_def live_def\<close>)
  have same: "live (world\<lparr>lw_manifest := m', lw_writes := ws\<rparr>) w" "stage (world\<lparr>lw_manifest := m', lw_writes := ws\<rparr>) w = Holds" for m' ws
    using w st by (simp_all add: live_def stage_def pc_of_def)
  have "lock_ok (goto w (release w 1) (world\<lparr>lw_manifest := m', lw_writes := ws\<rparr>))" for m' ws
    by (rule lock_ok_waits [OF written same(1)]) (simp_all add: same release_def)
  moreover have "lock_ok (goto w (release w 1) world)" by (rule lock_ok_waits [OF ok w]) (simp_all add: st release_def)
  ultimately show ?thesis using pc by (simp add: lock_step_def Let_def)
qed

lemma lock_ok_step:
  assumes ok: "lock_ok world" and w: "live world w" and right: "judged_right env inp w world"
  shows "lock_ok (lock_step env w inp world)"
proof (cases "pc_of world w")
  case (CleanTemp locked)
  then show ?thesis using step_holding [OF ok w, of locked] by simp
next
  case Finished
  then show ?thesis using ok by (simp add: lock_step_def)
next
  case Failed
  then show ?thesis using ok by (simp add: lock_step_def)
next
  case Statting
  then show ?thesis by (rule step_statting [OF ok w _ right])
qed (use step_before_link [OF ok w] step_link_lock [OF ok w] step_reading [OF ok w] step_folder [OF ok w] step_announce [OF ok w]
    step_list_folder [OF ok w] step_link_break [OF ok w] step_comparing [OF ok w] step_compare_stat [OF ok w]
    step_removing [OF ok w] step_leave [OF ok w] step_holding [OF ok w] step_write [OF ok w] in simp_all)

lemma lock_ok_crash:
  assumes ok: "lock_ok world"
  shows "lock_ok (crash w world)"
proof (rule lock_ok_update [OF ok, of w])
  have pcs: "live (crash w world) u \<longleftrightarrow> live world u \<and> u \<noteq> w" "stage (crash w world) u = stage world u" "pc_of (crash w world) u = pc_of world u"
    and rest: "lw_files (crash w world) = lw_files world" "lw_folder (crash w world) = lw_folder world"
      "lw_unreleased (crash w world) = lw_unreleased world" for u
    by (auto simp: crash_def live_def stage_def pc_of_def)
  show keeps: "keeps world (crash w world)" by (auto simp: keeps_def pcs)
  show "\<forall>u. u \<noteq> w \<longrightarrow> lw_writers (crash w world) u = lw_writers world u" by (simp add: crash_def)
  have "fst g = RecordOf u \<and> (announced (crash w world) u \<or> withdrawn (crash w world) u)"
    if "lock_file (lw_files world) (Announcement u) = Some g" for u g
    using lock_okD(7,8) [OF ok that] by (auto simp: announced_def withdrawn_def pcs)
  then show "\<forall>u f. lock_file (lw_files (crash w world)) (Announcement u) = Some f \<longrightarrow>
      fst f = RecordOf u \<and> (announced (crash w world) u \<or> withdrawn (crash w world) u)"
    by (simp only: rest) blast
  show "\<forall>p c. lw_unreleased (crash w world) p = Some c \<longrightarrow> retired (crash w world) c"
    using lock_okD(9) [OF ok] keeps_mono(1) [OF keeps] by (simp add: rest)
  have "lock_file (lw_files world) (Announcement u) \<noteq> None \<and> lw_folder world" if "announced (crash w world) u" for u
    using lock_okD(3,4) [OF ok, of u] that by (simp add: announced_def pcs)
  then show "\<forall>u. announced (crash w world) u \<longrightarrow> lock_file (lw_files (crash w world)) (Announcement u) \<noteq> None \<and> lw_folder (crash w world)"
    by (simp only: rest) blast
qed (use lock_okD(5,6) [OF ok] in \<open>auto simp: crash_def live_def stage_def pc_of_def holds_lock_def announced_def\<close>)

lemma lock_ok_init:
  assumes "lock_init m0 world"
  shows "lock_ok world"
  using assms
  by (auto simp: lock_init_def lock_ok_def stage_def holds_lock_def announced_def withdrawn_def)

lemma lock_ok_reach: "lock_reach env m0 world \<Longrightarrow> lock_ok world"
  by (induction rule: lock_reach.induct) (auto intro: lock_ok_init lock_ok_step lock_ok_crash)


section \<open>The manifest\<close>

lemma never_write [simp]:
  "scan_next c todo \<noteq> WriteManifest m" "old_next ps \<noteq> WriteManifest m" "judged_missing at \<noteq> WriteManifest m"
  "judge_fails at \<noteq> WriteManifest m" "judged env inp world w p st at \<noteq> WriteManifest m" "removed w k \<noteq> WriteManifest m"
  "release w n \<noteq> WriteManifest m"
proof -
  show scan: "scan_next c todo \<noteq> WriteManifest m" and old: "old_next ps \<noteq> WriteManifest m" for c todo ps
    by (cases todo; cases ps; simp)+
  show "judged_missing at \<noteq> WriteManifest m" "judge_fails at \<noteq> WriteManifest m" "judged env inp world w p st at \<noteq> WriteManifest m"
    by (cases at; simp add: scan old judged_def)+
  show "removed w k \<noteq> WriteManifest m" by (cases k) (simp_all add: scan old)
qed (simp add: release_def)

lemma after_removal_simps [simp]:
  "lw_manifest (after_removal env w k world) = lw_manifest world" "lw_writes (after_removal env w k world) = lw_writes world"
  "pc_of (after_removal env w k world) u = (if u = w then removed w k else pc_of world u)"
  by (simp_all add: after_removal_def pc_of_def goto_def split: remove_for.split)

lemma removal_fails_simps [simp]:
  "lw_manifest (removal_fails env w k world) = lw_manifest world" "lw_writes (removal_fails env w k world) = lw_writes world"
  "u \<noteq> w \<Longrightarrow> pc_of (removal_fails env w k world) u = pc_of world u" "pc_of (removal_fails env w k world) w \<noteq> WriteManifest m"
proof -
  show "pc_of (removal_fails env w k world) w \<noteq> WriteManifest m" by (cases k) (simp_all add: removal_fails_def)
qed (cases k; simp add: removal_fails_def pc_of_def goto_def)+

lemma files_manifest [simp]:
  "lw_manifest (with_file p f world) = lw_manifest world" "lw_manifest (without_file p world) = lw_manifest world"
  "lw_manifest (remove_folder world) = lw_manifest world"
  "lw_writes (with_file p f world) = lw_writes world" "lw_writes (without_file p world) = lw_writes world"
  "lw_writes (remove_folder world) = lw_writes world"
  by (simp_all add: with_file_def without_file_def remove_folder_def)

lemma step_others: "u \<noteq> w \<Longrightarrow> pc_of (lock_step env w inp world) u = pc_of world u"
  by (cases "pc_of world w")
    (auto simp: lock_step_def link_lock_def announce_def link_break_def Let_def split: option.split,
     auto simp: pc_of_def)


lemma step_no_write:
  assumes "\<And>m. pc_of world w \<noteq> WriteManifest m"
  shows "lw_manifest (lock_step env w inp world) = lw_manifest world" and "lw_writes (lock_step env w inp world) = lw_writes world"
  using assms
  by (cases "pc_of world w"; simp add: lock_step_def link_lock_def announce_def link_break_def Let_def split: option.split)+

lemma step_to_write:
  assumes "pc_of (lock_step env w inp world) w = WriteManifest m"
  shows "pc_of world w = ReadManifest" and "m = lw_manifest world"
  using assms
  by (cases "pc_of world w";
    auto simp: lock_step_def link_lock_def announce_def link_break_def Let_def split: option.splits if_splits)+

definition wrote :: "'m lock_pc \<Rightarrow> bool" where
  \<comment> \<open>The writer is past its update.\<close>
  "wrote pc \<longleftrightarrow> (\<exists>p n. removal_at p (ForRelease n) pc) \<or> pc = Finished"

lemma step_wrote:
  assumes "wrote (pc_of world w)"
  shows "wrote (pc_of (lock_step env w inp world) w)"
  using assms
  by (cases "pc_of world w")
    (auto simp: wrote_def removal_at_def lock_step_def removal_fails_def release_def Let_def split: option.split)

definition manifest_ok :: "'m lock_env \<Rightarrow> 'm \<Rightarrow> 'm lock_world \<Rightarrow> bool" where
  "manifest_ok env m0 world \<longleftrightarrow>
     lw_manifest world = foldl (\<lambda>m w. le_update env w m) m0 (lw_writes world)
     \<and> distinct (lw_writes world) \<and> (\<forall>w \<in> set (lw_writes world). wrote (pc_of world w))
     \<and> (\<forall>w m. live world w \<longrightarrow> pc_of world w = WriteManifest m \<longrightarrow> m = lw_manifest world)"

lemma manifest_okI:
  assumes "lw_manifest world = foldl (\<lambda>m w. le_update env w m) m0 (lw_writes world)" and "distinct (lw_writes world)"
    and "\<And>u. u \<in> set (lw_writes world) \<Longrightarrow> wrote (pc_of world u)"
    and "\<And>u m. live world u \<Longrightarrow> pc_of world u = WriteManifest m \<Longrightarrow> m = lw_manifest world"
  shows "manifest_ok env m0 world"
  unfolding manifest_ok_def using assms by blast

lemma manifest_okD:
  assumes "manifest_ok env m0 world"
  shows "lw_manifest world = foldl (\<lambda>m w. le_update env w m) m0 (lw_writes world)" and "distinct (lw_writes world)"
    and "u \<in> set (lw_writes world) \<Longrightarrow> wrote (pc_of world u)"
    and "live world u \<Longrightarrow> pc_of world u = WriteManifest m \<Longrightarrow> m = lw_manifest world"
  using assms unfolding manifest_ok_def by blast+

lemma live_step [simp]: "live (lock_step env w inp world) = live world"
  by (cases "pc_of world w")
    (auto simp: fun_eq_iff lock_step_def link_lock_def announce_def link_break_def after_removal_def removal_fails_def Let_def
      split: option.split remove_for.split, auto simp: live_def split: if_splits)

lemma manifest_ok_step:
  assumes ok: "manifest_ok env m0 world" and lock: "lock_ok world" and w: "live world w"
  shows "manifest_ok env m0 (lock_step env w inp world)"
proof -
  let ?next = "lock_step env w inp world"
  have pcs: "pc_of ?next u = pc_of world u" if "u \<noteq> w" for u by (rule step_others [OF that])
  have kept: "wrote (pc_of ?next u)" if "wrote (pc_of world u)" for u
    using that pcs step_wrote by (cases "u = w") auto
  show ?thesis
  proof (cases "\<exists>m. pc_of world w = WriteManifest m")
    case False
    then have same: "lw_manifest ?next = lw_manifest world" "lw_writes ?next = lw_writes world"
      using step_no_write [of world w env inp] by auto
    have writing: "m = lw_manifest world" if "pc_of ?next u = WriteManifest m" "live world u" for u m
    proof (cases "u = w")
      case True
      then show ?thesis using step_to_write(2) [of env w inp world m] that by simp
    next
      case False
      then have "pc_of world u = WriteManifest m" using pcs [OF False] that(1) by simp
      then show ?thesis by (rule manifest_okD(4) [OF ok that(2)])
    qed
    show ?thesis
    proof (rule manifest_okI; unfold same live_step)
      show "wrote (pc_of ?next u)" if "u \<in> set (lw_writes world)" for u by (rule kept [OF manifest_okD(3) [OF ok that]])
    qed (rule manifest_okD(1,2) [OF ok] writing; assumption)+
  next
    case True
    then obtain m where m: "pc_of world w = WriteManifest m" ..
    have current: "m = lw_manifest world" by (rule manifest_okD(4) [OF ok w m])
    have fresh: "w \<notin> set (lw_writes world)" using manifest_okD(3) [OF ok, of w] m by (auto simp: wrote_def removal_at_def)
    have alone: "u = w" if "live world u" "pc_of world u = WriteManifest m'" for u m'
      using one_holder [OF lock, of u w] that m w by (simp add: holds_lock_def stage_def)
    have past: "wrote (pc_of ?next w)" using m by (simp add: wrote_def removal_at_def lock_step_def release_def Let_def)
    have none: "pc_of ?next u \<noteq> WriteManifest m'" if "live world u" for u m'
    proof
      assume u: "pc_of ?next u = WriteManifest m'"
      then have "u = w" using alone [OF that] pcs [of u] by metis
      then show False using past u by (auto simp: wrote_def removal_at_def)
    qed
    show ?thesis
    proof (cases "li_fails inp")
      case True
      then have same: "lw_manifest ?next = lw_manifest world" "lw_writes ?next = lw_writes world"
        using m by (simp_all add: lock_step_def Let_def)
      show ?thesis
        by (rule manifest_okI) (use manifest_okD(1-3) [OF ok] kept none in \<open>simp_all add: same\<close>)
    next
      case False
      then have new: "lw_manifest ?next = le_update env w m" "lw_writes ?next = lw_writes world @ [w]"
        using m by (simp_all add: lock_step_def Let_def)
      have "wrote (pc_of ?next u)" if "u \<in> set (lw_writes ?next)" for u
        using that manifest_okD(3) [OF ok] kept past unfolding new by auto
      then show ?thesis
        by (intro manifest_okI) (use manifest_okD(1,2) [OF ok] none fresh current in \<open>simp_all add: new\<close>)
    qed
  qed
qed

lemma manifest_ok_reach: "lock_reach env m0 world \<Longrightarrow> manifest_ok env m0 world"
proof (induction rule: lock_reach.induct)
  case (start world)
  then show ?case by (simp add: lock_init_def manifest_ok_def)
next
  case (step world w inp)
  show ?case by (rule manifest_ok_step [OF step.IH lock_ok_reach [OF step.hyps(1)] step.hyps(2)])
next
  case (crashes world w)
  then show ?case by (auto simp: manifest_ok_def crash_def pc_of_def live_def split: if_splits)
qed


section \<open>Properties\<close>

definition lock_run :: "'m lock_env \<Rightarrow> writer \<Rightarrow> lock_input \<Rightarrow> nat \<Rightarrow> 'm lock_world \<Rightarrow> 'm lock_world" where
  \<comment> \<open>that many steps of one writer\<close>
  "lock_run env w inp n world = (lock_step env w inp ^^ n) world"

lemma lock_run_simps [simp]:
  "lock_run env w inp 0 world = world" "lock_run env w inp (Suc n) world = lock_run env w inp n (lock_step env w inp world)"
  by (simp_all add: lock_run_def funpow_Suc_right del: funpow.simps)

lemma goto_writers [simp]:
  "ws_found_taken (lw_writers (goto w pc world) u) = ws_found_taken (lw_writers world u)"
  "ws_deadline (lw_writers (goto w pc world) u) = ws_deadline (lw_writers world u)"
  by (simp_all add: goto_def)

lemma lock_file_list [simp]:
  "lock_file [] q = None" "lock_file ((p, f) # fs) q = (if q = p then Some f else lock_file fs q)"
  by (simp_all add: lock_file_def)

lemma file_list [simp]:
  "remove_file p [] = []" "remove_file p ((q, f) # fs) = (if q = p then remove_file p fs else (q, f) # remove_file p fs)"
  by (simp_all add: remove_file_def)

definition solo :: "writer \<Rightarrow> lock_input \<Rightarrow> 'm lock_pc \<Rightarrow> lock_files \<Rightarrow> bool \<Rightarrow> 'm \<Rightarrow> 'm lock_world \<Rightarrow> bool" where
  \<comment> \<open>what a writer has in a run of its own\<close>
  "solo w inp pc fs found m world \<longleftrightarrow>
     pc_of world w = pc \<and> lw_files world = fs \<and> ws_found_taken (lw_writers world w) = found \<and> lw_manifest world = m
     \<and> (pc \<noteq> WriteTemp \<longrightarrow> li_now inp < ws_deadline (lw_writers world w))"

lemmas lock_step_defs = numeral_eq_Suc lock_step_def link_lock_def announce_def link_break_def judged_def Let_def
  list_breakers_def list_beside_lock_def release_def put_file_def is_stale_lock_def

lemma solo_meets:
  assumes "is_owner_gone env inp (c, t)" and "\<not> li_fails inp" and "0 < le_wait_ms env"
  shows "solo w inp WriteTemp [(LockFile, c, t)] False m world \<Longrightarrow>
    solo w inp (MakeFolder c) [(TempFile w, RecordOf w, li_now inp), (LockFile, c, t)] True m (lock_run env w inp 5 world)"
  using assms by (simp add: solo_def lock_step_defs)

lemma solo_announces:
  assumes "\<not> li_fails inp"
  shows "solo w inp (MakeFolder c) [(TempFile w, r), (LockFile, f)] True m world \<Longrightarrow>
    solo w inp (LinkBreak c) [(Announcement w, r), (TempFile w, r), (LockFile, f)] True m (lock_run env w inp 3 world)"
  using assms by (simp add: solo_def lock_step_defs)

lemma solo_after [simp]:
  "solo w inp pc fs found m (after_removal env w k world) \<longleftrightarrow> solo w inp pc fs found m (goto w (removed w k) world)"
  by (cases k) (simp_all add: after_removal_def solo_def goto_def pc_of_def)

lemma solo_breaks:
  assumes "\<not> li_fails inp"
  shows "solo w inp (LinkBreak c) [(Announcement w, r), (TempFile w, RecordOf w, n), (LockFile, c, t)] True m world \<Longrightarrow>
    solo w inp (Comparing BreakFile (RecordOf w) (ForOwnBreak Retry)) [(BreakFile, RecordOf w, n), (Announcement w, r), (TempFile w, RecordOf w, n)]
      True m (lock_run env w inp 4 world)"
  using assms by (simp add: solo_def lock_step_defs after_removal_def)

lemma solo_leaves:
  assumes "\<not> li_fails inp"
  shows "solo w inp (Comparing BreakFile (RecordOf w) (ForOwnBreak Retry)) [(BreakFile, RecordOf w, n), (Announcement w, r), (TempFile w, f)] True m world \<Longrightarrow>
    solo w inp Refresh [(TempFile w, f)] True m (lock_run env w inp 5 world)"
  using assms by (simp add: solo_def lock_step_defs after_removal_def)

lemma solo_takes:
  assumes "\<not> li_fails inp"
  shows "solo w inp Refresh [(TempFile w, RecordOf w, n)] True m world \<Longrightarrow>
    solo w inp ReadManifest [(LockFile, RecordOf w, li_now inp)] True m (lock_run env w inp 6 world)"
  using assms by (simp add: solo_def lock_step_defs)

lemma solo_updates:
  assumes "\<not> li_fails inp"
  shows "solo w inp ReadManifest [(LockFile, RecordOf w, n)] True m world \<Longrightarrow>
    solo w inp Finished [] True (le_update env w m) (lock_run env w inp 5 world)"
  using assms by (simp add: solo_def lock_step_defs after_removal_def)


lemma lock_run_add: "lock_run env w inp (a + b) world = lock_run env w inp b (lock_run env w inp a world)"
  by (simp add: lock_run_def funpow_add add.commute [of a b])

lemma reach_unjudged:
  assumes "lock_reach env m0 world" and "live world w" and "\<And>p c at. pc_of world w \<noteq> Statting p c at"
  shows "lock_reach env m0 (lock_step env w inp world)"
  by (rule lock_reach.step [OF assms(1,2)]) (use assms(3) in \<open>simp add: judged_right_def split: lock_pc.split\<close>)

definition sample_env :: "int lock_env" where
  "sample_env = \<lparr>le_process = (\<lambda>_. 0), le_owner = (\<lambda>_. (1, None)), le_linux = False, le_wait_ms = 10000, le_stale_ms = 30000,
     le_update = (\<lambda>w m. m + int w)\<rparr>"

definition sample_input :: lock_input where
  "sample_input = \<lparr>li_now = 0, li_judge = (\<lambda>_ _. HostDead), li_fails = False\<rparr>"

definition sample_world :: "lock_files \<Rightarrow> int lock_world" where
  "sample_world fs = \<lparr>lw_files = fs, lw_folder = False,
     lw_writers = (\<lambda>_. \<lparr>ws_pc = WriteTemp, ws_found_taken = False, ws_deadline = 0, ws_crashed = False\<rparr>),
     lw_unreleased = (\<lambda>_. None), lw_manifest = 5, lw_writes = []\<rparr>"

lemmas sample_defs = sample_env_def sample_input_def sample_world_def

lemma sample_start: "lock_reach sample_env 5 (sample_world [])"
  by (rule lock_reach.start) (simp add: lock_init_def sample_world_def pc_of_def)

lemma sample_steps:
  "solo 2 sample_input WriteTemp [] False 5 (sample_world [])"
  "\<not> li_fails sample_input" "live (sample_world fs) w" "0 < le_wait_ms sample_env" "li_now sample_input = 0"
  by (simp_all add: solo_def sample_defs pc_of_def live_def)

lemma lock_run_live [simp]: "live (lock_run env w inp n world) = live world"
  by (induction n arbitrary: world) simp_all

lemma sample_pcs:
  "pc_of (lock_run sample_env 2 sample_input 1 (sample_world [])) 2 = Refresh"
  "pc_of (lock_run sample_env 2 sample_input 2 (sample_world [])) 2 = LinkLock"
  "pc_of (lock_run sample_env 2 sample_input 3 (sample_world [])) 2 = CleanTemp True"
  "pc_of (lock_run sample_env 2 sample_input 4 (sample_world [])) 2 = ReadManifest"
  "pc_of (lock_run sample_env 2 sample_input 5 (sample_world [])) 2 = WriteManifest 5"
  "lw_writes (lock_run sample_env 2 sample_input 5 (sample_world [])) = lw_writes (sample_world [])"
  using sample_steps(1,2) by (simp_all add: solo_def lock_step_defs after_removal_def)

lemma sample_reach:
  "n \<le> 6 \<Longrightarrow> lock_reach sample_env 5 (lock_run sample_env 2 sample_input n (sample_world []))"
proof (induction n)
  case 0
  show ?case using sample_start by simp
next
  case (Suc n)
  let ?w = "lock_run sample_env 2 sample_input n (sample_world [])"
  have "pc_of ?w 2 \<in> {WriteTemp, Refresh, LinkLock, CleanTemp True, ReadManifest, WriteManifest 5}"
  proof -
    consider "n = 0" | "n = 1" | "n = 2" | "n = 3" | "n = 4" | "n = 5" using Suc.prems by linarith
    then show ?thesis using sample_pcs sample_steps(1) unfolding solo_def by cases simp_all
  qed
  then have "pc_of ?w 2 \<noteq> Statting p c at" for p c at by auto
  then have "lock_reach sample_env 5 (lock_step sample_env 2 sample_input ?w)"
    using Suc sample_steps(3) by (intro reach_unjudged) simp_all
  then show ?case using lock_run_add [of sample_env 2 sample_input n 1 "sample_world []"] by simp
qed







end
