(* ===== verification/Spec2Isabelle.thy ===== *)
theory Spec2Isabelle
  imports BatchOnHost QueryResponder LineDiff LiveView DashboardView GridFrames
    HostRecord RpcWire ArtifactLockSafety
begin

text \<open>
  A verification library for agent-tty, a tool that runs terminal programs in sessions which a
  script drives and observes.

  The program. \<open>agent-tty create\<close> starts one host process for each session (\<open>src/host/hostMain.ts\<close>).
  The host owns a PTY with the program in it, answers the program's terminal queries, takes the
  completions of waited runs out of the program's output, and appends everything that happens to
  the event log of the session. Commands reach the host as requests over a socket, or, when a host
  is gone, repair the record of its session on disk (\<open>src/host/lifecycle.ts\<close>). Snapshots and render
  waits replay the log into a terminal emulator. A batch (\<open>src/batch\<close>) is a plan of several inputs
  and waits that one command runs.

  Theories and sources (all under \<open>src/\<close>):
  \<^item> \<open>Prelude\<close>: JavaScript strings as lists of UTF-16 code units, thrown errors as values, ordered
    maps, and the lemma collections of the library.
  \<^item> \<open>EventRecords\<close>: the records of \<open>protocol/schemas.ts\<close>, the checks of their schemas, and their
    JSON text and its size in bytes. \<open>EventCodec\<close>: \<open>storage/eventLogCodec.ts\<close>, the stop marker, the
    parse of a log and its streaming scan. \<open>EventLog\<close>: \<open>host/eventLog.ts\<close>, the buffer, the queue of
    writes, the limits with their reserve, opening and closing. \<open>LogInterface\<close>: what the clients of
    the log rely on, interpreted in \<open>EventLog\<close>.
  \<^item> \<open>SentinelScanner\<close> and \<open>EchoSanitizer\<close>: the two stream filters of
    \<open>host/runCompletionSentinel.ts\<close>. \<open>RunCoordinator\<close>: \<open>host/runCompletionCoordinator.ts\<close> over both
    and the log. \<open>ChunkFilter\<close>: the interface of a filter that is fed in chunks.
  \<^item> \<open>SessionModel\<close>: \<open>protocol/sessionStatusPolicy.ts\<close>, \<open>protocol/terminationCategory.ts\<close>,
    \<open>host/sessionState.ts\<close> and \<open>host/manifestWriter.ts\<close>. \<open>SessionStore\<close>: the manifest and the destroy
    marker on disk, with the host, \<open>reconcileSession\<close>, \<open>destroySession\<close> and gc as machines that
    interleave between awaits.
  \<^item> \<open>KeyEncoder\<close>: \<open>pty/keyEncoder.ts\<close> and \<open>pty/pasteEncoder.ts\<close>. \<open>QueryResponder\<close>:
    \<open>pty/terminalQueryResponder.ts\<close>. \<open>LineDiff\<close>: \<open>util/lineDiff.ts\<close>.
  \<^item> \<open>RenderWait\<close>: \<open>renderWait/matcher.ts\<close>, \<open>renderWait/limits.ts\<close>, \<open>renderer/canonicalScreen.ts\<close> and
    the polling loop of \<open>waitForRender\<close>. \<open>MouseInput\<close>: \<open>host/mouseInput.ts\<close> and the single mouse
    request of \<open>host/mouseRpc.ts\<close>.
  \<^item> \<open>HostRequests\<close>: the request handlers of \<open>host/hostMain.ts\<close> over one state \<open>host_core\<close>, which has
    the session, the log, the coordinator, the PTY and the held buttons.
  \<^item> \<open>BatchPlan\<close>: \<open>batch/plan.ts\<close>. \<open>BatchExecutor\<close>: \<open>batch/executor.ts\<close>, \<open>batch/result.ts\<close> and
    \<open>cli/eventLogStop.ts\<close> over any driver. \<open>BatchOnHost\<close>: \<open>batch/stepDriver.ts\<close> in front of the
    handlers of \<open>HostRequests\<close>.
  \<^item> \<open>Replay\<close>: \<open>host/replay.ts\<close> and the slices of \<open>renderer/replaySlices.ts\<close>. \<open>Backends\<close>: the replay of
    \<open>renderer/libghosttyVt/backend.ts\<close> and \<open>renderer/ghosttyWeb/backend.ts\<close> over an emulator.
    \<open>RendererManager\<close>: \<open>host/renderer.ts\<close> and \<open>renderer/registry.ts\<close>. \<open>Snapshots\<close>: the snapshots of
    both backends with \<open>renderer/ghosttyWeb/harnessDecoding.ts\<close>, and \<open>snapshot/capture.ts\<close>.
  \<^item> \<open>Following\<close>: what a reader of a log needs of a backend. \<open>LiveView\<close>: \<open>dashboard/eventSource.ts\<close> and
    \<open>dashboard/liveViewFollower.ts\<close>. \<open>DashboardView\<close>: \<open>dashboard/liveViewProjection.ts\<close> and
    \<open>dashboard/sessionListLayout.ts\<close>. \<open>GridFrames\<close>: \<open>replay/gridFrames.ts\<close>.
  \<^item> \<open>ProcFs\<close>: the calls of the system with free answers, recorded in a trace, and the readers of
    \<open>/proc\<close> in \<open>host/programGroup.ts\<close>. \<open>ProgramGroup\<close>: the rest of that file, from the token of a
    program to the signals of destroy and gc, and a model of the kernel's process groups.
    \<open>HostRecord\<close>: \<open>host/hostRecord.ts\<close>, the identity of a host and the judgement whether it runs.
  \<^item> \<open>RpcWire\<close>: \<open>host/rpcServer.ts\<close> and \<open>host/rpcClient.ts\<close> with the messages of \<open>protocol/messages.ts\<close>.
  \<^item> \<open>ArtifactLock\<close>: the lock of \<open>storage/artifactManifest.ts\<close>, every call of the file system as a step of
    one of the writers. \<open>ArtifactLockSafety\<close>: its invariant and what it promises.

  How the model reads. A class or the closure of a factory is a record, its methods are functions
  that return the new record; a method that throws returns \<open>Inl\<close> of the error, next to the state it
  leaves where it has changed any. Code that suspends is cut at its awaits: what runs between two
  awaits is one step, and what other code does meanwhile is an argument or another step. The
  theorems quantify over these arguments: the clock, the random tokens, the outcome of a write,
  the liveness of a process, \<open>JSON.parse\<close>, the \<open>RegExp\<close> engine, the native mouse encoder and the
  screens of the emulator. Loops are recursions over the list that they consume. The one loop
  without a bound of its own, the replay before a mouse event, consumes the list of what its loads
  return, and a request that is still in it at the end of the list has no answer (\<open>None\<close>).

  What is shown.
  \<^item> The log: contiguous numbers, both limits, the file as a prefix of the history under failing
    writes, an answer for every append, room for the exit record, the stop marker, and reopening.
  \<^item> Waited runs: a sentinel is found wherever chunks cut it and never reaches the output, the echo
    of the postamble is removed whole, nothing else is lost, the coordinator breaks no assertion and
    reports the record of the run.
  \<^item> Sessions: the life cycle of the state, no manifest after a terminal one, no terminal session that
    reads active again and no lost destroy under any interleaving of processes, and the repairs of a
    reconcile that runs alone.
  \<^item> The host: until the log stops, its input records account for every write to the program.
  \<^item> Input and output: key and paste encodings, held buttons, the query responder against a reader of
    whole sequences, the line diff against the longest common subsequence.
  \<^item> Render waits: a match saw what it waited for, a settled screen ends a wait, the least time that a
    stable wait takes, and the guard against nested quantifiers.
  \<^item> Batches: an accepted plan can run, the shape of the result, and, through the interpretation of
    the driver's laws on the host, that a wait sees every input before it.
  \<^item> Replay: slices within their limits, a replay in slices as one replay, both backends in agreement,
    and a renderer whose terminal has applied exactly the loaded log after any history of uses,
    crashes and disposals.
  \<^item> Program groups: which signals destroy and gc send, to whom and after which evidence, that no group
    stays frozen, and, over a kernel whose processes fork, end and change groups as documented, that
    the group killed held only processes of the program's session. The verdict on a host is right.
  \<^item> Requests: one answer for each, within the caps and with its id, whatever arrives and whatever a
    handler does, and a call over the wire, in any chunks and with any keep-alives, as the call itself.
  \<^item> Artifacts: under any interleaving of writers, breakers and crashes one writer at most holds the
    lock of a manifest, no update is lost, and the lock of a writer that is gone is broken.
  \<^item> Views: packed rows indexed by terminal column, the projections of the dashboard, the live view
    as a first part of the log that catches up, and an animated export that shows at every moment
    what the terminal showed.

  Interfaces. \<open>event_appender\<close> (\<open>LogInterface\<close>) is what the coordinator and the handlers need of the
  log; \<open>chunk_filter\<close> (\<open>ChunkFilter\<close>) is what a chunked filter promises, given by the scanner and by
  the query responder; \<open>step_driver\<close> (\<open>BatchExecutor\<close>) is what the executor needs of its driver,
  given by the host in \<open>BatchOnHost\<close>; \<open>replay_backend\<close> and \<open>emulating_backend\<close> (\<open>Replay\<close>, \<open>Backends\<close>) are
  what a replay needs of a backend, given by both; \<open>following_backend\<close> (\<open>Following\<close>) is what a
  reader of a log needs, given by the native backend.

  Not modelled. The terminal emulators themselves, the browser page, screenshots, video and SVG
  text, the idle timers of the host, the \<open>wait\<close>, \<open>inspect\<close>, \<open>snapshot\<close> and \<open>screenshot\<close> requests, the
  launch of a host, the storage of artifacts, the command line, the screen of the dashboard, the
  tools and the evaluations. They are calls of the operating system, of a browser or of native
  packages, or plain glue; the exceptions (version ranges, the keyed serializer, the resource scope)
  come next.
\<close>

end
